(* ===== verification/Prelude.thy ===== *)
theory Prelude
  imports Main "HOL-Library.Word"
begin

text \<open>
  Shared vocabulary of the development: the machine types of the C++ program, the
  little-endian memory image of an unsigned integer, the insert/find/erase operations of
  the hash maps the program uses, and generic facts about runs of a step function.

  A byte is a \<^typ>\<open>char\<close> (an 8-bit value in HOL), so a \<^verbatim>\<open>std::string\<close>, a
  \<^verbatim>\<open>std::string_view\<close> and a memory area are all a \<^typ>\<open>string\<close>.
  \<^verbatim>\<open>size_t\<close> and \<^verbatim>\<open>uint64_t\<close> are 64 bit words: their addition wraps around.
\<close>

section \<open>Machine types\<close>

type_synonym size_t = "64 word"
type_synonym timestamp = "64 word"
type_synonym duration_ms = "64 word"
type_synonym byte = char

named_theorems codec_simps \<open>equations that evaluate (de)serializers\<close>
named_theorems wire_lens \<open>lengths of encoded values\<close>
named_theorems inv_steps \<open>an operation preserves an invariant\<close>

section \<open>Little-endian images of unsigned integers\<close>

fun le_bytes :: "nat \<Rightarrow> nat \<Rightarrow> byte list" where
  "le_bytes 0 n = []"
| "le_bytes (Suc k) n = char_of (n mod 256) # le_bytes k (n div 256)"

fun le_val :: "byte list \<Rightarrow> nat" where
  "le_val [] = 0"
| "le_val (c # cs) = of_char c + 256 * le_val cs"

lemma length_le_bytes [simp, wire_lens]: "length (le_bytes k n) = k"
  by (induction k arbitrary: n) auto

lemma le_val_le_bytes: "le_val (le_bytes k n) = n mod 256 ^ k"
proof (induction k arbitrary: n)
  case 0
  then show ?case by simp
next
  case (Suc k)
  have "le_val (le_bytes (Suc k) n) = n mod 256 + 256 * (n div 256 mod 256 ^ k)"
    by (simp add: Suc.IH)
  also have "\<dots> = n mod (256 * 256 ^ k)"
    by (simp add: mod_mult2_eq)
  finally show ?case by simp
qed

lemma le_bytes_le_val: "le_bytes (length cs) (le_val cs) = cs"
proof (induction cs)
  case Nil
  then show ?case by simp
next
  case (Cons c cs)
  have b: "of_char c < (256::nat)"
    using of_char_mod_256 [of c, where 'a = nat] mod_less_divisor [of 256 "of_char c :: nat"] by simp
  have "(of_char c + 256 * le_val cs) mod 256 = (of_char c :: nat)"
    using b by (simp add: mod_add_right_eq)
  moreover have "(of_char c + 256 * le_val cs) div 256 = le_val cs"
    using b by simp
  ultimately show ?case using Cons.IH by simp
qed

lemma le_val_bound: "le_val cs < 256 ^ length cs"
proof -
  have "le_val cs = le_val (le_bytes (length cs) (le_val cs))"
    by (simp add: le_bytes_le_val)
  also have "\<dots> < 256 ^ length cs"
    by (simp add: le_val_le_bytes)
  finally show ?thesis .
qed

text \<open>The memory image of a \<^verbatim>\<open>size_t\<close> (or \<^verbatim>\<open>uint64_t\<close>) object, and its reading.\<close>

definition size_bytes :: "size_t \<Rightarrow> byte list" where
  "size_bytes n = le_bytes 8 (unat n)"

definition bytes_size :: "byte list \<Rightarrow> size_t" where
  "bytes_size bs = word_of_nat (le_val bs)"

lemma length_size_bytes [simp, wire_lens]: "length (size_bytes n) = 8"
  by (simp add: size_bytes_def)

lemma size_bytes_not_Nil [simp]: "size_bytes n \<noteq> []"
  by (metis length_size_bytes list.size(3) zero_neq_numeral)

lemma bytes_size_bytes [simp, codec_simps]: "bytes_size (size_bytes n) = n"
proof -
  have "unat n < 256 ^ 8"
    using unsigned_less [of n, where 'a = nat] by simp
  then show ?thesis
    by (simp add: bytes_size_def size_bytes_def le_val_le_bytes)
qed

lemma size_bytes_bytes: "length bs = 8 \<Longrightarrow> size_bytes (bytes_size bs) = bs"
proof -
  assume l: "length bs = 8"
  have "le_val bs < 2 ^ 64"
    using le_val_bound [of bs] l by simp
  then have "unat (word_of_nat (le_val bs) :: size_t) = le_val bs"
    by (simp add: unat_of_nat)
  then show ?thesis
    using le_bytes_le_val [of bs] l by (simp add: bytes_size_def size_bytes_def)
qed

lemma size_bytes_inject [simp]: "size_bytes a = size_bytes b \<longleftrightarrow> a = b"
  by (metis bytes_size_bytes)

section \<open>Hash maps\<close>

text \<open>
  \<^verbatim>\<open>insert\<close> of \<^verbatim>\<open>std::unordered_map\<close> and of \<^verbatim>\<open>tbb::concurrent_unordered_map\<close>: an
  existing entry is kept. The result is the new map, the value the returned iterator
  points to, and whether the insertion took place.
\<close>

definition umap_insert :: "'k \<Rightarrow> 'v \<Rightarrow> ('k \<rightharpoonup> 'v) \<Rightarrow> ('k \<rightharpoonup> 'v) \<times> 'v \<times> bool" where
  "umap_insert k v m =
     (case m k of None \<Rightarrow> (m(k \<mapsto> v), v, True) | Some w \<Rightarrow> (m, w, False))"

definition umap_erase :: "'k \<Rightarrow> ('k \<rightharpoonup> 'v) \<Rightarrow> ('k \<rightharpoonup> 'v)" where
  "umap_erase k m = m(k := None)"

lemma umap_insert_fresh [simp]: "m k = None \<Longrightarrow> umap_insert k v m = (m(k \<mapsto> v), v, True)"
  by (simp add: umap_insert_def)

lemma umap_insert_present [simp]: "m k = Some w \<Longrightarrow> umap_insert k v m = (m, w, False)"
  by (simp add: umap_insert_def)

lemma dom_umap_insert [simp]: "dom (fst (umap_insert k v m)) = insert k (dom m)"
  by (cases "m k") (auto simp: dom_def)

section \<open>Runs of a step function\<close>

text \<open>
  A component whose operations are \<open>step s e\<close> for an event \<open>e\<close> is run over a list of
  events. The locale is the contract every component's invariant is proved against; each
  component interprets it on its own step function.
\<close>

fun run_steps :: "('s \<Rightarrow> 'e \<Rightarrow> 's) \<Rightarrow> 's \<Rightarrow> 'e list \<Rightarrow> 's" where
  "run_steps step s [] = s"
| "run_steps step s (e # es) = run_steps step (step s e) es"

lemma run_steps_append: "run_steps step s (xs @ ys) = run_steps step (run_steps step s xs) ys"
  by (induction xs arbitrary: s) auto

locale step_machine =
  fixes step :: "'s \<Rightarrow> 'e \<Rightarrow> 's"
    and init :: 's
    and inv :: "'s \<Rightarrow> bool"
  assumes inv_init: "inv init"
    and inv_step: "inv s \<Longrightarrow> inv (step s e)"
begin

lemma inv_run_from: "inv s \<Longrightarrow> inv (run_steps step s es)"
  by (induction es arbitrary: s) (auto intro: inv_step)

lemma inv_run: "inv (run_steps step init es)"
  by (rule inv_run_from) (rule inv_init)

end

end
