(* ===== verification/Codes.thy ===== *)
theory Codes
  imports Prelude
begin

text \<open>
  The enumerations of the program with their underlying values and their
  \<^verbatim>\<open>operator<<\<close>: libs/proto/src/codes, libs/proto/include/proto/enums.h with
  enums.cpp, outcomingrequestcontext/invalidationreason and the master's
  secondary/secondarystate. An enumeration object read from memory may hold a value that
  names no enumerator, so the printing functions and the switches that validate a value
  work on the underlying integer.
\<close>

section \<open>EventType, OpCode (libs/proto/src/codes)\<close>

datatype EventType = REQUEST | RESPONSE

datatype OpCode = ADD_MESSAGE | GET_MESSAGES | SECONDARY_NODE_READY | PING_PONG

fun EventType_val :: "EventType \<Rightarrow> nat" where
  "EventType_val REQUEST = 0"
| "EventType_val RESPONSE = 1"

fun OpCode_val :: "OpCode \<Rightarrow> nat" where
  "OpCode_val ADD_MESSAGE = 0"
| "OpCode_val GET_MESSAGES = 1"
| "OpCode_val SECONDARY_NODE_READY = 2"
| "OpCode_val PING_PONG = 3"

definition show_EventType :: "nat \<Rightarrow> string" where
  "show_EventType rhs =
     (if rhs = EventType_val REQUEST then ''EventType::REQUEST''
      else if rhs = EventType_val RESPONSE then ''EventType::RESPONSE''
      else ''EventType(invalid)'')"

definition show_OpCode :: "nat \<Rightarrow> string" where
  "show_OpCode rhs =
     (if rhs = OpCode_val ADD_MESSAGE then ''OpCode::ADD_MESSAGE''
      else if rhs = OpCode_val GET_MESSAGES then ''OpCode::GET_MESSAGES''
      else if rhs = OpCode_val SECONDARY_NODE_READY then ''OpCode::SECONDARY_NODE_READY''
      else if rhs = OpCode_val PING_PONG then ''OpCode::PING_PONG''
      else ''OpCode(invalid)'')"

section \<open>AddMessageStatus (libs/proto/include/proto/enums.h)\<close>

datatype AddMessageStatus = OK | NOT_ALLOWED

fun AddMessageStatus_val :: "AddMessageStatus \<Rightarrow> nat" where
  "AddMessageStatus_val OK = 0"
| "AddMessageStatus_val NOT_ALLOWED = 1"

definition show_AddMessageStatus :: "nat \<Rightarrow> string" where
  "show_AddMessageStatus rhs =
     (if rhs = AddMessageStatus_val OK then ''AddMessageStatus::OK''
      else if rhs = AddMessageStatus_val NOT_ALLOWED then ''AddMessageStatus::NOT_ALLOWED''
      else ''AddMessage(invalid)'')"

section \<open>InvalidationReason (outcomingrequestcontext/invalidationreason)\<close>

datatype InvalidationReason = TIMEOUT | BAD_RESPONSE_FRAME | PEER_DISCONNECTED

fun InvalidationReason_val :: "InvalidationReason \<Rightarrow> nat" where
  "InvalidationReason_val TIMEOUT = 0"
| "InvalidationReason_val BAD_RESPONSE_FRAME = 1"
| "InvalidationReason_val PEER_DISCONNECTED = 2"

definition show_InvalidationReason :: "nat \<Rightarrow> string" where
  "show_InvalidationReason rhs =
     (if rhs = InvalidationReason_val TIMEOUT then ''InvalidationReason::TIMEOUT''
      else if rhs = InvalidationReason_val BAD_RESPONSE_FRAME
        then ''InvalidationReason::BAD_RESPONSE_FRAME''
      else if rhs = InvalidationReason_val PEER_DISCONNECTED
        then ''InvalidationReason::PEER_DISCONNECTED''
      else ''InvalidationReason(invalid)'')"

section \<open>SecondaryState (app/master-node/secondary/secondarystate)\<close>

datatype SecondaryState = INVALIDATED | REGISTERING | OPERATIONAL

fun SecondaryState_val :: "SecondaryState \<Rightarrow> nat" where
  "SecondaryState_val INVALIDATED = 0"
| "SecondaryState_val REGISTERING = 1"
| "SecondaryState_val OPERATIONAL = 2"

definition show_SecondaryState :: "nat \<Rightarrow> string" where
  "show_SecondaryState rhs =
     (if rhs = SecondaryState_val INVALIDATED then ''SecondaryState::INVALIDATED''
      else if rhs = SecondaryState_val REGISTERING then ''SecondaryState::REGISTERING''
      else if rhs = SecondaryState_val OPERATIONAL then ''SecondaryState::OPERATIONAL''
      else ''SecondaryState(invalid)'')"

section \<open>Underlying values\<close>

lemma enum_val_inject [simp]:
  "EventType_val a = EventType_val b \<longleftrightarrow> a = b"
  "OpCode_val c = OpCode_val d \<longleftrightarrow> c = d"
  "AddMessageStatus_val e = AddMessageStatus_val f \<longleftrightarrow> e = f"
  "SecondaryState_val g = SecondaryState_val h \<longleftrightarrow> g = h"
     apply (cases a; cases b; simp)
    apply (cases c; cases d; simp)
   apply (cases e; cases f; simp)
  apply (cases g; cases h; simp)
  done

lemma enum_val_byte [simp]:
  "EventType_val a < 256" "OpCode_val c < 256" "AddMessageStatus_val e < 256"
    apply (cases a; simp)
   apply (cases c; simp)
  apply (cases e; simp)
  done

text \<open>
  The object representation of an enumeration with underlying type \<^verbatim>\<open>uint8_t\<close> is one
  byte.
\<close>

definition enum_bytes :: "nat \<Rightarrow> byte list" where
  "enum_bytes v = [char_of v]"

definition bytes_enum :: "byte list \<Rightarrow> nat" where
  "bytes_enum bs = le_val bs"

lemma length_enum_bytes [simp, wire_lens]: "length (enum_bytes v) = 1"
  by (simp add: enum_bytes_def)

lemma bytes_enum_bytes [codec_simps]: "v < 256 \<Longrightarrow> bytes_enum (enum_bytes v) = v"
  by (simp add: bytes_enum_def enum_bytes_def)

end
