(* ===== verification/Buffers.thy ===== *)
theory Buffers
  imports Codes
begin

text \<open>
  libs/proto/src/deserialization and libs/proto/src/serialization.

  A \<^verbatim>\<open>boost::asio::const_buffer\<close> is a pointer and a size: the model keeps the bytes it
  points to, and \<^const>\<open>None\<close> for the null buffer. \<^verbatim>\<open>BufferDeserializer\<close> keeps the
  three pointers \<^verbatim>\<open>begin_\<close>, \<^verbatim>\<open>end_\<close>, \<^verbatim>\<open>current_\<close>; the model keeps the memory
  behind \<^verbatim>\<open>begin_\<close> and the two other pointers as offsets from it. A buffer sequence
  (\<^verbatim>\<open>std::vector<const_buffer>\<close>) is the list of the byte runs its entries point to.

  \<open>bd_at pre rest\<close> is the deserializer that has consumed \<open>pre\<close> and has \<open>rest\<close>
  left; the equations of \<open>codec_simps\<close> evaluate every operation on it, on success and on
  failure.
\<close>

type_synonym const_buffer = "byte list option"

type_synonym buffer_seq = "byte list list"

section \<open>BufferDeserializer\<close>

record BufferDeserializer =
  bd_begin :: "byte list option"
  bd_end :: nat
  bd_current :: nat

definition BufferDeserializer_ctor :: "const_buffer \<Rightarrow> BufferDeserializer" where
  "BufferDeserializer_ctor buffer =
     \<lparr>bd_begin = buffer,
      bd_end = (case buffer of None \<Rightarrow> 0 | Some m \<Rightarrow> length m),
      bd_current = 0\<rparr>"

definition atEnd :: "BufferDeserializer \<Rightarrow> bool" where
  "atEnd d \<longleftrightarrow> bd_current d = bd_end d"

definition leftover :: "BufferDeserializer \<Rightarrow> const_buffer" where
  "leftover d =
     (case bd_begin d of
        None \<Rightarrow> None
      | Some m \<Rightarrow> Some (take (bd_end d - bd_current d) (drop (bd_current d) m)))"

definition getMemoryAndAdvance ::
    "BufferDeserializer \<Rightarrow> nat \<Rightarrow> byte list option \<times> BufferDeserializer" where
  "getMemoryAndAdvance d bytes =
     (case bd_begin d of
        None \<Rightarrow> (None, d)
      | Some m \<Rightarrow>
          let leftoverBytes = bd_end d - bd_current d
          in if leftoverBytes < bytes then (None, d)
             else (Some (take bytes (drop (bd_current d) m)),
                   d\<lparr>bd_current := bd_current d + bytes\<rparr>))"

text \<open>
  The template \<^verbatim>\<open>deserialize<T>()\<close> at the types the program uses: \<^verbatim>\<open>size_t\<close> and
  \<^verbatim>\<open>Timestamp_t\<close> (8 bytes), an enumeration over \<^verbatim>\<open>uint8_t\<close> (1 byte, returned as its
  underlying value), and the two string forms.
\<close>

definition deserialize_size :: "BufferDeserializer \<Rightarrow> size_t option \<times> BufferDeserializer" where
  "deserialize_size d =
     (case getMemoryAndAdvance d 8 of
        (None, d') \<Rightarrow> (None, d')
      | (Some mem, d') \<Rightarrow> (Some (bytes_size mem), d'))"

definition deserialize_enum :: "BufferDeserializer \<Rightarrow> nat option \<times> BufferDeserializer" where
  "deserialize_enum d =
     (case getMemoryAndAdvance d 1 of
        (None, d') \<Rightarrow> (None, d')
      | (Some mem, d') \<Rightarrow> (Some (bytes_enum mem), d'))"

definition deserialize_string ::
    "BufferDeserializer \<Rightarrow> string option \<times> BufferDeserializer" where
  "deserialize_string d =
     (case bd_begin d of
        None \<Rightarrow> (None, d)
      | Some _ \<Rightarrow>
          (case getMemoryAndAdvance d (bd_end d - bd_current d) of
             (None, d') \<Rightarrow> (None, d')
           | (Some mem, d') \<Rightarrow> (Some mem, d')))"

definition deserialize_string_n ::
    "BufferDeserializer \<Rightarrow> size_t \<Rightarrow> string option \<times> BufferDeserializer" where
  "deserialize_string_n d sz =
     (case getMemoryAndAdvance d (unat sz) of
        (None, d') \<Rightarrow> (None, d')
      | (Some mem, d') \<Rightarrow> (Some mem, d'))"

subsection \<open>The pointers stay inside the buffer\<close>

definition bd_inv :: "BufferDeserializer \<Rightarrow> bool" where
  "bd_inv d \<longleftrightarrow>
     bd_current d \<le> bd_end d \<and>
     bd_end d = (case bd_begin d of None \<Rightarrow> 0 | Some m \<Rightarrow> length m)"

lemma bd_inv_ctor [simp]: "bd_inv (BufferDeserializer_ctor b)"
  by (simp add: bd_inv_def BufferDeserializer_ctor_def)

lemma bd_inv_getMemoryAndAdvance:
  "bd_inv d \<Longrightarrow> bd_inv (snd (getMemoryAndAdvance d n))"
  by (auto simp: bd_inv_def getMemoryAndAdvance_def Let_def split: option.splits)

lemmas deserialize_defs =
  deserialize_size_def deserialize_enum_def deserialize_string_def deserialize_string_n_def

lemma bd_inv_deserialize:
  assumes "bd_inv d"
  shows "bd_inv (snd (deserialize_size d))" "bd_inv (snd (deserialize_enum d))"
    "bd_inv (snd (deserialize_string d))" "bd_inv (snd (deserialize_string_n d n))"
  using assms bd_inv_getMemoryAndAdvance [OF assms]
  by (simp_all add: deserialize_defs split: option.splits prod.splits) (metis snd_conv)+

subsection \<open>Evaluation on a buffer split at the read position\<close>

definition bd_at :: "byte list \<Rightarrow> byte list \<Rightarrow> BufferDeserializer" where
  "bd_at pre rest =
     \<lparr>bd_begin = Some (pre @ rest), bd_end = length pre + length rest,
      bd_current = length pre\<rparr>"

definition bd_null :: BufferDeserializer where
  "bd_null = \<lparr>bd_begin = None, bd_end = 0, bd_current = 0\<rparr>"

lemma ctor_eqs [codec_simps]:
  "BufferDeserializer_ctor None = bd_null"
  "BufferDeserializer_ctor (Some m) = bd_at [] m"
  by (simp_all add: BufferDeserializer_ctor_def bd_null_def bd_at_def)

lemma atEnd_eqs [codec_simps]:
  "atEnd bd_null" "atEnd (bd_at pre rest) \<longleftrightarrow> rest = []"
  by (simp_all add: atEnd_def bd_null_def bd_at_def)

lemma leftover_eqs [codec_simps]:
  "leftover bd_null = None" "leftover (bd_at pre rest) = Some rest"
  by (simp_all add: leftover_def bd_null_def bd_at_def)

lemma getMemoryAndAdvance_eqs [codec_simps]:
  "getMemoryAndAdvance bd_null n = (None, bd_null)"
  "getMemoryAndAdvance (bd_at pre rest) n =
     (if length rest < n then (None, bd_at pre rest)
      else (Some (take n rest), bd_at (pre @ take n rest) (drop n rest)))"
  by (simp_all add: getMemoryAndAdvance_def bd_null_def bd_at_def)

lemma deserialize_null_eqs [codec_simps]:
  "deserialize_size bd_null = (None, bd_null)"
  "deserialize_enum bd_null = (None, bd_null)"
  "deserialize_string bd_null = (None, bd_null)"
  "deserialize_string_n bd_null n = (None, bd_null)"
  unfolding deserialize_defs by (simp_all add: codec_simps) (simp add: bd_null_def)

lemma deserialize_size_eq [codec_simps]:
  "deserialize_size (bd_at pre rest) =
     (if length rest < 8 then (None, bd_at pre rest)
      else (Some (bytes_size (take 8 rest)), bd_at (pre @ take 8 rest) (drop 8 rest)))"
  by (simp add: deserialize_size_def codec_simps)

lemma deserialize_enum_Nil [codec_simps]: "deserialize_enum (bd_at pre []) = (None, bd_at pre [])"
  by (simp add: deserialize_enum_def codec_simps)

lemma deserialize_enum_Cons [codec_simps]:
  "deserialize_enum (bd_at pre (c # rest)) = (Some (of_char c), bd_at (pre @ [c]) rest)"
  by (simp add: deserialize_enum_def bytes_enum_def codec_simps)

lemma deserialize_string_eq [codec_simps]:
  "deserialize_string (bd_at pre rest) = (Some rest, bd_at (pre @ rest) [])"
proof -
  have "bd_end (bd_at pre rest) - bd_current (bd_at pre rest) = length rest"
    "bd_begin (bd_at pre rest) = Some (pre @ rest)"
    by (simp_all add: bd_at_def)
  then show ?thesis
    by (simp add: deserialize_string_def getMemoryAndAdvance_eqs)
qed

lemma deserialize_string_n_eq [codec_simps]:
  "deserialize_string_n (bd_at pre rest) n =
     (if length rest < unat n then (None, bd_at pre rest)
      else (Some (take (unat n) rest), bd_at (pre @ take (unat n) rest) (drop (unat n) rest)))"
  by (simp add: deserialize_string_n_def codec_simps)

section \<open>BufferSequenceSerializer\<close>

text \<open>
  The private overload pushes a buffer unless the pointer is null; the two templates take
  the object representation of an integer or enumeration, and the characters of a string.
  Every \<^verbatim>\<open>std::string_view\<close> of the program views a \<^verbatim>\<open>std::string\<close>, so its pointer
  is not null.
\<close>

definition serializeWoOwnership :: "byte list option \<Rightarrow> buffer_seq \<Rightarrow> buffer_seq" where
  "serializeWoOwnership memory seq =
     (case memory of None \<Rightarrow> seq | Some bytes \<Rightarrow> seq @ [bytes])"

definition serialize_size :: "size_t \<Rightarrow> buffer_seq \<Rightarrow> buffer_seq" where
  "serialize_size val seq = serializeWoOwnership (Some (size_bytes val)) seq"

definition serialize_enum :: "nat \<Rightarrow> buffer_seq \<Rightarrow> buffer_seq" where
  "serialize_enum val seq = serializeWoOwnership (Some (enum_bytes val)) seq"

definition serialize_string :: "string \<Rightarrow> buffer_seq \<Rightarrow> buffer_seq" where
  "serialize_string val seq = serializeWoOwnership (Some val) seq"

lemma serialize_eqs [codec_simps]:
  "serialize_size n seq = seq @ [size_bytes n]"
  "serialize_enum v seq = seq @ [enum_bytes v]"
  "serialize_string s seq = seq @ [s]"
  by (simp_all add: serialize_size_def serialize_enum_def serialize_string_def
      serializeWoOwnership_def)

end
