(* ===== verification/Requests.thy ===== *)
theory Requests
  imports Buffers
begin

text \<open>
  libs/proto/src/request: the four request messages, their construction, payload
  serialization, parsing from a payload and their opcodes. A null \<^verbatim>\<open>shared_ptr\<close> is
  \<^const>\<open>None\<close>. The locale \<open>payload_codec\<close> states what a message class promises to the
  framing layer; every request class (and, in theory Responses, every response class)
  interprets it.
\<close>

section \<open>The contract of a payload codec\<close>

text \<open>
  \<open>ser\<close> appends the buffers of a message to a sequence, \<open>par\<close> reads a message back from
  a payload, \<open>valid\<close> says which messages the wire format can carry.
\<close>

locale payload_codec =
  fixes ser :: "'m \<Rightarrow> buffer_seq \<Rightarrow> buffer_seq"
    and par :: "const_buffer \<Rightarrow> 'm option"
    and valid :: "'m \<Rightarrow> bool"
  assumes ser_append: "ser m seq = seq @ ser m []"
    and par_ser: "valid m \<Longrightarrow> par (Some (concat (ser m []))) = Some m"
    and par_exact: "par (Some bs) = Some m \<Longrightarrow> valid m \<and> bs = concat (ser m [])"
begin

lemma concat_ser: "concat (ser m seq) = concat seq @ concat (ser m [])"
  by (subst ser_append) simp

lemma wire_inject:
  "valid m \<Longrightarrow> valid m' \<Longrightarrow> concat (ser m []) = concat (ser m' []) \<Longrightarrow> m = m'"
  by (metis option.inject par_ser)

lemma par_iff: "valid m \<Longrightarrow> par (Some bs) = Some m \<longleftrightarrow> bs = concat (ser m [])"
  by (auto simp: par_ser dest: par_exact)

lemma par_trailing:
  "valid m \<Longrightarrow> junk \<noteq> [] \<Longrightarrow> par (Some (concat (ser m []) @ junk)) \<noteq> Some m"
  by (auto dest: par_exact)

end

section \<open>AddMessage\<close>

record Request_AddMessage =
  ram_messageId :: size_t
  ram_messageOwner :: "string option"
  ram_messageView :: string

definition Request_AddMessage_create :: "size_t \<Rightarrow> string \<Rightarrow> Request_AddMessage" where
  "Request_AddMessage_create messageId messageView =
     \<lparr>ram_messageId = messageId, ram_messageOwner = None, ram_messageView = messageView\<rparr>"

text \<open>The second constructor owns the message; the view refers to the owned string.\<close>

definition Request_AddMessage_owning :: "size_t \<Rightarrow> string \<Rightarrow> Request_AddMessage" where
  "Request_AddMessage_owning messageId message =
     \<lparr>ram_messageId = messageId, ram_messageOwner = Some message, ram_messageView = message\<rparr>"

definition Request_AddMessage_fromPayload :: "const_buffer \<Rightarrow> Request_AddMessage option" where
  "Request_AddMessage_fromPayload buffer =
     (let deserializer = BufferDeserializer_ctor buffer;
          (optId, deserializer) = deserialize_size deserializer;
          (optMessage, deserializer) = deserialize_string deserializer
      in case (optId, optMessage) of
           (Some i, Some msg) \<Rightarrow>
             if atEnd deserializer then Some (Request_AddMessage_owning i msg) else None
         | _ \<Rightarrow> None)"

definition Request_AddMessage_serializePayload ::
    "Request_AddMessage \<Rightarrow> buffer_seq \<Rightarrow> buffer_seq" where
  "Request_AddMessage_serializePayload r seq =
     serialize_string (ram_messageView r) (serialize_size (ram_messageId r) seq)"

text \<open>
  \<^verbatim>\<open>flushMessage()\<close> moves the owned message out, taking a copy of the view first when
  nothing is owned; the request keeps a moved-from owner.
\<close>

definition Request_AddMessage_flushMessage ::
    "Request_AddMessage \<Rightarrow> string \<times> Request_AddMessage" where
  "Request_AddMessage_flushMessage r =
     (let owner = (case ram_messageOwner r of None \<Rightarrow> ram_messageView r | Some m \<Rightarrow> m)
      in (owner, r\<lparr>ram_messageOwner := Some []\<rparr>))"

section \<open>GetMessages, Ping, SecondaryNodeReady\<close>

record Request_GetMessages =
  rgm_startMessageId :: size_t

definition Request_GetMessages_create :: "size_t \<Rightarrow> Request_GetMessages" where
  "Request_GetMessages_create startMessageId = \<lparr>rgm_startMessageId = startMessageId\<rparr>"

definition Request_GetMessages_fromPayload :: "const_buffer \<Rightarrow> Request_GetMessages option" where
  "Request_GetMessages_fromPayload buffer =
     (let deserializer = BufferDeserializer_ctor buffer;
          (optStartMessageId, deserializer) = deserialize_size deserializer
      in case optStartMessageId of
           None \<Rightarrow> None
         | Some i \<Rightarrow>
             if \<not> atEnd deserializer then None else Some (Request_GetMessages_create i))"

definition Request_GetMessages_serializePayload ::
    "Request_GetMessages \<Rightarrow> buffer_seq \<Rightarrow> buffer_seq" where
  "Request_GetMessages_serializePayload r seq = serialize_size (rgm_startMessageId r) seq"

record Request_Ping =
  rp_timestamp :: timestamp

definition Request_Ping_create :: "timestamp \<Rightarrow> Request_Ping" where
  "Request_Ping_create t = \<lparr>rp_timestamp = t\<rparr>"

definition Request_Ping_fromPayload :: "const_buffer \<Rightarrow> Request_Ping option" where
  "Request_Ping_fromPayload buffer =
     (let deserializer = BufferDeserializer_ctor buffer;
          (optTimestamp, deserializer) = deserialize_size deserializer
      in case optTimestamp of
           None \<Rightarrow> None
         | Some t \<Rightarrow> if \<not> atEnd deserializer then None else Some (Request_Ping_create t))"

definition Request_Ping_serializePayload :: "Request_Ping \<Rightarrow> buffer_seq \<Rightarrow> buffer_seq" where
  "Request_Ping_serializePayload r seq = serialize_size (rp_timestamp r) seq"

record Request_SecondaryNodeReady =
  rsr_secondaryNodeName :: string

definition Request_SecondaryNodeReady_create :: "string \<Rightarrow> Request_SecondaryNodeReady" where
  "Request_SecondaryNodeReady_create name = \<lparr>rsr_secondaryNodeName = name\<rparr>"

definition Request_SecondaryNodeReady_fromPayload ::
    "const_buffer \<Rightarrow> Request_SecondaryNodeReady option" where
  "Request_SecondaryNodeReady_fromPayload buffer =
     (let deserializer = BufferDeserializer_ctor buffer;
          (optName, deserializer) = deserialize_string deserializer
      in case optName of
           None \<Rightarrow> None
         | Some n \<Rightarrow>
             if \<not> atEnd deserializer then None
             else Some (Request_SecondaryNodeReady_create n))"

definition Request_SecondaryNodeReady_serializePayload ::
    "Request_SecondaryNodeReady \<Rightarrow> buffer_seq \<Rightarrow> buffer_seq" where
  "Request_SecondaryNodeReady_serializePayload r seq =
     serialize_string (rsr_secondaryNodeName r) seq"

definition Request_SecondaryNodeReady_flushSecondaryNodeName ::
    "Request_SecondaryNodeReady \<Rightarrow> string \<times> Request_SecondaryNodeReady" where
  "Request_SecondaryNodeReady_flushSecondaryNodeName r =
     (rsr_secondaryNodeName r, r\<lparr>rsr_secondaryNodeName := []\<rparr>)"

section \<open>AbstractRequest\<close>

text \<open>The class hierarchy: the virtual functions dispatch on the dynamic class.\<close>

datatype Request =
    Req_AddMessage Request_AddMessage
  | Req_GetMessages Request_GetMessages
  | Req_Ping Request_Ping
  | Req_SecondaryNodeReady Request_SecondaryNodeReady

fun Request_opCode :: "Request \<Rightarrow> OpCode" where
  "Request_opCode (Req_AddMessage _) = ADD_MESSAGE"
| "Request_opCode (Req_GetMessages _) = GET_MESSAGES"
| "Request_opCode (Req_Ping _) = PING_PONG"
| "Request_opCode (Req_SecondaryNodeReady _) = SECONDARY_NODE_READY"

fun Request_serializePayload :: "Request \<Rightarrow> buffer_seq \<Rightarrow> buffer_seq" where
  "Request_serializePayload (Req_AddMessage r) seq = Request_AddMessage_serializePayload r seq"
| "Request_serializePayload (Req_GetMessages r) seq = Request_GetMessages_serializePayload r seq"
| "Request_serializePayload (Req_Ping r) seq = Request_Ping_serializePayload r seq"
| "Request_serializePayload (Req_SecondaryNodeReady r) seq =
     Request_SecondaryNodeReady_serializePayload r seq"

section \<open>The request classes are payload codecs\<close>

lemmas request_defs =
  Request_AddMessage_create_def Request_AddMessage_owning_def
  Request_AddMessage_fromPayload_def Request_AddMessage_serializePayload_def
  Request_AddMessage_flushMessage_def
  Request_GetMessages_create_def Request_GetMessages_fromPayload_def
  Request_GetMessages_serializePayload_def
  Request_Ping_create_def Request_Ping_fromPayload_def Request_Ping_serializePayload_def
  Request_SecondaryNodeReady_create_def Request_SecondaryNodeReady_fromPayload_def
  Request_SecondaryNodeReady_serializePayload_def
  Request_SecondaryNodeReady_flushSecondaryNodeName_def

text \<open>
  A parsed AddMessage request owns its message: it is the owning form of what was sent, so
  the codec law is stated on objects of that form.
\<close>

definition owns_message :: "Request_AddMessage \<Rightarrow> bool" where
  "owns_message r \<longleftrightarrow> ram_messageOwner r = Some (ram_messageView r)"

lemma Request_AddMessage_fromPayload_eq:
  "Request_AddMessage_fromPayload (Some bs) =
     (if length bs < 8 then None
      else Some (Request_AddMessage_owning (bytes_size (take 8 bs)) (drop 8 bs)))"
  by (simp add: request_defs codec_simps)

interpretation req_add: payload_codec
  Request_AddMessage_serializePayload Request_AddMessage_fromPayload owns_message
proof
  fix m :: Request_AddMessage and bs
  assume "Request_AddMessage_fromPayload (Some bs) = Some m"
  then show "owns_message m \<and> bs = concat (Request_AddMessage_serializePayload m [])"
    by (auto simp: Request_AddMessage_fromPayload_eq Request_AddMessage_serializePayload_def
        Request_AddMessage_owning_def owns_message_def codec_simps size_bytes_bytes
        split: if_splits)
qed (auto simp: Request_AddMessage_fromPayload_eq Request_AddMessage_serializePayload_def
    Request_AddMessage_owning_def owns_message_def codec_simps)

interpretation req_get: payload_codec
  Request_GetMessages_serializePayload Request_GetMessages_fromPayload "\<lambda>_. True"
  by unfold_locales
    (auto simp: request_defs codec_simps size_bytes_bytes split: if_splits)

interpretation req_ping: payload_codec
  Request_Ping_serializePayload Request_Ping_fromPayload "\<lambda>_. True"
  by unfold_locales
    (auto simp: request_defs codec_simps size_bytes_bytes split: if_splits)

interpretation req_ready: payload_codec
  Request_SecondaryNodeReady_serializePayload Request_SecondaryNodeReady_fromPayload "\<lambda>_. True"
  by unfold_locales (auto simp: request_defs codec_simps)

text \<open>What a request says, whichever constructor built it.\<close>

definition ram_content :: "Request_AddMessage \<Rightarrow> size_t \<times> string" where
  "ram_content r = (ram_messageId r, ram_messageView r)"

lemma AddMessage_wire_roundtrip:
  "\<exists>r'. Request_AddMessage_fromPayload (Some (concat (Request_AddMessage_serializePayload r []))) = Some r' \<and>
        ram_content r' = ram_content r \<and> fst (Request_AddMessage_flushMessage r') = ram_messageView r"
  by (simp add: Request_AddMessage_fromPayload_eq Request_AddMessage_serializePayload_def
      Request_AddMessage_owning_def ram_content_def Request_AddMessage_flushMessage_def codec_simps)

lemma Request_serializePayload_append:
  "Request_serializePayload r seq = seq @ Request_serializePayload r []"
proof (cases r)
  case (Req_AddMessage x)
  then show ?thesis by simp (rule req_add.ser_append)
next
  case (Req_GetMessages x)
  then show ?thesis by simp (rule req_get.ser_append)
next
  case (Req_Ping x)
  then show ?thesis by simp (rule req_ping.ser_append)
next
  case (Req_SecondaryNodeReady x)
  then show ?thesis by simp (rule req_ready.ser_append)
qed

end
