(* ===== verification/Responses.thy ===== *)
theory Responses
  imports Requests
begin

text \<open>
  libs/proto/src/response: the four response messages. \<^verbatim>\<open>GetMessages::fromPayload\<close>
  reserves as many strings as the payload announces before it reads one, and
  \<^verbatim>\<open>std::vector::reserve\<close> throws \<^verbatim>\<open>std::length_error\<close> beyond \<^verbatim>\<open>max_size()\<close>
  and \<^verbatim>\<open>std::bad_alloc\<close> when the memory is not available, so its result is a sum:
  \<^const>\<open>Inl\<close> the exception, \<^const>\<open>Inr\<close> the (possibly null) response. The parameter
  \<open>alloc n\<close> says whether memory for \<open>n\<close> strings is available. The loop over the
  announced number of messages is structural recursion on that number; every iteration
  reads at least 8 bytes, so it stops with a failure when the announced number is too
  large for the payload.
\<close>

datatype cpp_exception =
    LengthError
  | BadAlloc
  | BadOptionalAccess
  | PromiseAlreadySatisfied
  | RuntimeError string

section \<open>AddMessage\<close>

record Response_AddMessage =
  sam_status :: AddMessageStatus

definition Response_AddMessage_create :: "AddMessageStatus \<Rightarrow> Response_AddMessage" where
  "Response_AddMessage_create status = \<lparr>sam_status = status\<rparr>"

definition Response_AddMessage_fromPayload :: "const_buffer \<Rightarrow> Response_AddMessage option" where
  "Response_AddMessage_fromPayload buffer =
     (let deserializer = BufferDeserializer_ctor buffer;
          (optStatus, deserializer) = deserialize_enum deserializer
      in case optStatus of
           None \<Rightarrow> None
         | Some status \<Rightarrow>
             if \<not> atEnd deserializer then None
             else if status = AddMessageStatus_val OK
               then Some (Response_AddMessage_create OK)
             else if status = AddMessageStatus_val NOT_ALLOWED
               then Some (Response_AddMessage_create NOT_ALLOWED)
             else None)"

definition Response_AddMessage_serializePayload ::
    "Response_AddMessage \<Rightarrow> buffer_seq \<Rightarrow> buffer_seq" where
  "Response_AddMessage_serializePayload r seq =
     serialize_enum (AddMessageStatus_val (sam_status r)) seq"

section \<open>GetMessages\<close>

record Response_GetMessages =
  sgm_messages :: "string list option"
  sgm_views :: "string list"
  sgm_messagesNum :: size_t
  sgm_sizes :: "size_t list"

definition calcSizes :: "string list \<Rightarrow> size_t list" where
  "calcSizes views = map (\<lambda>view. word_of_nat (length view)) views"

definition Response_GetMessages_create :: "string list \<Rightarrow> Response_GetMessages" where
  "Response_GetMessages_create views =
     \<lparr>sgm_messages = None, sgm_views = views,
      sgm_messagesNum = word_of_nat (length views), sgm_sizes = calcSizes views\<rparr>"

definition Response_GetMessages_owning :: "string list \<Rightarrow> Response_GetMessages" where
  "Response_GetMessages_owning messages =
     \<lparr>sgm_messages = Some messages, sgm_views = messages,
      sgm_messagesNum = word_of_nat (length messages), sgm_sizes = calcSizes messages\<rparr>"

text \<open>
  \<^verbatim>\<open>max_size()\<close> of a vector of 32 byte strings on a 64 bit platform (libstdc++:
  \<^verbatim>\<open>PTRDIFF_MAX / sizeof(T)\<close>).
\<close>

definition string_vector_max_size :: nat where
  "string_vector_max_size = (2 ^ 63 - 1) div 32"

definition vector_reserve :: "(nat \<Rightarrow> bool) \<Rightarrow> nat \<Rightarrow> cpp_exception + unit" where
  "vector_reserve alloc n =
     (if string_vector_max_size < n then Inl LengthError
      else if \<not> alloc n then Inl BadAlloc
      else Inr ())"

fun Response_GetMessages_loop ::
    "nat \<Rightarrow> BufferDeserializer \<Rightarrow> string list \<Rightarrow> (string list \<times> BufferDeserializer) option" where
  "Response_GetMessages_loop 0 deserializer messages = Some (messages, deserializer)"
| "Response_GetMessages_loop (Suc left) deserializer messages =
     (case deserialize_size deserializer of
        (None, _) \<Rightarrow> None
      | (Some messageSize, deserializer') \<Rightarrow>
          (case deserialize_string_n deserializer' messageSize of
             (None, _) \<Rightarrow> None
           | (Some message, deserializer'') \<Rightarrow>
               Response_GetMessages_loop left deserializer'' (messages @ [message])))"

definition Response_GetMessages_fromPayload ::
    "(nat \<Rightarrow> bool) \<Rightarrow> const_buffer \<Rightarrow> cpp_exception + Response_GetMessages option" where
  "Response_GetMessages_fromPayload alloc buffer =
     (let deserializer = BufferDeserializer_ctor buffer;
          (optMessagesNum, deserializer) = deserialize_size deserializer
      in case optMessagesNum of
           None \<Rightarrow> Inr None
         | Some messagesNum \<Rightarrow>
             (case vector_reserve alloc (unat messagesNum) of
                Inl e \<Rightarrow> Inl e
              | Inr _ \<Rightarrow>
                  (case Response_GetMessages_loop (unat messagesNum) deserializer [] of
                     None \<Rightarrow> Inr None
                   | Some (messages, deserializer) \<Rightarrow>
                       if \<not> atEnd deserializer then Inr None
                       else Inr (Some (Response_GetMessages_owning messages)))))"

definition Response_GetMessages_serializePayload ::
    "Response_GetMessages \<Rightarrow> buffer_seq \<Rightarrow> buffer_seq" where
  "Response_GetMessages_serializePayload r seq =
     (let seq = serialize_size (sgm_messagesNum r) seq;
          mx = max (length (sgm_views r)) (length (sgm_sizes r))
      in fold (\<lambda>i seq. serialize_string (sgm_views r ! i) (serialize_size (sgm_sizes r ! i) seq))
           [0..<mx] seq)"

text \<open>
  \<^verbatim>\<open>flushMessages()\<close>: the branch for a response that owns no messages fills a local
  vector that shadows nothing and then asks the empty optional for its value.
\<close>

definition Response_GetMessages_flushMessages ::
    "Response_GetMessages \<Rightarrow> cpp_exception + string list" where
  "Response_GetMessages_flushMessages r =
     (case sgm_messages r of
        None \<Rightarrow> Inl BadOptionalAccess
      | Some messages \<Rightarrow> Inr messages)"

section \<open>Pong, SecondaryNodeReady\<close>

record Response_Pong =
  sp_timestamp :: timestamp

definition Response_Pong_create :: "timestamp \<Rightarrow> Response_Pong" where
  "Response_Pong_create t = \<lparr>sp_timestamp = t\<rparr>"

definition Response_Pong_fromPayload :: "const_buffer \<Rightarrow> Response_Pong option" where
  "Response_Pong_fromPayload buffer =
     (let deserializer = BufferDeserializer_ctor buffer;
          (optTimestamp, deserializer) = deserialize_size deserializer
      in case optTimestamp of
           None \<Rightarrow> None
         | Some t \<Rightarrow> if \<not> atEnd deserializer then None else Some (Response_Pong_create t))"

definition Response_Pong_serializePayload :: "Response_Pong \<Rightarrow> buffer_seq \<Rightarrow> buffer_seq" where
  "Response_Pong_serializePayload r seq = serialize_size (sp_timestamp r) seq"

datatype Response_SecondaryNodeReady = Response_SecondaryNodeReady_create

definition Response_SecondaryNodeReady_fromPayload ::
    "const_buffer \<Rightarrow> Response_SecondaryNodeReady option" where
  "Response_SecondaryNodeReady_fromPayload buffer =
     (let deserializer = BufferDeserializer_ctor buffer
      in if \<not> atEnd deserializer then None else Some Response_SecondaryNodeReady_create)"

definition Response_SecondaryNodeReady_serializePayload ::
    "Response_SecondaryNodeReady \<Rightarrow> buffer_seq \<Rightarrow> buffer_seq" where
  "Response_SecondaryNodeReady_serializePayload r seq = seq"

section \<open>AbstractResponse\<close>

datatype Response =
    Resp_AddMessage Response_AddMessage
  | Resp_GetMessages Response_GetMessages
  | Resp_Pong Response_Pong
  | Resp_SecondaryNodeReady Response_SecondaryNodeReady

text \<open>\<^verbatim>\<open>SecondaryNodeReady::opCode\<close> returns \<^const>\<open>PING_PONG\<close>, as the code has it.\<close>

fun Response_opCode :: "Response \<Rightarrow> OpCode" where
  "Response_opCode (Resp_AddMessage _) = ADD_MESSAGE"
| "Response_opCode (Resp_GetMessages _) = GET_MESSAGES"
| "Response_opCode (Resp_Pong _) = PING_PONG"
| "Response_opCode (Resp_SecondaryNodeReady _) = PING_PONG"

fun Response_serializePayload :: "Response \<Rightarrow> buffer_seq \<Rightarrow> buffer_seq" where
  "Response_serializePayload (Resp_AddMessage r) seq = Response_AddMessage_serializePayload r seq"
| "Response_serializePayload (Resp_GetMessages r) seq = Response_GetMessages_serializePayload r seq"
| "Response_serializePayload (Resp_Pong r) seq = Response_Pong_serializePayload r seq"
| "Response_serializePayload (Resp_SecondaryNodeReady r) seq =
     Response_SecondaryNodeReady_serializePayload r seq"

section \<open>The GetMessages payload\<close>

text \<open>The bytes of one message, and of a list of messages.\<close>

definition message_bytes :: "string \<Rightarrow> byte list" where
  "message_bytes m = size_bytes (word_of_nat (length m)) @ m"

definition messages_bytes :: "string list \<Rightarrow> byte list" where
  "messages_bytes ms = concat (map message_bytes ms)"

lemma messages_bytes_simps [simp]:
  "messages_bytes [] = []"
  "messages_bytes (m # ms) = message_bytes m @ messages_bytes ms"
  by (simp_all add: messages_bytes_def)

lemma length_message_bytes [wire_lens]: "length (message_bytes m) = 8 + length m"
  by (simp add: message_bytes_def)

definition fits_wire :: "string list \<Rightarrow> bool" where
  "fits_wire ms \<longleftrightarrow>
     length ms \<le> string_vector_max_size \<and> (\<forall>m \<in> set ms. length m < 2 ^ 64)"

lemma serialize_pairs:
  assumes "length ss = length vs"
  shows "fold (\<lambda>i seq. serialize_string (vs ! i) (serialize_size (ss ! i) seq)) [0..<length vs] seq
       = seq @ concat (map (\<lambda>(s, v). [size_bytes s, v]) (zip ss vs))"
  using assms
proof (induction vs arbitrary: ss rule: rev_induct)
  case Nil
  then show ?case by simp
next
  case (snoc v vs)
  then obtain ss' s where ss: "ss = ss' @ [s]" "length ss' = length vs"
    by (cases ss rule: rev_cases) auto
  have "fold (\<lambda>i seq. serialize_string ((vs @ [v]) ! i) (serialize_size (ss ! i) seq)) [0..<length vs] seq
      = fold (\<lambda>i seq. serialize_string (vs ! i) (serialize_size (ss' ! i) seq)) [0..<length vs] seq"
    by (rule fold_cong) (auto simp: ss nth_append)
  then show ?case
    using snoc.IH [OF ss(2)] ss by (simp add: codec_simps nth_append)
qed

lemma GetMessages_wire:
  assumes "sgm_views r = ms" "sgm_sizes r = calcSizes ms"
    "sgm_messagesNum r = word_of_nat (length ms)"
  shows "concat (Response_GetMessages_serializePayload r seq)
       = concat seq @ size_bytes (word_of_nat (length ms)) @ messages_bytes ms"
proof -
  have zip: "concat (concat (map (\<lambda>(s, v). [size_bytes s, v]) (zip (calcSizes ms) ms))) = messages_bytes ms"
    by (induction ms) (simp_all add: calcSizes_def message_bytes_def)
  have "length (calcSizes ms) = length ms" by (simp add: calcSizes_def)
  then show ?thesis
    using assms serialize_pairs [of "calcSizes ms" ms]
    by (simp add: Response_GetMessages_serializePayload_def zip serialize_eqs(1))
qed

lemma Response_GetMessages_loop_bytes:
  assumes "\<forall>m \<in> set ms. length m < 2 ^ 64"
  shows "Response_GetMessages_loop (length ms) (bd_at pre (messages_bytes ms @ rest)) acc
       = Some (acc @ ms, bd_at (pre @ messages_bytes ms) rest)"
  using assms
proof (induction ms arbitrary: pre acc)
  case Nil
  then show ?case by simp
next
  case (Cons m ms)
  have u: "unat (word_of_nat (length m) :: size_t) = length m"
    using Cons.prems by (simp add: unat_of_nat)
  have "Response_GetMessages_loop (length ms)
          (bd_at (pre @ message_bytes m) (messages_bytes ms @ rest)) (acc @ [m])
      = Some ((acc @ [m]) @ ms, bd_at ((pre @ message_bytes m) @ messages_bytes ms) rest)"
    using Cons.prems by (intro Cons.IH) auto
  then show ?case
    by (simp add: codec_simps u message_bytes_def)
qed

lemma Response_GetMessages_loop_Some:
  assumes "Response_GetMessages_loop k (bd_at pre bs) acc = Some (out, d)"
  shows "\<exists>ms rest. out = acc @ ms \<and> length ms = k \<and> bs = messages_bytes ms @ rest \<and>
           d = bd_at (pre @ messages_bytes ms) rest \<and> (\<forall>m \<in> set ms. length m < 2 ^ 64)"
  using assms
proof (induction k arbitrary: pre bs acc)
  case 0
  then show ?case by (intro exI [of _ "[]"] exI [of _ bs]) auto
next
  case (Suc k)
  define n where "n = bytes_size (take 8 bs)"
  define m where "m = take (unat n) (drop 8 bs)"
  define bs' where "bs' = drop (unat n) (drop 8 bs)"
  from Suc.prems have len: "\<not> length bs < 8" "\<not> length (drop 8 bs) < unat n"
    and rec: "Response_GetMessages_loop k (bd_at (pre @ take 8 bs @ m) bs') (acc @ [m]) = Some (out, d)"
    by (auto simp: codec_simps n_def m_def bs'_def split: if_splits)
  have lm: "length m = unat n" using len by (simp add: m_def)
  have mb: "message_bytes m = take 8 bs @ m"
    using len lm by (simp add: message_bytes_def n_def size_bytes_bytes)
  have "bs = take 8 bs @ m @ bs'"
    unfolding m_def bs'_def by (simp only: append_take_drop_id)
  then have bs: "bs = message_bytes m @ bs'"
    unfolding mb append_assoc .
  from Suc.IH [OF rec] obtain ms rest where
    ih: "out = (acc @ [m]) @ ms" "length ms = k" "bs' = messages_bytes ms @ rest"
      "d = bd_at ((pre @ take 8 bs @ m) @ messages_bytes ms) rest" "\<forall>m \<in> set ms. length m < 2 ^ 64"
    by blast
  have m64: "length m < 2 ^ 64" using unsigned_less [of n, where 'a = nat] lm by simp
  show ?case
  proof (intro exI conjI)
    show "out = acc @ (m # ms)" using ih(1) by simp
    show "length (m # ms) = Suc k" using ih(2) by simp
    show "bs = messages_bytes (m # ms) @ rest" using bs ih(3) by (metis append_assoc messages_bytes_simps(2))
    show "d = bd_at (pre @ messages_bytes (m # ms)) rest" using ih(4) by (simp add: mb)
    show "\<forall>m \<in> set (m # ms). length m < 2 ^ 64" using ih(5) m64 by simp
  qed
qed

lemma Response_GetMessages_fromPayload_wire:
  assumes fits: "fits_wire ms" and alloc: "alloc (length ms)"
  shows "Response_GetMessages_fromPayload alloc
           (Some (size_bytes (word_of_nat (length ms)) @ messages_bytes ms))
       = Inr (Some (Response_GetMessages_owning ms))"
proof -
  have b: "length ms \<le> string_vector_max_size" "\<forall>m \<in> set ms. length m < 2 ^ 64"
    using fits by (auto simp: fits_wire_def)
  then have u: "unat (word_of_nat (length ms) :: size_t) = length ms"
    by (simp add: unat_of_nat string_vector_max_size_def)
  have "Response_GetMessages_loop (length ms)
          (bd_at (size_bytes (word_of_nat (length ms))) (messages_bytes ms)) []
      = Some (ms, bd_at (size_bytes (word_of_nat (length ms)) @ messages_bytes ms) [])"
    using Response_GetMessages_loop_bytes [OF b(2), where rest = "[]" and acc = "[]"] by simp
  then show ?thesis
    using b alloc by (simp add: Response_GetMessages_fromPayload_def vector_reserve_def codec_simps u)
qed

lemma Response_GetMessages_fromPayload_Some:
  assumes "Response_GetMessages_fromPayload alloc (Some bs) = Inr (Some r)"
  shows "\<exists>ms. r = Response_GetMessages_owning ms \<and> fits_wire ms \<and> alloc (length ms) \<and>
           bs = size_bytes (word_of_nat (length ms)) @ messages_bytes ms"
proof -
  define n where "n = bytes_size (take 8 bs)"
  from assms obtain out d where len: "\<not> length bs < 8"
    and res: "unat n \<le> string_vector_max_size" "alloc (unat n)"
    and loop: "Response_GetMessages_loop (unat n) (bd_at (take 8 bs) (drop 8 bs)) [] = Some (out, d)"
    and fin: "atEnd d" "r = Response_GetMessages_owning out"
    by (auto simp: Response_GetMessages_fromPayload_def vector_reserve_def codec_simps n_def
        split: if_splits option.splits sum.splits)
  from Response_GetMessages_loop_Some [OF loop] obtain ms rest where
    ms: "out = ms" "length ms = unat n" "drop 8 bs = messages_bytes ms @ rest"
      "d = bd_at (take 8 bs @ messages_bytes ms) rest" "\<forall>m \<in> set ms. length m < 2 ^ 64"
    by auto
  have "rest = []" using fin ms by (simp add: codec_simps)
  moreover have "take 8 bs = size_bytes n" using len by (simp add: n_def size_bytes_bytes)
  ultimately have "bs = size_bytes n @ messages_bytes ms"
    using ms(3) by (metis append_Nil2 append_take_drop_id)
  moreover have "n = word_of_nat (length ms)" by (simp add: ms(2))
  ultimately have "bs = size_bytes (word_of_nat (length ms)) @ messages_bytes ms"
    by simp
  moreover have "fits_wire ms" "alloc (length ms)"
    using ms(2,5) res by (simp_all add: fits_wire_def)
  ultimately show ?thesis
    using fin(2) ms(1) by blast
qed

section \<open>The response classes are payload codecs\<close>

lemmas response_defs =
  Response_AddMessage_create_def Response_AddMessage_fromPayload_def
  Response_AddMessage_serializePayload_def
  Response_Pong_create_def Response_Pong_fromPayload_def Response_Pong_serializePayload_def
  Response_SecondaryNodeReady_fromPayload_def Response_SecondaryNodeReady_serializePayload_def

lemma char_of_of_char_nat: "of_char c = (n::nat) \<Longrightarrow> char_of n = c"
  by auto

interpretation resp_add: payload_codec
  Response_AddMessage_serializePayload Response_AddMessage_fromPayload "\<lambda>_. True"
proof
  fix m :: Response_AddMessage and seq
  show "Response_AddMessage_serializePayload m seq = seq @ Response_AddMessage_serializePayload m []"
    by (simp add: response_defs codec_simps)
  show "Response_AddMessage_fromPayload (Some (concat (Response_AddMessage_serializePayload m []))) = Some m"
    by (cases m; cases "sam_status m")
      (simp_all add: response_defs codec_simps enum_bytes_def)
next
  fix m :: Response_AddMessage and bs
  assume "Response_AddMessage_fromPayload (Some bs) = Some m"
  then show "True \<and> bs = concat (Response_AddMessage_serializePayload m [])"
    by (cases bs) (auto simp: response_defs codec_simps enum_bytes_def char_of_of_char_nat
        split: if_splits)
qed

interpretation resp_pong: payload_codec
  Response_Pong_serializePayload Response_Pong_fromPayload "\<lambda>_. True"
  by unfold_locales
    (auto simp: response_defs codec_simps size_bytes_bytes split: if_splits)

interpretation resp_ready: payload_codec
  Response_SecondaryNodeReady_serializePayload Response_SecondaryNodeReady_fromPayload "\<lambda>_. True"
  by unfold_locales
    (auto simp: response_defs codec_simps split: if_splits intro: Response_SecondaryNodeReady.exhaust [THEN sym])

text \<open>
  For GetMessages the codec laws hold on responses that own their messages, within the
  bounds of the wire format and of the vector, when the memory is available.
\<close>

definition GetMessages_parse :: "const_buffer \<Rightarrow> Response_GetMessages option" where
  "GetMessages_parse b =
     (case Response_GetMessages_fromPayload (\<lambda>_. True) b of Inl _ \<Rightarrow> None | Inr r \<Rightarrow> r)"

definition owns_messages :: "Response_GetMessages \<Rightarrow> bool" where
  "owns_messages r \<longleftrightarrow> r = Response_GetMessages_owning (sgm_views r) \<and> fits_wire (sgm_views r)"

lemma GetMessages_wire_owning:
  "concat (Response_GetMessages_serializePayload (Response_GetMessages_owning ms) seq)
   = concat seq @ size_bytes (word_of_nat (length ms)) @ messages_bytes ms"
  by (rule GetMessages_wire) (simp_all add: Response_GetMessages_owning_def)

lemma GetMessages_wire_create:
  "concat (Response_GetMessages_serializePayload (Response_GetMessages_create ms) seq)
   = concat seq @ size_bytes (word_of_nat (length ms)) @ messages_bytes ms"
  by (rule GetMessages_wire) (simp_all add: Response_GetMessages_create_def)

lemma fold_serialize_append:
  "fold (\<lambda>i seq. serialize_string (f i) (serialize_size (g i) seq)) xs seq
   = seq @ fold (\<lambda>i seq. serialize_string (f i) (serialize_size (g i) seq)) xs []"
  by (induction xs rule: rev_induct) (simp_all add: codec_simps)

lemma Response_GetMessages_serializePayload_append:
  "Response_GetMessages_serializePayload r seq
   = seq @ Response_GetMessages_serializePayload r []"
  unfolding Response_GetMessages_serializePayload_def Let_def
  by (subst fold_serialize_append, subst (2) fold_serialize_append) (simp add: serialize_eqs(1))

interpretation resp_get: payload_codec
  Response_GetMessages_serializePayload GetMessages_parse owns_messages
proof
  fix m seq
  show "Response_GetMessages_serializePayload m seq = seq @ Response_GetMessages_serializePayload m []"
    by (rule Response_GetMessages_serializePayload_append)
next
  fix m assume v: "owns_messages m"
  then have m: "m = Response_GetMessages_owning (sgm_views m)" by (simp add: owns_messages_def)
  have w: "concat (Response_GetMessages_serializePayload m [])
      = size_bytes (word_of_nat (length (sgm_views m))) @ messages_bytes (sgm_views m)"
    using GetMessages_wire_owning [of "sgm_views m" "[]"] m by simp
  have "Response_GetMessages_fromPayload (\<lambda>_. True) (Some (concat (Response_GetMessages_serializePayload m [])))
      = Inr (Some (Response_GetMessages_owning (sgm_views m)))"
    unfolding w using v by (intro Response_GetMessages_fromPayload_wire) (simp_all add: owns_messages_def)
  then show "GetMessages_parse (Some (concat (Response_GetMessages_serializePayload m []))) = Some m"
    using m by (simp add: GetMessages_parse_def)
next
  fix bs m assume "GetMessages_parse (Some bs) = Some m"
  then have "Response_GetMessages_fromPayload (\<lambda>_. True) (Some bs) = Inr (Some m)"
    by (simp add: GetMessages_parse_def split: sum.splits)
  from Response_GetMessages_fromPayload_Some [OF this] obtain ms where
    "m = Response_GetMessages_owning ms" "fits_wire ms"
    "bs = size_bytes (word_of_nat (length ms)) @ messages_bytes ms" by blast
  then show "owns_messages m \<and> bs = concat (Response_GetMessages_serializePayload m [])"
    using GetMessages_wire_owning [of ms "[]"]
    by (simp add: owns_messages_def) (simp add: Response_GetMessages_owning_def)
qed

lemma Response_serializePayload_append:
  "Response_serializePayload r seq = seq @ Response_serializePayload r []"
proof (cases r)
  case (Resp_AddMessage x)
  then show ?thesis by simp (rule resp_add.ser_append)
next
  case (Resp_GetMessages x)
  then show ?thesis by simp (rule resp_get.ser_append)
next
  case (Resp_Pong x)
  then show ?thesis by simp (rule resp_pong.ser_append)
next
  case (Resp_SecondaryNodeReady x)
  then show ?thesis by simp (rule resp_ready.ser_append)
qed

end
