(* ===== verification/Frame.thy ===== *)
theory Frame
  imports Responses
begin

text \<open>
  libs/proto/src/frame: the header of a request frame (event type, request id, opcode) and
  of a response frame (event type, request id), their parsers, and what framing adds to a
  payload codec: the codec laws of theory Requests lift to whole frames once, inside the
  locale, and every message class gets them by its interpretation.
\<close>

section \<open>Parsing\<close>

definition parseEventType :: "const_buffer \<Rightarrow> EventType option" where
  "parseEventType frame =
     (let deserializer = BufferDeserializer_ctor frame;
          (optEventType, deserializer) = deserialize_enum deserializer
      in case optEventType of
           Some eventType \<Rightarrow>
             if eventType = EventType_val REQUEST then Some REQUEST
             else if eventType = EventType_val RESPONSE then Some RESPONSE
             else None
         | None \<Rightarrow> None)"

record RequestFrame =
  rf_requestId :: size_t
  rf_opCode :: OpCode
  rf_payload :: const_buffer

record ResponseFrame =
  sf_requestId :: size_t
  sf_payload :: const_buffer

text \<open>The switch that validates an opcode read from the wire.\<close>

definition validOpCode :: "nat \<Rightarrow> OpCode option" where
  "validOpCode v =
     (if v = OpCode_val ADD_MESSAGE then Some ADD_MESSAGE
      else if v = OpCode_val GET_MESSAGES then Some GET_MESSAGES
      else if v = OpCode_val SECONDARY_NODE_READY then Some SECONDARY_NODE_READY
      else if v = OpCode_val PING_PONG then Some PING_PONG
      else None)"

definition parseRequestFrame :: "const_buffer \<Rightarrow> RequestFrame option" where
  "parseRequestFrame frame =
     (let deserializer = BufferDeserializer_ctor frame;
          (optEventType, deserializer) = deserialize_enum deserializer
      in if optEventType \<noteq> Some (EventType_val REQUEST) then None
         else let (optRequestId, deserializer) = deserialize_size deserializer
           in case optRequestId of
                None \<Rightarrow> None
              | Some requestId \<Rightarrow>
                  let (optOpCode, deserializer) = deserialize_enum deserializer
                  in case optOpCode of
                       None \<Rightarrow> None
                     | Some v \<Rightarrow>
                         (case validOpCode v of
                            None \<Rightarrow> None
                          | Some opCode \<Rightarrow>
                              Some \<lparr>rf_requestId = requestId, rf_opCode = opCode,
                                    rf_payload = leftover deserializer\<rparr>))"

definition parseResponseFrame :: "const_buffer \<Rightarrow> ResponseFrame option" where
  "parseResponseFrame frame =
     (let deserializer = BufferDeserializer_ctor frame;
          (optEventType, deserializer) = deserialize_enum deserializer
      in if optEventType \<noteq> Some (EventType_val RESPONSE) then None
         else let (optRequestId, deserializer) = deserialize_size deserializer
           in case optRequestId of
                None \<Rightarrow> None
              | Some requestId \<Rightarrow>
                  Some \<lparr>sf_requestId = requestId, sf_payload = leftover deserializer\<rparr>)"

section \<open>Headers\<close>

definition constructRequestHeaderWoOwnership :: "size_t \<Rightarrow> OpCode \<Rightarrow> buffer_seq" where
  "constructRequestHeaderWoOwnership requestId opCode =
     [enum_bytes (EventType_val REQUEST), size_bytes requestId, enum_bytes (OpCode_val opCode)]"

definition constructResponseHeaderWoOwnership :: "size_t \<Rightarrow> buffer_seq" where
  "constructResponseHeaderWoOwnership responseId =
     [enum_bytes (EventType_val RESPONSE), size_bytes responseId]"

section \<open>Header round trips\<close>

lemma of_char_lt_256 [simp]: "of_char c < (256::nat)"
  using of_char_mod_256 [of c, where 'a = nat] mod_less_divisor [of 256 "of_char c :: nat"] by simp

lemma validOpCode_val [simp]: "validOpCode (OpCode_val c) = Some c"
  by (cases c) (simp_all add: validOpCode_def)

lemma validOpCode_Some: "validOpCode v = Some c \<Longrightarrow> v = OpCode_val c"
  by (auto simp: validOpCode_def split: if_splits)

lemma enum_bytes_append: "enum_bytes v @ rest = char_of v # rest"
  by (simp add: enum_bytes_def)

lemma of_char_enum [simp]: "v < 256 \<Longrightarrow> of_char (char_of v) = (v::nat)"
  by simp

lemma size_bytes_split [simp]:
  "take 8 (size_bytes n @ rest) = size_bytes n" "drop 8 (size_bytes n @ rest) = rest"
  by simp_all

text \<open>One frame with header \<open>h\<close> and payload \<open>p\<close>, as the receiver sees it.\<close>

lemma parseRequestFrame_header:
  "parseRequestFrame (Some (concat (constructRequestHeaderWoOwnership i c) @ p))
   = Some \<lparr>rf_requestId = i, rf_opCode = c, rf_payload = Some p\<rparr>"
  by (simp add: parseRequestFrame_def constructRequestHeaderWoOwnership_def enum_bytes_append
      codec_simps)

lemma parseResponseFrame_header:
  "parseResponseFrame (Some (concat (constructResponseHeaderWoOwnership i) @ p))
   = Some \<lparr>sf_requestId = i, sf_payload = Some p\<rparr>"
  by (simp add: parseResponseFrame_def constructResponseHeaderWoOwnership_def enum_bytes_append
      codec_simps)

lemma parseEventType_headers:
  "parseEventType (Some (concat (constructRequestHeaderWoOwnership i c) @ p)) = Some REQUEST"
  "parseEventType (Some (concat (constructResponseHeaderWoOwnership i) @ p)) = Some RESPONSE"
  by (simp_all add: parseEventType_def constructRequestHeaderWoOwnership_def
      constructResponseHeaderWoOwnership_def enum_bytes_append codec_simps)

lemma null_frame [simp]:
  "parseEventType None = None" "parseRequestFrame None = None" "parseResponseFrame None = None"
  by (simp_all add: parseEventType_def parseRequestFrame_def parseResponseFrame_def codec_simps)

lemma nat_char_eq: "of_char c = n \<Longrightarrow> c = char_of (n::nat)"
  by auto

lemma take8_size: "\<not> length bs < 8 \<Longrightarrow> bs = size_bytes (bytes_size (take 8 bs)) @ drop 8 bs"
  by (simp add: size_bytes_bytes)

lemma parseRequestFrame_exact:
  assumes "parseRequestFrame (Some bs) = Some f"
  shows "\<exists>p. rf_payload f = Some p \<and>
           bs = concat (constructRequestHeaderWoOwnership (rf_requestId f) (rf_opCode f)) @ p"
proof -
  from assms obtain e rest where bs: "bs = e # rest"
    by (cases bs) (auto simp: parseRequestFrame_def codec_simps)
  with assms have e: "of_char e = EventType_val REQUEST" and l: "\<not> length rest < 8"
    by (auto simp: parseRequestFrame_def codec_simps split: if_splits)
  from assms bs e l obtain c rest' where d: "drop 8 rest = c # rest'"
    by (cases "drop 8 rest") (auto simp: parseRequestFrame_def codec_simps split: if_splits)
  with assms bs e l obtain opc where c: "of_char c = OpCode_val opc"
    and f: "f = \<lparr>rf_requestId = bytes_size (take 8 rest), rf_opCode = opc, rf_payload = Some rest'\<rparr>"
    by (auto simp: parseRequestFrame_def codec_simps dest: validOpCode_Some split: option.splits)
  obtain i where i: "bytes_size (take 8 rest) = i" by blast
  have r: "rest = size_bytes i @ c # rest'"
    using take8_size [OF l] unfolding d i .
  show ?thesis
    unfolding bs r f i using nat_char_eq [OF e] nat_char_eq [OF c]
    by (simp add: constructRequestHeaderWoOwnership_def enum_bytes_def)
qed

lemma parseResponseFrame_exact:
  assumes "parseResponseFrame (Some bs) = Some f"
  shows "\<exists>p. sf_payload f = Some p \<and>
           bs = concat (constructResponseHeaderWoOwnership (sf_requestId f)) @ p"
proof -
  from assms obtain e rest where bs: "bs = e # rest"
    by (cases bs) (auto simp: parseResponseFrame_def codec_simps)
  with assms have e: "of_char e = EventType_val RESPONSE" and l: "\<not> length rest < 8"
    and f: "f = \<lparr>sf_requestId = bytes_size (take 8 rest), sf_payload = Some (drop 8 rest)\<rparr>"
    by (auto simp: parseResponseFrame_def codec_simps split: if_splits)
  obtain i p where i: "bytes_size (take 8 rest) = i" and p: "drop 8 rest = p" by blast
  have r: "rest = size_bytes i @ p"
    using take8_size [OF l] unfolding p i .
  have "f = \<lparr>sf_requestId = i, sf_payload = Some p\<rparr>" using f i p by simp
  then show ?thesis
    unfolding bs r using nat_char_eq [OF e]
    by (simp add: constructResponseHeaderWoOwnership_def enum_bytes_def)
qed

section \<open>Frames of a payload codec\<close>

context payload_codec
begin

lemma request_frame:
  assumes "valid m"
  shows "\<exists>p. parseRequestFrame (Some (concat (ser m (constructRequestHeaderWoOwnership i c))))
             = Some \<lparr>rf_requestId = i, rf_opCode = c, rf_payload = Some p\<rparr> \<and>
           p = concat (ser m []) \<and> par (Some p) = Some m"
  using assms by (subst concat_ser) (simp add: parseRequestFrame_header par_ser)

lemma response_frame:
  assumes "valid m"
  shows "\<exists>p. parseResponseFrame (Some (concat (ser m (constructResponseHeaderWoOwnership i))))
             = Some \<lparr>sf_requestId = i, sf_payload = Some p\<rparr> \<and>
           p = concat (ser m []) \<and> par (Some p) = Some m"
  using assms by (subst concat_ser) (simp add: parseResponseFrame_header par_ser)

end

section \<open>Frames of requests and responses\<close>

definition request_frame_bytes :: "size_t \<Rightarrow> Request \<Rightarrow> byte list" where
  "request_frame_bytes i r =
     concat (Request_serializePayload r (constructRequestHeaderWoOwnership i (Request_opCode r)))"

definition response_frame_bytes :: "size_t \<Rightarrow> Response \<Rightarrow> byte list" where
  "response_frame_bytes i r =
     concat (Response_serializePayload r (constructResponseHeaderWoOwnership i))"

definition request_payload :: "Request \<Rightarrow> byte list" where
  "request_payload r = concat (Request_serializePayload r [])"

definition response_payload :: "Response \<Rightarrow> byte list" where
  "response_payload r = concat (Response_serializePayload r [])"

lemma request_frame_bytes_split:
  "request_frame_bytes i r
   = concat (constructRequestHeaderWoOwnership i (Request_opCode r)) @ request_payload r"
  unfolding request_frame_bytes_def request_payload_def
  by (subst Request_serializePayload_append) simp

lemma response_frame_bytes_split:
  "response_frame_bytes i r
   = concat (constructResponseHeaderWoOwnership i) @ response_payload r"
  unfolding response_frame_bytes_def response_payload_def
  by (subst Response_serializePayload_append) simp

lemma parse_request_frame_bytes [simp]:
  "parseRequestFrame (Some (request_frame_bytes i r))
   = Some \<lparr>rf_requestId = i, rf_opCode = Request_opCode r, rf_payload = Some (request_payload r)\<rparr>"
  "parseEventType (Some (request_frame_bytes i r)) = Some REQUEST"
  by (simp_all add: request_frame_bytes_split parseRequestFrame_header parseEventType_headers)

lemma parse_response_frame_bytes [simp]:
  "parseResponseFrame (Some (response_frame_bytes i r))
   = Some \<lparr>sf_requestId = i, sf_payload = Some (response_payload r)\<rparr>"
  "parseEventType (Some (response_frame_bytes i r)) = Some RESPONSE"
  by (simp_all add: response_frame_bytes_split parseResponseFrame_header parseEventType_headers)

text \<open>What the receiver's message class reads from the payload of each message.\<close>

fun request_reads :: "Request \<Rightarrow> const_buffer \<Rightarrow> bool" where
  "request_reads (Req_AddMessage a) p \<longleftrightarrow>
     map_option ram_content (Request_AddMessage_fromPayload p) = Some (ram_content a)"
| "request_reads (Req_GetMessages g) p \<longleftrightarrow> Request_GetMessages_fromPayload p = Some g"
| "request_reads (Req_Ping g) p \<longleftrightarrow> Request_Ping_fromPayload p = Some g"
| "request_reads (Req_SecondaryNodeReady n) p \<longleftrightarrow>
     Request_SecondaryNodeReady_fromPayload p = Some n"

lemma request_reads_payload: "request_reads r (Some (request_payload r))"
proof (cases r)
  case (Req_AddMessage a)
  then show ?thesis
    using AddMessage_wire_roundtrip [of a] by (auto simp: request_payload_def)
next
  case (Req_GetMessages g)
  then show ?thesis by (simp add: request_payload_def req_get.par_ser)
next
  case (Req_Ping g)
  then show ?thesis by (simp add: request_payload_def req_ping.par_ser)
next
  case (Req_SecondaryNodeReady n)
  then show ?thesis by (simp add: request_payload_def req_ready.par_ser)
qed

fun response_reads :: "(nat \<Rightarrow> bool) \<Rightarrow> Response \<Rightarrow> const_buffer \<Rightarrow> bool" where
  "response_reads alloc (Resp_AddMessage a) p \<longleftrightarrow> Response_AddMessage_fromPayload p = Some a"
| "response_reads alloc (Resp_GetMessages g) p \<longleftrightarrow>
     (\<exists>g'. Response_GetMessages_fromPayload alloc p = Inr (Some g') \<and>
           Response_GetMessages_flushMessages g' = Inr (sgm_views g))"
| "response_reads alloc (Resp_Pong a) p \<longleftrightarrow> Response_Pong_fromPayload p = Some a"
| "response_reads alloc (Resp_SecondaryNodeReady n) p \<longleftrightarrow>
     Response_SecondaryNodeReady_fromPayload p = Some n"

text \<open>A response the program constructs: GetMessages only through \<^verbatim>\<open>create\<close>.\<close>

fun sendable :: "(nat \<Rightarrow> bool) \<Rightarrow> Response \<Rightarrow> bool" where
  "sendable alloc (Resp_GetMessages g) \<longleftrightarrow>
     g = Response_GetMessages_create (sgm_views g) \<and> fits_wire (sgm_views g) \<and>
     alloc (length (sgm_views g))"
| "sendable alloc _ \<longleftrightarrow> True"

lemma GetMessages_create_reads:
  assumes "fits_wire ms" "alloc (length ms)"
  shows "Response_GetMessages_fromPayload alloc
           (Some (concat (Response_GetMessages_serializePayload (Response_GetMessages_create ms) [])))
         = Inr (Some (Response_GetMessages_owning ms))"
  using Response_GetMessages_fromPayload_wire [of ms alloc, OF assms]
    GetMessages_wire_create [of ms "[]"] by simp

lemma flushMessages_owning [simp]:
  "Response_GetMessages_flushMessages (Response_GetMessages_owning ms) = Inr ms"
  by (simp add: Response_GetMessages_flushMessages_def Response_GetMessages_owning_def)

lemma sgm_views_create [simp]:
  "sgm_views (Response_GetMessages_create ms) = ms"
  by (simp add: Response_GetMessages_create_def)

lemma response_reads_payload:
  assumes "sendable alloc r"
  shows "response_reads alloc r (Some (response_payload r))"
proof (cases r)
  case (Resp_AddMessage a)
  then show ?thesis by (simp add: response_payload_def resp_add.par_ser)
next
  case (Resp_GetMessages g)
  with assms have g: "g = Response_GetMessages_create (sgm_views g)"
    and "fits_wire (sgm_views g)" "alloc (length (sgm_views g))" by auto
  from GetMessages_create_reads [of "sgm_views g" alloc, OF this(2,3)] g
  show ?thesis by (auto simp: Resp_GetMessages response_payload_def)
next
  case (Resp_Pong a)
  then show ?thesis by (simp add: response_payload_def resp_pong.par_ser)
next
  case (Resp_SecondaryNodeReady n)
  then show ?thesis by (simp add: response_payload_def resp_ready.par_ser)
qed

section \<open>Properties\<close>

text \<open>
C16: A request frame is read back: for each request class, the bytes built from the header
and the payload parse as a request with the same id and operation code, and the class's
parser reads the same message from the payload.
\<close>

theorem request_frame_roundtrip:
  "\<exists>f. parseEventType (Some (request_frame_bytes i r)) = Some REQUEST \<and>
       parseRequestFrame (Some (request_frame_bytes i r)) = Some f \<and>
       rf_requestId f = i \<and> rf_opCode f = Request_opCode r \<and> request_reads r (rf_payload f)"
  by (simp add: request_reads_payload)

text \<open>
C17: A response frame is read back: the bytes built for a response parse as a response with
the same id, and the class's parser reads the same content from the payload.
\<close>

theorem response_frame_roundtrip:
  assumes "sendable alloc r"
  shows "\<exists>f. parseEventType (Some (response_frame_bytes i r)) = Some RESPONSE \<and>
       parseResponseFrame (Some (response_frame_bytes i r)) = Some f \<and>
       sf_requestId f = i \<and> response_reads alloc r (sf_payload f)"
  using response_reads_payload [OF assms] by simp

theorem response_frame_roundtrip_witness:
  "\<exists>f. parseResponseFrame (Some (response_frame_bytes 5
         (Resp_GetMessages (Response_GetMessages_create [''ab'', []])))) = Some f \<and>
       sf_requestId f = 5 \<and>
       response_reads (\<lambda>_. True) (Resp_GetMessages (Response_GetMessages_create [''ab'', []])) (sf_payload f)"
proof -
  have "sendable (\<lambda>_. True) (Resp_GetMessages (Response_GetMessages_create [''ab'', []]))"
    by (simp add: fits_wire_def string_vector_max_size_def)
  from response_frame_roundtrip [OF this, of 5] show ?thesis by blast
qed

text \<open>
Parsing is exact: a frame that parses as a request (a response) is the header the
program builds for the parsed fields, followed by the payload; so two frames that parse to
the same fields are equal, and no frame parses both ways.
\<close>

theorem frame_parsing_exact:
  "(parseRequestFrame (Some bs) = Some f \<longrightarrow>
      (\<exists>p. rf_payload f = Some p \<and>
         bs = concat (constructRequestHeaderWoOwnership (rf_requestId f) (rf_opCode f)) @ p)) \<and>
   (parseResponseFrame (Some bs) = Some g \<longrightarrow>
      (\<exists>p. sf_payload g = Some p \<and>
         bs = concat (constructResponseHeaderWoOwnership (sf_requestId g)) @ p)) \<and>
   (parseRequestFrame (Some bs) = None \<or> parseResponseFrame (Some bs) = None)"
proof -
  have "parseRequestFrame (Some bs) = None \<or> parseResponseFrame (Some bs) = None"
  proof (cases "parseRequestFrame (Some bs)")
    case (Some f)
    from parseRequestFrame_exact [OF this] have "parseEventType (Some bs) = Some REQUEST"
      using parseEventType_headers(1) by auto
    moreover have "parseEventType (Some bs) = Some RESPONSE" if "parseResponseFrame (Some bs) = Some g" for g
      using parseResponseFrame_exact [OF that] parseEventType_headers(2) by auto
    ultimately show ?thesis by (cases "parseResponseFrame (Some bs)") auto
  qed simp
  then show ?thesis using parseRequestFrame_exact parseResponseFrame_exact by blast
qed

theorem frame_parsing_exact_witness:
  "\<exists>p. Some (request_payload (Req_Ping (Request_Ping_create 1))) = Some p \<and>
       request_frame_bytes 3 (Req_Ping (Request_Ping_create 1)) =
         concat (constructRequestHeaderWoOwnership 3 PING_PONG) @ p"
  using frame_parsing_exact [of "request_frame_bytes 3 (Req_Ping (Request_Ping_create 1))"
      "\<lparr>rf_requestId = 3, rf_opCode = PING_PONG,
        rf_payload = Some (request_payload (Req_Ping (Request_Ping_create 1)))\<rparr>"] by simp

text \<open>
C18: A GetMessages response is parsed only when it is exactly what a server writes for a list
of messages; and a payload that announces more messages than a vector can hold does not end
in \<^verbatim>\<open>nullptr\<close>, as every other malformed payload, but in \<^verbatim>\<open>std::length_error\<close>.
\<close>

theorem getmessages_response_parsing:
  "(Response_GetMessages_fromPayload alloc (Some bs) = Inr (Some r) \<longrightarrow>
      bs = size_bytes (word_of_nat (length (sgm_views r))) @ messages_bytes (sgm_views r) \<and>
      Response_GetMessages_flushMessages r = Inr (sgm_views r)) \<and>
   (unat n > string_vector_max_size \<longrightarrow>
      Response_GetMessages_fromPayload alloc (Some (size_bytes n @ rest)) = Inl LengthError)"
proof -
  have "Response_GetMessages_flushMessages r = Inr (sgm_views r) \<and>
      bs = size_bytes (word_of_nat (length (sgm_views r))) @ messages_bytes (sgm_views r)"
    if "Response_GetMessages_fromPayload alloc (Some bs) = Inr (Some r)"
    using Response_GetMessages_fromPayload_Some [OF that]
    by (auto simp: Response_GetMessages_owning_def Response_GetMessages_flushMessages_def)
  then show ?thesis
    by (auto simp: Response_GetMessages_fromPayload_def codec_simps vector_reserve_def)
qed

theorem getmessages_response_parsing_witness:
  "Response_GetMessages_fromPayload (\<lambda>_. True) (Some (size_bytes (2 ^ 62))) = Inl LengthError"
proof -
  have "unat (2 ^ 62 :: size_t) > string_vector_max_size" by (simp add: string_vector_max_size_def)
  then show ?thesis
    using getmessages_response_parsing [of "\<lambda>_. True" "[]" "Response_GetMessages_create []" "2 ^ 62" "[]"]
    by simp
qed

end
