(* ===== verification/SocketWrapper.thy ===== *)
theory SocketWrapper
  imports Frame "HOL-Library.Multiset" "HOL-Library.Sublist"
begin

text \<open>
  libs/proto/src/socketwrapper: the read buffer, the frame reader and the write queue of one
  socket.

  A member function is a function from the object's state to the new state and the list of
  its effects in order (\<open>sock_out\<close>): callbacks called, signals emitted, the socket
  closed, bytes handed to the peer. The asynchronous operations in flight are part of the
  state: \<open>sw_current\<close> is the \<^verbatim>\<open>async_write\<close> (its buffers and its handler's callback),
  \<open>sw_reading\<close> the \<^verbatim>\<open>async_read\<close>. The first buffer of a write refers to the member
  \<^verbatim>\<open>outcomingFrameSize_\<close>, so the size that goes out is the member's value when the
  write is carried out, not when it was started. The handlers, the posted lambda of
  \<^verbatim>\<open>writeFrame\<close>, \<^verbatim>\<open>invalidate()\<close>, \<^verbatim>\<open>run()\<close> and the destructor are the events of
  the step function \<open>sw_step\<close>. A write callback is known by a number; the callbacks of
  the program only keep objects alive.
\<close>

section \<open>Buffer\<close>

text \<open>
  \<open>buf_memory\<close> is the length of the array \<^verbatim>\<open>memory_\<close> points to; the contents are not
  read before a socket read has filled them. \<open>alloc n\<close> says whether \<^verbatim>\<open>new (nothrow)\<close>
  of \<open>n\<close> bytes succeeds.
\<close>

record Buffer =
  buf_size :: nat
  buf_memory :: "nat option"

definition Buffer_ctor :: Buffer where
  "Buffer_ctor = \<lparr>buf_size = 0, buf_memory = None\<rparr>"

definition Buffer_resize :: "(nat \<Rightarrow> bool) \<Rightarrow> Buffer \<Rightarrow> nat \<Rightarrow> bool \<times> Buffer" where
  "Buffer_resize alloc b bytes =
     (if bytes = buf_size b then (True, b)
      else if \<not> alloc bytes then (False, \<lparr>buf_size = 0, buf_memory = None\<rparr>)
      else (True, \<lparr>buf_size = bytes, buf_memory = Some bytes\<rparr>))"

definition Buffer_inv :: "Buffer \<Rightarrow> bool" where
  "Buffer_inv b \<longleftrightarrow> (case buf_memory b of None \<Rightarrow> buf_size b = 0 | Some n \<Rightarrow> buf_size b = n)"

lemma Buffer_resize_inv [inv_steps]: "Buffer_inv b \<Longrightarrow> Buffer_inv (snd (Buffer_resize alloc b n))"
  by (auto simp: Buffer_inv_def Buffer_resize_def split: option.splits)

section \<open>State and effects\<close>

datatype frame_piece = OutcomingFrameSizeRef | Piece "byte list"

record PendingWrite =
  pw_frame :: buffer_seq
  pw_callback :: nat

datatype sock_read = NoRead | ReadingFrameSize | ReadingFrame

record SocketWrapper =
  sw_alive :: bool
  sw_invalidated :: bool
  sw_incomingFrameSize :: size_t
  sw_incomingFrameBuffer :: Buffer
  sw_writeInProgress :: bool
  sw_outcomingFrameSize :: size_t
  sw_pendingWrites :: "PendingWrite list"
  sw_current :: "(frame_piece list \<times> nat) option"
  sw_reading :: sock_read

datatype sock_out =
    Queued PendingWrite
  | Sent "byte list"
  | Callback nat bool
  | Closed
  | Emit_invalidated
  | Emit_incomingFrame const_buffer

definition kIncomingBufferMaxReuseSize :: nat where
  "kIncomingBufferMaxReuseSize = 128"

definition SocketWrapper_create :: SocketWrapper where
  "SocketWrapper_create =
     \<lparr>sw_alive = True, sw_invalidated = False, sw_incomingFrameSize = 0,
      sw_incomingFrameBuffer = Buffer_ctor, sw_writeInProgress = False,
      sw_outcomingFrameSize = 0, sw_pendingWrites = [], sw_current = None,
      sw_reading = NoRead\<rparr>"

section \<open>Writing\<close>

definition frame_size :: "buffer_seq \<Rightarrow> nat" where
  "frame_size frame = sum_list (map length frame)"

definition checkPendingWrites :: "SocketWrapper \<Rightarrow> SocketWrapper \<times> sock_out list" where
  "checkPendingWrites s =
     (if sw_invalidated s then
        (s\<lparr>sw_pendingWrites := []\<rparr>,
         map (\<lambda>pendingWrite. Callback (pw_callback pendingWrite) True) (sw_pendingWrites s))
      else if sw_writeInProgress s then (s, [])
      else
        (case sw_pendingWrites s of
           [] \<Rightarrow> (s, [])
         | pendingWrite # rest \<Rightarrow>
             (s\<lparr>sw_writeInProgress := True,
                sw_pendingWrites := rest,
                sw_outcomingFrameSize := word_of_nat (frame_size (pw_frame pendingWrite)),
                sw_current := Some (OutcomingFrameSizeRef # map Piece (pw_frame pendingWrite),
                                    pw_callback pendingWrite)\<rparr>, [])))"

definition SocketWrapper_invalidate :: "SocketWrapper \<Rightarrow> SocketWrapper \<times> sock_out list" where
  "SocketWrapper_invalidate s =
     (let firstTime = \<not> sw_invalidated s;
          s1 = (if firstTime then s\<lparr>sw_invalidated := True\<rparr> else s);
          (s2, out) = checkPendingWrites s1
      in (s2, (if firstTime then [Closed] else []) @ out @
              (if firstTime then [Emit_invalidated] else [])))"

definition SocketWrapper_dtor :: "SocketWrapper \<Rightarrow> SocketWrapper \<times> sock_out list" where
  "SocketWrapper_dtor s =
     (let firstTime = \<not> sw_invalidated s;
          s1 = (if firstTime then s\<lparr>sw_invalidated := True\<rparr> else s);
          (s2, out) = checkPendingWrites s1
      in (s2\<lparr>sw_alive := False\<rparr>, (if firstTime then [Closed] else []) @ out))"

text \<open>The lambda \<^verbatim>\<open>writeFrame\<close> posts to the socket's execution context.\<close>

definition writeFrame :: "SocketWrapper \<Rightarrow> PendingWrite \<Rightarrow> SocketWrapper \<times> sock_out list" where
  "writeFrame s pendingWrite =
     (if \<not> sw_alive s then (s, [Queued pendingWrite, Callback (pw_callback pendingWrite) True])
      else
        (let (s', out) =
               checkPendingWrites (s\<lparr>sw_pendingWrites := sw_pendingWrites s @ [pendingWrite]\<rparr>)
         in (s', Queued pendingWrite # out)))"

text \<open>The bytes of a write, read when it is carried out.\<close>

definition piece_bytes :: "SocketWrapper \<Rightarrow> frame_piece \<Rightarrow> byte list" where
  "piece_bytes s p =
     (case p of OutcomingFrameSizeRef \<Rightarrow> size_bytes (sw_outcomingFrameSize s) | Piece b \<Rightarrow> b)"

text \<open>The completion handler of \<^verbatim>\<open>async_write\<close>; \<open>ec\<close> is whether it reports an error.\<close>

definition onWritten :: "SocketWrapper \<Rightarrow> bool \<Rightarrow> SocketWrapper \<times> sock_out list" where
  "onWritten s ec =
     (case sw_current s of
        None \<Rightarrow> (s, [])
      | Some (pieces, callback) \<Rightarrow>
          (let s0 = s\<lparr>sw_current := None\<rparr>;
               out0 = (if ec then [] else [Sent (concat (map (piece_bytes s) pieces))])
                      @ [Callback callback ec]
           in if \<not> sw_alive s then (s0, out0)
              else
                (let (s1, out1) = (if ec then SocketWrapper_invalidate s0 else (s0, []));
                     (s2, out2) = checkPendingWrites (s1\<lparr>sw_writeInProgress := False\<rparr>)
                 in (s2, out0 @ out1 @ out2))))"

section \<open>Reading\<close>

definition readFrameSize :: "SocketWrapper \<Rightarrow> SocketWrapper" where
  "readFrameSize s = s\<lparr>sw_reading := ReadingFrameSize\<rparr>"

definition SocketWrapper_run :: "SocketWrapper \<Rightarrow> SocketWrapper" where
  [simp]: "SocketWrapper_run s = readFrameSize s"

definition sw_wasInvalidated :: "SocketWrapper \<Rightarrow> bool" where
  [simp]: "sw_wasInvalidated s = sw_invalidated s"

definition readFrame :: "(nat \<Rightarrow> bool) \<Rightarrow> SocketWrapper \<Rightarrow> SocketWrapper \<times> sock_out list" where
  "readFrame alloc s =
     (let n = unat (sw_incomingFrameSize s);
          b = sw_incomingFrameBuffer s;
          b' = (if n > buf_size b \<or> buf_size b > kIncomingBufferMaxReuseSize
                then snd (Buffer_resize alloc b n) else b);
          s' = s\<lparr>sw_incomingFrameBuffer := b'\<rparr>
      in if buf_size b' < n then SocketWrapper_invalidate s'
         else (s'\<lparr>sw_reading := ReadingFrame\<rparr>, []))"

text \<open>
  The completion handlers of the two reads: \<^const>\<open>None\<close> is an error, otherwise the bytes
  that were transferred into the destination.
\<close>

definition onFrameSizeRead ::
    "(nat \<Rightarrow> bool) \<Rightarrow> SocketWrapper \<Rightarrow> byte list option \<Rightarrow> SocketWrapper \<times> sock_out list" where
  "onFrameSizeRead alloc s result =
     (if sw_reading s \<noteq> ReadingFrameSize then (s, [])
      else
        (let s0 = s\<lparr>sw_reading := NoRead\<rparr>
         in if \<not> sw_alive s then (s0, [])
            else (case result of
                    None \<Rightarrow> SocketWrapper_invalidate s0
                  | Some bytes \<Rightarrow> readFrame alloc (s0\<lparr>sw_incomingFrameSize := bytes_size bytes\<rparr>))))"

definition onFrameRead ::
    "SocketWrapper \<Rightarrow> byte list option \<Rightarrow> SocketWrapper \<times> sock_out list" where
  "onFrameRead s result =
     (if sw_reading s \<noteq> ReadingFrame then (s, [])
      else
        (let s0 = s\<lparr>sw_reading := NoRead\<rparr>
         in if \<not> sw_alive s then (s0, [])
            else (case result of
                    None \<Rightarrow> SocketWrapper_invalidate s0
                  | Some bytes \<Rightarrow>
                      (readFrameSize s0,
                       [Emit_incomingFrame
                          (case buf_memory (sw_incomingFrameBuffer s) of
                             None \<Rightarrow> None | Some _ \<Rightarrow> Some bytes)]))))"

section \<open>Events\<close>

datatype sock_event =
    Run
  | WriteFrame PendingWrite
  | Written bool
  | FrameSizeRead "byte list option"
  | FrameRead "byte list option"
  | Invalidate
  | Destroy

fun sw_step ::
    "(nat \<Rightarrow> bool) \<Rightarrow> SocketWrapper \<Rightarrow> sock_event \<Rightarrow> SocketWrapper \<times> sock_out list" where
  "sw_step alloc s Run = (if sw_alive s \<and> sw_reading s = NoRead then (SocketWrapper_run s, []) else (s, []))"
| "sw_step alloc s (WriteFrame w) = writeFrame s w"
| "sw_step alloc s (Written ec) = onWritten s ec"
| "sw_step alloc s (FrameSizeRead r) = onFrameSizeRead alloc s r"
| "sw_step alloc s (FrameRead r) = onFrameRead s r"
| "sw_step alloc s Invalidate = (if sw_alive s then SocketWrapper_invalidate s else (s, []))"
| "sw_step alloc s Destroy = (if sw_alive s then SocketWrapper_dtor s else (s, []))"

text \<open>The same step on the state paired with the log of all effects so far.\<close>

definition sw_log_step ::
    "(nat \<Rightarrow> bool) \<Rightarrow> SocketWrapper \<times> sock_out list \<Rightarrow> sock_event \<Rightarrow> SocketWrapper \<times> sock_out list" where
  "sw_log_step alloc c e =
     (let (s', out) = sw_step alloc (fst c) e in (s', snd c @ out))"

section \<open>What the log says\<close>

definition sock_queued :: "sock_out list \<Rightarrow> PendingWrite list" where
  "sock_queued log = concat (map (\<lambda>x. case x of Queued w \<Rightarrow> [w] | _ \<Rightarrow> []) log)"

definition sock_sent :: "sock_out list \<Rightarrow> byte list list" where
  "sock_sent log = concat (map (\<lambda>x. case x of Sent b \<Rightarrow> [b] | _ \<Rightarrow> []) log)"

definition sock_called :: "sock_out list \<Rightarrow> nat list" where
  "sock_called log = concat (map (\<lambda>x. case x of Callback c _ \<Rightarrow> [c] | _ \<Rightarrow> []) log)"

definition sock_emitted :: "sock_out list \<Rightarrow> const_buffer list" where
  "sock_emitted log = concat (map (\<lambda>x. case x of Emit_incomingFrame b \<Rightarrow> [b] | _ \<Rightarrow> []) log)"

definition times_invalidated :: "sock_out list \<Rightarrow> nat" where
  "times_invalidated log = count_list log Emit_invalidated"

lemmas log_defs = sock_queued_def sock_sent_def sock_called_def sock_emitted_def times_invalidated_def

lemma log_simps [simp]:
  "sock_queued [] = []" "sock_sent [] = []" "sock_called [] = []" "sock_emitted [] = []"
  "times_invalidated [] = 0"
  "sock_queued (xs @ ys) = sock_queued xs @ sock_queued ys" "sock_sent (xs @ ys) = sock_sent xs @ sock_sent ys"
  "sock_called (xs @ ys) = sock_called xs @ sock_called ys"
  "sock_emitted (xs @ ys) = sock_emitted xs @ sock_emitted ys"
  "times_invalidated (xs @ ys) = times_invalidated xs + times_invalidated ys"
  "sock_queued (Queued w # xs) = w # sock_queued xs" "sock_sent (Queued w # xs) = sock_sent xs"
  "sock_called (Queued w # xs) = sock_called xs" "times_invalidated (Queued w # xs) = times_invalidated xs"
  "sock_queued (Sent b # xs) = sock_queued xs" "sock_sent (Sent b # xs) = b # sock_sent xs"
  "sock_called (Sent b # xs) = sock_called xs" "times_invalidated (Sent b # xs) = times_invalidated xs"
  "sock_queued (Callback c r # xs) = sock_queued xs" "sock_sent (Callback c r # xs) = sock_sent xs"
  "sock_called (Callback c r # xs) = c # sock_called xs"
  "times_invalidated (Callback c r # xs) = times_invalidated xs"
  "sock_queued (Closed # xs) = sock_queued xs" "sock_sent (Closed # xs) = sock_sent xs"
  "sock_called (Closed # xs) = sock_called xs" "times_invalidated (Closed # xs) = times_invalidated xs"
  "sock_queued (Emit_invalidated # xs) = sock_queued xs" "sock_sent (Emit_invalidated # xs) = sock_sent xs"
  "sock_called (Emit_invalidated # xs) = sock_called xs"
  "times_invalidated (Emit_invalidated # xs) = Suc (times_invalidated xs)"
  "sock_queued (Emit_incomingFrame f # xs) = sock_queued xs" "sock_sent (Emit_incomingFrame f # xs) = sock_sent xs"
  "sock_called (Emit_incomingFrame f # xs) = sock_called xs"
  "times_invalidated (Emit_incomingFrame f # xs) = times_invalidated xs"
  "sock_emitted (Queued w # xs) = sock_emitted xs"
  "sock_emitted (Sent b # xs) = sock_emitted xs"
  "sock_emitted (Callback c r # xs) = sock_emitted xs"
  "sock_emitted (Closed # xs) = sock_emitted xs"
  "sock_emitted (Emit_invalidated # xs) = sock_emitted xs"
  "sock_emitted (Emit_incomingFrame f # xs) = f # sock_emitted xs"
  by (simp_all add: log_defs)

lemma log_aborts [simp]:
  "sock_queued (map (\<lambda>w. Callback (pw_callback w) True) ws) = []"
  "sock_sent (map (\<lambda>w. Callback (pw_callback w) True) ws) = []"
  "sock_called (map (\<lambda>w. Callback (pw_callback w) True) ws) = map pw_callback ws"
  "times_invalidated (map (\<lambda>w. Callback (pw_callback w) True) ws) = 0"
  "sock_emitted (map (\<lambda>w. Callback (pw_callback w) True) ws) = []"
  by (induction ws) simp_all

text \<open>The bytes one frame takes on the wire: its size, then its pieces.\<close>

definition framed :: "buffer_seq \<Rightarrow> byte list" where
  "framed frame = size_bytes (word_of_nat (frame_size frame)) @ concat frame"

section \<open>The invariant\<close>

text \<open>
  \<open>sw_ok\<close> relates the state to the log: at most one write is in flight and the flag says
  so, the frame size it refers to is its own, nothing waits while the socket is idle or
  invalidated, frames are sent in the order they were queued, every callback is called once
  for every queued write, and \<^verbatim>\<open>invalidated\<close> has been emitted at most once.
\<close>

definition current_writes :: "SocketWrapper \<Rightarrow> byte list list" where
  "current_writes s =
     (case sw_current s of None \<Rightarrow> [] | Some (ps, _) \<Rightarrow> [concat (map (piece_bytes s) ps)])"

definition current_callbacks :: "SocketWrapper \<Rightarrow> nat list" where
  "current_callbacks s = (case sw_current s of None \<Rightarrow> [] | Some (_, c) \<Rightarrow> [c])"

definition sw_flags_ok :: "SocketWrapper \<Rightarrow> bool" where
  "sw_flags_ok s \<longleftrightarrow>
     (sw_alive s \<longrightarrow> sw_writeInProgress s = (sw_current s \<noteq> None)) \<and>
     (\<not> sw_alive s \<longrightarrow> sw_invalidated s) \<and>
     (sw_invalidated s \<longrightarrow> sw_pendingWrites s = []) \<and>
     (sw_pendingWrites s \<noteq> [] \<longrightarrow> sw_writeInProgress s) \<and>
     Buffer_inv (sw_incomingFrameBuffer s)"

definition sw_order_ok :: "SocketWrapper \<Rightarrow> sock_out list \<Rightarrow> bool" where
  "sw_order_ok s log \<longleftrightarrow>
     (\<exists>dropped.
        map (framed \<circ> pw_frame) (sock_queued log) =
          sock_sent log @ current_writes s @ map (framed \<circ> pw_frame) (sw_pendingWrites s) @ dropped \<and>
        (\<not> sw_invalidated s \<longrightarrow> dropped = []))"

definition sw_callbacks_ok :: "SocketWrapper \<Rightarrow> sock_out list \<Rightarrow> bool" where
  "sw_callbacks_ok s log \<longleftrightarrow>
     mset (map pw_callback (sock_queued log)) =
       mset (sock_called log) + mset (current_callbacks s) + mset (map pw_callback (sw_pendingWrites s))"

definition sw_ok :: "SocketWrapper \<times> sock_out list \<Rightarrow> bool" where
  "sw_ok c \<longleftrightarrow>
     sw_flags_ok (fst c) \<and> sw_order_ok (fst c) (snd c) \<and> sw_callbacks_ok (fst c) (snd c) \<and>
     times_invalidated (snd c) \<le> (if sw_invalidated (fst c) then 1 else 0)"

subsection \<open>Checking the write queue\<close>

text \<open>
  The order and callback parts hold between the steps of an operation; the flags are
  restored by \<^const>\<open>checkPendingWrites\<close>. \<open>sw_mid\<close> is what an operation keeps until then.
\<close>

definition sw_mid :: "SocketWrapper \<Rightarrow> sock_out list \<Rightarrow> bool" where
  "sw_mid s log \<longleftrightarrow>
     (sw_alive s \<longrightarrow> sw_writeInProgress s = (sw_current s \<noteq> None)) \<and>
     (\<not> sw_alive s \<longrightarrow> sw_invalidated s) \<and>
     Buffer_inv (sw_incomingFrameBuffer s) \<and>
     sw_order_ok s log \<and> sw_callbacks_ok s log"

lemma framed_current:
  "concat (map (piece_bytes s) (OutcomingFrameSizeRef # map Piece f))
   = size_bytes (sw_outcomingFrameSize s) @ concat f"
  by (simp add: piece_bytes_def comp_def)

lemma piece_bytes_update [simp]:
  "piece_bytes (s\<lparr>sw_pendingWrites := w\<rparr>) = piece_bytes s"
  "piece_bytes (s\<lparr>sw_invalidated := b\<rparr>) = piece_bytes s"
  "piece_bytes (s\<lparr>sw_alive := b\<rparr>) = piece_bytes s"
  "piece_bytes (s\<lparr>sw_reading := r\<rparr>) = piece_bytes s"
  "piece_bytes (s\<lparr>sw_writeInProgress := b\<rparr>) = piece_bytes s"
  "piece_bytes (s\<lparr>sw_incomingFrameSize := n\<rparr>) = piece_bytes s"
  "piece_bytes (s\<lparr>sw_incomingFrameBuffer := f\<rparr>) = piece_bytes s"
  by (auto simp: piece_bytes_def fun_eq_iff split: frame_piece.splits)

lemma current_writes_update [simp]:
  "current_writes (s\<lparr>sw_pendingWrites := w\<rparr>) = current_writes s"
  "current_writes (s\<lparr>sw_invalidated := b\<rparr>) = current_writes s"
  "current_writes (s\<lparr>sw_alive := b\<rparr>) = current_writes s"
  "current_writes (s\<lparr>sw_reading := r\<rparr>) = current_writes s"
  "current_writes (s\<lparr>sw_writeInProgress := b\<rparr>) = current_writes s"
  "current_writes (s\<lparr>sw_incomingFrameSize := n\<rparr>) = current_writes s"
  "current_writes (s\<lparr>sw_incomingFrameBuffer := f\<rparr>) = current_writes s"
  "current_writes (s\<lparr>sw_current := None\<rparr>) = []"
  by (auto simp: current_writes_def split: option.split)

lemma current_callbacks_update [simp]:
  "current_callbacks (s\<lparr>sw_pendingWrites := w\<rparr>) = current_callbacks s"
  "current_callbacks (s\<lparr>sw_invalidated := b\<rparr>) = current_callbacks s"
  "current_callbacks (s\<lparr>sw_alive := b\<rparr>) = current_callbacks s"
  "current_callbacks (s\<lparr>sw_reading := r\<rparr>) = current_callbacks s"
  "current_callbacks (s\<lparr>sw_writeInProgress := b\<rparr>) = current_callbacks s"
  "current_callbacks (s\<lparr>sw_incomingFrameSize := n\<rparr>) = current_callbacks s"
  "current_callbacks (s\<lparr>sw_incomingFrameBuffer := f\<rparr>) = current_callbacks s"
  "current_callbacks (s\<lparr>sw_current := None\<rparr>) = []"
  by (simp_all add: current_callbacks_def)

lemma checkPendingWrites_unchanged [simp]:
  "sw_alive (fst (checkPendingWrites s)) = sw_alive s"
  "sw_invalidated (fst (checkPendingWrites s)) = sw_invalidated s"
  "sw_incomingFrameBuffer (fst (checkPendingWrites s)) = sw_incomingFrameBuffer s"
  "sw_reading (fst (checkPendingWrites s)) = sw_reading s"
  "times_invalidated (snd (checkPendingWrites s)) = 0"
  "sock_emitted (snd (checkPendingWrites s)) = []"
  "sock_queued (snd (checkPendingWrites s)) = []"
  by (auto simp: checkPendingWrites_def split: list.splits)

lemma checkPendingWrites_order:
  assumes "sw_order_ok s log" and "\<not> sw_writeInProgress s \<Longrightarrow> \<not> sw_invalidated s \<Longrightarrow> sw_current s = None"
  shows "sw_order_ok (fst (checkPendingWrites s)) (log @ snd (checkPendingWrites s))"
proof (cases "sw_invalidated s")
  case True
  from assms(1) obtain dropped where
    "map (framed \<circ> pw_frame) (sock_queued log) =
       sock_sent log @ current_writes s @ map (framed \<circ> pw_frame) (sw_pendingWrites s) @ dropped"
    by (auto simp: sw_order_ok_def)
  then show ?thesis
    using True
    by (auto simp: sw_order_ok_def checkPendingWrites_def)
next
  case False
  show ?thesis
  proof (cases "sw_writeInProgress s \<or> sw_pendingWrites s = []")
    case True
    then have "checkPendingWrites s = (s, [])"
      using False by (auto simp: checkPendingWrites_def)
    then show ?thesis using assms(1) by simp
  next
    case start: False
    then obtain w ws where w: "sw_pendingWrites s = w # ws" by (cases "sw_pendingWrites s") auto
    have "current_writes s = []" using assms(2) False start by (simp add: current_writes_def)
    then show ?thesis
      using assms(1) False start w
      by (auto simp: sw_order_ok_def checkPendingWrites_def current_writes_def framed_def
          piece_bytes_def comp_def)
  qed
qed

lemma checkPendingWrites_callbacks:
  assumes "sw_callbacks_ok s log" and "\<not> sw_writeInProgress s \<Longrightarrow> \<not> sw_invalidated s \<Longrightarrow> sw_current s = None"
  shows "sw_callbacks_ok (fst (checkPendingWrites s)) (log @ snd (checkPendingWrites s))"
  using assms
  by (auto simp: sw_callbacks_ok_def checkPendingWrites_def current_callbacks_def split: list.splits)

lemma checkPendingWrites_flags:
  assumes "sw_mid s log"
  shows "sw_flags_ok (fst (checkPendingWrites s))"
  using assms
  by (auto simp: sw_mid_def sw_flags_ok_def checkPendingWrites_def split: list.splits)

lemma checkPendingWrites_ok:
  assumes "sw_mid s log"
  shows "sw_flags_ok (fst (checkPendingWrites s))"
    "sw_order_ok (fst (checkPendingWrites s)) (log @ snd (checkPendingWrites s))"
    "sw_callbacks_ok (fst (checkPendingWrites s)) (log @ snd (checkPendingWrites s))"
  using assms checkPendingWrites_flags [OF assms]
  by (auto simp: sw_mid_def intro!: checkPendingWrites_order checkPendingWrites_callbacks)

subsection \<open>Every operation keeps the invariant\<close>

lemma sw_okD:
  assumes "sw_ok (s, log)"
  shows "sw_flags_ok s" "sw_order_ok s log" "sw_callbacks_ok s log"
    "times_invalidated log \<le> (if sw_invalidated s then 1 else 0)" "sw_mid s log"
  using assms by (auto simp: sw_ok_def sw_mid_def sw_flags_ok_def)

lemma sw_mid_invalidated:
  "sw_mid s log \<Longrightarrow> sw_mid (s\<lparr>sw_invalidated := True\<rparr>) log"
  by (auto simp: sw_mid_def sw_order_ok_def sw_callbacks_ok_def)

lemma sw_ok_frame:
  "sw_ok (s, log) \<Longrightarrow> sw_ok (s\<lparr>sw_reading := r\<rparr>, log)"
  "sw_ok (s, log) \<Longrightarrow> sw_ok (s\<lparr>sw_incomingFrameSize := n\<rparr>, log)"
  "sw_ok (s, log) \<Longrightarrow> Buffer_inv b \<Longrightarrow> sw_ok (s\<lparr>sw_incomingFrameBuffer := b\<rparr>, log)"
  by (simp_all add: sw_ok_def sw_flags_ok_def sw_order_ok_def sw_callbacks_ok_def)

lemma sw_ok_emit:
  "sw_ok (s, log) \<Longrightarrow> sw_ok (s, log @ [Emit_incomingFrame f])"
  by (simp add: sw_ok_def sw_order_ok_def sw_callbacks_ok_def)

lemma sw_ok_closing_log:
  assumes "sw_flags_ok s" "sw_order_ok s (log @ out)" "sw_callbacks_ok s (log @ out)"
    and "times_invalidated (log @ out) + k \<le> (if sw_invalidated s then 1 else 0)"
  shows "sw_ok (s, log @ ([Closed] @ out @ replicate k Emit_invalidated))"
    "k = 0 \<Longrightarrow> sw_ok (s, log @ out)"
proof -
  have e: "sock_queued (replicate k Emit_invalidated) = []" "sock_sent (replicate k Emit_invalidated) = []"
    "sock_called (replicate k Emit_invalidated) = []" "times_invalidated (replicate k Emit_invalidated) = k"
    by (induction k) simp_all
  show "sw_ok (s, log @ ([Closed] @ out @ replicate k Emit_invalidated))" "k = 0 \<Longrightarrow> sw_ok (s, log @ out)"
    using assms by (simp_all add: sw_ok_def sw_order_ok_def sw_callbacks_ok_def e)
qed

lemma invalidate_ok:
  assumes mid: "sw_mid s log" and once: "times_invalidated log \<le> (if sw_invalidated s then 1 else 0)"
  shows "sw_ok (fst (SocketWrapper_invalidate s), log @ snd (SocketWrapper_invalidate s))"
proof (cases "sw_invalidated s")
  case True
  then have "SocketWrapper_invalidate s = checkPendingWrites s"
    by (simp add: SocketWrapper_invalidate_def Let_def split: prod.split)
  then show ?thesis
    using checkPendingWrites_ok [OF mid] once True by (simp add: sw_ok_def)
next
  case False
  let ?s = "s\<lparr>sw_invalidated := True\<rparr>"
  have "SocketWrapper_invalidate s =
      (fst (checkPendingWrites ?s), [Closed] @ snd (checkPendingWrites ?s) @ replicate 1 Emit_invalidated)"
    using False by (simp add: SocketWrapper_invalidate_def Let_def split: prod.split)
  moreover have "sw_ok (fst (checkPendingWrites ?s),
      log @ ([Closed] @ snd (checkPendingWrites ?s) @ replicate 1 Emit_invalidated))"
    using checkPendingWrites_ok [OF sw_mid_invalidated [OF mid]] once False
    by (intro sw_ok_closing_log) simp_all
  ultimately show ?thesis by simp
qed

lemma invalidate_ok_of:
  "sw_ok (s, log) \<Longrightarrow>
   sw_ok (fst (SocketWrapper_invalidate s), log @ snd (SocketWrapper_invalidate s))"
  by (rule invalidate_ok) (simp_all add: sw_okD)

lemma dtor_ok:
  assumes ok: "sw_ok (s, log)"
  shows "sw_ok (fst (SocketWrapper_dtor s), log @ snd (SocketWrapper_dtor s))"
proof -
  define s1 where "s1 = (if \<not> sw_invalidated s then s\<lparr>sw_invalidated := True\<rparr> else s)"
  define c where "c = checkPendingWrites s1"
  have inv: "sw_invalidated s1" by (simp add: s1_def)
  have "sw_mid s1 log" using sw_okD(5) [OF ok] by (simp add: s1_def sw_mid_invalidated)
  note chk = checkPendingWrites_ok [OF this, folded c_def]
  have c': "sw_invalidated (fst c)" "times_invalidated (snd c) = 0" using inv by (simp_all add: c_def)
  have "sw_pendingWrites (fst c) = []" using inv by (simp add: c_def checkPendingWrites_def)
  then have "sw_ok ((fst c)\<lparr>sw_alive := False\<rparr>, log @ snd c)"
    using chk c' sw_okD(4) [OF ok]
    by (auto simp: sw_ok_def sw_flags_ok_def sw_order_ok_def sw_callbacks_ok_def split: if_splits)
  moreover have "SocketWrapper_dtor s = ((fst c)\<lparr>sw_alive := False\<rparr>,
      (if \<not> sw_invalidated s then [Closed] else []) @ snd c)"
    by (simp add: SocketWrapper_dtor_def Let_def s1_def c_def split: prod.split)
  ultimately show ?thesis
    by (auto simp: sw_ok_def sw_order_ok_def sw_callbacks_ok_def)
qed

lemma writeFrame_ok:
  assumes ok: "sw_ok (s, log)"
  shows "sw_ok (fst (writeFrame s w), log @ snd (writeFrame s w))"
proof (cases "sw_alive s \<and> \<not> sw_invalidated s")
  case True
  let ?s = "s\<lparr>sw_pendingWrites := sw_pendingWrites s @ [w]\<rparr>"
  have "sw_mid ?s (log @ [Queued w])"
    using sw_okD [OF ok] True
    by (auto simp: sw_mid_def sw_order_ok_def sw_callbacks_ok_def)
  from checkPendingWrites_ok [OF this] show ?thesis
    using sw_okD(4) [OF ok] True checkPendingWrites_unchanged(2,5) [of ?s]
    by (simp add: writeFrame_def sw_ok_def case_prod_beta)
next
  case False
  have inv: "sw_invalidated s" and none: "sw_pendingWrites s = []"
    using sw_okD(1) [OF ok] False by (auto simp: sw_flags_ok_def)
  then have "writeFrame s w = (s, [Queued w, Callback (pw_callback w) True])"
    by (auto simp: writeFrame_def checkPendingWrites_def)
  then show ?thesis
    using sw_okD(2) [OF ok] ok inv none
    by (auto simp: sw_ok_def sw_order_ok_def sw_callbacks_ok_def)
qed

lemma onWritten_ok:
  assumes ok: "sw_ok (s, log)"
  shows "sw_ok (fst (onWritten s ec), log @ snd (onWritten s ec))"
proof (cases "sw_current s")
  case None
  then show ?thesis using ok by (simp add: onWritten_def)
next
  case (Some cur)
  obtain ps cb where cur: "cur = (ps, cb)" by (cases cur)
  define s0 where "s0 = s\<lparr>sw_current := None\<rparr>"
  define out0 where "out0 = (if ec then [] else [Sent (concat (map (piece_bytes s) ps))]) @ [Callback cb ec]"
  note okD = sw_okD [OF ok]
  have q0: "sock_queued out0 = []" "times_invalidated out0 = 0" "sock_called out0 = [cb]"
    "sock_sent out0 = (if ec then [] else [concat (map (piece_bytes s) ps)])"
    by (simp_all add: out0_def)
  have cb0: "sw_callbacks_ok s0 (log @ out0)"
    using okD(3) Some cur by (simp add: sw_callbacks_ok_def s0_def q0 current_callbacks_def)
  have cw: "current_writes s = [concat (map (piece_bytes s) ps)]"
    using Some cur by (simp add: current_writes_def)
  have ord: "sw_invalidated s \<or> \<not> ec \<Longrightarrow> sw_order_ok s0 (log @ out0)"
  proof -
    assume c: "sw_invalidated s \<or> \<not> ec"
    from okD(2) obtain dropped where
      "map (framed \<circ> pw_frame) (sock_queued log) =
         sock_sent log @ current_writes s @ map (framed \<circ> pw_frame) (sw_pendingWrites s) @ dropped"
      "\<not> sw_invalidated s \<longrightarrow> dropped = []" by (auto simp: sw_order_ok_def)
    with c show ?thesis
      using okD(1) by (auto simp: sw_order_ok_def s0_def q0 cw sw_flags_ok_def)
  qed
  have result: "onWritten s ec =
      (if \<not> sw_alive s then (s0, out0)
       else let (s1, out1) = (if ec then SocketWrapper_invalidate s0 else (s0, []));
                (s2, out2) = checkPendingWrites (s1\<lparr>sw_writeInProgress := False\<rparr>)
            in (s2, out0 @ out1 @ out2))"
    by (simp add: onWritten_def Some cur s0_def out0_def Let_def)
  have once: "times_invalidated (log @ out0) \<le> (if sw_invalidated s then 1 else 0)"
    using okD(4) q0 by simp
  consider (dead) "\<not> sw_alive s" | (fail) "sw_alive s" "ec" "\<not> sw_invalidated s"
    | (going) "sw_alive s" "\<not> ec \<or> sw_invalidated s" by blast
  then show ?thesis
  proof cases
    case dead
    then have "sw_invalidated s" using okD(1) by (simp add: sw_flags_ok_def)
    then show ?thesis
      using dead ord cb0 once okD(1)
      by (auto simp: result sw_ok_def sw_flags_ok_def s0_def)
  next
    case going
    let ?s1 = "s0\<lparr>sw_writeInProgress := False\<rparr>"
    have "ec \<Longrightarrow> SocketWrapper_invalidate s0 = (s0, [])"
      using going okD(1)
      by (auto simp: SocketWrapper_invalidate_def checkPendingWrites_def s0_def sw_flags_ok_def)
    then have r: "onWritten s ec = (fst (checkPendingWrites ?s1), out0 @ snd (checkPendingWrites ?s1))"
      using going by (simp add: result split: prod.split)
    have "sw_mid ?s1 (log @ out0)"
      using ord going cb0 okD(5)
      by (auto simp: sw_mid_def s0_def sw_order_ok_def sw_callbacks_ok_def)
    from checkPendingWrites_ok [OF this] show ?thesis
      using once by (simp add: r sw_ok_def s0_def)
  next
    case fail
    define aborts where
      "aborts = map (\<lambda>w. Callback (pw_callback w) True) (sw_pendingWrites s)"
    define s2 where "s2 = s0\<lparr>sw_invalidated := True, sw_pendingWrites := [], sw_writeInProgress := False\<rparr>"
    have "SocketWrapper_invalidate s0 =
        (s0\<lparr>sw_invalidated := True, sw_pendingWrites := []\<rparr>, [Closed] @ aborts @ [Emit_invalidated])"
      using fail by (simp add: SocketWrapper_invalidate_def checkPendingWrites_def s0_def aborts_def)
    then have r: "onWritten s ec = (s2, out0 @ [Closed] @ aborts @ [Emit_invalidated])"
      unfolding result using fail by (simp add: checkPendingWrites_def s2_def)
    have a: "sock_queued aborts = []" "sock_sent aborts = []" "times_invalidated aborts = 0"
      "sock_called aborts = map pw_callback (sw_pendingWrites s)" by (simp_all add: aborts_def)
    have "sw_flags_ok s2" using okD(1) by (auto simp: sw_flags_ok_def s2_def s0_def)
    moreover have "sw_order_ok s2 (log @ out0 @ [Closed] @ aborts @ [Emit_invalidated])"
      using okD(2) fail by (auto simp: sw_order_ok_def s2_def s0_def a q0 cw)
    moreover have "sw_callbacks_ok s2 (log @ out0 @ [Closed] @ aborts @ [Emit_invalidated])"
      using cb0 by (simp add: sw_callbacks_ok_def s2_def s0_def a q0)
    moreover have "times_invalidated (log @ out0 @ [Closed] @ aborts @ [Emit_invalidated]) \<le> 1"
      using okD(4) fail by (simp add: a q0)
    ultimately show ?thesis by (simp add: r sw_ok_def s2_def)
  qed
qed

lemma readFrame_ok:
  assumes ok: "sw_ok (s, log)"
  shows "sw_ok (fst (readFrame alloc s), log @ snd (readFrame alloc s))"
proof -
  let ?n = "unat (sw_incomingFrameSize s)"
  let ?b = "sw_incomingFrameBuffer s"
  define b' where "b' = (if ?n > buf_size ?b \<or> buf_size ?b > kIncomingBufferMaxReuseSize
                         then snd (Buffer_resize alloc ?b ?n) else ?b)"
  have "Buffer_inv ?b" using sw_okD(1) [OF ok] by (simp add: sw_flags_ok_def)
  then have "Buffer_inv b'" by (simp add: b'_def Buffer_resize_inv)
  with ok have ok': "sw_ok (s\<lparr>sw_incomingFrameBuffer := b'\<rparr>, log)" by (rule sw_ok_frame(3))
  have "readFrame alloc s =
      (if buf_size b' < ?n then SocketWrapper_invalidate (s\<lparr>sw_incomingFrameBuffer := b'\<rparr>)
       else (s\<lparr>sw_incomingFrameBuffer := b'\<rparr>\<lparr>sw_reading := ReadingFrame\<rparr>, []))"
    by (simp add: readFrame_def Let_def b'_def)
  then show ?thesis
    using invalidate_ok_of [OF ok'] sw_ok_frame(1) [OF ok'] by simp
qed

lemma onFrameSizeRead_ok:
  assumes ok: "sw_ok (s, log)"
  shows "sw_ok (fst (onFrameSizeRead alloc s r), log @ snd (onFrameSizeRead alloc s r))"
proof -
  have ok0: "sw_ok (s\<lparr>sw_reading := NoRead\<rparr>, log)" using ok by (rule sw_ok_frame)
  show ?thesis
    using ok ok0 invalidate_ok_of [OF ok0] readFrame_ok [OF sw_ok_frame(2) [OF ok0]]
    by (auto simp: onFrameSizeRead_def Let_def split: option.split)
qed

lemma onFrameRead_ok:
  assumes ok: "sw_ok (s, log)"
  shows "sw_ok (fst (onFrameRead s r), log @ snd (onFrameRead s r))"
proof -
  have ok0: "sw_ok (s\<lparr>sw_reading := NoRead\<rparr>, log)" using ok by (rule sw_ok_frame)
  show ?thesis
    using ok ok0 invalidate_ok_of [OF ok0] sw_ok_emit [OF sw_ok_frame(1) [OF ok0]]
    by (auto simp: onFrameRead_def Let_def readFrameSize_def split: option.split)
qed

lemma sw_log_step_ok: "sw_ok c \<Longrightarrow> sw_ok (sw_log_step alloc c e)"
proof (cases c)
  case (Pair s log)
  assume "sw_ok c"
  then have ok: "sw_ok (s, log)" by (simp add: Pair)
  have "sw_ok (fst (sw_step alloc s e), log @ snd (sw_step alloc s e))"
  proof (cases e)
    case Run
    then show ?thesis using ok sw_ok_frame(1) [OF ok] by (simp add: readFrameSize_def)
  next
    case Invalidate
    then show ?thesis using ok invalidate_ok_of [OF ok] by simp
  next
    case Destroy
    then show ?thesis using ok dtor_ok [OF ok] by simp
  qed (simp_all add: ok writeFrame_ok onWritten_ok onFrameSizeRead_ok onFrameRead_ok)
  then show ?thesis by (simp add: sw_log_step_def Pair case_prod_beta)
qed

lemma sw_ok_init: "sw_ok (SocketWrapper_create, [])"
  by (simp add: sw_ok_def sw_flags_ok_def sw_order_ok_def sw_callbacks_ok_def SocketWrapper_create_def
      Buffer_ctor_def Buffer_inv_def current_writes_def current_callbacks_def)

interpretation socket: step_machine "sw_log_step alloc" "(SocketWrapper_create, [])" sw_ok for alloc
  by unfold_locales (simp_all add: sw_ok_init sw_log_step_ok)

section \<open>The read buffer\<close>

lemma readFrame_buffer:
  assumes "readFrame alloc s = (s', [])" and "sw_reading s' = ReadingFrame"
    and "sw_reading s \<noteq> ReadingFrame"
  shows "unat (sw_incomingFrameSize s) \<le> buf_size (sw_incomingFrameBuffer s') \<and>
         buf_size (sw_incomingFrameBuffer s')
           \<le> max kIncomingBufferMaxReuseSize (unat (sw_incomingFrameSize s))"
proof -
  define b' where "b' = (if unat (sw_incomingFrameSize s) > buf_size (sw_incomingFrameBuffer s)
      \<or> buf_size (sw_incomingFrameBuffer s) > kIncomingBufferMaxReuseSize
      then snd (Buffer_resize alloc (sw_incomingFrameBuffer s) (unat (sw_incomingFrameSize s)))
      else sw_incomingFrameBuffer s)"
  have "\<not> buf_size b' < unat (sw_incomingFrameSize s)"
  proof
    assume "buf_size b' < unat (sw_incomingFrameSize s)"
    then have "readFrame alloc s = SocketWrapper_invalidate (s\<lparr>sw_incomingFrameBuffer := b'\<rparr>)"
      by (simp add: readFrame_def Let_def b'_def)
    then have "sw_reading (fst (readFrame alloc s)) = sw_reading s"
      by (simp add: SocketWrapper_invalidate_def Let_def case_prod_beta)
    then show False using assms by simp
  qed
  moreover from this have "sw_incomingFrameBuffer s' = b'"
    using assms(1) by (auto simp: readFrame_def Let_def simp flip: b'_def)
  moreover have "buf_size b' \<le> max kIncomingBufferMaxReuseSize (unat (sw_incomingFrameSize s))"
    by (auto simp: b'_def Buffer_resize_def)
  ultimately show ?thesis by simp
qed

section \<open>The receiver on a byte stream\<close>

lemma onFrameRead_reading: "sw_reading (fst (onFrameRead s r)) \<noteq> ReadingFrame"
  by (auto simp: onFrameRead_def readFrameSize_def SocketWrapper_invalidate_def Let_def
      case_prod_beta split: option.split)

text \<open>
  TCP hands the receiver the bytes the sender wrote, in order; \<^verbatim>\<open>async_read\<close> with
  \<^verbatim>\<open>transfer_exactly(n)\<close> completes once \<open>n\<close> of them have arrived. \<open>pump\<close> runs the two
  completion handlers on the bytes that are available.
\<close>

function pump ::
    "(nat \<Rightarrow> bool) \<Rightarrow> SocketWrapper \<Rightarrow> byte list \<Rightarrow> SocketWrapper \<times> sock_out list \<times> byte list" where
  "pump alloc s bs =
     (if sw_reading s = ReadingFrameSize \<and> 8 \<le> length bs then
        (let (s1, out1) = onFrameSizeRead alloc s (Some (take 8 bs));
             (s2, out2, left) = pump alloc s1 (drop 8 bs)
         in (s2, out1 @ out2, left))
      else if sw_reading s = ReadingFrame \<and> unat (sw_incomingFrameSize s) \<le> length bs then
        (let (s1, out1) = onFrameRead s (Some (take (unat (sw_incomingFrameSize s)) bs));
             (s2, out2, left) = pump alloc s1 (drop (unat (sw_incomingFrameSize s)) bs)
         in (s2, out1 @ out2, left))
      else (s, [], bs))"
  by pat_completeness auto

termination
proof (relation "measure (\<lambda>(alloc, s, bs). 2 * length bs + (if sw_reading s = ReadingFrame then 1 else 0))",
    goal_cases)
  case (3 alloc s bs x s1 out1)
  then have "sw_reading s1 \<noteq> ReadingFrame"
    using onFrameRead_reading [of s] by (metis fst_conv)
  with 3 show ?case by auto
qed auto

declare pump.simps [simp del]

text \<open>A receiver between two frames.\<close>

definition receiving :: "SocketWrapper \<Rightarrow> bool" where
  "receiving s \<longleftrightarrow>
     sw_alive s \<and> sw_reading s = ReadingFrameSize \<and> Buffer_inv (sw_incomingFrameBuffer s)"

lemma onFrameSizeRead_receiving:
  assumes r: "receiving s" and alloc: "alloc (unat n)" and n: "0 < unat n"
  shows "\<exists>s'. onFrameSizeRead alloc s (Some (size_bytes n)) = (s', []) \<and>
           sw_alive s' \<and> sw_reading s' = ReadingFrame \<and> sw_incomingFrameSize s' = n \<and>
           Buffer_inv (sw_incomingFrameBuffer s') \<and> buf_memory (sw_incomingFrameBuffer s') \<noteq> None"
proof -
  let ?b = "sw_incomingFrameBuffer s"
  define b' where "b' = (if unat n > buf_size ?b \<or> buf_size ?b > kIncomingBufferMaxReuseSize
                         then snd (Buffer_resize alloc ?b (unat n)) else ?b)"
  have inv: "Buffer_inv b'" using r by (simp add: b'_def receiving_def Buffer_resize_inv)
  have enough: "\<not> buf_size b' < unat n"
    using alloc by (auto simp: b'_def Buffer_resize_def)
  then have mem: "buf_memory b' \<noteq> None" using inv n by (auto simp: Buffer_inv_def split: option.splits)
  have rf: "readFrame alloc t =
      (t\<lparr>sw_incomingFrameBuffer := b', sw_reading := ReadingFrame\<rparr>, [])"
    if "sw_incomingFrameSize t = n" "sw_incomingFrameBuffer t = ?b" for t
    using enough that unfolding readFrame_def Let_def b'_def by (simp split: if_splits)
  have "onFrameSizeRead alloc s (Some (size_bytes n)) =
      (s\<lparr>sw_reading := NoRead, sw_incomingFrameSize := n, sw_incomingFrameBuffer := b',
         sw_reading := ReadingFrame\<rparr>, [])"
    using r by (simp add: receiving_def onFrameSizeRead_def rf)
  then show ?thesis using r inv mem by (simp add: receiving_def)
qed

lemma pump_frame:
  assumes r: "receiving s" and alloc: "alloc (frame_size f)"
    and size: "0 < frame_size f" "frame_size f < 2 ^ 64"
  shows "\<exists>s'. receiving s' \<and>
     pump alloc s (framed f @ rest) =
       (let (s2, out2, left) = pump alloc s' rest
        in (s2, Emit_incomingFrame (Some (concat f)) # out2, left))"
proof -
  let ?n = "word_of_nat (frame_size f) :: size_t"
  have u: "unat ?n = frame_size f" using size by (simp add: unat_of_nat)
  have len: "length (concat f) = frame_size f" by (simp add: frame_size_def length_concat)
  from onFrameSizeRead_receiving [OF r, of alloc ?n] alloc size u obtain s1 where
    s1: "onFrameSizeRead alloc s (Some (size_bytes ?n)) = (s1, [])" "sw_alive s1"
      "sw_reading s1 = ReadingFrame" "sw_incomingFrameSize s1 = ?n"
      "Buffer_inv (sw_incomingFrameBuffer s1)" "buf_memory (sw_incomingFrameBuffer s1) \<noteq> None"
    by auto
  define s2 where "s2 = readFrameSize (s1\<lparr>sw_reading := NoRead\<rparr>)"
  have s2: "onFrameRead s1 (Some (concat f)) = (s2, [Emit_incomingFrame (Some (concat f))])"
    using s1 by (auto simp: onFrameRead_def s2_def)
  have p1: "pump alloc s (framed f @ rest) =
      (let (s3, out3, left) = pump alloc s1 (concat f @ rest) in (s3, out3, left))"
    using r by (simp add: pump.simps [of alloc s] receiving_def framed_def s1(1))
  have p2: "pump alloc s1 (concat f @ rest) =
      (let (s3, out3, left) = pump alloc s2 rest
       in (s3, Emit_incomingFrame (Some (concat f)) # out3, left))"
    using s1 s2 u len by (simp add: pump.simps [of alloc s1])
  have "receiving s2" using s1 by (simp add: receiving_def s2_def readFrameSize_def)
  then show ?thesis using p1 p2 by (auto simp: case_prod_beta Let_def)
qed

lemma pump_frames:
  assumes "receiving s"
    and "\<forall>f \<in> set fs. 0 < frame_size f \<and> frame_size f < 2 ^ 64 \<and> alloc (frame_size f)"
  shows "\<exists>s' out. receiving s' \<and> sock_emitted out = map (Some \<circ> concat) fs \<and>
           pump alloc s (concat (map framed fs)) = (s', out, [])"
  using assms
proof (induction fs arbitrary: s)
  case Nil
  then show ?case by (auto simp: pump.simps [of alloc s] receiving_def intro!: exI [of _ s] exI [of _ "[]"])
next
  case (Cons f fs)
  then obtain s1 where s1: "receiving s1"
    "pump alloc s (framed f @ concat (map framed fs)) =
       (let (s2, out2, left) = pump alloc s1 (concat (map framed fs))
        in (s2, Emit_incomingFrame (Some (concat f)) # out2, left))"
    using pump_frame [of s alloc f "concat (map framed fs)"] by auto
  from Cons.IH [OF s1(1)] Cons.prems(2) obtain s' out where
    "receiving s'" "sock_emitted out = map (Some \<circ> concat) fs"
    "pump alloc s1 (concat (map framed fs)) = (s', out, [])" by auto
  with s1(2) show ?case by (intro exI [of _ s']) auto
qed

section \<open>Properties\<close>

abbreviation sw_run :: "(nat \<Rightarrow> bool) \<Rightarrow> sock_event list \<Rightarrow> SocketWrapper \<times> sock_out list" where
  "sw_run alloc evs \<equiv> run_steps (sw_log_step alloc) (SocketWrapper_create, []) evs"

text \<open>
C19: Frames leave the socket in the order in which they were handed to \<^verbatim>\<open>writeFrame\<close>, each
once, whole and with its own size in front, although the size is read from a member that
every write reuses.
\<close>

theorem socket_sends_in_order:
  "prefix (sock_sent (snd (sw_run alloc evs)))
          (map (framed \<circ> pw_frame) (sock_queued (snd (sw_run alloc evs))))"
  using socket.inv_run [of alloc evs] by (auto simp: sw_ok_def sw_order_ok_def)


text \<open>
\<^verbatim>\<open>invalidated\<close> is emitted at most once in the life of a socket, and never before the
socket is invalidated; a destroyed socket is invalidated.
\<close>

theorem socket_invalidated_at_most_once:
  "let (s, log) = sw_run alloc evs
   in times_invalidated log \<le> (if sw_invalidated s then 1 else 0) \<and> (sw_alive s \<or> sw_invalidated s)"
  using socket.inv_run [of alloc evs]
  by (auto simp: sw_ok_def sw_flags_ok_def case_prod_beta Let_def)

text \<open>
C21: The stream is read back frame by frame: a receiver that waits for a frame size and is
handed the bytes of any number of frames emits exactly those frames, in order, and waits for
the next one. The frames are not empty and the receiver can allocate their sizes.
\<close>

theorem socket_stream_roundtrip:
  assumes "receiving s"
    and "\<forall>f \<in> set fs. 0 < frame_size f \<and> frame_size f < 2 ^ 64 \<and> alloc (frame_size f)"
  shows "\<exists>s' out. pump alloc s (concat (map framed fs)) = (s', out, []) \<and> receiving s' \<and>
           sock_emitted out = map (Some \<circ> concat) fs"
  using pump_frames [OF assms] by blast

theorem socket_stream_roundtrip_witness:
  "\<exists>s' out. pump (\<lambda>n. n < 1000) (readFrameSize SocketWrapper_create)
      (concat (map framed [[''ab'', ''c''], [''d'']])) = (s', out, []) \<and>
    sock_emitted out = [Some ''abc'', Some ''d'']"
proof -
  have "receiving (readFrameSize SocketWrapper_create)"
    by (simp add: receiving_def readFrameSize_def SocketWrapper_create_def Buffer_ctor_def Buffer_inv_def)
  from socket_stream_roundtrip [OF this, of "[[''ab'', ''c''], [''d'']]" "\<lambda>n. n < 1000"]
  show ?thesis by (auto simp: frame_size_def)
qed

text \<open>
C22: A frame is never read past its buffer: when the read of a frame starts, the buffer holds
at least the announced size, and it is never larger than the larger of that size and the
reuse bound.
\<close>

theorem socket_read_within_buffer:
  assumes "readFrame alloc s = (s', [])" and "sw_reading s' = ReadingFrame"
    and "sw_reading s \<noteq> ReadingFrame"
  shows "unat (sw_incomingFrameSize s) \<le> buf_size (sw_incomingFrameBuffer s') \<and>
         buf_size (sw_incomingFrameBuffer s')
           \<le> max kIncomingBufferMaxReuseSize (unat (sw_incomingFrameSize s))"
  using assms by (rule readFrame_buffer)

theorem socket_read_within_buffer_witness:
  "buf_size (sw_incomingFrameBuffer (fst (readFrame (\<lambda>_. True)
     (SocketWrapper_create\<lparr>sw_incomingFrameSize := 20\<rparr>)))) \<ge> 20"
proof -
  let ?s = "SocketWrapper_create\<lparr>sw_incomingFrameSize := 20\<rparr>"
  have r: "readFrame (\<lambda>_. True) ?s = (fst (readFrame (\<lambda>_. True) ?s), [])"
    "sw_reading (fst (readFrame (\<lambda>_. True) ?s)) = ReadingFrame" "sw_reading ?s \<noteq> ReadingFrame"
    by (simp_all add: readFrame_def SocketWrapper_create_def Buffer_ctor_def Buffer_resize_def Let_def)
  from socket_read_within_buffer [OF r] show ?thesis by simp
qed

end
