(* ===== verification/OutcomingContexts.thy ===== *)
theory OutcomingContexts
  imports SocketWrapper
begin

text \<open>
  libs/proto/src/outcomingrequestcontext and libs/proto/include/proto/exceptions.h: the
  contexts that turn a response payload, or its absence, into the value or the exception of
  a promise. A \<^verbatim>\<open>boost::promise\<close> holds nothing, a value or an exception; setting it a
  second time throws \<^verbatim>\<open>promise_already_satisfied\<close>, which is a value of the result's left
  side. The four context classes differ in the value type and in the response class they
  parse; the virtual functions dispatch on the constructor of \<open>OutContext\<close>.
\<close>

section \<open>Exceptions\<close>

datatype ResponseException = BadResponseFrame | Timeout | PeerDisconnected

fun ResponseException_what :: "ResponseException \<Rightarrow> string" where
  "ResponseException_what BadResponseFrame = ''Bad response frame format''"
| "ResponseException_what Timeout = ''Timeout occured for request''"
| "ResponseException_what PeerDisconnected = ''Peer disconnected''"

section \<open>Promises\<close>

datatype 'a promise = Unsatisfied | Value 'a | Exception ResponseException

fun promise_set_value :: "'a \<Rightarrow> 'a promise \<Rightarrow> cpp_exception + 'a promise" where
  "promise_set_value v Unsatisfied = Inr (Value v)"
| "promise_set_value v _ = Inl PromiseAlreadySatisfied"

fun promise_set_exception :: "ResponseException \<Rightarrow> 'a promise \<Rightarrow> cpp_exception + 'a promise" where
  "promise_set_exception e Unsatisfied = Inr (Exception e)"
| "promise_set_exception e _ = Inl PromiseAlreadySatisfied"

section \<open>AbstractOutcomingRequestContext\<close>

record 'a OutCtx =
  oc_promiseFilled :: bool
  oc_promise :: "'a promise"

definition OutCtx_create :: "'a OutCtx" where
  "OutCtx_create = \<lparr>oc_promiseFilled = False, oc_promise = Unsatisfied\<rparr>"

definition promiseMarkFilled :: "'a OutCtx \<Rightarrow> 'a OutCtx" where
  "promiseMarkFilled c = c\<lparr>oc_promiseFilled := True\<rparr>"

text \<open>The switch of \<^verbatim>\<open>invalidatePromise\<close>: the exception thrown for a reason.\<close>

fun reason_exception :: "InvalidationReason \<Rightarrow> ResponseException" where
  "reason_exception TIMEOUT = Timeout"
| "reason_exception BAD_RESPONSE_FRAME = BadResponseFrame"
| "reason_exception PEER_DISCONNECTED = PeerDisconnected"

definition invalidatePromise :: "InvalidationReason \<Rightarrow> 'a OutCtx \<Rightarrow> cpp_exception + 'a OutCtx" where
  "invalidatePromise reason c =
     (if oc_promiseFilled c then Inr c
      else
        (let c' = promiseMarkFilled c
         in case promise_set_exception (reason_exception reason) (oc_promise c') of
              Inl e \<Rightarrow> Inl e
            | Inr p \<Rightarrow> Inr (c'\<lparr>oc_promise := p\<rparr>)))"

text \<open>What every \<^verbatim>\<open>onResponseRecieved\<close> does once the payload has been parsed.\<close>

definition fulfilPromise :: "'a \<Rightarrow> 'a OutCtx \<Rightarrow> cpp_exception + 'a OutCtx" where
  "fulfilPromise v c =
     (let c' = promiseMarkFilled c
      in case promise_set_value v (oc_promise c') of
           Inl e \<Rightarrow> Inl e
         | Inr p \<Rightarrow> Inr (c'\<lparr>oc_promise := p\<rparr>))"

section \<open>The four contexts\<close>

definition OutCtx_AddMessage_onResponse ::
    "const_buffer \<Rightarrow> AddMessageStatus OutCtx \<Rightarrow> cpp_exception + AddMessageStatus OutCtx" where
  "OutCtx_AddMessage_onResponse payload c =
     (if oc_promiseFilled c then Inr c
      else (case Response_AddMessage_fromPayload payload of
              None \<Rightarrow> invalidatePromise BAD_RESPONSE_FRAME c
            | Some response \<Rightarrow> fulfilPromise (sam_status response) c))"

definition OutCtx_GetMessages_onResponse ::
    "(nat \<Rightarrow> bool) \<Rightarrow> const_buffer \<Rightarrow> string list OutCtx \<Rightarrow> cpp_exception + string list OutCtx" where
  "OutCtx_GetMessages_onResponse alloc payload c =
     (if oc_promiseFilled c then Inr c
      else (case Response_GetMessages_fromPayload alloc payload of
              Inl e \<Rightarrow> Inl e
            | Inr None \<Rightarrow> invalidatePromise BAD_RESPONSE_FRAME c
            | Inr (Some response) \<Rightarrow>
                (case Response_GetMessages_flushMessages response of
                   Inl e \<Rightarrow> Inl e
                 | Inr messages \<Rightarrow> fulfilPromise messages c)))"

definition OutCtx_Ping_onResponse ::
    "const_buffer \<Rightarrow> timestamp OutCtx \<Rightarrow> cpp_exception + timestamp OutCtx" where
  "OutCtx_Ping_onResponse payload c =
     (if oc_promiseFilled c then Inr c
      else (case Response_Pong_fromPayload payload of
              None \<Rightarrow> invalidatePromise BAD_RESPONSE_FRAME c
            | Some response \<Rightarrow> fulfilPromise (sp_timestamp response) c))"

definition OutCtx_SecondaryNodeReady_onResponse ::
    "const_buffer \<Rightarrow> unit OutCtx \<Rightarrow> cpp_exception + unit OutCtx" where
  "OutCtx_SecondaryNodeReady_onResponse payload c =
     (if oc_promiseFilled c then Inr c
      else (case Response_SecondaryNodeReady_fromPayload payload of
              None \<Rightarrow> invalidatePromise BAD_RESPONSE_FRAME c
            | Some _ \<Rightarrow> fulfilPromise () c))"

datatype OutContext =
    OC_AddMessage "AddMessageStatus OutCtx"
  | OC_GetMessages "string list OutCtx"
  | OC_Ping "timestamp OutCtx"
  | OC_SecondaryNodeReady "unit OutCtx"

definition lift_ctx :: "('a \<Rightarrow> OutContext) \<Rightarrow> cpp_exception + 'a \<Rightarrow> cpp_exception + OutContext" where
  "lift_ctx f r = (case r of Inl e \<Rightarrow> Inl e | Inr c \<Rightarrow> Inr (f c))"

fun OutContext_onResponseRecieved ::
    "(nat \<Rightarrow> bool) \<Rightarrow> const_buffer \<Rightarrow> OutContext \<Rightarrow> cpp_exception + OutContext" where
  "OutContext_onResponseRecieved alloc payload (OC_AddMessage c) =
     lift_ctx OC_AddMessage (OutCtx_AddMessage_onResponse payload c)"
| "OutContext_onResponseRecieved alloc payload (OC_GetMessages c) =
     lift_ctx OC_GetMessages (OutCtx_GetMessages_onResponse alloc payload c)"
| "OutContext_onResponseRecieved alloc payload (OC_Ping c) =
     lift_ctx OC_Ping (OutCtx_Ping_onResponse payload c)"
| "OutContext_onResponseRecieved alloc payload (OC_SecondaryNodeReady c) =
     lift_ctx OC_SecondaryNodeReady (OutCtx_SecondaryNodeReady_onResponse payload c)"

text \<open>Every class invalidates its own promise.\<close>

definition OutCtx_AddMessage_invalidate ::
    "InvalidationReason \<Rightarrow> AddMessageStatus OutCtx \<Rightarrow> cpp_exception + AddMessageStatus OutCtx" where
  [simp]: "OutCtx_AddMessage_invalidate reason c = invalidatePromise reason c"

definition OutCtx_GetMessages_invalidate ::
    "InvalidationReason \<Rightarrow> string list OutCtx \<Rightarrow> cpp_exception + string list OutCtx" where
  [simp]: "OutCtx_GetMessages_invalidate reason c = invalidatePromise reason c"

definition OutCtx_Ping_invalidate ::
    "InvalidationReason \<Rightarrow> timestamp OutCtx \<Rightarrow> cpp_exception + timestamp OutCtx" where
  [simp]: "OutCtx_Ping_invalidate reason c = invalidatePromise reason c"

definition OutCtx_SecondaryNodeReady_invalidate ::
    "InvalidationReason \<Rightarrow> unit OutCtx \<Rightarrow> cpp_exception + unit OutCtx" where
  [simp]: "OutCtx_SecondaryNodeReady_invalidate reason c = invalidatePromise reason c"

fun OutContext_invalidate :: "InvalidationReason \<Rightarrow> OutContext \<Rightarrow> cpp_exception + OutContext" where
  "OutContext_invalidate reason (OC_AddMessage c) =
     lift_ctx OC_AddMessage (OutCtx_AddMessage_invalidate reason c)"
| "OutContext_invalidate reason (OC_GetMessages c) =
     lift_ctx OC_GetMessages (OutCtx_GetMessages_invalidate reason c)"
| "OutContext_invalidate reason (OC_Ping c) = lift_ctx OC_Ping (OutCtx_Ping_invalidate reason c)"
| "OutContext_invalidate reason (OC_SecondaryNodeReady c) =
     lift_ctx OC_SecondaryNodeReady (OutCtx_SecondaryNodeReady_invalidate reason c)"

text \<open>
  The \<^verbatim>\<open>create()\<close> functions, by class; the future \<^verbatim>\<open>get_future()\<close> gives out is the reader's
  end of the promise of the new context.
\<close>

definition OutCtx_AddMessage_create :: "AddMessageStatus OutCtx" where
  [simp]: "OutCtx_AddMessage_create = OutCtx_create"

definition OutCtx_GetMessages_create :: "string list OutCtx" where
  [simp]: "OutCtx_GetMessages_create = OutCtx_create"

definition OutCtx_Ping_create :: "timestamp OutCtx" where
  [simp]: "OutCtx_Ping_create = OutCtx_create"

definition OutCtx_SecondaryNodeReady_create :: "unit OutCtx" where
  [simp]: "OutCtx_SecondaryNodeReady_create = OutCtx_create"

datatype ctx_kind = K_AddMessage | K_GetMessages | K_Ping | K_SecondaryNodeReady

fun OutContext_create :: "ctx_kind \<Rightarrow> OutContext" where
  "OutContext_create K_AddMessage = OC_AddMessage OutCtx_AddMessage_create"
| "OutContext_create K_GetMessages = OC_GetMessages OutCtx_GetMessages_create"
| "OutContext_create K_Ping = OC_Ping OutCtx_Ping_create"
| "OutContext_create K_SecondaryNodeReady = OC_SecondaryNodeReady OutCtx_SecondaryNodeReady_create"

section \<open>What the holder of the future sees\<close>

datatype outcome =
    Got_AddMessage AddMessageStatus
  | Got_GetMessages "string list"
  | Got_Ping timestamp
  | Got_SecondaryNodeReady
  | Failed ResponseException

definition promise_outcome :: "('a \<Rightarrow> outcome) \<Rightarrow> 'a promise \<Rightarrow> outcome option" where
  "promise_outcome f p =
     (case p of Unsatisfied \<Rightarrow> None | Value v \<Rightarrow> Some (f v) | Exception e \<Rightarrow> Some (Failed e))"

fun outcome_of :: "OutContext \<Rightarrow> outcome option" where
  "outcome_of (OC_AddMessage c) = promise_outcome Got_AddMessage (oc_promise c)"
| "outcome_of (OC_GetMessages c) = promise_outcome Got_GetMessages (oc_promise c)"
| "outcome_of (OC_Ping c) = promise_outcome Got_Ping (oc_promise c)"
| "outcome_of (OC_SecondaryNodeReady c) = promise_outcome (\<lambda>_. Got_SecondaryNodeReady) (oc_promise c)"

fun ctx_filled :: "OutContext \<Rightarrow> bool" where
  "ctx_filled (OC_AddMessage c) = oc_promiseFilled c"
| "ctx_filled (OC_GetMessages c) = oc_promiseFilled c"
| "ctx_filled (OC_Ping c) = oc_promiseFilled c"
| "ctx_filled (OC_SecondaryNodeReady c) = oc_promiseFilled c"

text \<open>The flag and the promise agree.\<close>

definition ctx_ok :: "OutContext \<Rightarrow> bool" where
  "ctx_ok c \<longleftrightarrow> (ctx_filled c \<longleftrightarrow> outcome_of c \<noteq> None)"

lemma promise_outcome_simps [simp]:
  "promise_outcome f Unsatisfied = None"
  "promise_outcome f (Value v) = Some (f v)"
  "promise_outcome f (Exception e) = Some (Failed e)"
  by (simp_all add: promise_outcome_def)

lemma promise_outcome_None [simp]: "promise_outcome f p = None \<longleftrightarrow> p = Unsatisfied"
  by (cases p) simp_all

lemma ctx_create [simp]:
  "ctx_ok (OutContext_create k)" "\<not> ctx_filled (OutContext_create k)"
  "outcome_of (OutContext_create k) = None"
  by (cases k; simp add: ctx_ok_def OutCtx_create_def)+

lemma lift_ctx_simps [simp]: "lift_ctx f (Inl e) = Inl e" "lift_ctx f (Inr c) = Inr (f c)"
  by (simp_all add: lift_ctx_def)

lemma invalidatePromise_unfilled:
  "\<not> oc_promiseFilled c \<Longrightarrow> oc_promise c = Unsatisfied \<Longrightarrow>
   invalidatePromise reason c =
     Inr (c\<lparr>oc_promiseFilled := True, oc_promise := Exception (reason_exception reason)\<rparr>)"
  by (simp add: invalidatePromise_def promiseMarkFilled_def)

lemma invalidatePromise_filled: "oc_promiseFilled c \<Longrightarrow> invalidatePromise reason c = Inr c"
  by (simp add: invalidatePromise_def)

lemma fulfilPromise_unfilled:
  "oc_promise c = Unsatisfied \<Longrightarrow>
   fulfilPromise v c = Inr (c\<lparr>oc_promiseFilled := True, oc_promise := Value v\<rparr>)"
  by (simp add: fulfilPromise_def promiseMarkFilled_def)

text \<open>Invalidating a context that has no outcome gives it the reason's exception.\<close>

lemma OutContext_invalidate_open:
  assumes "ctx_ok c" "\<not> ctx_filled c"
  shows "\<exists>c'. OutContext_invalidate reason c = Inr c' \<and> ctx_ok c' \<and> ctx_filled c' \<and>
           outcome_of c' = Some (Failed (reason_exception reason))"
  using assms by (cases c) (auto simp: ctx_ok_def invalidatePromise_unfilled)

lemma OutContext_invalidate_closed:
  "ctx_filled c \<Longrightarrow> OutContext_invalidate reason c = Inr c"
  by (cases c) (simp_all add: invalidatePromise_filled)

lemma OutContext_onResponse_closed:
  "ctx_filled c \<Longrightarrow> OutContext_onResponseRecieved alloc payload c = Inr c"
  by (cases c) (simp_all add: OutCtx_AddMessage_onResponse_def OutCtx_GetMessages_onResponse_def
      OutCtx_Ping_onResponse_def OutCtx_SecondaryNodeReady_onResponse_def)

text \<open>
  The outcome of a response payload for a context of each class; \<^const>\<open>None\<close> is the
  exception that escapes from parsing a GetMessages payload.
\<close>

fun response_outcome :: "(nat \<Rightarrow> bool) \<Rightarrow> OutContext \<Rightarrow> const_buffer \<Rightarrow> outcome option" where
  "response_outcome alloc (OC_AddMessage _) p =
     Some (case Response_AddMessage_fromPayload p of
             None \<Rightarrow> Failed BadResponseFrame | Some r \<Rightarrow> Got_AddMessage (sam_status r))"
| "response_outcome alloc (OC_GetMessages _) p =
     (case Response_GetMessages_fromPayload alloc p of
        Inl _ \<Rightarrow> None
      | Inr None \<Rightarrow> Some (Failed BadResponseFrame)
      | Inr (Some r) \<Rightarrow> Some (Got_GetMessages (sgm_views r)))"
| "response_outcome alloc (OC_Ping _) p =
     Some (case Response_Pong_fromPayload p of
             None \<Rightarrow> Failed BadResponseFrame | Some r \<Rightarrow> Got_Ping (sp_timestamp r))"
| "response_outcome alloc (OC_SecondaryNodeReady _) p =
     Some (case Response_SecondaryNodeReady_fromPayload p of
             None \<Rightarrow> Failed BadResponseFrame | Some r \<Rightarrow> Got_SecondaryNodeReady)"

lemma fromPayload_owning:
  "Response_GetMessages_fromPayload alloc p = Inr (Some r) \<Longrightarrow>
   r = Response_GetMessages_owning (sgm_views r)"
proof -
  assume h: "Response_GetMessages_fromPayload alloc p = Inr (Some r)"
  then obtain bs where "p = Some bs"
    by (cases p) (auto simp: Response_GetMessages_fromPayload_def codec_simps)
  with h obtain ms where "r = Response_GetMessages_owning ms"
    using Response_GetMessages_fromPayload_Some by blast
  then show ?thesis by (simp add: Response_GetMessages_owning_def)
qed

lemma fromPayload_exn:
  "Response_GetMessages_fromPayload alloc p = Inl e \<Longrightarrow> e = LengthError \<or> e = BadAlloc"
  by (auto simp: Response_GetMessages_fromPayload_def vector_reserve_def Let_def
      split: prod.splits option.splits sum.splits if_splits)

lemma OutContext_onResponse_open:
  assumes "ctx_ok c" "\<not> ctx_filled c"
  shows "case response_outcome alloc c payload of
           None \<Rightarrow> \<exists>e. OutContext_onResponseRecieved alloc payload c = Inl e \<and> (e = LengthError \<or> e = BadAlloc)
         | Some oc \<Rightarrow> \<exists>c'. OutContext_onResponseRecieved alloc payload c = Inr c' \<and>
                     ctx_ok c' \<and> ctx_filled c' \<and> outcome_of c' = Some oc"
proof (cases c)
  case (OC_AddMessage x)
  with assms show ?thesis
    by (auto simp: ctx_ok_def OutCtx_AddMessage_onResponse_def invalidatePromise_unfilled
        fulfilPromise_unfilled split: option.splits)
next
  case (OC_GetMessages x)
  show ?thesis
  proof (cases "Response_GetMessages_fromPayload alloc payload")
    case (Inl e)
    with OC_GetMessages assms fromPayload_exn [OF Inl] show ?thesis
      by (simp add: OutCtx_GetMessages_onResponse_def)
  next
    case (Inr r)
    show ?thesis
    proof (cases r)
      case None
      with OC_GetMessages assms Inr show ?thesis
        by (simp add: ctx_ok_def OutCtx_GetMessages_onResponse_def invalidatePromise_unfilled)
    next
      case (Some g)
      have "Response_GetMessages_flushMessages g = Inr (sgm_views g)"
        using fromPayload_owning [of alloc payload g] Inr Some by (metis flushMessages_owning)
      with OC_GetMessages assms Inr Some show ?thesis
        by (simp add: ctx_ok_def OutCtx_GetMessages_onResponse_def fulfilPromise_unfilled)
    qed
  qed
next
  case (OC_Ping x)
  with assms show ?thesis
    by (auto simp: ctx_ok_def OutCtx_Ping_onResponse_def invalidatePromise_unfilled
        fulfilPromise_unfilled split: option.splits)
next
  case (OC_SecondaryNodeReady x)
  with assms show ?thesis
    by (auto simp: ctx_ok_def OutCtx_SecondaryNodeReady_onResponse_def invalidatePromise_unfilled
        fulfilPromise_unfilled split: option.splits)
qed

end
