(* ===== verification/OutcomingRequestsManager.thy ===== *)
theory OutcomingRequestsManager
  imports OutcomingContexts
begin

text \<open>
  libs/proto/src/outcomingrequestsmanager: the table of the requests that wait for a
  response on one socket.

  The state holds the members of the manager, the contexts it was handed (a store, addressed
  by numbers in order of creation), and the handlers asio keeps for it: the lambdas
  \<^verbatim>\<open>sendRequest\<close> posted, the delayed sends, and the timeout handlers. A handler may run at
  any time and in any order, so an event names the one that runs by its position.
  A timer carries the number of the context of its \<^verbatim>\<open>PendingRequest\<close>, which tells the
  \<^verbatim>\<open>PendingRequest\<close> objects apart even where request ids wrap around. Cancelling a timer
  does not take back a handler that is already queued: an event says whether the handler of
  a cancelled timer comes too late to report the cancellation.
  The durations (the artificial delay of a request, the response timeout) are kept with the
  handlers that wait for them, in milliseconds; no property depends on their values.

  An operation returns the new state and the frames it hands to
  \<^verbatim>\<open>SocketWrapper::writeFrame\<close>, or the exception that leaves it. Promise continuations do
  not run inside \<^verbatim>\<open>set_value\<close>: the program attaches them with \<^verbatim>\<open>thenPost\<close> only.
\<close>

section \<open>State\<close>

record PendingRequest =
  pr_requestId :: size_t
  pr_request :: Request
  pr_context :: nat

record TimeoutTimer =
  tm_requestId :: size_t
  tm_owner :: nat
  tm_expires :: duration_ms
  tm_cancelled :: bool

record OutManager =
  om_alive :: bool
  om_responseTimeout :: duration_ms
  om_requestIdCounter :: size_t
  om_pendingRequests :: "(size_t \<times> PendingRequest) list"
  om_contexts :: "nat \<Rightarrow> OutContext"
  om_nextContext :: nat
  om_posted :: "(Request \<times> nat \<times> duration_ms) list"
  om_delayed :: "(buffer_seq \<times> size_t \<times> duration_ms) list"
  om_timers :: "TimeoutTimer list"

definition OutManager_ctor :: "duration_ms \<Rightarrow> OutManager" where
  [simp]: "OutManager_ctor responseTimeout =
     \<lparr>om_alive = True, om_responseTimeout = responseTimeout, om_requestIdCounter = 0, om_pendingRequests = [],
      om_contexts = (\<lambda>_. OutContext_create K_Ping), om_nextContext = 0,
      om_posted = [], om_delayed = [], om_timers = []\<rparr>"

definition OutManager_create :: "duration_ms \<Rightarrow> OutManager" where
  "OutManager_create responseTimeout = OutManager_ctor responseTimeout"

definition PendingRequest_create :: "size_t \<Rightarrow> Request \<Rightarrow> nat \<Rightarrow> PendingRequest" where
  [simp]: "PendingRequest_create requestId request context =
     \<lparr>pr_requestId = requestId, pr_request = request, pr_context = context\<rparr>"

section \<open>Calls on a context\<close>

definition om_set_context ::
    "nat \<Rightarrow> OutManager \<Rightarrow> cpp_exception + OutContext \<Rightarrow> cpp_exception + OutManager" where
  "om_set_context a m r =
     (case r of Inl e \<Rightarrow> Inl e | Inr c \<Rightarrow> Inr (m\<lparr>om_contexts := (om_contexts m)(a := c)\<rparr>))"

definition om_context_invalidate ::
    "InvalidationReason \<Rightarrow> nat \<Rightarrow> OutManager \<Rightarrow> cpp_exception + OutManager" where
  "om_context_invalidate reason a m =
     om_set_context a m (OutContext_invalidate reason (om_contexts m a))"

definition om_context_response ::
    "(nat \<Rightarrow> bool) \<Rightarrow> const_buffer \<Rightarrow> nat \<Rightarrow> OutManager \<Rightarrow> cpp_exception + OutManager" where
  "om_context_response alloc payload a m =
     om_set_context a m (OutContext_onResponseRecieved alloc payload (om_contexts m a))"

section \<open>Operations\<close>

definition cancel_timers :: "nat \<Rightarrow> TimeoutTimer list \<Rightarrow> TimeoutTimer list" where
  "cancel_timers a ts = map (\<lambda>t. if tm_owner t = a then t\<lparr>tm_cancelled := True\<rparr> else t) ts"

definition timeoutTimer_cancel :: "nat \<Rightarrow> OutManager \<Rightarrow> OutManager" where
  "timeoutTimer_cancel a m = m\<lparr>om_timers := cancel_timers a (om_timers m)\<rparr>"

definition pending_erase :: "size_t \<Rightarrow> (size_t \<times> PendingRequest) list \<Rightarrow> (size_t \<times> PendingRequest) list" where
  "pending_erase rid ps = filter (\<lambda>p. fst p \<noteq> rid) ps"

definition invalidatePendingRequest ::
    "size_t \<Rightarrow> InvalidationReason \<Rightarrow> OutManager \<Rightarrow> cpp_exception + OutManager" where
  "invalidatePendingRequest rid reason m =
     (case map_of (om_pendingRequests m) rid of
        None \<Rightarrow> Inr m
      | Some p \<Rightarrow>
          (case om_context_invalidate reason (pr_context p) (timeoutTimer_cancel (pr_context p) m) of
             Inl e \<Rightarrow> Inl e
           | Inr m' \<Rightarrow>
               Inr (m'\<lparr>om_pendingRequests := pending_erase rid (om_pendingRequests m')\<rparr>)))"

fun invalidateContexts ::
    "InvalidationReason \<Rightarrow> nat list \<Rightarrow> OutManager \<Rightarrow> cpp_exception + OutManager" where
  "invalidateContexts reason [] m = Inr m"
| "invalidateContexts reason (a # as) m =
     (case om_context_invalidate reason a (timeoutTimer_cancel a m) of
        Inl e \<Rightarrow> Inl e
      | Inr m' \<Rightarrow> invalidateContexts reason as m')"

definition invalidateAllPendingRequests ::
    "InvalidationReason \<Rightarrow> OutManager \<Rightarrow> cpp_exception + OutManager" where
  "invalidateAllPendingRequests reason m =
     (case invalidateContexts reason (map (pr_context \<circ> snd) (om_pendingRequests m)) m of
        Inl e \<Rightarrow> Inl e
      | Inr m' \<Rightarrow> Inr (m'\<lparr>om_pendingRequests := []\<rparr>))"

definition OutManager_dtor :: "OutManager \<Rightarrow> cpp_exception + OutManager" where
  "OutManager_dtor m =
     (case invalidateAllPendingRequests PEER_DISCONNECTED m of
        Inl e \<Rightarrow> Inl e
      | Inr m' \<Rightarrow> Inr (m'\<lparr>om_alive := False\<rparr>))"

definition request_frame_of :: "size_t \<Rightarrow> Request \<Rightarrow> buffer_seq" where
  "request_frame_of rid request =
     Request_serializePayload request (constructRequestHeaderWoOwnership rid (Request_opCode request))"

definition sendRequestImpl :: "Request \<Rightarrow> nat \<Rightarrow> duration_ms \<Rightarrow> OutManager \<Rightarrow> cpp_exception + OutManager" where
  "sendRequestImpl request context artificialDelay m =
     (let rid = om_requestIdCounter m;
          m1 = m\<lparr>om_requestIdCounter := rid + 1\<rparr>;
          pendingRequest = PendingRequest_create rid request context
      in case map_of (om_pendingRequests m1) rid of
           Some _ \<Rightarrow> om_context_invalidate TIMEOUT context m1
         | None \<Rightarrow>
             Inr (m1\<lparr>om_timers := om_timers m1 @
                       [\<lparr>tm_requestId = rid, tm_owner = context,
                         tm_expires = om_responseTimeout m1, tm_cancelled = False\<rparr>],
                     om_pendingRequests := (rid, pendingRequest) # om_pendingRequests m1,
                     om_delayed := om_delayed m1 @ [(request_frame_of rid request, rid, artificialDelay)]\<rparr>))"

text \<open>
  \<^verbatim>\<open>sendRequest\<close>, called with a new context: it posts a lambda to the socket's context.
\<close>

definition sendRequest :: "Request \<Rightarrow> ctx_kind \<Rightarrow> duration_ms \<Rightarrow> OutManager \<Rightarrow> OutManager" where
  "sendRequest request k artificialDelay m =
     m\<lparr>om_contexts := (om_contexts m)(om_nextContext m := OutContext_create k),
       om_nextContext := Suc (om_nextContext m),
       om_posted := om_posted m @ [(request, om_nextContext m, artificialDelay)]\<rparr>"

definition om_onResponseRecieved ::
    "(nat \<Rightarrow> bool) \<Rightarrow> size_t \<Rightarrow> const_buffer \<Rightarrow> OutManager \<Rightarrow> cpp_exception + OutManager" where
  "om_onResponseRecieved alloc rid payload m =
     (case map_of (om_pendingRequests m) rid of
        None \<Rightarrow> Inr m
      | Some p \<Rightarrow>
          (case om_context_response alloc payload (pr_context p) (timeoutTimer_cancel (pr_context p) m) of
             Inl e \<Rightarrow> Inl e
           | Inr m' \<Rightarrow>
               Inr (m'\<lparr>om_pendingRequests := pending_erase rid (om_pendingRequests m')\<rparr>)))"

definition om_onIncomingFrame ::
    "(nat \<Rightarrow> bool) \<Rightarrow> const_buffer \<Rightarrow> OutManager \<Rightarrow> cpp_exception + OutManager" where
  "om_onIncomingFrame alloc frame m =
     (if parseEventType frame \<noteq> Some RESPONSE then Inr m
      else (case parseResponseFrame frame of
              None \<Rightarrow> Inr m
            | Some f \<Rightarrow> om_onResponseRecieved alloc (sf_requestId f) (sf_payload f) m))"

section \<open>The handlers asio runs\<close>

definition take_nth :: "nat \<Rightarrow> 'a list \<Rightarrow> 'a list" where
  "take_nth n xs = take n xs @ drop (Suc n) xs"

definition om_runPosted :: "nat \<Rightarrow> OutManager \<Rightarrow> cpp_exception + OutManager" where
  "om_runPosted n m =
     (if length (om_posted m) \<le> n then Inr m
      else
        (let (request, context, artificialDelay) = om_posted m ! n;
             m0 = m\<lparr>om_posted := take_nth n (om_posted m)\<rparr>
         in if \<not> om_alive m0 then om_context_invalidate PEER_DISCONNECTED context m0
            else sendRequestImpl request context artificialDelay m0))"

text \<open>The delayed send; \<open>wasInvalidated\<close> is what the socket answers when it runs.\<close>

definition om_delayExpired ::
    "nat \<Rightarrow> bool \<Rightarrow> OutManager \<Rightarrow> cpp_exception + OutManager \<times> PendingWrite list" where
  "om_delayExpired n wasInvalidated m =
     (if length (om_delayed m) \<le> n then Inr (m, [])
      else
        (let (frame, rid, _) = om_delayed m ! n;
             m0 = m\<lparr>om_delayed := take_nth n (om_delayed m)\<rparr>
         in if \<not> om_alive m0 then Inr (m0, [])
            else if wasInvalidated then
              (case invalidatePendingRequest rid PEER_DISCONNECTED m0 of
                 Inl e \<Rightarrow> Inl e | Inr m1 \<Rightarrow> Inr (m1, []))
            else Inr (m0, [\<lparr>pw_frame = frame, pw_callback = unat rid\<rparr>])))"

definition om_timerExpired :: "nat \<Rightarrow> bool \<Rightarrow> OutManager \<Rightarrow> cpp_exception + OutManager" where
  "om_timerExpired n late m =
     (if length (om_timers m) \<le> n then Inr m
      else
        (let timer = om_timers m ! n;
             ec = (tm_cancelled timer \<and> \<not> late);
             m0 = m\<lparr>om_timers := take_nth n (om_timers m)\<rparr>
         in if ec then Inr m0
            else if \<not> om_alive m0 then Inr m0
            else invalidatePendingRequest (tm_requestId timer) TIMEOUT m0))"

section \<open>Events\<close>

datatype om_event =
    OM_SendRequest Request ctx_kind duration_ms
  | OM_RunPosted nat
  | OM_DelayExpired nat bool
  | OM_TimerExpired nat bool
  | OM_IncomingFrame const_buffer
  | OM_SocketInvalidated
  | OM_Destroy

definition no_writes :: "cpp_exception + OutManager \<Rightarrow> cpp_exception + OutManager \<times> PendingWrite list" where
  "no_writes r = (case r of Inl e \<Rightarrow> Inl e | Inr m \<Rightarrow> Inr (m, []))"

text \<open>The slots are tracked: they do not run once the manager is gone.\<close>

fun om_step ::
    "(nat \<Rightarrow> bool) \<Rightarrow> OutManager \<Rightarrow> om_event \<Rightarrow> cpp_exception + OutManager \<times> PendingWrite list" where
  "om_step alloc m (OM_SendRequest request k artificialDelay) =
     Inr (sendRequest request k artificialDelay m, [])"
| "om_step alloc m (OM_RunPosted n) = no_writes (om_runPosted n m)"
| "om_step alloc m (OM_DelayExpired n wasInvalidated) = om_delayExpired n wasInvalidated m"
| "om_step alloc m (OM_TimerExpired n late) = no_writes (om_timerExpired n late m)"
| "om_step alloc m (OM_IncomingFrame frame) =
     (if om_alive m then no_writes (om_onIncomingFrame alloc frame m) else Inr (m, []))"
| "om_step alloc m OM_SocketInvalidated =
     (if om_alive m then no_writes (invalidateAllPendingRequests PEER_DISCONNECTED m) else Inr (m, []))"
| "om_step alloc m OM_Destroy =
     (if om_alive m then no_writes (OutManager_dtor m) else Inr (m, []))"

text \<open>An exception that leaves a handler ends the run.\<close>

definition om_run_step ::
    "(nat \<Rightarrow> bool) \<Rightarrow> cpp_exception + OutManager \<Rightarrow> om_event \<Rightarrow> cpp_exception + OutManager" where
  "om_run_step alloc r ev =
     (case r of Inl e \<Rightarrow> Inl e
      | Inr m \<Rightarrow> (case om_step alloc m ev of Inl e \<Rightarrow> Inl e | Inr (m', _) \<Rightarrow> Inr m'))"

section \<open>The invariant\<close>

text \<open>
  The contexts somebody still has to resolve: those of the pending requests and those of
  the posted lambdas. In a good state they are distinct, and they are exactly the contexts
  without an outcome; every pending request has a timeout handler that was not cancelled.
\<close>

definition open_contexts :: "OutManager \<Rightarrow> nat list" where
  "open_contexts m =
     map (pr_context \<circ> snd) (om_pendingRequests m) @ map (fst \<circ> snd) (om_posted m)"

definition unresolved :: "(nat \<Rightarrow> OutContext) \<Rightarrow> nat \<Rightarrow> nat list \<Rightarrow> bool" where
  "unresolved C n opens \<longleftrightarrow>
     distinct opens \<and> (\<forall>a \<in> set opens. a < n) \<and> (\<forall>a. ctx_ok (C a)) \<and>
     (\<forall>a < n. ctx_filled (C a) \<longleftrightarrow> a \<notin> set opens)"

definition timed :: "(size_t \<times> PendingRequest) list \<Rightarrow> TimeoutTimer list \<Rightarrow> bool" where
  "timed ps ts \<longleftrightarrow>
     (\<forall>(rid, p) \<in> set ps. \<exists>t \<in> set ts.
        tm_requestId t = rid \<and> tm_owner t = pr_context p \<and> \<not> tm_cancelled t)"

definition om_core :: "OutManager \<Rightarrow> bool" where
  "om_core m \<longleftrightarrow>
     distinct (map fst (om_pendingRequests m)) \<and>
     unresolved (om_contexts m) (om_nextContext m) (open_contexts m) \<and>
     (\<not> om_alive m \<longrightarrow> om_pendingRequests m = [])"

definition om_ok :: "OutManager \<Rightarrow> bool" where
  "om_ok m \<longleftrightarrow> om_core m \<and> timed (om_pendingRequests m) (om_timers m)"

subsection \<open>Resolving one context\<close>

lemma unresolved_open:
  "unresolved C n opens \<Longrightarrow> a \<in> set opens \<Longrightarrow> ctx_ok (C a) \<and> \<not> ctx_filled (C a)"
  by (auto simp: unresolved_def)

lemma unresolved_resolve:
  assumes "unresolved C n opens" "ctx_ok c" "ctx_filled c"
    and "distinct opens'" "set opens' = set opens - {a}"
  shows "unresolved (C(a := c)) n opens'"
  using assms by (auto simp: unresolved_def)

lemma unresolved_fresh:
  assumes "unresolved C n opens" "set opens' = insert n (set opens)" "distinct opens'"
  shows "unresolved (C(n := OutContext_create k)) (Suc n) opens'"
  using assms by (auto simp: unresolved_def less_Suc_eq)

lemma unresolved_permute:
  "unresolved C n opens \<Longrightarrow> distinct opens' \<Longrightarrow> set opens' = set opens \<Longrightarrow> unresolved C n opens'"
  by (simp add: unresolved_def)

lemma om_context_invalidate_open:
  assumes "ctx_ok (om_contexts m a)" "\<not> ctx_filled (om_contexts m a)"
  shows "\<exists>c. om_context_invalidate reason a m = Inr (m\<lparr>om_contexts := (om_contexts m)(a := c)\<rparr>) \<and>
           ctx_ok c \<and> ctx_filled c \<and> outcome_of c = Some (Failed (reason_exception reason))"
  using OutContext_invalidate_open [OF assms, of reason]
  by (auto simp: om_context_invalidate_def om_set_context_def)

lemma om_context_response_open:
  assumes "ctx_ok (om_contexts m a)" "\<not> ctx_filled (om_contexts m a)"
  shows "case response_outcome alloc (om_contexts m a) payload of
           None \<Rightarrow> \<exists>e. om_context_response alloc payload a m = Inl e \<and> (e = LengthError \<or> e = BadAlloc)
         | Some oc \<Rightarrow>
             \<exists>c. om_context_response alloc payload a m = Inr (m\<lparr>om_contexts := (om_contexts m)(a := c)\<rparr>) \<and>
               ctx_ok c \<and> ctx_filled c \<and> outcome_of c = Some oc"
  using OutContext_onResponse_open [OF assms, of alloc payload]
  by (auto simp: om_context_response_def om_set_context_def split: option.splits)

lemma pending_erase_contexts:
  assumes "distinct (map fst ps)" "map_of ps rid = Some p" "distinct (map (pr_context \<circ> snd) ps)"
  shows "set (map (pr_context \<circ> snd) (pending_erase rid ps)) =
         set (map (pr_context \<circ> snd) ps) - {pr_context p}"
  using assms
proof (induction ps)
  case Nil
  then show ?case by simp
next
  case (Cons x ps)
  show ?case
  proof (cases "fst x = rid")
    case True
    then have "snd x = p" using Cons.prems(2) by simp
    moreover have "pending_erase rid ps = ps"
      using True Cons.prems(1) by (simp add: pending_erase_def filter_id_conv) (metis image_eqI)
    moreover have "pr_context (snd x) \<notin> set (map (pr_context \<circ> snd) ps)"
      using Cons.prems(3) by simp
    ultimately show ?thesis
      using True by (simp add: pending_erase_def)
  next
    case False
    then have m: "map_of ps rid = Some p" using Cons.prems(2) by (cases x) auto
    then have "pr_context p \<in> set (map (pr_context \<circ> snd) ps)"
      by (force dest: map_of_SomeD)
    moreover have "pr_context (snd x) \<notin> set (map (pr_context \<circ> snd) ps)"
      using Cons.prems(3) by simp
    ultimately have "pr_context (snd x) \<noteq> pr_context p" by metis
    moreover have "set (map (pr_context \<circ> snd) (pending_erase rid ps)) =
        set (map (pr_context \<circ> snd) ps) - {pr_context p}"
      using Cons.IH m Cons.prems by simp
    ultimately show ?thesis
      using False by (simp add: pending_erase_def insert_Diff_if)
  qed
qed

lemma distinct_map_filter_sub: "distinct (map f xs) \<Longrightarrow> distinct (map f (filter P xs))"
  by (induction xs) auto

lemma open_contexts_erase:
  assumes ok: "distinct (map fst (om_pendingRequests m))" "distinct (open_contexts m)"
    and p: "map_of (om_pendingRequests m) rid = Some p"
  shows "set (open_contexts (m\<lparr>om_pendingRequests := pending_erase rid (om_pendingRequests m)\<rparr>)) =
           set (open_contexts m) - {pr_context p}"
    and "distinct (open_contexts (m\<lparr>om_pendingRequests := pending_erase rid (om_pendingRequests m)\<rparr>))"
    and "pr_context p \<in> set (open_contexts m)"
proof -
  have d: "distinct (map (pr_context \<circ> snd) (om_pendingRequests m))"
    and disj: "set (map (pr_context \<circ> snd) (om_pendingRequests m)) \<inter> set (map (fst \<circ> snd) (om_posted m)) = {}"
    and dp: "distinct (map (fst \<circ> snd) (om_posted m))"
    using ok(2) by (simp_all add: open_contexts_def)
  have e: "set (map (pr_context \<circ> snd) (pending_erase rid (om_pendingRequests m))) =
      set (map (pr_context \<circ> snd) (om_pendingRequests m)) - {pr_context p}"
    using ok(1) p d by (rule pending_erase_contexts)
  have inp: "pr_context p \<in> set (map (pr_context \<circ> snd) (om_pendingRequests m))"
    using p by (force dest: map_of_SomeD)
  then show "pr_context p \<in> set (open_contexts m)" by (simp add: open_contexts_def)
  show "set (open_contexts (m\<lparr>om_pendingRequests := pending_erase rid (om_pendingRequests m)\<rparr>)) =
      set (open_contexts m) - {pr_context p}"
    unfolding open_contexts_def set_append using e inp disj by simp blast
  have "distinct (map (pr_context \<circ> snd) (pending_erase rid (om_pendingRequests m)))"
    unfolding pending_erase_def using d by (rule distinct_map_filter_sub)
  then show "distinct (open_contexts (m\<lparr>om_pendingRequests := pending_erase rid (om_pendingRequests m)\<rparr>))"
    using dp e disj unfolding open_contexts_def distinct_append by simp blast
qed

lemma timed_cancel:
  assumes "timed ps ts" "\<And>k p. (k, p) \<in> set ps \<Longrightarrow> pr_context p \<noteq> a"
  shows "timed ps (cancel_timers a ts)"
  using assms unfolding timed_def cancel_timers_def by fastforce

lemma timed_Nil [simp]: "timed [] ts"
  by (simp add: timed_def)

lemma timed_take_nth:
  assumes "timed ps ts" "n < length ts"
    and "\<And>k p. (k, p) \<in> set ps \<Longrightarrow> k \<noteq> tm_requestId (ts ! n) \<or> tm_cancelled (ts ! n)"
  shows "timed ps (take_nth n ts)"
proof -
  have "set ts \<subseteq> insert (ts ! n) (set (take_nth n ts))"
    using id_take_nth_drop [OF assms(2)] unfolding take_nth_def
    by (metis set_append list.simps(15) Un_insert_right order_refl)
  then show ?thesis using assms(1,3) unfolding timed_def by fast
qed

text \<open>
  What both ways of ending a pending request (a response, an invalidation) do to the state:
  the request leaves the table and its context holds an outcome.
\<close>

definition resolves :: "OutManager \<Rightarrow> size_t \<Rightarrow> nat \<Rightarrow> outcome \<Rightarrow> OutManager \<Rightarrow> bool" where
  "resolves m rid a oc m' \<longleftrightarrow>
     (\<exists>c. ctx_ok c \<and> ctx_filled c \<and> outcome_of c = Some oc \<and>
        m' = m\<lparr>om_timers := cancel_timers a (om_timers m), om_contexts := (om_contexts m)(a := c),
               om_pendingRequests := pending_erase rid (om_pendingRequests m)\<rparr>)"

lemma resolves_core:
  assumes ok: "om_core m" and p: "map_of (om_pendingRequests m) rid = Some p"
    and r: "resolves m rid (pr_context p) oc m'"
  shows "om_core m'"
    and "timed (pending_erase rid (om_pendingRequests m)) (om_timers m) \<Longrightarrow> om_ok m'"
proof -
  from r obtain c where c: "ctx_ok c" "ctx_filled c"
    and m': "m' = m\<lparr>om_timers := cancel_timers (pr_context p) (om_timers m),
               om_contexts := (om_contexts m)(pr_context p := c),
               om_pendingRequests := pending_erase rid (om_pendingRequests m)\<rparr>"
    unfolding resolves_def by blast
  have d: "distinct (map fst (om_pendingRequests m))" "distinct (open_contexts m)"
    and u: "unresolved (om_contexts m) (om_nextContext m) (open_contexts m)"
    using ok by (simp_all add: om_core_def unresolved_def)
  let ?o = "open_contexts (m\<lparr>om_pendingRequests := pending_erase rid (om_pendingRequests m)\<rparr>)"
  have o: "open_contexts m' = ?o" by (simp add: m' open_contexts_def)
  then have "unresolved (om_contexts m') (om_nextContext m') (open_contexts m')"
    using unresolved_resolve [OF u c open_contexts_erase(2) [OF d p] open_contexts_erase(1) [OF d p]]
    by (simp add: m')
  moreover have "distinct (map fst (om_pendingRequests m'))"
    unfolding m' using d(1) by (simp add: pending_erase_def distinct_map_filter_sub)
  ultimately show core: "om_core m'"
    using ok by (simp add: om_core_def m' pending_erase_def)
  have "pr_context q \<noteq> pr_context p" if "(k, q) \<in> set (pending_erase rid (om_pendingRequests m))" for k q
  proof -
    have "pr_context q \<in> set (open_contexts m')" using that by (force simp: open_contexts_def m')
    then show ?thesis using open_contexts_erase(1) [OF d p] o by simp
  qed
  then show "om_ok m'" if "timed (pending_erase rid (om_pendingRequests m)) (om_timers m)"
    using core timed_cancel [OF that] by (simp add: om_ok_def m')
qed

lemma timed_erase: "timed ps ts \<Longrightarrow> timed (pending_erase rid ps) ts"
  by (simp add: timed_def pending_erase_def)

lemma resolves_ok:
  assumes "om_ok m" and "map_of (om_pendingRequests m) rid = Some p"
    and "resolves m rid (pr_context p) oc m'"
  shows "om_ok m'"
  using assms resolves_core(2) timed_erase unfolding om_ok_def by blast

subsection \<open>What the operations do in a good state\<close>

lemma om_ok_core: "om_ok m \<Longrightarrow> om_core m"
  by (simp add: om_ok_def)

lemma pending_open:
  assumes "om_core m" "map_of (om_pendingRequests m) rid = Some p"
  shows "ctx_ok (om_contexts m (pr_context p))" "\<not> ctx_filled (om_contexts m (pr_context p))"
proof -
  have "pr_context p \<in> set (open_contexts m)"
    using assms(2) by (force simp: open_contexts_def dest: map_of_SomeD)
  then show "ctx_ok (om_contexts m (pr_context p))" "\<not> ctx_filled (om_contexts m (pr_context p))"
    using assms(1) unresolved_open by (auto simp: om_core_def)
qed

lemma invalidatePendingRequest_unknown:
  "map_of (om_pendingRequests m) rid = None \<Longrightarrow> invalidatePendingRequest rid reason m = Inr m"
  by (simp add: invalidatePendingRequest_def)

lemma invalidatePendingRequest_resolves:
  assumes "om_core m" "map_of (om_pendingRequests m) rid = Some p"
  shows "\<exists>m'. invalidatePendingRequest rid reason m = Inr m' \<and>
           resolves m rid (pr_context p) (Failed (reason_exception reason)) m'"
  using om_context_invalidate_open [of "timeoutTimer_cancel (pr_context p) m" "pr_context p" reason]
    pending_open [OF assms] assms(2)
  by (auto simp: invalidatePendingRequest_def resolves_def timeoutTimer_cancel_def)

lemma om_onResponse_resolves:
  assumes "om_core m" "map_of (om_pendingRequests m) rid = Some p"
  shows "case response_outcome alloc (om_contexts m (pr_context p)) payload of
           None \<Rightarrow> \<exists>e. om_onResponseRecieved alloc rid payload m = Inl e \<and> (e = LengthError \<or> e = BadAlloc)
         | Some oc \<Rightarrow> \<exists>m'. om_onResponseRecieved alloc rid payload m = Inr m' \<and>
                         resolves m rid (pr_context p) oc m'"
  using om_context_response_open [of "timeoutTimer_cancel (pr_context p) m" "pr_context p" alloc payload]
    pending_open [OF assms] assms(2)
  by (auto simp: om_onResponseRecieved_def resolves_def timeoutTimer_cancel_def split: option.splits)

lemma invalidateContexts_open:
  assumes "distinct as" "\<forall>a \<in> set as. ctx_ok (om_contexts m a) \<and> \<not> ctx_filled (om_contexts m a)"
  shows "\<exists>C ts. invalidateContexts reason as m = Inr (m\<lparr>om_timers := ts, om_contexts := C\<rparr>) \<and>
           (\<forall>a. a \<notin> set as \<longrightarrow> C a = om_contexts m a) \<and>
           (\<forall>a \<in> set as. ctx_ok (C a) \<and> ctx_filled (C a) \<and>
              outcome_of (C a) = Some (Failed (reason_exception reason)))"
  using assms
proof (induction as arbitrary: m)
  case Nil
  then show ?case by (intro exI [of _ "om_contexts m"] exI [of _ "om_timers m"]) simp
next
  case (Cons a as)
  then obtain c where c: "ctx_ok c" "ctx_filled c" "outcome_of c = Some (Failed (reason_exception reason))"
    "om_context_invalidate reason a (timeoutTimer_cancel a m) =
       Inr (m\<lparr>om_timers := cancel_timers a (om_timers m), om_contexts := (om_contexts m)(a := c)\<rparr>)"
    using om_context_invalidate_open [of "timeoutTimer_cancel a m" a reason]
    by (auto simp: timeoutTimer_cancel_def)
  let ?m = "m\<lparr>om_timers := cancel_timers a (om_timers m), om_contexts := (om_contexts m)(a := c)\<rparr>"
  have "\<forall>b \<in> set as. ctx_ok (om_contexts ?m b) \<and> \<not> ctx_filled (om_contexts ?m b)"
    using Cons.prems by auto
  then obtain C ts where C: "invalidateContexts reason as ?m = Inr (?m\<lparr>om_timers := ts, om_contexts := C\<rparr>)"
    "\<forall>b. b \<notin> set as \<longrightarrow> C b = om_contexts ?m b"
    "\<forall>b \<in> set as. ctx_ok (C b) \<and> ctx_filled (C b) \<and>
       outcome_of (C b) = Some (Failed (reason_exception reason))"
    using Cons.IH [of ?m] Cons.prems(1) by auto
  have "a \<notin> set as" using Cons.prems(1) by simp
  with c C show ?case by (intro exI [of _ C] exI [of _ ts]) auto
qed

text \<open>All contexts of the table get the reason's exception; the others keep what they hold.\<close>

definition resolves_all :: "OutManager \<Rightarrow> outcome \<Rightarrow> OutManager \<Rightarrow> bool" where
  "resolves_all m oc m' \<longleftrightarrow>
     (\<exists>C ts. m' = m\<lparr>om_timers := ts, om_contexts := C, om_pendingRequests := []\<rparr> \<and>
        (\<forall>a. a \<notin> set (map (pr_context \<circ> snd) (om_pendingRequests m)) \<longrightarrow> C a = om_contexts m a) \<and>
        (\<forall>a \<in> set (map (pr_context \<circ> snd) (om_pendingRequests m)).
           ctx_ok (C a) \<and> ctx_filled (C a) \<and> outcome_of (C a) = Some oc))"

lemma invalidateAll_resolves:
  assumes "om_ok m"
  shows "\<exists>m'. invalidateAllPendingRequests reason m = Inr m' \<and>
           resolves_all m (Failed (reason_exception reason)) m'"
proof -
  let ?as = "map (pr_context \<circ> snd) (om_pendingRequests m)"
  have d: "distinct ?as" and u: "unresolved (om_contexts m) (om_nextContext m) (open_contexts m)"
    using assms by (simp_all add: om_ok_def om_core_def unresolved_def open_contexts_def)
  have "\<forall>a \<in> set ?as. ctx_ok (om_contexts m a) \<and> \<not> ctx_filled (om_contexts m a)"
    using unresolved_open [OF u] by (auto simp: open_contexts_def)
  from invalidateContexts_open [OF d this, of reason] obtain C ts where
    C: "invalidateContexts reason ?as m = Inr (m\<lparr>om_timers := ts, om_contexts := C\<rparr>)"
    and rest: "\<forall>a. a \<notin> set ?as \<longrightarrow> C a = om_contexts m a"
      "\<forall>a \<in> set ?as. ctx_ok (C a) \<and> ctx_filled (C a) \<and>
         outcome_of (C a) = Some (Failed (reason_exception reason))"
    by blast
  have "invalidateAllPendingRequests reason m =
      Inr (m\<lparr>om_timers := ts, om_contexts := C, om_pendingRequests := []\<rparr>)"
    unfolding invalidateAllPendingRequests_def C by simp
  then show ?thesis using rest unfolding resolves_all_def by blast
qed

lemma resolves_all_ok:
  assumes ok: "om_ok m" and r: "resolves_all m oc m'"
  shows "om_ok m'"
proof -
  from r obtain C ts where C: "m' = m\<lparr>om_timers := ts, om_contexts := C, om_pendingRequests := []\<rparr>"
    "\<forall>a. a \<notin> set (map (pr_context \<circ> snd) (om_pendingRequests m)) \<longrightarrow> C a = om_contexts m a"
    "\<forall>a \<in> set (map (pr_context \<circ> snd) (om_pendingRequests m)). ctx_ok (C a) \<and> ctx_filled (C a)"
    unfolding resolves_all_def by blast
  have u: "unresolved (om_contexts m) (om_nextContext m) (open_contexts m)"
    using ok by (simp add: om_ok_def om_core_def)
  then have disj: "set (map (pr_context \<circ> snd) (om_pendingRequests m)) \<inter> set (map (fst \<circ> snd) (om_posted m)) = {}"
    and d: "distinct (map (fst \<circ> snd) (om_posted m))"
    and b: "\<forall>a \<in> set (map (fst \<circ> snd) (om_posted m)). a < om_nextContext m"
    by (auto simp: unresolved_def open_contexts_def)
  have filled: "ctx_filled (C a) \<longleftrightarrow> a \<notin> set (map (fst \<circ> snd) (om_posted m))" if "a < om_nextContext m" for a
  proof (cases "a \<in> set (map (pr_context \<circ> snd) (om_pendingRequests m))")
    case True
    then show ?thesis using C(3) disj by blast
  next
    case False
    then have "C a = om_contexts m a" using C(2) by blast
    moreover have "ctx_filled (om_contexts m a) \<longleftrightarrow> a \<notin> set (open_contexts m)"
      using u that by (simp add: unresolved_def)
    ultimately show ?thesis using False by (simp add: open_contexts_def)
  qed
  have good: "ctx_ok (C a)" for a
  proof (cases "a \<in> set (map (pr_context \<circ> snd) (om_pendingRequests m))")
    case True
    then show ?thesis using C(3) by blast
  next
    case False
    then have "C a = om_contexts m a" using C(2) by blast
    then show ?thesis using u by (simp add: unresolved_def)
  qed
  show ?thesis
    using d b filled good by (simp add: om_ok_def om_core_def C(1) unresolved_def open_contexts_def)
qed

subsection \<open>Every operation keeps the invariant\<close>

definition om_good :: "cpp_exception + OutManager \<Rightarrow> bool" where
  "om_good r \<longleftrightarrow> (case r of Inl e \<Rightarrow> e = LengthError \<or> e = BadAlloc | Inr m \<Rightarrow> om_ok m)"

lemma om_good_simps [simp]:
  "om_good (Inl e) \<longleftrightarrow> e = LengthError \<or> e = BadAlloc" "om_good (Inr m) \<longleftrightarrow> om_ok m"
  by (simp_all add: om_good_def)

lemma invalidatePendingRequest_ok [inv_steps]:
  assumes "om_ok m"
  shows "om_good (invalidatePendingRequest rid reason m)"
proof (cases "map_of (om_pendingRequests m) rid")
  case None
  then show ?thesis using assms by (simp add: invalidatePendingRequest_unknown)
next
  case (Some p)
  then show ?thesis
    using invalidatePendingRequest_resolves [OF om_ok_core [OF assms] Some, of reason] resolves_ok [OF assms Some] by auto
qed

lemma om_onResponse_ok [inv_steps]:
  assumes "om_ok m"
  shows "om_good (om_onResponseRecieved alloc rid payload m)"
proof (cases "map_of (om_pendingRequests m) rid")
  case None
  then show ?thesis using assms by (simp add: om_onResponseRecieved_def)
next
  case (Some p)
  then show ?thesis
    using om_onResponse_resolves [OF om_ok_core [OF assms] Some, of alloc payload] resolves_ok [OF assms Some]
    by (auto split: option.splits)
qed

lemma om_onIncomingFrame_ok [inv_steps]:
  "om_ok m \<Longrightarrow> om_good (om_onIncomingFrame alloc frame m)"
  by (auto simp: om_onIncomingFrame_def om_onResponse_ok split: option.split)

lemma invalidateAll_ok [inv_steps]:
  "om_ok m \<Longrightarrow> om_good (invalidateAllPendingRequests reason m)"
  using invalidateAll_resolves [of m reason] resolves_all_ok [of m] by auto

lemma OutManager_dtor_ok [inv_steps]:
  assumes "om_ok m"
  shows "om_good (OutManager_dtor m)"
proof -
  from invalidateAll_resolves [OF assms] obtain m' where
    m': "invalidateAllPendingRequests PEER_DISCONNECTED m = Inr m'"
    and r: "resolves_all m (Failed (reason_exception PEER_DISCONNECTED)) m'" by blast
  have "om_ok m'" using assms r by (rule resolves_all_ok)
  moreover have "om_pendingRequests m' = []" using r by (auto simp: resolves_all_def)
  ultimately show ?thesis
    by (simp add: OutManager_dtor_def m' om_ok_def om_core_def open_contexts_def)
qed

lemma sendRequest_ok [inv_steps]:
  assumes "om_ok m"
  shows "om_ok (sendRequest request k d m)"
proof -
  let ?m = "sendRequest request k d m"
  have u: "unresolved (om_contexts m) (om_nextContext m) (open_contexts m)"
    using assms by (simp add: om_ok_def om_core_def)
  have o: "set (open_contexts ?m) = insert (om_nextContext m) (set (open_contexts m))"
    by (auto simp: open_contexts_def sendRequest_def)
  have "om_nextContext m \<notin> set (open_contexts m)" "distinct (open_contexts m)"
    using u by (auto simp: unresolved_def)
  then have "distinct (open_contexts ?m)"
    by (simp add: open_contexts_def sendRequest_def)
  from unresolved_fresh [OF u o this] show ?thesis
    using assms by (simp add: om_ok_def om_core_def sendRequest_def)
qed

text \<open>The state while a posted lambda holds the context it was created with.\<close>

definition om_holding :: "OutManager \<Rightarrow> nat \<Rightarrow> bool" where
  "om_holding m a \<longleftrightarrow>
     distinct (map fst (om_pendingRequests m)) \<and>
     unresolved (om_contexts m) (om_nextContext m) (a # open_contexts m) \<and>
     timed (om_pendingRequests m) (om_timers m) \<and>
     (\<not> om_alive m \<longrightarrow> om_pendingRequests m = [])"

lemma mset_take_nth: "n < length xs \<Longrightarrow> mset xs = add_mset (xs ! n) (mset (take_nth n xs))"
proof -
  assume n: "n < length xs"
  have "mset xs = mset (take n xs @ xs ! n # drop (Suc n) xs)"
    using id_take_nth_drop [OF n] by simp
  then show ?thesis by (simp add: take_nth_def)
qed

lemma take_nth_holding:
  assumes ok: "om_ok m" and n: "n < length (om_posted m)"
    and x: "om_posted m ! n = (request, a, d)"
  shows "om_holding (m\<lparr>om_posted := take_nth n (om_posted m)\<rparr>) a"
proof -
  let ?m = "m\<lparr>om_posted := take_nth n (om_posted m)\<rparr>"
  have "mset (map (fst \<circ> snd) (om_posted m)) = add_mset a (mset (map (fst \<circ> snd) (take_nth n (om_posted m))))"
    using mset_take_nth [OF n] x by simp
  then have mm: "mset (a # open_contexts ?m) = mset (open_contexts m)"
    by (simp add: open_contexts_def)
  have "distinct (a # open_contexts ?m)" "set (a # open_contexts ?m) = set (open_contexts m)"
    using mset_eq_imp_distinct_iff [OF mm] mset_eq_setD [OF mm] ok
    by (simp_all add: om_ok_def om_core_def unresolved_def)
  then have "unresolved (om_contexts m) (om_nextContext m) (a # open_contexts ?m)"
    using ok unresolved_permute unfolding om_ok_def om_core_def by blast
  then show ?thesis using ok by (simp add: om_holding_def om_ok_def om_core_def)
qed

lemma holding_invalidate:
  assumes h: "om_holding m a"
  shows "\<exists>m'. om_context_invalidate reason a m = Inr m' \<and> om_ok m' \<and>
           outcome_of (om_contexts m' a) = Some (Failed (reason_exception reason))"
proof -
  have u: "unresolved (om_contexts m) (om_nextContext m) (a # open_contexts m)"
    using h by (simp add: om_holding_def)
  from om_context_invalidate_open [of m a reason] unresolved_open [OF u, of a] obtain c where
    c: "om_context_invalidate reason a m = Inr (m\<lparr>om_contexts := (om_contexts m)(a := c)\<rparr>)"
    "ctx_ok c" "ctx_filled c" "outcome_of c = Some (Failed (reason_exception reason))" by auto
  let ?m = "m\<lparr>om_contexts := (om_contexts m)(a := c)\<rparr>"
  have "a \<notin> set (open_contexts m)" "distinct (open_contexts m)" using u by (simp_all add: unresolved_def)
  then have "unresolved ((om_contexts m)(a := c)) (om_nextContext m) (open_contexts m)"
    using unresolved_resolve [OF u c(2,3), of "open_contexts m" a] by auto
  then have "om_ok ?m" using h by (simp add: om_holding_def om_ok_def om_core_def open_contexts_def)
  then show ?thesis using c by simp
qed

lemma sendRequestImpl_ok:
  assumes h: "om_holding m a" and alive: "om_alive m"
  shows "om_good (sendRequestImpl request a d m)"
proof (cases "map_of (om_pendingRequests m) (om_requestIdCounter m)")
  case (Some p)
  have "om_holding (m\<lparr>om_requestIdCounter := om_requestIdCounter m + 1\<rparr>) a"
    using h by (simp add: om_holding_def open_contexts_def)
  from holding_invalidate [OF this, of TIMEOUT] show ?thesis
    using Some by (auto simp: sendRequestImpl_def Let_def)
next
  case None
  define m' where "m' = m\<lparr>om_requestIdCounter := om_requestIdCounter m + 1,
      om_timers := om_timers m @ [\<lparr>tm_requestId = om_requestIdCounter m, tm_owner = a,
        tm_expires = om_responseTimeout m, tm_cancelled = False\<rparr>],
      om_pendingRequests := (om_requestIdCounter m,
        \<lparr>pr_requestId = om_requestIdCounter m, pr_request = request, pr_context = a\<rparr>) # om_pendingRequests m,
      om_delayed := om_delayed m @ [(request_frame_of (om_requestIdCounter m) request, om_requestIdCounter m, d)]\<rparr>"
  have r: "sendRequestImpl request a d m = Inr m'"
    using None by (simp add: sendRequestImpl_def Let_def m'_def)
  have k: "om_requestIdCounter m \<notin> fst ` set (om_pendingRequests m)"
    using None by (simp add: map_of_eq_None_iff)
  have "open_contexts m' = a # open_contexts m" by (simp add: open_contexts_def m'_def)
  moreover have "timed (om_pendingRequests m') (om_timers m')"
    using h by (auto simp: m'_def timed_def om_holding_def)
  ultimately have "om_ok m'"
    using h alive k by (simp add: om_ok_def om_core_def om_holding_def m'_def)
  then show ?thesis by (simp add: r)
qed

lemma om_runPosted_ok [inv_steps]:
  assumes ok: "om_ok m"
  shows "om_good (om_runPosted n m)"
proof (cases "n < length (om_posted m)")
  case False
  then show ?thesis using ok by (simp add: om_runPosted_def)
next
  case True
  obtain request a d where x: "om_posted m ! n = (request, a, d)" by (cases "om_posted m ! n")
  note h = take_nth_holding [OF ok True x]
  show ?thesis
  proof (cases "om_alive m")
    case alive: True
    then have "om_good (sendRequestImpl request a d (m\<lparr>om_posted := take_nth n (om_posted m)\<rparr>))"
      using sendRequestImpl_ok [OF h] by simp
    with alive True show ?thesis by (simp add: om_runPosted_def x)
  next
    case False
    with True holding_invalidate [OF h, of PEER_DISCONNECTED] show ?thesis
      by (auto simp: om_runPosted_def x)
  qed
qed

lemma om_ok_delayed: "om_ok m \<Longrightarrow> om_ok (m\<lparr>om_delayed := ds\<rparr>)"
  by (simp add: om_ok_def om_core_def open_contexts_def)

lemma om_delayExpired_ok [inv_steps]:
  assumes "om_ok m"
  shows "case om_delayExpired n b m of Inl e \<Rightarrow> e = LengthError \<or> e = BadAlloc | Inr (m', ws) \<Rightarrow> om_ok m'"
proof -
  let ?m = "m\<lparr>om_delayed := take_nth n (om_delayed m)\<rparr>"
  obtain frame rid d where x: "om_delayed m ! n = (frame, rid, d)" by (cases "om_delayed m ! n")
  have "om_ok ?m" using assms by (rule om_ok_delayed)
  then have "om_good (invalidatePendingRequest rid PEER_DISCONNECTED ?m)" by (rule invalidatePendingRequest_ok)
  then show ?thesis
    using \<open>om_ok ?m\<close> assms by (auto simp: om_delayExpired_def x om_good_def Let_def split: sum.splits)
qed

lemma om_timerExpired_ok [inv_steps]:
  assumes ok: "om_ok m"
  shows "om_good (om_timerExpired n late m)"
proof (cases "n < length (om_timers m)")
  case False
  then show ?thesis using ok by (simp add: om_timerExpired_def)
next
  case n: True
  let ?t = "om_timers m ! n"
  let ?m = "m\<lparr>om_timers := take_nth n (om_timers m)\<rparr>"
  have timed: "timed (om_pendingRequests m) (om_timers m)" using ok by (simp add: om_ok_def)
  have core: "om_core ?m" using ok by (simp add: om_ok_def om_core_def open_contexts_def)
  show ?thesis
  proof (cases "tm_cancelled ?t \<or> \<not> om_alive m \<or> map_of (om_pendingRequests m) (tm_requestId ?t) = None")
    case True
    have "timed (om_pendingRequests m) (take_nth n (om_timers m))"
    proof (cases "om_alive m")
      case alive: True
      show ?thesis
      proof (rule timed_take_nth [OF timed n])
        fix k p
        assume "(k, p) \<in> set (om_pendingRequests m)"
        then show "k \<noteq> tm_requestId ?t \<or> tm_cancelled ?t"
          using True alive by (force simp: map_of_eq_None_iff)
      qed
    next
      case False
      then show ?thesis using ok by (simp add: om_ok_def om_core_def)
    qed
    then have "om_ok ?m" using core by (simp add: om_ok_def)
    then show ?thesis
      using n by (auto simp: om_timerExpired_def Let_def intro: invalidatePendingRequest_ok)
  next
    case False
    then obtain p where p: "map_of (om_pendingRequests ?m) (tm_requestId ?t) = Some p" by auto
    from invalidatePendingRequest_resolves [OF core p, of TIMEOUT] obtain m' where
      m': "invalidatePendingRequest (tm_requestId ?t) TIMEOUT ?m = Inr m'"
      "resolves ?m (tm_requestId ?t) (pr_context p) (Failed Timeout) m'" by auto
    have "timed (pending_erase (tm_requestId ?t) (om_pendingRequests m)) (take_nth n (om_timers m))"
      by (rule timed_take_nth [OF timed_erase [OF timed] n]) (auto simp: pending_erase_def)
    then have "om_ok m'" using resolves_core(2) [OF core p m'(2)] by simp
    then show ?thesis using n False m'(1) by (simp add: om_timerExpired_def Let_def)
  qed
qed

lemma om_run_step_ok: "om_good r \<Longrightarrow> om_good (om_run_step alloc r ev)"
proof (cases r)
  case (Inl e)
  then show "om_good r \<Longrightarrow> ?thesis" by (simp add: om_run_step_def)
next
  case (Inr m)
  assume "om_good r"
  then have ok: "om_ok m" by (simp add: Inr)
  have nw: "om_good x \<Longrightarrow> om_good (case no_writes x of Inl e \<Rightarrow> Inl e | Inr (m', _) \<Rightarrow> Inr m')" for x
    by (cases x) (simp_all add: no_writes_def)
  show ?thesis
  proof (cases ev)
    case (OM_DelayExpired n b)
    then show ?thesis
      using om_delayExpired_ok [OF ok, of n b] by (auto simp: om_run_step_def Inr split: sum.splits)
  qed (simp_all add: om_run_step_def Inr ok nw inv_steps)
qed

lemma om_ok_init: "om_ok (OutManager_create responseTimeout)"
  using ctx_create(1) [of K_Ping]
  by (simp add: om_ok_def om_core_def OutManager_create_def open_contexts_def unresolved_def)

interpretation outcoming: step_machine "om_run_step alloc" "Inr (OutManager_create responseTimeout)" om_good
  for alloc responseTimeout
  by unfold_locales (simp_all add: om_ok_init om_run_step_ok)

section \<open>An outcome is final\<close>

definition om_keeps :: "OutManager \<Rightarrow> OutManager \<Rightarrow> bool" where
  "om_keeps m m' \<longleftrightarrow>
     om_nextContext m \<le> om_nextContext m' \<and>
     (\<forall>a < om_nextContext m. ctx_filled (om_contexts m a) \<longrightarrow> om_contexts m' a = om_contexts m a)"

lemma om_keeps_refl [simp]: "om_keeps m m"
  by (simp add: om_keeps_def)

lemma om_keeps_trans: "om_keeps m m' \<Longrightarrow> om_keeps m' m'' \<Longrightarrow> om_keeps m m''"
  unfolding om_keeps_def by (metis order.strict_trans2 order_trans)

lemma om_keeps_update [simp]:
  "om_keeps m (m'\<lparr>om_pendingRequests := ps\<rparr>) = om_keeps m m'"
  "om_keeps m (m'\<lparr>om_posted := qs\<rparr>) = om_keeps m m'"
  "om_keeps m (m'\<lparr>om_delayed := ds\<rparr>) = om_keeps m m'"
  "om_keeps m (m'\<lparr>om_timers := ts\<rparr>) = om_keeps m m'"
  "om_keeps m (m'\<lparr>om_alive := b\<rparr>) = om_keeps m m'"
  "om_keeps m (m'\<lparr>om_requestIdCounter := i\<rparr>) = om_keeps m m'"
  "om_keeps (m\<lparr>om_posted := qs\<rparr>) m' = om_keeps m m'"
  "om_keeps (m\<lparr>om_delayed := ds\<rparr>) m' = om_keeps m m'"
  "om_keeps (m\<lparr>om_timers := ts\<rparr>) m' = om_keeps m m'"
  "om_keeps (m\<lparr>om_requestIdCounter := i\<rparr>) m' = om_keeps m m'"
  by (simp_all add: om_keeps_def)

lemma om_keeps_context:
  "om_context_invalidate reason a m = Inr m' \<Longrightarrow> om_keeps m m'"
  "om_context_response alloc payload a m = Inr m' \<Longrightarrow> om_keeps m m'"
  by (auto simp: om_keeps_def om_context_invalidate_def om_context_response_def om_set_context_def
      OutContext_invalidate_closed OutContext_onResponse_closed split: sum.splits)

lemma om_keeps_cancel: "om_keeps (timeoutTimer_cancel a m) m' = om_keeps m m'"
  by (simp add: timeoutTimer_cancel_def)

lemma om_keeps_invalidatePendingRequest:
  "invalidatePendingRequest rid reason m = Inr m' \<Longrightarrow> om_keeps m m'"
  by (auto simp: invalidatePendingRequest_def om_keeps_cancel
      dest: om_keeps_context split: option.splits sum.splits)

lemma om_keeps_onResponse:
  "om_onResponseRecieved alloc rid payload m = Inr m' \<Longrightarrow> om_keeps m m'"
  by (auto simp: om_onResponseRecieved_def om_keeps_cancel
      dest: om_keeps_context split: option.splits sum.splits)

lemma om_keeps_invalidateContexts: "invalidateContexts reason as m = Inr m' \<Longrightarrow> om_keeps m m'"
proof (induction as arbitrary: m)
  case Nil
  then show ?case by simp
next
  case (Cons a as)
  then obtain m1 where "om_context_invalidate reason a (timeoutTimer_cancel a m) = Inr m1"
    "invalidateContexts reason as m1 = Inr m'" by (auto split: sum.splits)
  then show ?case using Cons.IH om_keeps_context(1) om_keeps_cancel om_keeps_trans by metis
qed

lemma om_keeps_invalidateAll: "invalidateAllPendingRequests reason m = Inr m' \<Longrightarrow> om_keeps m m'"
  by (auto simp: invalidateAllPendingRequests_def dest: om_keeps_invalidateContexts split: sum.splits)

lemma om_keeps_runPosted: "om_runPosted n m = Inr m' \<Longrightarrow> om_keeps m m'"
  by (auto simp: om_runPosted_def sendRequestImpl_def Let_def
      dest!: om_keeps_context(1) split: if_splits prod.splits option.splits)

lemma om_keeps_delayExpired: "om_delayExpired n b m = Inr (m', ws) \<Longrightarrow> om_keeps m m'"
  by (auto simp: om_delayExpired_def Let_def dest!: om_keeps_invalidatePendingRequest
      split: if_splits prod.splits sum.splits)

lemma om_keeps_timerExpired: "om_timerExpired n late m = Inr m' \<Longrightarrow> om_keeps m m'"
  by (auto simp: om_timerExpired_def Let_def dest!: om_keeps_invalidatePendingRequest split: if_splits)

lemma om_keeps_step: "om_step alloc m ev = Inr (m', ws) \<Longrightarrow> om_keeps m m'"
proof (cases ev)
  case (OM_SendRequest request k d)
  then show "om_step alloc m ev = Inr (m', ws) \<Longrightarrow> ?thesis"
    by (auto simp: sendRequest_def om_keeps_def)
qed (auto simp: no_writes_def om_onIncomingFrame_def OutManager_dtor_def
      dest: om_keeps_runPosted om_keeps_delayExpired om_keeps_timerExpired om_keeps_onResponse
        om_keeps_invalidateAll
      split: sum.splits if_splits option.splits)

lemma om_run_step_simps [simp]:
  "om_run_step alloc (Inl e) ev = Inl e"
  "om_step alloc m ev = Inl e \<Longrightarrow> om_run_step alloc (Inr m) ev = Inl e"
  "om_step alloc m ev = Inr (m', ws) \<Longrightarrow> om_run_step alloc (Inr m) ev = Inr m'"
  by (simp_all add: om_run_step_def)

lemma om_run_stuck [simp]: "run_steps (om_run_step alloc) (Inl e) evs = Inl e"
  by (induction evs) simp_all

lemma om_keeps_run:
  "run_steps (om_run_step alloc) (Inr m) evs = Inr m' \<Longrightarrow> om_keeps m m'"
proof (induction evs arbitrary: m)
  case Nil
  then show ?case by simp
next
  case (Cons ev evs)
  obtain m1 ws where m1: "om_step alloc m ev = Inr (m1, ws)"
    using Cons.prems by (cases "om_step alloc m ev") auto
  then have "run_steps (om_run_step alloc) (Inr m1) evs = Inr m'"
    using Cons.prems by simp
  then show ?case using Cons.IH om_keeps_step [OF m1] om_keeps_trans by blast
qed

section \<open>Every request ends\<close>

text \<open>
  Once the posted lambdas and the timeout handlers have run, every context holds an outcome.
\<close>

definition om_drain :: "OutManager \<Rightarrow> om_event list" where
  "om_drain m =
     replicate (length (om_posted m)) (OM_RunPosted 0) @
     replicate (length (om_timers m) + length (om_posted m)) (OM_TimerExpired 0 False)"

lemma length_take_nth: "n < length xs \<Longrightarrow> length (take_nth n xs) = length xs - 1"
  by (simp add: take_nth_def)

lemma length_cancel_timers [simp]: "length (cancel_timers a ts) = length ts"
  by (simp add: cancel_timers_def)

lemma om_context_invalidate_same:
  "om_context_invalidate reason a m = Inr m' \<Longrightarrow>
     om_posted m' = om_posted m \<and> om_timers m' = om_timers m \<and> om_nextContext m' = om_nextContext m"
  by (auto simp: om_context_invalidate_def om_set_context_def split: sum.splits)

lemma om_runPosted_progress:
  assumes ok: "om_ok m" and n: "om_posted m = x # xs"
  shows "\<exists>m'. om_runPosted 0 m = Inr m' \<and> om_ok m' \<and> om_posted m' = xs \<and>
           length (om_timers m') \<le> Suc (length (om_timers m)) \<and> om_nextContext m' = om_nextContext m"
proof -
  obtain request a d where x: "x = (request, a, d)" by (cases x)
  let ?m = "m\<lparr>om_posted := xs\<rparr>"
  have h: "om_holding ?m a"
    using take_nth_holding [of m 0 request a d] ok n x by (simp add: take_nth_def)
  then have h': "om_holding (?m\<lparr>om_requestIdCounter := i\<rparr>) a" for i
    by (simp add: om_holding_def open_contexts_def)
  have good: "om_good (om_runPosted 0 m)" using ok by (rule om_runPosted_ok)
  have "om_runPosted 0 m = (if \<not> om_alive m then om_context_invalidate PEER_DISCONNECTED a ?m
      else sendRequestImpl request a d ?m)"
    by (simp add: om_runPosted_def n x take_nth_def)
  then consider (inv) reason i where "om_runPosted 0 m = om_context_invalidate reason a (?m\<lparr>om_requestIdCounter := i\<rparr>)"
    | (ins) m' where "om_runPosted 0 m = Inr m'" "om_posted m' = xs" "om_nextContext m' = om_nextContext m"
      "length (om_timers m') = Suc (length (om_timers m))"
  proof (cases "om_alive m")
    case False
    then have "om_runPosted 0 m = om_context_invalidate PEER_DISCONNECTED a
        (?m\<lparr>om_requestIdCounter := om_requestIdCounter m\<rparr>)"
      using \<open>om_runPosted 0 m = _\<close> by simp
    then show thesis by (rule inv)
  next
    case True
    then have e: "om_runPosted 0 m = sendRequestImpl request a d ?m" using \<open>om_runPosted 0 m = _\<close> by simp
    show thesis
    proof (cases "map_of (om_pendingRequests m) (om_requestIdCounter m)")
      case (Some p)
      then show thesis using e inv by (simp add: sendRequestImpl_def Let_def)
    next
      case None
      then have "\<exists>m'. om_runPosted 0 m = Inr m' \<and> om_posted m' = xs \<and>
          om_nextContext m' = om_nextContext m \<and> length (om_timers m') = Suc (length (om_timers m))"
        using e by (simp add: sendRequestImpl_def Let_def)
      then show thesis using ins by blast
    qed
  qed
  then show ?thesis
  proof cases
    case inv
    from holding_invalidate [OF h' [of i], of reason] obtain m' where
      m': "om_context_invalidate reason a (?m\<lparr>om_requestIdCounter := i\<rparr>) = Inr m'" "om_ok m'" by blast
    show ?thesis
      using inv m' om_context_invalidate_same [OF m'(1)] by simp
  next
    case ins
    then show ?thesis using good by simp
  qed
qed

lemma om_run_posted:
  assumes "om_ok m"
  shows "\<exists>m'. run_steps (om_run_step alloc) (Inr m) (replicate (length (om_posted m)) (OM_RunPosted 0)) = Inr m' \<and>
           om_ok m' \<and> om_posted m' = [] \<and>
           length (om_timers m') \<le> length (om_timers m) + length (om_posted m) \<and>
           om_nextContext m' = om_nextContext m"
  using assms
proof (induction "length (om_posted m)" arbitrary: m)
  case 0
  then show ?case by auto
next
  case (Suc n)
  then obtain x xs where xs: "om_posted m = x # xs" "length xs = n" by (metis length_Suc_conv)
  from om_runPosted_progress [OF Suc.prems xs(1)] obtain m1 where m1: "om_runPosted 0 m = Inr m1" "om_ok m1"
    "om_posted m1 = xs" "length (om_timers m1) \<le> Suc (length (om_timers m))"
    "om_nextContext m1 = om_nextContext m" by blast
  then have "om_run_step alloc (Inr m) (OM_RunPosted 0) = Inr m1" by (simp add: om_run_step_def no_writes_def)
  with Suc.hyps(1) [of m1] m1 xs show ?case by fastforce
qed

lemma om_timer_progress:
  assumes ok: "om_ok m" and t: "om_timers m \<noteq> []"
  shows "\<exists>m'. om_timerExpired 0 False m = Inr m' \<and> om_ok m' \<and> om_posted m' = om_posted m \<and>
           length (om_timers m') = length (om_timers m) - 1 \<and> om_nextContext m' = om_nextContext m"
proof -
  let ?t = "om_timers m ! 0"
  let ?m = "m\<lparr>om_timers := take_nth 0 (om_timers m)\<rparr>"
  have good: "om_good (om_timerExpired 0 False m)" using ok by (rule om_timerExpired_ok)
  have core: "om_core ?m" using ok by (simp add: om_ok_def om_core_def open_contexts_def)
  have l: "length (take_nth 0 (om_timers m)) = length (om_timers m) - 1"
    using t by (simp add: length_take_nth)
  have e: "om_timerExpired 0 False m =
      (if tm_cancelled ?t \<or> \<not> om_alive m then Inr ?m
       else invalidatePendingRequest (tm_requestId ?t) TIMEOUT ?m)"
    using t by (simp add: om_timerExpired_def Let_def)
  consider "om_timerExpired 0 False m = Inr ?m"
    | p where "om_timerExpired 0 False m = invalidatePendingRequest (tm_requestId ?t) TIMEOUT ?m"
      "map_of (om_pendingRequests ?m) (tm_requestId ?t) = Some p"
  proof (cases "tm_cancelled ?t \<or> \<not> om_alive m")
    case True
    then show thesis using e that(1) by simp
  next
    case False
    then have e': "om_timerExpired 0 False m = invalidatePendingRequest (tm_requestId ?t) TIMEOUT ?m"
      using e by simp
    show thesis
    proof (cases "map_of (om_pendingRequests ?m) (tm_requestId ?t)")
      case None
      then show thesis using e' that(1) invalidatePendingRequest_unknown by metis
    next
      case (Some p)
      then show thesis using e' that(2) by blast
    qed
  qed
  then show ?thesis
  proof cases
    case 1
    then show ?thesis using good l by simp
  next
    case 2
    from invalidatePendingRequest_resolves [OF core 2(2), of TIMEOUT] obtain m' where
      "invalidatePendingRequest (tm_requestId ?t) TIMEOUT ?m = Inr m'"
      "resolves ?m (tm_requestId ?t) (pr_context p) (Failed (reason_exception TIMEOUT)) m'" by blast
    then show ?thesis using 2(1) good l by (auto simp: resolves_def)
  qed
qed

lemma om_run_timers:
  assumes "om_ok m" "om_posted m = []" "length (om_timers m) \<le> n"
  shows "\<exists>m'. run_steps (om_run_step alloc) (Inr m) (replicate n (OM_TimerExpired 0 False)) = Inr m' \<and>
           om_ok m' \<and> om_posted m' = [] \<and> om_timers m' = [] \<and> om_nextContext m' = om_nextContext m"
  using assms
proof (induction n arbitrary: m)
  case 0
  then show ?case by auto
next
  case (Suc n)
  show ?case
  proof (cases "om_timers m = []")
    case True
    then have "om_run_step alloc (Inr m) (OM_TimerExpired 0 False) = Inr m"
      by (simp add: om_run_step_def no_writes_def om_timerExpired_def)
    then show ?thesis using Suc.IH [of m] Suc.prems True by simp
  next
    case False
    from om_timer_progress [OF Suc.prems(1) False] obtain m1 where m1: "om_timerExpired 0 False m = Inr m1"
      "om_ok m1" "om_posted m1 = []" "length (om_timers m1) = length (om_timers m) - 1"
      "om_nextContext m1 = om_nextContext m" using Suc.prems(2) by auto
    then have "om_run_step alloc (Inr m) (OM_TimerExpired 0 False) = Inr m1"
      by (simp add: om_run_step_def no_writes_def)
    then show ?thesis using Suc.IH [of m1] Suc.prems m1 by simp
  qed
qed

lemma om_drain_resolves:
  assumes ok: "om_ok m"
  shows "\<exists>m'. run_steps (om_run_step alloc) (Inr m) (om_drain m) = Inr m' \<and>
           om_nextContext m' = om_nextContext m \<and>
           (\<forall>a < om_nextContext m. outcome_of (om_contexts m' a) \<noteq> None)"
proof -
  from om_run_posted [OF ok, of alloc] obtain m1 where
    m1: "run_steps (om_run_step alloc) (Inr m) (replicate (length (om_posted m)) (OM_RunPosted 0)) = Inr m1"
      "om_ok m1" "om_posted m1 = []" "om_nextContext m1 = om_nextContext m"
      "length (om_timers m1) \<le> length (om_timers m) + length (om_posted m)" by blast
  from om_run_timers [OF m1(2,3,5), of alloc] obtain m2 where
    m2: "run_steps (om_run_step alloc) (Inr m1)
           (replicate (length (om_timers m) + length (om_posted m)) (OM_TimerExpired 0 False)) = Inr m2"
      "om_ok m2" "om_posted m2 = []" "om_timers m2 = []" "om_nextContext m2 = om_nextContext m1" by blast
  have "om_pendingRequests m2 = []"
    using m2(2,4) by (cases "om_pendingRequests m2") (auto simp: om_ok_def timed_def)
  then have "open_contexts m2 = []" using m2(3) by (simp add: open_contexts_def)
  then have "\<forall>a < om_nextContext m2. outcome_of (om_contexts m2 a) \<noteq> None"
    using m2(2) by (auto simp: om_ok_def om_core_def unresolved_def ctx_ok_def)
  then show ?thesis
    using m1 m2 by (simp add: om_drain_def run_steps_append)
qed

section \<open>The response to a request\<close>

text \<open>What the holder of the future gets when the peer answers \<open>r\<close>.\<close>

fun answer_outcome :: "Response \<Rightarrow> outcome" where
  "answer_outcome (Resp_AddMessage a) = Got_AddMessage (sam_status a)"
| "answer_outcome (Resp_GetMessages g) = Got_GetMessages (sgm_views g)"
| "answer_outcome (Resp_Pong a) = Got_Ping (sp_timestamp a)"
| "answer_outcome (Resp_SecondaryNodeReady _) = Got_SecondaryNodeReady"

fun answers :: "OutContext \<Rightarrow> Response \<Rightarrow> bool" where
  "answers (OC_AddMessage _) (Resp_AddMessage _) = True"
| "answers (OC_GetMessages _) (Resp_GetMessages _) = True"
| "answers (OC_Ping _) (Resp_Pong _) = True"
| "answers (OC_SecondaryNodeReady _) (Resp_SecondaryNodeReady _) = True"
| "answers _ _ = False"

lemma fromPayload_flush_views:
  assumes "Response_GetMessages_fromPayload alloc p = Inr (Some g)"
    and "Response_GetMessages_flushMessages g = Inr ms"
  shows "sgm_views g = ms"
  using fromPayload_owning [OF assms(1)] assms(2) by (metis flushMessages_owning Inr_inject)

lemma response_outcome_answer:
  assumes "answers c r" "response_reads alloc r p"
  shows "response_outcome alloc c p = Some (answer_outcome r)"
  using assms by (cases c; cases r) (auto dest: fromPayload_flush_views)

lemma pending_erase_lookup:
  "map_of (pending_erase rid ps) k = (if k = rid then None else map_of ps k)"
  by (induction ps) (auto simp: pending_erase_def)

lemma om_incoming_answer:
  assumes ok: "om_ok m" and alive: "om_alive m" and p: "map_of (om_pendingRequests m) rid = Some p"
    and a: "answers (om_contexts m (pr_context p)) r" "response_reads alloc r (Some (response_payload r))"
  shows "\<exists>m'. om_step alloc m (OM_IncomingFrame (Some (response_frame_bytes rid r))) = Inr (m', []) \<and>
           outcome_of (om_contexts m' (pr_context p)) = Some (answer_outcome r) \<and>
           (\<forall>b. b \<noteq> pr_context p \<longrightarrow> om_contexts m' b = om_contexts m b) \<and>
           map_of (om_pendingRequests m') = (map_of (om_pendingRequests m))(rid := None)"
proof -
  from om_onResponse_resolves [OF om_ok_core [OF ok] p, of alloc "Some (response_payload r)"]
    response_outcome_answer [OF a] obtain m' where
    m': "om_onResponseRecieved alloc rid (Some (response_payload r)) m = Inr m'"
      "resolves m rid (pr_context p) (answer_outcome r) m'" by auto
  then show ?thesis
    using alive
    by (auto simp: no_writes_def om_onIncomingFrame_def resolves_def pending_erase_lookup fun_eq_iff)
qed

section \<open>Properties\<close>

abbreviation om_run :: "(nat \<Rightarrow> bool) \<Rightarrow> duration_ms \<Rightarrow> om_event list \<Rightarrow> cpp_exception + OutManager" where
  "om_run alloc t evs \<equiv> run_steps (om_run_step alloc) (Inr (OutManager_create t)) evs"

lemma om_run_ok: "om_run alloc t evs = Inr m \<Longrightarrow> om_ok m"
  using outcoming.inv_run [of alloc t evs] by simp

text \<open>
C23: Whatever the peer sends and in whatever order posted lambdas, delayed sends, timeouts,
disconnections and the destruction of the manager happen, no promise is set twice (no
\<^verbatim>\<open>promise_already_satisfied\<close>): the only exceptions that can leave a handler are those of
the allocation for a GetMessages response. The contexts without an outcome are exactly
those that one posted lambda or one pending request still has to resolve.
\<close>

theorem outcoming_requests_resolved_once:
  "case om_run alloc t evs of
     Inl e \<Rightarrow> e = LengthError \<or> e = BadAlloc
   | Inr m \<Rightarrow>
       distinct (open_contexts m) \<and>
       {a. a < om_nextContext m \<and> outcome_of (om_contexts m a) = None} = set (open_contexts m)"
proof (cases "om_run alloc t evs")
  case (Inl e)
  then show ?thesis using outcoming.inv_run [of alloc t evs] by simp
next
  case (Inr m)
  then have "om_ok m" by (rule om_run_ok)
  then show ?thesis
    by (auto simp: Inr om_ok_def om_core_def unresolved_def ctx_ok_def)
qed

text \<open>
C24: Every request ends: from any reachable state, once the lambdas already posted and the
timeout handlers have run, each context created so far holds an outcome (a value or an
exception), so no future stays unresolved, even when the peer never answers.
\<close>

theorem outcoming_requests_terminate:
  assumes "om_run alloc t evs = Inr m"
  shows "\<exists>m'. om_run alloc t (evs @ om_drain m) = Inr m' \<and>
           om_nextContext m' = om_nextContext m \<and>
           (\<forall>a < om_nextContext m. outcome_of (om_contexts m' a) \<noteq> None)"
  using om_drain_resolves [OF om_run_ok [OF assms], of alloc] assms by (simp add: run_steps_append)

theorem outcoming_requests_terminate_witness:
  "\<exists>m m'. om_run (\<lambda>_. True) 1500 [OM_SendRequest (Req_Ping (Request_Ping_create 7)) K_Ping 0] = Inr m \<and>
     om_nextContext m = 1 \<and>
     om_run (\<lambda>_. True) 1500 ([OM_SendRequest (Req_Ping (Request_Ping_create 7)) K_Ping 0] @ om_drain m) = Inr m' \<and>
     outcome_of (om_contexts m' 0) \<noteq> None"
proof -
  let ?ev = "[OM_SendRequest (Req_Ping (Request_Ping_create 7)) K_Ping 0]"
  obtain m where m: "om_run (\<lambda>_. True) 1500 ?ev = Inr m" "om_nextContext m = 1"
    by (simp add: om_run_step_def sendRequest_def OutManager_create_def)
  from outcoming_requests_terminate [OF m(1)] m show ?thesis by auto
qed

text \<open>
An outcome is final: what the holder of a future sees never changes again, whatever
happens afterwards.
\<close>

theorem outcoming_outcome_final:
  assumes "om_run alloc t evs = Inr m" and "om_run alloc t (evs @ evs') = Inr m'"
    and "a < om_nextContext m" and "outcome_of (om_contexts m a) = Some oc"
  shows "outcome_of (om_contexts m' a) = Some oc"
proof -
  have "ctx_filled (om_contexts m a)"
    using om_run_ok [OF assms(1)] assms(4)
    by (auto simp: om_ok_def om_core_def unresolved_def ctx_ok_def)
  then show ?thesis
    using om_keeps_run [of alloc m evs' m'] assms by (simp add: run_steps_append om_keeps_def)
qed

theorem outcoming_outcome_final_witness:
  "\<exists>m m'. om_run (\<lambda>_. True) 1500
       [OM_SendRequest (Req_Ping (Request_Ping_create 7)) K_Ping 0, OM_Destroy, OM_RunPosted 0] = Inr m \<and>
     om_run (\<lambda>_. True) 1500
       ([OM_SendRequest (Req_Ping (Request_Ping_create 7)) K_Ping 0, OM_Destroy, OM_RunPosted 0] @
        [OM_SocketInvalidated]) = Inr m' \<and>
     outcome_of (om_contexts m' 0) = Some (Failed PeerDisconnected)"
proof -
  let ?evs = "[OM_SendRequest (Req_Ping (Request_Ping_create 7)) K_Ping 0, OM_Destroy, OM_RunPosted 0]"
  note d = om_run_step_def no_writes_def sendRequest_def OutManager_create_def OutManager_dtor_def
    invalidateAllPendingRequests_def om_runPosted_def take_nth_def om_context_invalidate_def
    om_set_context_def invalidatePromise_def promiseMarkFilled_def OutCtx_create_def
  obtain m where m: "om_run (\<lambda>_. True) 1500 ?evs = Inr m" "om_nextContext m = 1"
    "outcome_of (om_contexts m 0) = Some (Failed PeerDisconnected)"
    by (simp add: d)
  obtain m' where m': "om_run (\<lambda>_. True) 1500 (?evs @ [OM_SocketInvalidated]) = Inr m'"
    by (simp add: d)
  from outcoming_outcome_final [OF m(1) m'] m m' show ?thesis by auto
qed

text \<open>
C25: The response frame a peer builds for a pending request ends exactly that request: its
context gets the value the peer sent, its entry leaves the table, every other context and
entry stays as it is.
\<close>

theorem response_resolves_its_request:
  assumes "om_run alloc t evs = Inr m" and "om_alive m"
    and "map_of (om_pendingRequests m) rid = Some p"
    and "answers (om_contexts m (pr_context p)) r" and "sendable alloc r"
  shows "\<exists>m'. om_step alloc m (OM_IncomingFrame (Some (response_frame_bytes rid r))) = Inr (m', []) \<and>
           outcome_of (om_contexts m' (pr_context p)) = Some (answer_outcome r) \<and>
           (\<forall>b. b \<noteq> pr_context p \<longrightarrow> om_contexts m' b = om_contexts m b) \<and>
           map_of (om_pendingRequests m') = (map_of (om_pendingRequests m))(rid := None)"
  using om_incoming_answer [OF om_run_ok [OF assms(1)] assms(2,3,4) response_reads_payload [OF assms(5)]] .

theorem response_resolves_its_request_witness:
  "\<exists>m m'. om_run (\<lambda>_. True) 1500
       [OM_SendRequest (Req_Ping (Request_Ping_create 7)) K_Ping 0, OM_RunPosted 0] = Inr m \<and>
     om_step (\<lambda>_. True) m
       (OM_IncomingFrame (Some (response_frame_bytes 0 (Resp_Pong (Response_Pong_create 9))))) = Inr (m', []) \<and>
     outcome_of (om_contexts m' 0) = Some (Got_Ping 9)"
proof -
  let ?evs = "[OM_SendRequest (Req_Ping (Request_Ping_create 7)) K_Ping 0, OM_RunPosted 0]"
  note d = om_run_step_def no_writes_def sendRequest_def OutManager_create_def om_runPosted_def
    take_nth_def sendRequestImpl_def
  obtain m where m: "om_run (\<lambda>_. True) 1500 ?evs = Inr m" "om_alive m"
    "om_contexts m 0 = OutContext_create K_Ping"
    "map_of (om_pendingRequests m) 0 =
       Some \<lparr>pr_requestId = 0, pr_request = Req_Ping (Request_Ping_create 7), pr_context = 0\<rparr>"
    by (simp add: d)
  from response_resolves_its_request [OF m(1,2,4), of "Resp_Pong (Response_Pong_create 9)"] m
  show ?thesis by (auto simp: Response_Pong_create_def)
qed

text \<open>
A frame that is not a response to a pending request changes nothing: request frames,
frames that do not parse and responses to unknown, timed out or already answered requests
are dropped.
\<close>

theorem unexpected_frames_ignored:
  assumes "parseEventType frame \<noteq> Some RESPONSE \<or>
    (\<forall>f. parseResponseFrame frame = Some f \<longrightarrow> map_of (om_pendingRequests m) (sf_requestId f) = None)"
  shows "om_step alloc m (OM_IncomingFrame frame) = Inr (m, [])"
  using assms
  by (auto simp: om_onIncomingFrame_def om_onResponseRecieved_def no_writes_def split: option.split)

theorem unexpected_frames_ignored_witness:
  "om_step (\<lambda>_. True) (OutManager_create 1500)
     (OM_IncomingFrame (Some (response_frame_bytes 3 (Resp_Pong (Response_Pong_create 9))))) =
   Inr (OutManager_create 1500, [])"
  by (rule unexpected_frames_ignored) (simp add: OutManager_create_def)

text \<open>
C26: When the socket is invalidated or the manager is destroyed, every pending request
fails with \<^verbatim>\<open>PeerDisconnected\<close>, the table becomes empty and no other context changes.
\<close>

theorem disconnection_fails_all_pending:
  assumes "om_run alloc t evs = Inr m" and "om_alive m" and "ev = OM_SocketInvalidated \<or> ev = OM_Destroy"
  shows "\<exists>m'. om_step alloc m ev = Inr (m', []) \<and> om_pendingRequests m' = [] \<and>
           (\<forall>(rid, p) \<in> set (om_pendingRequests m).
              outcome_of (om_contexts m' (pr_context p)) = Some (Failed PeerDisconnected)) \<and>
           (\<forall>a. a \<notin> pr_context ` snd ` set (om_pendingRequests m) \<longrightarrow> om_contexts m' a = om_contexts m a)"
proof -
  from invalidateAll_resolves [OF om_run_ok [OF assms(1)], of PEER_DISCONNECTED] obtain m1 where
    m1: "invalidateAllPendingRequests PEER_DISCONNECTED m = Inr m1"
      "resolves_all m (Failed PeerDisconnected) m1" by auto
  have "om_step alloc m ev = Inr (m1, []) \<or> om_step alloc m ev = Inr (m1\<lparr>om_alive := False\<rparr>, [])"
    using assms(2,3) m1(1) by (auto simp: no_writes_def OutManager_dtor_def)
  then show ?thesis
    using m1(2) by (fastforce simp: resolves_all_def image_comp)
qed

theorem disconnection_fails_all_pending_witness:
  "\<exists>m m'. om_run (\<lambda>_. True) 1500
       [OM_SendRequest (Req_Ping (Request_Ping_create 7)) K_Ping 0, OM_RunPosted 0] = Inr m \<and>
     om_step (\<lambda>_. True) m OM_Destroy = Inr (m', []) \<and>
     outcome_of (om_contexts m' 0) = Some (Failed PeerDisconnected)"
proof -
  let ?evs = "[OM_SendRequest (Req_Ping (Request_Ping_create 7)) K_Ping 0, OM_RunPosted 0]"
  note d = om_run_step_def no_writes_def sendRequest_def OutManager_create_def om_runPosted_def
    take_nth_def sendRequestImpl_def
  obtain m where m: "om_run (\<lambda>_. True) 1500 ?evs = Inr m" "om_alive m"
    "(0, \<lparr>pr_requestId = 0, pr_request = Req_Ping (Request_Ping_create 7), pr_context = 0\<rparr>)
       \<in> set (om_pendingRequests m)"
    by (simp add: d)
  from disconnection_fails_all_pending [OF m(1,2), of OM_Destroy] m show ?thesis by fastforce
qed

text \<open>
A request that times out while its send is still delayed is sent all the same: its
future holds \<^verbatim>\<open>Timeout\<close>, and when the delay ends the frame goes to the socket.
\<close>

theorem timed_out_request_still_sent:
  "\<exists>m m'. om_run alloc t [OM_SendRequest r k d, OM_RunPosted 0, OM_TimerExpired 0 False] = Inr m \<and>
     outcome_of (om_contexts m 0) = Some (Failed Timeout) \<and> om_pendingRequests m = [] \<and>
     om_step alloc m (OM_DelayExpired 0 False) =
       Inr (m', [\<lparr>pw_frame = request_frame_of 0 r, pw_callback = 0\<rparr>])"
  by (cases k)
    (simp_all add: om_run_step_def no_writes_def sendRequest_def OutManager_create_def om_runPosted_def
      take_nth_def sendRequestImpl_def om_timerExpired_def invalidatePendingRequest_def
      timeoutTimer_cancel_def cancel_timers_def om_context_invalidate_def om_set_context_def
      invalidatePromise_def promiseMarkFilled_def OutCtx_create_def pending_erase_def om_delayExpired_def)

end
