(* ===== verification/IncomingRequestsManager.thy ===== *)
theory IncomingRequestsManager
  imports OutcomingRequestsManager
begin

text \<open>
  libs/proto/src/incomingrequestcontext and libs/proto/src/incomingrequestsmanager: the
  answers to the requests a peer sends.

  A context owns the future of a promise the program's handler is given; when the promise is
  set or abandoned, \<^verbatim>\<open>thenPost\<close> posts a lambda to the socket's execution context, which
  emits \<^verbatim>\<open>responseRecieved\<close> or \<^verbatim>\<open>invalidResponseRecieved\<close>. The manager owns the
  registered contexts and turns a response into a frame for the socket. Contexts are stored
  by number; \<open>im_posted\<close> are the contexts whose lambda is posted. The callback of a write
  (which only keeps the response alive) carries the number of its context.
\<close>

section \<open>Contexts\<close>

text \<open>What the promise of a context can be given, by context class.\<close>

datatype answer =
    A_AddMessage AddMessageStatus
  | A_GetMessages "string list"
  | A_Ping timestamp
  | A_SecondaryNodeReady

datatype in_promise = NotSet | Fulfilled answer | Broken

record InContext =
  ic_alive :: bool
  ic_promise :: in_promise
  ic_responseId :: "size_t option"

text \<open>\<open>ic_responseId\<close> is the id the manager's slots were connected with, if they were.\<close>

definition InContext_create :: InContext where
  "InContext_create = \<lparr>ic_alive = True, ic_promise = NotSet, ic_responseId = None\<rparr>"

text \<open>The response a class creates from the value of its future.\<close>

fun answer_response :: "answer \<Rightarrow> Response" where
  "answer_response (A_AddMessage status) = Resp_AddMessage (Response_AddMessage_create status)"
| "answer_response (A_GetMessages messages) = Resp_GetMessages (Response_GetMessages_create messages)"
| "answer_response (A_Ping t) = Resp_Pong (Response_Pong_create t)"
| "answer_response A_SecondaryNodeReady = Resp_SecondaryNodeReady Response_SecondaryNodeReady_create"

text \<open>
  The lambda each class attaches to its future: the signal it emits, if the context still lives.
  \<open>None\<close> is a future without a value.
\<close>

datatype context_signal = No_signal | Signal_responseRecieved Response | Signal_invalidResponseRecieved

definition InCtx_AddMessage_onFuture :: "bool \<Rightarrow> AddMessageStatus option \<Rightarrow> context_signal" where
  "InCtx_AddMessage_onFuture self future =
     (if \<not> self then No_signal
      else (case future of
              Some status \<Rightarrow> Signal_responseRecieved (Resp_AddMessage (Response_AddMessage_create status))
            | None \<Rightarrow> Signal_invalidResponseRecieved))"

definition InCtx_GetMessages_onFuture :: "bool \<Rightarrow> string list option \<Rightarrow> context_signal" where
  "InCtx_GetMessages_onFuture self future =
     (if \<not> self then No_signal
      else (case future of
              Some messages \<Rightarrow> Signal_responseRecieved (Resp_GetMessages (Response_GetMessages_create messages))
            | None \<Rightarrow> Signal_invalidResponseRecieved))"

definition InCtx_Ping_onFuture :: "bool \<Rightarrow> timestamp option \<Rightarrow> context_signal" where
  "InCtx_Ping_onFuture self future =
     (if \<not> self then No_signal
      else (case future of
              Some t \<Rightarrow> Signal_responseRecieved (Resp_Pong (Response_Pong_create t))
            | None \<Rightarrow> Signal_invalidResponseRecieved))"

definition InCtx_SecondaryNodeReady_onFuture :: "bool \<Rightarrow> unit option \<Rightarrow> context_signal" where
  "InCtx_SecondaryNodeReady_onFuture self future =
     (if \<not> self then No_signal
      else (case future of
              Some _ \<Rightarrow> Signal_responseRecieved (Resp_SecondaryNodeReady Response_SecondaryNodeReady_create)
            | None \<Rightarrow> Signal_invalidResponseRecieved))"

text \<open>The class is that of the value; the classes do the same with a broken promise.\<close>

fun in_onFuture :: "bool \<Rightarrow> in_promise \<Rightarrow> context_signal" where
  "in_onFuture self (Fulfilled (A_AddMessage status)) = InCtx_AddMessage_onFuture self (Some status)"
| "in_onFuture self (Fulfilled (A_GetMessages messages)) = InCtx_GetMessages_onFuture self (Some messages)"
| "in_onFuture self (Fulfilled (A_Ping t)) = InCtx_Ping_onFuture self (Some t)"
| "in_onFuture self (Fulfilled A_SecondaryNodeReady) = InCtx_SecondaryNodeReady_onFuture self (Some ())"
| "in_onFuture self _ = InCtx_AddMessage_onFuture self None"

lemma in_onFuture_eq:
  "in_onFuture self p =
     (if \<not> self then No_signal
      else (case p of Fulfilled x \<Rightarrow> Signal_responseRecieved (answer_response x) | _ \<Rightarrow> Signal_invalidResponseRecieved))"
  by (cases "(self, p)" rule: in_onFuture.cases)
    (simp_all add: InCtx_AddMessage_onFuture_def InCtx_GetMessages_onFuture_def InCtx_Ping_onFuture_def
      InCtx_SecondaryNodeReady_onFuture_def)

section \<open>Posting a continuation\<close>

text \<open>
  \<^verbatim>\<open>NetUtils::thenPost\<close>: when the future becomes ready, in whichever thread, the callback is
  posted to the io context; it never runs inside \<^verbatim>\<open>set_value\<close>. The queue holds what identifies
  the callbacks.
\<close>

definition thenPost :: "'callback \<Rightarrow> 'callback list \<Rightarrow> 'callback list" where
  [simp]: "thenPost callback ioContext = ioContext @ [callback]"

section \<open>The manager\<close>

record InManager =
  im_alive :: bool
  im_registeredContexts :: "size_t \<rightharpoonup> nat"
  im_contexts :: "nat \<Rightarrow> InContext"
  im_nextContext :: nat
  im_posted :: "nat list"

definition InManager_create :: InManager where
  "InManager_create =
     \<lparr>im_alive = True, im_registeredContexts = Map.empty, im_contexts = (\<lambda>_. InContext_create),
      im_nextContext = 0, im_posted = []\<rparr>"

definition im_update_context :: "nat \<Rightarrow> (InContext \<Rightarrow> InContext) \<Rightarrow> InManager \<Rightarrow> InManager" where
  "im_update_context a f m = m\<lparr>im_contexts := (im_contexts m)(a := f (im_contexts m a))\<rparr>"

text \<open>
  \<^verbatim>\<open>create\<close> and \<^verbatim>\<open>flushPromise\<close> of a context, as the endpoint calls them; the result is
  the number of the context, which also stands for its promise.
\<close>

definition im_createContext :: "InManager \<Rightarrow> nat \<times> InManager" where
  "im_createContext m =
     (im_nextContext m,
      m\<lparr>im_contexts := (im_contexts m)(im_nextContext m := InContext_create),
        im_nextContext := Suc (im_nextContext m)\<rparr>)"

text \<open>A context whose id is taken is dropped: nobody else owns it.\<close>

definition registerContext :: "size_t \<Rightarrow> nat \<Rightarrow> InManager \<Rightarrow> InManager" where
  "registerContext responseId context m =
     (case im_registeredContexts m responseId of
        Some _ \<Rightarrow> im_update_context context (\<lambda>c. c\<lparr>ic_alive := False\<rparr>) m
      | None \<Rightarrow>
          (im_update_context context (\<lambda>c. c\<lparr>ic_responseId := Some responseId\<rparr>) m)
             \<lparr>im_registeredContexts := (im_registeredContexts m)(responseId \<mapsto> context)\<rparr>)"

definition im_onIncomingFrame :: "const_buffer \<Rightarrow> RequestFrame option" where
  "im_onIncomingFrame frame =
     (if parseEventType frame \<noteq> Some REQUEST then None else parseRequestFrame frame)"

definition im_erase :: "size_t \<Rightarrow> InManager \<Rightarrow> InManager" where
  "im_erase responseId m =
     (case im_registeredContexts m responseId of
        None \<Rightarrow> m
      | Some a \<Rightarrow>
          (im_update_context a (\<lambda>c. c\<lparr>ic_alive := False\<rparr>) m)
             \<lparr>im_registeredContexts := (im_registeredContexts m)(responseId := None)\<rparr>)"

definition response_frame_of :: "size_t \<Rightarrow> Response \<Rightarrow> buffer_seq" where
  "response_frame_of responseId response =
     Response_serializePayload response (constructResponseHeaderWoOwnership responseId)"

text \<open>A response on its way to the socket: its frame refers to it until it has been written.\<close>

record PendingResponse =
  pd_responseId :: size_t
  pd_response :: Response

definition PendingResponse_create :: "size_t \<Rightarrow> Response \<Rightarrow> PendingResponse" where
  [simp]: "PendingResponse_create responseId response = \<lparr>pd_responseId = responseId, pd_response = response\<rparr>"

definition im_onResponseRecieved ::
    "size_t \<Rightarrow> Response option \<Rightarrow> nat \<Rightarrow> InManager \<Rightarrow> InManager \<times> PendingWrite list" where
  "im_onResponseRecieved responseId response callback m =
     (let m' = im_erase responseId m
      in case response of
           None \<Rightarrow> (m', [])
         | Some r \<Rightarrow>
             (let pendingResponse = PendingResponse_create responseId r
              in (m', [\<lparr>pw_frame = response_frame_of (pd_responseId pendingResponse) (pd_response pendingResponse),
                        pw_callback = callback\<rparr>])))"

definition im_onInvalidResponseRecieved :: "size_t \<Rightarrow> InManager \<Rightarrow> InManager" where
  "im_onInvalidResponseRecieved responseId m = im_erase responseId m"

text \<open>
  The promise is set by its holder, or abandoned (\<^const>\<open>None\<close>); a second value is an
  exception at the holder.
\<close>

definition im_setPromise :: "nat \<Rightarrow> answer option \<Rightarrow> InManager \<Rightarrow> cpp_exception + InManager" where
  "im_setPromise a v m =
     (if im_nextContext m \<le> a then Inr m
      else
        (case (ic_promise (im_contexts m a), v) of
           (NotSet, Some x) \<Rightarrow>
             Inr ((im_update_context a (\<lambda>c. c\<lparr>ic_promise := Fulfilled x\<rparr>) m)
                   \<lparr>im_posted := thenPost a (im_posted m)\<rparr>)
         | (NotSet, None) \<Rightarrow>
             Inr ((im_update_context a (\<lambda>c. c\<lparr>ic_promise := Broken\<rparr>) m)
                   \<lparr>im_posted := thenPost a (im_posted m)\<rparr>)
         | (_, Some x) \<Rightarrow> Inl PromiseAlreadySatisfied
         | (_, None) \<Rightarrow> Inr m))"

text \<open>
  The lambda \<^verbatim>\<open>connectPromise\<close> attaches, run from the execution context. The slots are
  tracked by the manager.
\<close>

definition im_runPosted :: "nat \<Rightarrow> InManager \<Rightarrow> InManager \<times> PendingWrite list" where
  "im_runPosted n m =
     (if length (im_posted m) \<le> n then (m, [])
      else
        (let a = im_posted m ! n;
             m0 = m\<lparr>im_posted := take_nth n (im_posted m)\<rparr>;
             self = im_contexts m0 a
         in case (in_onFuture (ic_alive self) (ic_promise self), ic_responseId self) of
              (Signal_responseRecieved r, Some responseId) \<Rightarrow>
                if im_alive m0 then im_onResponseRecieved responseId (Some r) a m0 else (m0, [])
            | (Signal_invalidResponseRecieved, Some responseId) \<Rightarrow>
                if im_alive m0 then (im_onInvalidResponseRecieved responseId m0, []) else (m0, [])
            | _ \<Rightarrow> (m0, [])))"

lemma im_runPosted_eq:
  "im_runPosted n m =
     (if length (im_posted m) \<le> n then (m, [])
      else
        (let a = im_posted m ! n;
             m0 = m\<lparr>im_posted := take_nth n (im_posted m)\<rparr>;
             self = im_contexts m0 a
         in if \<not> ic_alive self then (m0, [])
            else
              (case ic_responseId self of
                 None \<Rightarrow> (m0, [])
               | Some responseId \<Rightarrow>
                   if \<not> im_alive m0 then (m0, [])
                   else
                     (case ic_promise self of
                        Fulfilled x \<Rightarrow> im_onResponseRecieved responseId (Some (answer_response x)) a m0
                      | _ \<Rightarrow> (im_onInvalidResponseRecieved responseId m0, [])))))"
  by (simp add: im_runPosted_def in_onFuture_eq Let_def split: option.split in_promise.split)

text \<open>The destructor releases the registered contexts.\<close>

definition InManager_dtor :: "InManager \<Rightarrow> InManager" where
  "InManager_dtor m =
     m\<lparr>im_alive := False, im_registeredContexts := Map.empty,
       im_contexts := (\<lambda>a. (im_contexts m a)\<lparr>ic_alive := False\<rparr>)\<rparr>"

section \<open>Events\<close>

text \<open>
  \<open>IM_Request\<close> is what the endpoint does for a request it could read: create a context,
  take its promise, register the context.
\<close>

datatype im_event =
    IM_Request size_t
  | IM_SetPromise nat "answer option"
  | IM_RunPosted nat
  | IM_Destroy

definition im_request :: "size_t \<Rightarrow> InManager \<Rightarrow> nat \<times> InManager" where
  "im_request responseId m =
     (let (a, m') = im_createContext m in (a, registerContext responseId a m'))"

fun im_step :: "InManager \<Rightarrow> im_event \<Rightarrow> cpp_exception + InManager \<times> PendingWrite list" where
  "im_step m (IM_Request responseId) =
     (if im_alive m then Inr (snd (im_request responseId m), []) else Inr (m, []))"
| "im_step m (IM_SetPromise a v) =
     (case im_setPromise a v m of Inl e \<Rightarrow> Inl e | Inr m' \<Rightarrow> Inr (m', []))"
| "im_step m (IM_RunPosted n) = Inr (im_runPosted n m)"
| "im_step m IM_Destroy = (if im_alive m then Inr (InManager_dtor m, []) else Inr (m, []))"

text \<open>
  A run with the log of the writes. A holder that sets its promise twice gets the exception
  and nothing else changes.
\<close>

definition im_log_step ::
    "InManager \<times> PendingWrite list \<Rightarrow> im_event \<Rightarrow> InManager \<times> PendingWrite list" where
  "im_log_step c ev =
     (case im_step (fst c) ev of Inl e \<Rightarrow> c | Inr (m', ws) \<Rightarrow> (m', snd c @ ws))"

section \<open>The invariant\<close>

text \<open>
  \<open>im_ok\<close>: the registered contexts are alive and know their id, no two ids share one; a
  lambda is posted for every set promise whose context lives; every write is the answer of
  its context, under the id it was registered with, and no context writes twice; while the
  manager lives, a registered context that is gone was abandoned or has written.
\<close>

definition im_registered_ok :: "InManager \<Rightarrow> bool" where
  "im_registered_ok m \<longleftrightarrow>
     (\<forall>rid a. im_registeredContexts m rid = Some a \<longrightarrow>
        a < im_nextContext m \<and> ic_alive (im_contexts m a) \<and> ic_responseId (im_contexts m a) = Some rid) \<and>
     (\<forall>a < im_nextContext m. ic_alive (im_contexts m a) \<longrightarrow>
        (\<exists>rid. im_registeredContexts m rid = Some a))"

definition im_posted_ok :: "InManager \<Rightarrow> bool" where
  "im_posted_ok m \<longleftrightarrow>
     distinct (im_posted m) \<and>
     (\<forall>a \<in> set (im_posted m). a < im_nextContext m \<and> ic_promise (im_contexts m a) \<noteq> NotSet) \<and>
     (\<forall>a < im_nextContext m. ic_alive (im_contexts m a) \<longrightarrow> ic_promise (im_contexts m a) \<noteq> NotSet \<longrightarrow>
        a \<in> set (im_posted m))"

definition im_write_ok :: "InManager \<Rightarrow> PendingWrite \<Rightarrow> bool" where
  "im_write_ok m w \<longleftrightarrow>
     pw_callback w < im_nextContext m \<and>
     (\<exists>rid x. ic_responseId (im_contexts m (pw_callback w)) = Some rid \<and>
        ic_promise (im_contexts m (pw_callback w)) = Fulfilled x \<and>
        pw_frame w = response_frame_of rid (answer_response x))"

definition im_writes_ok :: "InManager \<Rightarrow> PendingWrite list \<Rightarrow> bool" where
  "im_writes_ok m ws \<longleftrightarrow>
     distinct (map pw_callback ws) \<and>
     (\<forall>w \<in> set ws. im_write_ok m w \<and> \<not> ic_alive (im_contexts m (pw_callback w))) \<and>
     (\<forall>a < im_nextContext m. im_alive m \<longrightarrow> ic_responseId (im_contexts m a) \<noteq> None \<longrightarrow>
        ic_alive (im_contexts m a) \<or> ic_promise (im_contexts m a) = Broken \<or> a \<in> pw_callback ` set ws)"

definition im_ok :: "InManager \<times> PendingWrite list \<Rightarrow> bool" where
  "im_ok c \<longleftrightarrow>
     im_registered_ok (fst c) \<and> im_posted_ok (fst c) \<and> im_writes_ok (fst c) (snd c) \<and>
     (\<not> im_alive (fst c) \<longrightarrow> im_registeredContexts (fst c) = Map.empty)"

lemma im_request_eq:
  "im_request rid m =
     (im_nextContext m,
      case im_registeredContexts m rid of
        Some _ \<Rightarrow> m\<lparr>im_contexts := (im_contexts m)(im_nextContext m := InContext_create\<lparr>ic_alive := False\<rparr>),
                      im_nextContext := Suc (im_nextContext m)\<rparr>
      | None \<Rightarrow> m\<lparr>im_contexts := (im_contexts m)(im_nextContext m := InContext_create\<lparr>ic_responseId := Some rid\<rparr>),
                   im_nextContext := Suc (im_nextContext m),
                   im_registeredContexts := (im_registeredContexts m)(rid \<mapsto> im_nextContext m)\<rparr>)"
  by (auto simp: im_request_def im_createContext_def registerContext_def im_update_context_def
      split: option.split)

lemma im_okD:
  assumes "im_ok (m, ws)"
  shows "im_registered_ok m" "im_posted_ok m" "im_writes_ok m ws"
    "\<not> im_alive m \<Longrightarrow> im_registeredContexts m = Map.empty"
  using assms by (simp_all add: im_ok_def)

lemma im_write_ok_other:
  "im_write_ok m w \<Longrightarrow> im_nextContext m \<le> im_nextContext m' \<Longrightarrow>
   ic_responseId (im_contexts m' (pw_callback w)) = ic_responseId (im_contexts m (pw_callback w)) \<Longrightarrow>
   ic_promise (im_contexts m' (pw_callback w)) = ic_promise (im_contexts m (pw_callback w)) \<Longrightarrow>
   im_write_ok m' w"
  by (auto simp: im_write_ok_def)

lemma im_request_ok:
  assumes ok: "im_ok (m, ws)" and alive: "im_alive m"
  shows "im_ok (snd (im_request rid m), ws)"
proof -
  let ?m = "snd (im_request rid m)"
  let ?n = "im_nextContext m"
  note okD = im_okD [OF ok]
  have n: "im_nextContext ?m = Suc ?n" "im_posted ?m = im_posted m" "im_alive ?m = im_alive m"
    by (simp_all add: im_request_eq split: option.split)
  have other: "im_contexts ?m a = im_contexts m a" if "a < ?n" for a
    using that by (simp add: im_request_eq split: option.split)
  have new: "ic_promise (im_contexts ?m ?n) = NotSet"
    "ic_responseId (im_contexts ?m ?n) \<noteq> None \<Longrightarrow> ic_alive (im_contexts ?m ?n)"
    by (simp_all add: im_request_eq InContext_create_def split: option.split_asm option.split)
  have "im_registered_ok ?m"
    using okD(1)
    by (cases "im_registeredContexts m rid")
      (auto simp: im_registered_ok_def im_request_eq InContext_create_def less_Suc_eq,
        metis option.distinct(1))
  moreover have "im_posted_ok ?m"
    using okD(2) n other new by (auto simp: im_posted_ok_def less_Suc_eq)
  moreover have "im_writes_ok ?m ws"
  proof -
    have w: "pw_callback w < ?n" if "w \<in> set ws" for w
      using okD(3) that by (auto simp: im_writes_ok_def im_write_ok_def)
    have "im_write_ok ?m w \<and> \<not> ic_alive (im_contexts ?m (pw_callback w))" if "w \<in> set ws" for w
      using okD(3) that other [OF w [OF that]] n
      by (auto simp: im_writes_ok_def intro: im_write_ok_other)
    moreover have "ic_alive (im_contexts ?m a) \<or> ic_promise (im_contexts ?m a) = Broken \<or> a \<in> pw_callback ` set ws"
      if "a < Suc ?n" "im_alive ?m" "ic_responseId (im_contexts ?m a) \<noteq> None" for a
    proof (cases "a = ?n")
      case True
      then show ?thesis using new(2) that(3) by simp
    next
      case False
      then have a: "a < ?n" using that(1) by simp
      then show ?thesis
        using okD(3) that(2,3) n(3) unfolding im_writes_ok_def other [OF a] by auto
    qed
    ultimately show ?thesis using okD(3) n(1) by (simp add: im_writes_ok_def)
  qed
  ultimately show ?thesis using alive n by (simp add: im_ok_def)
qed

lemma im_setPromise_eq:
  "im_setPromise a v m =
     (if im_nextContext m \<le> a then Inr m
      else if ic_promise (im_contexts m a) = NotSet then
        Inr ((im_update_context a
               (\<lambda>c. c\<lparr>ic_promise := (case v of None \<Rightarrow> Broken | Some x \<Rightarrow> Fulfilled x)\<rparr>) m)
              \<lparr>im_posted := im_posted m @ [a]\<rparr>)
      else if v = None then Inr m else Inl PromiseAlreadySatisfied)"
  by (auto simp: im_setPromise_def split: in_promise.split option.split)

lemma im_setPromise_ok:
  assumes ok: "im_ok (m, ws)" and r: "im_setPromise a v m = Inr m'"
  shows "im_ok (m', ws)"
proof (cases "im_nextContext m \<le> a \<or> ic_promise (im_contexts m a) \<noteq> NotSet")
  case True
  then have "m' = m" using r by (auto simp: im_setPromise_eq split: if_splits)
  then show ?thesis using ok by simp
next
  case False
  let ?p = "case v of None \<Rightarrow> Broken | Some x \<Rightarrow> Fulfilled x"
  have m': "m' = m\<lparr>im_contexts := (im_contexts m)(a := (im_contexts m a)\<lparr>ic_promise := ?p\<rparr>),
                  im_posted := im_posted m @ [a]\<rparr>"
    using False r by (simp add: im_setPromise_eq im_update_context_def)
  have p: "?p \<noteq> NotSet" by (cases v) simp_all
  note okD = im_okD [OF ok]
  have fresh: "a \<notin> set (im_posted m)" using okD(2) False by (auto simp: im_posted_ok_def)
  have "im_registered_ok m'" using okD(1) by (simp add: im_registered_ok_def m')
  moreover have "im_posted_ok m'"
    using okD(2) fresh p False by (auto simp: im_posted_ok_def m')
  moreover have "im_writes_ok m' ws"
  proof -
    have na: "pw_callback w \<noteq> a" if "w \<in> set ws" for w
      using okD(3) that False by (auto simp: im_writes_ok_def im_write_ok_def)
    have "im_write_ok m' w \<and> \<not> ic_alive (im_contexts m' (pw_callback w))" if "w \<in> set ws" for w
    proof -
      have "im_write_ok m w" "\<not> ic_alive (im_contexts m (pw_callback w))"
        using okD(3) that by (simp_all add: im_writes_ok_def)
      then show ?thesis
        using na [OF that] by (auto simp: m' intro: im_write_ok_other [of m w])
    qed
    moreover have "ic_alive (im_contexts m' b) \<or> ic_promise (im_contexts m' b) = Broken \<or> b \<in> pw_callback ` set ws"
      if "b < im_nextContext m" "im_alive m" "ic_responseId (im_contexts m' b) \<noteq> None" for b
    proof (cases "b = a")
      case True
      have "a \<notin> pw_callback ` set ws" using na by auto
      moreover have "ic_responseId (im_contexts m a) \<noteq> None" using that(3) True by (simp add: m')
      ultimately have "ic_alive (im_contexts m a)"
        using okD(3) that(1,2) True False by (auto simp: im_writes_ok_def)
      then show ?thesis by (simp add: m' True)
    next
      case False
      then show ?thesis using okD(3) that by (auto simp: im_writes_ok_def m')
    qed
    ultimately show ?thesis using okD(3) by (simp add: im_writes_ok_def m')
  qed
  ultimately show ?thesis using okD(4) by (simp add: im_ok_def m')
qed

lemma set_take_nth: "distinct xs \<Longrightarrow> n < length xs \<Longrightarrow> set (take_nth n xs) = set xs - {xs ! n} \<and> distinct (take_nth n xs)"
proof -
  assume d: "distinct xs" and n: "n < length xs"
  have e: "mset xs = add_mset (xs ! n) (mset (take_nth n xs))" using n by (rule mset_take_nth)
  then have "mset xs = mset (xs ! n # take_nth n xs)" by simp
  from mset_eq_imp_distinct_iff [OF this] mset_eq_setD [OF this] d
  show ?thesis by auto
qed

text \<open>The lambda of context \<open>a\<close> has run without an answer: the context was gone.\<close>

lemma im_posted_drop_ok:
  assumes ok: "im_ok (m, ws)" and n: "n < length (im_posted m)"
    and dead: "\<not> ic_alive (im_contexts m (im_posted m ! n))"
  shows "im_ok (m\<lparr>im_posted := take_nth n (im_posted m)\<rparr>, ws)"
proof -
  note okD = im_okD [OF ok]
  have st: "set (take_nth n (im_posted m)) = set (im_posted m) - {im_posted m ! n}"
    "distinct (take_nth n (im_posted m))"
    using set_take_nth [OF _ n] okD(2) by (auto simp: im_posted_ok_def)
  have "im_posted_ok (m\<lparr>im_posted := take_nth n (im_posted m)\<rparr>)"
    using okD(2) dead unfolding im_posted_ok_def by (auto simp: st)
  moreover have "im_writes_ok (m\<lparr>im_posted := take_nth n (im_posted m)\<rparr>) ws"
    using okD(3) by (simp add: im_writes_ok_def im_write_ok_def)
  ultimately show ?thesis using okD(1,4) by (simp add: im_ok_def im_registered_ok_def)
qed

text \<open>The lambda of a living context has run: the context is erased, a value is written.\<close>

definition im_answered :: "InManager \<Rightarrow> nat \<Rightarrow> size_t \<Rightarrow> InManager" where
  "im_answered m n rid =
     m\<lparr>im_posted := take_nth n (im_posted m),
       im_contexts := (im_contexts m)(im_posted m ! n := (im_contexts m (im_posted m ! n))\<lparr>ic_alive := False\<rparr>),
       im_registeredContexts := (im_registeredContexts m)(rid := None)\<rparr>"

lemma im_answered_ok:
  assumes ok: "im_ok (m, ws)" and n: "n < length (im_posted m)" and a: "im_posted m ! n = a"
    and alive: "ic_alive (im_contexts m a)" and rid: "ic_responseId (im_contexts m a) = Some rid"
    and new: "ic_promise (im_contexts m a) = Broken \<and> new = [] \<or>
      (\<exists>x. ic_promise (im_contexts m a) = Fulfilled x \<and>
           new = [\<lparr>pw_frame = response_frame_of rid (answer_response x), pw_callback = a\<rparr>])"
  shows "im_ok (im_answered m n rid, ws @ new)"
proof -
  let ?m = "im_answered m n rid"
  note okD = im_okD [OF ok]
  have an: "a < im_nextContext m" using okD(2) n a by (auto simp: im_posted_ok_def)
  have st: "set (im_posted ?m) = set (im_posted m) - {a}" "distinct (im_posted ?m)"
    using set_take_nth [OF _ n] okD(2) a by (auto simp: im_posted_ok_def im_answered_def)
  have C: "im_contexts ?m b = (if b = a then (im_contexts m a)\<lparr>ic_alive := False\<rparr> else im_contexts m b)" for b
    by (simp add: im_answered_def a)
  have eqs: "im_nextContext ?m = im_nextContext m" "im_alive ?m = im_alive m"
    "im_registeredContexts ?m = (im_registeredContexts m)(rid := None)"
    by (simp_all add: im_answered_def)
  have reg: "im_registeredContexts m rid = Some a"
    using okD(1) an alive rid by (force simp: im_registered_ok_def)
  have uniq: "k = rid" if "im_registeredContexts m k = Some a" for k
    using okD(1) that rid by (force simp: im_registered_ok_def)
  have notw: "a \<notin> pw_callback ` set ws" using okD(3) alive by (auto simp: im_writes_ok_def)
  have newcb: "pw_callback ` set new \<subseteq> {a}" "distinct (map pw_callback new)"
    using new by auto
  have "im_registered_ok ?m"
    unfolding im_registered_ok_def
  proof (intro conjI allI impI)
    fix k b
    assume k: "im_registeredContexts ?m k = Some b"
    then have kb: "k \<noteq> rid" "im_registeredContexts m k = Some b" by (auto simp: eqs split: if_splits)
    then have "b \<noteq> a" using uniq by blast
    moreover have "b < im_nextContext m \<and> ic_alive (im_contexts m b) \<and> ic_responseId (im_contexts m b) = Some k"
      using okD(1) kb(2) by (simp add: im_registered_ok_def)
    ultimately show "b < im_nextContext ?m" "ic_alive (im_contexts ?m b)" "ic_responseId (im_contexts ?m b) = Some k"
      by (simp_all add: eqs C)
  next
    fix b
    assume "b < im_nextContext ?m" "ic_alive (im_contexts ?m b)"
    then have b: "b < im_nextContext m" "b \<noteq> a" "ic_alive (im_contexts m b)"
      by (auto simp: eqs C split: if_splits)
    then obtain k where "im_registeredContexts m k = Some b"
      using okD(1) unfolding im_registered_ok_def by blast
    then show "\<exists>k. im_registeredContexts ?m k = Some b"
      using reg b(2) by (intro exI [of _ k]) (auto simp: eqs)
  qed
  moreover have "im_posted_ok ?m"
    using okD(2) unfolding im_posted_ok_def eqs C st(1) by (auto simp: st(2))
  moreover have "im_writes_ok ?m (ws @ new)"
  proof -
    have old: "im_write_ok ?m w \<and> \<not> ic_alive (im_contexts ?m (pw_callback w))" if "w \<in> set ws" for w
    proof -
      have "im_write_ok m w" "\<not> ic_alive (im_contexts m (pw_callback w))"
        using okD(3) that by (simp_all add: im_writes_ok_def)
      then show ?thesis using C eqs by (auto intro: im_write_ok_other [of m w])
    qed
    have new': "im_write_ok ?m w \<and> \<not> ic_alive (im_contexts ?m (pw_callback w))" if "w \<in> set new" for w
    proof -
      have "\<exists>x. ic_promise (im_contexts m a) = Fulfilled x \<and> pw_callback w = a \<and>
          pw_frame w = response_frame_of rid (answer_response x)"
        using new that by fastforce
      then show ?thesis using an rid by (auto simp: im_write_ok_def C eqs)
    qed
    have compl: "ic_alive (im_contexts ?m b) \<or> ic_promise (im_contexts ?m b) = Broken \<or>
        b \<in> pw_callback ` set (ws @ new)"
      if "b < im_nextContext m" "im_alive m" "ic_responseId (im_contexts ?m b) \<noteq> None" for b
    proof (cases "b = a")
      case True
      then show ?thesis using new by (auto simp: C)
    next
      case False
      then show ?thesis using okD(3) that by (auto simp: im_writes_ok_def C)
    qed
    have "distinct (map pw_callback (ws @ new))"
      using okD(3) newcb notw by (auto simp: im_writes_ok_def)
    then show ?thesis using old new' compl eqs by (auto simp: im_writes_ok_def)
  qed
  ultimately show ?thesis using okD(4) by (simp add: im_ok_def eqs)
qed

lemma im_runPosted_ok:
  assumes ok: "im_ok (m, ws)"
  shows "im_ok (fst (im_runPosted n m), ws @ snd (im_runPosted n m))"
proof (cases "n < length (im_posted m)")
  case False
  then show ?thesis using ok by (simp add: im_runPosted_eq)
next
  case n: True
  note okD = im_okD [OF ok]
  define a where "a = im_posted m ! n"
  have an: "a < im_nextContext m" "ic_promise (im_contexts m a) \<noteq> NotSet"
    using okD(2) n by (auto simp: im_posted_ok_def a_def)
  show ?thesis
  proof (cases "ic_alive (im_contexts m a)")
    case False
    then show ?thesis
      using im_posted_drop_ok [OF ok n] n by (simp add: im_runPosted_eq Let_def a_def)
  next
    case alive: True
    then obtain rid where reg: "im_registeredContexts m rid = Some a"
      and rid: "ic_responseId (im_contexts m a) = Some rid"
      using okD(1) an(1) by (fastforce simp: im_registered_ok_def)
    have ma: "im_alive m" using okD(4) reg by (cases "im_alive m") auto
    have er: "im_erase rid (m\<lparr>im_posted := take_nth n (im_posted m)\<rparr>) = im_answered m n rid"
      using reg by (simp add: im_erase_def im_answered_def im_update_context_def flip: a_def)
    show ?thesis
    proof (cases "ic_promise (im_contexts m a)")
      case (Fulfilled x)
      have "im_runPosted n m = (im_answered m n rid,
          [\<lparr>pw_frame = response_frame_of rid (answer_response x), pw_callback = a\<rparr>])"
        using n alive rid ma Fulfilled er
        by (simp add: im_runPosted_eq Let_def im_onResponseRecieved_def flip: a_def)
      then show ?thesis
        using im_answered_ok [OF ok n a_def [symmetric] alive rid] Fulfilled by simp
    next
      case Broken
      have "im_runPosted n m = (im_answered m n rid, [])"
        using n alive rid ma Broken er
        by (simp add: im_runPosted_eq Let_def im_onInvalidResponseRecieved_def flip: a_def)
      then show ?thesis
        using im_answered_ok [OF ok n a_def [symmetric] alive rid, of "[]"] Broken by simp
    qed (use an in simp)
  qed
qed

lemma InManager_dtor_ok: "im_ok (m, ws) \<Longrightarrow> im_ok (InManager_dtor m, ws)"
  by (auto simp: im_ok_def InManager_dtor_def im_registered_ok_def im_posted_ok_def im_writes_ok_def
      im_write_ok_def)

lemma im_log_step_ok:
  assumes "im_ok c"
  shows "im_ok (im_log_step c ev)"
proof (cases c)
  case (Pair m ws)
  then have ok: "im_ok (m, ws)" using assms by simp
  show ?thesis
  proof (cases ev)
    case (IM_SetPromise a v)
    then show ?thesis
      using im_setPromise_ok [OF ok, of a v] ok by (auto simp: im_log_step_def Pair split: sum.split)
  next
    case (IM_RunPosted n)
    then show ?thesis
      using im_runPosted_ok [OF ok, of n] by (simp add: im_log_step_def Pair case_prod_beta)
  qed (simp_all add: im_log_step_def Pair ok im_request_ok InManager_dtor_ok)
qed

lemma im_ok_init: "im_ok (InManager_create, [])"
  by (simp add: im_ok_def InManager_create_def im_registered_ok_def im_posted_ok_def im_writes_ok_def)

interpretation incoming: step_machine im_log_step "(InManager_create, [])" im_ok
  by unfold_locales (simp_all add: im_ok_init im_log_step_ok)


section \<open>Properties\<close>

abbreviation im_run :: "im_event list \<Rightarrow> InManager \<times> PendingWrite list" where
  "im_run evs \<equiv> run_steps im_log_step (InManager_create, []) evs"

text \<open>
C28: A request is answered at most once and only with what its handler gave: after any run,
no two response frames come from the same context, and each is the frame of the value its
promise was set to, under the id its request came with. A request whose promise is abandoned
is not answered.
\<close>

theorem incoming_answered_at_most_once:
  "let (m, ws) = im_run evs
   in distinct (map pw_callback ws) \<and>
      list_all (\<lambda>w. \<exists>rid x. ic_responseId (im_contexts m (pw_callback w)) = Some rid \<and>
                         ic_promise (im_contexts m (pw_callback w)) = Fulfilled x \<and>
                         pw_frame w = response_frame_of rid (answer_response x)) ws"
  using incoming.inv_run [of evs]
  by (auto simp: im_ok_def im_writes_ok_def im_write_ok_def case_prod_beta list_all_iff)

text \<open>
A request is answered: as long as the manager lives, a registered request whose promise
has been given a value and whose posted lambdas have all run has its response frame among
the writes.
\<close>

theorem incoming_answered:
  assumes "im_run evs = (m, ws)" and "im_alive m" and "im_posted m = []"
    and "a < im_nextContext m" and "ic_responseId (im_contexts m a) = Some rid"
    and "ic_promise (im_contexts m a) = Fulfilled x"
  shows "\<exists>w \<in> set ws. pw_callback w = a \<and> pw_frame w = response_frame_of rid (answer_response x)"
proof -
  have ok: "im_ok (m, ws)" using incoming.inv_run [of evs] assms(1) by simp
  note okD = im_okD [OF ok]
  have "\<not> ic_alive (im_contexts m a)"
    using okD(2) assms(3,4,6) by (auto simp: im_posted_ok_def)
  then obtain w where w: "w \<in> set ws" "pw_callback w = a"
    using okD(3) assms(2,4,5,6) by (force simp: im_writes_ok_def)
  have "im_write_ok m w" using okD(3) w(1) by (simp add: im_writes_ok_def)
  then show ?thesis using w assms(5,6) by (auto simp: im_write_ok_def)
qed

theorem incoming_answered_witness:
  "\<exists>m ws. im_run [IM_Request 4, IM_SetPromise 0 (Some (A_Ping 6)), IM_RunPosted 0] = (m, ws) \<and>
     (\<exists>w \<in> set ws. pw_frame w = response_frame_of 4 (Resp_Pong (Response_Pong_create 6)))"
proof -
  let ?evs = "[IM_Request 4, IM_SetPromise 0 (Some (A_Ping 6)), IM_RunPosted 0]"
  note d = im_log_step_def InManager_create_def im_request_eq InContext_create_def im_setPromise_eq
    im_update_context_def im_runPosted_eq take_nth_def im_onResponseRecieved_def im_erase_def
  obtain m ws where r: "im_run ?evs = (m, ws)" and m: "im_alive m" "im_posted m = []"
    "0 < im_nextContext m" "ic_responseId (im_contexts m 0) = Some 4"
    "ic_promise (im_contexts m 0) = Fulfilled (A_Ping 6)"
    by (simp add: d)
  from incoming_answered [OF r m] r show ?thesis by auto
qed

text \<open>
A request id that is still being answered is not registered again: the second request's
context is dropped and can never write, and the first one stays registered.
\<close>

theorem duplicate_request_id_dropped:
  assumes "im_registeredContexts m rid = Some a"
  shows "let (b, m') = im_request rid m
         in b = im_nextContext m \<and> \<not> ic_alive (im_contexts m' b) \<and> ic_responseId (im_contexts m' b) = None \<and>
            im_registeredContexts m' = im_registeredContexts m"
  using assms by (simp add: im_request_eq InContext_create_def)

theorem duplicate_request_id_dropped_witness:
  "\<not> ic_alive (im_contexts (snd (im_request 4 (snd (im_request 4 InManager_create)))) 1)"
proof -
  have "im_registeredContexts (snd (im_request 4 InManager_create)) 4 = Some 0"
    by (simp add: im_request_eq InManager_create_def)
  moreover have "im_nextContext (snd (im_request 4 InManager_create)) = 1"
    by (simp add: im_request_eq InManager_create_def)
  ultimately show ?thesis
    using duplicate_request_id_dropped [of "snd (im_request 4 InManager_create)" 4 0]
    by (auto simp: case_prod_beta)
qed

end
