(* ===== verification/Endpoint.thy ===== *)
theory Endpoint
  imports IncomingRequestsManager
begin

text \<open>
  libs/proto/src/endpoint.cpp and libs/constants: one end of a connection. An endpoint owns
  a socket wrapper and the two request managers, which are both connected to the socket's
  signals: a frame goes to the incoming manager first, then to the outcoming one, in the
  order in which the implementation's constructor creates them.

  \<open>ep_posted\<close> are the lambdas that \<^verbatim>\<open>writeFrame\<close> posted and that have not run yet. The
  slots of the program that react to the endpoint's signals are outside the endpoint: a
  signal is an output of the step, and the value a handler gives its promise comes back as
  an event.
\<close>

section \<open>Constants and the artificial delay\<close>

definition kOutcomingRequestTimeout :: duration_ms where
  "kOutcomingRequestTimeout = 1500"

definition kArtificialSendDelayBounds :: "duration_ms \<times> duration_ms" where
  "kArtificialSendDelayBounds = (1000, 2000)"

definition kMasterReconnectTimeout :: duration_ms where
  "kMasterReconnectTimeout = 3000"

text \<open>
  \<open>draw lo hi\<close> is what \<^verbatim>\<open>std::uniform_int_distribution\<close> makes of the engine's next value; a
  distribution requires \<open>lo \<le> hi\<close> and returns a value between them.
\<close>

type_synonym distribution = "duration_ms \<Rightarrow> duration_ms \<Rightarrow> duration_ms"

definition uniform_distribution :: "distribution \<Rightarrow> bool" where
  "uniform_distribution draw \<longleftrightarrow> (\<forall>lo hi. lo \<le> hi \<longrightarrow> lo \<le> draw lo hi \<and> draw lo hi \<le> hi)"

section \<open>State\<close>

record Endpoint =
  ep_alive :: bool
  ep_artificialSendDelayBounds :: "duration_ms \<times> duration_ms"
  ep_socketWrapper :: SocketWrapper
  ep_posted :: "PendingWrite list"
  ep_incoming :: InManager
  ep_outcoming :: OutManager

datatype incoming_request =
    Incoming_addMessage size_t string nat
  | Incoming_getMessages size_t nat
  | Incoming_ping timestamp nat
  | Incoming_secondaryNodeReady string nat

text \<open>The number in an incoming request names the promise its handler is given.\<close>

datatype ep_output =
    EP_Incoming incoming_request
  | EP_Invalidated
  | EP_Sock sock_out

text \<open>The constructor, which builds \<^verbatim>\<open>impl_t\<close>, and \<^verbatim>\<open>create\<close>, which puts the bounds in order first.\<close>

definition Endpoint_ctor :: "duration_ms \<Rightarrow> duration_ms \<times> duration_ms \<Rightarrow> Endpoint" where
  [simp]: "Endpoint_ctor responseTimeout bounds =
     \<lparr>ep_alive = True, ep_artificialSendDelayBounds = bounds,
      ep_socketWrapper = SocketWrapper_create, ep_posted = [], ep_incoming = InManager_create,
      ep_outcoming = OutManager_create responseTimeout\<rparr>"

definition Endpoint_create :: "duration_ms \<Rightarrow> duration_ms \<times> duration_ms \<Rightarrow> Endpoint" where
  "Endpoint_create outcomingRequestTimeout artificialSendDelayBounds =
     (let bounds = (if fst artificialSendDelayBounds > snd artificialSendDelayBounds
                    then (snd artificialSendDelayBounds, fst artificialSendDelayBounds)
                    else artificialSendDelayBounds)
      in Endpoint_ctor outcomingRequestTimeout bounds)"

definition chooseSendDelay :: "distribution \<Rightarrow> Endpoint \<Rightarrow> duration_ms" where
  "chooseSendDelay draw e =
     draw (fst (ep_artificialSendDelayBounds e)) (snd (ep_artificialSendDelayBounds e))"

definition Endpoint_run :: "Endpoint \<Rightarrow> Endpoint" where
  "Endpoint_run e = e\<lparr>ep_socketWrapper := SocketWrapper_run (ep_socketWrapper e)\<rparr>"

section \<open>Outcoming requests\<close>

text \<open>The result is the number of the context whose future is returned.\<close>

definition ep_sendRequest ::
    "Request \<Rightarrow> ctx_kind \<Rightarrow> duration_ms \<Rightarrow> Endpoint \<Rightarrow> nat \<times> Endpoint" where
  "ep_sendRequest request k artificialDelay e =
     (om_nextContext (ep_outcoming e),
      e\<lparr>ep_outcoming := sendRequest request k artificialDelay (ep_outcoming e)\<rparr>)"

definition send_addMessage :: "distribution \<Rightarrow> size_t \<Rightarrow> string \<Rightarrow> Endpoint \<Rightarrow> nat \<times> Endpoint" where
  "send_addMessage draw msgId msg e =
     ep_sendRequest (Req_AddMessage (Request_AddMessage_create msgId msg)) K_AddMessage
       (chooseSendDelay draw e) e"

definition send_getMessages :: "distribution \<Rightarrow> size_t \<Rightarrow> Endpoint \<Rightarrow> nat \<times> Endpoint" where
  "send_getMessages draw startMsgId e =
     ep_sendRequest (Req_GetMessages (Request_GetMessages_create startMsgId)) K_GetMessages
       (chooseSendDelay draw e) e"

definition send_ping :: "distribution \<Rightarrow> timestamp \<Rightarrow> Endpoint \<Rightarrow> nat \<times> Endpoint" where
  "send_ping draw pingTimestamp e =
     ep_sendRequest (Req_Ping (Request_Ping_create pingTimestamp)) K_Ping (chooseSendDelay draw e) e"

definition send_secondaryNodeReady :: "distribution \<Rightarrow> string \<Rightarrow> Endpoint \<Rightarrow> nat \<times> Endpoint" where
  "send_secondaryNodeReady draw secondaryName e =
     ep_sendRequest (Req_SecondaryNodeReady (Request_SecondaryNodeReady_create secondaryName))
       K_SecondaryNodeReady (chooseSendDelay draw e) e"

section \<open>Incoming requests\<close>

text \<open>
  The slot of \<^verbatim>\<open>incomingRequestFrame\<close>: read the payload with the class of the operation
  code, register a context, emit the signal. A payload that does not parse is dropped.
\<close>

definition ep_register :: "size_t \<Rightarrow> Endpoint \<Rightarrow> nat \<times> Endpoint" where
  "ep_register requestId e =
     (let (promise, im) = im_request requestId (ep_incoming e)
      in (promise, e\<lparr>ep_incoming := im\<rparr>))"

definition onIncomingRequestFrame :: "RequestFrame \<Rightarrow> Endpoint \<Rightarrow> Endpoint \<times> ep_output list" where
  "onIncomingRequestFrame requestFrame e =
     (case rf_opCode requestFrame of
        ADD_MESSAGE \<Rightarrow>
          (case Request_AddMessage_fromPayload (rf_payload requestFrame) of
             None \<Rightarrow> (e, [])
           | Some request \<Rightarrow>
               (let (promise, e') = ep_register (rf_requestId requestFrame) e;
                    msgId = ram_messageId request;
                    (msg, _) = Request_AddMessage_flushMessage request
                in (e', [EP_Incoming (Incoming_addMessage msgId msg promise)])))
      | GET_MESSAGES \<Rightarrow>
          (case Request_GetMessages_fromPayload (rf_payload requestFrame) of
             None \<Rightarrow> (e, [])
           | Some request \<Rightarrow>
               (let (promise, e') = ep_register (rf_requestId requestFrame) e
                in (e', [EP_Incoming (Incoming_getMessages (rgm_startMessageId request) promise)])))
      | PING_PONG \<Rightarrow>
          (case Request_Ping_fromPayload (rf_payload requestFrame) of
             None \<Rightarrow> (e, [])
           | Some request \<Rightarrow>
               (let (promise, e') = ep_register (rf_requestId requestFrame) e
                in (e', [EP_Incoming (Incoming_ping (rp_timestamp request) promise)])))
      | SECONDARY_NODE_READY \<Rightarrow>
          (case Request_SecondaryNodeReady_fromPayload (rf_payload requestFrame) of
             None \<Rightarrow> (e, [])
           | Some request \<Rightarrow>
               (let (promise, e') = ep_register (rf_requestId requestFrame) e;
                    (name, _) = Request_SecondaryNodeReady_flushSecondaryNodeName request
                in (e', [EP_Incoming (Incoming_secondaryNodeReady name promise)]))))"

section \<open>The signals of the socket\<close>

definition ep_onIncomingFrame ::
    "(nat \<Rightarrow> bool) \<Rightarrow> const_buffer \<Rightarrow> Endpoint \<Rightarrow> cpp_exception + Endpoint \<times> ep_output list" where
  "ep_onIncomingFrame alloc frame e =
     (let (e1, out) = (case im_onIncomingFrame frame of
                         None \<Rightarrow> (e, []) | Some f \<Rightarrow> onIncomingRequestFrame f e)
      in case om_onIncomingFrame alloc frame (ep_outcoming e1) of
           Inl x \<Rightarrow> Inl x
         | Inr om \<Rightarrow> Inr (e1\<lparr>ep_outcoming := om\<rparr>, out))"

definition ep_onInvalidated :: "Endpoint \<Rightarrow> cpp_exception + Endpoint \<times> ep_output list" where
  "ep_onInvalidated e =
     (case invalidateAllPendingRequests PEER_DISCONNECTED (ep_outcoming e) of
        Inl x \<Rightarrow> Inl x
      | Inr om \<Rightarrow> Inr (e\<lparr>ep_outcoming := om\<rparr>, [EP_Invalidated]))"

text \<open>
  The effects of the socket wrapper in order: its signals run the slots of the endpoint, if
  it lives; everything else goes to the outside.
\<close>

fun ep_socket_outputs ::
    "(nat \<Rightarrow> bool) \<Rightarrow> sock_out list \<Rightarrow> Endpoint \<Rightarrow> cpp_exception + Endpoint \<times> ep_output list" where
  "ep_socket_outputs alloc [] e = Inr (e, [])"
| "ep_socket_outputs alloc (x # xs) e =
     (case (case x of
              Emit_incomingFrame frame \<Rightarrow> if ep_alive e then ep_onIncomingFrame alloc frame e else Inr (e, [])
            | Emit_invalidated \<Rightarrow> if ep_alive e then ep_onInvalidated e else Inr (e, [])
            | _ \<Rightarrow> Inr (e, [EP_Sock x])) of
        Inl err \<Rightarrow> Inl err
      | Inr (e1, out1) \<Rightarrow>
          (case ep_socket_outputs alloc xs e1 of
             Inl err \<Rightarrow> Inl err
           | Inr (e2, out2) \<Rightarrow> Inr (e2, out1 @ out2)))"

definition ep_socket_step ::
    "(nat \<Rightarrow> bool) \<Rightarrow> Endpoint \<Rightarrow> sock_event \<Rightarrow> cpp_exception + Endpoint \<times> ep_output list" where
  "ep_socket_step alloc e ev =
     (let (s, out) = sw_step alloc (ep_socketWrapper e) ev
      in ep_socket_outputs alloc out (e\<lparr>ep_socketWrapper := s\<rparr>))"

section \<open>Destruction\<close>

text \<open>The members go in reverse order of their declaration.\<close>

definition Endpoint_dtor :: "Endpoint \<Rightarrow> cpp_exception + Endpoint \<times> ep_output list" where
  "Endpoint_dtor e =
     (case OutManager_dtor (ep_outcoming e) of
        Inl x \<Rightarrow> Inl x
      | Inr om \<Rightarrow>
          (let (s, out) = SocketWrapper_dtor (ep_socketWrapper e)
           in Inr (e\<lparr>ep_alive := False, ep_outcoming := om,
                     ep_incoming := InManager_dtor (ep_incoming e), ep_socketWrapper := s\<rparr>,
                   map EP_Sock out)))"

section \<open>Events\<close>

datatype ep_event =
    EP_Run
  | EP_SendRequest Request ctx_kind duration_ms
  | EP_RunSend nat
  | EP_DelayExpired nat
  | EP_TimerExpired nat bool
  | EP_SetPromise nat "answer option"
  | EP_RunAnswer nat
  | EP_RunWrite nat
  | EP_Written bool
  | EP_FrameSizeRead "byte list option"
  | EP_FrameRead "byte list option"
  | EP_Destroy

definition ep_out_result ::
    "Endpoint \<Rightarrow> cpp_exception + OutManager \<times> PendingWrite list \<Rightarrow> cpp_exception + Endpoint \<times> ep_output list" where
  "ep_out_result e r =
     (case r of
        Inl x \<Rightarrow> Inl x
      | Inr (om, ws) \<Rightarrow> Inr (e\<lparr>ep_outcoming := om, ep_posted := ep_posted e @ ws\<rparr>, []))"

fun ep_step ::
    "(nat \<Rightarrow> bool) \<Rightarrow> Endpoint \<Rightarrow> ep_event \<Rightarrow> cpp_exception + Endpoint \<times> ep_output list" where
  "ep_step alloc e EP_Run =
     (if ep_alive e \<and> sw_reading (ep_socketWrapper e) = NoRead then Inr (Endpoint_run e, []) else Inr (e, []))"
| "ep_step alloc e (EP_SendRequest request k d) =
     (if ep_alive e then Inr (snd (ep_sendRequest request k d e), []) else Inr (e, []))"
| "ep_step alloc e (EP_RunSend n) = ep_out_result e (om_step alloc (ep_outcoming e) (OM_RunPosted n))"
| "ep_step alloc e (EP_DelayExpired n) =
     ep_out_result e (om_step alloc (ep_outcoming e)
       (OM_DelayExpired n (sw_wasInvalidated (ep_socketWrapper e))))"
| "ep_step alloc e (EP_TimerExpired n late) =
     ep_out_result e (om_step alloc (ep_outcoming e) (OM_TimerExpired n late))"
| "ep_step alloc e (EP_SetPromise a v) =
     (case im_setPromise a v (ep_incoming e) of
        Inl x \<Rightarrow> Inr (e, [])
      | Inr im \<Rightarrow> Inr (e\<lparr>ep_incoming := im\<rparr>, []))"
| "ep_step alloc e (EP_RunAnswer n) =
     (let (im, ws) = im_runPosted n (ep_incoming e)
      in Inr (e\<lparr>ep_incoming := im, ep_posted := ep_posted e @ ws\<rparr>, []))"
| "ep_step alloc e (EP_RunWrite n) =
     (if length (ep_posted e) \<le> n then Inr (e, [])
      else ep_socket_step alloc (e\<lparr>ep_posted := take_nth n (ep_posted e)\<rparr>) (WriteFrame (ep_posted e ! n)))"
| "ep_step alloc e (EP_Written ec) = ep_socket_step alloc e (Written ec)"
| "ep_step alloc e (EP_FrameSizeRead r) = ep_socket_step alloc e (FrameSizeRead r)"
| "ep_step alloc e (EP_FrameRead r) = ep_socket_step alloc e (FrameRead r)"
| "ep_step alloc e EP_Destroy = (if ep_alive e then Endpoint_dtor e else Inr (e, []))"

definition ep_run_step ::
    "(nat \<Rightarrow> bool) \<Rightarrow> cpp_exception + Endpoint \<Rightarrow> ep_event \<Rightarrow> cpp_exception + Endpoint" where
  "ep_run_step alloc r ev =
     (case r of Inl x \<Rightarrow> Inl x
      | Inr e \<Rightarrow> (case ep_step alloc e ev of Inl x \<Rightarrow> Inl x | Inr (e', _) \<Rightarrow> Inr e'))"

section \<open>The invariant\<close>

text \<open>The invariants of the three members, for some log of what each has done so far.\<close>

definition ep_ok :: "Endpoint \<Rightarrow> bool" where
  "ep_ok e \<longleftrightarrow>
     om_ok (ep_outcoming e) \<and>
     (\<exists>ws. im_ok (ep_incoming e, ws)) \<and>
     (\<exists>log. sw_ok (ep_socketWrapper e, log)) \<and>
     (ep_alive e \<longrightarrow> im_alive (ep_incoming e) \<and> om_alive (ep_outcoming e) \<and> sw_alive (ep_socketWrapper e))"

definition ep_good :: "cpp_exception + Endpoint \<times> ep_output list \<Rightarrow> bool" where
  "ep_good r \<longleftrightarrow> (case r of Inl x \<Rightarrow> x = LengthError \<or> x = BadAlloc | Inr (e, _) \<Rightarrow> ep_ok e)"

lemma ep_good_simps [simp]:
  "ep_good (Inl x) \<longleftrightarrow> x = LengthError \<or> x = BadAlloc" "ep_good (Inr (e, out)) \<longleftrightarrow> ep_ok e"
  by (simp_all add: ep_good_def)

lemma ep_okI_incoming:
  assumes "ep_ok e" "im_ok (m, ws)" "im_alive m = im_alive (ep_incoming e)"
  shows "ep_ok (e\<lparr>ep_incoming := m\<rparr>)"
  using assms by (auto simp: ep_ok_def)

lemma ep_okI_outcoming:
  assumes "ep_ok e" "om_ok m" "om_alive m = om_alive (ep_outcoming e)"
  shows "ep_ok (e\<lparr>ep_outcoming := m\<rparr>)"
  using assms by (auto simp: ep_ok_def)

lemma ep_ok_posted [simp]: "ep_ok (e\<lparr>ep_posted := ws\<rparr>) = ep_ok e"
  by (simp add: ep_ok_def)

lemma im_request_alive: "im_alive (snd (im_request rid m)) = im_alive m"
  by (simp add: im_request_eq split: option.split)

lemma ep_register_ok [inv_steps]:
  assumes "ep_ok e" "ep_alive e"
  shows "ep_ok (snd (ep_register rid e))" "ep_alive (snd (ep_register rid e))"
proof -
  from assms obtain ws where "im_ok (ep_incoming e, ws)" "im_alive (ep_incoming e)"
    by (auto simp: ep_ok_def)
  then have "im_ok (snd (im_request rid (ep_incoming e)), ws)" by (rule im_request_ok)
  then show "ep_ok (snd (ep_register rid e))"
    using ep_okI_incoming [OF assms(1)] im_request_alive by (simp add: ep_register_def case_prod_beta)
  show "ep_alive (snd (ep_register rid e))"
    using assms(2) by (simp add: ep_register_def case_prod_beta)
qed

lemma onIncomingRequestFrame_ok [inv_steps]:
  assumes "ep_ok e" "ep_alive e"
  shows "ep_ok (fst (onIncomingRequestFrame f e))" "ep_alive (fst (onIncomingRequestFrame f e))"
  using assms ep_register_ok [OF assms]
  by (auto simp: onIncomingRequestFrame_def case_prod_beta Let_def split: OpCode.split option.split)

text \<open>The operations of the outcoming manager keep it alive, its destructor apart.\<close>

lemma om_alive_step:
  assumes "om_step alloc m ev = Inr (m', ws)" "ev \<noteq> OM_Destroy"
  shows "om_alive m' = om_alive m"
proof -
  have c: "om_alive m2 = om_alive m1"
    if "om_context_invalidate reason a m1 = Inr m2 \<or> om_context_response alloc p a m1 = Inr m2" for reason a m1 m2 p
    using that by (auto simp: om_context_invalidate_def om_context_response_def om_set_context_def split: sum.splits)
  have t: "om_alive (timeoutTimer_cancel a m1) = om_alive m1" for a m1
    by (simp add: timeoutTimer_cancel_def)
  have i: "om_alive m2 = om_alive m1" if "invalidatePendingRequest rid reason m1 = Inr m2" for rid reason m1 m2
    using that c t by (fastforce simp: invalidatePendingRequest_def split: option.splits sum.splits)
  have r: "om_alive m2 = om_alive m1" if "om_onResponseRecieved alloc rid p m1 = Inr m2" for rid p m1 m2
    using that c t by (fastforce simp: om_onResponseRecieved_def split: option.splits sum.splits)
  have cs: "om_alive m2 = om_alive m1" if "invalidateContexts reason as m1 = Inr m2" for reason as m1 m2
    using that
  proof (induction as arbitrary: m1)
    case (Cons a as)
    then obtain m3 where "om_context_invalidate reason a (timeoutTimer_cancel a m1) = Inr m3"
      "invalidateContexts reason as m3 = Inr m2" by (auto split: sum.splits)
    then show ?case using Cons.IH c t by metis
  qed simp
  show ?thesis
  proof (cases ev)
    case (OM_RunPosted n)
    then show ?thesis
      using assms(1) c
      by (fastforce simp: no_writes_def om_runPosted_def sendRequestImpl_def Let_def
          split: sum.splits if_splits prod.splits option.splits)
  next
    case (OM_DelayExpired n b)
    then show ?thesis
      using assms(1) i
      by (fastforce simp: om_delayExpired_def Let_def split: sum.splits if_splits prod.splits)
  next
    case (OM_TimerExpired n late)
    then show ?thesis
      using assms(1) i
      by (fastforce simp: no_writes_def om_timerExpired_def Let_def split: sum.splits if_splits)
  next
    case (OM_IncomingFrame frame)
    then show ?thesis
      using assms(1) r
      by (fastforce simp: no_writes_def om_onIncomingFrame_def split: sum.splits if_splits option.splits)
  next
    case OM_SocketInvalidated
    then show ?thesis
      using assms(1) cs
      by (fastforce simp: no_writes_def invalidateAllPendingRequests_def split: sum.splits if_splits)
  qed (use assms in \<open>auto simp: sendRequest_def\<close>)
qed

lemma om_step_ok:
  assumes "om_ok m"
  shows "case om_step alloc m ev of Inl x \<Rightarrow> x = LengthError \<or> x = BadAlloc | Inr (m', _) \<Rightarrow> om_ok m'"
  using om_run_step_ok [of "Inr m" alloc ev] assms
  by (cases "om_step alloc m ev") (auto simp: om_run_step_def)

lemma ep_out_result_ok [inv_steps]:
  assumes "ep_ok e" "ev \<noteq> OM_Destroy"
  shows "ep_good (ep_out_result e (om_step alloc (ep_outcoming e) ev))"
proof (cases "om_step alloc (ep_outcoming e) ev")
  case (Inl x)
  then show ?thesis
    using om_step_ok [of "ep_outcoming e" alloc ev] assms by (simp add: ep_out_result_def ep_ok_def)
next
  case (Inr r)
  obtain m ws where r: "r = (m, ws)" by (cases r)
  have "om_ok m" using om_step_ok [of "ep_outcoming e" alloc ev] assms Inr r by (simp add: ep_ok_def)
  then have "ep_ok (e\<lparr>ep_outcoming := m\<rparr>)"
    using ep_okI_outcoming [OF assms(1)] om_alive_step [OF Inr [unfolded r] assms(2)] by simp
  then have "ep_ok ((e\<lparr>ep_outcoming := m\<rparr>)\<lparr>ep_posted := ep_posted e @ ws\<rparr>)" by (simp only: ep_ok_posted)
  then show ?thesis by (simp add: ep_out_result_def Inr r)
qed

lemma ep_onIncomingFrame_ok [inv_steps]:
  assumes "ep_ok e" "ep_alive e"
  shows "ep_good (ep_onIncomingFrame alloc frame e)"
proof -
  define r where "r = (case im_onIncomingFrame frame of
      None \<Rightarrow> (e, []) | Some f \<Rightarrow> onIncomingRequestFrame f e)"
  have e1: "ep_ok (fst r)" "ep_alive (fst r)"
    using assms onIncomingRequestFrame_ok [OF assms] by (auto simp: r_def split: option.split)
  then have alive: "om_alive (ep_outcoming (fst r))" by (simp add: ep_ok_def)
  have "ep_onIncomingFrame alloc frame e =
      (case om_onIncomingFrame alloc frame (ep_outcoming (fst r)) of
         Inl x \<Rightarrow> Inl x | Inr om \<Rightarrow> Inr ((fst r)\<lparr>ep_outcoming := om\<rparr>, snd r))"
    unfolding ep_onIncomingFrame_def r_def case_prod_beta Let_def by simp
  moreover have "om_step alloc (ep_outcoming (fst r)) (OM_IncomingFrame frame) =
      no_writes (om_onIncomingFrame alloc frame (ep_outcoming (fst r)))"
    using alive by simp
  moreover have "ep_good (case om_onIncomingFrame alloc frame (ep_outcoming (fst r)) of
         Inl x \<Rightarrow> Inl x | Inr om \<Rightarrow> Inr ((fst r)\<lparr>ep_outcoming := om\<rparr>, snd r))"
  proof (cases "om_onIncomingFrame alloc frame (ep_outcoming (fst r))")
    case (Inl x)
    then show ?thesis
      using om_step_ok [of "ep_outcoming (fst r)" alloc "OM_IncomingFrame frame"] e1 alive
      by (simp add: ep_ok_def no_writes_def)
  next
    case (Inr m)
    then have st: "om_step alloc (ep_outcoming (fst r)) (OM_IncomingFrame frame) = Inr (m, [])"
      using alive by (simp add: no_writes_def)
    then have "om_ok m"
      using om_step_ok [of "ep_outcoming (fst r)" alloc "OM_IncomingFrame frame"] e1 by (simp add: ep_ok_def)
    then have "ep_ok ((fst r)\<lparr>ep_outcoming := m\<rparr>)"
      using ep_okI_outcoming [OF e1(1)] om_alive_step [OF st] by simp
    then show ?thesis by (simp add: Inr)
  qed
  ultimately show ?thesis by simp
qed

lemma ep_onInvalidated_ok [inv_steps]:
  assumes "ep_ok e" "ep_alive e"
  shows "ep_good (ep_onInvalidated e)"
proof -
  have ok: "om_ok (ep_outcoming e)" "om_alive (ep_outcoming e)" using assms by (simp_all add: ep_ok_def)
  obtain m where m: "invalidateAllPendingRequests PEER_DISCONNECTED (ep_outcoming e) = Inr m"
    using invalidateAll_resolves [OF ok(1)] by blast
  have st: "om_step (\<lambda>_. True) (ep_outcoming e) OM_SocketInvalidated = Inr (m, [])"
    using ok(2) m by (simp add: no_writes_def)
  have "om_ok m" using invalidateAll_ok [OF ok(1), of PEER_DISCONNECTED] m by simp
  then have "ep_ok (e\<lparr>ep_outcoming := m\<rparr>)"
    using ep_okI_outcoming [OF assms(1)] om_alive_step [OF st] by simp
  then show ?thesis by (simp add: ep_onInvalidated_def m)
qed

lemma ep_alive_slots:
  "ep_onIncomingFrame alloc frame e = Inr (e', out) \<Longrightarrow> ep_alive e' = ep_alive e"
  "ep_onInvalidated e = Inr (e', out) \<Longrightarrow> ep_alive e' = ep_alive e"
  by (auto simp: ep_onIncomingFrame_def ep_onInvalidated_def onIncomingRequestFrame_def ep_register_def
      Let_def case_prod_beta split: sum.splits option.splits OpCode.splits)

lemma ep_socket_outputs_ok [inv_steps]:
  "ep_ok e \<Longrightarrow> ep_good (ep_socket_outputs alloc out e)"
proof (induction out arbitrary: e)
  case Nil
  then show ?case by simp
next
  case (Cons x xs)
  let ?r = "case x of
      Emit_incomingFrame frame \<Rightarrow> if ep_alive e then ep_onIncomingFrame alloc frame e else Inr (e, [])
    | Emit_invalidated \<Rightarrow> if ep_alive e then ep_onInvalidated e else Inr (e, [])
    | _ \<Rightarrow> Inr (e, [EP_Sock x])"
  have g: "ep_good ?r"
    using Cons.prems by (cases x) (simp_all add: ep_onIncomingFrame_ok ep_onInvalidated_ok)
  show ?case
  proof (cases ?r)
    case (Inl err)
    then show ?thesis using g by simp
  next
    case (Inr p)
    obtain e1 out1 where p: "p = (e1, out1)" by (cases p)
    then have "ep_good (ep_socket_outputs alloc xs e1)" using g Inr Cons.IH by simp
    then show ?thesis
      using Inr p by (simp add: ep_good_def split: sum.splits prod.splits)
  qed
qed

lemma sw_step_alive: "ev \<noteq> Destroy \<Longrightarrow> sw_alive (fst (sw_step alloc s ev)) = sw_alive s"
  by (cases ev)
    (auto simp: readFrameSize_def writeFrame_def onWritten_def onFrameSizeRead_def onFrameRead_def
      readFrame_def SocketWrapper_invalidate_def Let_def case_prod_beta split: option.split)

lemma ep_socket_step_ok [inv_steps]:
  assumes "ep_ok e" "ev \<noteq> Destroy"
  shows "ep_good (ep_socket_step alloc e ev)"
proof -
  obtain log where log: "sw_ok (ep_socketWrapper e, log)" using assms(1) by (auto simp: ep_ok_def)
  define r where "r = sw_step alloc (ep_socketWrapper e) ev"
  have "sw_ok (fst r, log @ snd r)"
    using sw_log_step_ok [OF log, of alloc ev] by (simp add: sw_log_step_def r_def case_prod_beta)
  then have "ep_ok (e\<lparr>ep_socketWrapper := fst r\<rparr>)"
    using assms sw_step_alive [OF assms(2), of alloc] by (auto simp: ep_ok_def r_def)
  then show ?thesis
    by (simp add: ep_socket_step_def case_prod_beta r_def [symmetric] ep_socket_outputs_ok)
qed

lemma Endpoint_dtor_ok [inv_steps]:
  assumes "ep_ok e"
  shows "ep_good (Endpoint_dtor e)"
proof -
  obtain ws log where ok: "om_ok (ep_outcoming e)" "im_ok (ep_incoming e, ws)" "sw_ok (ep_socketWrapper e, log)"
    using assms by (auto simp: ep_ok_def)
  obtain m where m: "invalidateAllPendingRequests PEER_DISCONNECTED (ep_outcoming e) = Inr m"
    using invalidateAll_resolves [OF ok(1)] by blast
  then have dm: "OutManager_dtor (ep_outcoming e) = Inr (m\<lparr>om_alive := False\<rparr>)"
    by (simp add: OutManager_dtor_def)
  then have "om_ok (m\<lparr>om_alive := False\<rparr>)" using OutManager_dtor_ok [OF ok(1)] by simp
  moreover have "sw_ok (fst (SocketWrapper_dtor (ep_socketWrapper e)), log @ snd (SocketWrapper_dtor (ep_socketWrapper e)))"
  proof (cases "sw_alive (ep_socketWrapper e)")
    case True
    then show ?thesis using dtor_ok [OF ok(3)] by simp
  next
    case False
    then have "sw_invalidated (ep_socketWrapper e)" "sw_pendingWrites (ep_socketWrapper e) = []"
      using ok(3) by (auto simp: sw_ok_def sw_flags_ok_def)
    then have "SocketWrapper_dtor (ep_socketWrapper e) = (ep_socketWrapper e, [])"
      using False by (simp add: SocketWrapper_dtor_def checkPendingWrites_def)
    then show ?thesis using ok(3) by simp
  qed
  ultimately show ?thesis
    using InManager_dtor_ok [OF ok(2)]
    by (auto simp: Endpoint_dtor_def dm case_prod_beta ep_ok_def)
qed

lemma ep_step_ok:
  assumes "ep_ok e"
  shows "ep_good (ep_step alloc e ev)"
proof (cases ev)
  case EP_Run
  obtain log where "sw_ok (ep_socketWrapper e, log)" using assms by (auto simp: ep_ok_def)
  then have "sw_ok (readFrameSize (ep_socketWrapper e), log)"
    unfolding readFrameSize_def by (rule sw_ok_frame)
  then have "ep_ok (Endpoint_run e)"
    using assms by (auto simp: ep_ok_def Endpoint_run_def readFrameSize_def)
  then show ?thesis using EP_Run assms by simp
next
  case (EP_SendRequest request k d)
  have "om_ok (sendRequest request k d (ep_outcoming e))" using assms by (simp add: ep_ok_def sendRequest_ok)
  then show ?thesis
    using EP_SendRequest assms by (auto simp: ep_sendRequest_def ep_ok_def sendRequest_def)
next
  case (EP_SetPromise a v)
  obtain ws where ws: "im_ok (ep_incoming e, ws)" using assms by (auto simp: ep_ok_def)
  have "ep_ok (e\<lparr>ep_incoming := m\<rparr>)" if "im_setPromise a v (ep_incoming e) = Inr m" for m
  proof (rule ep_okI_incoming [OF assms im_setPromise_ok [OF ws that]])
    show "im_alive m = im_alive (ep_incoming e)"
      using that by (auto simp: im_setPromise_eq im_update_context_def split: if_splits)
  qed
  then show ?thesis using EP_SetPromise assms by (simp split: sum.split)
next
  case (EP_RunAnswer n)
  obtain ws where ws: "im_ok (ep_incoming e, ws)" using assms by (auto simp: ep_ok_def)
  have "im_alive (fst (im_runPosted n (ep_incoming e))) = im_alive (ep_incoming e)"
    by (auto simp: im_runPosted_eq im_onResponseRecieved_def im_onInvalidResponseRecieved_def im_erase_def
        im_update_context_def Let_def split: option.split in_promise.split)
  then have "ep_ok ((e\<lparr>ep_incoming := fst (im_runPosted n (ep_incoming e))\<rparr>)
      \<lparr>ep_posted := ep_posted e @ snd (im_runPosted n (ep_incoming e))\<rparr>)"
    using ep_okI_incoming [OF assms im_runPosted_ok [OF ws]] by (simp only: ep_ok_posted)
  then show ?thesis using EP_RunAnswer by (simp add: case_prod_beta)
next
  case (EP_RunWrite n)
  have "ep_ok (e\<lparr>ep_posted := take_nth n (ep_posted e)\<rparr>)" using assms by simp
  then show ?thesis using EP_RunWrite assms ep_socket_step_ok by simp
next
  case EP_Destroy
  then show ?thesis using assms Endpoint_dtor_ok by simp
qed (simp_all only: ep_step.simps, (rule ep_out_result_ok ep_socket_step_ok; use assms in simp)+)

lemma ep_ok_create: "ep_ok (Endpoint_create t b)"
  using om_ok_init [of t] im_ok_init sw_ok_init
  by (auto simp: ep_ok_def Endpoint_create_def OutManager_create_def InManager_create_def SocketWrapper_create_def)

definition ep_run_ok :: "cpp_exception + Endpoint \<Rightarrow> bool" where
  "ep_run_ok r \<longleftrightarrow> (case r of Inl x \<Rightarrow> x = LengthError \<or> x = BadAlloc | Inr e \<Rightarrow> ep_ok e)"

interpretation endpoint: step_machine "ep_run_step alloc" "Inr (Endpoint_create t b)" ep_run_ok
  for alloc t b
proof
  show "ep_run_ok (Inr (Endpoint_create t b))" by (simp add: ep_run_ok_def ep_ok_create)
  fix r :: "cpp_exception + Endpoint" and ev
  assume "ep_run_ok r"
  then show "ep_run_ok (ep_run_step alloc r ev)"
    using ep_step_ok [of _ alloc ev]
    by (fastforce simp: ep_run_ok_def ep_run_step_def ep_good_def split: sum.splits prod.splits)
qed

section \<open>A request and its answer\<close>

text \<open>The signal a request ends in at the other side, with the promise \<open>a\<close>.\<close>

fun request_signal :: "Request \<Rightarrow> nat \<Rightarrow> incoming_request" where
  "request_signal (Req_AddMessage x) a = Incoming_addMessage (ram_messageId x) (ram_messageView x) a"
| "request_signal (Req_GetMessages x) a = Incoming_getMessages (rgm_startMessageId x) a"
| "request_signal (Req_Ping x) a = Incoming_ping (rp_timestamp x) a"
| "request_signal (Req_SecondaryNodeReady x) a = Incoming_secondaryNodeReady (rsr_secondaryNodeName x) a"

lemma fromPayload_owned:
  assumes "Request_AddMessage_fromPayload p = Some y"
  shows "fst (Request_AddMessage_flushMessage y) = ram_messageView y"
  using assms
  by (auto simp: Request_AddMessage_fromPayload_def Request_AddMessage_owning_def
      Request_AddMessage_flushMessage_def Let_def split: prod.splits option.splits if_splits)

lemma onIncomingRequestFrame_reads:
  assumes "request_reads r p"
  shows "onIncomingRequestFrame \<lparr>rf_requestId = i, rf_opCode = Request_opCode r, rf_payload = p\<rparr> e =
    (snd (ep_register i e), [EP_Incoming (request_signal r (fst (ep_register i e)))])"
proof (cases r)
  case (Req_AddMessage x)
  then obtain y where y: "Request_AddMessage_fromPayload p = Some y" "ram_content y = ram_content x"
    using assms by auto
  then show ?thesis
    using fromPayload_owned [OF y(1)] Req_AddMessage
    by (simp add: onIncomingRequestFrame_def case_prod_beta ram_content_def)
qed (use assms in \<open>simp_all add: onIncomingRequestFrame_def case_prod_beta
      Request_SecondaryNodeReady_flushSecondaryNodeName_def\<close>)

lemma im_onIncomingFrame_request [simp]:
  "im_onIncomingFrame (Some (request_frame_bytes i r)) =
     Some \<lparr>rf_requestId = i, rf_opCode = Request_opCode r, rf_payload = Some (request_payload r)\<rparr>"
  by (simp add: im_onIncomingFrame_def)

lemma om_onIncomingFrame_request [simp]:
  "om_onIncomingFrame alloc (Some (request_frame_bytes i r)) m = Inr m"
  by (simp add: om_onIncomingFrame_def)

lemma ep_onIncomingFrame_request:
  "ep_onIncomingFrame alloc (Some (request_frame_bytes i r)) e =
     Inr (snd (ep_register i e), [EP_Incoming (request_signal r (fst (ep_register i e)))])"
proof -
  have "(snd (ep_register i e))\<lparr>ep_outcoming := ep_outcoming (snd (ep_register i e))\<rparr> = snd (ep_register i e)"
    by simp
  then show ?thesis
    by (simp add: ep_onIncomingFrame_def onIncomingRequestFrame_reads [OF request_reads_payload])
qed

text \<open>The server's part: register, set the promise, run the posted lambda.\<close>

lemma im_answer:
  assumes ok: "im_ok (m, ws)" and alive: "im_alive m" and free: "im_registeredContexts m i = None"
    and req: "im_request i m = (a, m1)"
  shows "\<exists>m2 m3. im_setPromise a (Some x) m1 = Inr m2 \<and>
           im_runPosted (length (im_posted m)) m2 =
             (m3, [\<lparr>pw_frame = response_frame_of i (answer_response x), pw_callback = a\<rparr>]) \<and>
           im_registeredContexts m3 = im_registeredContexts m"
proof -
  have a: "a = im_nextContext m"
    and m1: "m1 = m\<lparr>im_contexts := (im_contexts m)(a := InContext_create\<lparr>ic_responseId := Some i\<rparr>),
                   im_nextContext := Suc a, im_registeredContexts := (im_registeredContexts m)(i \<mapsto> a)\<rparr>"
    using req free by (auto simp: im_request_eq)
  define m2 where "m2 = m1\<lparr>im_contexts := (im_contexts m1)(a := (im_contexts m1 a)\<lparr>ic_promise := Fulfilled x\<rparr>),
      im_posted := im_posted m @ [a]\<rparr>"
  have m2: "im_setPromise a (Some x) m1 = Inr m2"
    by (simp add: im_setPromise_eq m1 m2_def im_update_context_def InContext_create_def)
  have n: "im_posted m2 ! length (im_posted m) = a" "length (im_posted m2) = Suc (length (im_posted m))"
    by (simp_all add: m2_def)
  have c: "im_contexts m2 a = \<lparr>ic_alive = True, ic_promise = Fulfilled x, ic_responseId = Some i\<rparr>"
    by (simp add: m2_def m1 InContext_create_def)
  have r: "im_registeredContexts m2 = (im_registeredContexts m)(i \<mapsto> a)" "im_alive m2"
    using alive by (simp_all add: m2_def m1)
  have free': "(im_registeredContexts m)(i := None) = im_registeredContexts m"
    using free by (simp add: fun_upd_idem)
  show ?thesis
    using n c r free'
    by (auto simp: m2 im_runPosted_eq im_onResponseRecieved_def im_erase_def im_update_context_def Let_def)
qed

section \<open>Properties\<close>

abbreviation ep_run :: "(nat \<Rightarrow> bool) \<Rightarrow> duration_ms \<Rightarrow> duration_ms \<times> duration_ms \<Rightarrow> ep_event list \<Rightarrow>
    cpp_exception + Endpoint" where
  "ep_run alloc t b evs \<equiv> run_steps (ep_run_step alloc) (Inr (Endpoint_create t b)) evs"

lemma ep_run_okD: "ep_run alloc t b evs = Inr e \<Longrightarrow> ep_ok e"
  using endpoint.inv_run [of alloc t b evs] by (simp add: ep_run_ok_def)


text \<open>
C30: A remote call works end to end. The frame a client builds for a request makes the server
emit exactly the matching signal with the same arguments and a new promise; when the handler
sets that promise, the lambda it posts hands the socket one frame; and this frame makes the
client's pending request end with the handler's value, whatever else both sides are doing.
The request id must not be registered at the server already.
\<close>

theorem remote_call_roundtrip:
  assumes "ep_run alloc ts bs evs = Inr server" and "ep_alive server"
    and "im_registeredContexts (ep_incoming server) i = None"
    and "om_run alloc tc evc = Inr client" and "om_alive client"
    and "map_of (om_pendingRequests client) i = Some p"
    and "answers (om_contexts client (pr_context p)) (answer_response x)"
    and "sendable alloc (answer_response x)"
  shows "\<exists>server' a m2 m3 w client'.
     ep_onIncomingFrame alloc (Some (request_frame_bytes i r)) server =
       Inr (server', [EP_Incoming (request_signal r a)]) \<and>
     im_setPromise a (Some x) (ep_incoming server') = Inr m2 \<and>
     im_runPosted (length (im_posted (ep_incoming server))) m2 = (m3, [w]) \<and>
     om_step alloc client (OM_IncomingFrame (Some (concat (pw_frame w)))) = Inr (client', []) \<and>
     outcome_of (om_contexts client' (pr_context p)) = Some (answer_outcome (answer_response x))"
proof -
  have "ep_ok server" using assms(1) by (rule ep_run_okD)
  then obtain ws where ok: "im_ok (ep_incoming server, ws)" "im_alive (ep_incoming server)"
    using assms(2) by (auto simp: ep_ok_def)
  obtain a m1 where req: "im_request i (ep_incoming server) = (a, m1)" by (cases "im_request i (ep_incoming server)")
  from im_answer [OF ok assms(3) req, of x] obtain m2 m3 where
    m: "im_setPromise a (Some x) m1 = Inr m2"
      "im_runPosted (length (im_posted (ep_incoming server))) m2 =
         (m3, [\<lparr>pw_frame = response_frame_of i (answer_response x), pw_callback = a\<rparr>])" by blast
  have reg: "ep_register i server = (a, server\<lparr>ep_incoming := m1\<rparr>)" by (simp add: ep_register_def req)
  have bytes: "concat (response_frame_of i (answer_response x)) = response_frame_bytes i (answer_response x)"
    by (simp add: response_frame_of_def response_frame_bytes_def)
  from om_incoming_answer [OF om_run_ok [OF assms(4)] assms(5,6,7) response_reads_payload [OF assms(8)]]
  obtain client' where c: "om_step alloc client
      (OM_IncomingFrame (Some (concat (response_frame_of i (answer_response x))))) = Inr (client', [])"
    "outcome_of (om_contexts client' (pr_context p)) = Some (answer_outcome (answer_response x))"
    unfolding bytes by blast
  have e: "ep_onIncomingFrame alloc (Some (request_frame_bytes i r)) server =
      Inr (server\<lparr>ep_incoming := m1\<rparr>, [EP_Incoming (request_signal r a)])"
    using reg by (simp add: ep_onIncomingFrame_request)
  show ?thesis
    by (rule exI [of _ "server\<lparr>ep_incoming := m1\<rparr>"], rule exI [of _ a], rule exI [of _ m2], rule exI [of _ m3],
        rule exI [of _ "\<lparr>pw_frame = response_frame_of i (answer_response x), pw_callback = a\<rparr>"],
        rule exI [of _ client']) (use e m c in simp)
qed

theorem remote_call_roundtrip_witness:
  "\<exists>client client' (w :: PendingWrite).
     om_run (\<lambda>_. True) 1500
       [OM_SendRequest (Req_Ping (Request_Ping_create 7)) K_Ping 0, OM_RunPosted 0] = Inr client \<and>
     om_step (\<lambda>_. True) client (OM_IncomingFrame (Some (concat (pw_frame w)))) = Inr (client', []) \<and>
     outcome_of (om_contexts client' 0) = Some (Got_Ping 9)"
proof -
  let ?evs = "[OM_SendRequest (Req_Ping (Request_Ping_create 7)) K_Ping 0, OM_RunPosted 0]"
  note d = om_run_step_def no_writes_def sendRequest_def OutManager_create_def om_runPosted_def
    take_nth_def sendRequestImpl_def
  obtain m where m: "om_run (\<lambda>_. True) 1500 ?evs = Inr m" "om_alive m"
    "om_contexts m 0 = OutContext_create K_Ping"
    "map_of (om_pendingRequests m) 0 =
       Some \<lparr>pr_requestId = 0, pr_request = Req_Ping (Request_Ping_create 7), pr_context = 0\<rparr>"
    by (simp add: d)
  have s: "ep_run (\<lambda>_. True) 1500 (1000, 2000) [] = Inr (Endpoint_create 1500 (1000, 2000))"
    "ep_alive (Endpoint_create 1500 (1000, 2000))"
    "im_registeredContexts (ep_incoming (Endpoint_create 1500 (1000, 2000))) 0 = None"
    by (simp_all add: Endpoint_create_def InManager_create_def)
  have a: "answers (om_contexts m (pr_context
      \<lparr>pr_requestId = 0, pr_request = Req_Ping (Request_Ping_create 7), pr_context = 0\<rparr>)) (answer_response (A_Ping 9))"
    "sendable (\<lambda>_. True) (answer_response (A_Ping 9))" using m(3) by simp_all
  from remote_call_roundtrip [OF s m(1,2,4) a, of "Req_Ping (Request_Ping_create 7)"] obtain w :: PendingWrite and client' where
    "om_step (\<lambda>_. True) m (OM_IncomingFrame (Some (concat (pw_frame w)))) = Inr (client', [])"
    "outcome_of (om_contexts client' 0) = Some (Got_Ping 9)"
    by (auto simp: Response_Pong_create_def simp del: om_step.simps)
  with m(1) show ?thesis by blast
qed

text \<open>
The artificial delay of every request lies between the bounds the endpoint was created
with, in whichever order they were given.
\<close>

theorem send_delay_within_bounds:
  assumes "uniform_distribution draw"
  shows "let d = chooseSendDelay draw (Endpoint_create t (lo, hi))
         in min lo hi \<le> d \<and> d \<le> max lo hi"
  using assms
  by (auto simp: uniform_distribution_def chooseSendDelay_def Endpoint_create_def min_def max_def Let_def)

theorem send_delay_within_bounds_witness:
  "uniform_distribution (\<lambda>lo hi. hi) \<and> chooseSendDelay (\<lambda>lo hi. hi) (Endpoint_create 1500 (2000, 1000)) \<le> 2000"
proof -
  have u: "uniform_distribution (\<lambda>lo hi. hi)" by (simp add: uniform_distribution_def)
  from send_delay_within_bounds [OF u, of 1500 2000 1000] u show ?thesis by (simp add: Let_def max_def)
qed

end
