(* ===== verification/Storages.thy ===== *)
theory Storages
  imports Prelude "HOL-Library.Sublist" "HOL-Library.Multiset"
begin

text \<open>
  app/master-node/storage and app/secondary-node/storage: the message stores of the two
  kinds of node, hash maps from message ids to messages that are only inserted into.

  Both read their messages with the same loop, which starts at an id and goes up until an
  id is missing; ids are 64 bit and the increment wraps around, so the loop does not end
  when every id is taken. It is a \<^theory_text>\<open>partial_function\<close> whose value \<^const>\<open>None\<close> is
  not returning. The locale \<open>contiguous_store\<close> states what the readers of a store rely on;
  both stores interpret it.
\<close>

section \<open>The scan\<close>

partial_function (option) chunk_loop ::
    "(size_t \<Rightarrow> string option) \<Rightarrow> size_t \<Rightarrow> string list \<Rightarrow> string list option" where
  "chunk_loop messages startId res =
     (case messages startId of
        None \<Rightarrow> Some res
      | Some message \<Rightarrow> chunk_loop messages (startId + 1) (res @ [message]))"

partial_function (option) first_gap_loop :: "(size_t \<Rightarrow> string option) \<Rightarrow> size_t \<Rightarrow> size_t option" where
  "first_gap_loop messages res =
     (case messages res of
        None \<Rightarrow> Some res
      | Some _ \<Rightarrow> first_gap_loop messages (res + 1))"

text \<open>\<open>xs\<close> are the messages from \<open>s\<close> up to the first missing id.\<close>

definition is_chunk :: "(size_t \<Rightarrow> string option) \<Rightarrow> size_t \<Rightarrow> string list \<Rightarrow> bool" where
  "is_chunk m s xs \<longleftrightarrow>
     (\<forall>i < length xs. m (s + word_of_nat i) = Some (xs ! i)) \<and> m (s + word_of_nat (length xs)) = None"

lemma is_chunk_Nil [simp]: "is_chunk m s [] \<longleftrightarrow> m s = None"
  by (simp add: is_chunk_def)

lemma is_chunk_Cons: "is_chunk m s (x # xs) \<longleftrightarrow> m s = Some x \<and> is_chunk m (s + 1) xs"
proof -
  have w: "s + word_of_nat (Suc i) = (s + 1) + word_of_nat i" for i
    by (simp add: add.assoc)
  have "(\<forall>i < length (x # xs). m (s + word_of_nat i) = Some ((x # xs) ! i)) \<longleftrightarrow>
      m s = Some x \<and> (\<forall>i < length xs. m (s + word_of_nat (Suc i)) = Some (xs ! i))"
    by (auto simp: less_Suc_eq_0_disj)
  then show ?thesis by (auto simp: is_chunk_def w simp del: of_nat_Suc)
qed

lemma is_chunk_prefix:
  assumes "is_chunk m s xs" "is_chunk m' s ys" "m \<subseteq>\<^sub>m m'"
  shows "prefix xs ys"
  using assms(1,2)
proof (induction xs arbitrary: s ys)
  case Nil
  then show ?case by simp
next
  case (Cons x xs)
  then have m: "m s = Some x" "is_chunk m (s + 1) xs" by (simp_all add: is_chunk_Cons)
  then have "m' s = Some x" using assms(3) by (auto simp: map_le_def dom_def)
  with Cons.prems(2) obtain ys' where "ys = x # ys'" "is_chunk m' (s + 1) ys'"
    by (cases ys) (auto simp: is_chunk_Cons)
  then show ?case using Cons.IH [OF m(2)] by simp
qed

lemma is_chunk_unique: "is_chunk m s xs \<Longrightarrow> is_chunk m s ys \<Longrightarrow> xs = ys"
  using is_chunk_prefix [of m s xs m ys] is_chunk_prefix [of m s ys m xs] map_le_refl [of m]
  by (simp add: prefix_order.antisym)

text \<open>A missing id is reached from every start, after fewer than \<open>2\<^sup>64\<close> steps.\<close>

lemma is_chunk_exists:
  assumes "m k = None"
  shows "\<exists>xs. is_chunk m s xs \<and> length xs < 2 ^ 64"
proof -
  have ex: "\<exists>xs. is_chunk m s xs \<and> length xs \<le> n" if "m (s + word_of_nat n) = None" for n s
    using that
  proof (induction n arbitrary: s)
    case 0
    then have "is_chunk m s []" by simp
    then show ?case by (intro exI [of _ "[]"]) simp
  next
    case (Suc n)
    show ?case
    proof (cases "m s")
      case None
      then show ?thesis by (intro exI [of _ "[]"]) simp
    next
      case (Some x)
      have "m ((s + 1) + word_of_nat n) = None" using Suc.prems by (simp add: add.assoc)
      from Suc.IH [OF this] obtain xs where "is_chunk m (s + 1) xs" "length xs \<le> n" by blast
      then show ?thesis using Some by (intro exI [of _ "x # xs"]) (simp add: is_chunk_Cons)
    qed
  qed
  have "m (s + word_of_nat (unat (k - s))) = None" using assms by simp
  from ex [OF this] obtain xs where xs: "is_chunk m s xs" "length xs \<le> unat (k - s)" by blast
  have "unat (k - s) < 2 ^ 64" using unsigned_less [of "k - s", where 'a = nat] by simp
  then show ?thesis using xs by (intro exI [of _ xs] conjI) (simp, linarith)
qed

subsection \<open>The loops compute it\<close>

lemma chunk_loop_chunk: "is_chunk m s xs \<Longrightarrow> chunk_loop m s acc = Some (acc @ xs)"
proof (induction xs arbitrary: s acc)
  case Nil
  then show ?case by (subst chunk_loop.simps) simp
next
  case (Cons x xs)
  then have "m s = Some x" "is_chunk m (s + 1) xs" by (simp_all add: is_chunk_Cons)
  then show ?case using Cons.IH [of "s + 1" "acc @ [x]"] by (subst chunk_loop.simps) simp
qed

lemma chunk_loop_Some:
  assumes "chunk_loop m s acc = Some r"
  shows "\<exists>xs. r = acc @ xs \<and> is_chunk m s xs"
proof (rule chunk_loop.raw_induct [where P = "\<lambda>m s acc r. \<exists>xs. r = acc @ xs \<and> is_chunk m s xs", OF _ assms])
  fix loop :: "(size_t \<Rightarrow> string option) \<Rightarrow> size_t \<Rightarrow> string list \<Rightarrow> string list option" and m s acc r
  assume IH: "\<And>m s acc r. loop m s acc = Some r \<Longrightarrow> \<exists>xs. r = acc @ xs \<and> is_chunk m s xs"
    and r: "(case m s of None \<Rightarrow> Some acc | Some x \<Rightarrow> loop m (s + 1) (acc @ [x])) = Some r"
  show "\<exists>xs. r = acc @ xs \<and> is_chunk m s xs"
  proof (cases "m s")
    case None
    then show ?thesis using r by (intro exI [of _ "[]"]) simp
  next
    case (Some x)
    then have "loop m (s + 1) (acc @ [x]) = Some r" using r by simp
    from IH [OF this] obtain xs where "r = (acc @ [x]) @ xs" "is_chunk m (s + 1) xs" by blast
    then show ?thesis using Some by (intro exI [of _ "x # xs"]) (simp add: is_chunk_Cons)
  qed
qed

lemma chunk_loop_iff: "chunk_loop m s [] = Some xs \<longleftrightarrow> is_chunk m s xs"
  using chunk_loop_chunk [of m s xs "[]"] chunk_loop_Some [of m s "[]" xs] by auto

lemma chunk_loop_None: "chunk_loop m s [] = None \<longleftrightarrow> (\<forall>k. m k \<noteq> None)"
proof
  assume n: "chunk_loop m s [] = None"
  show "\<forall>k. m k \<noteq> None"
  proof (intro allI notI)
    fix k
    assume "m k = None"
    then obtain xs where "is_chunk m s xs" using is_chunk_exists by blast
    then show False using n chunk_loop_chunk [of m s xs "[]"] by simp
  qed
next
  assume all: "\<forall>k. m k \<noteq> None"
  show "chunk_loop m s [] = None"
  proof (cases "chunk_loop m s []")
    case (Some xs)
    then show ?thesis using all by (auto simp: chunk_loop_iff is_chunk_def)
  qed
qed

lemma first_gap_loop_chunk: "is_chunk m s xs \<Longrightarrow> first_gap_loop m s = Some (s + word_of_nat (length xs))"
proof (induction xs arbitrary: s)
  case Nil
  then show ?case by (subst first_gap_loop.simps) simp
next
  case (Cons x xs)
  then have "m s = Some x" "is_chunk m (s + 1) xs" by (simp_all add: is_chunk_Cons)
  then show ?case using Cons.IH [of "s + 1"] by (subst first_gap_loop.simps) (simp add: add.assoc)
qed

lemma is_chunk_append:
  "is_chunk m s (xs @ ys) \<longleftrightarrow>
     (\<forall>i < length xs. m (s + word_of_nat i) = Some (xs ! i)) \<and> is_chunk m (s + word_of_nat (length xs)) ys"
proof (induction xs arbitrary: s)
  case Nil
  then show ?case by simp
next
  case (Cons x xs)
  have "(\<forall>i < length (x # xs). m (s + word_of_nat i) = Some ((x # xs) ! i)) \<longleftrightarrow>
      m s = Some x \<and> (\<forall>i < length xs. m ((s + 1) + word_of_nat i) = Some (xs ! i))"
    by (auto simp: less_Suc_eq_0_disj add.assoc)
  moreover have "s + word_of_nat (length (x # xs)) = (s + 1) + word_of_nat (length xs)"
    by (simp add: add.assoc)
  ultimately show ?case using Cons.IH [of "s + 1"] by (simp only: append_Cons is_chunk_Cons conj_assoc)
qed

section \<open>What the readers of a store rely on\<close>

locale contiguous_store =
  fixes chunk :: "'st \<Rightarrow> size_t \<Rightarrow> string list option"
    and lookup :: "'st \<Rightarrow> size_t \<Rightarrow> string option"
  assumes chunk_iff: "chunk st s = Some xs \<longleftrightarrow> is_chunk (lookup st) s xs"
    and chunk_None: "chunk st s = None \<longleftrightarrow> (\<forall>k. lookup st k \<noteq> None)"
begin

lemma chunk_returns: "lookup st k = None \<Longrightarrow> \<exists>xs. chunk st s = Some xs"
  using chunk_None by (metis option.exhaust)

lemma chunk_message: "chunk st s = Some xs \<Longrightarrow> i < length xs \<Longrightarrow> lookup st (s + word_of_nat i) = Some (xs ! i)"
  by (simp add: chunk_iff is_chunk_def)

lemma chunk_maximal: "chunk st s = Some xs \<Longrightarrow> lookup st (s + word_of_nat (length xs)) = None"
  by (simp add: chunk_iff is_chunk_def)

lemma chunk_grows:
  "lookup st \<subseteq>\<^sub>m lookup st' \<Longrightarrow> chunk st s = Some xs \<Longrightarrow> chunk st' s = Some ys \<Longrightarrow> prefix xs ys"
  using is_chunk_prefix chunk_iff by blast

end

text \<open>Two stores of which one holds a part of what the other holds.\<close>

locale store_pair =
  a: contiguous_store chunk_a lookup_a + b: contiguous_store chunk_b lookup_b
  for chunk_a :: "'a \<Rightarrow> size_t \<Rightarrow> string list option" and lookup_a
    and chunk_b :: "'b \<Rightarrow> size_t \<Rightarrow> string list option" and lookup_b
begin

lemma part_prefix:
  "lookup_a x \<subseteq>\<^sub>m lookup_b y \<Longrightarrow> chunk_a x s = Some xs \<Longrightarrow> chunk_b y s = Some ys \<Longrightarrow> prefix xs ys"
  using is_chunk_prefix a.chunk_iff b.chunk_iff by blast

lemma part_equal:
  assumes "lookup_a x \<subseteq>\<^sub>m lookup_b y" "chunk_b y s = Some ys"
    and "\<And>i. i < length ys \<Longrightarrow> lookup_a x (s + word_of_nat i) \<noteq> None"
  shows "chunk_a x s = Some ys"
proof -
  have ys: "is_chunk (lookup_b y) s ys" using assms(2) by (simp add: b.chunk_iff)
  have "lookup_a x (s + word_of_nat i) = Some (ys ! i)" if "i < length ys" for i
  proof -
    have "lookup_a x (s + word_of_nat i) \<noteq> None" using that by (rule assms(3))
    then have "s + word_of_nat i \<in> dom (lookup_a x)" by blast
    then have "lookup_a x (s + word_of_nat i) = lookup_b y (s + word_of_nat i)"
      using assms(1) unfolding map_le_def by blast
    moreover have "lookup_b y (s + word_of_nat i) = Some (ys ! i)" using ys that unfolding is_chunk_def by blast
    ultimately show ?thesis by simp
  qed
  moreover have "lookup_a x (s + word_of_nat (length ys)) = None"
  proof (cases "lookup_a x (s + word_of_nat (length ys))")
    case (Some v)
    then have "s + word_of_nat (length ys) \<in> dom (lookup_a x)" by blast
    then have "lookup_a x (s + word_of_nat (length ys)) = lookup_b y (s + word_of_nat (length ys))"
      using assms(1) unfolding map_le_def by blast
    then show ?thesis using ys unfolding is_chunk_def by simp
  qed
  ultimately show ?thesis unfolding a.chunk_iff is_chunk_def by blast
qed

end

section \<open>The master's store\<close>

record MasterStorage =
  ms_nextMessageId :: size_t
  ms_messages :: "size_t \<rightharpoonup> string"

definition MasterStorage_create :: MasterStorage where
  "MasterStorage_create = \<lparr>ms_nextMessageId = 0, ms_messages = Map.empty\<rparr>"

text \<open>
  \<^verbatim>\<open>addMessage\<close> is two atomic steps; other threads may run between them. The result of the
  second is the id with a view of the stored message.
\<close>

definition ms_fetch_add :: "MasterStorage \<Rightarrow> size_t \<times> MasterStorage" where
  "ms_fetch_add s = (ms_nextMessageId s, s\<lparr>ms_nextMessageId := ms_nextMessageId s + 1\<rparr>)"

definition ms_insert :: "size_t \<Rightarrow> string \<Rightarrow> MasterStorage \<Rightarrow> (size_t \<times> string) \<times> MasterStorage" where
  "ms_insert i message s =
     (let (messages, view, _) = umap_insert i message (ms_messages s)
      in ((i, view), s\<lparr>ms_messages := messages\<rparr>))"

definition MasterStorage_addMessage ::
    "string \<Rightarrow> MasterStorage \<Rightarrow> (size_t \<times> string) \<times> MasterStorage" where
  "MasterStorage_addMessage message s =
     (let (i, s') = ms_fetch_add s in ms_insert i message s')"

definition MasterStorage_getContiguousChunk :: "MasterStorage \<Rightarrow> size_t \<Rightarrow> string list option" where
  "MasterStorage_getContiguousChunk s startId = chunk_loop (ms_messages s) startId []"

interpretation master_store: contiguous_store MasterStorage_getContiguousChunk ms_messages
  by unfold_locales (simp_all add: MasterStorage_getContiguousChunk_def chunk_loop_iff chunk_loop_None)

section \<open>The secondary's store\<close>

record SecondaryStorage =
  ss_messages :: "size_t \<rightharpoonup> string"

definition SecondaryStorage_create :: SecondaryStorage where
  "SecondaryStorage_create = \<lparr>ss_messages = Map.empty\<rparr>"

definition SecondaryStorage_addMessage :: "size_t \<Rightarrow> string \<Rightarrow> SecondaryStorage \<Rightarrow> SecondaryStorage" where
  "SecondaryStorage_addMessage i message s =
     (let (messages, _, _) = umap_insert i message (ss_messages s) in s\<lparr>ss_messages := messages\<rparr>)"

fun SecondaryStorage_addMessages_loop ::
    "size_t \<Rightarrow> size_t \<Rightarrow> string list \<Rightarrow> SecondaryStorage \<Rightarrow> SecondaryStorage" where
  "SecondaryStorage_addMessages_loop startId i [] s = s"
| "SecondaryStorage_addMessages_loop startId i (message # messages) s =
     SecondaryStorage_addMessages_loop startId (i + 1) messages
       (SecondaryStorage_addMessage (startId + i) message s)"

definition SecondaryStorage_addMessages ::
    "size_t \<Rightarrow> string list \<Rightarrow> SecondaryStorage \<Rightarrow> SecondaryStorage" where
  "SecondaryStorage_addMessages startId messages s =
     SecondaryStorage_addMessages_loop startId 0 messages s"

definition SecondaryStorage_getFirstGap :: "SecondaryStorage \<Rightarrow> size_t option" where
  "SecondaryStorage_getFirstGap s = first_gap_loop (ss_messages s) 0"

definition SecondaryStorage_getContiguousChunk :: "SecondaryStorage \<Rightarrow> size_t \<Rightarrow> string list option" where
  "SecondaryStorage_getContiguousChunk s startId = chunk_loop (ss_messages s) startId []"

interpretation secondary_store: contiguous_store SecondaryStorage_getContiguousChunk ss_messages
  by unfold_locales (simp_all add: SecondaryStorage_getContiguousChunk_def chunk_loop_iff chunk_loop_None)

interpretation replica: store_pair
  SecondaryStorage_getContiguousChunk ss_messages MasterStorage_getContiguousChunk ms_messages
  ..

subsection \<open>What adding does\<close>

lemma ss_addMessage_lookup:
  "ss_messages (SecondaryStorage_addMessage i msg s) k =
     (if k = i \<and> ss_messages s i = None then Some msg else ss_messages s k)"
  by (cases "ss_messages s i") (auto simp: SecondaryStorage_addMessage_def)

lemma ss_addMessages_loop_lookup:
  assumes "length xs \<le> 2 ^ 64"
  shows "ss_messages (SecondaryStorage_addMessages_loop startId i xs s) k =
     (case ss_messages s k of
        Some v \<Rightarrow> Some v
      | None \<Rightarrow> if unat (k - (startId + i)) < length xs then Some (xs ! unat (k - (startId + i))) else None)"
  using assms
proof (induction xs arbitrary: i s)
  case Nil
  then show ?case by (simp split: option.split)
next
  case (Cons x xs)
  let ?d = "k - (startId + i)"
  have step: "k - (startId + (i + 1)) = ?d - 1" by simp
  have IH: "ss_messages (SecondaryStorage_addMessages_loop startId (i + 1) xs s') k =
     (case ss_messages s' k of
        Some v \<Rightarrow> Some v
      | None \<Rightarrow> if unat (?d - 1) < length xs then Some (xs ! unat (?d - 1)) else None)" for s'
    using Cons.IH [of "i + 1" s'] Cons.prems unfolding step by simp
  show ?case
  proof (cases "?d = 0")
    case True
    then have k: "k = startId + i" by simp
    have big: "\<not> unat (- 1 :: size_t) < length xs"
      using Cons.prems by (simp add: unsigned_minus_1_eq_mask mask_eq_exp_minus_1)
    show ?thesis
      unfolding SecondaryStorage_addMessages_loop.simps IH
      using k big by (simp add: ss_addMessage_lookup split: option.split)
  next
    case False
    then have "unat ?d = Suc (unat (?d - 1))"
      by (metis Suc_pred' unat_minus_one unat_gt_0)
    moreover have "k \<noteq> startId + i" using False by auto
    ultimately show ?thesis
      by (simp add: IH ss_addMessage_lookup split: option.split)
  qed
qed

lemma ss_addMessages_lookup:
  assumes "length xs \<le> 2 ^ 64"
  shows "ss_messages (SecondaryStorage_addMessages startId xs s) k =
     (case ss_messages s k of
        Some v \<Rightarrow> Some v
      | None \<Rightarrow> if unat (k - startId) < length xs then Some (xs ! unat (k - startId)) else None)"
  using ss_addMessages_loop_lookup [OF assms, of startId 0 s k]
  by (simp add: SecondaryStorage_addMessages_def split: option.split)

lemma ss_addMessage_mono: "ss_messages s \<subseteq>\<^sub>m ss_messages (SecondaryStorage_addMessage i msg s)"
  by (auto simp: map_le_def ss_addMessage_lookup)

lemma ss_addMessages_loop_mono: "ss_messages s \<subseteq>\<^sub>m ss_messages (SecondaryStorage_addMessages_loop b i xs s)"
proof (induction xs arbitrary: i s)
  case (Cons x xs)
  then show ?case using ss_addMessage_mono map_le_trans by fastforce
qed simp

lemma getFirstGap_chunk:
  "SecondaryStorage_getContiguousChunk s 0 = Some xs \<Longrightarrow>
   SecondaryStorage_getFirstGap s = Some (word_of_nat (length xs))"
  using first_gap_loop_chunk [of "ss_messages s" 0 xs] secondary_store.chunk_iff [of s 0 xs]
  by (simp add: SecondaryStorage_getFirstGap_def)

subsection \<open>Catching up\<close>

lemma is_chunk_bound: "is_chunk m s xs \<Longrightarrow> length xs < 2 ^ 64"
proof -
  assume xs: "is_chunk m s xs"
  then have "m (s + word_of_nat (length xs)) = None" by (simp add: is_chunk_def)
  then obtain ys where "is_chunk m s ys" "length ys < 2 ^ 64" using is_chunk_exists by blast
  then show ?thesis using is_chunk_unique [OF xs] by blast
qed

lemma ss_catch_up_part:
  assumes part: "ss_messages ss \<subseteq>\<^sub>m ms_messages ms"
    and rest: "MasterStorage_getContiguousChunk ms g = Some xs"
  shows "ss_messages (SecondaryStorage_addMessages g xs ss) \<subseteq>\<^sub>m ms_messages ms"
proof -
  have xs: "is_chunk (ms_messages ms) g xs" using rest by (simp add: master_store.chunk_iff)
  have l: "length xs \<le> 2 ^ 64" using is_chunk_bound [OF xs] by simp
  have "ms_messages ms k = Some v" if "ss_messages (SecondaryStorage_addMessages g xs ss) k = Some v" for k v
  proof (cases "ss_messages ss k")
    case (Some w)
    then have "v = w" using that ss_addMessages_lookup [OF l, of g ss k] by simp
    moreover have "k \<in> dom (ss_messages ss)" using Some by blast
    then have "ss_messages ss k = ms_messages ms k" using part unfolding map_le_def by blast
    ultimately show ?thesis using Some by simp
  next
    case None
    then have k: "unat (k - g) < length xs" "v = xs ! unat (k - g)"
      using that ss_addMessages_lookup [OF l, of g ss k] by (simp_all split: if_splits)
    then have "ms_messages ms (g + word_of_nat (unat (k - g))) = Some v"
      using xs unfolding is_chunk_def by blast
    then show ?thesis by simp
  qed
  then show ?thesis unfolding map_le_def by (metis domD)
qed

lemma ss_catch_up_chunk:
  assumes part: "ss_messages ss \<subseteq>\<^sub>m ms_messages ms"
    and gap: "SecondaryStorage_getFirstGap ss = Some g"
    and rest: "MasterStorage_getContiguousChunk ms g = Some xs"
    and all: "MasterStorage_getContiguousChunk ms 0 = Some zs"
  shows "SecondaryStorage_getContiguousChunk (SecondaryStorage_addMessages g xs ss) 0 = Some zs"
proof (rule replica.part_equal [OF ss_catch_up_part [OF part rest] all])
  fix i
  assume i: "i < length zs"
  have zs: "is_chunk (ms_messages ms) 0 zs" and xs: "is_chunk (ms_messages ms) g xs"
    using all rest by (simp_all add: master_store.chunk_iff)
  have l: "length xs \<le> 2 ^ 64" using is_chunk_bound [OF xs] by simp
  have "ms_messages ms (word_of_nat (length zs)) = None" using zs by (simp add: is_chunk_def)
  then have "ss_messages ss (word_of_nat (length zs)) = None"
    using part unfolding map_le_def by (metis domIff)
  then obtain ys where ys: "is_chunk (ss_messages ss) 0 ys" using is_chunk_exists by blast
  then have g: "g = word_of_nat (length ys)"
    using getFirstGap_chunk [of ss ys] gap by (simp add: secondary_store.chunk_iff)
  have pre: "prefix ys zs" using is_chunk_prefix [OF ys zs part] .
  then obtain zs' where z: "zs = ys @ zs'" by (auto simp: prefix_def)
  then have "is_chunk (ms_messages ms) g zs'" using zs g by (simp add: is_chunk_append)
  then have z': "zs' = xs" using xs is_chunk_unique by blast
  show "ss_messages (SecondaryStorage_addMessages g xs ss) (0 + word_of_nat i) \<noteq> None"
  proof (cases "i < length ys")
    case True
    then have "ss_messages ss (word_of_nat i) \<noteq> None" using ys by (auto simp: is_chunk_def)
    then show ?thesis using ss_addMessages_lookup [OF l, of g ss "word_of_nat i"] by auto
  next
    case False
    have b: "i < 2 ^ 64" using i is_chunk_bound [OF zs] by simp
    have "(word_of_nat i :: size_t) - g = word_of_nat (i - length ys)"
      using False g by (simp add: of_nat_diff)
    then have "unat ((word_of_nat i :: size_t) - g) = i - length ys" using b by (simp add: unat_of_nat)
    then have "unat ((word_of_nat i :: size_t) - g) < length xs" using i False z z' by simp
    then show ?thesis using ss_addMessages_lookup [OF l, of g ss "word_of_nat i"] by (simp split: option.split)
  qed
qed

section \<open>Concurrent additions to the master's store\<close>

text \<open>
  Several threads add messages. \<open>mr_inflight\<close> are the additions between their two steps,
  \<open>mr_log\<close> the messages in the order of their first step, \<open>mr_results\<close> what the finished
  additions have returned.
\<close>

record MasterAdds =
  mr_storage :: MasterStorage
  mr_inflight :: "(size_t \<times> string) list"
  mr_log :: "string list"
  mr_results :: "(size_t \<times> string) list"

definition MasterAdds_create :: MasterAdds where
  "MasterAdds_create =
     \<lparr>mr_storage = MasterStorage_create, mr_inflight = [], mr_log = [], mr_results = []\<rparr>"

datatype add_event = Add_Begin string | Add_End nat

fun add_step :: "MasterAdds \<Rightarrow> add_event \<Rightarrow> MasterAdds" where
  "add_step r (Add_Begin message) =
     (let (i, s) = ms_fetch_add (mr_storage r)
      in r\<lparr>mr_storage := s, mr_inflight := mr_inflight r @ [(i, message)], mr_log := mr_log r @ [message]\<rparr>)"
| "add_step r (Add_End n) =
     (if length (mr_inflight r) \<le> n then r
      else
        (let (i, message) = mr_inflight r ! n;
             (res, s) = ms_insert i message (mr_storage r)
         in r\<lparr>mr_storage := s, mr_inflight := take n (mr_inflight r) @ drop (Suc n) (mr_inflight r),
              mr_results := mr_results r @ [res]\<rparr>))"

text \<open>Up to \<open>2\<^sup>64\<close> additions, the \<open>n\<close>-th one gets id \<open>n\<close>, and no two meet at an id.\<close>

definition adds_inv :: "MasterAdds \<Rightarrow> bool" where
  "adds_inv r \<longleftrightarrow>
     (let n = length (mr_log r); m = ms_messages (mr_storage r)
      in ms_nextMessageId (mr_storage r) = word_of_nat n \<and>
         distinct (map fst (mr_inflight r)) \<and>
         (\<forall>k. n \<le> unat k \<longrightarrow> m k = None \<and> k \<notin> fst ` set (mr_inflight r)) \<and>
         (\<forall>k. unat k < n \<longrightarrow>
            (m k = Some (mr_log r ! unat k) \<and> k \<notin> fst ` set (mr_inflight r)) \<or>
            (m k = None \<and> (k, mr_log r ! unat k) \<in> set (mr_inflight r))) \<and>
         mset (map fst (mr_results r)) + mset (map fst (mr_inflight r)) = mset (map word_of_nat [0..<n]) \<and>
         (\<forall>(k, v) \<in> set (mr_results r). m k = Some v))"

definition adds_ok :: "MasterAdds \<Rightarrow> bool" where
  "adds_ok r \<longleftrightarrow> (length (mr_log r) \<le> 2 ^ 64 \<longrightarrow> adds_inv r)"

lemma adds_inv_begin:
  assumes inv: "adds_inv r" and n: "length (mr_log r) < 2 ^ 64"
  shows "adds_inv (add_step r (Add_Begin message))"
proof -
  let ?n = "length (mr_log r)"
  let ?i = "word_of_nat ?n :: size_t"
  let ?m = "ms_messages (mr_storage r)"
  have u: "unat ?i = ?n" using n by (simp add: unat_of_nat)
  have nid: "ms_nextMessageId (mr_storage r) = ?i" using inv by (simp add: adds_inv_def Let_def)
  have r': "add_step r (Add_Begin message) =
      r\<lparr>mr_storage := (mr_storage r)\<lparr>ms_nextMessageId := ?i + 1\<rparr>,
        mr_inflight := mr_inflight r @ [(?i, message)], mr_log := mr_log r @ [message]\<rparr>"
    using nid by (simp add: ms_fetch_add_def)
  have fresh: "?m ?i = None" "?i \<notin> fst ` set (mr_inflight r)"
    using inv u by (auto simp: adds_inv_def Let_def)
  have old: "unat k < Suc ?n \<longleftrightarrow> unat k < ?n \<or> k = ?i" for k
    using u by (metis less_Suc_eq word_unat_eq_iff)
  have ge: "Suc ?n \<le> unat k \<longleftrightarrow> ?n \<le> unat k \<and> k \<noteq> ?i" for k
    using old [of k] by linarith
  have A: "?m k = None \<and> k \<notin> fst ` set (mr_inflight r @ [(?i, message)])" if "Suc ?n \<le> unat k" for k
    using that inv ge [of k] by (auto simp: adds_inv_def Let_def)
  have B: "(?m k = Some ((mr_log r @ [message]) ! unat k) \<and> k \<notin> fst ` set (mr_inflight r @ [(?i, message)])) \<or>
      (?m k = None \<and> (k, (mr_log r @ [message]) ! unat k) \<in> set (mr_inflight r @ [(?i, message)]))"
    if "unat k < Suc ?n" for k
  proof (cases "k = ?i")
    case True
    then show ?thesis using fresh u by simp
  next
    case False
    then have k: "unat k < ?n" using that old by blast
    then show ?thesis
      using inv False by (auto simp: adds_inv_def Let_def nth_append)
  qed
  show ?thesis
    unfolding adds_inv_def Let_def r'
    using inv fresh A B by (auto simp: adds_inv_def Let_def)
qed

lemma adds_inv_end:
  assumes inv: "adds_inv r"
  shows "adds_inv (add_step r (Add_End n))"
proof (cases "n < length (mr_inflight r)")
  case False
  then show ?thesis using inv by simp
next
  case True
  obtain i message where x: "mr_inflight r ! n = (i, message)" by (cases "mr_inflight r ! n")
  let ?m = "ms_messages (mr_storage r)"
  let ?rest = "take n (mr_inflight r) @ drop (Suc n) (mr_inflight r)"
  have split: "mr_inflight r = take n (mr_inflight r) @ (i, message) # drop (Suc n) (mr_inflight r)"
    using id_take_nth_drop [OF True] x by simp
  have mem: "set (mr_inflight r) = insert (i, message) (set ?rest)" by (subst split) auto
  have ms: "mset (map fst (mr_inflight r)) = add_mset i (mset (map fst ?rest))"
    by (subst split) simp
  then have "mset (map fst (mr_inflight r)) = mset (i # map fst ?rest)" by simp
  from mset_eq_imp_distinct_iff [OF this]
  have d: "distinct (map fst ?rest)" "i \<notin> fst ` set ?rest"
    using inv by (simp_all add: adds_inv_def Let_def image_Un)
  have i: "i \<in> fst ` set (mr_inflight r)" using mem by force
  have "\<forall>k. length (mr_log r) \<le> unat k \<longrightarrow> k \<notin> fst ` set (mr_inflight r)"
    using inv by (simp add: adds_inv_def Let_def)
  then have ilt: "unat i < length (mr_log r)" using i not_le by blast
  have mi: "?m i = None" "message = mr_log r ! unat i"
  proof -
    have "?m i = None \<and> (i, mr_log r ! unat i) \<in> set (mr_inflight r)"
      using inv i ilt by (auto simp: adds_inv_def Let_def)
    then show "?m i = None" "message = mr_log r ! unat i" using mem d(2) by force+
  qed
  have r': "add_step r (Add_End n) =
      r\<lparr>mr_storage := (mr_storage r)\<lparr>ms_messages := ?m(i \<mapsto> message)\<rparr>, mr_inflight := ?rest,
        mr_results := mr_results r @ [(i, message)]\<rparr>"
    using True x mi(1) by (simp add: ms_insert_def)
  let ?m' = "?m(i \<mapsto> message)"
  have A: "?m' k = None \<and> k \<notin> fst ` set ?rest" if "length (mr_log r) \<le> unat k" for k
  proof -
    have "?m k = None" "k \<notin> fst ` set (mr_inflight r)" using inv that by (auto simp: adds_inv_def Let_def)
    then show ?thesis using ilt that mem by auto
  qed
  have B: "(?m' k = Some (mr_log r ! unat k) \<and> k \<notin> fst ` set ?rest) \<or>
      (?m' k = None \<and> (k, mr_log r ! unat k) \<in> set ?rest)" if "unat k < length (mr_log r)" for k
  proof (cases "k = i")
    case True
    then show ?thesis using mi d(2) by simp
  next
    case False
    have "(?m k = Some (mr_log r ! unat k) \<and> k \<notin> fst ` set (mr_inflight r)) \<or>
        (?m k = None \<and> (k, mr_log r ! unat k) \<in> set (mr_inflight r))"
      using inv that by (auto simp: adds_inv_def Let_def)
    then show ?thesis using False mem by auto
  qed
  have C: "?m' k = Some v" if "(k, v) \<in> set (mr_results r @ [(i, message)])" for k v
    using inv that mi(1) by (auto simp: adds_inv_def Let_def)
  have D: "mset (map fst (mr_results r @ [(i, message)])) + mset (map fst ?rest) =
      mset (map word_of_nat [0..<length (mr_log r)])"
    using inv ms by (simp add: adds_inv_def Let_def)
  have E: "ms_nextMessageId (mr_storage r) = word_of_nat (length (mr_log r))"
    using inv by (simp add: adds_inv_def Let_def)
  have F: "\<forall>(k, v) \<in> set (mr_results r @ [(i, message)]). ?m' k = Some v" using C by blast
  show ?thesis
    unfolding adds_inv_def Let_def r'
    using A B D E F d(1) by simp
qed

lemma adds_ok_step: "adds_ok r \<Longrightarrow> adds_ok (add_step r ev)"
proof (cases ev)
  case (Add_Begin message)
  assume "adds_ok r"
  then show ?thesis
    using adds_inv_begin [of r message] Add_Begin by (auto simp: adds_ok_def ms_fetch_add_def)
next
  case (Add_End n)
  assume ok: "adds_ok r"
  have "mr_log (add_step r (Add_End n)) = mr_log r" by (simp add: case_prod_beta Let_def)
  then show ?thesis using ok adds_inv_end [of r n] Add_End by (simp add: adds_ok_def)
qed

lemma adds_ok_init: "adds_ok MasterAdds_create"
  by (simp add: adds_ok_def adds_inv_def MasterAdds_create_def MasterStorage_create_def)

interpretation master_adds: step_machine add_step MasterAdds_create adds_ok
  by unfold_locales (simp_all add: adds_ok_init adds_ok_step)

section \<open>Properties\<close>

abbreviation adds_run :: "add_event list \<Rightarrow> MasterAdds" where
  "adds_run evs \<equiv> run_steps add_step MasterAdds_create evs"

text \<open>
C31: \<^verbatim>\<open>getContiguousChunk\<close> of either store returns exactly the messages from the start id up
to the first missing id, wrapping around after the last id, and it returns if and only if
some id is missing.
\<close>

theorem contiguous_chunk_correct:
  "(MasterStorage_getContiguousChunk ms s = Some xs) = is_chunk (ms_messages ms) s xs \<and>
   (MasterStorage_getContiguousChunk ms s = None) = (\<forall>k. ms_messages ms k \<noteq> None) \<and>
   (SecondaryStorage_getContiguousChunk ss s = Some xs) = is_chunk (ss_messages ss) s xs \<and>
   (SecondaryStorage_getContiguousChunk ss s = None) = (\<forall>k. ss_messages ss k \<noteq> None)"
  by (intro conjI master_store.chunk_iff master_store.chunk_None secondary_store.chunk_iff
      secondary_store.chunk_None)

text \<open>
C32: Concurrent additions to the master's store never lose or overwrite a message: however
the two atomic steps of the calls interleave, up to \<open>2\<^sup>64\<close> calls, the calls that have
returned got pairwise different ids, and the store maps each of these ids to its message.
\<close>

theorem master_additions_keep_all:
  assumes "length (mr_log (adds_run evs)) \<le> 2 ^ 64"
  shows "distinct (map fst (mr_results (adds_run evs))) \<and>
         (\<forall>(k, v) \<in> set (mr_results (adds_run evs)). ms_messages (mr_storage (adds_run evs)) k = Some v)"
proof -
  let ?r = "adds_run evs"
  have inv: "adds_inv ?r" using master_adds.inv_run [of evs] assms by (simp add: adds_ok_def)
  have "inj_on (word_of_nat :: nat \<Rightarrow> size_t) (set [0..<length (mr_log ?r)])"
    using assms by (auto simp: inj_on_def word_unat_eq_iff unat_of_nat)
  then have "distinct (map (word_of_nat :: nat \<Rightarrow> size_t) [0..<length (mr_log ?r)])"
    by (simp add: distinct_map)
  moreover have "mset (map fst (mr_results ?r) @ map fst (mr_inflight ?r)) =
      mset (map word_of_nat [0..<length (mr_log ?r)])"
    using inv by (simp add: adds_inv_def Let_def)
  ultimately have "distinct (map fst (mr_results ?r) @ map fst (mr_inflight ?r))"
    using mset_eq_imp_distinct_iff by blast
  then show ?thesis using inv by (simp add: adds_inv_def Let_def)
qed

theorem master_additions_keep_all_witness:
  "ms_messages (mr_storage (adds_run [Add_Begin ''a'', Add_Begin ''b'', Add_End 1, Add_End 0])) 1 = Some ''b''"
proof -
  let ?evs = "[Add_Begin ''a'', Add_Begin ''b'', Add_End 1, Add_End 0]"
  have "length (mr_log (adds_run ?evs)) \<le> 2 ^ 64" "(1, ''b'') \<in> set (mr_results (adds_run ?evs))"
    by (simp_all add: MasterAdds_create_def MasterStorage_create_def ms_fetch_add_def ms_insert_def umap_insert_def)
  then show ?thesis using master_additions_keep_all [of ?evs] by blast
qed

text \<open>
When all additions have finished, reading from id 0 gives every message ever added, in
the order in which the calls took their ids.
\<close>

theorem master_reads_all_in_order:
  assumes "length (mr_log (adds_run evs)) < 2 ^ 64" and "mr_inflight (adds_run evs) = []"
  shows "MasterStorage_getContiguousChunk (mr_storage (adds_run evs)) 0 = Some (mr_log (adds_run evs))"
proof -
  let ?r = "adds_run evs"
  have inv: "adds_inv ?r" using master_adds.inv_run [of evs] assms(1) by (simp add: adds_ok_def)
  have u: "unat (word_of_nat i :: size_t) = i" if "i \<le> length (mr_log ?r)" for i
    using that assms(1) by (simp add: unat_of_nat)
  have "ms_messages (mr_storage ?r) (word_of_nat i) = Some (mr_log ?r ! i)" if "i < length (mr_log ?r)" for i
  proof -
    have "unat (word_of_nat i :: size_t) < length (mr_log ?r)" using u [of i] that by simp
    then show ?thesis using inv assms(2) u [of i] that by (auto simp: adds_inv_def Let_def)
  qed
  moreover have "ms_messages (mr_storage ?r) (word_of_nat (length (mr_log ?r))) = None"
    using inv u [of "length (mr_log ?r)"] by (auto simp: adds_inv_def Let_def)
  ultimately show ?thesis by (simp add: master_store.chunk_iff is_chunk_def)
qed

theorem master_reads_all_in_order_witness:
  "MasterStorage_getContiguousChunk
     (mr_storage (adds_run [Add_Begin ''a'', Add_Begin ''b'', Add_End 1, Add_End 0])) 0 = Some [''a'', ''b'']"
proof -
  let ?evs = "[Add_Begin ''a'', Add_Begin ''b'', Add_End 1, Add_End 0]"
  have "mr_log (adds_run ?evs) = [''a'', ''b'']" "mr_inflight (adds_run ?evs) = []"
    by (simp_all add: MasterAdds_create_def MasterStorage_create_def ms_fetch_add_def ms_insert_def umap_insert_def)
  then show ?thesis using master_reads_all_in_order [of ?evs] by simp
qed

text \<open>
A secondary never changes a message it has: an id that is present keeps its message
under every later addition, whatever message comes with it.
\<close>

theorem secondary_first_writer_wins:
  "ss_messages ss \<subseteq>\<^sub>m ss_messages (SecondaryStorage_addMessage i msg ss) \<and>
   ss_messages ss \<subseteq>\<^sub>m ss_messages (SecondaryStorage_addMessages startId msgs ss)"
  by (simp add: ss_addMessage_mono ss_addMessages_loop_mono SecondaryStorage_addMessages_def)

text \<open>
The catch-up of a reconnecting secondary is correct: if all it has comes from the master,
then adding the master's messages from its first gap on gives it the master's messages from
id 0 up to the master's first missing id, and still nothing that is not the master's.
\<close>

theorem secondary_catches_up:
  assumes part: "ss_messages ss \<subseteq>\<^sub>m ms_messages ms"
    and gap: "SecondaryStorage_getFirstGap ss = Some g"
    and rest: "MasterStorage_getContiguousChunk ms g = Some xs"
    and all: "MasterStorage_getContiguousChunk ms 0 = Some zs"
  shows "SecondaryStorage_getContiguousChunk (SecondaryStorage_addMessages g xs ss) 0 = Some zs \<and>
         ss_messages (SecondaryStorage_addMessages g xs ss) \<subseteq>\<^sub>m ms_messages ms"
  by (rule conjI [OF ss_catch_up_chunk [OF assms] ss_catch_up_part [OF part rest]])

theorem secondary_catches_up_witness:
  "SecondaryStorage_getContiguousChunk
     (SecondaryStorage_addMessages 1 [''b''] (SecondaryStorage_addMessage 0 ''a'' SecondaryStorage_create)) 0
   = Some [''a'', ''b'']"
proof -
  let ?ss = "SecondaryStorage_addMessage 0 ''a'' SecondaryStorage_create"
  let ?ms = "\<lparr>ms_nextMessageId = 2, ms_messages = [0 \<mapsto> ''a'', 1 \<mapsto> ''b'']\<rparr>"
  have ss: "ss_messages ?ss = [0 \<mapsto> ''a'']"
    by (simp add: SecondaryStorage_addMessage_def SecondaryStorage_create_def)
  have p: "ss_messages ?ss \<subseteq>\<^sub>m ms_messages ?ms" unfolding ss by (simp add: map_le_def)
  have c: "is_chunk (ss_messages ?ss) 0 [''a'']" unfolding ss by (simp add: is_chunk_Cons)
  have g: "SecondaryStorage_getFirstGap ?ss = Some 1"
    using first_gap_loop_chunk [OF c] by (simp add: SecondaryStorage_getFirstGap_def)
  have r: "MasterStorage_getContiguousChunk ?ms 1 = Some [''b'']"
    "MasterStorage_getContiguousChunk ?ms 0 = Some [''a'', ''b'']"
    by (simp_all add: master_store.chunk_iff is_chunk_Cons)
  from secondary_catches_up [OF p g r] show ?thesis by blast
qed

end
