(* ===== verification/AddMessageRequests.thy ===== *)
theory AddMessageRequests
  imports Responses "HOL-Library.AList"
begin

text \<open>
  app/master-node/secondary and app/master-node/addmessagerequest: what the master knows of
  a secondary, and the object that replicates one message to all secondaries and tells the
  client when enough of them have it.

  The request is driven by events of its execution context: the first run, the answer of a
  secondary (\<^const>\<open>None\<close> when the future holds an exception), the end of a wait. Each event
  carries what \<^verbatim>\<open>secondariesSnapshot()\<close> would return if the handler asks for it,
  \<^const>\<open>None\<close> when the master node is gone. \<open>ar_sent\<close> are the secondaries whose answer
  has not been handled, \<open>ar_waits\<close> the timers that will call \<^verbatim>\<open>start()\<close>.
\<close>

section \<open>Secondaries as the master sees them\<close>

record SecondaryNode =
  sn_id :: size_t
  sn_friendlyName :: "string option"
  sn_state :: SecondaryState
  sn_endpoint :: nat

record SecondarySnapshot =
  snap_id :: size_t
  snap_friendlyName :: "string option"
  snap_state :: SecondaryState
  snap_endpoint :: nat

definition SecondaryNode_ctor :: "size_t \<Rightarrow> nat \<Rightarrow> SecondaryNode" where
  [simp]: "SecondaryNode_ctor i endpoint =
     \<lparr>sn_id = i, sn_friendlyName = None, sn_state = REGISTERING, sn_endpoint = endpoint\<rparr>"

definition SecondaryNode_create :: "size_t \<Rightarrow> nat \<Rightarrow> SecondaryNode" where
  "SecondaryNode_create i endpoint = SecondaryNode_ctor i endpoint"

definition setFriendlyName :: "string \<Rightarrow> SecondaryNode \<Rightarrow> SecondaryNode" where
  "setFriendlyName name s = s\<lparr>sn_friendlyName := Some name\<rparr>"

definition setOperational :: "SecondaryNode \<Rightarrow> SecondaryNode" where
  "setOperational s = s\<lparr>sn_state := OPERATIONAL\<rparr>"

definition setInvalidated :: "SecondaryNode \<Rightarrow> SecondaryNode" where
  "setInvalidated s = s\<lparr>sn_state := INVALIDATED\<rparr>"

section \<open>The request\<close>

datatype Status = ADDED | NOT_ADDED | ERROR

datatype void_promise = VP_Unset | VP_Value | VP_Exception string

record AddMessageRequest =
  ar_writeConcern :: size_t
  ar_messageId :: size_t
  ar_message :: string
  ar_promiseFilled :: bool
  ar_promise :: void_promise
  ar_pendingWrites :: size_t
  ar_secondariesSnapshot :: "SecondarySnapshot list"
  ar_statuses :: "(size_t \<times> Status) list"
  ar_sent :: "size_t list"
  ar_waits :: nat

definition AddMessageRequest_create :: "size_t \<Rightarrow> string \<Rightarrow> size_t \<Rightarrow> AddMessageRequest" where
  "AddMessageRequest_create messageId message writeConcern =
     \<lparr>ar_writeConcern = writeConcern, ar_messageId = messageId, ar_message = message,
      ar_promiseFilled = False, ar_promise = VP_Unset, ar_pendingWrites = 0,
      ar_secondariesSnapshot = [], ar_statuses = [], ar_sent = [], ar_waits = 0\<rparr>"

definition vp_set :: "void_promise \<Rightarrow> void_promise \<Rightarrow> cpp_exception + void_promise" where
  "vp_set v p = (if p = VP_Unset then Inr v else Inl PromiseAlreadySatisfied)"

definition requestMarkSuccess :: "AddMessageRequest \<Rightarrow> cpp_exception + AddMessageRequest" where
  "requestMarkSuccess r =
     (if ar_promiseFilled r then Inr r
      else (case vp_set VP_Value (ar_promise r) of
              Inl e \<Rightarrow> Inl e
            | Inr p \<Rightarrow> Inr (r\<lparr>ar_promiseFilled := True, ar_promise := p\<rparr>)))"

definition requestMarkFailure :: "AddMessageRequest \<Rightarrow> cpp_exception + AddMessageRequest" where
  "requestMarkFailure r =
     (if ar_promiseFilled r then Inr r
      else (case vp_set (VP_Exception ''internal request error'') (ar_promise r) of
              Inl e \<Rightarrow> Inl e
            | Inr p \<Rightarrow> Inr (r\<lparr>ar_promiseFilled := True, ar_promise := p\<rparr>)))"

text \<open>The count is an \<^verbatim>\<open>int\<close> that is returned as a \<^verbatim>\<open>size_t\<close>.\<close>

definition satisfiedWriteConcern :: "AddMessageRequest \<Rightarrow> size_t" where
  "satisfiedWriteConcern r =
     scast (word_of_nat (length (filter (\<lambda>(_, status). status = ADDED) (ar_statuses r))) :: 32 word)"

definition allSecondariesSuccessfullyAnswered :: "AddMessageRequest \<Rightarrow> bool" where
  "allSecondariesSuccessfullyAnswered r \<longleftrightarrow>
     (word_of_nat (length (filter (\<lambda>(_, status). status \<noteq> ERROR) (ar_statuses r))) :: size_t) =
       word_of_nat (length (ar_secondariesSnapshot r))"

text \<open>\<open>presentSecondaries\<close> is a set of \<^verbatim>\<open>int\<close>: ids are compared by their low 32 bits.\<close>

definition presentSecondaries :: "SecondarySnapshot list \<Rightarrow> 32 word list" where
  "presentSecondaries snapshot = map (\<lambda>s. ucast (snap_id s)) snapshot"

definition updateData ::
    "SecondarySnapshot list option \<Rightarrow> AddMessageRequest \<Rightarrow> bool \<times> AddMessageRequest" where
  "updateData masterNode r =
     (case masterNode of
        None \<Rightarrow> (False, r)
      | Some snapshot \<Rightarrow>
          (True, r\<lparr>ar_secondariesSnapshot := snapshot,
                   ar_statuses := filter (\<lambda>(k, _). ucast k \<in> set (presentSecondaries snapshot)) (ar_statuses r)\<rparr>))"

definition needToSend :: "AddMessageRequest \<Rightarrow> SecondarySnapshot \<Rightarrow> bool" where
  "needToSend r secondary \<longleftrightarrow>
     \<not> (map_of (ar_statuses r) (snap_id secondary) \<noteq> None \<and>
        map_of (ar_statuses r) (snap_id secondary) \<noteq> Some ERROR)"

text \<open>What leaves the request: a message for a secondary's endpoint, a timer.\<close>

datatype ar_out =
    AR_Send nat size_t size_t string
  | AR_Wait

fun sendLoop :: "SecondarySnapshot list \<Rightarrow> AddMessageRequest \<Rightarrow> AddMessageRequest \<times> ar_out list" where
  "sendLoop [] r = (r, [])"
| "sendLoop (secondary # rest) r =
     (if \<not> needToSend r secondary then sendLoop rest r
      else
        (let (r', out) = sendLoop rest (r\<lparr>ar_pendingWrites := ar_pendingWrites r + 1,
                                         ar_sent := ar_sent r @ [snap_id secondary]\<rparr>)
         in (r', AR_Send (snap_endpoint secondary) (snap_id secondary) (ar_messageId r) (ar_message r) # out)))"

definition sendRequestToSecondaries :: "AddMessageRequest \<Rightarrow> AddMessageRequest \<times> ar_out list" where
  "sendRequestToSecondaries r =
     (if ar_pendingWrites r > 0 then (r, [])
      else
        (let (r', out) = sendLoop (ar_secondariesSnapshot r) r
         in if ar_pendingWrites r' = 0 then (r'\<lparr>ar_waits := Suc (ar_waits r')\<rparr>, out @ [AR_Wait])
            else (r', out)))"

definition ar_start ::
    "SecondarySnapshot list option \<Rightarrow> AddMessageRequest \<Rightarrow> cpp_exception + AddMessageRequest \<times> ar_out list" where
  "ar_start masterNode r =
     (let (ok, r1) = updateData masterNode r
      in if \<not> ok then (case requestMarkFailure r1 of Inl e \<Rightarrow> Inl e | Inr r2 \<Rightarrow> Inr (r2, []))
         else if satisfiedWriteConcern r1 \<ge> ar_writeConcern r1 then
           (case requestMarkSuccess r1 of
              Inl e \<Rightarrow> Inl e
            | Inr r2 \<Rightarrow>
                if allSecondariesSuccessfullyAnswered r2 then Inr (r2, [])
                else Inr (sendRequestToSecondaries r2))
         else Inr (sendRequestToSecondaries r1))"

text \<open>\<^verbatim>\<open>run()\<close> is called once, by the master node that creates the request; \<^verbatim>\<open>onAllResponsesRecieved\<close> starts the next round.\<close>

definition AddMessageRequest_run ::
    "SecondarySnapshot list option \<Rightarrow> AddMessageRequest \<Rightarrow> cpp_exception + AddMessageRequest \<times> ar_out list" where
  [simp]: "AddMessageRequest_run masterNode r = ar_start masterNode r"

definition onAllResponsesRecieved ::
    "SecondarySnapshot list option \<Rightarrow> AddMessageRequest \<Rightarrow> cpp_exception + AddMessageRequest \<times> ar_out list" where
  [simp]: "onAllResponsesRecieved masterNode r = ar_start masterNode r"

definition ar_onResponseRecieved ::
    "size_t \<Rightarrow> AddMessageStatus option \<Rightarrow> AddMessageRequest \<Rightarrow> cpp_exception + AddMessageRequest" where
  "ar_onResponseRecieved secondaryId response r =
     (let status = (case response of
                      Some OK \<Rightarrow> ADDED | Some NOT_ALLOWED \<Rightarrow> NOT_ADDED | None \<Rightarrow> ERROR);
          r' = r\<lparr>ar_statuses := AList.update secondaryId status (ar_statuses r)\<rparr>
      in if satisfiedWriteConcern r' \<ge> ar_writeConcern r' then requestMarkSuccess r' else Inr r')"

section \<open>Events\<close>

datatype ar_event =
    AR_Response nat "AddMessageStatus option" "SecondarySnapshot list option"
  | AR_WaitOver "SecondarySnapshot list option"

text \<open>The lambda attached to an answer.\<close>

definition ar_onResponse ::
    "nat \<Rightarrow> AddMessageStatus option \<Rightarrow> SecondarySnapshot list option \<Rightarrow> AddMessageRequest \<Rightarrow>
     cpp_exception + AddMessageRequest \<times> ar_out list" where
  "ar_onResponse n response masterNode r =
     (if length (ar_sent r) \<le> n then Inr (r, [])
      else
        (let secondaryId = ar_sent r ! n;
             r0 = r\<lparr>ar_sent := take n (ar_sent r) @ drop (Suc n) (ar_sent r)\<rparr>
         in case ar_onResponseRecieved secondaryId response r0 of
              Inl e \<Rightarrow> Inl e
            | Inr r1 \<Rightarrow>
                (let r2 = r1\<lparr>ar_pendingWrites := ar_pendingWrites r1 - 1\<rparr>
                 in if ar_pendingWrites r2 = 0 then onAllResponsesRecieved masterNode r2 else Inr (r2, []))))"

text \<open>Everything after \<^verbatim>\<open>run()\<close> is one of these events.\<close>

fun ar_step :: "AddMessageRequest \<Rightarrow> ar_event \<Rightarrow> cpp_exception + AddMessageRequest \<times> ar_out list" where
  "ar_step r (AR_Response n response masterNode) = ar_onResponse n response masterNode r"
| "ar_step r (AR_WaitOver masterNode) =
     (if ar_waits r = 0 then Inr (r, []) else ar_start masterNode (r\<lparr>ar_waits := ar_waits r - 1\<rparr>))"

section \<open>A run of a request\<close>

text \<open>
  A run pairs the request with two logs: the ids of the secondaries that have answered
  \<^verbatim>\<open>OK\<close>, and what the request has sent. A snapshot is the content of a hash map, so its ids
  are distinct; fewer than \<open>2\<^sup>31\<close> secondaries keep the \<^verbatim>\<open>int\<close> counters from overflowing.
\<close>

definition snapshot_ok :: "SecondarySnapshot list option \<Rightarrow> bool" where
  "snapshot_ok s \<longleftrightarrow> (case s of None \<Rightarrow> True
     | Some snapshot \<Rightarrow> distinct (map snap_id snapshot) \<and> length snapshot < 2 ^ 31)"

fun event_ok :: "ar_event \<Rightarrow> bool" where
  "event_ok (AR_Response _ _ s) = snapshot_ok s"
| "event_ok (AR_WaitOver s) = snapshot_ok s"

record AddRun =
  run_request :: AddMessageRequest
  run_oks :: "size_t list"
  run_out :: "ar_out list"

definition event_oks :: "AddMessageRequest \<Rightarrow> ar_event \<Rightarrow> size_t list" where
  "event_oks r ev =
     (case ev of
        AR_Response n (Some OK) _ \<Rightarrow> if n < length (ar_sent r) then [ar_sent r ! n] else []
      | _ \<Rightarrow> [])"

definition ar_run_step :: "cpp_exception + AddRun \<Rightarrow> ar_event \<Rightarrow> cpp_exception + AddRun" where
  "ar_run_step x ev =
     (case x of
        Inl e \<Rightarrow> Inl e
      | Inr run \<Rightarrow>
          if \<not> event_ok ev then Inr run
          else
            (case ar_step (run_request run) ev of
               Inl e \<Rightarrow> Inl e
             | Inr (r, out) \<Rightarrow>
                 Inr \<lparr>run_request = r, run_oks = run_oks run @ event_oks (run_request run) ev,
                      run_out = run_out run @ out\<rparr>))"

text \<open>\<^verbatim>\<open>create\<close> and \<^verbatim>\<open>run\<close>.\<close>

definition ar_begin ::
    "size_t \<Rightarrow> string \<Rightarrow> size_t \<Rightarrow> SecondarySnapshot list option \<Rightarrow> cpp_exception + AddRun" where
  "ar_begin messageId message writeConcern masterNode =
     (case AddMessageRequest_run masterNode (AddMessageRequest_create messageId message writeConcern) of
        Inl e \<Rightarrow> Inl e
      | Inr (r, out) \<Rightarrow> Inr \<lparr>run_request = r, run_oks = [], run_out = out\<rparr>)"

section \<open>The invariant\<close>

text \<open>
  The counter counts the outstanding answers; the flag tells whether the promise is set; an
  \<^const>\<open>ADDED\<close> status comes from an answer; a request without a set promise waits for an
  answer or a timer, never both; a successful promise means that enough secondaries have
  answered \<^verbatim>\<open>OK\<close>.
\<close>

definition added_ids :: "AddMessageRequest \<Rightarrow> size_t set" where
  "added_ids r = {k. map_of (ar_statuses r) k = Some ADDED}"

definition ar_core :: "AddMessageRequest \<Rightarrow> size_t list \<Rightarrow> bool" where
  "ar_core r oks \<longleftrightarrow>
     ar_promiseFilled r = (ar_promise r \<noteq> VP_Unset) \<and>
     distinct (map fst (ar_statuses r)) \<and>
     added_ids r \<subseteq> set oks \<and>
     (ar_promise r = VP_Value \<longrightarrow> card (set oks) < 2 ^ 31 \<longrightarrow> unat (ar_writeConcern r) \<le> card (set oks))"

definition ar_pending_ok :: "AddMessageRequest \<Rightarrow> bool" where
  "ar_pending_ok r \<longleftrightarrow>
     unat (ar_pendingWrites r) = length (ar_sent r) \<and> length (ar_sent r) < 2 ^ 31 \<and>
     (ar_sent r \<noteq> [] \<longrightarrow> ar_waits r = 0) \<and> ar_waits r \<le> 1"

definition ar_ok :: "AddMessageRequest \<Rightarrow> size_t list \<Rightarrow> bool" where
  "ar_ok r oks \<longleftrightarrow> ar_core r oks \<and> ar_pending_ok r \<and>
     (ar_sent r = [] \<longrightarrow> ar_waits r = 0 \<longrightarrow> ar_promiseFilled r)"

lemma added_ids_update [simp]:
  "added_ids (r\<lparr>ar_promiseFilled := b\<rparr>) = added_ids r"
  "added_ids (r\<lparr>ar_promise := p\<rparr>) = added_ids r"
  "added_ids (r\<lparr>ar_pendingWrites := n\<rparr>) = added_ids r"
  "added_ids (r\<lparr>ar_secondariesSnapshot := s\<rparr>) = added_ids r"
  "added_ids (r\<lparr>ar_sent := ids\<rparr>) = added_ids r"
  "added_ids (r\<lparr>ar_waits := w\<rparr>) = added_ids r"
  by (simp_all add: added_ids_def)

subsection \<open>Counting\<close>

lemma added_count:
  assumes "distinct (map fst (ar_statuses r))"
  shows "length (filter (\<lambda>(_, status). status = ADDED) (ar_statuses r)) = card (added_ids r)"
proof -
  let ?f = "filter (\<lambda>(_, status). status = ADDED) (ar_statuses r)"
  have "set (map fst ?f) = added_ids r"
    using assms by (force simp: added_ids_def)
  moreover have "distinct (map fst ?f)" using assms by (simp add: distinct_map_filter)
  ultimately show ?thesis by (metis distinct_card length_map)
qed

lemma int_size: "n < 2 ^ 31 \<Longrightarrow> unat (scast (word_of_nat n :: 32 word) :: size_t) = n"
proof -
  assume n: "n < 2 ^ 31"
  have "sint (word_of_nat n :: 32 word) = int n"
    using n by (simp add: sint_uint unsigned_of_nat take_bit_nat_eq_self signed_take_bit_int_eq_self)
  then have "(scast (word_of_nat n :: 32 word) :: size_t) = word_of_nat n"
    by (metis of_int_of_nat_eq of_int_sint scast_eq)
  then show ?thesis using n by (simp add: unat_of_nat)
qed

lemma satisfiedWriteConcern_count:
  assumes "distinct (map fst (ar_statuses r))" "card (added_ids r) < 2 ^ 31"
  shows "unat (satisfiedWriteConcern r) = card (added_ids r)"
  using added_count [OF assms(1)] int_size [OF assms(2)] by (simp add: satisfiedWriteConcern_def)

subsection \<open>The parts of a step\<close>

definition send_ids :: "AddMessageRequest \<Rightarrow> SecondarySnapshot list \<Rightarrow> size_t list" where
  "send_ids r snapshot = map snap_id (filter (needToSend r) snapshot)"

definition send_outs :: "AddMessageRequest \<Rightarrow> SecondarySnapshot list \<Rightarrow> ar_out list" where
  "send_outs r snapshot =
     map (\<lambda>s. AR_Send (snap_endpoint s) (snap_id s) (ar_messageId r) (ar_message r))
       (filter (needToSend r) snapshot)"

lemma needToSend_update [simp]:
  "needToSend (r\<lparr>ar_pendingWrites := n, ar_sent := ids\<rparr>) = needToSend r"
  by (simp add: needToSend_def fun_eq_iff)

lemma sendLoop_eq:
  "sendLoop ss r =
     (r\<lparr>ar_pendingWrites := ar_pendingWrites r + word_of_nat (length (send_ids r ss)),
        ar_sent := ar_sent r @ send_ids r ss\<rparr>, send_outs r ss)"
  by (induction ss arbitrary: r) (simp_all add: send_ids_def send_outs_def add.assoc)

lemma sendRequestToSecondaries_eq:
  assumes "ar_pendingWrites r = 0" "ar_sent r = []" "length (ar_secondariesSnapshot r) < 2 ^ 31"
  shows "sendRequestToSecondaries r =
     (let ids = send_ids r (ar_secondariesSnapshot r)
      in if ids = [] then (r\<lparr>ar_waits := Suc (ar_waits r)\<rparr>, [AR_Wait])
         else (r\<lparr>ar_pendingWrites := word_of_nat (length ids), ar_sent := ids\<rparr>,
               send_outs r (ar_secondariesSnapshot r)))"
proof -
  let ?ids = "send_ids r (ar_secondariesSnapshot r)"
  have l: "length ?ids \<le> length (ar_secondariesSnapshot r)" by (simp add: send_ids_def)
  then have u: "unat (word_of_nat (length ?ids) :: size_t) = length ?ids"
    using assms(3) by (simp add: unat_of_nat)
  have sl: "sendLoop (ar_secondariesSnapshot r) r =
      (r\<lparr>ar_pendingWrites := word_of_nat (length ?ids), ar_sent := ?ids\<rparr>, send_outs r (ar_secondariesSnapshot r))"
    using assms(1,2) by (simp add: sendLoop_eq)
  show ?thesis
  proof (cases "?ids = []")
    case True
    have "r\<lparr>ar_pendingWrites := 0, ar_sent := []\<rparr> = r" using assms(1,2) by simp
    moreover have "send_outs r (ar_secondariesSnapshot r) = []"
      using True by (simp add: send_ids_def send_outs_def)
    ultimately show ?thesis
      using True assms(1) sl unfolding sendRequestToSecondaries_def Let_def True by simp
  next
    case False
    have "(word_of_nat (length ?ids) :: size_t) \<noteq> 0"
    proof
      assume "(word_of_nat (length ?ids) :: size_t) = 0"
      then have "unat (word_of_nat (length ?ids) :: size_t) = 0" by (simp only: unat_0)
      then show False using u False by simp
    qed
    then show ?thesis using False assms(1) sl by (simp add: sendRequestToSecondaries_def Let_def)
  qed
qed

lemma requestMark_eq:
  assumes "ar_promiseFilled r = (ar_promise r \<noteq> VP_Unset)"
  shows "requestMarkSuccess r =
      Inr (if ar_promiseFilled r then r else r\<lparr>ar_promiseFilled := True, ar_promise := VP_Value\<rparr>)"
    and "requestMarkFailure r =
      Inr (if ar_promiseFilled r then r
           else r\<lparr>ar_promiseFilled := True, ar_promise := VP_Exception ''internal request error''\<rparr>)"
  using assms by (simp_all add: requestMarkSuccess_def requestMarkFailure_def vp_set_def)

lemma requestMarkSuccess_core:
  assumes core: "ar_core r oks" and enough: "satisfiedWriteConcern r \<ge> ar_writeConcern r"
  shows "\<exists>p. requestMarkSuccess r = Inr (r\<lparr>ar_promiseFilled := True, ar_promise := p\<rparr>) \<and>
           ar_core (r\<lparr>ar_promiseFilled := True, ar_promise := p\<rparr>) oks"
proof (cases "ar_promiseFilled r")
  case True
  then have "r\<lparr>ar_promiseFilled := True, ar_promise := ar_promise r\<rparr> = r" by simp
  moreover have "requestMarkSuccess r = Inr r" using True by (simp add: requestMarkSuccess_def)
  ultimately show ?thesis using core by metis
next
  case False
  let ?r = "r\<lparr>ar_promiseFilled := True, ar_promise := VP_Value\<rparr>"
  have f: "finite (set oks)" "added_ids r \<subseteq> set oks" using core by (simp_all add: ar_core_def)
  have "unat (ar_writeConcern r) \<le> card (set oks)" if "card (set oks) < 2 ^ 31"
  proof -
    have c: "card (added_ids r) \<le> card (set oks)" using f by (simp add: card_mono)
    then have "unat (satisfiedWriteConcern r) = card (added_ids r)"
      using core that by (intro satisfiedWriteConcern_count) (simp_all add: ar_core_def)
    then show ?thesis using enough c by (simp add: word_le_nat_alt)
  qed
  moreover have "added_ids ?r = added_ids r" by (simp add: added_ids_def)
  ultimately have "ar_core ?r oks" using core f(2) by (simp add: ar_core_def)
  moreover have "requestMarkSuccess r = Inr ?r"
    using core False by (simp add: requestMark_eq ar_core_def)
  ultimately show ?thesis by blast
qed

lemma map_of_filter_keys:
  "map_of (filter (\<lambda>(k, _). P k) xs) k = (if P k then map_of xs k else None)"
  by (induction xs) auto

lemma updateData_core:
  assumes "ar_core r oks"
  shows "ar_core (snd (updateData s r)) oks"
proof (cases s)
  case None
  then show ?thesis using assms by (simp add: updateData_def)
next
  case (Some snapshot)
  let ?P = "\<lambda>k :: size_t. (ucast k :: 32 word) \<in> set (presentSecondaries snapshot)"
  have "added_ids (snd (updateData s r)) \<subseteq> added_ids r"
    using Some by (auto simp: added_ids_def updateData_def map_of_filter_keys split: if_splits)
  moreover have "distinct (map fst (filter (\<lambda>(k, _). ?P k) (ar_statuses r)))"
    using assms by (simp add: ar_core_def distinct_map_filter)
  ultimately show ?thesis
    using assms Some by (auto simp: ar_core_def updateData_def)
qed

definition ar_idle :: "AddMessageRequest \<Rightarrow> bool" where
  "ar_idle r \<longleftrightarrow> ar_pendingWrites r = 0 \<and> ar_sent r = [] \<and> ar_waits r = 0"

lemma sendRequestToSecondaries_ok:
  assumes core: "ar_core r oks" and idle: "ar_idle r" and l: "length (ar_secondariesSnapshot r) < 2 ^ 31"
  shows "ar_ok (fst (sendRequestToSecondaries r)) oks"
proof -
  let ?ids = "send_ids r (ar_secondariesSnapshot r)"
  have b: "length ?ids < 2 ^ 31" using l by (simp add: send_ids_def order.strict_trans1 [OF length_filter_le])
  have add: "added_ids (r\<lparr>ar_waits := w\<rparr>) = added_ids r"
    "added_ids (r\<lparr>ar_pendingWrites := p, ar_sent := ids\<rparr>) = added_ids r" for w p ids
    by (simp_all add: added_ids_def)
  show ?thesis
  proof (cases "?ids = []")
    case True
    then have "fst (sendRequestToSecondaries r) = r\<lparr>ar_waits := 1\<rparr>"
      using sendRequestToSecondaries_eq [of r] idle l by (simp add: ar_idle_def Let_def)
    then show ?thesis using core idle add by (simp add: ar_ok_def ar_core_def ar_pending_ok_def ar_idle_def)
  next
    case False
    then have e: "fst (sendRequestToSecondaries r) = r\<lparr>ar_pendingWrites := word_of_nat (length ?ids), ar_sent := ?ids\<rparr>"
      using sendRequestToSecondaries_eq [of r] idle l by (simp add: ar_idle_def Let_def)
    have "unat (word_of_nat (length ?ids) :: size_t) = length ?ids" using b by (simp add: unat_of_nat)
    then show ?thesis
      unfolding e using core idle add b False by (simp add: ar_ok_def ar_core_def ar_pending_ok_def ar_idle_def)
  qed
qed

lemma ar_start_ok:
  assumes core: "ar_core r oks" and idle: "ar_idle r" and s: "snapshot_ok s"
  shows "\<exists>r' out. ar_start s r = Inr (r', out) \<and> ar_ok r' oks"
proof (cases s)
  case None
  let ?r = "r\<lparr>ar_promiseFilled := True, ar_promise := VP_Exception ''internal request error''\<rparr>"
  have "added_ids ?r = added_ids r" by (simp add: added_ids_def)
  then have "ar_start s r = Inr (if ar_promiseFilled r then r else ?r, []) \<and>
      ar_ok (if ar_promiseFilled r then r else ?r) oks"
    using None core idle
    by (auto simp: ar_start_def updateData_def requestMark_eq ar_core_def ar_ok_def ar_pending_ok_def ar_idle_def)
  then show ?thesis by blast
next
  case (Some snapshot)
  define r1 where "r1 = snd (updateData s r)"
  have c1: "ar_core r1 oks" unfolding r1_def using core by (rule updateData_core)
  have i1: "ar_idle r1" "ar_secondariesSnapshot r1 = snapshot"
    using idle Some by (simp_all add: r1_def updateData_def ar_idle_def)
  have l: "length snapshot < 2 ^ 31" using s Some by (simp add: snapshot_ok_def)
  have u: "updateData s r = (True, r1)" using Some by (simp add: r1_def updateData_def)
  show ?thesis
  proof (cases "satisfiedWriteConcern r1 \<ge> ar_writeConcern r1")
    case False
    then have "ar_start s r = Inr (sendRequestToSecondaries r1)" by (simp add: ar_start_def u)
    then show ?thesis
      using sendRequestToSecondaries_ok [OF c1 i1(1)] i1(2) l by (metis prod.collapse)
  next
    case True
    from requestMarkSuccess_core [OF c1 True] obtain p where
      p: "requestMarkSuccess r1 = Inr (r1\<lparr>ar_promiseFilled := True, ar_promise := p\<rparr>)"
        "ar_core (r1\<lparr>ar_promiseFilled := True, ar_promise := p\<rparr>) oks" by blast
    let ?r2 = "r1\<lparr>ar_promiseFilled := True, ar_promise := p\<rparr>"
    have i2: "ar_idle ?r2" "ar_secondariesSnapshot ?r2 = snapshot" using i1 by (simp_all add: ar_idle_def)
    show ?thesis
    proof (cases "allSecondariesSuccessfullyAnswered ?r2")
      case all: True
      then have "ar_start s r = Inr (?r2, [])" using True p(1) by (simp add: ar_start_def u)
      moreover have "ar_ok ?r2 oks" using p(2) i2(1) by (simp add: ar_ok_def ar_pending_ok_def ar_idle_def)
      ultimately show ?thesis by blast
    next
      case False
      then have "ar_start s r = Inr (sendRequestToSecondaries ?r2)"
        using True p(1) by (simp add: ar_start_def u)
      then show ?thesis
        using sendRequestToSecondaries_ok [OF p(2) i2(1)] i2(2) l by (metis prod.collapse)
    qed
  qed
qed

lemma ar_onResponseRecieved_ok:
  assumes core: "ar_core r oks"
    and oks: "response = Some OK \<Longrightarrow> k \<in> set oks"
  shows "\<exists>filled p ss. ar_onResponseRecieved k response r =
           Inr (r\<lparr>ar_statuses := ss, ar_promiseFilled := filled, ar_promise := p\<rparr>) \<and>
           ar_core (r\<lparr>ar_statuses := ss, ar_promiseFilled := filled, ar_promise := p\<rparr>) oks"
proof -
  define status where "status = (case response of
      Some OK \<Rightarrow> ADDED | Some NOT_ALLOWED \<Rightarrow> NOT_ADDED | None \<Rightarrow> ERROR)"
  define r1 where "r1 = r\<lparr>ar_statuses := AList.update k status (ar_statuses r)\<rparr>"
  have "status = ADDED \<Longrightarrow> response = Some OK"
    by (auto simp: status_def split: option.splits AddMessageStatus.splits)
  then have "added_ids r1 \<subseteq> set oks"
    using core oks by (auto simp: added_ids_def r1_def update_conv' ar_core_def split: if_splits)
  moreover have "distinct (map fst (ar_statuses r1))"
    using core by (simp add: r1_def ar_core_def distinct_update)
  ultimately have c1: "ar_core r1 oks" using core by (simp add: ar_core_def r1_def)
  have r: "ar_onResponseRecieved k response r =
      (if satisfiedWriteConcern r1 \<ge> ar_writeConcern r1 then requestMarkSuccess r1 else Inr r1)"
    unfolding ar_onResponseRecieved_def Let_def r1_def status_def by simp
  show ?thesis
  proof (cases "satisfiedWriteConcern r1 \<ge> ar_writeConcern r1")
    case True
    from requestMarkSuccess_core [OF c1 True] show ?thesis using r True unfolding r1_def by auto
  next
    case False
    have "r\<lparr>ar_statuses := ss, ar_promiseFilled := ar_promiseFilled r, ar_promise := ar_promise r\<rparr> =
        r\<lparr>ar_statuses := ss\<rparr>" for ss by simp
    then show ?thesis using r False c1 unfolding r1_def by metis
  qed
qed

lemma ar_core_log: "ar_core r oks \<Longrightarrow> ar_core r (oks @ xs)"
proof -
  assume core: "ar_core r oks"
  have "card (set oks) \<le> card (set (oks @ xs))" by (simp add: card_mono)
  then have "ar_promise r = VP_Value \<longrightarrow> card (set (oks @ xs)) < 2 ^ 31 \<longrightarrow>
      unat (ar_writeConcern r) \<le> card (set (oks @ xs))"
    using core unfolding ar_core_def by (meson le_less_trans le_trans)
  moreover have "added_ids r \<subseteq> set (oks @ xs)" using core by (auto simp: ar_core_def)
  ultimately show ?thesis using core unfolding ar_core_def by blast
qed

lemma ar_core_update [simp]:
  "ar_core (r\<lparr>ar_sent := ids\<rparr>) oks = ar_core r oks"
  "ar_core (r\<lparr>ar_pendingWrites := n\<rparr>) oks = ar_core r oks"
  "ar_core (r\<lparr>ar_waits := w\<rparr>) oks = ar_core r oks"
  by (simp_all add: ar_core_def)

lemma ar_onResponse_ok:
  assumes ok: "ar_ok r oks" and s: "snapshot_ok s" and n: "n < length (ar_sent r)"
  shows "\<exists>r' out. ar_onResponse n response s r = Inr (r', out) \<and>
           ar_ok r' (oks @ event_oks r (AR_Response n response s))"
proof -
  let ?k = "ar_sent r ! n"
  let ?sent = "take n (ar_sent r) @ drop (Suc n) (ar_sent r)"
  let ?oks = "oks @ event_oks r (AR_Response n response s)"
  let ?r0 = "r\<lparr>ar_sent := ?sent\<rparr>"
  have core: "ar_core r oks" and pend: "ar_pending_ok r" using ok by (simp_all add: ar_ok_def)
  have w: "ar_waits r = 0" using pend n by (auto simp: ar_pending_ok_def)
  have c0: "ar_core ?r0 ?oks" using ar_core_log [OF core] by simp
  have k: "response = Some OK \<Longrightarrow> ?k \<in> set ?oks" using n by (simp add: event_oks_def)
  from ar_onResponseRecieved_ok [OF c0, of response ?k, OF k] obtain filled p ss where r1:
    "ar_onResponseRecieved ?k response ?r0 =
       Inr (?r0\<lparr>ar_statuses := ss, ar_promiseFilled := filled, ar_promise := p\<rparr>)"
    "ar_core (?r0\<lparr>ar_statuses := ss, ar_promiseFilled := filled, ar_promise := p\<rparr>) ?oks"
    by blast
  define r2 where "r2 = ?r0\<lparr>ar_statuses := ss, ar_promiseFilled := filled, ar_promise := p,
      ar_pendingWrites := ar_pendingWrites r - 1\<rparr>"
  have c2: "ar_core r2 ?oks" using r1(2) by (simp add: ar_core_def r2_def)
  have res: "ar_onResponse n response s r = (if ar_pendingWrites r2 = 0 then ar_start s r2 else Inr (r2, []))"
    using n r1(1) by (simp add: ar_onResponse_def Let_def r2_def)
  have sent: "length (ar_sent r) = Suc (length ?sent)" using n by simp
  have up: "unat (ar_pendingWrites r) = Suc (length ?sent)"
    using pend sent unfolding ar_pending_ok_def by argo
  have nz: "ar_pendingWrites r \<noteq> 0"
  proof
    assume "ar_pendingWrites r = 0"
    then show False using up by simp
  qed
  have "unat (ar_pendingWrites r - 1) = length ?sent" unfolding unat_minus_one [OF nz] up by simp
  then have u: "unat (ar_pendingWrites r2) = length ?sent" by (simp add: r2_def)
  show ?thesis
  proof (cases "ar_pendingWrites r2 = 0")
    case True
    then have "length ?sent = 0" using u by simp
    then have "?sent = []" by blast
    then have "ar_idle r2" using True w by (simp add: ar_idle_def r2_def)
    then show ?thesis using ar_start_ok [OF c2 _ s] res True by simp
  next
    case False
    then have "unat (ar_pendingWrites r2) \<noteq> 0" by (simp add: unat_eq_zero)
    then have ne: "?sent \<noteq> []" using u by auto
    have r2: "ar_sent r2 = ?sent" "ar_waits r2 = 0" using w by (simp_all add: r2_def)
    have "length ?sent < length (ar_sent r)" unfolding sent by (rule lessI)
    moreover have "length (ar_sent r) < 2 ^ 31" using pend unfolding ar_pending_ok_def by blast
    ultimately have "length ?sent < 2 ^ 31" by (rule less_trans)
    then have "ar_pending_ok r2" unfolding ar_pending_ok_def r2 using u by simp
    then have "ar_ok r2 ?oks" unfolding ar_ok_def r2 using c2 ne by blast
    then show ?thesis using res False by simp
  qed
qed

definition ar_run_ok :: "cpp_exception + AddRun \<Rightarrow> bool" where
  "ar_run_ok x \<longleftrightarrow> (case x of Inl _ \<Rightarrow> False | Inr run \<Rightarrow> ar_ok (run_request run) (run_oks run))"

lemma ar_run_step_ok: "ar_run_ok x \<Longrightarrow> ar_run_ok (ar_run_step x ev)"
proof (cases x)
  case (Inr run)
  assume "ar_run_ok x"
  then have ok: "ar_ok (run_request run) (run_oks run)" by (simp add: Inr ar_run_ok_def)
  show ?thesis
  proof (cases "event_ok ev")
    case False
    then show ?thesis using ok by (simp add: Inr ar_run_ok_def ar_run_step_def)
  next
    case True
    have "\<exists>r' out. ar_step (run_request run) ev = Inr (r', out) \<and>
        ar_ok r' (run_oks run @ event_oks (run_request run) ev)"
    proof (cases ev)
      case (AR_Response n response s)
      show ?thesis
      proof (cases "n < length (ar_sent (run_request run))")
        case n: True
        then show ?thesis using ar_onResponse_ok [OF ok _ n] True AR_Response by simp
      next
        case False
        then show ?thesis
          using ok AR_Response
          by (simp add: ar_onResponse_def event_oks_def split: option.split AddMessageStatus.split)
      qed
    next
      case (AR_WaitOver s)
      show ?thesis
      proof (cases "ar_waits (run_request run) = 0")
        case False
        let ?r = "(run_request run)\<lparr>ar_waits := ar_waits (run_request run) - 1\<rparr>"
        have "ar_sent (run_request run) = []" "ar_waits (run_request run) = 1"
          using ok False by (auto simp: ar_ok_def ar_pending_ok_def)
        moreover from this have "ar_pendingWrites (run_request run) = 0"
          using ok by (simp add: ar_ok_def ar_pending_ok_def unat_eq_zero)
        ultimately have "ar_idle ?r" by (simp add: ar_idle_def)
        moreover have "ar_core ?r (run_oks run)" using ok by (simp add: ar_ok_def ar_core_def)
        ultimately show ?thesis
          using ar_start_ok [of ?r "run_oks run" s] True False AR_WaitOver by (simp add: event_oks_def)
      qed (use ok AR_WaitOver in \<open>simp add: event_oks_def\<close>)
    qed
    then show ?thesis using True by (auto simp: Inr ar_run_ok_def ar_run_step_def)
  qed
qed (simp add: ar_run_ok_def)

lemma ar_begin_ok:
  assumes "snapshot_ok s"
  shows "ar_run_ok (ar_begin i m w s)"
proof -
  have "ar_core (AddMessageRequest_create i m w) []" "ar_idle (AddMessageRequest_create i m w)"
    by (simp_all add: ar_core_def AddMessageRequest_create_def added_ids_def ar_idle_def)
  from ar_start_ok [OF this assms] show ?thesis by (auto simp: ar_begin_def ar_run_ok_def)
qed

interpretation add_request: step_machine ar_run_step "ar_begin i m w (Some [])" ar_run_ok
  for i m w
  by unfold_locales (simp_all add: ar_begin_ok snapshot_ok_def ar_run_step_ok)

section \<open>What stays\<close>

definition ar_const :: "AddMessageRequest \<Rightarrow> size_t \<times> size_t \<times> string" where
  "ar_const r = (ar_writeConcern r, ar_messageId r, ar_message r)"

lemma ar_const_update [simp]:
  "ar_const (r\<lparr>ar_promiseFilled := b\<rparr>) = ar_const r" "ar_const (r\<lparr>ar_promise := p\<rparr>) = ar_const r"
  "ar_const (r\<lparr>ar_pendingWrites := n\<rparr>) = ar_const r" "ar_const (r\<lparr>ar_sent := ids\<rparr>) = ar_const r"
  "ar_const (r\<lparr>ar_waits := w\<rparr>) = ar_const r" "ar_const (r\<lparr>ar_statuses := ss\<rparr>) = ar_const r"
  "ar_const (r\<lparr>ar_secondariesSnapshot := s\<rparr>) = ar_const r"
  by (simp_all add: ar_const_def)

lemma ar_const_mark:
  "requestMarkSuccess r = Inr r' \<Longrightarrow> ar_const r' = ar_const r"
  "requestMarkFailure r = Inr r' \<Longrightarrow> ar_const r' = ar_const r"
  by (auto simp: requestMarkSuccess_def requestMarkFailure_def split: if_splits sum.splits)

lemma ar_const_updateData: "ar_const (snd (updateData s r)) = ar_const r"
  by (simp add: updateData_def split: option.split)

lemma ar_const_send: "ar_const (fst (sendRequestToSecondaries r)) = ar_const r"
  by (simp add: sendRequestToSecondaries_def sendLoop_eq Let_def)

lemma ar_const_send': "sendRequestToSecondaries r = (r', out) \<Longrightarrow> ar_const r' = ar_const r"
  using ar_const_send [of r] by simp

lemma ar_const_start: "ar_start s r = Inr (r', out) \<Longrightarrow> ar_const r' = ar_const r"
proof -
  assume a: "ar_start s r = Inr (r', out)"
  obtain ok r1 where u: "updateData s r = (ok, r1)" by (cases "updateData s r")
  have "ar_const r' = ar_const r1"
    using a by (auto simp: ar_start_def u split: if_splits sum.splits dest!: ar_const_mark ar_const_send')
  then show ?thesis using ar_const_updateData [of s r] u by simp
qed

lemma ar_const_step: "ar_step r ev = Inr (r', out) \<Longrightarrow> ar_const r' = ar_const r"
  by (cases ev)
    (auto simp: ar_onResponse_def ar_onResponseRecieved_def Let_def
      dest!: ar_const_start ar_const_mark split: if_splits sum.splits)

lemma ar_run_stuck [simp]: "run_steps ar_run_step (Inl e) evs = Inl e"
  by (induction evs) (simp_all add: ar_run_step_def)

lemma ar_const_run:
  "run_steps ar_run_step (Inr run) evs = Inr run' \<Longrightarrow> ar_const (run_request run') = ar_const (run_request run)"
proof (induction evs arbitrary: run)
  case (Cons ev evs)
  then obtain run1 where run1: "ar_run_step (Inr run) ev = Inr run1"
    "run_steps ar_run_step (Inr run1) evs = Inr run'"
    by (cases "ar_run_step (Inr run) ev") auto
  then have "ar_const (run_request run1) = ar_const (run_request run)"
    by (auto simp: ar_run_step_def dest: ar_const_step split: if_splits sum.splits)
  then show ?case using Cons.IH [OF run1(2)] by simp
qed simp

section \<open>When every secondary answers\<close>

text \<open>The state after the first \<open>k\<close> secondaries of the snapshot have answered \<^verbatim>\<open>OK\<close>.\<close>

definition all_added :: "size_t list \<Rightarrow> (size_t \<times> Status) list" where
  "all_added ks = map (\<lambda>k. (k, ADDED)) ks"

lemma all_added_count [simp]:
  "length (filter (\<lambda>(_, status). status = ADDED) (all_added ks)) = length ks"
  "length (filter (\<lambda>(_, status). status \<noteq> ERROR) (all_added ks)) = length ks"
  by (induction ks) (simp_all add: all_added_def)

lemma update_all_added: "k \<notin> set ks \<Longrightarrow> AList.update k ADDED (all_added ks) = all_added (ks @ [k])"
  by (induction ks) (auto simp: all_added_def)

lemma word_minus_1: "(word_of_nat (Suc n) :: size_t) - 1 = word_of_nat n"
  by simp

lemma ar_response_ok_step:
  assumes sent: "ar_sent r = k # ks" and pend: "ar_pendingWrites r = word_of_nat (Suc (length ks))"
    and st: "ar_statuses r = all_added done" and new: "k \<notin> set done"
    and p: "ar_promiseFilled r = (ar_promise r \<noteq> VP_Unset)" "ar_promise r \<noteq> VP_Unset \<longrightarrow> ar_promise r = VP_Value"
    and l: "Suc (length done) < 2 ^ 31"
  shows "\<exists>r'. ar_onResponseRecieved k (Some OK) (r\<lparr>ar_sent := ks\<rparr>) = Inr r' \<and>
     ar_sent r' = ks \<and> ar_pendingWrites r' = ar_pendingWrites r \<and> ar_statuses r' = all_added (done @ [k]) \<and>
     ar_waits r' = ar_waits r \<and> ar_secondariesSnapshot r' = ar_secondariesSnapshot r \<and> ar_const r' = ar_const r \<and>
     ar_promiseFilled r' = (ar_promise r' \<noteq> VP_Unset) \<and> (ar_promise r' \<noteq> VP_Unset \<longrightarrow> ar_promise r' = VP_Value)"
proof -
  let ?r = "r\<lparr>ar_sent := ks, ar_statuses := all_added (done @ [k])\<rparr>"
  have "ar_onResponseRecieved k (Some OK) (r\<lparr>ar_sent := ks\<rparr>) =
      (if satisfiedWriteConcern ?r \<ge> ar_writeConcern ?r then requestMarkSuccess ?r else Inr ?r)"
    using st new by (simp add: ar_onResponseRecieved_def Let_def update_all_added)
  moreover have "requestMarkSuccess ?r =
      Inr (if ar_promiseFilled ?r then ?r else ?r\<lparr>ar_promiseFilled := True, ar_promise := VP_Value\<rparr>)"
    using p(1) by (intro requestMark_eq(1)) simp
  ultimately show ?thesis using p by (auto simp: ar_const_def)
qed

lemma ar_start_all_answered:
  assumes st: "ar_statuses r = all_added (map snap_id snap)" and l: "length snap < 2 ^ 31"
    and w: "unat (ar_writeConcern r) \<le> length snap"
    and p: "ar_promiseFilled r = (ar_promise r \<noteq> VP_Unset)" "ar_promise r \<noteq> VP_Unset \<longrightarrow> ar_promise r = VP_Value"
  shows "\<exists>r'. ar_start (Some snap) r = Inr (r', []) \<and> ar_promise r' = VP_Value \<and>
           ar_sent r' = ar_sent r \<and> ar_waits r' = ar_waits r"
proof -
  let ?r = "r\<lparr>ar_secondariesSnapshot := snap\<rparr>"
  have "filter (\<lambda>(k, _). (ucast k :: 32 word) \<in> set (presentSecondaries snap)) (ar_statuses r) = ar_statuses r"
    unfolding st by (auto simp: all_added_def presentSecondaries_def filter_id_conv)
  then have u: "updateData (Some snap) r = (True, ?r)" by (simp add: updateData_def)
  have c: "unat (satisfiedWriteConcern ?r) = length snap"
    using l st by (simp add: satisfiedWriteConcern_def int_size)
  then have s: "satisfiedWriteConcern ?r \<ge> ar_writeConcern ?r" using w by (simp add: word_le_nat_alt)
  have m: "requestMarkSuccess ?r =
      Inr (if ar_promiseFilled ?r then ?r else ?r\<lparr>ar_promiseFilled := True, ar_promise := VP_Value\<rparr>)"
    using p(1) by (intro requestMark_eq(1)) simp
  have "allSecondariesSuccessfullyAnswered (if ar_promiseFilled ?r then ?r
      else ?r\<lparr>ar_promiseFilled := True, ar_promise := VP_Value\<rparr>)"
    using st by (simp add: allSecondariesSuccessfullyAnswered_def)
  then show ?thesis using s m p by (auto simp: ar_start_def u)
qed

lemma ar_all_ok:
  assumes "ar_sent r = ks" "ks \<noteq> []" "ar_pendingWrites r = word_of_nat (length ks)"
    and "ar_statuses r = all_added dn" "map snap_id snap = dn @ ks" "distinct (dn @ ks)"
    and "length snap < 2 ^ 31" "unat (ar_writeConcern r) \<le> length snap" "ar_waits r = 0"
    and "ar_promiseFilled r = (ar_promise r \<noteq> VP_Unset)" "ar_promise r \<noteq> VP_Unset \<longrightarrow> ar_promise r = VP_Value"
  shows "\<exists>run. run_steps ar_run_step (Inr \<lparr>run_request = r, run_oks = oks, run_out = out\<rparr>)
             (replicate (length ks) (AR_Response 0 (Some OK) (Some snap))) = Inr run \<and>
           ar_promise (run_request run) = VP_Value \<and> ar_sent (run_request run) = [] \<and>
           ar_waits (run_request run) = 0 \<and> run_oks run = oks @ ks \<and> run_out run = out"
  using assms
proof (induction ks arbitrary: r dn oks)
  case Nil
  then show ?case by simp
next
  case (Cons k ks)
  let ?ev = "AR_Response 0 (Some OK) (Some snap)"
  have len: "length snap = length dn + Suc (length ks)"
    using arg_cong [OF Cons.prems(5), of length] by simp
  have d: "k \<notin> set dn" using Cons.prems(6) by auto
  have l: "Suc (length dn) < 2 ^ 31" using Cons.prems(7) len by linarith
  have pend: "ar_pendingWrites r = word_of_nat (Suc (length ks))" using Cons.prems(3) by simp
  from ar_response_ok_step [OF Cons.prems(1) pend Cons.prems(4) d Cons.prems(10,11) l] obtain r1 where
    r1: "ar_onResponseRecieved k (Some OK) (r\<lparr>ar_sent := ks\<rparr>) = Inr r1" "ar_sent r1 = ks"
      "ar_pendingWrites r1 = ar_pendingWrites r" "ar_statuses r1 = all_added (dn @ [k])"
      "ar_waits r1 = ar_waits r" "ar_const r1 = ar_const r"
      "ar_promiseFilled r1 = (ar_promise r1 \<noteq> VP_Unset)" "ar_promise r1 \<noteq> VP_Unset \<longrightarrow> ar_promise r1 = VP_Value"
    by blast
  define r2 where "r2 = r1\<lparr>ar_pendingWrites := word_of_nat (length ks)\<rparr>"
  have r2: "ar_sent r2 = ks" "ar_pendingWrites r2 = word_of_nat (length ks)" "ar_waits r2 = 0"
    "ar_statuses r2 = all_added (dn @ [k])" "ar_writeConcern r2 = ar_writeConcern r"
    "ar_promiseFilled r2 = (ar_promise r2 \<noteq> VP_Unset)" "ar_promise r2 \<noteq> VP_Unset \<longrightarrow> ar_promise r2 = VP_Value"
    using r1 Cons.prems(9) by (simp_all add: r2_def ar_const_def)
  have minus: "ar_pendingWrites r1 - 1 = word_of_nat (length ks)"
    using r1(3) pend word_minus_1 by simp
  have res: "ar_step r ?ev = (if (word_of_nat (length ks) :: size_t) = 0 then ar_start (Some snap) r2 else Inr (r2, []))"
    using Cons.prems(1) r1(1) minus by (simp add: ar_onResponse_def Let_def r2_def)
  have ev: "event_ok ?ev" "event_oks r ?ev = [k]"
    using Cons.prems(1,5,6,7) by (simp_all add: snapshot_ok_def event_oks_def)
  have lk: "length ks < 2 ^ 64" using len Cons.prems(7) by simp
  show ?case
  proof (cases "ks = []")
    case True
    have "ar_statuses r2 = all_added (map snap_id snap)" using r2(4) Cons.prems(5) True by simp
    from ar_start_all_answered [OF this Cons.prems(7) _ r2(6,7)] obtain r3 where
      "ar_start (Some snap) r2 = Inr (r3, [])" "ar_promise r3 = VP_Value" "ar_sent r3 = []" "ar_waits r3 = 0"
      using Cons.prems(8) r2 True by auto
    then show ?thesis
      using res ev True by (simp add: ar_run_step_def)
  next
    case False
    have "unat (word_of_nat (length ks) :: size_t) \<noteq> 0" using False lk by (simp add: unat_of_nat)
    then have "(word_of_nat (length ks) :: size_t) \<noteq> 0" by (metis unat_0)
    then have "ar_step r ?ev = Inr (r2, [])" using res by simp
    then have step: "ar_run_step (Inr \<lparr>run_request = r, run_oks = oks, run_out = out\<rparr>) ?ev =
        Inr \<lparr>run_request = r2, run_oks = oks @ [k], run_out = out\<rparr>"
      using ev by (simp add: ar_run_step_def del: ar_step.simps)
    have "map snap_id snap = (dn @ [k]) @ ks" "distinct ((dn @ [k]) @ ks)" using Cons.prems(5,6) by simp_all
    from Cons.IH [OF r2(1) False r2(2,4) this Cons.prems(7) _ r2(3,6,7), of "oks @ [k]"] obtain run where
      "run_steps ar_run_step (Inr \<lparr>run_request = r2, run_oks = oks @ [k], run_out = out\<rparr>)
         (replicate (length ks) ?ev) = Inr run" "ar_promise (run_request run) = VP_Value"
      "ar_sent (run_request run) = []" "ar_waits (run_request run) = 0"
      "run_oks run = (oks @ [k]) @ ks" "run_out run = out"
      using Cons.prems(8) r2(5) by auto
    then show ?thesis using step by simp
  qed
qed

lemma ar_run_all_ok:
  assumes d: "distinct (map snap_id snap)" and n: "0 < length snap" and l: "length snap < 2 ^ 31"
    and w: "unat w \<le> length snap" "0 < unat w"
  shows "\<exists>run. run_steps ar_run_step (ar_begin i m w (Some snap))
         (replicate (length snap) (AR_Response 0 (Some OK) (Some snap))) = Inr run \<and>
     ar_promise (run_request run) = VP_Value \<and> ar_sent (run_request run) = [] \<and>
     ar_waits (run_request run) = 0 \<and> run_oks run = map snap_id snap \<and>
     run_out run = map (\<lambda>s. AR_Send (snap_endpoint s) (snap_id s) i m) snap"
proof -
  define r0 where "r0 = (AddMessageRequest_create i m w)\<lparr>ar_secondariesSnapshot := snap\<rparr>"
  define r where "r = r0\<lparr>ar_pendingWrites := word_of_nat (length snap), ar_sent := map snap_id snap\<rparr>"
  let ?out = "map (\<lambda>s. AR_Send (snap_endpoint s) (snap_id s) i m) snap"
  have u: "updateData (Some snap) (AddMessageRequest_create i m w) = (True, r0)"
    by (simp add: updateData_def r0_def AddMessageRequest_create_def)
  have i0: "ar_idle r0" "ar_statuses r0 = []" "ar_secondariesSnapshot r0 = snap" "ar_writeConcern r0 = w"
    "ar_messageId r0 = i" "ar_message r0 = m"
    by (simp_all add: r0_def AddMessageRequest_create_def ar_idle_def)
  have need: "filter (needToSend r0) snap = snap" using i0(2) by (simp add: needToSend_def)
  have ids: "send_ids r0 snap = map snap_id snap" "send_outs r0 snap = ?out"
    unfolding send_ids_def send_outs_def need i0(5,6) by simp_all
  have ne: "snap \<noteq> []" using n by simp
  have "satisfiedWriteConcern r0 = 0" using i0(2) by (simp add: satisfiedWriteConcern_def)
  then have "\<not> satisfiedWriteConcern r0 \<ge> ar_writeConcern r0"
    using w(2) i0(4) by (simp add: word_le_nat_alt)
  then have "ar_start (Some snap) (AddMessageRequest_create i m w) = Inr (sendRequestToSecondaries r0)"
    by (simp add: ar_start_def u)
  moreover have "sendRequestToSecondaries r0 = (r, ?out)"
    using sendRequestToSecondaries_eq [of r0] i0(1,3) l ids ne by (simp add: ar_idle_def Let_def r_def)
  ultimately have b: "ar_begin i m w (Some snap) = Inr \<lparr>run_request = r, run_oks = [], run_out = ?out\<rparr>"
    by (simp add: ar_begin_def)
  have rf: "ar_sent r = map snap_id snap" "map snap_id snap \<noteq> []"
    "ar_pendingWrites r = word_of_nat (length (map snap_id snap))" "ar_statuses r = all_added []"
    "map snap_id snap = [] @ map snap_id snap" "distinct ([] @ map snap_id snap)" "length snap < 2 ^ 31"
    "unat (ar_writeConcern r) \<le> length snap" "ar_waits r = 0"
    "ar_promiseFilled r = (ar_promise r \<noteq> VP_Unset)" "ar_promise r \<noteq> VP_Unset \<longrightarrow> ar_promise r = VP_Value"
    using d n l w by (simp_all add: r_def r0_def AddMessageRequest_create_def all_added_def)
  from ar_all_ok [OF rf, of "[]" ?out] show ?thesis unfolding b by simp
qed

section \<open>When a request is finished\<close>

lemma ucast_32_inj:
  assumes "unat (a :: size_t) < 2 ^ 32" "unat b < 2 ^ 32" "(ucast a :: 32 word) = ucast b"
  shows "a = b"
proof -
  have "unat (ucast a :: 32 word) = unat a" "unat (ucast b :: 32 word) = unat b"
    using assms(1,2) by (simp_all add: unsigned_ucast_eq take_bit_nat_eq_self)
  then show ?thesis using assms(3) by (simp add: word_unat_eq_iff)
qed

lemma ar_start_finished:
  assumes core: "ar_core r oks" and idle: "ar_idle r" and s: "length snap < 2 ^ 31"
    and fin: "ar_start (Some snap) r = Inr (r', [])"
  shows "ar_promiseFilled r' \<and> allSecondariesSuccessfullyAnswered r' \<and>
     ar_secondariesSnapshot r' = snap \<and> ar_statuses r' = ar_statuses (snd (updateData (Some snap) r))"
proof -
  define r1 where "r1 = snd (updateData (Some snap) r)"
  have c1: "ar_core r1 oks" unfolding r1_def using core by (rule updateData_core)
  have i1: "ar_idle r1" "ar_secondariesSnapshot r1 = snap"
    using idle by (simp_all add: r1_def updateData_def ar_idle_def)
  have u: "updateData (Some snap) r = (True, r1)" by (simp add: r1_def updateData_def)
  have out: "snd (sendRequestToSecondaries q) \<noteq> []"
    if "ar_idle q" "ar_secondariesSnapshot q = snap" for q
    using sendRequestToSecondaries_eq [of q] that s
    by (auto simp: ar_idle_def Let_def send_ids_def send_outs_def split: if_splits)
  show ?thesis
  proof (cases "satisfiedWriteConcern r1 \<ge> ar_writeConcern r1")
    case False
    then have "sendRequestToSecondaries r1 = (r', [])" using fin by (simp add: ar_start_def u)
    then have "snd (sendRequestToSecondaries r1) = []" by simp
    with out [OF i1] show ?thesis by blast
  next
    case True
    from requestMarkSuccess_core [OF c1 True] obtain p where
      p: "requestMarkSuccess r1 = Inr (r1\<lparr>ar_promiseFilled := True, ar_promise := p\<rparr>)" by blast
    let ?r2 = "r1\<lparr>ar_promiseFilled := True, ar_promise := p\<rparr>"
    have i2: "ar_idle ?r2" "ar_secondariesSnapshot ?r2 = snap" using i1 by (simp_all add: ar_idle_def)
    have "allSecondariesSuccessfullyAnswered ?r2"
    proof (rule ccontr)
      assume "\<not> allSecondariesSuccessfullyAnswered ?r2"
      then have "sendRequestToSecondaries ?r2 = (r', [])"
        using True p fin by (simp add: ar_start_def u)
      then have "snd (sendRequestToSecondaries ?r2) = []" by simp
      with out [OF i2] show False by blast
    qed
    moreover from this have "r' = ?r2" using fin True p by (simp add: ar_start_def u)
    ultimately show ?thesis using i1(2) by (simp add: r1_def)
  qed
qed

lemma ar_finished_answered:
  assumes core: "ar_core r oks" and idle: "ar_idle r" and s: "snapshot_ok (Some snap)"
    and fin: "ar_start (Some snap) r = Inr (r', [])"
    and small: "\<forall>k \<in> snap_id ` set snap \<union> fst ` set (ar_statuses r). unat k < 2 ^ 32"
    and len: "length (ar_statuses r) < 2 ^ 31"
  shows "ar_promiseFilled r' \<and>
     (\<forall>s \<in> set snap. map_of (ar_statuses r') (snap_id s) = Some ADDED \<or>
                    map_of (ar_statuses r') (snap_id s) = Some NOT_ADDED)"
proof -
  have l: "length snap < 2 ^ 31" and d: "distinct (map snap_id snap)"
    using s by (simp_all add: snapshot_ok_def)
  note f = ar_start_finished [OF core idle l fin]
  define ss where "ss = ar_statuses r'"
  define good where "good = filter (\<lambda>(_, status). status \<noteq> ERROR) ss"
  have ss: "ss = filter (\<lambda>(k, _). (ucast k :: 32 word) \<in> set (presentSecondaries snap)) (ar_statuses r)"
    using f by (simp add: ss_def updateData_def)
  have keys: "fst ` set ss \<subseteq> snap_id ` set snap"
  proof
    fix k
    assume "k \<in> fst ` set ss"
    then have k: "k \<in> fst ` set (ar_statuses r)" "(ucast k :: 32 word) \<in> set (presentSecondaries snap)"
      unfolding ss by auto
    then obtain s' where s': "s' \<in> set snap" "(ucast k :: 32 word) = ucast (snap_id s')"
      by (auto simp: presentSecondaries_def)
    then have "k = snap_id s'" using small k(1) by (intro ucast_32_inj) auto
    then show "k \<in> snap_id ` set snap" using s'(1) by simp
  qed
  have dss: "distinct (map fst ss)" using core unfolding ss ar_core_def by (simp add: distinct_map_filter)
  have "length good \<le> length (ar_statuses r)"
    unfolding good_def ss by (meson le_trans length_filter_le)
  then have gl: "length good < 2 ^ 64" using len by simp
  have "allSecondariesSuccessfullyAnswered r'" "ar_secondariesSnapshot r' = snap" using f by blast+
  then have "(word_of_nat (length good) :: size_t) = word_of_nat (length snap)"
    unfolding allSecondariesSuccessfullyAnswered_def good_def ss_def by simp
  then have "unat (word_of_nat (length good) :: size_t) = unat (word_of_nat (length snap) :: size_t)" by simp
  then have eq: "length good = length snap" using gl l by (simp add: unat_of_nat)
  have dg: "distinct (map fst good)" unfolding good_def using dss by (simp add: distinct_map_filter)
  have "fst ` set good \<subseteq> snap_id ` set snap" using keys by (auto simp: good_def)
  moreover have "card (fst ` set good) = card (snap_id ` set snap)"
    using distinct_card [OF dg] distinct_card [OF d] eq by simp
  ultimately have all: "fst ` set good = snap_id ` set snap" by (simp add: card_subset_eq)
  have "map_of ss (snap_id s') = Some ADDED \<or> map_of ss (snap_id s') = Some NOT_ADDED" if "s' \<in> set snap" for s'
  proof -
    have "snap_id s' \<in> fst ` set good" using that all by simp
    then obtain st where "(snap_id s', st) \<in> set ss" "st \<noteq> ERROR" by (auto simp: good_def)
    then show ?thesis using dss by (cases st) (auto simp: map_of_eq_Some_iff)
  qed
  then show ?thesis using f by (simp add: ss_def)
qed

section \<open>Properties\<close>

abbreviation ar_run :: "size_t \<Rightarrow> string \<Rightarrow> size_t \<Rightarrow> SecondarySnapshot list option \<Rightarrow> ar_event list \<Rightarrow>
    cpp_exception + AddRun" where
  "ar_run i m w s evs \<equiv> run_steps ar_run_step (ar_begin i m w s) evs"

lemma ar_run_okD:
  assumes "snapshot_ok s"
  shows "\<exists>run. ar_run i m w s evs = Inr run \<and> ar_ok (run_request run) (run_oks run) \<and>
           ar_const (run_request run) = (w, i, m)"
proof -
  have ok: "ar_run_ok (ar_run i m w s evs)"
    using add_request.inv_run_from [OF ar_begin_ok [OF assms]] .
  then obtain run where run: "ar_run i m w s evs = Inr run" by (auto simp: ar_run_ok_def split: sum.splits)
  obtain run0 where run0: "ar_begin i m w s = Inr run0"
    using run by (cases "ar_begin i m w s") auto
  then have "ar_const (run_request run0) = (w, i, m)"
    by (auto simp: ar_begin_def AddMessageRequest_create_def ar_const_def [abs_def]
        dest!: ar_const_start split: sum.splits)
  then show ?thesis
    using ok run ar_const_run [of run0 evs run] run0 by (simp add: ar_run_ok_def)
qed

text \<open>
A write concern is only reported as satisfied when it is: if the client's promise of an
added message holds a value, then at least as many different secondaries as the request asks
for have answered \<^verbatim>\<open>OK\<close>, whatever answers, errors, disconnections and reconnections
happened. (Fewer than \<open>2\<^sup>31\<close> secondaries.)
\<close>

theorem write_concern_success_sound:
  assumes "snapshot_ok s" and "ar_run i m w s evs = Inr run"
    and "ar_promise (run_request run) = VP_Value" and "card (set (run_oks run)) < 2 ^ 31"
  shows "unat w \<le> card (set (run_oks run))"
  using ar_run_okD [OF assms(1), of i m w evs] assms(2,3,4)
  by (auto simp: ar_ok_def ar_core_def ar_const_def)

theorem write_concern_success_sound_witness:
  "let snap = [\<lparr>snap_id = 4, snap_friendlyName = None, snap_state = OPERATIONAL, snap_endpoint = 0\<rparr>]
   in \<exists>run. ar_run 3 ''m'' 1 (Some snap) [AR_Response 0 (Some OK) (Some snap)] = Inr run \<and>
      ar_promise (run_request run) = VP_Value \<and> 1 \<le> card (set (run_oks run))"
proof -
  let ?snap = "[\<lparr>snap_id = 4, snap_friendlyName = None, snap_state = OPERATIONAL, snap_endpoint = 0\<rparr>]"
  have h: "distinct (map snap_id ?snap)" "0 < length ?snap" "length ?snap < 2 ^ 31"
    "unat (1 :: size_t) \<le> length ?snap" "0 < unat (1 :: size_t)"
    by simp_all
  have s: "snapshot_ok (Some ?snap)" by (simp add: snapshot_ok_def)
  have l: "length ?snap = 1" by simp
  from ar_run_all_ok [OF h, of 3 "''m''"] obtain run where
    run: "ar_run 3 ''m'' 1 (Some ?snap) [AR_Response 0 (Some OK) (Some ?snap)] = Inr run"
      "ar_promise (run_request run) = VP_Value" "run_oks run = [4]"
    unfolding l by auto
  have c: "card (set (run_oks run)) < 2 ^ 31" using run(3) by simp
  from write_concern_success_sound [OF s run(1,2) c] run show ?thesis unfolding Let_def by auto
qed

text \<open>
C14: The replication of a message never gets stuck and sets its promise at most once: no
handler throws, the write counter is exact, and as long as the promise is not set either
answers are outstanding or the reconnection timer is running, never both.
\<close>

theorem add_request_never_stuck:
  assumes "snapshot_ok s"
  shows "\<exists>run. ar_run i m w s evs = Inr run \<and>
     (let r = run_request run
      in unat (ar_pendingWrites r) = length (ar_sent r) \<and>
         (ar_promise r \<noteq> VP_Unset \<or> (ar_sent r \<noteq> []) \<noteq> (ar_waits r = 1)))"
proof -
  from ar_run_okD [OF assms, of i m w evs] obtain run where
    run: "ar_run i m w s evs = Inr run" "ar_ok (run_request run) (run_oks run)" by blast
  let ?r = "run_request run"
  have "ar_waits ?r \<le> 1" "ar_sent ?r \<noteq> [] \<longrightarrow> ar_waits ?r = 0"
    "ar_sent ?r = [] \<longrightarrow> ar_waits ?r = 0 \<longrightarrow> ar_promise ?r \<noteq> VP_Unset"
    using run(2) by (auto simp: ar_ok_def ar_pending_ok_def ar_core_def)
  then have "ar_promise ?r \<noteq> VP_Unset \<or> (ar_sent ?r \<noteq> []) \<noteq> (ar_waits ?r = 1)" by auto
  then show ?thesis
    using run by (auto simp: ar_ok_def ar_pending_ok_def Let_def)
qed

theorem add_request_never_stuck_witness:
  "\<exists>run. ar_run 3 ''m'' 1 (Some []) [] = Inr run \<and>
     unat (ar_pendingWrites (run_request run)) = length (ar_sent (run_request run))"
proof -
  have "snapshot_ok (Some [])" by (simp add: snapshot_ok_def)
  from add_request_never_stuck [OF this, of 3 "''m''" 1 "[]"] show ?thesis by (auto simp: Let_def)
qed



text \<open>
A request that finishes while the master lives leaves no connected secondary behind: if
\<^verbatim>\<open>start()\<close> finds nothing to send and nothing to wait for, every secondary of the snapshot
has answered (ids below \<open>2\<^sup>3\<^sup>2\<close>, since presence is checked on \<^verbatim>\<open>int\<close>s).
\<close>

theorem finished_request_reached_everyone:
  assumes "ar_core r oks" and "ar_idle r" and "snapshot_ok (Some snap)"
    and "ar_start (Some snap) r = Inr (r', [])"
    and "\<forall>k \<in> snap_id ` set snap \<union> fst ` set (ar_statuses r). unat k < 2 ^ 32"
    and "length (ar_statuses r) < 2 ^ 31"
  shows "ar_promiseFilled r' \<and>
     (\<forall>s \<in> set snap. map_of (ar_statuses r') (snap_id s) = Some ADDED \<or>
                    map_of (ar_statuses r') (snap_id s) = Some NOT_ADDED)"
  using ar_finished_answered [OF assms] .

theorem finished_request_reached_everyone_witness:
  "\<exists>r'. ar_start (Some [\<lparr>snap_id = 4, snap_friendlyName = None, snap_state = OPERATIONAL, snap_endpoint = 1\<rparr>])
       ((AddMessageRequest_create 3 ''m'' 1)\<lparr>ar_statuses := [(4, ADDED)]\<rparr>) = Inr (r', []) \<and>
     ar_promiseFilled r'"
proof -
  let ?r = "(AddMessageRequest_create 3 ''m'' 1)\<lparr>ar_statuses := [(4, ADDED)]\<rparr>"
  let ?snap = "[\<lparr>snap_id = 4, snap_friendlyName = None, snap_state = OPERATIONAL, snap_endpoint = 1\<rparr>]"
  have h: "ar_core ?r [4]" "ar_idle ?r" "snapshot_ok (Some ?snap)"
    "\<forall>k \<in> snap_id ` set ?snap \<union> fst ` set (ar_statuses ?r). unat k < 2 ^ 32" "length (ar_statuses ?r) < 2 ^ 31"
    by (auto simp: ar_core_def ar_idle_def snapshot_ok_def AddMessageRequest_create_def added_ids_def split: if_splits)
  obtain r' where r': "ar_start (Some ?snap) ?r = Inr (r', [])"
    by (simp add: ar_start_def updateData_def AddMessageRequest_create_def satisfiedWriteConcern_def
        presentSecondaries_def requestMarkSuccess_def vp_set_def allSecondariesSuccessfullyAnswered_def)
  from finished_request_reached_everyone [OF h(1,2,3) r' h(4,5)] r' show ?thesis by blast
qed

text \<open>
The \<^verbatim>\<open>int\<close> set makes the master skip a secondary: with ids that agree in their low
32 bits, the status of a secondary that has gone is kept and counted for another one, and
the request finishes although the connected secondary has never been sent the message.
\<close>

theorem id_truncation_skips_secondary:
  "\<exists>r'. ar_start (Some [\<lparr>snap_id = 2 ^ 32, snap_friendlyName = None, snap_state = OPERATIONAL, snap_endpoint = 1\<rparr>])
       ((AddMessageRequest_create 3 ''m'' 1)\<lparr>ar_statuses := [(0, ADDED)]\<rparr>) = Inr (r', []) \<and>
     ar_promise r' = VP_Value \<and> map_of (ar_statuses r') (2 ^ 32) = None"
proof -
  have c: "(scast (1 :: 32 word) :: size_t) = 1" by simp
  have z: "(0 :: size_t) \<noteq> 2 ^ 32" by simp
  show ?thesis
    by (simp add: ar_start_def updateData_def AddMessageRequest_create_def presentSecondaries_def
        satisfiedWriteConcern_def requestMarkSuccess_def vp_set_def allSecondariesSuccessfullyAnswered_def)
qed

end
