(* ===== verification/MasterNodes.thy ===== *)
theory MasterNodes
  imports Endpoint Storages AddMessageRequests
begin

text \<open>
  app/master-node/masternode: the master's registry of secondaries, its store and the requests
  that replicate the messages.

  The acceptor and the endpoints run on other threads; what they do to the master node is
  posted to its context, and \<open>mn_posted\<close> are the lambdas that have not run yet. An endpoint is
  named by a number; \<open>mn_endpoints\<close> gives for each the id its slots were connected with.
  \<open>mn_requests\<close> are the replication requests in the order of the calls of \<^verbatim>\<open>addMessage\<close>, each
  with its log. The order in which \<^verbatim>\<open>secondaries_\<close> is traversed is the order of insertion; no
  result below depends on it.

  A step is \<^const>\<open>None\<close> when it does not return (a scan of a store that holds all
  \<open>2\<^sup>64\<close> ids), and \<^const>\<open>Inl\<close> when an exception leaves the handler.
\<close>

section \<open>State\<close>

datatype mn_task =
    T_AddSecondary
  | T_Invalidated size_t
  | T_GetMessages size_t "nat \<times> nat"
  | T_SecondaryNodeReady size_t string "nat \<times> nat"

text \<open>A promise of an incoming request is named by the endpoint and the number there.\<close>

datatype mn_out =
    MN_RunEndpoint nat
  | MN_SetPromise "nat \<times> nat" answer
  | MN_DropPromise "nat \<times> nat"
  | MN_Request nat ar_out

record MasterNode =
  mn_secondaryIdCounter :: size_t
  mn_secondaries :: "(size_t \<times> SecondaryNode) list"
  mn_storage :: MasterStorage
  mn_endpoints :: "size_t list"
  mn_posted :: "mn_task list"
  mn_requests :: "AddRun list"

definition MasterNode_create :: MasterNode where
  "MasterNode_create =
     \<lparr>mn_secondaryIdCounter = 0, mn_secondaries = [], mn_storage = MasterStorage_create,
      mn_endpoints = [], mn_posted = [], mn_requests = []\<rparr>"

definition secondariesSnapshot :: "MasterNode \<Rightarrow> SecondarySnapshot list" where
  "secondariesSnapshot m =
     map (\<lambda>(i, secondary).
            \<lparr>snap_id = i, snap_friendlyName = sn_friendlyName secondary,
             snap_state = sn_state secondary, snap_endpoint = sn_endpoint secondary\<rparr>)
       (mn_secondaries m)"

section \<open>The registry\<close>

definition addSecondary :: "MasterNode \<Rightarrow> MasterNode" where
  "addSecondary m = m\<lparr>mn_posted := mn_posted m @ [T_AddSecondary]\<rparr>"

definition addSecondaryImpl :: "MasterNode \<Rightarrow> MasterNode \<times> mn_out list" where
  "addSecondaryImpl m =
     (let i = mn_secondaryIdCounter m;
          endpoint = length (mn_endpoints m);
          secondary = SecondaryNode_create i endpoint
      in (m\<lparr>mn_secondaryIdCounter := i + 1,
            mn_secondaries := AList.update i secondary (mn_secondaries m),
            mn_endpoints := mn_endpoints m @ [i]\<rparr>,
          [MN_RunEndpoint endpoint]))"

definition onInvalidated :: "size_t \<Rightarrow> MasterNode \<Rightarrow> MasterNode" where
  "onInvalidated secondaryId m =
     (case map_of (mn_secondaries m) secondaryId of
        None \<Rightarrow> m
      | Some secondary \<Rightarrow>
          m\<lparr>mn_secondaries := AList.delete secondaryId
              (AList.update secondaryId (setInvalidated secondary) (mn_secondaries m))\<rparr>)"

definition onIncomingGetMessages :: "size_t \<Rightarrow> nat \<times> nat \<Rightarrow> MasterNode \<Rightarrow> mn_out list option" where
  "onIncomingGetMessages startMsgId response m =
     (case MasterStorage_getContiguousChunk (mn_storage m) startMsgId of
        None \<Rightarrow> None
      | Some messages \<Rightarrow> Some [MN_SetPromise response (A_GetMessages messages)])"

definition onIncomingSecondaryNodeReady ::
    "size_t \<Rightarrow> string \<Rightarrow> nat \<times> nat \<Rightarrow> MasterNode \<Rightarrow> MasterNode \<times> mn_out list" where
  "onIncomingSecondaryNodeReady secondaryId friendlyName response m =
     (case map_of (mn_secondaries m) secondaryId of
        None \<Rightarrow> (m, [MN_DropPromise response])
      | Some secondary \<Rightarrow>
          (m\<lparr>mn_secondaries := AList.update secondaryId
               (setOperational (setFriendlyName friendlyName secondary)) (mn_secondaries m)\<rparr>,
           [MN_SetPromise response A_SecondaryNodeReady]))"

text \<open>
  The slots of an endpoint's signals; \<^verbatim>\<open>incoming_addMessage\<close> and \<^verbatim>\<open>incoming_ping\<close> have none.
\<close>

datatype ep_signal = Sig_Invalidated | Sig_Incoming incoming_request

definition mn_post :: "mn_task \<Rightarrow> MasterNode \<Rightarrow> MasterNode" where
  "mn_post t m = m\<lparr>mn_posted := mn_posted m @ [t]\<rparr>"

fun onSignal :: "nat \<Rightarrow> size_t \<Rightarrow> ep_signal \<Rightarrow> MasterNode \<Rightarrow> MasterNode \<times> mn_out list" where
  "onSignal k i Sig_Invalidated m = (mn_post (T_Invalidated i) m, [])"
| "onSignal k i (Sig_Incoming (Incoming_getMessages startMsgId p)) m =
     (mn_post (T_GetMessages startMsgId (k, p)) m, [])"
| "onSignal k i (Sig_Incoming (Incoming_secondaryNodeReady friendlyName p)) m =
     (mn_post (T_SecondaryNodeReady i friendlyName (k, p)) m, [])"
| "onSignal k i (Sig_Incoming (Incoming_addMessage _ _ p)) m = (m, [MN_DropPromise (k, p)])"
| "onSignal k i (Sig_Incoming (Incoming_ping _ p)) m = (m, [MN_DropPromise (k, p)])"

fun runTask :: "mn_task \<Rightarrow> MasterNode \<Rightarrow> (MasterNode \<times> mn_out list) option" where
  "runTask T_AddSecondary m = Some (addSecondaryImpl m)"
| "runTask (T_Invalidated i) m = Some (onInvalidated i m, [])"
| "runTask (T_GetMessages startMsgId response) m =
     map_option (\<lambda>out. (m, out)) (onIncomingGetMessages startMsgId response m)"
| "runTask (T_SecondaryNodeReady i friendlyName response) m =
     Some (onIncomingSecondaryNodeReady i friendlyName response m)"

section \<open>Adding a message\<close>

text \<open>What the caller of \<^verbatim>\<open>addMessage\<close> gets: a ready future, or that of a request.\<close>

datatype client_future = ReadyFuture | RequestFuture nat

definition mn_addMessage ::
    "string \<Rightarrow> size_t \<Rightarrow> MasterNode \<Rightarrow> cpp_exception + client_future \<times> MasterNode \<times> mn_out list" where
  "mn_addMessage message writeConcern m =
     (let ((msgId, msgView), storage) = MasterStorage_addMessage message (mn_storage m);
          q = length (mn_requests m)
      in case ar_begin msgId msgView (if writeConcern \<le> 1 then 0 else writeConcern - 1)
                (Some (secondariesSnapshot m)) of
           Inl e \<Rightarrow> Inl e
         | Inr request \<Rightarrow>
             Inr (if writeConcern \<le> 1 then ReadyFuture else RequestFuture q,
                  m\<lparr>mn_storage := storage, mn_requests := mn_requests m @ [request]\<rparr>,
                  map (MN_Request q) (run_out request)))"

text \<open>An event of a request, which asks the master for its secondaries when it starts again.\<close>

definition mn_request_step ::
    "AddRun \<Rightarrow> ar_event \<Rightarrow> cpp_exception + AddRun \<times> ar_out list" where
  "mn_request_step run ev =
     (case ar_step (run_request run) ev of
        Inl e \<Rightarrow> Inl e
      | Inr (r, out) \<Rightarrow>
          Inr (\<lparr>run_request = r, run_oks = run_oks run @ event_oks (run_request run) ev,
                run_out = run_out run @ out\<rparr>, out))"

definition mn_request ::
    "nat \<Rightarrow> ar_event \<Rightarrow> MasterNode \<Rightarrow> cpp_exception + MasterNode \<times> mn_out list" where
  "mn_request q ev m =
     (if length (mn_requests m) \<le> q then Inr (m, [])
      else
        (case mn_request_step (mn_requests m ! q) ev of
           Inl e \<Rightarrow> Inl e
         | Inr (request, out) \<Rightarrow>
             Inr (m\<lparr>mn_requests := (mn_requests m)[q := request]\<rparr>, map (MN_Request q) out)))"

section \<open>Pinging the secondaries\<close>

record PingResult =
  pr_secondaryId :: size_t
  pr_secondaryFriendlyName :: "string option"
  pr_secondaryState :: SecondaryState
  pr_pingTimestamp :: timestamp
  pr_pongTimestamp :: "timestamp option"
  pr_exceptionString :: "string option"

text \<open>\<open>diagnostic\<close> stands for \<^verbatim>\<open>boost::diagnostic_information\<close>.\<close>

definition pingResult ::
    "(ResponseException \<Rightarrow> string) \<Rightarrow> timestamp \<Rightarrow> SecondarySnapshot \<Rightarrow> timestamp + ResponseException \<Rightarrow> PingResult" where
  "pingResult diagnostic pingTimestamp secondary responseFuture =
     \<lparr>pr_secondaryId = snap_id secondary, pr_secondaryFriendlyName = snap_friendlyName secondary,
      pr_secondaryState = snap_state secondary, pr_pingTimestamp = pingTimestamp,
      pr_pongTimestamp = (case responseFuture of Inl t \<Rightarrow> Some t | Inr _ \<Rightarrow> None),
      pr_exceptionString = (case responseFuture of Inl _ \<Rightarrow> None | Inr e \<Rightarrow> Some (diagnostic e))\<rparr>"

definition pingResults ::
    "(ResponseException \<Rightarrow> string) \<Rightarrow> timestamp \<Rightarrow> SecondarySnapshot list \<Rightarrow>
     (timestamp + ResponseException) list \<Rightarrow> PingResult list" where
  "pingResults diagnostic pingTimestamp snapshot responses =
     map (\<lambda>i. pingResult diagnostic pingTimestamp (snapshot ! i) (responses ! i)) [0..<length responses]"

text \<open>
  The pings sent, to which endpoint and with which time, or the ready result if there is no
  secondary; \<^const>\<open>pingResults\<close> is the value of the future once every response is there.
\<close>

definition pingSecondaries :: "timestamp \<Rightarrow> MasterNode \<Rightarrow> PingResult list + (nat \<times> timestamp) list" where
  "pingSecondaries pingTimestamp m =
     (let snapshot = secondariesSnapshot m
      in if snapshot = [] then Inl []
         else Inr (map (\<lambda>secondary. (snap_endpoint secondary, pingTimestamp)) snapshot))"

section \<open>Events\<close>

datatype mn_event =
    MN_AddSecondary
  | MN_RunPosted nat
  | MN_Signal nat ep_signal
  | MN_AddMessage string size_t
  | MN_Answer nat nat "AddMessageStatus option"
  | MN_WaitOver nat

fun mn_step :: "MasterNode \<Rightarrow> mn_event \<Rightarrow> (cpp_exception + MasterNode \<times> mn_out list) option" where
  "mn_step m MN_AddSecondary = Some (Inr (addSecondary m, []))"
| "mn_step m (MN_RunPosted n) =
     (if length (mn_posted m) \<le> n then Some (Inr (m, []))
      else map_option Inr
             (runTask (mn_posted m ! n)
               (m\<lparr>mn_posted := take n (mn_posted m) @ drop (Suc n) (mn_posted m)\<rparr>)))"
| "mn_step m (MN_Signal k signal) =
     (if length (mn_endpoints m) \<le> k then Some (Inr (m, []))
      else Some (Inr (onSignal k (mn_endpoints m ! k) signal m)))"
| "mn_step m (MN_AddMessage message writeConcern) =
     Some (map_sum id snd (mn_addMessage message writeConcern m))"
| "mn_step m (MN_Answer q n response) =
     Some (mn_request q (AR_Response n response (Some (secondariesSnapshot m))) m)"
| "mn_step m (MN_WaitOver q) =
     Some (mn_request q (AR_WaitOver (Some (secondariesSnapshot m))) m)"

definition mn_run_step ::
    "(cpp_exception + MasterNode) option \<Rightarrow> mn_event \<Rightarrow> (cpp_exception + MasterNode) option" where
  "mn_run_step x ev =
     (case x of
        Some (Inr m) \<Rightarrow> map_option (map_sum id fst) (mn_step m ev)
      | _ \<Rightarrow> x)"

abbreviation mn_run :: "mn_event list \<Rightarrow> (cpp_exception + MasterNode) option" where
  "mn_run evs \<equiv> run_steps mn_run_step (Some (Inr MasterNode_create)) evs"

section \<open>The registry's invariant\<close>

text \<open>
  Every entry belongs to the endpoint it was created for, and a secondary is operational
  exactly when it has told its name; entries of lost connections are gone.
\<close>

definition entry_ok :: "size_t list \<Rightarrow> size_t \<Rightarrow> SecondaryNode \<Rightarrow> bool" where
  "entry_ok endpoints i s \<longleftrightarrow>
     sn_id s = i \<and> sn_endpoint s < length endpoints \<and> endpoints ! sn_endpoint s = i \<and>
     sn_state s = (if sn_friendlyName s = None then REGISTERING else OPERATIONAL)"

definition registry_ok :: "MasterNode \<Rightarrow> bool" where
  "registry_ok m \<longleftrightarrow>
     mn_endpoints m = map word_of_nat [0..<length (mn_endpoints m)] \<and>
     mn_secondaryIdCounter m = word_of_nat (length (mn_endpoints m)) \<and>
     distinct (map fst (mn_secondaries m)) \<and>
     (\<forall>i s. map_of (mn_secondaries m) i = Some s \<longrightarrow> entry_ok (mn_endpoints m) i s)"

lemma registry_ok_update [simp]:
  "registry_ok (m\<lparr>mn_storage := st\<rparr>) = registry_ok m"
  "registry_ok (m\<lparr>mn_posted := ts\<rparr>) = registry_ok m"
  "registry_ok (m\<lparr>mn_requests := rs\<rparr>) = registry_ok m"
  by (simp_all add: registry_ok_def)

lemma entry_ok_append: "entry_ok es i s \<Longrightarrow> entry_ok (es @ [j]) i s"
  by (auto simp: entry_ok_def nth_append)

lemma addSecondaryImpl_registry [inv_steps]:
  assumes "registry_ok m" shows "registry_ok (fst (addSecondaryImpl m))"
proof -
  let ?i = "mn_secondaryIdCounter m"
  have new: "entry_ok (mn_endpoints m @ [?i]) ?i (SecondaryNode_create ?i (length (mn_endpoints m)))"
    by (simp add: entry_ok_def SecondaryNode_create_def)
  have "mn_endpoints m @ [?i] = map word_of_nat [0..<length (mn_endpoints m @ [?i])]"
    using assms by (simp add: registry_ok_def)
  then show ?thesis using assms new
    by (auto simp: registry_ok_def addSecondaryImpl_def Let_def update_conv distinct_update intro: entry_ok_append)
qed

lemma onInvalidated_registry [inv_steps]:
  assumes "registry_ok m" shows "registry_ok (onInvalidated i m)"
proof (cases "map_of (mn_secondaries m) i")
  case (Some s)
  then show ?thesis using assms
    by (auto simp: registry_ok_def onInvalidated_def update_conv delete_conv distinct_update distinct_delete
        split: if_splits)
qed (use assms in \<open>simp add: onInvalidated_def\<close>)

lemma onReady_registry [inv_steps]:
  assumes "registry_ok m" shows "registry_ok (fst (onIncomingSecondaryNodeReady i name p m))"
proof (cases "map_of (mn_secondaries m) i")
  case (Some s)
  then have "entry_ok (mn_endpoints m) i s" using assms by (simp add: registry_ok_def)
  then have "entry_ok (mn_endpoints m) i (setOperational (setFriendlyName name s))"
    by (simp add: entry_ok_def setOperational_def setFriendlyName_def)
  then show ?thesis using assms Some
    by (auto simp: registry_ok_def onIncomingSecondaryNodeReady_def update_conv distinct_update)
qed (use assms in \<open>simp add: onIncomingSecondaryNodeReady_def\<close>)

lemma onSignal_fields:
  "mn_endpoints (fst (onSignal k i sg m)) = mn_endpoints m"
  "mn_secondaries (fst (onSignal k i sg m)) = mn_secondaries m"
  "mn_secondaryIdCounter (fst (onSignal k i sg m)) = mn_secondaryIdCounter m"
  "mn_storage (fst (onSignal k i sg m)) = mn_storage m"
  "mn_requests (fst (onSignal k i sg m)) = mn_requests m"
  by (cases "(k, i, sg, m)" rule: onSignal.cases; simp add: mn_post_def)+

lemma registry_ok_fields:
  "registry_ok m \<Longrightarrow> mn_endpoints m' = mn_endpoints m \<Longrightarrow> mn_secondaries m' = mn_secondaries m \<Longrightarrow>
   mn_secondaryIdCounter m' = mn_secondaryIdCounter m \<Longrightarrow> registry_ok m'"
  by (simp add: registry_ok_def)

lemma runTask_registry [inv_steps]:
  assumes "registry_ok m" "runTask t m = Some (m', out)" shows "registry_ok m'"
proof (cases t)
  case T_AddSecondary
  then show ?thesis using assms(2) addSecondaryImpl_registry [OF assms(1)] by (metis fst_conv option.inject runTask.simps(1))
next
  case (T_SecondaryNodeReady i name p)
  then show ?thesis using assms(2) onReady_registry [OF assms(1)] by (metis fst_conv option.inject runTask.simps(4))
qed (use assms onInvalidated_registry in auto)

lemma mn_request_fields:
  "mn_request q ev m = Inr (m', out) \<Longrightarrow>
     mn_endpoints m' = mn_endpoints m \<and> mn_secondaries m' = mn_secondaries m \<and>
     mn_secondaryIdCounter m' = mn_secondaryIdCounter m \<and> mn_storage m' = mn_storage m \<and> mn_posted m' = mn_posted m"
  by (auto simp: mn_request_def split: if_splits sum.splits)

lemma mn_addMessage_fields:
  "mn_addMessage msg w m = Inr (f, m', out) \<Longrightarrow>
     mn_endpoints m' = mn_endpoints m \<and> mn_secondaries m' = mn_secondaries m \<and>
     mn_secondaryIdCounter m' = mn_secondaryIdCounter m \<and> mn_posted m' = mn_posted m"
  by (auto simp: mn_addMessage_def Let_def split: prod.splits sum.splits)

lemma mn_step_registry:
  assumes ok: "registry_ok m" and st: "mn_step m ev = Some (Inr (m', out))"
  shows "registry_ok m'"
proof (cases ev)
  case (MN_RunPosted n)
  let ?m = "m\<lparr>mn_posted := take n (mn_posted m) @ drop (Suc n) (mn_posted m)\<rparr>"
  have "registry_ok ?m" using ok by simp
  from runTask_registry [OF this, of "mn_posted m ! n" m' out] show ?thesis
    using ok st MN_RunPosted by (auto split: if_splits)
next
  case (MN_Signal k sg)
  show ?thesis
  proof (cases "length (mn_endpoints m) \<le> k")
    case False
    then have "m' = fst (onSignal k (mn_endpoints m ! k) sg m)" using st MN_Signal by (metis fst_conv mn_step.simps(3) option.inject sum.inject(2))
    then show ?thesis using registry_ok_fields [OF ok] by (simp add: onSignal_fields)
  qed (use ok st MN_Signal in simp)
next
  case (MN_AddMessage msg w)
  then obtain f where "mn_addMessage msg w m = Inr (f, m', out)"
    using st by (cases "mn_addMessage msg w m") auto
  then show ?thesis using registry_ok_fields [OF ok] mn_addMessage_fields by blast
next
  case (MN_Answer q n r)
  then show ?thesis using registry_ok_fields [OF ok] mn_request_fields st by (metis mn_step.simps(5) option.inject)
next
  case (MN_WaitOver q)
  then show ?thesis using registry_ok_fields [OF ok] mn_request_fields st by (metis mn_step.simps(6) option.inject)
qed (use ok st in \<open>auto simp: addSecondary_def\<close>)

definition mn_run_ok :: "(cpp_exception + MasterNode) option \<Rightarrow> bool" where
  "mn_run_ok x \<longleftrightarrow> (\<forall>m. x = Some (Inr m) \<longrightarrow> registry_ok m)"

lemma mn_run_step_Some:
  assumes "mn_run_step x ev = Some (Inr m')"
  shows "\<exists>m out. x = Some (Inr m) \<and> mn_step m ev = Some (Inr (m', out))"
proof -
  have "\<exists>m. x = Some (Inr m)"
    using assms by (auto simp: mn_run_step_def split: option.splits sum.splits)
  then obtain m where m: "x = Some (Inr m)" by blast
  with assms obtain r where r: "mn_step m ev = Some r" "map_sum id fst r = Inr m'"
    by (auto simp: mn_run_step_def)
  then obtain y where "r = Inr y" "fst y = m'" by (cases r) auto
  then show ?thesis using m r(1) by (cases y) auto
qed

lemma mn_run_step_registry: "mn_run_ok x \<Longrightarrow> mn_run_ok (mn_run_step x ev)"
  unfolding mn_run_ok_def using mn_run_step_Some mn_step_registry by blast

interpretation master: step_machine mn_run_step "Some (Inr MasterNode_create)" mn_run_ok
proof
  show "mn_run_ok (Some (Inr MasterNode_create))"
    by (simp add: mn_run_ok_def registry_ok_def MasterNode_create_def)
qed (rule mn_run_step_registry)

section \<open>The requests and the store\<close>

text \<open>
  \<open>mn_adds\<close> counts the connections so far. Below \<open>2\<^sup>31\<close> of them every snapshot satisfies what a
  request assumes of it.
\<close>

definition mn_adds :: "MasterNode \<Rightarrow> nat" where
  "mn_adds m = length (mn_endpoints m) + length (filter (\<lambda>t. t = T_AddSecondary) (mn_posted m))"

text \<open>The secondaries a request waits for or has heard from are among those ever connected.\<close>

definition run_ids :: "AddRun \<Rightarrow> size_t set" where
  "run_ids run = set (ar_sent (run_request run)) \<union> set (run_oks run)"

definition requests_ok :: "MasterNode \<Rightarrow> bool" where
  "requests_ok m \<longleftrightarrow>
     (\<forall>run \<in> set (mn_requests m).
        ar_ok (run_request run) (run_oks run) \<and> run_ids run \<subseteq> set (mn_endpoints m))"

text \<open>Message \<open>q\<close> of the store is the message of request \<open>q\<close>.\<close>

definition store_ok :: "MasterNode \<Rightarrow> bool" where
  "store_ok m \<longleftrightarrow>
     ms_nextMessageId (mn_storage m) = word_of_nat (length (mn_requests m)) \<and>
     (\<forall>k. ms_messages (mn_storage m) k =
        (if unat k < length (mn_requests m) then Some (ar_message (run_request (mn_requests m ! unat k))) else None)) \<and>
     (\<forall>q < length (mn_requests m). ar_messageId (run_request (mn_requests m ! q)) = word_of_nat q)"

definition mn_ok :: "MasterNode \<Rightarrow> bool" where
  "mn_ok m \<longleftrightarrow> registry_ok m \<and> requests_ok m \<and> store_ok m"

lemma mn_ok_parts_update [simp]:
  "requests_ok (m\<lparr>mn_posted := ts\<rparr>) = requests_ok m" "store_ok (m\<lparr>mn_posted := ts\<rparr>) = store_ok m"
  by (simp_all add: requests_ok_def store_ok_def)

lemma mn_ok_cong:
  "mn_ok m \<Longrightarrow> registry_ok m' \<Longrightarrow> mn_requests m' = mn_requests m \<Longrightarrow> mn_storage m' = mn_storage m \<Longrightarrow>
   set (mn_endpoints m) \<subseteq> set (mn_endpoints m') \<Longrightarrow> mn_ok m'"
  by (fastforce simp: mn_ok_def requests_ok_def store_ok_def)

text \<open>What a request sends goes to secondaries of the snapshot.\<close>

lemma sendLoop_sent: "set (ar_sent (fst (sendLoop ss r))) \<subseteq> set (ar_sent r) \<union> snap_id ` set ss"
proof (induction ss arbitrary: r)
  case (Cons s ss)
  from Cons.IH [of r] Cons.IH [of "r\<lparr>ar_pendingWrites := ar_pendingWrites r + 1, ar_sent := ar_sent r @ [snap_id s]\<rparr>"]
  show ?case by (auto simp: Let_def split: prod.splits)
qed simp

lemma sendRequest_sent:
  "set (ar_sent (fst (sendRequestToSecondaries r))) \<subseteq> set (ar_sent r) \<union> snap_id ` set (ar_secondariesSnapshot r)"
  using sendLoop_sent [of "ar_secondariesSnapshot r" r]
  by (auto simp: sendRequestToSecondaries_def Let_def split: prod.splits)

lemma requestMark_sent:
  "requestMarkSuccess r = Inr r' \<Longrightarrow> ar_sent r' = ar_sent r \<and> ar_secondariesSnapshot r' = ar_secondariesSnapshot r"
  "requestMarkFailure r = Inr r' \<Longrightarrow> ar_sent r' = ar_sent r \<and> ar_secondariesSnapshot r' = ar_secondariesSnapshot r"
  by (auto simp: requestMarkSuccess_def requestMarkFailure_def split: if_splits sum.splits)

lemma ar_start_sent:
  assumes "ar_start (Some snap) r = Inr (r', out)"
  shows "set (ar_sent r') \<subseteq> set (ar_sent r) \<union> snap_id ` set snap"
proof -
  define r1 where "r1 = snd (updateData (Some snap) r)"
  have r1: "ar_sent r1 = ar_sent r" "ar_secondariesSnapshot r1 = snap" "updateData (Some snap) r = (True, r1)"
    by (simp_all add: r1_def updateData_def)
  have sent: "set (ar_sent (fst (sendRequestToSecondaries q))) \<subseteq> set (ar_sent r) \<union> snap_id ` set snap"
    if "ar_sent q = ar_sent r" "ar_secondariesSnapshot q = snap" for q
    using sendRequest_sent [of q] that by simp
  show ?thesis
  proof (cases "satisfiedWriteConcern r1 \<ge> ar_writeConcern r1")
    case False
    then show ?thesis using assms sent [of r1] r1 by (simp add: ar_start_def)
  next
    case True
    then obtain r2 where r2: "requestMarkSuccess r1 = Inr r2"
      using assms r1(3) by (cases "requestMarkSuccess r1") (simp_all add: ar_start_def)
    then show ?thesis
      using assms True sent [of r2] r1 requestMark_sent(1) [OF r2]
      by (auto simp: ar_start_def split: if_splits)
  qed
qed

lemma ar_onResponseRecieved_sent:
  "ar_onResponseRecieved i v r = Inr r' \<Longrightarrow> ar_sent r' = ar_sent r"
  by (auto simp: ar_onResponseRecieved_def Let_def dest: requestMark_sent(1) split: if_splits)

lemma mn_request_step_ids:
  assumes "mn_request_step run (AR_Response n v (Some snap)) = Inr (run', out) \<or>
    mn_request_step run (AR_WaitOver (Some snap)) = Inr (run', out)"
  shows "run_ids run' \<subseteq> run_ids run \<union> snap_id ` set snap"
  using assms
proof
  let ?r = "run_request run" and ?ev = "AR_Response n v (Some snap)"
  let ?qq = "?r\<lparr>ar_sent := take n (ar_sent ?r) @ drop (Suc n) (ar_sent ?r)\<rparr>"
  assume st: "mn_request_step run ?ev = Inr (run', out)"
  then obtain r where r: "ar_onResponse n v (Some snap) ?r = Inr (r, out)"
    "run' = \<lparr>run_request = r, run_oks = run_oks run @ event_oks ?r ?ev, run_out = run_out run @ out\<rparr>"
    by (auto simp: mn_request_step_def split: sum.splits)
  have o: "set (event_oks ?r ?ev) \<subseteq> set (ar_sent ?r)"
    by (auto simp: event_oks_def split: option.splits AddMessageStatus.splits)
  have s: "set (ar_sent ?qq) \<subseteq> set (ar_sent ?r)"
    using set_take_subset [of n "ar_sent ?r"] set_drop_subset [of "Suc n" "ar_sent ?r"] by simp
  have "set (ar_sent r) \<subseteq> set (ar_sent ?r) \<union> snap_id ` set snap"
  proof (cases "length (ar_sent ?r) \<le> n")
    case True
    then show ?thesis using r(1) by (simp add: ar_onResponse_def)
  next
    case False
    then obtain r1 where r1: "ar_onResponseRecieved (ar_sent ?r ! n) v ?qq = Inr r1"
      using r(1) by (cases "ar_onResponseRecieved (ar_sent ?r ! n) v ?qq") (simp_all add: ar_onResponse_def Let_def)
    let ?pp = "r1\<lparr>ar_pendingWrites := ar_pendingWrites r1 - 1\<rparr>"
    have "set (ar_sent ?pp) \<subseteq> set (ar_sent ?r)" using ar_onResponseRecieved_sent [OF r1] s by simp
    moreover have "set (ar_sent r) \<subseteq> set (ar_sent ?pp) \<union> snap_id ` set snap"
      using r(1) False r1 ar_start_sent [of snap ?pp r out]
      by (auto simp: ar_onResponse_def Let_def split: if_splits)
    ultimately show ?thesis by blast
  qed
  then show ?thesis using o r(2) by (auto simp: run_ids_def)
next
  let ?r = "run_request run"
  assume st: "mn_request_step run (AR_WaitOver (Some snap)) = Inr (run', out)"
  then obtain r where r: "ar_step ?r (AR_WaitOver (Some snap)) = Inr (r, out)"
    "run_request run' = r" "run_oks run' = run_oks run"
    by (auto simp: mn_request_step_def event_oks_def split: sum.splits)
  have "set (ar_sent r) \<subseteq> set (ar_sent ?r) \<union> snap_id ` set snap"
    using r(1) ar_start_sent [of snap "?r\<lparr>ar_waits := ar_waits ?r - 1\<rparr>" r out] by (auto split: if_splits)
  then show ?thesis using r(2,3) by (auto simp: run_ids_def)
qed

lemma ar_begin_ids:
  assumes "ar_begin i msg w (Some snap) = Inr run" shows "run_ids run \<subseteq> snap_id ` set snap"
proof -
  let ?r = "AddMessageRequest_create i msg w"
  obtain r out where r: "ar_start (Some snap) ?r = Inr (r, out)" "run_request run = r" "run_oks run = []"
    using assms by (cases "ar_start (Some snap) ?r") (auto simp: ar_begin_def)
  then show ?thesis using ar_start_sent [OF r(1)] by (simp add: run_ids_def AddMessageRequest_create_def)
qed

lemma snapshot_ids: "map snap_id (secondariesSnapshot m) = map fst (mn_secondaries m)"
  by (simp add: secondariesSnapshot_def case_prod_beta)

lemma registry_ids:
  assumes ok: "registry_ok m" shows "set (map fst (mn_secondaries m)) \<subseteq> set (mn_endpoints m)"
proof
  fix i
  assume "i \<in> set (map fst (mn_secondaries m))"
  then obtain s where "map_of (mn_secondaries m) i = Some s"
    by (metis map_of_eq_None_iff not_None_eq set_map)
  then have "entry_ok (mn_endpoints m) i s" using ok by (simp add: registry_ok_def)
  then show "i \<in> set (mn_endpoints m)" by (metis entry_ok_def nth_mem)
qed

lemma snapshot_registry_ids: "registry_ok m \<Longrightarrow> snap_id ` set (secondariesSnapshot m) \<subseteq> set (mn_endpoints m)"
  using registry_ids [of m] snapshot_ids [of m] by (metis set_map)

lemma snapshot_registry:
  assumes ok: "registry_ok m" and n: "length (mn_endpoints m) < 2 ^ 31"
  shows "snapshot_ok (Some (secondariesSnapshot m))"
proof -
  note ids = snapshot_ids [of m]
  have d: "distinct (map fst (mn_secondaries m))" using ok by (simp add: registry_ok_def)
  have "set (map fst (mn_secondaries m)) \<subseteq> set (mn_endpoints m)" using registry_ids [OF ok] .
  then have "card (set (map fst (mn_secondaries m))) \<le> length (mn_endpoints m)"
    using card_mono [OF finite_set] card_length le_trans by blast
  then have "length (mn_secondaries m) \<le> length (mn_endpoints m)" using distinct_card [OF d] by simp
  moreover have "length (secondariesSnapshot m) = length (mn_secondaries m)" by (simp add: secondariesSnapshot_def)
  ultimately show ?thesis using d n unfolding snapshot_ok_def option.case ids by linarith
qed

lemma mn_request_step_ok:
  assumes "ar_ok (run_request run) (run_oks run)" and "event_ok ev"
  shows "\<exists>run' out. mn_request_step run ev = Inr (run', out) \<and> ar_ok (run_request run') (run_oks run') \<and>
     ar_const (run_request run') = ar_const (run_request run)"
proof -
  have "ar_run_ok (Inr run)" using assms(1) by (simp add: ar_run_ok_def)
  then have ok: "ar_run_ok (ar_run_step (Inr run) ev)" by (rule ar_run_step_ok)
  then obtain r out where r: "ar_step (run_request run) ev = Inr (r, out)"
    using assms(2) by (cases "ar_step (run_request run) ev") (auto simp: ar_run_step_def ar_run_ok_def)
  then show ?thesis using ok assms(2) ar_const_step [OF r]
    by (simp add: mn_request_step_def ar_run_step_def ar_run_ok_def)
qed

text \<open>A step of request \<open>q\<close>.\<close>

lemma mn_request_ok:
  assumes ok: "mn_ok m" and ev: "event_ok ev"
    and snap: "ev = AR_Response n v (Some (secondariesSnapshot m)) \<or> ev = AR_WaitOver (Some (secondariesSnapshot m))"
  shows "\<exists>m' out. mn_request q ev m = Inr (m', out) \<and> mn_ok m' \<and> mn_endpoints m' = mn_endpoints m \<and>
     mn_posted m' = mn_posted m \<and> length (mn_requests m') = length (mn_requests m) \<and>
     (\<forall>j < length (mn_requests m). ar_const (run_request (mn_requests m' ! j)) = ar_const (run_request (mn_requests m ! j)))"
proof (cases "q < length (mn_requests m)")
  case True
  then have "ar_ok (run_request (mn_requests m ! q)) (run_oks (mn_requests m ! q))"
    using ok by (simp add: mn_ok_def requests_ok_def)
  from mn_request_step_ok [OF this ev] obtain run out where
    r: "mn_request_step (mn_requests m ! q) ev = Inr (run, out)" "ar_ok (run_request run) (run_oks run)"
      "ar_const (run_request run) = ar_const (run_request (mn_requests m ! q))" by blast
  let ?m = "m\<lparr>mn_requests := (mn_requests m)[q := run]\<rparr>"
  have "run_ids run \<subseteq> run_ids (mn_requests m ! q) \<union> snap_id ` set (secondariesSnapshot m)"
    using mn_request_step_ids [of "mn_requests m ! q" n v "secondariesSnapshot m" run out] r(1) snap by blast
  moreover have "run_ids (mn_requests m ! q) \<subseteq> set (mn_endpoints m)"
    using ok True by (simp add: mn_ok_def requests_ok_def)
  ultimately have ids: "run_ids run \<subseteq> set (mn_endpoints m)"
    using snapshot_registry_ids [of m] ok unfolding mn_ok_def by blast
  have "registry_ok ?m" using ok by (simp add: mn_ok_def)
  moreover have "requests_ok ?m"
    using ok r(2) ids set_update_subset_insert [of "mn_requests m" q run]
    unfolding mn_ok_def requests_ok_def by fastforce
  moreover have c: "ar_const (run_request (mn_requests ?m ! j)) = ar_const (run_request (mn_requests m ! j))" for j
    using r(3) True by (cases "j = q") simp_all
  moreover have "store_ok ?m"
  proof -
    have f: "ar_message (run_request (mn_requests ?m ! j)) = ar_message (run_request (mn_requests m ! j))"
      "ar_messageId (run_request (mn_requests ?m ! j)) = ar_messageId (run_request (mn_requests m ! j))" for j
      using c [of j] by (simp_all add: ar_const_def)
    have l: "length (mn_requests ?m) = length (mn_requests m)" by simp
    have st: "mn_storage ?m = mn_storage m" by simp
    show ?thesis using ok unfolding store_ok_def f l st by (simp add: mn_ok_def store_ok_def)
  qed
  ultimately show ?thesis using True r(1) by (simp add: mn_request_def mn_ok_def)
next
  case False
  then show ?thesis using ok by (simp add: mn_request_def)
qed

lemma ms_addMessage_store:
  assumes "store_ok m" and "length (mn_requests m) < 2 ^ 64"
  shows "MasterStorage_addMessage message (mn_storage m) =
     ((word_of_nat (length (mn_requests m)), message),
      \<lparr>ms_nextMessageId = word_of_nat (Suc (length (mn_requests m))),
       ms_messages = (ms_messages (mn_storage m))(word_of_nat (length (mn_requests m)) \<mapsto> message)\<rparr>)"
proof -
  have u: "unat (word_of_nat (length (mn_requests m)) :: size_t) = length (mn_requests m)"
    using assms(2) by (simp add: unat_of_nat)
  have "ms_messages (mn_storage m) (word_of_nat (length (mn_requests m))) = None"
    using assms(1) u by (simp add: store_ok_def)
  then show ?thesis using assms(1)
    by (cases "mn_storage m") (simp add: MasterStorage_addMessage_def ms_fetch_add_def ms_insert_def store_ok_def)
qed

lemma mn_addMessage_ok:
  assumes ok: "mn_ok m" and n: "length (mn_endpoints m) < 2 ^ 31" and l: "Suc (length (mn_requests m)) < 2 ^ 64"
  shows "\<exists>m' out. mn_addMessage message w m =
       Inr (if w \<le> 1 then ReadyFuture else RequestFuture (length (mn_requests m)), m', out) \<and> mn_ok m' \<and>
     mn_endpoints m' = mn_endpoints m \<and> mn_posted m' = mn_posted m \<and>
     (\<exists>run. mn_requests m' = mn_requests m @ [run] \<and>
        ar_const (run_request run) = (if w \<le> 1 then 0 else w - 1, word_of_nat (length (mn_requests m)), message))"
proof -
  let ?n = "length (mn_requests m)" and ?s = "Some (secondariesSnapshot m)" and ?w = "if w \<le> 1 then 0 else w - 1"
  have s: "snapshot_ok ?s" using snapshot_registry [OF _ n] ok by (simp add: mn_ok_def)
  have st: "store_ok m" using ok by (simp add: mn_ok_def)
  note add = ms_addMessage_store [OF st, of message]
  from ar_run_okD [OF s, of "word_of_nat ?n" message ?w "[]"] obtain run where
    run: "ar_begin (word_of_nat ?n) message ?w ?s = Inr run" "ar_ok (run_request run) (run_oks run)"
      "ar_const (run_request run) = (?w, word_of_nat ?n, message)" by auto
  define m' where "m' = m\<lparr>mn_storage := snd (MasterStorage_addMessage message (mn_storage m)),
      mn_requests := mn_requests m @ [run]\<rparr>"
  have eq: "mn_addMessage message w m =
      Inr (if w \<le> 1 then ReadyFuture else RequestFuture ?n, m', map (MN_Request ?n) (run_out run))"
    using l run(1) by (simp add: mn_addMessage_def add Let_def m'_def)
  have f: "ar_message (run_request run) = message" "ar_messageId (run_request run) = word_of_nat ?n"
    using run(3) by (simp_all add: ar_const_def)
  have u: "unat k = ?n \<longleftrightarrow> k = word_of_nat ?n" for k :: size_t
    using l by (auto simp: word_unat_eq_iff unat_of_nat)
  have "store_ok m'"
    unfolding store_ok_def
  proof (intro conjI allI impI)
    show "ms_nextMessageId (mn_storage m') = word_of_nat (length (mn_requests m'))"
      using l by (simp add: m'_def add)
    fix k
    show "ms_messages (mn_storage m') k =
        (if unat k < length (mn_requests m') then Some (ar_message (run_request (mn_requests m' ! unat k))) else None)"
      using st l f(1) u [of k]
      by (cases "unat k" ?n rule: linorder_cases) (auto simp: m'_def add store_ok_def nth_append)
  next
    fix q
    assume "q < length (mn_requests m')"
    then show "ar_messageId (run_request (mn_requests m' ! q)) = word_of_nat q"
      using st f(2) by (cases "q = ?n") (auto simp: m'_def store_ok_def nth_append)
  qed
  moreover have "run_ids run \<subseteq> set (mn_endpoints m)"
    using ar_begin_ids [OF run(1)] snapshot_registry_ids [of m] ok unfolding mn_ok_def by blast
  then have "requests_ok m'" using ok run(2) by (simp add: m'_def mn_ok_def requests_ok_def)
  moreover have "registry_ok m'" using ok by (simp add: m'_def mn_ok_def)
  ultimately show ?thesis using eq run(3)
    by (intro exI [of _ m'] exI) (auto simp: mn_ok_def m'_def)
qed

section \<open>Whole runs\<close>

fun connections_of :: "mn_event \<Rightarrow> nat" where
  "connections_of MN_AddSecondary = 1"
| "connections_of _ = 0"

fun messages_of :: "mn_event \<Rightarrow> nat" where
  "messages_of (MN_AddMessage _ _) = 1"
| "messages_of _ = 0"

text \<open>What a step owes: it returns without an exception and keeps the invariant and what was asked of each request.\<close>

definition mn_step_good :: "MasterNode \<Rightarrow> mn_event \<Rightarrow> (cpp_exception + MasterNode \<times> mn_out list) option \<Rightarrow> bool" where
  "mn_step_good m ev r \<longleftrightarrow>
     (\<exists>m' out. r = Some (Inr (m', out)) \<and> mn_ok m' \<and> mn_adds m' \<le> mn_adds m + connections_of ev \<and>
        length (mn_requests m') = length (mn_requests m) + messages_of ev \<and>
        (\<forall>j < length (mn_requests m).
           ar_const (run_request (mn_requests m' ! j)) = ar_const (run_request (mn_requests m ! j))))"

lemma mn_step_goodI:
  assumes "mn_ok m" "r = Some (Inr (m', out))" "registry_ok m'" "mn_requests m' = mn_requests m"
    "mn_storage m' = mn_storage m" "mn_adds m' \<le> mn_adds m + connections_of ev" "messages_of ev = 0"
    "set (mn_endpoints m) \<subseteq> set (mn_endpoints m')"
  shows "mn_step_good m ev r"
  unfolding mn_step_good_def using assms mn_ok_cong [OF assms(1,3,4,5,8)] by auto

lemma mn_adds_drop: "n < length (mn_posted m) \<Longrightarrow>
  mn_adds (m\<lparr>mn_posted := take n (mn_posted m) @ drop (Suc n) (mn_posted m)\<rparr>) +
    (if mn_posted m ! n = T_AddSecondary then 1 else 0) = mn_adds m"
proof -
  assume "n < length (mn_posted m)"
  then have "mn_posted m = take n (mn_posted m) @ mn_posted m ! n # drop (Suc n) (mn_posted m)"
    by (rule id_take_nth_drop)
  then have "length (filter (\<lambda>t. t = T_AddSecondary) (mn_posted m)) =
      length (filter (\<lambda>t. t = T_AddSecondary) (take n (mn_posted m) @ mn_posted m ! n # drop (Suc n) (mn_posted m)))"
    by (rule arg_cong)
  then show ?thesis by (simp add: mn_adds_def)
qed

lemma runTask_ok:
  assumes ok: "mn_ok m" and l: "length (mn_requests m) < 2 ^ 64"
  shows "\<exists>m' out. runTask t m = Some (m', out) \<and> registry_ok m' \<and> mn_requests m' = mn_requests m \<and>
     mn_storage m' = mn_storage m \<and> mn_adds m' = mn_adds m + (if t = T_AddSecondary then 1 else 0) \<and>
     set (mn_endpoints m) \<subseteq> set (mn_endpoints m')"
proof -
  have reg: "registry_ok m" using ok by (simp add: mn_ok_def)
  show ?thesis
  proof (cases t)
    case T_AddSecondary
    then show ?thesis using addSecondaryImpl_registry [OF reg]
      by (simp add: addSecondaryImpl_def Let_def mn_adds_def subset_insertI)
  next
    case (T_Invalidated i)
    then show ?thesis using onInvalidated_registry [OF reg, of i]
      by (simp add: onInvalidated_def mn_adds_def split: option.splits)
  next
    case (T_GetMessages i p)
    have "unat (word_of_nat (length (mn_requests m)) :: size_t) = length (mn_requests m)"
      using l by (simp add: unat_of_nat)
    then have "ms_messages (mn_storage m) (word_of_nat (length (mn_requests m))) = None"
      using ok by (simp add: mn_ok_def store_ok_def)
    from master_store.chunk_returns [OF this, of i] obtain xs where
      "MasterStorage_getContiguousChunk (mn_storage m) i = Some xs" by blast
    then show ?thesis using T_GetMessages reg by (simp add: onIncomingGetMessages_def)
  next
    case (T_SecondaryNodeReady i name p)
    then show ?thesis using onReady_registry [OF reg, of i name p]
      by (simp add: onIncomingSecondaryNodeReady_def mn_adds_def split: option.splits)
  qed
qed

lemma onSignal_adds: "mn_adds (fst (onSignal k i sg m)) = mn_adds m"
  by (cases "(k, i, sg, m)" rule: onSignal.cases) (simp_all add: mn_post_def mn_adds_def)

lemma mn_request_goodI:
  assumes "\<exists>m' out. r = Inr (m', out) \<and> mn_ok m' \<and> mn_endpoints m' = mn_endpoints m \<and>
     mn_posted m' = mn_posted m \<and> length (mn_requests m') = length (mn_requests m) \<and>
     (\<forall>j < length (mn_requests m). ar_const (run_request (mn_requests m' ! j)) = ar_const (run_request (mn_requests m ! j)))"
    and "mn_step m ev = Some r" and "messages_of ev = 0"
  shows "mn_step_good m ev (mn_step m ev)"
proof -
  from assms(1) obtain m' out where
    m': "r = Inr (m', out)" "mn_ok m'" "mn_endpoints m' = mn_endpoints m" "mn_posted m' = mn_posted m"
      "length (mn_requests m') = length (mn_requests m)"
      "\<forall>j < length (mn_requests m). ar_const (run_request (mn_requests m' ! j)) = ar_const (run_request (mn_requests m ! j))"
    by blast
  have "mn_adds m' = mn_adds m" using m'(3,4) by (simp add: mn_adds_def)
  then show ?thesis using m' assms(2,3) unfolding mn_step_good_def by (intro exI [of _ m'] exI [of _ out]) simp
qed

lemma mn_step_ok:
  assumes ok: "mn_ok m" and n: "mn_adds m < 2 ^ 31" and l: "Suc (length (mn_requests m)) < 2 ^ 64"
  shows "mn_step_good m ev (mn_step m ev)"
proof -
  have reg: "registry_ok m" using ok by (simp add: mn_ok_def)
  have ne: "length (mn_endpoints m) < 2 ^ 31" using n by (simp add: mn_adds_def)
  have s: "snapshot_ok (Some (secondariesSnapshot m))" using snapshot_registry [OF reg ne] .
  show ?thesis
  proof (cases ev)
    case MN_AddSecondary
    show ?thesis
      by (rule mn_step_goodI [OF ok, of _ "addSecondary m" "[]"])
        (use MN_AddSecondary reg in \<open>simp_all add: addSecondary_def mn_adds_def\<close>)
  next
    case (MN_RunPosted k)
    show ?thesis
    proof (cases "length (mn_posted m) \<le> k")
      case True
      show ?thesis
        by (rule mn_step_goodI [OF ok, of _ m "[]"]) (use MN_RunPosted True reg in simp_all)
    next
      case False
      let ?m = "m\<lparr>mn_posted := take k (mn_posted m) @ drop (Suc k) (mn_posted m)\<rparr>"
      have m1: "mn_ok ?m" using ok by (simp add: mn_ok_def)
      have l1: "length (mn_requests ?m) < 2 ^ 64" using l by simp
      from runTask_ok [OF m1 l1, of "mn_posted m ! k"] obtain m' out where
        t: "runTask (mn_posted m ! k) ?m = Some (m', out)" "registry_ok m'" "mn_requests m' = mn_requests ?m"
          "mn_storage m' = mn_storage ?m"
          "mn_adds m' = mn_adds ?m + (if mn_posted m ! k = T_AddSecondary then 1 else 0)"
          "set (mn_endpoints ?m) \<subseteq> set (mn_endpoints m')" by blast
      have "mn_adds m' = mn_adds m" using t(5) mn_adds_drop [of k m] False by simp
      then show ?thesis
        using mn_step_goodI [OF ok _ t(2), of "mn_step m ev" out ev] t MN_RunPosted False by simp
    qed
  next
    case (MN_Signal k sg)
    show ?thesis
    proof (cases "length (mn_endpoints m) \<le> k")
      case True
      show ?thesis
        by (rule mn_step_goodI [OF ok, of _ m "[]"]) (use MN_Signal True reg in simp_all)
    next
      case False
      let ?r = "onSignal k (mn_endpoints m ! k) sg m"
      have "registry_ok (fst ?r)" using registry_ok_fields [OF reg] by (simp add: onSignal_fields)
      then show ?thesis
        using MN_Signal False
        by (intro mn_step_goodI [OF ok, of _ "fst ?r" "snd ?r"]) (simp_all add: onSignal_fields onSignal_adds)
    qed
  next
    case (MN_AddMessage msg w)
    from mn_addMessage_ok [OF ok ne l, of msg w] obtain m' out run where
      a: "mn_addMessage msg w m =
          Inr (if w \<le> 1 then ReadyFuture else RequestFuture (length (mn_requests m)), m', out)" "mn_ok m'"
        "mn_endpoints m' = mn_endpoints m" "mn_posted m' = mn_posted m" "mn_requests m' = mn_requests m @ [run]"
      by blast
    moreover have "mn_adds m' = mn_adds m" using a(3,4) by (simp add: mn_adds_def)
    ultimately show ?thesis using MN_AddMessage by (simp add: mn_step_good_def nth_append)
  next
    case (MN_Answer q k r)
    have "event_ok (AR_Response k r (Some (secondariesSnapshot m)))" using s by simp
    from mn_request_ok [OF ok this, of k r q] show ?thesis
      unfolding MN_Answer by (intro mn_request_goodI) simp_all
  next
    case (MN_WaitOver q)
    have "event_ok (AR_WaitOver (Some (secondariesSnapshot m)))" using s by simp
    from mn_request_ok [OF ok this, of q] show ?thesis
      unfolding MN_WaitOver by (intro mn_request_goodI) simp_all
  qed
qed

text \<open>The bounds of a run: connections and messages so far.\<close>

definition mn_within :: "MasterNode \<Rightarrow> mn_event list \<Rightarrow> bool" where
  "mn_within m evs \<longleftrightarrow>
     mn_adds m + sum_list (map connections_of evs) < 2 ^ 31 \<and>
     Suc (length (mn_requests m) + sum_list (map messages_of evs)) < 2 ^ 64"

lemma mn_run_from:
  assumes "mn_ok m" "mn_within m evs"
  shows "\<exists>m'. run_steps mn_run_step (Some (Inr m)) evs = Some (Inr m') \<and> mn_ok m' \<and> mn_within m' [] \<and>
     length (mn_requests m') = length (mn_requests m) + sum_list (map messages_of evs) \<and>
     (\<forall>j < length (mn_requests m). ar_const (run_request (mn_requests m' ! j)) = ar_const (run_request (mn_requests m ! j)))"
  using assms
proof (induction evs arbitrary: m)
  case Nil
  then show ?case by (simp add: mn_within_def)
next
  case (Cons ev evs)
  have "mn_adds m < 2 ^ 31" "Suc (length (mn_requests m)) < 2 ^ 64"
    using Cons.prems(2) by (simp_all add: mn_within_def)
  from mn_step_ok [OF Cons.prems(1) this, of ev] obtain m1 out where
    m1: "mn_step m ev = Some (Inr (m1, out))" "mn_ok m1" "mn_adds m1 \<le> mn_adds m + connections_of ev"
      "length (mn_requests m1) = length (mn_requests m) + messages_of ev"
      "\<forall>j < length (mn_requests m). ar_const (run_request (mn_requests m1 ! j)) = ar_const (run_request (mn_requests m ! j))"
    unfolding mn_step_good_def by blast
  have "mn_within m1 evs" using Cons.prems(2) m1(3,4) by (simp add: mn_within_def)
  from Cons.IH [OF m1(2) this] obtain m' where
    m': "run_steps mn_run_step (Some (Inr m1)) evs = Some (Inr m')" "mn_ok m'" "mn_within m' []"
      "length (mn_requests m') = length (mn_requests m1) + sum_list (map messages_of evs)"
      "\<forall>j < length (mn_requests m1). ar_const (run_request (mn_requests m' ! j)) = ar_const (run_request (mn_requests m1 ! j))"
    by blast
  have "mn_run_step (Some (Inr m)) ev = Some (Inr m1)" using m1(1) by (simp add: mn_run_step_def)
  then show ?case using m' m1(4,5) by auto
qed

lemma mn_adds_from:
  assumes "mn_ok m" "mn_within m evs" "run_steps mn_run_step (Some (Inr m)) evs = Some (Inr m')"
  shows "mn_adds m' \<le> mn_adds m + sum_list (map connections_of evs)"
  using assms
proof (induction evs arbitrary: m)
  case (Cons ev evs)
  have "mn_adds m < 2 ^ 31" "Suc (length (mn_requests m)) < 2 ^ 64"
    using Cons.prems(2) by (simp_all add: mn_within_def)
  from mn_step_ok [OF Cons.prems(1) this, of ev] obtain m1 out where
    m1: "mn_step m ev = Some (Inr (m1, out))" "mn_ok m1" "mn_adds m1 \<le> mn_adds m + connections_of ev"
      "length (mn_requests m1) = length (mn_requests m) + messages_of ev"
    unfolding mn_step_good_def by blast
  have w: "mn_within m1 evs" using Cons.prems(2) m1(3,4) by (simp add: mn_within_def)
  have "mn_run_step (Some (Inr m)) ev = Some (Inr m1)" using m1(1) by (simp add: mn_run_step_def)
  then have "run_steps mn_run_step (Some (Inr m1)) evs = Some (Inr m')" using Cons.prems(3) by simp
  from Cons.IH [OF m1(2) w this] m1(3) show ?case by simp
qed simp

lemma mn_ok_create: "mn_ok MasterNode_create" "mn_adds MasterNode_create = 0" "mn_requests MasterNode_create = []"
  by (simp_all add: mn_ok_def registry_ok_def requests_ok_def store_ok_def mn_adds_def MasterNode_create_def
      MasterStorage_create_def)

lemma mn_run_ok:
  assumes "mn_within MasterNode_create evs"
  shows "\<exists>m. mn_run evs = Some (Inr m) \<and> mn_ok m \<and> mn_within m [] \<and>
     length (mn_requests m) = sum_list (map messages_of evs)"
  using mn_run_from [OF mn_ok_create(1) assms] mn_ok_create(3) by simp

text \<open>When no addition is running, reading from id 0 gives the messages of all requests in order.\<close>

definition mn_messages :: "MasterNode \<Rightarrow> string list" where
  "mn_messages m = map (\<lambda>run. ar_message (run_request run)) (mn_requests m)"

lemma store_ok_chunk:
  assumes st: "store_ok m" and l: "length (mn_requests m) < 2 ^ 64"
  shows "MasterStorage_getContiguousChunk (mn_storage m) 0 = Some (mn_messages m)"
proof -
  have u: "unat (word_of_nat i :: size_t) = i" if "i \<le> length (mn_requests m)" for i
    using that l by (simp add: unat_of_nat)
  have "is_chunk (ms_messages (mn_storage m)) 0 (mn_messages m)"
    unfolding is_chunk_def
  proof (intro conjI allI impI)
    fix i
    assume "i < length (mn_messages m)"
    then have i: "i < length (mn_requests m)" by (simp add: mn_messages_def)
    then have "unat (word_of_nat i :: size_t) = i" using u [of i] by simp
    then show "ms_messages (mn_storage m) (0 + word_of_nat i) = Some (mn_messages m ! i)"
      using st i by (simp add: store_ok_def mn_messages_def)
  next
    show "ms_messages (mn_storage m) (0 + word_of_nat (length (mn_messages m))) = None"
      using st u [of "length (mn_requests m)"] by (simp add: store_ok_def mn_messages_def)
  qed
  then show ?thesis by (simp add: master_store.chunk_iff)
qed

lemma oks_bound:
  assumes ok: "mn_ok m" and w: "mn_within m []" and run: "run \<in> set (mn_requests m)"
  shows "card (set (run_oks run)) < 2 ^ 31"
proof -
  have "set (run_oks run) \<subseteq> set (mn_endpoints m)"
    using ok run by (auto simp: mn_ok_def requests_ok_def run_ids_def)
  then have "card (set (run_oks run)) \<le> length (mn_endpoints m)"
    using card_mono [OF finite_set] card_length le_trans by blast
  then show ?thesis using w by (simp add: mn_within_def mn_adds_def)
qed

text \<open>A message, its request and the answers to it, from the addition to any later state.\<close>

lemma write_concern_run:
  assumes "mn_within MasterNode_create (evs1 @ MN_AddMessage msg w # evs2)"
  shows "\<exists>m0 m. mn_run evs1 = Some (Inr m0) \<and> mn_run (evs1 @ MN_AddMessage msg w # evs2) = Some (Inr m) \<and>
     (let q = length (mn_requests m0); run = mn_requests m ! q
      in q < length (mn_requests m) \<and> ms_messages (mn_storage m) (word_of_nat q) = Some msg \<and>
         ar_messageId (run_request run) = word_of_nat q \<and> ar_message (run_request run) = msg \<and>
         set (run_oks run) \<subseteq> set (mn_endpoints m) \<and>
         (1 < w \<longrightarrow> ar_promise (run_request run) = VP_Value \<longrightarrow> unat w - 1 \<le> card (set (run_oks run))))"
proof -
  have w1: "mn_within MasterNode_create evs1" using assms by (simp add: mn_within_def)
  from mn_run_ok [OF w1] obtain m0 where
    m0: "mn_run evs1 = Some (Inr m0)" "mn_ok m0" "mn_within m0 []" "length (mn_requests m0) = sum_list (map messages_of evs1)"
    by blast
  let ?q = "length (mn_requests m0)"
  have b0: "length (mn_endpoints m0) < 2 ^ 31" "Suc ?q < 2 ^ 64"
    using m0(3) by (simp_all add: mn_within_def mn_adds_def)
  from mn_addMessage_ok [OF m0(2) b0, of msg w] obtain m1 out run1 where
    a: "mn_addMessage msg w m0 = Inr (if w \<le> 1 then ReadyFuture else RequestFuture ?q, m1, out)" "mn_ok m1"
      "mn_endpoints m1 = mn_endpoints m0" "mn_posted m1 = mn_posted m0" "mn_requests m1 = mn_requests m0 @ [run1]"
      "ar_const (run_request run1) = (if w \<le> 1 then 0 else w - 1, word_of_nat ?q, msg)" by blast
  from mn_run_ok [OF assms] obtain m where
    m: "mn_run (evs1 @ MN_AddMessage msg w # evs2) = Some (Inr m)" "mn_ok m" "mn_within m []"
      "length (mn_requests m) = sum_list (map messages_of (evs1 @ MN_AddMessage msg w # evs2))" by blast
  have step: "mn_run_step (Some (Inr m0)) (MN_AddMessage msg w) = Some (Inr m1)"
    using a(1) by (simp add: mn_run_step_def)
  then have m1m: "run_steps mn_run_step (Some (Inr m1)) evs2 = Some (Inr m)"
    using m(1) m0(1) by (simp add: run_steps_append)
  have w2: "mn_within m1 evs2"
  proof -
    have "mn_adds m0 + sum_list (map connections_of evs2) < 2 ^ 31"
      using mn_adds_from [OF mn_ok_create(1) w1 m0(1)] assms by (simp add: mn_within_def mn_ok_create)
    then show ?thesis using assms a(3,4,5) m0(4) by (simp add: mn_within_def mn_adds_def mn_ok_create)
  qed
  from mn_run_from [OF a(2) w2] m1m have c:
    "ar_const (run_request (mn_requests m ! ?q)) = ar_const (run_request (mn_requests m1 ! ?q))"
    using a(5) by simp
  let ?run = "mn_requests m ! ?q"
  have q: "?q < length (mn_requests m)" using m(4) m0(4) by simp
  have const: "ar_const (run_request ?run) = (if w \<le> 1 then 0 else w - 1, word_of_nat ?q, msg)"
    using c a(5,6) by simp
  have mem: "?run \<in> set (mn_requests m)" using q by simp
  have uq: "unat (word_of_nat ?q :: size_t) = ?q" using b0(2) by (simp add: unat_of_nat)
  have st: "ms_messages (mn_storage m) (word_of_nat ?q) = Some msg"
    using m(2) q const uq by (simp add: mn_ok_def store_ok_def ar_const_def)
  have ids: "set (run_oks ?run) \<subseteq> set (mn_endpoints m)" and arok: "ar_ok (run_request ?run) (run_oks ?run)"
    using m(2) mem by (auto simp: mn_ok_def requests_ok_def run_ids_def)
  have "unat w - 1 \<le> card (set (run_oks ?run))" if "1 < w" "ar_promise (run_request ?run) = VP_Value"
  proof -
    have nw: "\<not> w \<le> 1" "w \<noteq> 0" using that(1) by auto
    then have wc: "ar_writeConcern (run_request ?run) = w - 1" using const by (simp add: ar_const_def)
    have "ar_core (run_request ?run) (run_oks ?run)" using arok by (simp add: ar_ok_def)
    then have "unat (ar_writeConcern (run_request ?run)) \<le> card (set (run_oks ?run))"
      using that(2) oks_bound [OF m(2,3) mem] unfolding ar_core_def by blast
    moreover have "unat (w - 1) = unat w - 1" using nw(2) by (simp add: unat_minus_one)
    ultimately show ?thesis using wc by simp
  qed
  then show ?thesis using m0(1) m(1) q st const ids by (auto simp: Let_def ar_const_def)
qed

section \<open>Properties\<close>

text \<open>
C33: The registry of the master is consistent after every run that gets through: no two secondaries
have the same id, each is reached by the endpoint that was created for its id, none that has
been invalidated is listed, and a secondary is operational exactly when it has told its name.
\<close>

theorem master_registry_consistent:
  assumes "mn_run evs = Some (Inr m)"
  shows "distinct (map snap_id (secondariesSnapshot m)) \<and>
     (\<forall>s \<in> set (secondariesSnapshot m).
        snap_endpoint s < length (mn_endpoints m) \<and> mn_endpoints m ! snap_endpoint s = snap_id s \<and>
        snap_state s = (if snap_friendlyName s = None then REGISTERING else OPERATIONAL))"
proof -
  have reg: "registry_ok m" using master.inv_run [of evs] assms by (simp add: mn_run_ok_def)
  then have d: "distinct (map fst (mn_secondaries m))" by (simp add: registry_ok_def)
  have "entry_ok (mn_endpoints m) i s" if "(i, s) \<in> set (mn_secondaries m)" for i s
    using reg that map_of_is_SomeI [OF d that] by (simp add: registry_ok_def)
  then show ?thesis unfolding snapshot_ids using d by (fastforce simp: secondariesSnapshot_def entry_ok_def)
qed

theorem master_registry_consistent_witness:
  "\<exists>m. mn_run [MN_AddSecondary, MN_AddSecondary, MN_RunPosted 0, MN_RunPosted 0] = Some (Inr m) \<and>
     distinct (map snap_id (secondariesSnapshot m)) \<and> map snap_id (secondariesSnapshot m) = [0, 1]"
proof -
  let ?evs = "[MN_AddSecondary, MN_AddSecondary, MN_RunPosted 0, MN_RunPosted 0]"
  obtain m where m: "mn_run ?evs = Some (Inr m)" "map snap_id (secondariesSnapshot m) = [0, 1]"
    by (simp add: mn_run_step_def addSecondary_def addSecondaryImpl_def MasterNode_create_def secondariesSnapshot_def)
  from master_registry_consistent [OF m(1)] m show ?thesis by (intro exI [of _ m]) simp
qed



end
