(* ===== verification/SecondaryNodes.thy ===== *)
theory SecondaryNodes
  imports Endpoint Storages
begin

text \<open>
  app/secondary-node/mastersession and app/secondary-node/secondarynode: the secondary's
  connection to the master and the node that keeps it alive.

  A session is driven by the signals of its endpoint and by the answers to its own requests;
  what it does to the endpoint is the output of the step. \<open>mss_waiting\<close> are the requests whose
  continuation has not run. The node's \<^verbatim>\<open>invalidated\<close> and \<^verbatim>\<open>operational\<close> slots run while the
  session emits. \<open>sns_connects\<close> and \<open>sns_timers\<close> count the connection attempts and reconnection
  timers that asio holds for the node. A handler of a session that is gone finds its weak
  pointer expired, so an event without a session changes nothing.

  Looking for the first gap does not return when all \<open>2\<^sup>64\<close> ids are taken; then the step is
  \<^const>\<open>None\<close>.
\<close>

section \<open>MasterSession\<close>

datatype continuation = Cont_Messages size_t | Cont_Ready

record MasterSession =
  mss_friendlyName :: string
  mss_waiting :: "continuation list"

datatype ms_out =
    MS_RunEndpoint
  | MS_SendGetMessages size_t
  | MS_SendSecondaryNodeReady string
  | MS_SetPromise nat answer
  | MS_DropPromise nat
  | MS_Emit_invalidated
  | MS_Emit_operational

type_synonym ms_result = "(SecondaryStorage \<times> MasterSession \<times> ms_out list) option"

definition MasterSession_ctor :: "string \<Rightarrow> MasterSession" where
  [simp]: "MasterSession_ctor friendlyName = \<lparr>mss_friendlyName = friendlyName, mss_waiting = []\<rparr>"

definition MasterSession_create :: "string \<Rightarrow> MasterSession" where
  "MasterSession_create friendlyName = MasterSession_ctor friendlyName"

definition askForMessages :: "SecondaryStorage \<Rightarrow> MasterSession \<Rightarrow> ms_result" where
  "askForMessages storage s =
     (case SecondaryStorage_getFirstGap storage of
        None \<Rightarrow> None
      | Some gap \<Rightarrow>
          Some (storage, s\<lparr>mss_waiting := mss_waiting s @ [Cont_Messages gap]\<rparr>, [MS_SendGetMessages gap]))"

definition MasterSession_run :: "SecondaryStorage \<Rightarrow> MasterSession \<Rightarrow> ms_result" where
  "MasterSession_run storage s =
     (case askForMessages storage s of
        None \<Rightarrow> None
      | Some (storage', s', out) \<Rightarrow> Some (storage', s', MS_RunEndpoint # out))"

definition notifyOperational :: "MasterSession \<Rightarrow> MasterSession \<times> ms_out list" where
  "notifyOperational s =
     (s\<lparr>mss_waiting := mss_waiting s @ [Cont_Ready]\<rparr>, [MS_SendSecondaryNodeReady (mss_friendlyName s)])"

text \<open>The continuations; the outcome is what the request's future holds.\<close>

definition onMessages :: "size_t \<Rightarrow> outcome \<Rightarrow> SecondaryStorage \<Rightarrow> MasterSession \<Rightarrow> ms_result" where
  "onMessages gap response storage s =
     (case response of
        Got_GetMessages messages \<Rightarrow>
          (let storage' = SecondaryStorage_addMessages gap messages storage;
               (s', out) = notifyOperational s
           in Some (storage', s', MS_Emit_operational # out))
      | _ \<Rightarrow> askForMessages storage s)"

definition onReadyAck :: "outcome \<Rightarrow> SecondaryStorage \<Rightarrow> MasterSession \<Rightarrow> ms_result" where
  "onReadyAck response storage s =
     (case response of
        Got_SecondaryNodeReady \<Rightarrow> Some (storage, s, [])
      | _ \<Rightarrow> (let (s', out) = notifyOperational s in Some (storage, s', out)))"

definition onEndpointInvalidated :: "SecondaryStorage \<Rightarrow> MasterSession \<Rightarrow> ms_result" where
  "onEndpointInvalidated storage s = Some (storage, s, [MS_Emit_invalidated])"

definition onIncomingAddMessage ::
    "size_t \<Rightarrow> string \<Rightarrow> nat \<Rightarrow> SecondaryStorage \<Rightarrow> MasterSession \<Rightarrow> ms_result" where
  "onIncomingAddMessage msgId msg response storage s =
     Some (SecondaryStorage_addMessage msgId msg storage, s, [MS_SetPromise response (A_AddMessage OK)])"

definition onIncomingPing ::
    "timestamp \<Rightarrow> timestamp \<Rightarrow> nat \<Rightarrow> SecondaryStorage \<Rightarrow> MasterSession \<Rightarrow> ms_result" where
  "onIncomingPing currentTimestamp pingTimestamp response storage s =
     Some (storage, s, [MS_SetPromise response (A_Ping currentTimestamp)])"

text \<open>
  \<^verbatim>\<open>establishConnections\<close> connects two of the four request signals; the promise that comes
  with one of the others is dropped.
\<close>

datatype ms_event =
    MS_Response nat outcome
  | MS_Invalidated
  | MS_Incoming incoming_request timestamp

fun ms_incoming :: "timestamp \<Rightarrow> incoming_request \<Rightarrow> SecondaryStorage \<Rightarrow> MasterSession \<Rightarrow> ms_result" where
  "ms_incoming now (Incoming_addMessage msgId msg response) storage s =
     onIncomingAddMessage msgId msg response storage s"
| "ms_incoming now (Incoming_ping t response) storage s = onIncomingPing now t response storage s"
| "ms_incoming now (Incoming_getMessages _ response) storage s = Some (storage, s, [MS_DropPromise response])"
| "ms_incoming now (Incoming_secondaryNodeReady _ response) storage s = Some (storage, s, [MS_DropPromise response])"

fun ms_step :: "ms_event \<Rightarrow> SecondaryStorage \<Rightarrow> MasterSession \<Rightarrow> ms_result" where
  "ms_step (MS_Response n response) storage s =
     (if length (mss_waiting s) \<le> n then Some (storage, s, [])
      else
        (let s' = s\<lparr>mss_waiting := take n (mss_waiting s) @ drop (Suc n) (mss_waiting s)\<rparr>
         in case mss_waiting s ! n of
              Cont_Messages gap \<Rightarrow> onMessages gap response storage s'
            | Cont_Ready \<Rightarrow> onReadyAck response storage s'))"
| "ms_step MS_Invalidated storage s = onEndpointInvalidated storage s"
| "ms_step (MS_Incoming request now) storage s = ms_incoming now request storage s"

section \<open>SecondaryNode\<close>

record SecondaryNodeS =
  sns_friendlyName :: string
  sns_storage :: SecondaryStorage
  sns_operational :: bool
  sns_session :: "MasterSession option"
  sns_connects :: nat
  sns_timers :: nat

datatype sn_out = SN_Connect | SN_StartTimer | SN_Session ms_out

definition SecondaryNodeS_ctor :: "string \<Rightarrow> SecondaryNodeS" where
  [simp]: "SecondaryNodeS_ctor friendlyName =
     \<lparr>sns_friendlyName = friendlyName, sns_storage = SecondaryStorage_create, sns_operational = False,
      sns_session = None, sns_connects = 0, sns_timers = 0\<rparr>"

definition SecondaryNodeS_create :: "string \<Rightarrow> SecondaryNodeS" where
  "SecondaryNodeS_create friendlyName = SecondaryNodeS_ctor friendlyName"

definition reconnectToMaster :: "SecondaryNodeS \<Rightarrow> SecondaryNodeS \<times> sn_out list" where
  "reconnectToMaster n = (n\<lparr>sns_connects := sns_connects n + 1\<rparr>, [SN_Connect])"

definition SecondaryNodeS_run :: "SecondaryNodeS \<Rightarrow> SecondaryNodeS \<times> sn_out list" where
  "SecondaryNodeS_run n = reconnectToMaster n"

definition disconnectMasterSession :: "SecondaryNodeS \<Rightarrow> SecondaryNodeS" where
  "disconnectMasterSession n = n\<lparr>sns_session := None, sns_operational := False\<rparr>"

definition onSessionInvalidated :: "SecondaryNodeS \<Rightarrow> SecondaryNodeS \<times> sn_out list" where
  "onSessionInvalidated n = reconnectToMaster (disconnectMasterSession n)"

definition onSessionOperational :: "SecondaryNodeS \<Rightarrow> SecondaryNodeS" where
  "onSessionOperational n = n\<lparr>sns_operational := True\<rparr>"

text \<open>What a step of the session does, its signals being handled by the node.\<close>

fun sn_session_outputs :: "ms_out list \<Rightarrow> SecondaryNodeS \<Rightarrow> SecondaryNodeS \<times> sn_out list" where
  "sn_session_outputs [] n = (n, [])"
| "sn_session_outputs (x # xs) n =
     (let (n1, out1) = (case x of
            MS_Emit_invalidated \<Rightarrow> onSessionInvalidated n
          | MS_Emit_operational \<Rightarrow> (onSessionOperational n, [])
          | _ \<Rightarrow> (n, [SN_Session x]));
          (n2, out2) = sn_session_outputs xs n1
      in (n2, out1 @ out2))"

definition sn_session_result ::
    "ms_result \<Rightarrow> SecondaryNodeS \<Rightarrow> (SecondaryNodeS \<times> sn_out list) option" where
  "sn_session_result r n =
     (case r of
        None \<Rightarrow> None
      | Some (storage, s, out) \<Rightarrow>
          Some (sn_session_outputs out (n\<lparr>sns_storage := storage, sns_session := Some s\<rparr>)))"

definition runMasterSession :: "SecondaryNodeS \<Rightarrow> (SecondaryNodeS \<times> sn_out list) option" where
  "runMasterSession n =
     (let n1 = disconnectMasterSession n;
          s = MasterSession_create (sns_friendlyName n1)
      in sn_session_result (MasterSession_run (sns_storage n1) s) (n1\<lparr>sns_session := Some s\<rparr>))"

text \<open>The handler of \<^verbatim>\<open>async_connect\<close>, and that of the reconnection timer.\<close>

definition onConnected :: "bool \<Rightarrow> SecondaryNodeS \<Rightarrow> (SecondaryNodeS \<times> sn_out list) option" where
  "onConnected ec n =
     (if ec then Some (n\<lparr>sns_timers := sns_timers n + 1\<rparr>, [SN_StartTimer]) else runMasterSession n)"

datatype sn_event =
    SN_Connected bool
  | SN_TimerOver
  | SN_SessionEvent ms_event

fun sn_step :: "SecondaryNodeS \<Rightarrow> sn_event \<Rightarrow> (SecondaryNodeS \<times> sn_out list) option" where
  "sn_step n (SN_Connected ec) =
     (if sns_connects n = 0 then Some (n, [])
      else onConnected ec (n\<lparr>sns_connects := sns_connects n - 1\<rparr>))"
| "sn_step n SN_TimerOver =
     (if sns_timers n = 0 then Some (n, [])
      else Some (reconnectToMaster (n\<lparr>sns_timers := sns_timers n - 1\<rparr>)))"
| "sn_step n (SN_SessionEvent ev) =
     (case sns_session n of
        None \<Rightarrow> Some (n, [])
      | Some s \<Rightarrow> sn_session_result (ms_step ev (sns_storage n) s) n)"

section \<open>Runs\<close>

definition sn_run_step :: "SecondaryNodeS option \<Rightarrow> sn_event \<Rightarrow> SecondaryNodeS option" where
  "sn_run_step x ev = (case x of None \<Rightarrow> None | Some n \<Rightarrow> map_option fst (sn_step n ev))"

abbreviation sn_begin :: "string \<Rightarrow> SecondaryNodeS" where
  "sn_begin friendlyName \<equiv> fst (SecondaryNodeS_run (SecondaryNodeS_create friendlyName))"

abbreviation sn_run :: "string \<Rightarrow> sn_event list \<Rightarrow> SecondaryNodeS option" where
  "sn_run friendlyName evs \<equiv> run_steps sn_run_step (Some (sn_begin friendlyName)) evs"

text \<open>The number of messages an event can add to the storage.\<close>

fun event_messages :: "sn_event \<Rightarrow> nat" where
  "event_messages (SN_SessionEvent (MS_Response _ (Got_GetMessages messages))) = length messages"
| "event_messages (SN_SessionEvent (MS_Incoming (Incoming_addMessage _ _ _) _)) = 1"
| "event_messages _ = 0"

subsection \<open>The first gap exists\<close>

lemma getFirstGap_Some:
  assumes "card (dom (ss_messages s)) < 2 ^ 64"
  shows "\<exists>g. SecondaryStorage_getFirstGap s = Some g \<and> ss_messages s g = None \<and>
             (\<forall>i < unat g. ss_messages s (word_of_nat i) \<noteq> None)"
proof -
  have "dom (ss_messages s) \<noteq> UNIV"
  proof
    assume "dom (ss_messages s) = UNIV"
    then have "card (dom (ss_messages s)) = 2 ^ 64" by (simp add: card_word)
    then show False using assms by simp
  qed
  then obtain k where "ss_messages s k = None" by blast
  then obtain xs where xs: "is_chunk (ss_messages s) 0 xs" "length xs < 2 ^ 64"
    using is_chunk_exists by blast
  then have "SecondaryStorage_getFirstGap s = Some (word_of_nat (length xs))"
    using first_gap_loop_chunk by (simp add: SecondaryStorage_getFirstGap_def)
  moreover have "unat (word_of_nat (length xs) :: size_t) = length xs" using xs(2) by (simp add: unat_of_nat)
  ultimately show ?thesis using xs(1) by (auto simp: is_chunk_def)
qed

lemma dom_addMessage: "dom (ss_messages (SecondaryStorage_addMessage i msg s)) = insert i (dom (ss_messages s))"
  by (auto simp: dom_def ss_addMessage_lookup)

lemma card_addMessage:
  "card (dom (ss_messages (SecondaryStorage_addMessage i msg s))) \<le> card (dom (ss_messages s)) + 1"
  using card_insert_le_m1 [of "card (dom (ss_messages s)) + 1" "dom (ss_messages s)" i]
  by (simp add: dom_addMessage card_insert_if)

lemma card_addMessages_loop:
  "card (dom (ss_messages (SecondaryStorage_addMessages_loop b i xs s))) \<le> card (dom (ss_messages s)) + length xs"
proof (induction xs arbitrary: i s)
  case (Cons x xs)
  from Cons.IH [of "i + 1" "SecondaryStorage_addMessage (b + i) x s"] show ?case
    using card_addMessage [of "b + i" x s] by simp
qed simp

lemma card_addMessages:
  "card (dom (ss_messages (SecondaryStorage_addMessages b xs s))) \<le> card (dom (ss_messages s)) + length xs"
  by (simp add: SecondaryStorage_addMessages_def card_addMessages_loop)

lemma ss_addMessages_mono: "ss_messages s \<subseteq>\<^sub>m ss_messages (SecondaryStorage_addMessages b xs s)"
  by (simp add: SecondaryStorage_addMessages_def ss_addMessages_loop_mono)

section \<open>The invariant\<close>

text \<open>
  A session is asking for messages, or waits for the acknowledgement of its name, or is done;
  it never has two requests of its own open. The gap it asked from stays filled below.
\<close>

definition filled_below :: "SecondaryStorage \<Rightarrow> size_t \<Rightarrow> bool" where
  "filled_below storage gap \<longleftrightarrow> (\<forall>i < unat gap. ss_messages storage (word_of_nat i) \<noteq> None)"

definition session_ok :: "SecondaryStorage \<Rightarrow> bool \<Rightarrow> MasterSession \<Rightarrow> bool" where
  "session_ok storage operational s \<longleftrightarrow>
     (\<exists>gap. mss_waiting s = [Cont_Messages gap] \<and> \<not> operational \<and> filled_below storage gap) \<or>
     (mss_waiting s = [Cont_Ready] \<or> mss_waiting s = []) \<and> operational"

definition sn_active :: "SecondaryNodeS \<Rightarrow> nat" where
  "sn_active n = sns_connects n + sns_timers n + (if sns_session n = None then 0 else 1)"

definition sn_ok :: "SecondaryNodeS \<Rightarrow> bool" where
  "sn_ok n \<longleftrightarrow> sn_active n = 1 \<and>
     (case sns_session n of None \<Rightarrow> \<not> sns_operational n
      | Some s \<Rightarrow> session_ok (sns_storage n) (sns_operational n) s)"

lemma filled_below_mono: "filled_below s g \<Longrightarrow> ss_messages s \<subseteq>\<^sub>m ss_messages s' \<Longrightarrow> filled_below s' g"
  unfolding filled_below_def map_le_def by (metis domIff)

subsection \<open>Each handler, with the signals it emits\<close>

text \<open>
  The abstract course of a secondary: the lemmas below say for each handler which phase it
  leads to.
\<close>

datatype phase = Connecting | Waiting | Syncing | Serving

definition phase_of :: "SecondaryNodeS \<Rightarrow> phase" where
  "phase_of n =
     (if sns_operational n then Serving
      else if sns_session n \<noteq> None then Syncing
      else if sns_timers n > 0 then Waiting
      else Connecting)"

text \<open>
  The events of the abstract course: a connection attempt that failed or not, the timer, an
  answer to the query for messages, the loss of the connection.
\<close>

datatype phase_event = Ev_Connected bool | Ev_Timer | Ev_Messages | Ev_Lost | Ev_Other

fun phase_step :: "phase \<Rightarrow> phase_event \<Rightarrow> phase" where
  "phase_step Connecting (Ev_Connected ec) = (if ec then Waiting else Syncing)"
| "phase_step Waiting Ev_Timer = Connecting"
| "phase_step Syncing Ev_Messages = Serving"
| "phase_step Syncing Ev_Lost = Connecting"
| "phase_step Serving Ev_Lost = Connecting"
| "phase_step p _ = p"

fun event_phase :: "sn_event \<Rightarrow> phase_event" where
  "event_phase (SN_Connected ec) = Ev_Connected ec"
| "event_phase SN_TimerOver = Ev_Timer"
| "event_phase (SN_SessionEvent MS_Invalidated) = Ev_Lost"
| "event_phase (SN_SessionEvent (MS_Response 0 (Got_GetMessages _))) = Ev_Messages"
| "event_phase (SN_SessionEvent _) = Ev_Other"

text \<open>What a step owes: it returns, keeps the invariant, follows the abstract course and only adds messages.\<close>

definition sn_step_good :: "SecondaryNodeS \<Rightarrow> sn_event \<Rightarrow> (SecondaryNodeS \<times> sn_out list) option \<Rightarrow> bool" where
  "sn_step_good n ev r \<longleftrightarrow>
     (\<exists>n' out. r = Some (n', out) \<and> sn_ok n' \<and> phase_of n' = phase_step (phase_of n) (event_phase ev) \<and>
        ss_messages (sns_storage n) \<subseteq>\<^sub>m ss_messages (sns_storage n') \<and>
        card (dom (ss_messages (sns_storage n'))) \<le> card (dom (ss_messages (sns_storage n))) + event_messages ev)"

lemma sn_connected_good:
  assumes ok: "sn_ok n" and c: "card (dom (ss_messages (sns_storage n))) < 2 ^ 64" and k: "sns_connects n \<noteq> 0"
  shows "sn_step_good n (SN_Connected ec) (sn_step n (SN_Connected ec))"
proof -
  have n: "sns_session n = None" "sns_timers n = 0" "sns_connects n = 1" "\<not> sns_operational n"
    using ok k by (auto simp: sn_ok_def sn_active_def split: if_splits)
  show ?thesis
  proof (cases ec)
    case True
    then show ?thesis using n
      by (simp add: sn_step_good_def onConnected_def sn_ok_def sn_active_def phase_of_def)
  next
    case False
    from getFirstGap_Some [OF c] obtain g where
      g: "SecondaryStorage_getFirstGap (sns_storage n) = Some g" "filled_below (sns_storage n) g"
      by (auto simp: filled_below_def)
    then show ?thesis using n False
      by (simp add: sn_step_good_def onConnected_def runMasterSession_def MasterSession_run_def askForMessages_def
          MasterSession_create_def disconnectMasterSession_def sn_session_result_def Let_def sn_ok_def
          sn_active_def session_ok_def phase_of_def)
  qed
qed

lemma sn_timer_good:
  assumes "sn_ok n"
  shows "sn_step_good n SN_TimerOver (sn_step n SN_TimerOver)"
  using assms
  by (auto simp: sn_step_good_def reconnectToMaster_def sn_ok_def sn_active_def phase_of_def
      split: if_splits option.splits)

lemma sn_lost_good:
  assumes "sn_ok n" "sns_session n = Some s"
  shows "sn_step_good n (SN_SessionEvent MS_Invalidated) (sn_step n (SN_SessionEvent MS_Invalidated))"
  using assms
  by (auto simp: sn_step_good_def onEndpointInvalidated_def sn_session_result_def onSessionInvalidated_def
      disconnectMasterSession_def reconnectToMaster_def sn_ok_def sn_active_def phase_of_def split: if_splits)

lemma session_ok_storage:
  "session_ok st op s \<Longrightarrow> ss_messages st \<subseteq>\<^sub>m ss_messages st' \<Longrightarrow> session_ok st' op s"
  by (auto simp: session_ok_def intro: filled_below_mono)

lemma sn_incoming_good:
  assumes ok: "sn_ok n" and s: "sns_session n = Some s"
  shows "sn_step_good n (SN_SessionEvent (MS_Incoming request now)) (sn_step n (SN_SessionEvent (MS_Incoming request now)))"
proof (cases request)
  case (Incoming_addMessage i msg p)
  show ?thesis
    using ok s Incoming_addMessage card_addMessage [of i msg "sns_storage n"] ss_addMessage_mono [of "sns_storage n" i msg]
      session_ok_storage [of "sns_storage n" "sns_operational n" s]
    by (simp add: sn_step_good_def onIncomingAddMessage_def sn_session_result_def sn_ok_def sn_active_def phase_of_def)
next
  case (Incoming_ping t p)
  then show ?thesis using ok s
    by (simp add: sn_step_good_def onIncomingPing_def sn_session_result_def sn_ok_def sn_active_def phase_of_def)
qed (use ok s in \<open>simp_all add: sn_step_good_def sn_session_result_def sn_ok_def sn_active_def phase_of_def\<close>)

lemma sn_messages_good:
  assumes ok: "sn_ok n" and s: "sns_session n = Some s" and w: "mss_waiting s = [Cont_Messages gap]"
    and c: "card (dom (ss_messages (sns_storage n))) < 2 ^ 64"
  shows "sn_step_good n (SN_SessionEvent (MS_Response 0 response)) (sn_step n (SN_SessionEvent (MS_Response 0 response)))"
proof (cases "\<exists>xs. response = Got_GetMessages xs")
  case True
  then obtain xs where r: "response = Got_GetMessages xs" by blast
  show ?thesis
    using ok s w r card_addMessages [of gap xs "sns_storage n"] ss_addMessages_mono [of "sns_storage n" gap xs]
    by (simp add: sn_step_good_def onMessages_def notifyOperational_def Let_def sn_session_result_def
        onSessionOperational_def sn_ok_def sn_active_def session_ok_def phase_of_def)
next
  case False
  from getFirstGap_Some [OF c] obtain g where
    g: "SecondaryStorage_getFirstGap (sns_storage n) = Some g" "filled_below (sns_storage n) g"
    by (auto simp: filled_below_def)
  show ?thesis
    using ok s w g False
    by (cases response)
      (simp_all add: sn_step_good_def onMessages_def askForMessages_def sn_session_result_def
        sn_ok_def sn_active_def session_ok_def phase_of_def)
qed

lemma sn_ready_good:
  assumes ok: "sn_ok n" and s: "sns_session n = Some s" and w: "mss_waiting s = [Cont_Ready]"
  shows "sn_step_good n (SN_SessionEvent (MS_Response 0 response)) (sn_step n (SN_SessionEvent (MS_Response 0 response)))"
  using ok s w
  by (cases response)
    (auto simp: sn_step_good_def onReadyAck_def notifyOperational_def Let_def sn_session_result_def sn_ok_def
      sn_active_def session_ok_def phase_of_def)

lemma event_phase_other: "n \<noteq> 0 \<Longrightarrow> event_phase (SN_SessionEvent (MS_Response n r)) = Ev_Other"
  by (cases n; cases r) simp_all

lemma phase_step_other [simp]: "phase_step p Ev_Other = p"
  by (cases p) simp_all

lemma sn_response_good:
  assumes ok: "sn_ok n" and s: "sns_session n = Some s" and c: "card (dom (ss_messages (sns_storage n))) < 2 ^ 64"
  shows "sn_step_good n (SN_SessionEvent (MS_Response k response)) (sn_step n (SN_SessionEvent (MS_Response k response)))"
proof (cases "k < length (mss_waiting s)")
  case True
  have so: "session_ok (sns_storage n) (sns_operational n) s" using ok s by (simp add: sn_ok_def)
  then have "length (mss_waiting s) \<le> 1" by (auto simp: session_ok_def)
  then have k: "k = 0" using True by simp
  from so True consider gap where "mss_waiting s = [Cont_Messages gap]" | "mss_waiting s = [Cont_Ready]"
    by (auto simp: session_ok_def)
  then show ?thesis unfolding k using sn_messages_good [OF ok s _ c] sn_ready_good [OF ok s] by cases auto
next
  case False
  have same: "n\<lparr>sns_session := Some s\<rparr> = n" using s by simp
  have "phase_step (phase_of n) (event_phase (SN_SessionEvent (MS_Response k response))) = phase_of n"
  proof (cases "k = 0")
    case True
    then have "sns_operational n" using False ok s by (auto simp: sn_ok_def session_ok_def)
    then show ?thesis using True by (cases response) (simp_all add: phase_of_def)
  next
    case False
    then show ?thesis by (simp add: event_phase_other)
  qed
  then show ?thesis using ok s False
    by (simp add: sn_step_good_def sn_session_result_def same)
qed

lemma sn_idle_good:
  assumes ok: "sn_ok n" and s: "sns_session n = None"
  shows "sn_step_good n (SN_SessionEvent ev) (sn_step n (SN_SessionEvent ev))"
proof -
  have "phase_of n = Connecting \<or> phase_of n = Waiting"
    using ok s by (auto simp: sn_ok_def phase_of_def)
  moreover have "event_phase (SN_SessionEvent ev) \<in> {Ev_Lost, Ev_Messages, Ev_Other}"
  proof (cases ev)
    case (MS_Response k r)
    then show ?thesis by (cases k; cases r) simp_all
  qed simp_all
  ultimately have "phase_step (phase_of n) (event_phase (SN_SessionEvent ev)) = phase_of n" by auto
  then show ?thesis using ok s by (simp add: sn_step_good_def)
qed

lemma sn_step_ok:
  assumes ok: "sn_ok n" and c: "card (dom (ss_messages (sns_storage n))) < 2 ^ 64"
  shows "sn_step_good n ev (sn_step n ev)"
proof (cases ev)
  case (SN_Connected ec)
  show ?thesis
  proof (cases "sns_connects n = 0")
    case True
    then have "phase_step (phase_of n) (Ev_Connected ec) = phase_of n"
      using ok by (auto simp: phase_of_def sn_ok_def sn_active_def split: if_splits option.splits)
    then show ?thesis using True ok SN_Connected by (simp add: sn_step_good_def)
  next
    case False
    then show ?thesis using sn_connected_good [OF ok c] SN_Connected by simp
  qed
next
  case SN_TimerOver
  then show ?thesis using sn_timer_good [OF ok] by simp
next
  case (SN_SessionEvent sev)
  show ?thesis
  proof (cases "sns_session n")
    case None
    then show ?thesis using sn_idle_good [OF ok None] SN_SessionEvent by simp
  next
    case (Some s)
    then show ?thesis unfolding SN_SessionEvent
      using sn_response_good [OF ok Some c] sn_incoming_good [OF ok Some] sn_lost_good [OF ok Some]
      by (cases sev) blast+
  qed
qed

section \<open>Whole runs\<close>

lemma sn_begin_ok: "sn_ok (sn_begin name)" "phase_of (sn_begin name) = Connecting"
  "sns_storage (sn_begin name) = SecondaryStorage_create"
  by (simp_all add: SecondaryNodeS_run_def reconnectToMaster_def SecondaryNodeS_create_def sn_ok_def
      sn_active_def phase_of_def)

lemma sn_run_from:
  assumes "sn_ok n" and "card (dom (ss_messages (sns_storage n))) + sum_list (map event_messages evs) < 2 ^ 64"
  shows "\<exists>n'. run_steps sn_run_step (Some n) evs = Some n' \<and> sn_ok n' \<and>
     phase_of n' = run_steps phase_step (phase_of n) (map event_phase evs) \<and>
     ss_messages (sns_storage n) \<subseteq>\<^sub>m ss_messages (sns_storage n')"
  using assms
proof (induction evs arbitrary: n)
  case Nil
  then show ?case by simp
next
  case (Cons ev evs)
  have "card (dom (ss_messages (sns_storage n))) < 2 ^ 64" using Cons.prems(2) by simp
  from sn_step_ok [OF Cons.prems(1) this, of ev] obtain n1 out where
    st: "sn_step n ev = Some (n1, out)" "sn_ok n1" "phase_of n1 = phase_step (phase_of n) (event_phase ev)"
      "ss_messages (sns_storage n) \<subseteq>\<^sub>m ss_messages (sns_storage n1)"
      "card (dom (ss_messages (sns_storage n1))) \<le> card (dom (ss_messages (sns_storage n))) + event_messages ev"
    unfolding sn_step_good_def by blast
  have "card (dom (ss_messages (sns_storage n1))) + sum_list (map event_messages evs) < 2 ^ 64"
    using st(5) Cons.prems(2) by simp
  from Cons.IH [OF st(2) this] obtain n' where
    n': "run_steps sn_run_step (Some n1) evs = Some n'" "sn_ok n'"
      "phase_of n' = run_steps phase_step (phase_of n1) (map event_phase evs)"
      "ss_messages (sns_storage n1) \<subseteq>\<^sub>m ss_messages (sns_storage n')" by blast
  have "sn_run_step (Some n) ev = Some n1" using st(1) by (simp add: sn_run_step_def)
  then show ?case using n' st(3) map_le_trans [OF st(4) n'(4)] by simp
qed

lemma sn_run_ok:
  assumes "sum_list (map event_messages evs) < 2 ^ 64"
  shows "\<exists>n. sn_run name evs = Some n \<and> sn_ok n \<and>
     phase_of n = run_steps phase_step Connecting (map event_phase evs)"
  using sn_run_from [OF sn_begin_ok(1), of name evs] assms sn_begin_ok(2)
  by (auto simp: sn_begin_ok(3) SecondaryStorage_create_def)

section \<open>Properties\<close>

text \<open>
C35: A secondary node always works on its connection, and on one thing only: exactly one of a
connection attempt, a reconnection timer and a live session exists at any time; without a
session it is not operational; and no event makes it hang or stop (while fewer than
\<open>2\<^sup>64\<close> messages have arrived).
\<close>

theorem secondary_one_activity:
  assumes "sum_list (map event_messages evs) < 2 ^ 64"
  shows "\<exists>n. sn_run name evs = Some n \<and>
     sns_connects n + sns_timers n + (if sns_session n = None then 0 else 1) = 1 \<and>
     (sns_operational n \<longrightarrow> sns_session n \<noteq> None)"
  using sn_run_ok [OF assms, of name] by (auto simp: sn_ok_def sn_active_def)

theorem secondary_one_activity_witness:
  "\<exists>n. sn_run ''s'' [SN_Connected True, SN_TimerOver, SN_Connected False] = Some n \<and>
     sns_connects n + sns_timers n + (if sns_session n = None then 0 else 1) = 1"
  using secondary_one_activity [of "[SN_Connected True, SN_TimerOver, SN_Connected False]" "''s''"] by auto

text \<open>
C34: The secondary node implements its protocol: mapped to the four phases connecting, waiting,
syncing and serving, every run of the node is the run of the four-state machine over the
corresponding events. In particular the node calls itself operational exactly from the
answer to its query for messages until the connection is lost, whatever requests, failures
and late answers come in between.
\<close>

theorem secondary_refines_phases:
  assumes "sum_list (map event_messages evs) < 2 ^ 64"
  shows "\<exists>n. sn_run name evs = Some n \<and>
     phase_of n = run_steps phase_step Connecting (map event_phase evs) \<and>
     sns_operational n = (run_steps phase_step Connecting (map event_phase evs) = Serving)"
proof -
  from sn_run_ok [OF assms, of name] obtain n where
    n: "sn_run name evs = Some n" "phase_of n = run_steps phase_step Connecting (map event_phase evs)" by blast
  have "sns_operational n = (phase_of n = Serving)" by (simp add: phase_of_def)
  then show ?thesis using n by auto
qed

theorem secondary_refines_phases_witness:
  "\<exists>n. sn_run ''s'' [SN_Connected False, SN_SessionEvent (MS_Response 0 (Got_GetMessages [''m'']))] = Some n \<and>
     sns_operational n"
  using secondary_refines_phases
    [of "[SN_Connected False, SN_SessionEvent (MS_Response 0 (Got_GetMessages [''m'']))]" "''s''"]
  by auto

end
