(* ===== verification/HttpSessions.thy ===== *)
theory HttpSessions
  imports MasterNodes SecondaryNodes
begin

text \<open>
  libs/net-utils/httpsession and the two \<^verbatim>\<open>processRequest\<close> functions of
  app/master-node/httpsession and app/secondary-node/httpsession: the HTTP interface.

  A session serves one request. \<open>hs_written\<close> are the responses handed to \<^verbatim>\<open>async_write\<close>, and
  \<open>hs_waiting\<close> the futures whose continuation has not run. Reading the request, writing the
  response and the JSON text are beast's and boost.json's: a request is what the parser of
  beast made of it, and \<open>json_parse\<close>, \<open>json_serialize\<close> and the messages of the exceptions are
  parameters.
\<close>

section \<open>JSON values\<close>

datatype json =
    J_Null
  | J_Bool bool
  | J_Int64 "64 word"
  | J_UInt64 "64 word"
  | J_Double
  | J_String string
  | J_Array "json list"
  | J_Object "(string \<times> json) list"

text \<open>The exceptions of the accessors; all are derived from \<^verbatim>\<open>std::exception\<close>.\<close>

datatype json_error = JE_NotObject | JE_OutOfRange | JE_NotInt64 | JE_NotString

record json_lib =
  jl_parse :: "string \<Rightarrow> string + json"
  jl_serialize :: "json \<Rightarrow> string"
  jl_what :: "json_error \<Rightarrow> string"

section \<open>Requests, responses, sessions\<close>

datatype verb = Verb_get | Verb_post | Verb_other

record HttpRequest =
  rq_method :: verb
  rq_target :: string
  rq_version :: nat
  rq_body :: string

datatype http_status = Status_ok | Status_bad_request

record HttpResponse =
  hr_result :: http_status
  hr_version :: nat
  hr_keep_alive :: bool
  hr_server :: "string option"
  hr_content_type :: "string option"
  hr_content_length :: "nat option"
  hr_body :: string

definition HttpResponse_init :: HttpResponse where
  "HttpResponse_init =
     \<lparr>hr_result = Status_ok, hr_version = 11, hr_keep_alive = True, hr_server = None,
      hr_content_type = None, hr_content_length = None, hr_body = ''''\<rparr>"

datatype http_wait =
    Wait_Ping "SecondarySnapshot list" timestamp
  | Wait_AddMessage client_future

datatype deadline = NoDeadline | Idle | Armed

record HttpSession =
  hs_timeoutMs :: "size_t option"
  hs_timer :: deadline
  hs_socketOpen :: bool
  hs_reading :: bool
  hs_response :: HttpResponse
  hs_waiting :: "http_wait list"
  hs_written :: "HttpResponse list"

definition HttpSession_create :: "size_t option \<Rightarrow> HttpSession" where
  "HttpSession_create timeoutMs =
     \<lparr>hs_timeoutMs = map_option (max 1) timeoutMs,
      hs_timer = (if timeoutMs = None then NoDeadline else Idle),
      hs_socketOpen = True, hs_reading = False, hs_response = HttpResponse_init,
      hs_waiting = [], hs_written = []\<rparr>"

definition setDeadline :: "HttpSession \<Rightarrow> HttpSession" where
  "setDeadline s = (if hs_timer s = NoDeadline then s else s\<lparr>hs_timer := Armed\<rparr>)"

definition onDeadline :: "bool \<Rightarrow> HttpSession \<Rightarrow> HttpSession" where
  "onDeadline ec s = (if ec then s else s\<lparr>hs_timer := Idle, hs_socketOpen := False\<rparr>)"

definition cancelTimer :: "HttpSession \<Rightarrow> HttpSession" where
  "cancelTimer s = (if hs_timer s = NoDeadline then s else s\<lparr>hs_timer := Idle\<rparr>)"

definition readRequest :: "HttpSession \<Rightarrow> HttpSession" where
  "readRequest s = s\<lparr>hs_reading := True\<rparr>"

definition HttpSession_run :: "HttpSession \<Rightarrow> HttpSession" where
  "HttpSession_run s = readRequest (setDeadline s)"

definition writeResponse :: "HttpSession \<Rightarrow> HttpSession" where
  "writeResponse s = s\<lparr>hs_written := hs_written s @ [hs_response s]\<rparr>"

definition onResponseWritten :: "HttpSession \<Rightarrow> HttpSession" where
  "onResponseWritten s = cancelTimer s"

definition set_response :: "(HttpResponse \<Rightarrow> HttpResponse) \<Rightarrow> HttpSession \<Rightarrow> HttpSession" where
  "set_response f s = s\<lparr>hs_response := f (hs_response s)\<rparr>"

definition set_content_length :: "HttpSession \<Rightarrow> HttpSession" where
  "set_content_length = set_response (\<lambda>r. r\<lparr>hr_content_length := Some (length (hr_body r))\<rparr>)"

definition fallback :: "string \<Rightarrow> HttpSession \<Rightarrow> HttpSession" where
  "fallback reason s =
     writeResponse (set_content_length
       (set_response (\<lambda>r. r\<lparr>hr_result := Status_bad_request, hr_content_type := Some ''text/plain'',
                            hr_body := reason\<rparr>) s))"

text \<open>The lines every \<^verbatim>\<open>processRequest\<close> starts with, and the headers of a JSON answer.\<close>

definition start_response :: "HttpRequest \<Rightarrow> HttpSession \<Rightarrow> HttpSession" where
  "start_response request = set_response (\<lambda>r. r\<lparr>hr_version := rq_version request, hr_keep_alive := False\<rparr>)"

definition json_headers :: "HttpSession \<Rightarrow> HttpSession" where
  "json_headers = set_response (\<lambda>r. r\<lparr>hr_result := Status_ok, hr_server := Some ''Beast'',
                                      hr_content_type := Some ''application/json''\<rparr>)"

definition write_body :: "string \<Rightarrow> HttpSession \<Rightarrow> HttpSession" where
  "write_body body s = writeResponse (set_content_length (set_response (\<lambda>r. r\<lparr>hr_body := body\<rparr>) s))"

text \<open>The loop that turns the messages into the array of the answer.\<close>

definition message_json :: "nat \<Rightarrow> string \<Rightarrow> json" where
  "message_json i message = J_Object [(''id'', J_UInt64 (word_of_nat i)), (''message'', J_String message)]"

definition messages_json :: "string list \<Rightarrow> json" where
  "messages_json messages = J_Array (map (\<lambda>i. message_json i (messages ! i)) [0..<length messages])"

section \<open>The master's processRequest\<close>

definition ping_json :: "PingResult \<Rightarrow> json" where
  "ping_json entry =
     J_Object
       ([(''secondaryId'', J_UInt64 (pr_secondaryId entry))] @
        (case pr_secondaryFriendlyName entry of None \<Rightarrow> [] | Some name \<Rightarrow> [(''friendlyName'', J_String name)]) @
        [(''state'', J_String (show_SecondaryState (SecondaryState_val (pr_secondaryState entry)))),
         (''pingTimestamp'', J_UInt64 (pr_pingTimestamp entry))] @
        (case pr_pongTimestamp entry of None \<Rightarrow> [] | Some t \<Rightarrow> [(''pongTimestamp'', J_UInt64 t)]) @
        (case pr_exceptionString entry of None \<Rightarrow> [] | Some e \<Rightarrow> [(''exceptionString'', J_String e)]))"

text \<open>The \<^verbatim>\<open>try\<close> block of a new message; \<^const>\<open>Inl\<close> is \<^verbatim>\<open>e.what()\<close>.\<close>

definition parseNewMessage :: "json_lib \<Rightarrow> string \<Rightarrow> string + string \<times> size_t" where
  "parseNewMessage lib body =
     (case jl_parse lib body of
        Inl e \<Rightarrow> Inl e
      | Inr (J_Object objBody) \<Rightarrow>
          (case map_of objBody ''writeConcern'' of
             None \<Rightarrow> Inl (jl_what lib JE_OutOfRange)
           | Some (J_Int64 jsonWriteConcern) \<Rightarrow>
               (case map_of objBody ''message'' of
                  None \<Rightarrow> Inl (jl_what lib JE_OutOfRange)
                | Some (J_String jsonMessage) \<Rightarrow>
                    if sint jsonWriteConcern < 0 then Inl ''Write concern cannot be negative''
                    else Inr (jsonMessage, jsonWriteConcern)
                | Some _ \<Rightarrow> Inl (jl_what lib JE_NotString))
           | Some _ \<Rightarrow> Inl (jl_what lib JE_NotInt64))
      | Inr _ \<Rightarrow> Inl (jl_what lib JE_NotObject))"

datatype http_out = HO_Master mn_out | HO_Ping nat timestamp

type_synonym master_http_result =
  "(cpp_exception + HttpSession \<times> MasterNode option \<times> http_out list) option"

definition master_get_messages :: "json_lib \<Rightarrow> MasterNode option \<Rightarrow> HttpSession \<Rightarrow> master_http_result" where
  "master_get_messages lib weakNode s =
     (let s1 = json_headers s
      in case weakNode of
           None \<Rightarrow> Some (Inr (fallback ''node is dead (should not happen)'' s1, weakNode, []))
         | Some node \<Rightarrow>
             (case MasterStorage_getContiguousChunk (mn_storage node) 0 of
                None \<Rightarrow> None
              | Some messages \<Rightarrow>
                  Some (Inr (write_body (jl_serialize lib (messages_json messages)) s1, weakNode, []))))"

definition master_ping_secondaries ::
    "timestamp \<Rightarrow> MasterNode option \<Rightarrow> HttpSession \<Rightarrow> master_http_result" where
  "master_ping_secondaries now weakNode s =
     (let s1 = json_headers s
      in case weakNode of
           None \<Rightarrow> Some (Inr (fallback ''node is dead (should not happen)'' s1, weakNode, []))
         | Some node \<Rightarrow>
             Some (Inr (s1\<lparr>hs_waiting := hs_waiting s1 @ [Wait_Ping (secondariesSnapshot node) now]\<rparr>, weakNode,
                        (case pingSecondaries now node of
                           Inl _ \<Rightarrow> [] | Inr pings \<Rightarrow> map (\<lambda>(k, t). HO_Ping k t) pings))))"

definition master_new_message ::
    "json_lib \<Rightarrow> string \<Rightarrow> MasterNode option \<Rightarrow> HttpSession \<Rightarrow> master_http_result" where
  "master_new_message lib body weakNode s =
     (case parseNewMessage lib body of
        Inl e \<Rightarrow> Some (Inr (fallback (''Internal error occured: '' @ e) s, weakNode, []))
      | Inr (message, writeConcern) \<Rightarrow>
          (case weakNode of
             None \<Rightarrow> Some (Inr (fallback ''node is dead (should not happen)'' s, weakNode, []))
           | Some node \<Rightarrow>
               (case mn_addMessage message writeConcern node of
                  Inl e \<Rightarrow> Some (Inl e)
                | Inr (future, node', out) \<Rightarrow>
                    Some (Inr (s\<lparr>hs_waiting := hs_waiting s @ [Wait_AddMessage future]\<rparr>, Some node',
                               map HO_Master out)))))"

definition master_processRequest ::
    "json_lib \<Rightarrow> timestamp \<Rightarrow> HttpRequest \<Rightarrow> MasterNode option \<Rightarrow> HttpSession \<Rightarrow> master_http_result" where
  "master_processRequest lib now request weakNode s =
     (let s1 = start_response request s
      in if rq_method request = Verb_get \<and> rq_target request = ''/messages'' then
           master_get_messages lib weakNode s1
         else if rq_method request = Verb_get \<and> rq_target request = ''/pingSecondaries'' then
           master_ping_secondaries now weakNode s1
         else if rq_method request = Verb_post \<and> rq_target request = ''/newMessage'' then
           master_new_message lib (rq_body request) weakNode s1
         else Some (Inr (fallback ''invalid request'' s1, weakNode, [])))"

text \<open>The continuations, when their future holds a value or an exception.\<close>

definition onPingResults :: "json_lib \<Rightarrow> PingResult list option \<Rightarrow> HttpSession \<Rightarrow> HttpSession" where
  "onPingResults lib resultFuture s =
     (case resultFuture of
        None \<Rightarrow> fallback ''error occured for request'' s
      | Some result \<Rightarrow> write_body (jl_serialize lib (J_Array (map ping_json result))) s)"

definition onMessageAdded :: "bool \<Rightarrow> HttpSession \<Rightarrow> HttpSession" where
  "onMessageAdded has_value s =
     (if \<not> has_value then fallback ''error occured for request'' s else write_body ''ok'' s)"

text \<open>What the future of \<^verbatim>\<open>addMessage\<close> holds: nothing yet, a value, an exception.\<close>

definition future_state :: "client_future \<Rightarrow> MasterNode \<Rightarrow> bool option" where
  "future_state f m =
     (case f of
        ReadyFuture \<Rightarrow> Some True
      | RequestFuture q \<Rightarrow>
          (case ar_promise (run_request (mn_requests m ! q)) of
             VP_Unset \<Rightarrow> None | VP_Value \<Rightarrow> Some True | VP_Exception _ \<Rightarrow> Some False))"

section \<open>The secondary's processRequest\<close>

definition secondary_processRequest ::
    "json_lib \<Rightarrow> HttpRequest \<Rightarrow> SecondaryNodeS option \<Rightarrow> HttpSession \<Rightarrow> HttpSession option" where
  "secondary_processRequest lib request weakNode s =
     (let s1 = start_response request s
      in if rq_method request = Verb_get \<and> rq_target request = ''/messages'' then
           (let s2 = json_headers s1
            in case weakNode of
                 None \<Rightarrow> Some (fallback ''node is dead (should not happen)'' s2)
               | Some node \<Rightarrow>
                   if \<not> sns_operational node then Some (fallback ''node is not operational'' s2)
                   else
                     (case SecondaryStorage_getContiguousChunk (sns_storage node) 0 of
                        None \<Rightarrow> None
                      | Some messages \<Rightarrow>
                          Some (write_body (jl_serialize lib (messages_json messages)) s2)))
         else Some (fallback ''invalid request'' s1))"

section \<open>A session's events\<close>

text \<open>
  \<open>'n\<close> is what the handlers see of the program when they run. Reading ends with a request or an
  error; a continuation runs when its future is ready, so \<^const>\<open>None\<close> from \<open>continue\<close> means that
  the event cannot happen yet.
\<close>

datatype 'n http_event =
    He_Read 'n "HttpRequest option"
  | He_Continue 'n nat
  | He_Written
  | He_Deadline bool

definition http_step ::
    "('n \<Rightarrow> HttpRequest \<Rightarrow> HttpSession \<Rightarrow> HttpSession option) \<Rightarrow>
     ('n \<Rightarrow> http_wait \<Rightarrow> HttpSession \<Rightarrow> HttpSession option) \<Rightarrow>
     HttpSession \<Rightarrow> 'n http_event \<Rightarrow> HttpSession option" where
  "http_step process continue s ev =
     (case ev of
        He_Read n request \<Rightarrow>
          if \<not> hs_reading s then Some s
          else (case request of
                  None \<Rightarrow> Some (cancelTimer (s\<lparr>hs_reading := False\<rparr>))
                | Some q \<Rightarrow> process n q (s\<lparr>hs_reading := False\<rparr>))
      | He_Continue n k \<Rightarrow>
          if length (hs_waiting s) \<le> k then Some s
          else (case continue n (hs_waiting s ! k)
                       (s\<lparr>hs_waiting := take k (hs_waiting s) @ drop (Suc k) (hs_waiting s)\<rparr>) of
                  None \<Rightarrow> Some s
                | Some s' \<Rightarrow> Some s')
      | He_Written \<Rightarrow> Some (if hs_written s = [] then s else onResponseWritten s)
      | He_Deadline ec \<Rightarrow> Some (if hs_timer s = Armed then onDeadline ec s else s))"

definition http_run_step ::
    "('n \<Rightarrow> HttpRequest \<Rightarrow> HttpSession \<Rightarrow> HttpSession option) \<Rightarrow>
     ('n \<Rightarrow> http_wait \<Rightarrow> HttpSession \<Rightarrow> HttpSession option) \<Rightarrow>
     HttpSession option \<Rightarrow> 'n http_event \<Rightarrow> HttpSession option" where
  "http_run_step process continue x ev = (case x of None \<Rightarrow> None | Some s \<Rightarrow> http_step process continue s ev)"

text \<open>A well-formed response says how long its body is and that the connection ends.\<close>

definition complete :: "HttpResponse \<Rightarrow> bool" where
  "complete r \<longleftrightarrow> hr_content_length r = Some (length (hr_body r)) \<and> \<not> hr_keep_alive r"

definition answered_by :: "HttpSession \<Rightarrow> HttpSession \<Rightarrow> bool" where
  "answered_by s s' \<longleftrightarrow> hs_reading s' = hs_reading s \<and>
     (\<exists>r. hs_written s' = hs_written s @ [r] \<and> complete r) \<and> hs_waiting s' = hs_waiting s"

definition postponed_by :: "HttpSession \<Rightarrow> HttpSession \<Rightarrow> bool" where
  "postponed_by s s' \<longleftrightarrow> hs_reading s' = hs_reading s \<and> hs_written s' = hs_written s \<and>
     (\<exists>w. hs_waiting s' = hs_waiting s @ [w]) \<and> \<not> hr_keep_alive (hs_response s')"

fun event_world :: "'n http_event \<Rightarrow> 'n option" where
  "event_world (He_Read n _) = Some n"
| "event_world (He_Continue n _) = Some n"
| "event_world _ = None"

locale http_server =
  fixes process :: "'n \<Rightarrow> HttpRequest \<Rightarrow> HttpSession \<Rightarrow> HttpSession option"
    and continue :: "'n \<Rightarrow> http_wait \<Rightarrow> HttpSession \<Rightarrow> HttpSession option"
    and world_ok :: "'n \<Rightarrow> bool"
  assumes process_answers: "world_ok n \<Longrightarrow>
      \<exists>s'. process n q s = Some s' \<and> (answered_by s s' \<or> postponed_by s s')"
    and continue_answers: "continue n w s = Some s' \<Longrightarrow> \<not> hr_keep_alive (hs_response s) \<Longrightarrow> answered_by s s'"
begin

text \<open>One thing is under way or the response has been written.\<close>

definition session_inv :: "HttpSession \<Rightarrow> bool" where
  "session_inv s \<longleftrightarrow>
     length (hs_written s) + length (hs_waiting s) + (if hs_reading s then 1 else 0) \<le> 1 \<and>
     (\<forall>r \<in> set (hs_written s). complete r) \<and> (hs_waiting s \<noteq> [] \<longrightarrow> \<not> hr_keep_alive (hs_response s))"

definition under_way :: "HttpSession \<Rightarrow> nat" where
  "under_way s = length (hs_written s) + length (hs_waiting s) + (if hs_reading s then 1 else 0)"

lemma step_inv:
  assumes inv: "session_inv s" and ok: "\<forall>n. event_world ev = Some n \<longrightarrow> world_ok n"
  shows "\<exists>s'. http_step process continue s ev = Some s' \<and> session_inv s' \<and>
     (under_way s' = under_way s \<or> (\<exists>n. ev = He_Read n None))"
proof (cases ev)
  case (He_Read n request)
  show ?thesis
  proof (cases "hs_reading s")
    case False
    then show ?thesis using inv He_Read by (simp add: http_step_def)
  next
    case True
    then have e: "hs_written s = []" "hs_waiting s = []" using inv by (auto simp: session_inv_def)
    show ?thesis
    proof (cases request)
      case None
      then show ?thesis using e True He_Read
        by (auto simp: http_step_def session_inv_def cancelTimer_def)
    next
      case (Some q)
      have "world_ok n" using ok He_Read by simp
      from process_answers [OF this, of q "s\<lparr>hs_reading := False\<rparr>"] obtain s' where
        s': "process n q (s\<lparr>hs_reading := False\<rparr>) = Some s'"
          "answered_by (s\<lparr>hs_reading := False\<rparr>) s' \<or> postponed_by (s\<lparr>hs_reading := False\<rparr>) s'" by blast
      then show ?thesis using e True He_Read Some
        by (auto simp: http_step_def session_inv_def under_way_def answered_by_def postponed_by_def)
    qed
  qed
next
  case (He_Continue n k)
  show ?thesis
  proof (cases "k < length (hs_waiting s)")
    case False
    then show ?thesis using inv He_Continue by (simp add: http_step_def)
  next
    case True
    then have "hs_waiting s \<noteq> []" by auto
    then have ka: "\<not> hr_keep_alive (hs_response s)" using inv by (simp add: session_inv_def)
    have le: "length (hs_written s) + length (hs_waiting s) + (if hs_reading s then 1 else 0) \<le> 1"
      using inv by (simp add: session_inv_def)
    have "length (hs_written s) = 0" "length (hs_waiting s) = 1" "k = 0" using le True by linarith+
    moreover have "\<not> hs_reading s" using le True by (cases "hs_reading s") simp_all
    ultimately have e: "hs_written s = []" "\<not> hs_reading s" "length (hs_waiting s) = 1" "k = 0"
      "\<not> hr_keep_alive (hs_response s)" using ka by simp_all
    let ?s = "s\<lparr>hs_waiting := []\<rparr>"
    have w: "take k (hs_waiting s) @ drop (Suc k) (hs_waiting s) = []" using e by simp
    have st: "http_step process continue s ev =
        (case continue n (hs_waiting s ! k) ?s of None \<Rightarrow> Some s | Some s' \<Rightarrow> Some s')"
      unfolding He_Continue http_step_def http_event.case w using True by simp
    show ?thesis
    proof (cases "continue n (hs_waiting s ! k) ?s")
      case None
      then show ?thesis using inv st by simp
    next
      case (Some s')
      then have "answered_by ?s s'" using continue_answers e(5) by fastforce
      then show ?thesis using e Some st
        by (auto simp: session_inv_def under_way_def answered_by_def)
    qed
  qed
next
  case He_Written
  have "session_inv (onResponseWritten s) = session_inv s" "under_way (onResponseWritten s) = under_way s"
    by (simp_all add: session_inv_def under_way_def onResponseWritten_def cancelTimer_def)
  then show ?thesis using inv He_Written by (simp add: http_step_def)
next
  case (He_Deadline ec)
  have "session_inv (onDeadline ec s) = session_inv s" "under_way (onDeadline ec s) = under_way s"
    by (simp_all add: session_inv_def under_way_def onDeadline_def)
  then show ?thesis using inv He_Deadline by (simp add: http_step_def)
qed

lemma run_inv:
  assumes "session_inv s" "\<forall>ev \<in> set evs. \<forall>n. event_world ev = Some n \<longrightarrow> world_ok n"
  shows "\<exists>s'. run_steps (http_run_step process continue) (Some s) evs = Some s' \<and> session_inv s' \<and>
     ((\<forall>n. He_Read n None \<notin> set evs) \<longrightarrow> under_way s' = under_way s)"
  using assms
proof (induction evs arbitrary: s)
  case (Cons ev evs)
  from step_inv [OF Cons.prems(1), of ev] Cons.prems(2) obtain s1 where
    s1: "http_step process continue s ev = Some s1" "session_inv s1"
      "under_way s1 = under_way s \<or> (\<exists>n. ev = He_Read n None)" by auto
  from Cons.IH [OF s1(2)] Cons.prems(2) obtain s' where
    s': "run_steps (http_run_step process continue) (Some s1) evs = Some s'" "session_inv s'"
      "(\<forall>n. He_Read n None \<notin> set evs) \<longrightarrow> under_way s' = under_way s1" by auto
  have "http_run_step process continue (Some s) ev = Some s1" using s1(1) by (simp add: http_run_step_def)
  then show ?case using s' s1(3) by auto
qed simp

text \<open>One answer, or the question is still being read or thought about; no answer to a broken read.\<close>

lemma one_answer:
  assumes "\<forall>ev \<in> set evs. \<forall>n. event_world ev = Some n \<longrightarrow> world_ok n"
  shows "\<exists>s. run_steps (http_run_step process continue) (Some (HttpSession_run (HttpSession_create t))) evs = Some s \<and>
     length (hs_written s) + length (hs_waiting s) + (if hs_reading s then 1 else 0) \<le> 1 \<and>
     (\<forall>r \<in> set (hs_written s). complete r) \<and>
     ((\<forall>n. He_Read n None \<notin> set evs) \<longrightarrow> \<not> hs_reading s \<longrightarrow> hs_waiting s = [] \<longrightarrow> length (hs_written s) = 1)"
proof -
  let ?s0 = "HttpSession_run (HttpSession_create t)"
  have "session_inv ?s0" "under_way ?s0 = 1"
    by (simp_all add: session_inv_def under_way_def HttpSession_run_def readRequest_def setDeadline_def
        HttpSession_create_def)
  from run_inv [OF this(1) assms] this(2) show ?thesis
    by (auto simp: session_inv_def under_way_def)
qed

end

section \<open>The two servers\<close>

lemma set_response_fields [simp]:
  "hs_reading (set_response f s) = hs_reading s" "hs_written (set_response f s) = hs_written s"
  "hs_waiting (set_response f s) = hs_waiting s" "hs_response (set_response f s) = f (hs_response s)"
  by (simp_all add: set_response_def)

lemma fallback_answers:
  "\<not> hr_keep_alive (hs_response s) \<Longrightarrow> answered_by s (fallback e s)"
  by (simp add: answered_by_def fallback_def writeResponse_def set_content_length_def complete_def)

lemma write_body_answers:
  "\<not> hr_keep_alive (hs_response s) \<Longrightarrow> answered_by s (write_body b s)"
  by (simp add: answered_by_def write_body_def writeResponse_def set_content_length_def complete_def)

lemma start_response_keep [simp]:
  "\<not> hr_keep_alive (hs_response (start_response q s))"
  "\<not> hr_keep_alive (hs_response (json_headers (start_response q s)))"
  "answered_by (start_response q s) s' = answered_by s s'"
  "answered_by (json_headers (start_response q s)) s' = answered_by s s'"
  by (simp_all add: start_response_def json_headers_def answered_by_def)

text \<open>What the master's handlers see: the node, the time, the answers to the pings of this session.\<close>

record master_world =
  mw_node :: "MasterNode option"
  mw_now :: timestamp
  mw_pongs :: "(timestamp + ResponseException) list"

definition master_process ::
    "json_lib \<Rightarrow> master_world \<Rightarrow> HttpRequest \<Rightarrow> HttpSession \<Rightarrow> HttpSession option" where
  "master_process lib n q s =
     (case master_processRequest lib (mw_now n) q (mw_node n) s of
        Some (Inr (s', _, _)) \<Rightarrow> Some s'
      | _ \<Rightarrow> None)"

definition master_continue ::
    "json_lib \<Rightarrow> (ResponseException \<Rightarrow> string) \<Rightarrow> master_world \<Rightarrow> http_wait \<Rightarrow> HttpSession \<Rightarrow> HttpSession option" where
  "master_continue lib diagnostic n w s =
     (case w of
        Wait_Ping snapshot t \<Rightarrow>
          if length (mw_pongs n) = length snapshot
          then Some (onPingResults lib (Some (pingResults diagnostic t snapshot (mw_pongs n))) s) else None
      | Wait_AddMessage f \<Rightarrow>
          (case mw_node n of
             None \<Rightarrow> None
           | Some m \<Rightarrow> map_option (\<lambda>b. onMessageAdded b s) (future_state f m)))"

definition master_world_ok :: "master_world \<Rightarrow> bool" where
  "master_world_ok n \<longleftrightarrow> (\<forall>m. mw_node n = Some m \<longrightarrow>
     mn_ok m \<and> length (mn_endpoints m) < 2 ^ 31 \<and> Suc (length (mn_requests m)) < 2 ^ 64)"

lemma master_get_answers:
  assumes "\<forall>m. node = Some m \<longrightarrow> store_ok m \<and> length (mn_requests m) < 2 ^ 64"
  shows "\<exists>s'. master_get_messages lib node (start_response q s) = Some (Inr (s', node, [])) \<and> answered_by s s'"
proof (cases node)
  case None
  then show ?thesis
    using fallback_answers [OF start_response_keep(2), of q s]
    by (simp add: master_get_messages_def Let_def)
next
  case (Some m)
  then have "MasterStorage_getContiguousChunk (mn_storage m) 0 = Some (mn_messages m)"
    using store_ok_chunk assms by blast
  then show ?thesis
    using Some write_body_answers [OF start_response_keep(2), of q s]
    by (simp add: master_get_messages_def Let_def)
qed

lemma master_new_answers:
  assumes "\<forall>m. node = Some m \<longrightarrow> mn_ok m \<and> length (mn_endpoints m) < 2 ^ 31 \<and> Suc (length (mn_requests m)) < 2 ^ 64"
  shows "\<exists>s' node' out. master_new_message lib body node (start_response q s) = Some (Inr (s', node', out)) \<and>
     (answered_by s s' \<or> postponed_by s s')"
proof (cases "parseNewMessage lib body")
  case (Inl e)
  then show ?thesis
    using fallback_answers [OF start_response_keep(1), of q s] by (auto simp: master_new_message_def)
next
  case (Inr mw)
  obtain msg w where mw: "mw = (msg, w)" by (cases mw)
  show ?thesis
  proof (cases node)
    case None
    then show ?thesis
      using Inr mw fallback_answers [OF start_response_keep(1), of q s] by (auto simp: master_new_message_def)
  next
    case (Some m)
    from mn_addMessage_ok [of m msg w] assms Some obtain m' out where
      "mn_addMessage msg w m = Inr (if w \<le> 1 then ReadyFuture else RequestFuture (length (mn_requests m)), m', out)"
      by blast
    then show ?thesis using Inr mw Some
      by (simp add: master_new_message_def postponed_by_def start_response_def)
  qed
qed

lemma master_process_answers:
  assumes "master_world_ok n"
  shows "\<exists>s'. master_process lib n q s = Some s' \<and> (answered_by s s' \<or> postponed_by s s')"
proof -
  have w: "\<forall>m. mw_node n = Some m \<longrightarrow> mn_ok m \<and> length (mn_endpoints m) < 2 ^ 31 \<and> Suc (length (mn_requests m)) < 2 ^ 64"
    using assms by (simp add: master_world_ok_def)
  then have st: "\<forall>m. mw_node n = Some m \<longrightarrow> store_ok m \<and> length (mn_requests m) < 2 ^ 64"
    by (auto simp: mn_ok_def)
  consider "rq_method q = Verb_get \<and> rq_target q = ''/messages''"
    | "rq_method q = Verb_get \<and> rq_target q = ''/pingSecondaries''"
    | "rq_method q = Verb_post \<and> rq_target q = ''/newMessage''"
    | "\<not> (rq_method q = Verb_get \<and> rq_target q = ''/messages'')"
      "\<not> (rq_method q = Verb_get \<and> rq_target q = ''/pingSecondaries'')"
      "\<not> (rq_method q = Verb_post \<and> rq_target q = ''/newMessage'')" by blast
  then show ?thesis
  proof cases
    case 1
    then show ?thesis using master_get_answers [OF st, of lib q s]
      by (auto simp: master_process_def master_processRequest_def Let_def)
  next
    case 2
    show ?thesis
    proof (cases "mw_node n")
      case None
      then show ?thesis
        using 2 fallback_answers [OF start_response_keep(2), of q s]
        by (simp add: master_process_def master_processRequest_def Let_def master_ping_secondaries_def)
    next
      case (Some m)
      then show ?thesis using 2
        by (simp add: master_process_def master_processRequest_def Let_def master_ping_secondaries_def
            postponed_by_def start_response_def json_headers_def)
    qed
  next
    case 3
    then show ?thesis using master_new_answers [OF w, of lib "rq_body q" q s]
      by (auto simp: master_process_def master_processRequest_def Let_def)
  next
    case 4
    have "master_processRequest lib (mw_now n) q (mw_node n) s =
        Some (Inr (fallback ''invalid request'' (start_response q s), mw_node n, []))"
      unfolding master_processRequest_def Let_def using 4 by (simp only: if_False simp_thms)
    then show ?thesis
      using fallback_answers [OF start_response_keep(1), of q s] by (simp add: master_process_def)
  qed
qed

lemma master_continue_answers:
  "master_continue lib diagnostic n w s = Some s' \<Longrightarrow> \<not> hr_keep_alive (hs_response s) \<Longrightarrow> answered_by s s'"
  by (auto simp: master_continue_def onPingResults_def onMessageAdded_def fallback_answers write_body_answers
      split: http_wait.splits option.splits if_splits)

interpretation master_http: http_server "master_process lib" "master_continue lib diagnostic" master_world_ok
  for lib diagnostic
  by unfold_locales (rule master_process_answers master_continue_answers; assumption)+

text \<open>The secondary answers at once; it has no continuations.\<close>

definition secondary_world_ok :: "SecondaryNodeS option \<Rightarrow> bool" where
  "secondary_world_ok n \<longleftrightarrow> (\<forall>node. n = Some node \<longrightarrow> card (dom (ss_messages (sns_storage node))) < 2 ^ 64)"

lemma secondary_chunk:
  assumes "card (dom (ss_messages st)) < 2 ^ 64"
  shows "\<exists>xs. SecondaryStorage_getContiguousChunk st 0 = Some xs"
proof -
  obtain g where "ss_messages st g = None" using getFirstGap_Some [OF assms] by blast
  then show ?thesis by (rule secondary_store.chunk_returns)
qed

lemma secondary_process_answers:
  assumes "secondary_world_ok n"
  shows "\<exists>s'. secondary_processRequest lib q n s = Some s' \<and> (answered_by s s' \<or> postponed_by s s')"
proof (cases "rq_method q = Verb_get \<and> rq_target q = ''/messages''")
  case True
  note fb = fallback_answers [OF start_response_keep(2), of q s]
  show ?thesis
  proof (cases n)
    case None
    then show ?thesis using True fb by (simp add: secondary_processRequest_def Let_def)
  next
    case (Some node)
    then obtain xs where "SecondaryStorage_getContiguousChunk (sns_storage node) 0 = Some xs"
      using secondary_chunk assms by (auto simp: secondary_world_ok_def)
    then show ?thesis
      using True Some fb write_body_answers [OF start_response_keep(2), of q s]
      by (simp add: secondary_processRequest_def Let_def)
  qed
next
  case False
  have "secondary_processRequest lib q n s = Some (fallback ''invalid request'' (start_response q s))"
    unfolding secondary_processRequest_def Let_def using False by (simp only: if_False)
  then show ?thesis using fallback_answers [OF start_response_keep(1), of q s] by simp
qed

interpretation secondary_http: http_server "\<lambda>n q. secondary_processRequest lib q n" "\<lambda>_ _ _. None" secondary_world_ok
  for lib
  by unfold_locales (use secondary_process_answers in simp_all)

lemma sint_nonneg:
  assumes "0 \<le> sint (w :: 64 word)" shows "int (unat w) = sint w"
proof -
  have s: "sint w = signed_take_bit 63 (uint w)" by (simp add: sint_uint)
  have b: "\<not> bit (uint w) 63" using assms unfolding s by (simp add: not_less [symmetric])
  have "take_bit 64 (uint w) = uint w"
    using unsigned_less [of w, where 'a = int] by (simp add: take_bit_int_eq_self)
  moreover have "take_bit 64 (uint w) = take_bit 63 (uint w)"
    using take_bit_Suc_from_most [of 63 "uint w"] b by simp
  ultimately show ?thesis using s signed_take_bit_eq_if_positive [OF b] by simp
qed

section \<open>Properties\<close>

abbreviation master_http_run ::
    "json_lib \<Rightarrow> (ResponseException \<Rightarrow> string) \<Rightarrow> size_t option \<Rightarrow> master_world http_event list \<Rightarrow> HttpSession option" where
  "master_http_run lib diagnostic t evs \<equiv>
     run_steps (http_run_step (master_process lib) (master_continue lib diagnostic))
       (Some (HttpSession_run (HttpSession_create t))) evs"

abbreviation secondary_http_run ::
    "json_lib \<Rightarrow> size_t option \<Rightarrow> SecondaryNodeS option http_event list \<Rightarrow> HttpSession option" where
  "secondary_http_run lib t evs \<equiv>
     run_steps (http_run_step (\<lambda>n q. secondary_processRequest lib q n) (\<lambda>_ _ _. None))
       (Some (HttpSession_run (HttpSession_create t))) evs"

text \<open>
C36: Every HTTP request gets exactly one response, on the master and on a secondary, for every
method, target and body: a session never writes twice, every response it writes has the length
of its body and closes the connection, and once the request has been read and its futures have
been handled one response has been written. The node the handlers see is any state a run of
the node can reach.
\<close>

theorem http_one_answer:
  assumes "\<forall>ev \<in> set evs. \<forall>n. event_world ev = Some n \<longrightarrow> master_world_ok n"
    and "\<forall>ev \<in> set evs'. \<forall>n. event_world ev = Some n \<longrightarrow> secondary_world_ok n"
  shows "\<exists>s s'. master_http_run lib diagnostic t evs = Some s \<and> secondary_http_run lib t evs' = Some s' \<and>
     length (hs_written s) \<le> 1 \<and> length (hs_written s') \<le> 1 \<and>
     (\<forall>r \<in> set (hs_written s) \<union> set (hs_written s').
        hr_content_length r = Some (length (hr_body r)) \<and> \<not> hr_keep_alive r) \<and>
     ((\<forall>n. He_Read n None \<notin> set evs) \<longrightarrow> \<not> hs_reading s \<longrightarrow> hs_waiting s = [] \<longrightarrow> length (hs_written s) = 1) \<and>
     ((\<forall>n. He_Read n None \<notin> set evs') \<longrightarrow> \<not> hs_reading s' \<longrightarrow> hs_waiting s' = [] \<longrightarrow> length (hs_written s') = 1)"
proof -
  from master_http.one_answer [OF assms(1), of lib diagnostic t] obtain s where
    s: "master_http_run lib diagnostic t evs = Some s"
      "length (hs_written s) + length (hs_waiting s) + (if hs_reading s then 1 else 0) \<le> 1"
      "\<forall>r \<in> set (hs_written s). complete r"
      "(\<forall>n. He_Read n None \<notin> set evs) \<longrightarrow> \<not> hs_reading s \<longrightarrow> hs_waiting s = [] \<longrightarrow> length (hs_written s) = 1" by blast
  from secondary_http.one_answer [OF assms(2), of lib t] obtain s' where
    s': "secondary_http_run lib t evs' = Some s'"
      "length (hs_written s') + length (hs_waiting s') + (if hs_reading s' then 1 else 0) \<le> 1"
      "\<forall>r \<in> set (hs_written s'). complete r"
      "(\<forall>n. He_Read n None \<notin> set evs') \<longrightarrow> \<not> hs_reading s' \<longrightarrow> hs_waiting s' = [] \<longrightarrow> length (hs_written s') = 1" by blast
  have l: "length (hs_written s) \<le> 1" "length (hs_written s') \<le> 1" using s(2) s'(2) by linarith+
  have c: "\<forall>r \<in> set (hs_written s) \<union> set (hs_written s').
      hr_content_length r = Some (length (hr_body r)) \<and> \<not> hr_keep_alive r"
    using s(3) s'(3) by (auto simp: complete_def)
  show ?thesis
    by (intro exI [of _ s] exI [of _ s'] conjI) (rule s(1) s'(1) l c s(4) s'(4))+
qed

theorem http_one_answer_witness:
  "let lib = \<lparr>jl_parse = (\<lambda>_. Inl ''bad''), jl_serialize = (\<lambda>_. ''[]''), jl_what = (\<lambda>_. ''e'')\<rparr>;
       w = \<lparr>mw_node = Some MasterNode_create, mw_now = 7, mw_pongs = []\<rparr>;
       q = \<lparr>rq_method = Verb_post, rq_target = ''/newMessage'', rq_version = 11, rq_body = ''x''\<rparr>
   in \<exists>s. master_http_run lib (\<lambda>_. ''e'') None [He_Read w (Some q)] = Some s \<and> length (hs_written s) \<le> 1"
proof -
  let ?w = "\<lparr>mw_node = Some MasterNode_create, mw_now = 7, mw_pongs = []\<rparr>"
  have m: "master_world_ok ?w"
    using mn_ok_create by (simp add: master_world_ok_def MasterNode_create_def)
  have h: "\<forall>ev \<in> set [He_Read ?w (Some q)]. \<forall>n. event_world ev = Some n \<longrightarrow> master_world_ok n" for q
    using m by simp
  have h': "\<forall>ev \<in> set ([] :: SecondaryNodeS option http_event list). \<forall>n. event_world ev = Some n \<longrightarrow> secondary_world_ok n"
    by simp
  show ?thesis unfolding Let_def using http_one_answer [OF h h'] by blast
qed

text \<open>
\<^verbatim>\<open>GET /messages\<close> tells the truth. The master answers with all its messages in the order of
their ids, each with its id; a secondary answers with the longest run of messages it has from
id 0, and only while it is operational, otherwise with \<^verbatim>\<open>bad request\<close>. Asking changes nothing.
\<close>

theorem http_get_messages:
  assumes "mn_ok m" and "length (mn_requests m) < 2 ^ 64" and "card (dom (ss_messages (sns_storage n))) < 2 ^ 64"
    and "rq_method q = Verb_get" and "rq_target q = ''/messages''"
  shows "\<exists>s1 s2 xs.
     master_processRequest lib now q (Some m) s = Some (Inr (s1, Some m, [])) \<and>
     hr_result (last (hs_written s1)) = Status_ok \<and>
     hr_body (last (hs_written s1)) =
       jl_serialize lib (J_Array (map (\<lambda>i. message_json i (mn_messages m ! i)) [0..<length (mn_messages m)])) \<and>
     secondary_processRequest lib q (Some n) s = Some s2 \<and> is_chunk (ss_messages (sns_storage n)) 0 xs \<and>
     (if sns_operational n
      then hr_result (last (hs_written s2)) = Status_ok \<and>
           hr_body (last (hs_written s2)) = jl_serialize lib (messages_json xs)
      else hr_result (last (hs_written s2)) = Status_bad_request \<and>
           hr_body (last (hs_written s2)) = ''node is not operational'')"
proof -
  have c: "MasterStorage_getContiguousChunk (mn_storage m) 0 = Some (mn_messages m)"
    using store_ok_chunk assms(1,2) by (simp add: mn_ok_def)
  obtain xs where xs: "SecondaryStorage_getContiguousChunk (sns_storage n) 0 = Some xs"
    using secondary_chunk [OF assms(3)] by blast
  show ?thesis
    using c xs secondary_store.chunk_iff [of "sns_storage n" 0 xs] assms(4,5)
    by (auto simp: master_processRequest_def master_get_messages_def secondary_processRequest_def Let_def
        write_body_def fallback_def writeResponse_def set_content_length_def set_response_def
        json_headers_def start_response_def messages_json_def)
qed

theorem http_get_messages_witness:
  "let lib = \<lparr>jl_parse = (\<lambda>_. Inl ''bad''), jl_serialize = (\<lambda>_. ''[]''), jl_what = (\<lambda>_. ''e'')\<rparr>;
       q = \<lparr>rq_method = Verb_get, rq_target = ''/messages'', rq_version = 11, rq_body = ''''\<rparr>
   in \<exists>s1. master_processRequest lib 7 q (Some MasterNode_create) (HttpSession_create None) =
      Some (Inr (s1, Some MasterNode_create, [])) \<and> hr_result (last (hs_written s1)) = Status_ok"
proof -
  let ?q = "\<lparr>rq_method = Verb_get, rq_target = ''/messages'', rq_version = 11, rq_body = ''''\<rparr>"
  have h: "length (mn_requests MasterNode_create) < 2 ^ 64"
    "card (dom (ss_messages (sns_storage (SecondaryNodeS_create ''s'')))) < 2 ^ 64"
    "rq_method ?q = Verb_get" "rq_target ?q = ''/messages''"
    by (simp_all add: MasterNode_create_def SecondaryNodeS_create_def SecondaryStorage_create_def)
  show ?thesis unfolding Let_def using http_get_messages [OF mn_ok_create(1) h] by blast
qed




end
