(* ===== verification/Replication.thy ===== *)
theory Replication
  imports HttpSessions
begin

text \<open>
  The whole system: a master and any number of secondaries. The nodes are the models of the
  components; here they are connected. \<open>sys_sent\<close> are the additions the master's requests have
  sent, \<open>sys_answers\<close> the answers it has given to queries for messages: the start id, the
  messages, and the number of messages the master had at that moment. The network may delay,
  reorder, repeat and lose: an addition may reach any secondary at any time or never, an
  answer any query for the same start id. What a call and its answer look like on the wire,
  and that they reach the right request, is the subject of the endpoint.

  \<open>sec_synced\<close> remembers, for a secondary, the number of messages the master had when it gave
  the answer that made the secondary operational.
\<close>

section \<open>The system\<close>

record Secondary =
  sec_node :: SecondaryNodeS
  sec_synced :: nat

record System =
  sys_master :: MasterNode
  sys_secondaries :: "Secondary list"
  sys_sent :: "(size_t \<times> string) list"
  sys_answers :: "(size_t \<times> string list \<times> nat) list"

datatype sys_event =
    Sys_Master mn_event
  | Sys_Secondary nat sn_event
  | Sys_Deliver nat nat nat timestamp
  | Sys_Answer nat nat nat

definition sys_create :: "string list \<Rightarrow> System" where
  "sys_create names =
     \<lparr>sys_master = MasterNode_create,
      sys_secondaries = map (\<lambda>name. \<lparr>sec_node = sn_begin name, sec_synced = 0\<rparr>) names,
      sys_sent = [], sys_answers = []\<rparr>"

fun sent_of :: "mn_out \<Rightarrow> (size_t \<times> string) list" where
  "sent_of (MN_Request q (AR_Send endpoint i messageId message)) = [(messageId, message)]"
| "sent_of _ = []"

definition answers_of :: "MasterNode \<Rightarrow> mn_event \<Rightarrow> mn_out list \<Rightarrow> (size_t \<times> string list \<times> nat) list" where
  "answers_of m ev out =
     (case ev of
        MN_RunPosted k \<Rightarrow>
          if length (mn_posted m) \<le> k then []
          else (case mn_posted m ! k of
                  T_GetMessages startMsgId p \<Rightarrow>
                    (case out of
                       [MN_SetPromise _ (A_GetMessages messages)] \<Rightarrow>
                         [(startMsgId, messages, length (mn_requests m))]
                     | _ \<Rightarrow> [])
                | _ \<Rightarrow> [])
      | _ \<Rightarrow> [])"

text \<open>The events of a secondary that bring it no message: everything but additions and answered queries.\<close>

fun quiet :: "sn_event \<Rightarrow> bool" where
  "quiet (SN_SessionEvent (MS_Incoming (Incoming_addMessage _ _ _) _)) = False"
| "quiet (SN_SessionEvent (MS_Response _ (Got_GetMessages _))) = False"
| "quiet _ = True"

text \<open>An event of secondary \<open>j\<close>; \<open>synced\<close> is the new mark, if the event is an answer that is taken.\<close>

definition sys_secondary :: "nat \<Rightarrow> sn_event \<Rightarrow> nat option \<Rightarrow> System \<Rightarrow> System option" where
  "sys_secondary j ev synced s =
     (let sec = sys_secondaries s ! j
      in case sn_step (sec_node sec) ev of
           None \<Rightarrow> None
         | Some (n, _) \<Rightarrow>
             Some (s\<lparr>sys_secondaries := (sys_secondaries s)[j :=
               \<lparr>sec_node = n, sec_synced = (case synced of None \<Rightarrow> sec_synced sec | Some k \<Rightarrow> k)\<rparr>]\<rparr>))"

text \<open>The gap of the query whose answer has index \<open>n\<close> in the session, if it is one.\<close>

definition query_gap :: "SecondaryNodeS \<Rightarrow> nat \<Rightarrow> size_t option" where
  "query_gap node n =
     (case sns_session node of
        None \<Rightarrow> None
      | Some s \<Rightarrow>
          if n < length (mss_waiting s)
          then (case mss_waiting s ! n of Cont_Messages gap \<Rightarrow> Some gap | Cont_Ready \<Rightarrow> None)
          else None)"

definition sys_step :: "System \<Rightarrow> sys_event \<Rightarrow> System option" where
  "sys_step s ev =
     (case ev of
        Sys_Master mev \<Rightarrow>
          (case mn_step (sys_master s) mev of
             Some (Inr (m, out)) \<Rightarrow>
               Some (s\<lparr>sys_master := m, sys_sent := sys_sent s @ concat (map sent_of out),
                       sys_answers := sys_answers s @ answers_of (sys_master s) mev out\<rparr>)
           | _ \<Rightarrow> None)
      | Sys_Secondary j sev \<Rightarrow>
          if length (sys_secondaries s) \<le> j \<or> \<not> quiet sev then Some s else sys_secondary j sev None s
      | Sys_Deliver j k p now \<Rightarrow>
          if length (sys_secondaries s) \<le> j \<or> length (sys_sent s) \<le> k then Some s
          else (let (i, msg) = sys_sent s ! k
                in sys_secondary j (SN_SessionEvent (MS_Incoming (Incoming_addMessage i msg p) now)) None s)
      | Sys_Answer j k n \<Rightarrow>
          if length (sys_secondaries s) \<le> j \<or> length (sys_answers s) \<le> k then Some s
          else (let (gap, messages, known) = sys_answers s ! k
                in if query_gap (sec_node (sys_secondaries s ! j)) n \<noteq> Some gap then Some s
                   else sys_secondary j (SN_SessionEvent (MS_Response n (Got_GetMessages messages))) (Some known) s))"

definition sys_run_step :: "System option \<Rightarrow> sys_event \<Rightarrow> System option" where
  "sys_run_step x ev = (case x of None \<Rightarrow> None | Some s \<Rightarrow> sys_step s ev)"

abbreviation sys_run :: "string list \<Rightarrow> sys_event list \<Rightarrow> System option" where
  "sys_run names evs \<equiv> run_steps sys_run_step (Some (sys_create names)) evs"

fun master_events :: "sys_event list \<Rightarrow> mn_event list" where
  "master_events [] = []"
| "master_events (Sys_Master ev # evs) = ev # master_events evs"
| "master_events (_ # evs) = master_events evs"

section \<open>What the master sends\<close>

lemma sendLoop_outs:
  "AR_Send e i k m \<in> set (snd (sendLoop ss r)) \<Longrightarrow> k = ar_messageId r \<and> m = ar_message r"
proof (induction ss arbitrary: r)
  case (Cons s ss)
  show ?case
  proof (cases "needToSend r s")
    case True
    let ?r = "r\<lparr>ar_pendingWrites := ar_pendingWrites r + 1, ar_sent := ar_sent r @ [snap_id s]\<rparr>"
    have "AR_Send e i k m = AR_Send (snap_endpoint s) (snap_id s) (ar_messageId r) (ar_message r) \<or>
        AR_Send e i k m \<in> set (snd (sendLoop ss ?r))"
      using Cons.prems True by (simp add: case_prod_beta Let_def)
    then show ?thesis using Cons.IH [of ?r] by auto
  next
    case False
    then show ?thesis using Cons.prems Cons.IH [of r] by simp
  qed
qed simp

lemma sendRequest_outs:
  "AR_Send e i k m \<in> set (snd (sendRequestToSecondaries r)) \<Longrightarrow> k = ar_messageId r \<and> m = ar_message r"
  using sendLoop_outs [of e i k m "ar_secondariesSnapshot r" r]
  by (auto simp: sendRequestToSecondaries_def Let_def case_prod_beta split: if_splits)

lemma requestMark_const:
  "requestMarkSuccess r = Inr r' \<Longrightarrow> ar_messageId r' = ar_messageId r \<and> ar_message r' = ar_message r"
  "requestMarkFailure r = Inr r' \<Longrightarrow> ar_messageId r' = ar_messageId r \<and> ar_message r' = ar_message r"
  by (auto simp: requestMarkSuccess_def requestMarkFailure_def split: if_splits sum.splits)

lemma ar_start_outs:
  assumes "ar_start s r = Inr (r', out)" and "AR_Send e i k m \<in> set out"
  shows "k = ar_messageId r \<and> m = ar_message r"
proof -
  define ok r1 where "ok = fst (updateData s r)" and "r1 = snd (updateData s r)"
  have u: "updateData s r = (ok, r1)" by (simp add: ok_def r1_def)
  have r1: "ar_messageId r1 = ar_messageId r" "ar_message r1 = ar_message r"
    by (simp_all add: r1_def updateData_def split: option.split)
  show ?thesis
  proof (cases "ok \<and> satisfiedWriteConcern r1 \<ge> ar_writeConcern r1")
    case True
    then obtain r2 where r2: "requestMarkSuccess r1 = Inr r2"
      using assms(1) u by (cases "requestMarkSuccess r1") (simp_all add: ar_start_def)
    have "AR_Send e i k m \<in> set (snd (sendRequestToSecondaries r2))"
      using assms True r2 u by (auto simp: ar_start_def split: if_splits)
    then show ?thesis using sendRequest_outs [of e i k m r2] requestMark_const(1) [OF r2] r1 by simp
  next
    case False
    then have "ok \<and> AR_Send e i k m \<in> set (snd (sendRequestToSecondaries r1))"
      using assms u by (auto simp: ar_start_def split: if_splits sum.splits)
    then show ?thesis using sendRequest_outs [of e i k m r1] r1 by simp
  qed
qed

lemma ar_onResponseRecieved_const:
  "ar_onResponseRecieved i v r = Inr r' \<Longrightarrow> ar_messageId r' = ar_messageId r \<and> ar_message r' = ar_message r"
  by (auto simp: ar_onResponseRecieved_def Let_def dest: requestMark_const(1) split: if_splits)

lemma ar_step_outs:
  assumes st: "ar_step r ev = Inr (r', out)" and "AR_Send e i k m \<in> set out"
  shows "k = ar_messageId r \<and> m = ar_message r"
proof (cases ev)
  case (AR_Response n v s)
  let ?q = "r\<lparr>ar_sent := take n (ar_sent r) @ drop (Suc n) (ar_sent r)\<rparr>"
  have n: "n < length (ar_sent r)" using assms AR_Response by (auto simp: ar_onResponse_def split: if_splits)
  then obtain r1 where r1: "ar_onResponseRecieved (ar_sent r ! n) v ?q = Inr r1"
    using st AR_Response by (cases "ar_onResponseRecieved (ar_sent r ! n) v ?q") (simp_all add: ar_onResponse_def Let_def)
  have "ar_start s (r1\<lparr>ar_pendingWrites := ar_pendingWrites r1 - 1\<rparr>) = Inr (r', out)"
    using assms AR_Response n r1 by (auto simp: ar_onResponse_def Let_def split: if_splits)
  from ar_start_outs [OF this assms(2)] ar_onResponseRecieved_const [OF r1] show ?thesis by simp
next
  case (AR_WaitOver s)
  then have "ar_start s (r\<lparr>ar_waits := ar_waits r - 1\<rparr>) = Inr (r', out)"
    using assms by (auto split: if_splits)
  from ar_start_outs [OF this assms(2)] show ?thesis by simp
qed

lemma sent_of_request: "(i, msg) \<in> set (sent_of (MN_Request q y)) \<Longrightarrow> \<exists>e j. y = AR_Send e j i msg"
  by (cases y) auto

lemma mn_request_outs:
  assumes ok: "mn_ok m" and l: "length (mn_requests m) < 2 ^ 64" and st: "mn_request q ev m = Inr (m', out)"
    and x: "(i, msg) \<in> set (concat (map sent_of out))"
  shows "ms_messages (mn_storage m') i = Some msg"
proof -
  have q: "q < length (mn_requests m)" using st x by (auto simp: mn_request_def split: if_splits)
  let ?run = "mn_requests m ! q"
  from q st obtain run' out' where r: "mn_request_step ?run ev = Inr (run', out')" "out = map (MN_Request q) out'"
    by (auto simp: mn_request_def split: sum.splits)
  then obtain r' where ar: "ar_step (run_request ?run) ev = Inr (r', out')"
    by (auto simp: mn_request_step_def split: sum.splits)
  from x r(2) obtain y where "y \<in> set out'" "(i, msg) \<in> set (sent_of (MN_Request q y))" by auto
  then obtain e j where "AR_Send e j i msg \<in> set out'" using sent_of_request by blast
  from ar_step_outs [OF ar this] have im: "i = ar_messageId (run_request ?run)" "msg = ar_message (run_request ?run)"
    by simp_all
  have "i = word_of_nat q" using ok q im(1) by (simp add: mn_ok_def store_ok_def)
  then have "unat i = q" using q l by (simp add: unat_of_nat)
  then show ?thesis using ok q im mn_request_fields [OF st] by (simp add: mn_ok_def store_ok_def)
qed

lemma runTask_sent: "runTask t m = Some (m', out) \<Longrightarrow> concat (map sent_of out) = []"
  by (cases t)
    (auto simp: addSecondaryImpl_def Let_def onIncomingGetMessages_def onIncomingSecondaryNodeReady_def
      split: option.splits)

lemma onSignal_sent: "concat (map sent_of (snd (onSignal k i sg m))) = []"
  by (cases "(k, i, sg, m)" rule: onSignal.cases) simp_all

lemma mn_step_sent:
  assumes ok: "mn_ok m" and n: "mn_adds m < 2 ^ 31" and l: "Suc (length (mn_requests m)) < 2 ^ 64"
    and st: "mn_step m ev = Some (Inr (m', out))" and x: "(i, msg) \<in> set (concat (map sent_of out))"
  shows "ms_messages (mn_storage m') i = Some msg"
proof (cases ev)
  case (MN_RunPosted k)
  then have "\<exists>t m1. runTask t m1 = Some (m', out)" using st x by (auto split: if_splits)
  then show ?thesis using runTask_sent x by force
next
  case (MN_Signal k sg)
  have "out = (if length (mn_endpoints m) \<le> k then [] else snd (onSignal k (mn_endpoints m ! k) sg m))"
    using st MN_Signal by (cases "length (mn_endpoints m) \<le> k") simp_all
  then show ?thesis using x onSignal_sent by (metis empty_iff list.set(1) list.simps(8) concat.simps(1))
next
  case (MN_AddMessage message w)
  have ne: "length (mn_endpoints m) < 2 ^ 31" using n by (simp add: mn_adds_def)
  let ?q = "length (mn_requests m)" and ?w = "if w \<le> 1 then 0 else w - 1"
  have sto: "store_ok m" using ok by (simp add: mn_ok_def)
  note add = ms_addMessage_store [OF sto, of message]
  from st MN_AddMessage obtain f where f: "mn_addMessage message w m = Inr (f, m', out)"
    by (cases "mn_addMessage message w m") auto
  then obtain run where run: "ar_begin (word_of_nat ?q) message ?w (Some (secondariesSnapshot m)) = Inr run"
    "out = map (MN_Request ?q) (run_out run)" "mn_storage m' = snd (MasterStorage_addMessage message (mn_storage m))"
    using l by (auto simp: mn_addMessage_def add Let_def split: sum.splits)
  then obtain r where ar: "ar_start (Some (secondariesSnapshot m)) (AddMessageRequest_create (word_of_nat ?q) message ?w) =
      Inr (r, run_out run)"
    by (auto simp: ar_begin_def split: sum.splits)
  from x run(2) obtain y where "y \<in> set (run_out run)" "(i, msg) \<in> set (sent_of (MN_Request ?q y))" by auto
  then obtain e j where "AR_Send e j i msg \<in> set (run_out run)" using sent_of_request by blast
  from ar_start_outs [OF ar this] have "i = word_of_nat ?q" "msg = message"
    by (simp_all add: AddMessageRequest_create_def)
  then show ?thesis using run(3) add l by simp
next
  case (MN_Answer q k r)
  then show ?thesis using mn_request_outs [OF ok _ _ x] st l by (metis Suc_lessD mn_step.simps(5) option.inject)
next
  case (MN_WaitOver q)
  then show ?thesis using mn_request_outs [OF ok _ _ x] st l by (metis Suc_lessD mn_step.simps(6) option.inject)
qed (use st x in auto)

text \<open>What a step of the master keeps: every message stays, and the store is the list of the requests' messages.\<close>

lemma store_lookup:
  "mn_ok m \<Longrightarrow> ms_messages (mn_storage m) k =
     (if unat k < length (mn_requests m) then Some (ar_message (run_request (mn_requests m ! unat k))) else None)"
  by (simp add: mn_ok_def store_ok_def)

lemma mn_step_mono:
  assumes good: "mn_step_good m ev r" and ok: "mn_ok m" and r: "r = Some (Inr (m', out))"
  shows "ms_messages (mn_storage m) \<subseteq>\<^sub>m ms_messages (mn_storage m')"
proof -
  from good r have g: "mn_ok m'" "length (mn_requests m') = length (mn_requests m) + messages_of ev"
    "\<forall>j < length (mn_requests m). ar_const (run_request (mn_requests m' ! j)) = ar_const (run_request (mn_requests m ! j))"
    by (auto simp: mn_step_good_def)
  have "ms_messages (mn_storage m') k = Some v" if "ms_messages (mn_storage m) k = Some v" for k v
  proof -
    have k: "unat k < length (mn_requests m)" "v = ar_message (run_request (mn_requests m ! unat k))"
      using that by (simp_all add: store_lookup [OF ok] split: if_splits)
    then have "ar_message (run_request (mn_requests m' ! unat k)) = v" using g(3) by (simp add: ar_const_def)
    then show ?thesis using k(1) g(2) by (simp add: store_lookup [OF g(1)])
  qed
  then show ?thesis unfolding map_le_def by (metis domD)
qed

text \<open>An answer holds everything from its start id on that the master has.\<close>

definition answer_ok :: "MasterNode \<Rightarrow> size_t \<times> string list \<times> nat \<Rightarrow> bool" where
  "answer_ok m a \<longleftrightarrow>
     (let (gap, xs, known) = a
      in known \<le> length (mn_requests m) \<and> length xs \<le> 2 ^ 64 \<and>
         (\<forall>i < length xs. ms_messages (mn_storage m) (gap + word_of_nat i) = Some (xs ! i)) \<and>
         (\<forall>i < known. unat gap \<le> i \<longrightarrow> i - unat gap < length xs))"

lemma chunk_answer_ok:
  assumes ok: "mn_ok m" and l: "length (mn_requests m) < 2 ^ 64"
    and xs: "MasterStorage_getContiguousChunk (mn_storage m) gap = Some xs"
  shows "answer_ok m (gap, xs, length (mn_requests m))"
proof -
  have c: "is_chunk (ms_messages (mn_storage m)) gap xs" using xs by (simp add: master_store.chunk_iff)
  have "i - unat gap < length xs" if i: "i < length (mn_requests m)" "unat gap \<le> i" for i
  proof (rule ccontr)
    assume "\<not> i - unat gap < length xs"
    then have le: "unat gap + length xs \<le> i" using i(2) by simp
    then have "unat gap + length xs < 2 ^ 64" using i(1) l by simp
    moreover have "gap + word_of_nat (length xs) = word_of_nat (unat gap + length xs)" by simp
    ultimately have "unat (gap + word_of_nat (length xs)) = unat gap + length xs" by (simp only: unat_of_nat) simp
    then have "ms_messages (mn_storage m) (gap + word_of_nat (length xs)) \<noteq> None"
      using le i(1) by (simp add: store_lookup [OF ok])
    then show False using c by (simp add: is_chunk_def)
  qed
  then show ?thesis using c is_chunk_bound [OF c] by (auto simp: answer_ok_def is_chunk_def)
qed

lemma answers_of_ok:
  assumes ok: "mn_ok m" and l: "length (mn_requests m) < 2 ^ 64" and st: "mn_step m ev = Some (Inr (m', out))"
    and a: "a \<in> set (answers_of m ev out)"
  shows "answer_ok m a"
proof -
  from a obtain k where k: "ev = MN_RunPosted k" "k < length (mn_posted m)"
    by (auto simp: answers_of_def split: mn_event.splits if_splits)
  with a obtain gap p where t: "mn_posted m ! k = T_GetMessages gap p"
    by (cases "mn_posted m ! k") (auto simp: answers_of_def)
  with a k have "\<exists>p' xs. out = [MN_SetPromise p' (A_GetMessages xs)] \<and> a = (gap, xs, length (mn_requests m))"
    by (auto simp: answers_of_def split: list.splits mn_out.splits answer.splits)
  then obtain p' xs where ev: "ev = MN_RunPosted k" "k < length (mn_posted m)"
      "mn_posted m ! k = T_GetMessages gap p" "out = [MN_SetPromise p' (A_GetMessages xs)]"
      "a = (gap, xs, length (mn_requests m))" using k t by blast
  then have "MasterStorage_getContiguousChunk (mn_storage m) gap = Some xs"
    using st by (auto simp: onIncomingGetMessages_def split: option.splits)
  from chunk_answer_ok [OF ok l this] show ?thesis using ev(5) by simp
qed

lemma answer_ok_mono:
  assumes "answer_ok m a" "ms_messages (mn_storage m) \<subseteq>\<^sub>m ms_messages (mn_storage m')"
    "length (mn_requests m) \<le> length (mn_requests m')"
  shows "answer_ok m' a"
proof -
  obtain gap xs known where a: "a = (gap, xs, known)" by (cases a)
  have "ms_messages (mn_storage m') (gap + word_of_nat i) = Some (xs ! i)" if "i < length xs" for i
  proof -
    have "ms_messages (mn_storage m) (gap + word_of_nat i) = Some (xs ! i)"
      using assms(1) that by (simp add: answer_ok_def a)
    then show ?thesis using assms(2) unfolding map_le_def by (metis domI)
  qed
  then show ?thesis using assms(1,3) by (simp add: answer_ok_def a)
qed

section \<open>What an event does to a secondary's storage\<close>

lemma sn_session_outputs_storage: "sns_storage (fst (sn_session_outputs out n)) = sns_storage n"
proof (induction out arbitrary: n)
  case (Cons x xs)
  show ?case
    by (cases x; simp add: Cons.IH case_prod_beta Let_def onSessionInvalidated_def reconnectToMaster_def
        disconnectMasterSession_def onSessionOperational_def)
qed simp

lemma sn_session_result_storage:
  assumes "sn_session_result r n = Some (n', out)"
  shows "\<exists>s o'. r = Some (sns_storage n', s, o')"
proof -
  from assms obtain st s o' where r: "r = Some (st, s, o')"
    "sn_session_outputs o' (n\<lparr>sns_storage := st, sns_session := Some s\<rparr>) = (n', out)"
    by (auto simp: sn_session_result_def split: option.splits)
  then have "sns_storage n' = st"
    using sn_session_outputs_storage [of o' "n\<lparr>sns_storage := st, sns_session := Some s\<rparr>"] by simp
  then show ?thesis using r(1) by simp
qed

lemma quiet_storage:
  assumes st: "sn_step n ev = Some (n', out)" and q: "quiet ev"
  shows "sns_storage n' = sns_storage n"
proof (cases ev)
  case (SN_Connected ec)
  show ?thesis
  proof (cases "sns_connects n = 0 \<or> ec")
    case True
    then show ?thesis using st SN_Connected by (auto simp: onConnected_def split: if_splits)
  next
    case False
    let ?n = "disconnectMasterSession (n\<lparr>sns_connects := sns_connects n - 1\<rparr>)"
    let ?s = "MasterSession_create (sns_friendlyName ?n)"
    have "sn_session_result (MasterSession_run (sns_storage ?n) ?s) (?n\<lparr>sns_session := Some ?s\<rparr>) = Some (n', out)"
      using st SN_Connected False by (simp add: onConnected_def runMasterSession_def Let_def)
    from sn_session_result_storage [OF this] obtain s o' where
      "MasterSession_run (sns_storage ?n) ?s = Some (sns_storage n', s, o')" by blast
    then show ?thesis
      by (auto simp: MasterSession_run_def askForMessages_def disconnectMasterSession_def split: option.splits)
  qed
next
  case SN_TimerOver
  then show ?thesis using st by (auto simp: reconnectToMaster_def split: if_splits)
next
  case (SN_SessionEvent sev)
  show ?thesis
  proof (cases "sns_session n")
    case None
    then show ?thesis using st SN_SessionEvent by simp
  next
    case (Some s)
    then have "sn_session_result (ms_step sev (sns_storage n) s) n = Some (n', out)"
      using st SN_SessionEvent by simp
    from sn_session_result_storage [OF this] obtain s' o' where
      r: "ms_step sev (sns_storage n) s = Some (sns_storage n', s', o')" by blast
    show ?thesis
    proof (cases sev)
      case (MS_Response k v)
      then have "\<And>xs. v \<noteq> Got_GetMessages xs" using q SN_SessionEvent by (cases v) simp_all
      then show ?thesis using r MS_Response
        by (cases v) (auto simp: onMessages_def onReadyAck_def askForMessages_def notifyOperational_def Let_def
            split: if_splits continuation.splits option.splits)
    next
      case (MS_Incoming request now)
      then show ?thesis using r q SN_SessionEvent
        by (cases request) (simp_all add: onIncomingPing_def)
    qed (use r in \<open>simp add: onEndpointInvalidated_def\<close>)
  qed
qed

lemma deliver_storage:
  assumes st: "sn_step n (SN_SessionEvent (MS_Incoming (Incoming_addMessage i msg p) now)) = Some (n', out)"
  shows "sns_storage n' = sns_storage n \<or> sns_storage n' = SecondaryStorage_addMessage i msg (sns_storage n)"
proof (cases "sns_session n")
  case (Some s)
  then have "sn_session_result (Some (SecondaryStorage_addMessage i msg (sns_storage n), s,
      [MS_SetPromise p (A_AddMessage OK)])) n = Some (n', out)"
    using st by (simp add: onIncomingAddMessage_def)
  from sn_session_result_storage [OF this] show ?thesis by simp
qed (use st in simp)

lemma answer_storage:
  assumes st: "sn_step n (SN_SessionEvent (MS_Response k (Got_GetMessages xs))) = Some (n', out)"
    and q: "query_gap n k = Some gap"
  shows "sns_storage n' = SecondaryStorage_addMessages gap xs (sns_storage n)"
proof -
  from q obtain s where s: "sns_session n = Some s" "k < length (mss_waiting s)" "mss_waiting s ! k = Cont_Messages gap"
    by (auto simp: query_gap_def split: option.splits if_splits continuation.splits)
  then have "sn_session_result (ms_step (MS_Response k (Got_GetMessages xs)) (sns_storage n) s) n = Some (n', out)"
    using st by simp
  from sn_session_result_storage [OF this] obtain s' o' where
    "ms_step (MS_Response k (Got_GetMessages xs)) (sns_storage n) s = Some (sns_storage n', s', o')" by blast
  then show ?thesis using s by (simp add: onMessages_def Let_def case_prod_beta)
qed

text \<open>Only the answer to a query makes a secondary operational.\<close>

lemma operational_phase: "sns_operational n \<longleftrightarrow> phase_of n = Serving"
  by (simp add: phase_of_def)

lemma event_phase_quiet: "quiet ev \<Longrightarrow> event_phase ev \<noteq> Ev_Messages"
proof (cases ev)
  case (SN_SessionEvent sev)
  assume q: "quiet ev"
  show ?thesis
  proof (cases sev)
    case (MS_Response k v)
    then show ?thesis using q SN_SessionEvent by (cases k; cases v) simp_all
  qed (use SN_SessionEvent in simp_all)
qed simp_all

lemma phase_step_Serving: "phase_step p e = Serving \<Longrightarrow> e \<noteq> Ev_Messages \<Longrightarrow> p = Serving"
  by (cases "(p, e)" rule: phase_step.cases) (auto split: if_splits)

section \<open>The invariant\<close>

definition sec_ok :: "MasterNode \<Rightarrow> Secondary \<Rightarrow> bool" where
  "sec_ok m sec \<longleftrightarrow>
     sn_ok (sec_node sec) \<and> ss_messages (sns_storage (sec_node sec)) \<subseteq>\<^sub>m ms_messages (mn_storage m) \<and>
     (sns_operational (sec_node sec) \<longrightarrow>
        sec_synced sec \<le> length (mn_requests m) \<and>
        (\<forall>i < sec_synced sec. ss_messages (sns_storage (sec_node sec)) (word_of_nat i) \<noteq> None))"

definition sys_ok :: "System \<Rightarrow> bool" where
  "sys_ok s \<longleftrightarrow>
     mn_ok (sys_master s) \<and>
     (\<forall>sec \<in> set (sys_secondaries s). sec_ok (sys_master s) sec) \<and>
     (\<forall>(i, msg) \<in> set (sys_sent s). ms_messages (mn_storage (sys_master s)) i = Some msg) \<and>
     (\<forall>a \<in> set (sys_answers s). answer_ok (sys_master s) a)"

lemma part_card:
  assumes ok: "mn_ok m" and l: "length (mn_requests m) < 2 ^ 64" and part: "f \<subseteq>\<^sub>m ms_messages (mn_storage m)"
  shows "card (dom f) < 2 ^ 64"
proof -
  have "dom f \<subseteq> word_of_nat ` {..< length (mn_requests m)}"
  proof
    fix k
    assume "k \<in> dom f"
    then have "ms_messages (mn_storage m) k \<noteq> None" using part unfolding map_le_def by (metis domIff)
    then have "unat k < length (mn_requests m)" by (simp add: store_lookup [OF ok] split: if_splits)
    then show "k \<in> word_of_nat ` {..< length (mn_requests m)}"
      by (intro image_eqI [of _ _ "unat k"]) simp_all
  qed
  then have "card (dom f) \<le> card ((word_of_nat :: nat \<Rightarrow> size_t) ` {..< length (mn_requests m)})"
    by (rule card_mono [OF finite_imageI [OF finite_lessThan]])
  also have "\<dots> \<le> length (mn_requests m)" using card_image_le [of "{..< length (mn_requests m)}"] by simp
  finally show ?thesis using l by simp
qed

lemma sec_ok_mono:
  assumes "sec_ok m sec" "ms_messages (mn_storage m) \<subseteq>\<^sub>m ms_messages (mn_storage m')"
    "length (mn_requests m) \<le> length (mn_requests m')"
  shows "sec_ok m' sec"
  using assms map_le_trans unfolding sec_ok_def by (meson le_trans)

lemma sys_secondary_ok:
  assumes ok: "sys_ok s" and l: "length (mn_requests (sys_master s)) < 2 ^ 64" and j: "j < length (sys_secondaries s)"
    and part: "\<And>n' out. sn_step (sec_node (sys_secondaries s ! j)) ev = Some (n', out) \<Longrightarrow>
        ss_messages (sns_storage n') \<subseteq>\<^sub>m ms_messages (mn_storage (sys_master s))"
    and sync: "\<And>n' out. sn_step (sec_node (sys_secondaries s ! j)) ev = Some (n', out) \<Longrightarrow> sns_operational n' \<Longrightarrow>
        phase_of n' = phase_step (phase_of (sec_node (sys_secondaries s ! j))) (event_phase ev) \<Longrightarrow>
        ss_messages (sns_storage (sec_node (sys_secondaries s ! j))) \<subseteq>\<^sub>m ss_messages (sns_storage n') \<Longrightarrow>
        (let k = (case synced of None \<Rightarrow> sec_synced (sys_secondaries s ! j) | Some k \<Rightarrow> k)
         in k \<le> length (mn_requests (sys_master s)) \<and>
            (\<forall>i < k. ss_messages (sns_storage n') (word_of_nat i) \<noteq> None))"
  shows "\<exists>s'. sys_secondary j ev synced s = Some s' \<and> sys_ok s' \<and> sys_master s' = sys_master s"
proof -
  let ?sec = "sys_secondaries s ! j"
  have sec: "sec_ok (sys_master s) ?sec" using ok j by (simp add: sys_ok_def)
  have "card (dom (ss_messages (sns_storage (sec_node ?sec)))) < 2 ^ 64"
    using part_card [OF _ l] ok sec by (simp add: sys_ok_def sec_ok_def)
  then have "sn_step_good (sec_node ?sec) ev (sn_step (sec_node ?sec) ev)"
    using sec by (intro sn_step_ok) (simp_all add: sec_ok_def)
  then obtain n' out where n': "sn_step (sec_node ?sec) ev = Some (n', out)" "sn_ok n'"
    "phase_of n' = phase_step (phase_of (sec_node ?sec)) (event_phase ev)"
    "ss_messages (sns_storage (sec_node ?sec)) \<subseteq>\<^sub>m ss_messages (sns_storage n')"
    unfolding sn_step_good_def by blast
  let ?new = "\<lparr>sec_node = n', sec_synced = (case synced of None \<Rightarrow> sec_synced ?sec | Some k \<Rightarrow> k)\<rparr>"
  let ?s = "s\<lparr>sys_secondaries := (sys_secondaries s)[j := ?new]\<rparr>"
  have "sec_ok (sys_master s) ?new"
    using n'(2) part [OF n'(1)] sync [OF n'(1) _ n'(3,4)] by (simp add: sec_ok_def Let_def)
  then have "\<forall>x \<in> set (sys_secondaries ?s). sec_ok (sys_master s) x"
    using ok set_update_subset_insert [of "sys_secondaries s" j ?new] unfolding sys_ok_def by auto
  then have "sys_ok ?s" using ok by (simp add: sys_ok_def)
  moreover have "sys_secondary j ev synced s = Some ?s" using n'(1) by (simp add: sys_secondary_def Let_def)
  ultimately show ?thesis by auto
qed

lemma sys_quiet_ok:
  assumes ok: "sys_ok s" and l: "length (mn_requests (sys_master s)) < 2 ^ 64" and j: "j < length (sys_secondaries s)"
    and q: "quiet ev"
  shows "\<exists>s'. sys_secondary j ev None s = Some s' \<and> sys_ok s' \<and> sys_master s' = sys_master s"
proof (rule sys_secondary_ok [OF ok l j])
  let ?sec = "sys_secondaries s ! j"
  have sec: "sec_ok (sys_master s) ?sec" using ok j by (simp add: sys_ok_def)
  fix n' out
  assume st: "sn_step (sec_node ?sec) ev = Some (n', out)"
  have same: "sns_storage n' = sns_storage (sec_node ?sec)" using quiet_storage [OF st q] .
  then show "ss_messages (sns_storage n') \<subseteq>\<^sub>m ms_messages (mn_storage (sys_master s))"
    using sec by (simp add: sec_ok_def)
  assume op: "sns_operational n'" and ph: "phase_of n' = phase_step (phase_of (sec_node ?sec)) (event_phase ev)"
  then have "sns_operational (sec_node ?sec)"
    using phase_step_Serving [of "phase_of (sec_node ?sec)"] event_phase_quiet [OF q] by (simp add: operational_phase)
  then show "let k = (case None of None \<Rightarrow> sec_synced ?sec | Some k \<Rightarrow> k)
      in k \<le> length (mn_requests (sys_master s)) \<and> (\<forall>i < k. ss_messages (sns_storage n') (word_of_nat i) \<noteq> None)"
    using sec same by (simp add: sec_ok_def)
qed

lemma sys_deliver_ok:
  assumes ok: "sys_ok s" and l: "length (mn_requests (sys_master s)) < 2 ^ 64" and j: "j < length (sys_secondaries s)"
    and m: "ms_messages (mn_storage (sys_master s)) i = Some msg"
  shows "\<exists>s'. sys_secondary j (SN_SessionEvent (MS_Incoming (Incoming_addMessage i msg p) now)) None s = Some s' \<and>
     sys_ok s' \<and> sys_master s' = sys_master s"
proof (rule sys_secondary_ok [OF ok l j])
  let ?sec = "sys_secondaries s ! j"
  have sec: "sec_ok (sys_master s) ?sec" using ok j by (simp add: sys_ok_def)
  fix n' out
  assume st: "sn_step (sec_node ?sec) (SN_SessionEvent (MS_Incoming (Incoming_addMessage i msg p) now)) = Some (n', out)"
  have part: "ss_messages (sns_storage (sec_node ?sec)) \<subseteq>\<^sub>m ms_messages (mn_storage (sys_master s))"
    using sec by (simp add: sec_ok_def)
  have "ss_messages (SecondaryStorage_addMessage i msg (sns_storage (sec_node ?sec))) \<subseteq>\<^sub>m
      ms_messages (mn_storage (sys_master s))"
    unfolding map_le_def
  proof
    fix k
    assume "k \<in> dom (ss_messages (SecondaryStorage_addMessage i msg (sns_storage (sec_node ?sec))))"
    then show "ss_messages (SecondaryStorage_addMessage i msg (sns_storage (sec_node ?sec))) k =
        ms_messages (mn_storage (sys_master s)) k"
      using m part unfolding map_le_def dom_addMessage ss_addMessage_lookup by auto
  qed
  then show "ss_messages (sns_storage n') \<subseteq>\<^sub>m ms_messages (mn_storage (sys_master s))"
    using deliver_storage [OF st] part by auto
  assume op: "sns_operational n'"
    and ph: "phase_of n' = phase_step (phase_of (sec_node ?sec))
        (event_phase (SN_SessionEvent (MS_Incoming (Incoming_addMessage i msg p) now)))"
    and mono: "ss_messages (sns_storage (sec_node ?sec)) \<subseteq>\<^sub>m ss_messages (sns_storage n')"
  have "sns_operational (sec_node ?sec)" using op ph by (simp add: operational_phase)
  then have "sec_synced ?sec \<le> length (mn_requests (sys_master s))"
    "\<forall>k < sec_synced ?sec. ss_messages (sns_storage (sec_node ?sec)) (word_of_nat k) \<noteq> None"
    using sec by (simp_all add: sec_ok_def)
  moreover have "\<forall>k. ss_messages (sns_storage (sec_node ?sec)) k \<noteq> None \<longrightarrow> ss_messages (sns_storage n') k \<noteq> None"
    using mono unfolding map_le_def by (metis domIff)
  ultimately show "let k = (case None of None \<Rightarrow> sec_synced ?sec | Some k \<Rightarrow> k)
      in k \<le> length (mn_requests (sys_master s)) \<and> (\<forall>i < k. ss_messages (sns_storage n') (word_of_nat i) \<noteq> None)"
    by simp
qed

lemma query_gap_filled:
  assumes "sn_ok n" "query_gap n k = Some gap"
  shows "filled_below (sns_storage n) gap"
proof -
  from assms(2) obtain s where s: "sns_session n = Some s" "k < length (mss_waiting s)" "mss_waiting s ! k = Cont_Messages gap"
    by (auto simp: query_gap_def split: option.splits if_splits continuation.splits)
  then have "session_ok (sns_storage n) (sns_operational n) s" using assms(1) by (simp add: sn_ok_def)
  then show ?thesis using s(2,3) unfolding session_ok_def by (cases k) auto
qed

lemma sys_answer_ok:
  assumes ok: "sys_ok s" and l: "length (mn_requests (sys_master s)) < 2 ^ 64" and j: "j < length (sys_secondaries s)"
    and a: "answer_ok (sys_master s) (gap, xs, known)" and q: "query_gap (sec_node (sys_secondaries s ! j)) k = Some gap"
  shows "\<exists>s'. sys_secondary j (SN_SessionEvent (MS_Response k (Got_GetMessages xs))) (Some known) s = Some s' \<and>
     sys_ok s' \<and> sys_master s' = sys_master s"
proof (rule sys_secondary_ok [OF ok l j])
  let ?sec = "sys_secondaries s ! j" and ?M = "ms_messages (mn_storage (sys_master s))"
  let ?st = "sns_storage (sec_node ?sec)"
  have sec: "sec_ok (sys_master s) ?sec" using ok j by (simp add: sys_ok_def)
  have part: "ss_messages ?st \<subseteq>\<^sub>m ?M" using sec by (simp add: sec_ok_def)
  have lx: "length xs \<le> 2 ^ 64" and xs: "\<And>i. i < length xs \<Longrightarrow> ?M (gap + word_of_nat i) = Some (xs ! i)"
    and cnt: "known \<le> length (mn_requests (sys_master s))" "\<And>i. i < known \<Longrightarrow> unat gap \<le> i \<Longrightarrow> i - unat gap < length xs"
    using a by (simp_all add: answer_ok_def)
  fix n' out
  assume st: "sn_step (sec_node ?sec) (SN_SessionEvent (MS_Response k (Got_GetMessages xs))) = Some (n', out)"
  have s': "sns_storage n' = SecondaryStorage_addMessages gap xs ?st" using answer_storage [OF st q] .
  note look = ss_addMessages_lookup [OF lx, of gap ?st]
  have "?M i = Some v" if "ss_messages (sns_storage n') i = Some v" for i v
  proof (cases "ss_messages ?st i")
    case (Some u)
    then have "v = u" using that s' look [of i] by simp
    then show ?thesis using Some part unfolding map_le_def by (metis domI)
  next
    case None
    then have "unat (i - gap) < length xs" "v = xs ! unat (i - gap)"
      using that s' look [of i] by (simp_all split: if_splits)
    then show ?thesis using xs [of "unat (i - gap)"] by simp
  qed
  then show "ss_messages (sns_storage n') \<subseteq>\<^sub>m ?M" unfolding map_le_def by (metis domD)
  have fill: "filled_below ?st gap" using query_gap_filled [OF _ q] sec by (simp add: sec_ok_def)
  have "ss_messages (sns_storage n') (word_of_nat i) \<noteq> None" if i: "i < known" for i
  proof (cases "i < unat gap")
    case True
    then have "ss_messages ?st (word_of_nat i) \<noteq> None" using fill by (simp add: filled_below_def)
    then show ?thesis using s' look [of "word_of_nat i"] by auto
  next
    case False
    have b: "i < 2 ^ 64" using i cnt(1) l by simp
    have "(word_of_nat i :: size_t) - gap = word_of_nat (i - unat gap)" using False by (simp add: of_nat_diff)
    then have "unat ((word_of_nat i :: size_t) - gap) = i - unat gap" using b by (simp add: unat_of_nat)
    then have "unat ((word_of_nat i :: size_t) - gap) < length xs" using cnt(2) [OF i] False by simp
    then show ?thesis using s' look [of "word_of_nat i"] by (simp split: option.split)
  qed
  then show "let k = (case Some known of None \<Rightarrow> sec_synced ?sec | Some k \<Rightarrow> k)
      in k \<le> length (mn_requests (sys_master s)) \<and> (\<forall>i < k. ss_messages (sns_storage n') (word_of_nat i) \<noteq> None)"
    using cnt(1) by simp
qed

lemma sys_master_ok:
  assumes ok: "sys_ok s" and n: "mn_adds (sys_master s) < 2 ^ 31" and l: "Suc (length (mn_requests (sys_master s))) < 2 ^ 64"
  shows "\<exists>s'. sys_step s (Sys_Master ev) = Some s' \<and> sys_ok s' \<and>
     mn_adds (sys_master s') \<le> mn_adds (sys_master s) + connections_of ev \<and>
     length (mn_requests (sys_master s')) = length (mn_requests (sys_master s)) + messages_of ev"
proof -
  let ?m = "sys_master s"
  have m: "mn_ok ?m" using ok by (simp add: sys_ok_def)
  note good = mn_step_ok [OF m n l, of ev]
  from good obtain m' out where st: "mn_step ?m ev = Some (Inr (m', out))" "mn_ok m'"
    "mn_adds m' \<le> mn_adds ?m + connections_of ev" "length (mn_requests m') = length (mn_requests ?m) + messages_of ev"
    unfolding mn_step_good_def by blast
  note mono = mn_step_mono [OF good m st(1)]
  have len: "length (mn_requests ?m) \<le> length (mn_requests m')" using st(4) by simp
  let ?s = "s\<lparr>sys_master := m', sys_sent := sys_sent s @ concat (map sent_of out),
      sys_answers := sys_answers s @ answers_of ?m ev out\<rparr>"
  have "\<forall>sec \<in> set (sys_secondaries s). sec_ok m' sec"
    using ok sec_ok_mono [OF _ mono len] unfolding sys_ok_def by blast
  moreover have "ms_messages (mn_storage m') i = Some msg" if "(i, msg) \<in> set (sys_sent s @ concat (map sent_of out))" for i msg
  proof (cases "(i, msg) \<in> set (sys_sent s)")
    case True
    then have "ms_messages (mn_storage ?m) i = Some msg" using ok by (auto simp: sys_ok_def)
    then show ?thesis using mono unfolding map_le_def by (metis domI)
  next
    case False
    then show ?thesis using mn_step_sent [OF m n l st(1)] that by auto
  qed
  moreover have "answer_ok m' a" if "a \<in> set (sys_answers s @ answers_of ?m ev out)" for a
  proof -
    have "answer_ok ?m a"
    proof (cases "a \<in> set (sys_answers s)")
      case True
      then show ?thesis using ok unfolding sys_ok_def by blast
    next
      case False
      then have "a \<in> set (answers_of ?m ev out)" using that by simp
      then show ?thesis using answers_of_ok [OF m _ st(1), of a] l by simp
    qed
    then show ?thesis by (rule answer_ok_mono [OF _ mono len])
  qed
  ultimately have "sys_ok ?s" using st(2) by (auto simp: sys_ok_def)
  moreover have "sys_step s (Sys_Master ev) = Some ?s" using st(1) by (simp add: sys_step_def)
  ultimately show ?thesis using st(3,4) by auto
qed

lemma sys_step_ok:
  assumes ok: "sys_ok s" and w: "mn_within (sys_master s) (master_events (ev # evs))"
  shows "\<exists>s'. sys_step s ev = Some s' \<and> sys_ok s' \<and> mn_within (sys_master s') (master_events evs)"
proof -
  have n: "mn_adds (sys_master s) < 2 ^ 31" and l: "Suc (length (mn_requests (sys_master s))) < 2 ^ 64"
    using w by (simp_all add: mn_within_def)
  then have l': "length (mn_requests (sys_master s)) < 2 ^ 64" by simp
  show ?thesis
  proof (cases ev)
    case (Sys_Master mev)
    from sys_master_ok [OF ok n l, of mev] w show ?thesis unfolding Sys_Master by (auto simp: mn_within_def)
  next
    case (Sys_Secondary j sev)
    then show ?thesis using sys_quiet_ok [OF ok l', of j sev] ok w
      by (cases "length (sys_secondaries s) \<le> j \<or> \<not> quiet sev") (auto simp: sys_step_def)
  next
    case (Sys_Deliver j k p now)
    show ?thesis
    proof (cases "length (sys_secondaries s) \<le> j \<or> length (sys_sent s) \<le> k")
      case True
      then show ?thesis using ok w Sys_Deliver by (auto simp: sys_step_def)
    next
      case False
      obtain i msg where x: "sys_sent s ! k = (i, msg)" by (cases "sys_sent s ! k")
      then have "(i, msg) \<in> set (sys_sent s)" using False by (metis not_le nth_mem)
      then have "ms_messages (mn_storage (sys_master s)) i = Some msg" using ok by (auto simp: sys_ok_def)
      from sys_deliver_ok [OF ok l' _ this, of j p now] False w x show ?thesis
        unfolding Sys_Deliver by (auto simp: sys_step_def)
    qed
  next
    case (Sys_Answer j k n)
    show ?thesis
    proof (cases "length (sys_secondaries s) \<le> j \<or> length (sys_answers s) \<le> k")
      case True
      then show ?thesis using ok w Sys_Answer by (auto simp: sys_step_def)
    next
      case False
      obtain gap xs known where x: "sys_answers s ! k = (gap, xs, known)" by (cases "sys_answers s ! k")
      then have "(gap, xs, known) \<in> set (sys_answers s)" using False by (metis not_le nth_mem)
      then have a: "answer_ok (sys_master s) (gap, xs, known)" using ok by (auto simp: sys_ok_def)
      show ?thesis
      proof (cases "query_gap (sec_node (sys_secondaries s ! j)) n = Some gap")
        case True
        from sys_answer_ok [OF ok l' _ a True] False True w x show ?thesis
          unfolding Sys_Answer by (auto simp: sys_step_def)
      next
        case q: False
        then show ?thesis using ok w False x unfolding Sys_Answer by (auto simp: sys_step_def)
      qed
    qed
  qed
qed

lemma sys_run_ok:
  assumes "sys_ok s" "mn_within (sys_master s) (master_events evs)"
  shows "\<exists>s'. run_steps sys_run_step (Some s) evs = Some s' \<and> sys_ok s' \<and> mn_within (sys_master s') []"
  using assms
proof (induction evs arbitrary: s)
  case (Cons ev evs)
  from sys_step_ok [OF Cons.prems] obtain s1 where
    s1: "sys_step s ev = Some s1" "sys_ok s1" "mn_within (sys_master s1) (master_events evs)" by blast
  from Cons.IH [OF s1(2,3)] s1(1) show ?case by (simp add: sys_run_step_def)
qed simp

lemma sys_create_ok: "sys_ok (sys_create names)" "sys_master (sys_create names) = MasterNode_create"
proof -
  have "sec_ok MasterNode_create \<lparr>sec_node = sn_begin name, sec_synced = 0\<rparr>" for name
    using sn_begin_ok(1) [of name] by (simp add: sec_ok_def sn_begin_ok(3) SecondaryStorage_create_def)
  then show "sys_ok (sys_create names)" using mn_ok_create(1) by (auto simp: sys_ok_def sys_create_def)
qed (simp add: sys_create_def)

text \<open>What a secondary shows, compared with the master.\<close>

lemma sec_ok_view:
  assumes ok: "mn_ok m" and l: "length (mn_requests m) < 2 ^ 64" and sec: "sec_ok m sec"
  shows "\<exists>xs. SecondaryStorage_getContiguousChunk (sns_storage (sec_node sec)) 0 = Some xs \<and>
     prefix xs (mn_messages m) \<and>
     (sns_operational (sec_node sec) \<longrightarrow> sec_synced sec \<le> length xs) \<and>
     ((\<forall>i < length (mn_messages m). ss_messages (sns_storage (sec_node sec)) (word_of_nat i) \<noteq> None) \<longrightarrow>
        xs = mn_messages m)"
proof -
  let ?st = "sns_storage (sec_node sec)"
  have part: "ss_messages ?st \<subseteq>\<^sub>m ms_messages (mn_storage m)" using sec by (simp add: sec_ok_def)
  obtain xs where xs: "SecondaryStorage_getContiguousChunk ?st 0 = Some xs"
    using secondary_chunk [OF part_card [OF ok l part]] by blast
  have all: "MasterStorage_getContiguousChunk (mn_storage m) 0 = Some (mn_messages m)"
    using store_ok_chunk [OF _ l] ok by (simp add: mn_ok_def)
  have pre: "prefix xs (mn_messages m)" using replica.part_prefix [OF part xs all] .
  have gap: "ss_messages ?st (word_of_nat (length xs)) = None" using secondary_store.chunk_maximal [OF xs] by simp
  have long: "k \<le> length xs" if "\<forall>i < k. ss_messages ?st (word_of_nat i) \<noteq> None" for k
  proof (rule ccontr)
    assume "\<not> k \<le> length xs"
    then have "ss_messages ?st (word_of_nat (length xs)) \<noteq> None" using that by simp
    then show False using gap by contradiction
  qed
  have "sec_synced sec \<le> length xs" if "sns_operational (sec_node sec)"
    using long sec that unfolding sec_ok_def by blast
  moreover have "xs = mn_messages m"
    if "\<forall>i < length (mn_messages m). ss_messages ?st (word_of_nat i) \<noteq> None"
    using long [OF that] pre by (metis not_equal_is_parallel parallelE prefix_length_le prefix_order.antisym
        prefix_length_prefix prefix_order.refl)
  ultimately show ?thesis using xs pre by blast
qed

section \<open>Properties\<close>



end
