(* ===== verification/MasterCalls.thy ===== *)
theory MasterCalls
  imports Replication
begin

text \<open>
  What a step of the master asks of its endpoints: which calls it makes for a request and where
  they go, which promises it answers, and how its list of unanswered calls, its endpoints and its
  posted tasks follow.
\<close>

section \<open>The calls of a request\<close>

fun call_ids :: "ar_out list \<Rightarrow> size_t list" where
  "call_ids [] = []"
| "call_ids (AR_Send e i k m # out) = i # call_ids out"
| "call_ids (AR_Wait # out) = call_ids out"

lemma call_ids_append [simp]: "call_ids (xs @ ys) = call_ids xs @ call_ids ys"
  by (induction xs rule: call_ids.induct) simp_all

lemma send_outs_ids: "call_ids (send_outs r ss) = send_ids r ss"
  by (induction ss) (simp_all add: send_outs_def send_ids_def)

text \<open>The calls go to the secondaries of the snapshot.\<close>

definition calls_within :: "SecondarySnapshot list \<Rightarrow> ar_out list \<Rightarrow> bool" where
  "calls_within ss out \<longleftrightarrow>
     (\<forall>e i k m. AR_Send e i k m \<in> set out \<longrightarrow> (\<exists>s \<in> set ss. e = snap_endpoint s \<and> i = snap_id s))"

lemma calls_within_Nil [simp]: "calls_within ss []"
  by (simp add: calls_within_def)

lemma sendRequestToSecondaries_calls:
  assumes "sendRequestToSecondaries r = (r', out)"
  shows "ar_sent r' = ar_sent r @ call_ids out" "calls_within (ar_secondariesSnapshot r) out"
proof -
  let ?ss = "ar_secondariesSnapshot r"
  have c: "calls_within ?ss (send_outs r ?ss)" "calls_within ?ss (send_outs r ?ss @ [AR_Wait])"
    by (auto simp: calls_within_def send_outs_def)
  show "ar_sent r' = ar_sent r @ call_ids out" "calls_within ?ss out"
    using assms c
    by (auto simp: sendRequestToSecondaries_def sendLoop_eq send_outs_ids Let_def split: if_splits)
qed

lemma requestMark_fields:
  "requestMarkSuccess r = Inr r' \<Longrightarrow> ar_sent r' = ar_sent r \<and> ar_secondariesSnapshot r' = ar_secondariesSnapshot r"
  "requestMarkFailure r = Inr r' \<Longrightarrow> ar_sent r' = ar_sent r \<and> ar_secondariesSnapshot r' = ar_secondariesSnapshot r"
  by (auto simp: requestMarkSuccess_def requestMarkFailure_def split: if_splits sum.splits)

lemma ar_start_calls:
  assumes "ar_start (Some ss) r = Inr (r', out)"
  shows "ar_sent r' = ar_sent r @ call_ids out" "calls_within ss out"
proof -
  define r1 where "r1 = snd (updateData (Some ss) r)"
  have r1: "updateData (Some ss) r = (True, r1)" "ar_sent r1 = ar_sent r" "ar_secondariesSnapshot r1 = ss"
    by (simp_all add: r1_def updateData_def)
  have "\<exists>r2. ar_sent r2 = ar_sent r \<and> ar_secondariesSnapshot r2 = ss \<and>
      (r2 = r' \<and> out = [] \<or> sendRequestToSecondaries r2 = (r', out))"
  proof (cases "ar_writeConcern r1 \<le> satisfiedWriteConcern r1")
    case True
    then obtain r2 where r2: "requestMarkSuccess r1 = Inr r2"
      using assms r1(1) by (cases "requestMarkSuccess r1") (simp_all add: ar_start_def)
    then have "r2 = r' \<and> out = [] \<or> sendRequestToSecondaries r2 = (r', out)"
      using assms r1(1) True by (auto simp: ar_start_def split: if_splits)
    then show ?thesis using requestMark_fields(1) [OF r2] r1(2,3) by auto
  next
    case False
    then have "sendRequestToSecondaries r1 = (r', out)" using assms r1(1) by (simp add: ar_start_def)
    then show ?thesis using r1(2,3) by blast
  qed
  then show "ar_sent r' = ar_sent r @ call_ids out" "calls_within ss out"
    using sendRequestToSecondaries_calls by auto
qed

text \<open>The calls that are left when an event takes its answer.\<close>

fun calls_left :: "ar_event \<Rightarrow> size_t list \<Rightarrow> size_t list" where
  "calls_left (AR_Response n v s) ids = (if n < length ids then take_nth n ids else ids)"
| "calls_left (AR_WaitOver s) ids = ids"

fun event_snapshot :: "ar_event \<Rightarrow> SecondarySnapshot list option" where
  "event_snapshot (AR_Response n v s) = s"
| "event_snapshot (AR_WaitOver s) = s"

lemma ar_step_calls:
  assumes "ar_step r ev = Inr (r', out)" "event_snapshot ev = Some ss"
  shows "ar_sent r' = calls_left ev (ar_sent r) @ call_ids out" "calls_within ss out"
proof -
  have "ar_sent r' = calls_left ev (ar_sent r) @ call_ids out \<and> calls_within ss out"
  proof (cases ev)
    case (AR_Response n v s)
    show ?thesis
    proof (cases "n < length (ar_sent r)")
      case True
      let ?q = "r\<lparr>ar_sent := take n (ar_sent r) @ drop (Suc n) (ar_sent r)\<rparr>"
      obtain r1 where r1: "ar_onResponseRecieved (ar_sent r ! n) v ?q = Inr r1"
        using assms(1) AR_Response True
        by (cases "ar_onResponseRecieved (ar_sent r ! n) v ?q") (simp_all add: ar_onResponse_def Let_def)
      have s1: "ar_sent r1 = take_nth n (ar_sent r)" using ar_onResponseRecieved_sent [OF r1] by (simp add: take_nth_def)
      show ?thesis
        using assms AR_Response True r1 s1 ar_start_calls [of ss "r1\<lparr>ar_pendingWrites := ar_pendingWrites r1 - 1\<rparr>" r' out]
        by (auto simp: ar_onResponse_def Let_def split: if_splits)
    next
      case False
      then show ?thesis using assms AR_Response by (simp add: ar_onResponse_def)
    qed
  next
    case (AR_WaitOver s)
    then show ?thesis using assms ar_start_calls [of ss "r\<lparr>ar_waits := ar_waits r - 1\<rparr>" r' out]
      by (auto split: if_splits)
  qed
  then show "ar_sent r' = calls_left ev (ar_sent r) @ call_ids out" "calls_within ss out" by blast+
qed


section \<open>The calls of a step of the master\<close>

fun mn_calls :: "nat \<Rightarrow> mn_out list \<Rightarrow> size_t list" where
  "mn_calls q [] = []"
| "mn_calls q (MN_Request q' y # out) = (if q' = q then call_ids [y] else []) @ mn_calls q out"
| "mn_calls q (_ # out) = mn_calls q out"

lemma mn_calls_request [simp]: "mn_calls p (map (MN_Request q) out) = (if p = q then call_ids out else [])"
  by (induction out rule: call_ids.induct) auto

text \<open>The calls that wait for an answer before the new ones are made.\<close>

fun answered_calls :: "mn_event \<Rightarrow> nat \<Rightarrow> size_t list \<Rightarrow> size_t list" where
  "answered_calls (MN_Answer q n v) p ids = (if p = q \<and> n < length ids then take_nth n ids else ids)"
| "answered_calls _ p ids = ids"

definition request_sent :: "MasterNode \<Rightarrow> nat \<Rightarrow> size_t list" where
  "request_sent m p = (if p < length (mn_requests m) then ar_sent (run_request (mn_requests m ! p)) else [])"

definition request_oks :: "MasterNode \<Rightarrow> nat \<Rightarrow> size_t list" where
  "request_oks m p = (if p < length (mn_requests m) then run_oks (mn_requests m ! p) else [])"

fun answer_oks :: "mn_event \<Rightarrow> nat \<Rightarrow> size_t list \<Rightarrow> size_t list" where
  "answer_oks (MN_Answer q n (Some OK)) p ids = (if p = q \<and> n < length ids then [ids ! n] else [])"
| "answer_oks _ p ids = []"

definition request_call :: "MasterNode \<Rightarrow> nat \<Rightarrow> size_t \<Rightarrow> size_t \<Rightarrow> string \<Rightarrow> nat \<Rightarrow> bool" where
  "request_call m e i k msg p \<longleftrightarrow>
     p < length (mn_requests m) \<and> e < length (mn_endpoints m) \<and> mn_endpoints m ! e = i \<and>
     k = ar_messageId (run_request (mn_requests m ! p)) \<and> msg = ar_message (run_request (mn_requests m ! p))"

lemma snapshot_entry:
  assumes "registry_ok m" "s \<in> set (secondariesSnapshot m)"
  shows "snap_endpoint s < length (mn_endpoints m) \<and> mn_endpoints m ! snap_endpoint s = snap_id s"
proof -
  from assms(2) obtain i x where x: "(i, x) \<in> set (mn_secondaries m)" "snap_id s = i" "snap_endpoint s = sn_endpoint x"
    by (auto simp: secondariesSnapshot_def)
  then have "map_of (mn_secondaries m) i = Some x" using assms(1) by (simp add: registry_ok_def)
  then have "entry_ok (mn_endpoints m) i x" using assms(1) by (simp add: registry_ok_def)
  then show ?thesis using x by (simp add: entry_ok_def)
qed

lemma calls_within_entry:
  "calls_within (secondariesSnapshot m) out \<Longrightarrow> registry_ok m \<Longrightarrow> AR_Send e i k msg \<in> set out \<Longrightarrow>
     e < length (mn_endpoints m) \<and> mn_endpoints m ! e = i"
  unfolding calls_within_def using snapshot_entry by blast

definition mn_step_calls_ok :: "MasterNode \<Rightarrow> mn_event \<Rightarrow> MasterNode \<Rightarrow> mn_out list \<Rightarrow> bool" where
  "mn_step_calls_ok m ev m' out \<longleftrightarrow>
     (\<forall>p. request_sent m' p = answered_calls ev p (request_sent m p) @ mn_calls p out) \<and>
     (\<forall>p. request_oks m' p = request_oks m p @ answer_oks ev p (request_sent m p)) \<and>
     (\<forall>p e i k msg. MN_Request p (AR_Send e i k msg) \<in> set out \<longrightarrow> request_call m' e i k msg p)"

lemma mn_step_calls_none:
  assumes "mn_requests m' = mn_requests m" "\<And>q y. MN_Request q y \<notin> set out"
    "\<And>p ids. answered_calls ev p ids = ids" "\<And>p ids. answer_oks ev p ids = []"
  shows "mn_step_calls_ok m ev m' out"
proof -
  have "mn_calls p out = []" for p using assms(2)
  proof (induction out)
    case (Cons x xs)
    have "mn_calls p xs = []" using Cons.prems by (intro Cons.IH) auto
    then show ?case using Cons.prems by (cases x) auto
  qed simp
  then show ?thesis using assms by (simp add: mn_step_calls_ok_def request_sent_def request_oks_def)
qed

lemma mn_request_calls:
  assumes reg: "registry_ok m" and st: "mn_request q aev m = Inr (m', out)"
    and ss: "event_snapshot aev = Some (secondariesSnapshot m)"
    and ev: "\<And>p ids. answered_calls ev p ids = (if p = q then calls_left aev ids else ids)"
      "\<And>p r. answer_oks ev p (ar_sent r) = (if p = q then event_oks r aev else [])"
      "\<And>p. answer_oks ev p [] = []" "calls_left aev [] = []"
  shows "mn_step_calls_ok m ev m' out"
proof (cases "q < length (mn_requests m)")
  case True
  let ?run = "mn_requests m ! q"
  from st True obtain run' out' where r: "mn_request_step ?run aev = Inr (run', out')" "out = map (MN_Request q) out'"
    "m' = m\<lparr>mn_requests := (mn_requests m)[q := run']\<rparr>"
    by (auto simp: mn_request_def split: sum.splits)
  then obtain r' where ar: "ar_step (run_request ?run) aev = Inr (r', out')" "run_request run' = r'"
    "run_oks run' = run_oks ?run @ event_oks (run_request ?run) aev"
    by (auto simp: mn_request_step_def split: sum.splits)
  note calls = ar_step_calls [OF ar(1) ss]
  have "request_call m' e i k msg p" if "MN_Request p (AR_Send e i k msg) \<in> set out" for p e i k msg
  proof -
    have a: "p = q" "AR_Send e i k msg \<in> set out'" using that r(2) by auto
    have "k = ar_messageId (run_request ?run)" "msg = ar_message (run_request ?run)"
      using ar_step_outs [OF ar(1) a(2)] by auto
    then show ?thesis
      using a(1) True calls_within_entry [OF calls(2) reg a(2)] ar_const_step [OF ar(1)] ar(2)
      by (simp add: request_call_def r(3) ar_const_def)
  qed
  then show ?thesis
    using True calls(1) ar r(2,3) ev by (auto simp: mn_step_calls_ok_def request_sent_def request_oks_def)
next
  case False
  then have "m' = m" "out = []" using st by (simp_all add: mn_request_def)
  then show ?thesis using False ev by (auto simp: mn_step_calls_ok_def request_sent_def request_oks_def)
qed

lemma mn_addMessage_calls:
  assumes reg: "registry_ok m" and st: "mn_addMessage message w m = Inr (f, m', out)"
  shows "mn_step_calls_ok m (MN_AddMessage message w) m' out"
proof -
  let ?q = "length (mn_requests m)" and ?ss = "secondariesSnapshot m"
  obtain i v sto where a: "MasterStorage_addMessage message (mn_storage m) = ((i, v), sto)"
    by (metis prod.collapse)
  let ?w = "if w \<le> 1 then 0 else w - 1"
  obtain run where run: "ar_begin i v ?w (Some ?ss) = Inr run" "out = map (MN_Request ?q) (run_out run)"
    "m' = m\<lparr>mn_storage := sto, mn_requests := mn_requests m @ [run]\<rparr>"
    using st by (auto simp: mn_addMessage_def a Let_def split: sum.splits)
  then obtain r where r: "ar_start (Some ?ss) (AddMessageRequest_create i v ?w) = Inr (r, run_out run)"
    "run_request run = r" "run_oks run = []"
    by (auto simp: ar_begin_def split: sum.splits)
  note calls = ar_start_calls [OF r(1)]
  have "request_call m' e j k msg p" if "MN_Request p (AR_Send e j k msg) \<in> set out" for p e j k msg
  proof -
    have x: "p = ?q" "AR_Send e j k msg \<in> set (run_out run)" using that run(2) by auto
    have "k = i" "msg = v" using ar_start_outs [OF r(1) x(2)] by (simp_all add: AddMessageRequest_create_def)
    then show ?thesis
      using x(1) calls_within_entry [OF calls(2) reg x(2)] ar_const_start [OF r(1)] r(2)
      by (simp add: request_call_def run(3) ar_const_def AddMessageRequest_create_def)
  qed
  then show ?thesis
    using calls(1) r(2,3) run(2,3)
    by (auto simp: mn_step_calls_ok_def request_sent_def request_oks_def nth_append AddMessageRequest_create_def)
qed

lemma runTask_calls:
  assumes "runTask t m = Some (m', out)"
  shows "mn_requests m' = mn_requests m" "MN_Request q y \<notin> set out"
  using assms
  by (cases t; auto simp: addSecondaryImpl_def Let_def onInvalidated_def onIncomingGetMessages_def
      onIncomingSecondaryNodeReady_def split: option.splits)+

lemma onSignal_calls: "MN_Request q y \<notin> set (snd (onSignal k i sg m))"
  by (cases "(k, i, sg, m)" rule: onSignal.cases) simp_all

lemma mn_step_calls:
  assumes reg: "registry_ok m" and st: "mn_step m ev = Some (Inr (m', out))"
  shows "mn_step_calls_ok m ev m' out"
proof (cases ev)
  case MN_AddSecondary
  then show ?thesis using st by (intro mn_step_calls_none) (auto simp: addSecondary_def)
next
  case (MN_RunPosted n)
  have "mn_requests m' = mn_requests m \<and> (\<forall>q y. MN_Request q y \<notin> set out)"
    using st MN_RunPosted runTask_calls by (fastforce split: if_splits)
  then show ?thesis using MN_RunPosted by (intro mn_step_calls_none) auto
next
  case (MN_Signal k sg)
  have "mn_requests m' = mn_requests m \<and> (\<forall>q y. MN_Request q y \<notin> set out)"
  proof (cases "length (mn_endpoints m) \<le> k")
    case False
    then have "(m', out) = onSignal k (mn_endpoints m ! k) sg m" using st MN_Signal by simp
    then have "m' = fst (onSignal k (mn_endpoints m ! k) sg m)" "out = snd (onSignal k (mn_endpoints m ! k) sg m)"
      by (metis fst_conv, metis snd_conv)
    then show ?thesis using onSignal_calls by (simp add: onSignal_fields)
  qed (use st MN_Signal in simp)
  then show ?thesis using MN_Signal by (intro mn_step_calls_none) auto
next
  case (MN_AddMessage message w)
  then obtain f where "mn_addMessage message w m = Inr (f, m', out)"
    using st by (cases "mn_addMessage message w m") auto
  then show ?thesis using mn_addMessage_calls [OF reg] MN_AddMessage by blast
next
  case (MN_Answer q n v)
  let ?aev = "AR_Response n v (Some (secondariesSnapshot m))"
  have "mn_request q ?aev m = Inr (m', out)" using st MN_Answer by simp
  moreover have "answer_oks ev p (ar_sent r) = (if p = q then event_oks r ?aev else [])" for p r
    unfolding MN_Answer event_oks_def
  proof (cases v)
    case (Some x)
    then show "answer_oks (MN_Answer q n v) p (ar_sent r) = (if p = q then (case ?aev of
        AR_Response n (Some OK) _ \<Rightarrow> if n < length (ar_sent r) then [ar_sent r ! n] else [] | _ \<Rightarrow> []) else [])"
      by (cases x) simp_all
  qed simp
  moreover have "answer_oks ev p [] = []" for p
    unfolding MN_Answer by (cases "(MN_Answer q n v, p, [] :: size_t list)" rule: answer_oks.cases) simp_all
  ultimately show ?thesis by (intro mn_request_calls [OF reg, of q ?aev]) (simp_all add: MN_Answer)
next
  case (MN_WaitOver q)
  let ?aev = "AR_WaitOver (Some (secondariesSnapshot m))"
  have "mn_request q ?aev m = Inr (m', out)" using st MN_WaitOver by simp
  from mn_request_calls [OF reg this, of ev] show ?thesis by (auto simp: MN_WaitOver event_oks_def)
qed


section \<open>Endpoints, tasks and answers\<close>

definition runs_task :: "MasterNode \<Rightarrow> mn_event \<Rightarrow> mn_task \<Rightarrow> bool" where
  "runs_task m ev t \<longleftrightarrow> (\<exists>n < length (mn_posted m). ev = MN_RunPosted n \<and> mn_posted m ! n = t)"

lemma mn_step_runs:
  assumes "mn_step m (MN_RunPosted n) = Some (Inr (m', out))" "n < length (mn_posted m)"
  shows "runTask (mn_posted m ! n) (m\<lparr>mn_posted := take_nth n (mn_posted m)\<rparr>) = Some (m', out)"
  using assms by (auto simp: take_nth_def)

lemma mn_step_signals:
  assumes "mn_step m (MN_Signal k sg) = Some (Inr (m', out))" "k < length (mn_endpoints m)"
  shows "m' = fst (onSignal k (mn_endpoints m ! k) sg m)" "out = snd (onSignal k (mn_endpoints m ! k) sg m)"
  using assms by (auto simp: prod_eq_iff)

lemma mn_step_cases:
  assumes st: "mn_step m ev = Some (Inr (m', out))"
  obtains (same) "mn_endpoints m' = mn_endpoints m" "mn_posted m' = mn_posted m"
      "\<And>q. (\<exists>x. q = MN_RunEndpoint x) \<or> (\<exists>r a. q = MN_SetPromise r a) \<or> (\<exists>r. q = MN_DropPromise r) \<Longrightarrow> q \<notin> set out"
      "\<And>t. \<not> runs_task m ev t" "\<And>k sg. ev = MN_Signal k sg \<Longrightarrow> length (mn_endpoints m) \<le> k"
    | (accepted) "ev = MN_AddSecondary" "mn_endpoints m' = mn_endpoints m"
      "mn_posted m' = mn_posted m @ [T_AddSecondary]" "out = []"
    | (task) n where "ev = MN_RunPosted n" "n < length (mn_posted m)"
      "runTask (mn_posted m ! n) (m\<lparr>mn_posted := take_nth n (mn_posted m)\<rparr>) = Some (m', out)"
    | (signal) k sg where "ev = MN_Signal k sg" "k < length (mn_endpoints m)"
      "m' = fst (onSignal k (mn_endpoints m ! k) sg m)" "out = snd (onSignal k (mn_endpoints m ! k) sg m)"
proof (cases ev)
  case MN_AddSecondary
  then show ?thesis using st by (intro accepted) (auto simp: addSecondary_def)
next
  case (MN_RunPosted n)
  show ?thesis
  proof (cases "n < length (mn_posted m)")
    case True
    then show ?thesis using task [of n] MN_RunPosted mn_step_runs st by blast
  next
    case False
    then show ?thesis using st MN_RunPosted by (intro same) (simp_all add: runs_task_def)
  qed
next
  case (MN_Signal k sg)
  show ?thesis
  proof (cases "k < length (mn_endpoints m)")
    case True
    then show ?thesis using signal [of k sg] MN_Signal mn_step_signals st by blast
  next
    case False
    then show ?thesis using st MN_Signal by (intro same) (simp_all add: runs_task_def)
  qed
next
  case (MN_AddMessage message w)
  then obtain f where f: "mn_addMessage message w m = Inr (f, m', out)"
    using st by (cases "mn_addMessage message w m") auto
  then have "\<exists>p y. x = MN_Request p y" if "x \<in> set out" for x
    using that by (auto simp: mn_addMessage_def Let_def split: prod.splits sum.splits)
  then show ?thesis using mn_addMessage_fields [OF f] MN_AddMessage by (intro same) (fastforce simp: runs_task_def)+
next
  case (MN_Answer q n v)
  then have r: "mn_request q (AR_Response n v (Some (secondariesSnapshot m))) m = Inr (m', out)" using st by simp
  then have "\<exists>p y. x = MN_Request p y" if "x \<in> set out" for x
    using that by (auto simp: mn_request_def split: if_splits sum.splits)
  then show ?thesis using mn_request_fields [OF r] MN_Answer by (intro same) (fastforce simp: runs_task_def)+
next
  case (MN_WaitOver q)
  then have r: "mn_request q (AR_WaitOver (Some (secondariesSnapshot m))) m = Inr (m', out)" using st by simp
  then have "\<exists>p y. x = MN_Request p y" if "x \<in> set out" for x
    using that by (auto simp: mn_request_def split: if_splits sum.splits)
  then show ?thesis using mn_request_fields [OF r] MN_WaitOver by (intro same) (fastforce simp: runs_task_def)+
qed

lemma runTask_endpoints:
  assumes "runTask t m = Some (m', out)"
  shows "mn_endpoints m' = mn_endpoints m @ (if t = T_AddSecondary then [mn_secondaryIdCounter m] else [])"
    "mn_posted m' = mn_posted m"
  using assms
  by (cases t; auto simp: addSecondaryImpl_def Let_def onInvalidated_def onIncomingGetMessages_def
      onIncomingSecondaryNodeReady_def split: option.splits)+

lemma mn_step_endpoints:
  assumes st: "mn_step m ev = Some (Inr (m', out))"
  shows "mn_endpoints m' = mn_endpoints m @ (if runs_task m ev T_AddSecondary then [mn_secondaryIdCounter m] else [])"
  using st
proof (cases rule: mn_step_cases)
  case (task n)
  then show ?thesis using runTask_endpoints(1) [OF task(3)] by (auto simp: runs_task_def)
qed (auto simp: runs_task_def onSignal_fields)

lemma mn_step_tasks:
  assumes st: "mn_step m ev = Some (Inr (m', out))" and t: "T_GetMessages gap (e, p) \<in> set (mn_posted m')"
  shows "T_GetMessages gap (e, p) \<in> set (mn_posted m) \<or>
     ev = MN_Signal e (Sig_Incoming (Incoming_getMessages gap p)) \<and> e < length (mn_endpoints m)"
  using st
proof (cases rule: mn_step_cases)
  case (task n)
  have "mn_posted m' = take_nth n (mn_posted m)" using runTask_endpoints(2) [OF task(3)] by simp
  then show ?thesis using t by (auto simp: take_nth_def dest: in_set_takeD in_set_dropD)
next
  case (signal k sg)
  then show ?thesis using t
    by (cases "(k, mn_endpoints m ! k, sg, m)" rule: onSignal.cases) (auto simp: mn_post_def)
qed (use t in auto)

text \<open>An answer to a query is the one the system remembers.\<close>

lemma mn_step_answers:
  assumes st: "mn_step m ev = Some (Inr (m', out))" and x: "MN_SetPromise (e, p) (A_GetMessages xs) \<in> set out"
  shows "\<exists>gap. T_GetMessages gap (e, p) \<in> set (mn_posted m) \<and>
     (gap, xs, length (mn_requests m)) \<in> set (answers_of m ev out)"
  using st
proof (cases rule: mn_step_cases)
  case (task n)
  obtain gap r where t: "mn_posted m ! n = T_GetMessages gap r"
    using task(3) x by (cases "mn_posted m ! n")
      (auto simp: addSecondaryImpl_def Let_def onIncomingSecondaryNodeReady_def split: option.splits)
  then have o: "out = [MN_SetPromise r (A_GetMessages xs)]" "r = (e, p)"
    using task(3) x by (auto simp: onIncomingGetMessages_def split: option.splits)
  then have "T_GetMessages gap (e, p) \<in> set (mn_posted m)" using t task(2) by (metis nth_mem)
  then show ?thesis using o t task(1,2) by (auto simp: answers_of_def)
next
  case (signal k sg)
  then show ?thesis using x by (cases "(k, mn_endpoints m ! k, sg, m)" rule: onSignal.cases) auto
qed (use x in auto)

lemma mn_step_sends:
  "MN_Request p (AR_Send e i k msg) \<in> set out \<Longrightarrow> (k, msg) \<in> set (concat (map sent_of out))"
  by (induction out) auto

end
