(* ===== verification/EndpointSteps.thy ===== *)
theory EndpointSteps
  imports Endpoint
begin

text \<open>
  What one step of an endpoint does to the frames it holds and to what its managers remember:
  the lemmas the composition of two endpoints (theory \<open>Link\<close>) is built on. A frame is held
  by an endpoint from the moment it is built (the delayed sends), through the lambdas
  \<^verbatim>\<open>writeFrame\<close> posted, to the queue and the running write of the socket.
\<close>

section \<open>The frames a socket holds\<close>

fun piece_data :: "frame_piece \<Rightarrow> byte list" where
  "piece_data OutcomingFrameSizeRef = []"
| "piece_data (Piece b) = b"

definition current_frames :: "SocketWrapper \<Rightarrow> buffer_seq list" where
  "current_frames s = (case sw_current s of None \<Rightarrow> [] | Some (ps, _) \<Rightarrow> [map piece_data (tl ps)])"

definition sock_frames :: "SocketWrapper \<Rightarrow> buffer_seq list" where
  "sock_frames s = current_frames s @ map pw_frame (sw_pendingWrites s)"

text \<open>The running write is the frame size and the pieces of one frame.\<close>

definition current_ok :: "SocketWrapper \<Rightarrow> bool" where
  "current_ok s \<longleftrightarrow>
     (\<forall>ps c. sw_current s = Some (ps, c) \<longrightarrow>
        (\<exists>f. ps = OutcomingFrameSizeRef # map Piece f \<and> sw_outcomingFrameSize s = word_of_nat (frame_size f)))"

lemma piece_data_Piece [simp]: "map (piece_data \<circ> Piece) f = f"
  by (induction f) simp_all

lemma current_frames_update [simp]:
  "current_frames (s\<lparr>sw_pendingWrites := w\<rparr>) = current_frames s"
  "current_frames (s\<lparr>sw_invalidated := b\<rparr>) = current_frames s"
  "current_frames (s\<lparr>sw_alive := b\<rparr>) = current_frames s"
  "current_frames (s\<lparr>sw_reading := r\<rparr>) = current_frames s"
  "current_frames (s\<lparr>sw_writeInProgress := b\<rparr>) = current_frames s"
  "current_frames (s\<lparr>sw_incomingFrameSize := n\<rparr>) = current_frames s"
  "current_frames (s\<lparr>sw_incomingFrameBuffer := f\<rparr>) = current_frames s"
  "current_frames (s\<lparr>sw_current := None\<rparr>) = []"
  by (simp_all add: current_frames_def)

lemma sock_frames_update [simp]:
  "sock_frames (s\<lparr>sw_invalidated := b\<rparr>) = sock_frames s"
  "sock_frames (s\<lparr>sw_alive := b\<rparr>) = sock_frames s"
  "sock_frames (s\<lparr>sw_reading := r\<rparr>) = sock_frames s"
  "sock_frames (s\<lparr>sw_writeInProgress := b\<rparr>) = sock_frames s"
  "sock_frames (s\<lparr>sw_incomingFrameSize := n\<rparr>) = sock_frames s"
  "sock_frames (s\<lparr>sw_incomingFrameBuffer := f\<rparr>) = sock_frames s"
  by (simp_all add: sock_frames_def)

lemma current_ok_update [simp]:
  "current_ok (s\<lparr>sw_pendingWrites := w\<rparr>) = current_ok s"
  "current_ok (s\<lparr>sw_invalidated := b\<rparr>) = current_ok s"
  "current_ok (s\<lparr>sw_alive := b\<rparr>) = current_ok s"
  "current_ok (s\<lparr>sw_reading := r\<rparr>) = current_ok s"
  "current_ok (s\<lparr>sw_writeInProgress := b\<rparr>) = current_ok s"
  "current_ok (s\<lparr>sw_incomingFrameSize := n\<rparr>) = current_ok s"
  "current_ok (s\<lparr>sw_incomingFrameBuffer := f\<rparr>) = current_ok s"
  "current_ok (s\<lparr>sw_current := None\<rparr>)"
  by (simp_all add: current_ok_def)

text \<open>The bytes of the running write are its frame behind its size.\<close>

lemma current_write_framed:
  assumes "current_ok s" "sw_current s = Some (ps, c)"
  shows "\<exists>f. current_frames s = [f] \<and> concat (map (piece_bytes s) ps) = framed f"
proof -
  from assms obtain f where f: "ps = OutcomingFrameSizeRef # map Piece f"
    "sw_outcomingFrameSize s = word_of_nat (frame_size f)"
    unfolding current_ok_def by blast
  then have "concat (map (piece_bytes s) ps) = framed f" by (simp only: framed_current framed_def)
  moreover have "current_frames s = [f]" using assms(2) f by (simp add: current_frames_def)
  ultimately show ?thesis by blast
qed

text \<open>What no output of an operation is, when it neither reads a frame nor completes a write.\<close>

definition plain_outs :: "sock_out list \<Rightarrow> bool" where
  "plain_outs out \<longleftrightarrow> sock_sent out = [] \<and> sock_emitted out = []"

lemma plain_outs_simps [simp]:
  "plain_outs []" "plain_outs (xs @ ys) \<longleftrightarrow> plain_outs xs \<and> plain_outs ys"
  "plain_outs (Queued w # xs) = plain_outs xs" "plain_outs (Callback c r # xs) = plain_outs xs"
  "plain_outs (Closed # xs) = plain_outs xs" "plain_outs (Emit_invalidated # xs) = plain_outs xs"
  "plain_outs (map (\<lambda>w. Callback (pw_callback w) True) ws)"
  by (auto simp: plain_outs_def)

lemma checkPendingWrites_frames:
  assumes "current_ok s" "\<not> sw_writeInProgress s \<Longrightarrow> \<not> sw_invalidated s \<Longrightarrow> sw_current s = None"
  shows "current_ok (fst (checkPendingWrites s))" "plain_outs (snd (checkPendingWrites s))"
    "\<not> sw_invalidated s \<Longrightarrow> sock_frames (fst (checkPendingWrites s)) = sock_frames s"
    "sw_invalidated s \<Longrightarrow> sock_frames (fst (checkPendingWrites s)) = current_frames s"
    "sw_invalidated s \<Longrightarrow> sw_current (fst (checkPendingWrites s)) = sw_current s"
    "sw_incomingFrameSize (fst (checkPendingWrites s)) = sw_incomingFrameSize s"
proof -
  show "current_ok (fst (checkPendingWrites s))"
    using assms by (auto simp: checkPendingWrites_def current_ok_def split: list.split)
  show "plain_outs (snd (checkPendingWrites s))"
    by (simp add: checkPendingWrites_def split: list.split)
  show "sock_frames (fst (checkPendingWrites s)) = sock_frames s" if "\<not> sw_invalidated s"
    using assms that by (auto simp: checkPendingWrites_def sock_frames_def current_frames_def split: list.split)
qed (auto simp: checkPendingWrites_def sock_frames_def split: list.split)

section \<open>Quiet socket steps\<close>

text \<open>
  The read side: \<open>unread\<close> is what the peer has sent and this side has not handed out, the
  size of the frame being read included. A socket that is invalidated and has no read in
  flight never reads again.
\<close>

definition dead_reader :: "SocketWrapper \<Rightarrow> bool" where
  "dead_reader s \<longleftrightarrow> sw_reading s = NoRead \<and> sw_invalidated s"

definition unread :: "SocketWrapper \<Rightarrow> byte list \<Rightarrow> byte list" where
  "unread s ch = (if sw_reading s = ReadingFrame then size_bytes (sw_incomingFrameSize s) else []) @ ch"

definition reader_keeps :: "SocketWrapper \<Rightarrow> SocketWrapper \<Rightarrow> bool" where
  "reader_keeps s s' \<longleftrightarrow> dead_reader s' \<or> (\<not> dead_reader s \<and> (\<forall>ch. unread s' ch = unread s ch))"

text \<open>The write side: nothing will be written any more.\<close>

definition writer_closed :: "SocketWrapper \<Rightarrow> bool" where
  "writer_closed s \<longleftrightarrow> sw_invalidated s \<and> sw_current s = None"

definition sock_quiet :: "SocketWrapper \<Rightarrow> SocketWrapper \<Rightarrow> bool" where
  "sock_quiet s s' \<longleftrightarrow>
     current_ok s' \<and> mset (sock_frames s') \<subseteq># mset (sock_frames s) \<and> reader_keeps s s' \<and>
     (writer_closed s \<longrightarrow> writer_closed s')"

lemma reader_keeps_refl [simp]: "reader_keeps s s"
  by (simp add: reader_keeps_def)

lemma reader_keeps_invalidate:
  assumes "sw_invalidated s'" "sw_reading s' = sw_reading s \<or> sw_reading s' = NoRead"
    "sw_incomingFrameSize s' = sw_incomingFrameSize s"
  shows "reader_keeps s s'"
  using assms by (auto simp: reader_keeps_def dead_reader_def unread_def)

lemma SocketWrapper_invalidate_frames:
  assumes "current_ok s"
  shows "current_ok (fst (SocketWrapper_invalidate s))"
    "sock_frames (fst (SocketWrapper_invalidate s)) = current_frames s"
    "sw_current (fst (SocketWrapper_invalidate s)) = sw_current s"
    "sw_incomingFrameSize (fst (SocketWrapper_invalidate s)) = sw_incomingFrameSize s"
    "sw_reading (fst (SocketWrapper_invalidate s)) = sw_reading s"
    "sw_invalidated (fst (SocketWrapper_invalidate s))"
    "plain_outs (snd (SocketWrapper_invalidate s))"
  using checkPendingWrites_frames [of "s\<lparr>sw_invalidated := True\<rparr>"] checkPendingWrites_frames [of s] assms
  by (auto simp: SocketWrapper_invalidate_def case_prod_beta Let_def)

lemma SocketWrapper_dtor_frames:
  assumes "current_ok s"
  shows "current_ok (fst (SocketWrapper_dtor s))"
    "sock_frames (fst (SocketWrapper_dtor s)) = current_frames s"
    "sw_current (fst (SocketWrapper_dtor s)) = sw_current s"
    "sw_incomingFrameSize (fst (SocketWrapper_dtor s)) = sw_incomingFrameSize s"
    "sw_reading (fst (SocketWrapper_dtor s)) = sw_reading s"
    "sw_invalidated (fst (SocketWrapper_dtor s))"
    "plain_outs (snd (SocketWrapper_dtor s))"
proof -
  note C = checkPendingWrites_frames [of "s\<lparr>sw_invalidated := True\<rparr>"] checkPendingWrites_frames [of s]
  show "current_ok (fst (SocketWrapper_dtor s))"
    "sock_frames (fst (SocketWrapper_dtor s)) = current_frames s"
    "sw_current (fst (SocketWrapper_dtor s)) = sw_current s"
    "sw_incomingFrameSize (fst (SocketWrapper_dtor s)) = sw_incomingFrameSize s"
    "sw_reading (fst (SocketWrapper_dtor s)) = sw_reading s"
    "sw_invalidated (fst (SocketWrapper_dtor s))"
    "plain_outs (snd (SocketWrapper_dtor s))"
    using C assms by (auto simp: SocketWrapper_dtor_def case_prod_beta Let_def)
qed


text \<open>The single socket operations.\<close>

lemma sw_flags_idle:
  "sw_flags_ok s \<Longrightarrow> \<not> sw_writeInProgress s \<Longrightarrow> \<not> sw_invalidated s \<Longrightarrow> sw_current s = None"
  by (cases "sw_current s") (auto simp: sw_flags_ok_def)

lemma sock_frames_subset: "mset (current_frames s) \<subseteq># mset (sock_frames s)"
  by (simp add: sock_frames_def)

lemma sw_write_step:
  assumes "sw_flags_ok s" "current_ok s"
  shows "current_ok (fst (writeFrame s w))" "plain_outs (snd (writeFrame s w))"
    "mset (sock_frames (fst (writeFrame s w))) \<subseteq># add_mset (pw_frame w) (mset (sock_frames s))"
    "reader_keeps s (fst (writeFrame s w))"
    "writer_closed s \<Longrightarrow> writer_closed (fst (writeFrame s w))"
proof -
  let ?s = "s\<lparr>sw_pendingWrites := sw_pendingWrites s @ [w]\<rparr>"
  have f: "sock_frames ?s = sock_frames s @ [pw_frame w]" by (simp add: sock_frames_def)
  have idle: "\<not> sw_writeInProgress ?s \<Longrightarrow> \<not> sw_invalidated ?s \<Longrightarrow> sw_current ?s = None"
    using sw_flags_idle [OF assms(1)] by simp
  have ok: "current_ok ?s" using assms(2) by simp
  note C = checkPendingWrites_frames [OF ok idle]
  show "current_ok (fst (writeFrame s w))" "plain_outs (snd (writeFrame s w))"
    using C assms(2) by (simp_all add: writeFrame_def case_prod_beta)
  have "mset (sock_frames (fst (checkPendingWrites ?s))) \<subseteq># add_mset (pw_frame w) (mset (sock_frames s))"
  proof (cases "sw_invalidated s")
    case True
    then show ?thesis
      using C(4) sock_frames_subset [of s] by (simp add: subset_mset.trans [OF _ subset_mset.less_imp_le])
  next
    case False
    then show ?thesis using C(3) f by simp
  qed
  then show "mset (sock_frames (fst (writeFrame s w))) \<subseteq># add_mset (pw_frame w) (mset (sock_frames s))"
    by (simp add: writeFrame_def case_prod_beta)
  show "reader_keeps s (fst (writeFrame s w))"
    using C(6) by (simp add: writeFrame_def case_prod_beta reader_keeps_def dead_reader_def unread_def)
  show "writer_closed (fst (writeFrame s w))" if "writer_closed s"
    using that C(5) by (simp add: writeFrame_def case_prod_beta writer_closed_def)
qed

lemma sw_write_done_step:
  assumes "sw_flags_ok s" "current_ok s" "sw_current s = Some (ps, c)"
  shows "\<exists>f out. current_frames s = [f] \<and> snd (onWritten s False) = Sent (framed f) # out \<and> plain_outs out \<and>
           current_ok (fst (onWritten s False)) \<and>
           add_mset f (mset (sock_frames (fst (onWritten s False)))) \<subseteq># mset (sock_frames s) \<and>
           reader_keeps s (fst (onWritten s False))"
proof -
  obtain f where f: "current_frames s = [f]" "concat (map (piece_bytes s) ps) = framed f"
    using current_write_framed [OF assms(2,3)] by blast
  let ?s = "s\<lparr>sw_current := None, sw_writeInProgress := False\<rparr>"
  have ok: "current_ok ?s" by simp
  have frames: "sock_frames s = f # sock_frames ?s" "current_frames ?s = []"
    by (simp_all add: sock_frames_def f)
  note C = checkPendingWrites_frames [OF ok]
  have "mset (sock_frames (fst (checkPendingWrites ?s))) \<subseteq># mset (sock_frames ?s)"
    by (cases "sw_invalidated s") (use C(3,4) frames in simp_all)
  moreover have "mset (sock_frames (s\<lparr>sw_current := None\<rparr>)) \<subseteq># mset (sock_frames ?s)"
    by (simp add: sock_frames_def)
  moreover have "reader_keeps s (fst (checkPendingWrites ?s))" "reader_keeps s (s\<lparr>sw_current := None\<rparr>)"
    using C(6) by (simp_all add: reader_keeps_def dead_reader_def unread_def)
  ultimately show ?thesis
    using C(1,2) f frames(1) assms(3)
    by (intro exI [of _ f]) (simp add: onWritten_def case_prod_beta Let_def)
qed

lemma sw_write_fails_step:
  assumes "sw_flags_ok s" "current_ok s" "sw_current s = Some (ps, c)"
  shows "\<exists>f. current_frames s = [f] \<and> concat (map (piece_bytes s) ps) = framed f \<and>
           plain_outs (snd (onWritten s True)) \<and> current_ok (fst (onWritten s True)) \<and>
           add_mset f (mset (sock_frames (fst (onWritten s True)))) \<subseteq># mset (sock_frames s) \<and>
           reader_keeps s (fst (onWritten s True)) \<and> writer_closed (fst (onWritten s True))"
proof -
  obtain f where f: "current_frames s = [f]" "concat (map (piece_bytes s) ps) = framed f"
    using current_write_framed [OF assms(2,3)] by blast
  let ?s0 = "s\<lparr>sw_current := None\<rparr>"
  let ?s1 = "fst (SocketWrapper_invalidate ?s0)"
  let ?s2 = "?s1\<lparr>sw_writeInProgress := False\<rparr>"
  have ok0: "current_ok ?s0" by simp
  note I = SocketWrapper_invalidate_frames [OF ok0]
  have ok2: "current_ok ?s2" using I(1) by simp
  note C = checkPendingWrites_frames [OF ok2]
  have cur: "sw_current ?s2 = None" "sw_invalidated ?s2" using I(3,6) by simp_all
  then have e: "sock_frames (fst (checkPendingWrites ?s2)) = []" "sw_current (fst (checkPendingWrites ?s2)) = None"
    "sw_invalidated (fst (checkPendingWrites ?s2))"
    using C(4,5) by (simp_all add: current_frames_def)
  show ?thesis
  proof (cases "sw_alive s")
    case True
    then have r: "fst (onWritten s True) = fst (checkPendingWrites ?s2)"
      "snd (onWritten s True) = Callback c True # snd (SocketWrapper_invalidate ?s0) @ snd (checkPendingWrites ?s2)"
      using assms(3) by (simp_all add: onWritten_def case_prod_beta Let_def)
    have "reader_keeps s (fst (checkPendingWrites ?s2))"
      by (rule reader_keeps_invalidate) (use I C(6) e in simp_all)
    then show ?thesis
      using r e I(7) C(1,2) f by (simp add: sock_frames_def [of s] writer_closed_def)
  next
    case False
    then have inv: "sw_invalidated s" "sw_pendingWrites s = []" using assms(1) by (auto simp: sw_flags_ok_def)
    then show ?thesis
      using f False assms(3)
      by (simp add: onWritten_def sock_frames_def writer_closed_def reader_keeps_def dead_reader_def unread_def)
  qed
qed

lemma sw_read_fails_step:
  assumes "current_ok s" "r = onFrameSizeRead alloc s None \<or> r = onFrameRead s None" "sw_flags_ok s"
  shows "sock_quiet s (fst r)" "plain_outs (snd r)"
proof -
  let ?s0 = "s\<lparr>sw_reading := NoRead\<rparr>"
  have ok0: "current_ok ?s0" using assms(1) by simp
  note I = SocketWrapper_invalidate_frames [OF ok0]
  have k: "reader_keeps s (fst (SocketWrapper_invalidate ?s0))"
    by (rule reader_keeps_invalidate) (use I in simp_all)
  have "reader_keeps s ?s0" if "\<not> sw_alive s"
    using that assms(3) by (simp add: reader_keeps_def dead_reader_def sw_flags_ok_def)
  then show "sock_quiet s (fst r)" "plain_outs (snd r)"
    using assms(1,2) I k sock_frames_subset [of s]
    by (auto simp: sock_quiet_def onFrameSizeRead_def onFrameRead_def Let_def writer_closed_def)
qed

lemma readFrame_step:
  assumes "current_ok s" "sw_reading s = NoRead"
  shows "current_ok (fst (readFrame alloc s))" "plain_outs (snd (readFrame alloc s))"
    "mset (sock_frames (fst (readFrame alloc s))) \<subseteq># mset (sock_frames s)"
    "dead_reader (fst (readFrame alloc s)) \<or>
       (\<forall>ch. unread (fst (readFrame alloc s)) ch = size_bytes (sw_incomingFrameSize s) @ ch)"
    "writer_closed s \<Longrightarrow> writer_closed (fst (readFrame alloc s))"
proof -
  let ?n = "unat (sw_incomingFrameSize s)"
  define b where "b = (if ?n > buf_size (sw_incomingFrameBuffer s) \<or>
      buf_size (sw_incomingFrameBuffer s) > kIncomingBufferMaxReuseSize
    then snd (Buffer_resize alloc (sw_incomingFrameBuffer s) ?n) else sw_incomingFrameBuffer s)"
  have b: "fst (readFrame alloc s) = fst (SocketWrapper_invalidate (s\<lparr>sw_incomingFrameBuffer := b\<rparr>)) \<and>
      snd (readFrame alloc s) = snd (SocketWrapper_invalidate (s\<lparr>sw_incomingFrameBuffer := b\<rparr>)) \<or>
      readFrame alloc s = (s\<lparr>sw_incomingFrameBuffer := b, sw_reading := ReadingFrame\<rparr>, [])"
    by (simp add: readFrame_def b_def [symmetric] Let_def)
  have ok: "current_ok (s\<lparr>sw_incomingFrameBuffer := b\<rparr>)" using assms(1) by simp
  note I = SocketWrapper_invalidate_frames [OF ok]
  from b show "current_ok (fst (readFrame alloc s))" "plain_outs (snd (readFrame alloc s))"
    using I(1,7) assms(1) by auto
  from b show "mset (sock_frames (fst (readFrame alloc s))) \<subseteq># mset (sock_frames s)"
    using I(2) sock_frames_subset [of s] by auto
  from b show "dead_reader (fst (readFrame alloc s)) \<or>
      (\<forall>ch. unread (fst (readFrame alloc s)) ch = size_bytes (sw_incomingFrameSize s) @ ch)"
  proof
    assume "readFrame alloc s = (s\<lparr>sw_incomingFrameBuffer := b, sw_reading := ReadingFrame\<rparr>, [])"
    then show ?thesis by (simp add: unread_def)
  next
    assume "fst (readFrame alloc s) = fst (SocketWrapper_invalidate (s\<lparr>sw_incomingFrameBuffer := b\<rparr>)) \<and>
      snd (readFrame alloc s) = snd (SocketWrapper_invalidate (s\<lparr>sw_incomingFrameBuffer := b\<rparr>))"
    then show ?thesis using I(5,6) assms(2) by (simp add: dead_reader_def)
  qed
  from b show "writer_closed (fst (readFrame alloc s))" if "writer_closed s"
    using that I(3,6) by (auto simp: writer_closed_def)
qed


lemma sw_size_read_step:
  assumes "current_ok s" "sw_flags_ok s" "sw_reading s = ReadingFrameSize" "length bs = 8"
    and r: "r = onFrameSizeRead alloc s (Some bs)"
  shows "current_ok (fst r)" "plain_outs (snd r)" "mset (sock_frames (fst r)) \<subseteq># mset (sock_frames s)"
    "dead_reader (fst r) \<or> (\<forall>ch. unread (fst r) ch = unread s (bs @ ch))"
    "writer_closed s \<Longrightarrow> writer_closed (fst r)"
proof -
  let ?s = "s\<lparr>sw_reading := NoRead, sw_incomingFrameSize := bytes_size bs\<rparr>"
  have e: "r = (if sw_alive s then readFrame alloc ?s else (s\<lparr>sw_reading := NoRead\<rparr>, []))"
    using assms(3) by (simp add: r onFrameSizeRead_def)
  have ok: "current_ok ?s" "sw_reading ?s = NoRead" using assms(1) by simp_all
  note R = readFrame_step [OF ok, of alloc]
  have dead: "dead_reader (s\<lparr>sw_reading := NoRead\<rparr>)" if "\<not> sw_alive s"
    using assms(2) that by (simp add: dead_reader_def sw_flags_ok_def)
  have c: "writer_closed (s\<lparr>sw_reading := NoRead\<rparr>) = writer_closed s" "writer_closed ?s = writer_closed s"
    by (simp_all add: writer_closed_def)
  show "current_ok (fst r)" "plain_outs (snd r)" "mset (sock_frames (fst r)) \<subseteq># mset (sock_frames s)"
    "writer_closed s \<Longrightarrow> writer_closed (fst r)"
    using e R(1-3,5) assms(1) c by simp_all
  show "dead_reader (fst r) \<or> (\<forall>ch. unread (fst r) ch = unread s (bs @ ch))"
    using e R(4) dead assms(3,4) by (auto simp: unread_def [of s] size_bytes_bytes)
qed

lemma sw_frame_read_step:
  assumes "current_ok s" "sw_flags_ok s" "sw_reading s = ReadingFrame"
    and r: "r = onFrameRead s (Some bs)"
  shows "current_ok (fst r)" "sock_frames (fst r) = sock_frames s"
    "writer_closed s \<Longrightarrow> writer_closed (fst r)"
    "dead_reader (fst r) \<and> snd r = [] \<or>
     (\<forall>ch. unread (fst r) ch = ch) \<and> (\<exists>f. snd r = [Emit_incomingFrame f] \<and> (f = None \<or> f = Some bs))"
  using assms
  by (auto simp: onFrameRead_def readFrameSize_def Let_def writer_closed_def dead_reader_def sw_flags_ok_def
      unread_def split: option.split)

section \<open>Quiet steps of the outcoming requests manager\<close>

fun request_kind :: "Request \<Rightarrow> ctx_kind" where
  "request_kind (Req_AddMessage _) = K_AddMessage"
| "request_kind (Req_GetMessages _) = K_GetMessages"
| "request_kind (Req_Ping _) = K_Ping"
| "request_kind (Req_SecondaryNodeReady _) = K_SecondaryNodeReady"

fun context_kind :: "OutContext \<Rightarrow> ctx_kind" where
  "context_kind (OC_AddMessage _) = K_AddMessage"
| "context_kind (OC_GetMessages _) = K_GetMessages"
| "context_kind (OC_Ping _) = K_Ping"
| "context_kind (OC_SecondaryNodeReady _) = K_SecondaryNodeReady"

lemma context_kind_create [simp]: "context_kind (OutContext_create k) = k"
  by (cases k) simp_all

text \<open>
  A quiet step sends no new request and brings no answer: requests may leave the tables,
  frames may leave the delayed sends, contexts may fail.
\<close>

definition context_fails :: "OutContext \<Rightarrow> OutContext \<Rightarrow> bool" where
  "context_fails c c' \<longleftrightarrow>
     c' = c \<or> context_kind c' = context_kind c \<and> (\<exists>x. outcome_of c' = Some (Failed x))"

definition om_quiet :: "OutManager \<Rightarrow> OutManager \<Rightarrow> bool" where
  "om_quiet m m' \<longleftrightarrow>
     om_requestIdCounter m' = om_requestIdCounter m \<and> om_nextContext m' = om_nextContext m \<and>
     set (om_posted m') \<subseteq> set (om_posted m) \<and>
     set (om_pendingRequests m') \<subseteq> set (om_pendingRequests m) \<and>
     mset (map fst (om_delayed m')) \<subseteq># mset (map fst (om_delayed m)) \<and>
     (\<forall>c. context_fails (om_contexts m c) (om_contexts m' c))"

lemma context_fails_refl [simp]: "context_fails c c"
  by (simp add: context_fails_def)

lemma context_fails_trans: "context_fails a b \<Longrightarrow> context_fails b c \<Longrightarrow> context_fails a c"
  by (auto simp: context_fails_def)

lemma om_quiet_refl [simp]: "om_quiet m m"
  by (simp add: om_quiet_def)

lemma om_quiet_trans: "om_quiet a b \<Longrightarrow> om_quiet b c \<Longrightarrow> om_quiet a c"
  unfolding om_quiet_def by (auto intro: context_fails_trans subset_mset.order_trans)

lemma om_quiet_update [simp]:
  "om_quiet m (m'\<lparr>om_timers := ts\<rparr>) = om_quiet m m'" "om_quiet m (m'\<lparr>om_alive := b\<rparr>) = om_quiet m m'"
  "om_quiet (m\<lparr>om_timers := ts\<rparr>) m' = om_quiet m m'" "om_quiet (m\<lparr>om_alive := b\<rparr>) m' = om_quiet m m'"
  by (simp_all add: om_quiet_def)

lemma context_fails_invalidate:
  "OutContext_invalidate reason c = Inr c' \<Longrightarrow> context_fails c c'"
proof (cases c)
  case (OC_AddMessage x)
  then show "OutContext_invalidate reason c = Inr c' \<Longrightarrow> ?thesis"
    by (cases "oc_promise x") (auto simp: context_fails_def invalidatePromise_def promiseMarkFilled_def split: if_splits)
next
  case (OC_GetMessages x)
  then show "OutContext_invalidate reason c = Inr c' \<Longrightarrow> ?thesis"
    by (cases "oc_promise x") (auto simp: context_fails_def invalidatePromise_def promiseMarkFilled_def split: if_splits)
next
  case (OC_Ping x)
  then show "OutContext_invalidate reason c = Inr c' \<Longrightarrow> ?thesis"
    by (cases "oc_promise x") (auto simp: context_fails_def invalidatePromise_def promiseMarkFilled_def split: if_splits)
next
  case (OC_SecondaryNodeReady x)
  then show "OutContext_invalidate reason c = Inr c' \<Longrightarrow> ?thesis"
    by (cases "oc_promise x") (auto simp: context_fails_def invalidatePromise_def promiseMarkFilled_def split: if_splits)
qed

lemma om_quiet_context_invalidate:
  "om_context_invalidate reason a m = Inr m' \<Longrightarrow> om_quiet m m'"
  by (auto simp: om_context_invalidate_def om_set_context_def om_quiet_def
      dest: context_fails_invalidate split: sum.splits)

lemma om_quiet_cancel: "om_quiet (timeoutTimer_cancel a m) m' = om_quiet m m'"
  by (simp add: timeoutTimer_cancel_def)

lemma om_quiet_pending:
  "om_quiet m m' \<Longrightarrow> set ps \<subseteq> set (om_pendingRequests m') \<Longrightarrow> om_quiet m (m'\<lparr>om_pendingRequests := ps\<rparr>)"
  by (auto simp: om_quiet_def)

lemma om_quiet_invalidatePendingRequest:
  "invalidatePendingRequest rid reason m = Inr m' \<Longrightarrow> om_quiet m m'"
  by (auto simp: invalidatePendingRequest_def om_quiet_cancel pending_erase_def
      dest!: om_quiet_context_invalidate intro!: om_quiet_pending split: option.splits sum.splits)

lemma om_quiet_invalidateContexts: "invalidateContexts reason as m = Inr m' \<Longrightarrow> om_quiet m m'"
proof (induction as arbitrary: m)
  case Nil
  then show ?case by simp
next
  case (Cons a as)
  then obtain m1 where "om_context_invalidate reason a (timeoutTimer_cancel a m) = Inr m1"
    "invalidateContexts reason as m1 = Inr m'" by (auto split: sum.splits)
  then show ?case using Cons.IH om_quiet_context_invalidate om_quiet_cancel om_quiet_trans by metis
qed

lemma om_quiet_invalidateAll: "invalidateAllPendingRequests reason m = Inr m' \<Longrightarrow> om_quiet m m'"
  by (auto simp: invalidateAllPendingRequests_def dest!: om_quiet_invalidateContexts
      intro!: om_quiet_pending split: sum.splits)

lemma om_quiet_dtor: "OutManager_dtor m = Inr m' \<Longrightarrow> om_quiet m m'"
  by (auto simp: OutManager_dtor_def dest!: om_quiet_invalidateAll split: sum.splits)

lemma om_quiet_timer: "om_timerExpired n late m = Inr m' \<Longrightarrow> om_quiet m m'"
  by (auto simp: om_timerExpired_def Let_def dest!: om_quiet_invalidatePendingRequest split: if_splits)

lemma subset_add_mset: "M \<subseteq># N \<Longrightarrow> M \<subseteq># add_mset x N"
  by (metis add_mset_add_single mset_subset_eq_add_left subset_mset.order_trans)

lemma mset_map_take_nth:
  "n < length xs \<Longrightarrow> mset (map f xs) = add_mset (f (xs ! n)) (mset (map f (take_nth n xs)))"
  using mset_take_nth [of n xs] by simp

lemma set_take_nth_subset: "set (take_nth n xs) \<subseteq> set xs"
  by (auto simp: take_nth_def dest: in_set_takeD in_set_dropD)

lemma om_quiet_take_posted: "om_quiet m (m\<lparr>om_posted := take_nth n (om_posted m)\<rparr>)"
  by (simp add: om_quiet_def set_take_nth_subset)

text \<open>A delayed send hands its frame on or drops it.\<close>

lemma om_delayExpired_frames:
  assumes "om_delayExpired n b m = Inr (m', ws)"
  shows "om_quiet m m'"
    "mset (map pw_frame ws) + mset (map fst (om_delayed m')) \<subseteq># mset (map fst (om_delayed m))"
proof -
  have "om_quiet m m' \<and>
    mset (map pw_frame ws) + mset (map fst (om_delayed m')) \<subseteq># mset (map fst (om_delayed m))"
  proof (cases "n < length (om_delayed m)")
    case False
    then show ?thesis using assms by (simp add: om_delayExpired_def)
  next
    case True
    obtain f rid d where x: "om_delayed m ! n = (f, rid, d)" by (cases "om_delayed m ! n")
    let ?m0 = "m\<lparr>om_delayed := take_nth n (om_delayed m)\<rparr>"
    have ms: "mset (map fst (om_delayed m)) = add_mset f (mset (map fst (om_delayed ?m0)))"
      using mset_map_take_nth [OF True, of fst] x by simp
    then have q: "om_quiet m ?m0" by (simp add: om_quiet_def)
    consider (gone) "m' = ?m0" "ws = []"
      | (hand) "m' = ?m0" "ws = [\<lparr>pw_frame = f, pw_callback = unat rid\<rparr>]"
      | (inv) "invalidatePendingRequest rid PEER_DISCONNECTED ?m0 = Inr m'" "ws = []"
      using assms True x by (auto simp: om_delayExpired_def Let_def split: if_splits sum.splits)
    then show ?thesis
    proof cases
      case gone
      then show ?thesis using q ms by simp
    next
      case hand
      then show ?thesis using q ms by simp
    next
      case inv
      then have i: "om_quiet ?m0 m'" by (simp add: om_quiet_invalidatePendingRequest)
      then have "mset (map fst (om_delayed m')) \<subseteq># mset (map fst (om_delayed ?m0))" by (simp only: om_quiet_def)
      then show ?thesis using om_quiet_trans [OF q i] inv(2) ms by (simp add: subset_add_mset)
    qed
  qed
  then show "om_quiet m m'"
    "mset (map pw_frame ws) + mset (map fst (om_delayed m')) \<subseteq># mset (map fst (om_delayed m))" by simp_all
qed

text \<open>A posted request is given the next id and its frame waits for the artificial delay.\<close>

definition om_sends :: "Request \<Rightarrow> nat \<Rightarrow> OutManager \<Rightarrow> OutManager \<Rightarrow> bool" where
  "om_sends request c m m' \<longleftrightarrow>
     om_requestIdCounter m' = om_requestIdCounter m + 1 \<and> om_nextContext m' = om_nextContext m \<and>
     set (om_posted m') \<subseteq> set (om_posted m) \<and>
     set (om_pendingRequests m') \<subseteq>
       insert (om_requestIdCounter m,
         \<lparr>pr_requestId = om_requestIdCounter m, pr_request = request, pr_context = c\<rparr>)
         (set (om_pendingRequests m)) \<and>
     mset (map fst (om_delayed m')) \<subseteq>#
       add_mset (request_frame_of (om_requestIdCounter m) request) (mset (map fst (om_delayed m))) \<and>
     (\<forall>a. context_fails (om_contexts m a) (om_contexts m' a))"

lemma sendRequestImpl_sends:
  assumes "sendRequestImpl request c d m = Inr m'"
  shows "om_sends request c m m'"
proof (cases "map_of (om_pendingRequests m) (om_requestIdCounter m)")
  case None
  then show ?thesis using assms by (auto simp: om_sends_def sendRequestImpl_def Let_def)
next
  case (Some p)
  then have "om_context_invalidate TIMEOUT c (m\<lparr>om_requestIdCounter := om_requestIdCounter m + 1\<rparr>) = Inr m'"
    using assms by (simp add: sendRequestImpl_def Let_def)
  from om_quiet_context_invalidate [OF this] show ?thesis
    unfolding om_quiet_def om_sends_def by (auto intro: subset_mset.order_trans)
qed

lemma om_sends_quiet: "om_quiet m m1 \<Longrightarrow> om_sends request c m1 m' \<Longrightarrow> om_sends request c m m'"
  unfolding om_quiet_def om_sends_def
  by (auto intro: context_fails_trans elim: subset_mset.order_trans)

lemma om_runPosted_cases:
  assumes "om_runPosted n m = Inr m'"
  shows "om_quiet m m' \<and> \<not> (n < length (om_posted m) \<and> om_alive m) \<or>
    n < length (om_posted m) \<and> om_alive m \<and>
      om_sends (fst (om_posted m ! n)) (fst (snd (om_posted m ! n))) m m'"
proof (cases "n < length (om_posted m) \<and> om_alive m")
  case False
  then show ?thesis
    using assms om_quiet_take_posted [of m n]
    by (auto simp: om_runPosted_def Let_def split: if_splits prod.splits
        dest!: om_quiet_context_invalidate intro: om_quiet_trans)
next
  case True
  then have "sendRequestImpl (fst (om_posted m ! n)) (fst (snd (om_posted m ! n))) (snd (snd (om_posted m ! n)))
      (m\<lparr>om_posted := take_nth n (om_posted m)\<rparr>) = Inr m'"
    using assms by (simp add: om_runPosted_def Let_def case_prod_beta)
  then show ?thesis
    using True om_sends_quiet [OF om_quiet_take_posted sendRequestImpl_sends] by blast
qed

section \<open>Frames that reach the outcoming requests manager\<close>

lemma context_kind_response:
  "OutContext_onResponseRecieved alloc p c = Inr c' \<Longrightarrow> context_kind c' = context_kind c"
  by (cases c) (auto simp: lift_ctx_def split: sum.splits)

definition om_answered :: "OutManager \<Rightarrow> nat \<Rightarrow> outcome \<Rightarrow> OutManager \<Rightarrow> bool" where
  "om_answered m a oc m' \<longleftrightarrow>
     om_requestIdCounter m' = om_requestIdCounter m \<and> om_nextContext m' = om_nextContext m \<and>
     om_posted m' = om_posted m \<and> set (om_pendingRequests m') \<subseteq> set (om_pendingRequests m) \<and>
     om_delayed m' = om_delayed m \<and>
     (\<forall>c. c \<noteq> a \<longrightarrow> om_contexts m' c = om_contexts m c) \<and>
     context_kind (om_contexts m' a) = context_kind (om_contexts m a) \<and>
     outcome_of (om_contexts m' a) = Some oc"

lemma om_onResponse_answered:
  assumes "om_core m" "om_onResponseRecieved alloc rid payload m = Inr m'"
    and p: "map_of (om_pendingRequests m) rid = Some p"
  shows "\<exists>oc. response_outcome alloc (om_contexts m (pr_context p)) payload = Some oc \<and>
    om_answered m (pr_context p) oc m'"
proof -
  obtain oc where oc: "response_outcome alloc (om_contexts m (pr_context p)) payload = Some oc"
    "resolves m rid (pr_context p) oc m'"
    using om_onResponse_resolves [OF assms(1) p, of alloc payload] assms(2) by (auto split: option.splits)
  moreover obtain c' where "OutContext_onResponseRecieved alloc payload (om_contexts m (pr_context p)) = Inr c'"
    "om_contexts m' (pr_context p) = c'"
    using assms(2) p
    by (auto simp: om_onResponseRecieved_def om_context_response_def om_set_context_def timeoutTimer_cancel_def
        split: sum.splits)
  ultimately show ?thesis
    using context_kind_response
    by (intro exI [of _ oc]) (fastforce simp: om_answered_def resolves_def pending_erase_def)
qed

lemma om_onIncomingFrame_cases:
  assumes "om_core m" "om_onIncomingFrame alloc frame m = Inr m'"
  shows "m' = m \<or> (\<exists>f p oc. parseResponseFrame frame = Some f \<and>
      map_of (om_pendingRequests m) (sf_requestId f) = Some p \<and>
      response_outcome alloc (om_contexts m (pr_context p)) (sf_payload f) = Some oc \<and>
      om_answered m (pr_context p) oc m')"
proof (cases "parseEventType frame = Some RESPONSE \<and> parseResponseFrame frame \<noteq> None")
  case False
  then show ?thesis using assms(2) by (auto simp: om_onIncomingFrame_def split: if_splits)
next
  case True
  then obtain f where f: "parseResponseFrame frame = Some f"
    "om_onResponseRecieved alloc (sf_requestId f) (sf_payload f) m = Inr m'"
    using assms(2) by (auto simp: om_onIncomingFrame_def)
  show ?thesis
  proof (cases "map_of (om_pendingRequests m) (sf_requestId f)")
    case None
    then show ?thesis using f(2) by (simp add: om_onResponseRecieved_def)
  next
    case (Some p)
    then show ?thesis using om_onResponse_answered [OF assms(1) f(2) Some] f(1) by blast
  qed
qed


section \<open>The incoming requests manager\<close>

text \<open>The same contexts, with the same ids and the same answers.\<close>

definition im_same :: "InManager \<Rightarrow> InManager \<Rightarrow> bool" where
  "im_same m m' \<longleftrightarrow>
     im_nextContext m' = im_nextContext m \<and>
     (\<forall>a. ic_responseId (im_contexts m' a) = ic_responseId (im_contexts m a)) \<and>
     (\<forall>a x. ic_promise (im_contexts m' a) = Fulfilled x \<longleftrightarrow> ic_promise (im_contexts m a) = Fulfilled x)"

lemma im_same_refl [simp]: "im_same m m"
  by (simp add: im_same_def)

lemma im_same_dtor: "im_same m (InManager_dtor m)"
  by (simp add: im_same_def InManager_dtor_def)

lemma im_same_abandon:
  "im_setPromise a None m = Inr m' \<Longrightarrow> im_same m m'"
  by (auto simp: im_setPromise_eq im_same_def im_update_context_def split: if_splits)

text \<open>The only write of the manager is the answer of a context.\<close>

definition im_answer_frame :: "InManager \<Rightarrow> buffer_seq \<Rightarrow> bool" where
  "im_answer_frame m f \<longleftrightarrow>
     (\<exists>a < im_nextContext m. \<exists>i x. ic_responseId (im_contexts m a) = Some i \<and>
        ic_promise (im_contexts m a) = Fulfilled x \<and> f = response_frame_of i (answer_response x))"

lemma im_runPosted_cases:
  assumes "im_posted_ok m" "im_runPosted n m = (m', ws)"
  shows "im_same m m'" "\<forall>w \<in> set ws. im_answer_frame m (pw_frame w)" "ws = [] \<or> (\<exists>w. ws = [w])"
proof -
  have "im_posted m ! n < im_nextContext m" if "n < length (im_posted m)"
    using assms(1) that by (simp add: im_posted_ok_def)
  then show "im_same m m'" "\<forall>w \<in> set ws. im_answer_frame m (pw_frame w)" "ws = [] \<or> (\<exists>w. ws = [w])"
    using assms(2)
    by (auto simp: im_runPosted_eq im_onResponseRecieved_def im_onInvalidResponseRecieved_def im_erase_def
        im_update_context_def im_same_def im_answer_frame_def Let_def
        split: if_splits option.splits in_promise.splits)
qed

section \<open>Quiet steps of an endpoint\<close>

definition ep_flight :: "Endpoint \<Rightarrow> buffer_seq multiset" where
  "ep_flight e =
     mset (map fst (om_delayed (ep_outcoming e))) + mset (map pw_frame (ep_posted e)) +
     mset (sock_frames (ep_socketWrapper e))"

definition ep_quiet :: "Endpoint \<Rightarrow> Endpoint \<Rightarrow> bool" where
  "ep_quiet e e' \<longleftrightarrow>
     om_quiet (ep_outcoming e) (ep_outcoming e') \<and> im_same (ep_incoming e) (ep_incoming e') \<and>
     ep_flight e' \<subseteq># ep_flight e \<and> reader_keeps (ep_socketWrapper e) (ep_socketWrapper e') \<and>
     (writer_closed (ep_socketWrapper e) \<longrightarrow> writer_closed (ep_socketWrapper e')) \<and>
     (current_ok (ep_socketWrapper e) \<longrightarrow> current_ok (ep_socketWrapper e'))"

text \<open>The bytes and the signals among the outputs of a step.\<close>

definition ep_sent :: "ep_output list \<Rightarrow> byte list" where
  "ep_sent out = concat (map (\<lambda>x. case x of EP_Sock (Sent b) \<Rightarrow> b | _ \<Rightarrow> []) out)"

definition ep_signals :: "ep_output list \<Rightarrow> incoming_request list" where
  "ep_signals out = concat (map (\<lambda>x. case x of EP_Incoming i \<Rightarrow> [i] | _ \<Rightarrow> []) out)"

lemma ep_out_simps [simp]:
  "ep_sent [] = []" "ep_signals [] = []"
  "ep_sent (xs @ ys) = ep_sent xs @ ep_sent ys" "ep_signals (xs @ ys) = ep_signals xs @ ep_signals ys"
  "ep_sent (EP_Incoming i # xs) = ep_sent xs" "ep_signals (EP_Incoming i # xs) = i # ep_signals xs"
  "ep_sent (EP_Invalidated # xs) = ep_sent xs" "ep_signals (EP_Invalidated # xs) = ep_signals xs"
  "ep_sent (EP_Sock (Sent b) # xs) = b @ ep_sent xs" "ep_signals (EP_Sock o' # xs) = ep_signals xs"
  by (simp_all add: ep_sent_def ep_signals_def)

lemma ep_sent_plain: "plain_outs out \<Longrightarrow> ep_sent (map EP_Sock out) = [] \<and> ep_signals (map EP_Sock out) = []"
proof (induction out)
  case (Cons x xs)
  then show ?case by (cases x) (auto simp: plain_outs_def ep_sent_def ep_signals_def)
qed simp

lemma ep_onInvalidated_quiet:
  "ep_onInvalidated e = Inr (e', out) \<Longrightarrow>
     (\<exists>om. e' = e\<lparr>ep_outcoming := om\<rparr> \<and> om_quiet (ep_outcoming e) om) \<and> ep_sent out = [] \<and> ep_signals out = []"
  by (auto simp: ep_onInvalidated_def dest!: om_quiet_invalidateAll split: sum.splits)

lemma ep_socket_outputs_plain:
  "plain_outs xs \<Longrightarrow> ep_socket_outputs alloc xs e = Inr (e', out) \<Longrightarrow>
     (\<exists>om. e' = e\<lparr>ep_outcoming := om\<rparr> \<and> om_quiet (ep_outcoming e) om) \<and> ep_sent out = [] \<and> ep_signals out = []"
proof (induction xs arbitrary: e out)
  case Nil
  then show ?case by (auto intro: exI [of _ "ep_outcoming e"])
next
  case (Cons x xs)
  let ?r = "case x of
      Emit_incomingFrame frame \<Rightarrow> if ep_alive e then ep_onIncomingFrame alloc frame e else Inr (e, [])
    | Emit_invalidated \<Rightarrow> if ep_alive e then ep_onInvalidated e else Inr (e, [])
    | _ \<Rightarrow> Inr (e, [EP_Sock x])"
  from Cons.prems(2) obtain e1 out1 out2 where r: "?r = Inr (e1, out1)"
    "ep_socket_outputs alloc xs e1 = Inr (e', out2)" "out = out1 @ out2"
    by (auto split: sum.splits prod.splits)
  have p: "plain_outs [x]" "plain_outs xs" using Cons.prems(1) plain_outs_simps(2) [of "[x]" xs] by simp_all
  have "(\<exists>om. e1 = e\<lparr>ep_outcoming := om\<rparr> \<and> om_quiet (ep_outcoming e) om) \<and> ep_sent out1 = [] \<and> ep_signals out1 = []"
  proof (cases "x = Emit_invalidated \<and> ep_alive e")
    case True
    then show ?thesis using r(1) by (simp add: ep_onInvalidated_quiet)
  next
    case False
    then have "e1 = e" "out1 = [] \<or> out1 = map EP_Sock [x]"
      using r(1) p(1) by (auto simp: plain_outs_def split: sock_out.splits if_splits)
    then show ?thesis using ep_sent_plain [OF p(1)] by (auto intro: exI [of _ "ep_outcoming e"])
  qed
  moreover note Cons.IH [OF p(2) r(2)]
  ultimately show ?case using r(3) om_quiet_trans by fastforce
qed

lemma ep_socket_plain:
  assumes "ep_socket_step alloc e ev = Inr (e', out)" "plain_outs (snd (sw_step alloc (ep_socketWrapper e) ev))"
  shows "\<exists>om. e' = e\<lparr>ep_socketWrapper := fst (sw_step alloc (ep_socketWrapper e) ev), ep_outcoming := om\<rparr> \<and>
      om_quiet (ep_outcoming e) om \<and>
      mset (map fst (om_delayed om)) \<subseteq># mset (map fst (om_delayed (ep_outcoming e)))"
    "ep_sent out = []" "ep_signals out = []"
proof -
  let ?s = "fst (sw_step alloc (ep_socketWrapper e) ev)"
  have "ep_socket_outputs alloc (snd (sw_step alloc (ep_socketWrapper e) ev)) (e\<lparr>ep_socketWrapper := ?s\<rparr>) = Inr (e', out)"
    using assms(1) by (simp add: ep_socket_step_def case_prod_beta)
  from ep_socket_outputs_plain [OF assms(2) this] obtain om where
    om: "e' = e\<lparr>ep_socketWrapper := ?s, ep_outcoming := om\<rparr>" "om_quiet (ep_outcoming e) om"
    and o: "ep_sent out = []" "ep_signals out = []" by auto
  have "mset (map fst (om_delayed om)) \<subseteq># mset (map fst (om_delayed (ep_outcoming e)))"
    using om(2) by (simp only: om_quiet_def)
  then show "\<exists>om. e' = e\<lparr>ep_socketWrapper := ?s, ep_outcoming := om\<rparr> \<and> om_quiet (ep_outcoming e) om \<and>
      mset (map fst (om_delayed om)) \<subseteq># mset (map fst (om_delayed (ep_outcoming e)))"
    using om by blast
  show "ep_sent out = []" "ep_signals out = []" using o by simp_all
qed

lemma ep_socket_quiet:
  assumes "ep_socket_step alloc e ev = Inr (e', out)" "plain_outs (snd (sw_step alloc (ep_socketWrapper e) ev))"
    "sock_quiet (ep_socketWrapper e) (fst (sw_step alloc (ep_socketWrapper e) ev))"
  shows "ep_quiet e e' \<and> ep_sent out = [] \<and> ep_signals out = []"
  using ep_socket_plain [OF assms(1,2)] assms(3)
  by (auto simp: ep_quiet_def sock_quiet_def ep_flight_def intro: subset_mset.add_mono)

text \<open>The events that are quiet, one by one.\<close>

definition ep_fine :: "Endpoint \<Rightarrow> bool" where
  "ep_fine e \<longleftrightarrow> ep_ok e \<and> current_ok (ep_socketWrapper e)"

lemma ep_fineD:
  assumes "ep_fine e"
  shows "ep_ok e" "current_ok (ep_socketWrapper e)" "sw_flags_ok (ep_socketWrapper e)"
    "om_core (ep_outcoming e)" "im_posted_ok (ep_incoming e)"
  using assms by (auto simp: ep_fine_def ep_ok_def sw_ok_def om_ok_def im_ok_def)

lemma ep_quiet_refl [simp]: "ep_quiet e e"
  by (simp add: ep_quiet_def)

lemma ep_Run_quiet:
  "ep_step alloc e EP_Run = Inr (e', out) \<Longrightarrow> \<not> sw_invalidated (ep_socketWrapper e) \<Longrightarrow>
     ep_quiet e e' \<and> ep_sent out = [] \<and> ep_signals out = []"
  by (auto simp: ep_quiet_def Endpoint_run_def readFrameSize_def ep_flight_def reader_keeps_def dead_reader_def
      unread_def writer_closed_def split: if_splits)

lemma ep_out_result_quiet:
  assumes "ep_out_result e (Inr (om, ws)) = Inr (e', out)" "om_quiet (ep_outcoming e) om"
    "mset (map pw_frame ws) + mset (map fst (om_delayed om)) \<subseteq># mset (map fst (om_delayed (ep_outcoming e)))"
  shows "ep_quiet e e' \<and> ep_sent out = [] \<and> ep_signals out = []"
proof -
  have e': "e' = e\<lparr>ep_outcoming := om, ep_posted := ep_posted e @ ws\<rparr>" "out = []"
    using assms(1) by (simp_all add: ep_out_result_def)
  have "ep_flight e' = (mset (map pw_frame ws) + mset (map fst (om_delayed om))) +
      (mset (map pw_frame (ep_posted e)) + mset (sock_frames (ep_socketWrapper e)))"
    by (simp add: e' ep_flight_def ac_simps)
  also have "\<dots> \<subseteq># mset (map fst (om_delayed (ep_outcoming e))) +
      (mset (map pw_frame (ep_posted e)) + mset (sock_frames (ep_socketWrapper e)))"
    by (intro subset_mset.add_mono assms(3) subset_mset.order_refl)
  also have "\<dots> = ep_flight e" by (simp add: ep_flight_def ac_simps)
  finally show ?thesis using assms(2) by (simp add: e' ep_quiet_def)
qed

lemma ep_DelayExpired_quiet:
  assumes "ep_step alloc e (EP_DelayExpired n) = Inr (e', out)"
  shows "ep_quiet e e' \<and> ep_sent out = [] \<and> ep_signals out = []"
proof -
  let ?b = "sw_invalidated (ep_socketWrapper e)"
  obtain om ws where r: "om_delayExpired n ?b (ep_outcoming e) = Inr (om, ws)"
    using assms by (cases "om_delayExpired n ?b (ep_outcoming e)") (auto simp: ep_out_result_def)
  have "ep_out_result e (Inr (om, ws)) = Inr (e', out)" using assms r by simp
  from ep_out_result_quiet [OF this om_delayExpired_frames [OF r]] show ?thesis .
qed

lemma ep_TimerExpired_quiet:
  assumes "ep_step alloc e (EP_TimerExpired n late) = Inr (e', out)"
  shows "ep_quiet e e' \<and> ep_sent out = [] \<and> ep_signals out = []"
proof -
  obtain om where r: "om_timerExpired n late (ep_outcoming e) = Inr om"
    using assms by (cases "om_timerExpired n late (ep_outcoming e)") (auto simp: ep_out_result_def no_writes_def)
  then have q: "om_quiet (ep_outcoming e) om" by (rule om_quiet_timer)
  have "ep_out_result e (Inr (om, [])) = Inr (e', out)" using assms r by (simp add: no_writes_def)
  moreover have "mset (map fst (om_delayed om)) \<subseteq># mset (map fst (om_delayed (ep_outcoming e)))"
    using q by (simp only: om_quiet_def)
  ultimately show ?thesis using ep_out_result_quiet [where ws = "[]" and e = e, OF _ q] by simp
qed

lemma ep_abandon_quiet:
  "ep_step alloc e (EP_SetPromise a None) = Inr (e', out) \<Longrightarrow>
     ep_quiet e e' \<and> ep_sent out = [] \<and> ep_signals out = []"
  by (auto simp: ep_quiet_def ep_flight_def dest: im_same_abandon split: sum.splits)

lemma ep_RunWrite_quiet:
  assumes "ep_fine e" "ep_step alloc e (EP_RunWrite n) = Inr (e', out)"
  shows "ep_quiet e e' \<and> ep_sent out = [] \<and> ep_signals out = []"
proof (cases "n < length (ep_posted e)")
  case False
  then show ?thesis using assms(2) by simp
next
  case True
  let ?e = "e\<lparr>ep_posted := take_nth n (ep_posted e)\<rparr>"
  let ?w = "ep_posted e ! n"
  let ?s = "fst (writeFrame (ep_socketWrapper e) ?w)"
  note W = sw_write_step [OF ep_fineD(3,2) [OF assms(1)], of ?w]
  have st: "ep_socket_step alloc ?e (WriteFrame ?w) = Inr (e', out)" using assms(2) True by simp
  have plain: "plain_outs (snd (sw_step alloc (ep_socketWrapper ?e) (WriteFrame ?w)))" using W(2) by simp
  from ep_socket_plain [OF st plain] obtain om where
    om: "e' = ?e\<lparr>ep_socketWrapper := ?s, ep_outcoming := om\<rparr>" "om_quiet (ep_outcoming e) om"
      "mset (map fst (om_delayed om)) \<subseteq># mset (map fst (om_delayed (ep_outcoming e)))"
    and o: "ep_sent out = []" "ep_signals out = []" by auto
  have m: "mset (map pw_frame (ep_posted e)) = add_mset (pw_frame ?w) (mset (map pw_frame (take_nth n (ep_posted e))))"
    using True by (rule mset_map_take_nth)
  have "ep_flight e' = mset (map fst (om_delayed om)) + mset (map pw_frame (take_nth n (ep_posted e))) +
      mset (sock_frames ?s)"
    by (simp add: om(1) ep_flight_def)
  also have "\<dots> \<subseteq># mset (map fst (om_delayed (ep_outcoming e))) + mset (map pw_frame (take_nth n (ep_posted e))) +
      add_mset (pw_frame ?w) (mset (sock_frames (ep_socketWrapper e)))"
    by (intro subset_mset.add_mono om(3) W(3) subset_mset.order_refl)
  also have "\<dots> = ep_flight e" unfolding ep_flight_def m by simp
  finally show ?thesis
    using om o W(1,4,5) by (simp add: ep_quiet_def)
qed

lemma ep_read_fails_quiet:
  assumes "ep_fine e" "ep_step alloc e ev = Inr (e', out)" "ev = EP_FrameSizeRead None \<or> ev = EP_FrameRead None"
  shows "ep_quiet e e' \<and> ep_sent out = [] \<and> ep_signals out = []"
proof -
  obtain sev where sev: "ep_socket_step alloc e sev = Inr (e', out)" "sev = FrameSizeRead None \<or> sev = FrameRead None"
    using assms(2,3) by auto
  let ?r = "sw_step alloc (ep_socketWrapper e) sev"
  have "?r = onFrameSizeRead alloc (ep_socketWrapper e) None \<or> ?r = onFrameRead (ep_socketWrapper e) None"
    using sev(2) by auto
  from sw_read_fails_step [OF ep_fineD(2) [OF assms(1)] this ep_fineD(3) [OF assms(1)]]
  show ?thesis by (intro ep_socket_quiet [OF sev(1)])
qed

lemma ep_Destroy_quiet:
  assumes "ep_fine e" "ep_step alloc e EP_Destroy = Inr (e', out)"
  shows "ep_quiet e e' \<and> ep_sent out = [] \<and> ep_signals out = []"
proof (cases "ep_alive e")
  case False
  then show ?thesis using assms(2) by simp
next
  case True
  let ?s = "fst (SocketWrapper_dtor (ep_socketWrapper e))"
  obtain om where om: "OutManager_dtor (ep_outcoming e) = Inr om"
    using assms(2) True by (cases "OutManager_dtor (ep_outcoming e)") (auto simp: Endpoint_dtor_def)
  then have e': "e' = e\<lparr>ep_alive := False, ep_outcoming := om, ep_incoming := InManager_dtor (ep_incoming e),
      ep_socketWrapper := ?s\<rparr>" "out = map EP_Sock (snd (SocketWrapper_dtor (ep_socketWrapper e)))"
    using assms(2) True by (auto simp: Endpoint_dtor_def case_prod_beta)
  note D = SocketWrapper_dtor_frames [OF ep_fineD(2) [OF assms(1)]]
  have q: "om_quiet (ep_outcoming e) om" using om by (rule om_quiet_dtor)
  then have d: "mset (map fst (om_delayed om)) \<subseteq># mset (map fst (om_delayed (ep_outcoming e)))"
    by (simp only: om_quiet_def)
  have "reader_keeps (ep_socketWrapper e) ?s" by (rule reader_keeps_invalidate) (use D in simp_all)
  then have "ep_quiet e e'"
    using D d q sock_frames_subset [of "ep_socketWrapper e"] im_same_dtor
    by (auto simp: e' ep_quiet_def ep_flight_def writer_closed_def intro: subset_mset.add_mono)
  then show ?thesis using e'(2) ep_sent_plain [OF D(7)] by simp
qed

end
