(* ===== verification/Link.thy ===== *)
theory Link
  imports EndpointSteps
begin

text \<open>
  Two endpoints at the two ends of a TCP connection: the composition of everything in
  libs/proto. A side (a \<^typ>\<open>bool\<close>) acts by one of the events of its endpoint; the bytes its
  socket writes are appended to the stream its peer reads from, in order and without loss, as
  TCP promises while the connection stands. A write may fail in the middle of a frame, a read
  may fail at any time, posted lambdas, delays and timeouts run in any order.

  \<open>ln_sent\<close> and \<open>ln_signals\<close> are ghosts: the requests a side has numbered, with the context
  of each, in order (so that the id of a request is its position), and the signals a side has
  emitted, in order (so that the number of a signal is the number of its promise).
\<close>

section \<open>Answers and their frames\<close>

text \<open>The value type of the promise that comes with a signal; the compiler checks it.\<close>

fun answer_fits :: "incoming_request \<Rightarrow> answer \<Rightarrow> bool" where
  "answer_fits (Incoming_addMessage _ _ _) (A_AddMessage _) = True"
| "answer_fits (Incoming_getMessages _ _) (A_GetMessages _) = True"
| "answer_fits (Incoming_ping _ _) (A_Ping _) = True"
| "answer_fits (Incoming_secondaryNodeReady _ _) A_SecondaryNodeReady = True"
| "answer_fits _ _ = False"

lemma answer_fits_answers:
  "answer_fits (request_signal r a) x \<Longrightarrow> context_kind c = request_kind r \<Longrightarrow> answers c (answer_response x)"
  by (cases r; cases x; cases c) simp_all

lemma frame_size_concat: "frame_size f = length (concat f)"
  by (simp add: frame_size_def length_concat)

lemma frame_bytes_of [simp]:
  "concat (request_frame_of i r) = request_frame_bytes i r"
  "concat (response_frame_of i x) = response_frame_bytes i x"
  by (simp_all add: request_frame_of_def request_frame_bytes_def response_frame_of_def response_frame_bytes_def)

lemma frame_size_id:
  "frame_size (request_frame_of i r) = frame_size (request_frame_of 0 r)"
  "frame_size (response_frame_of i x) = frame_size (response_frame_of 0 x)"
  by (simp_all add: frame_size_concat request_frame_bytes_split response_frame_bytes_split
      constructRequestHeaderWoOwnership_def constructResponseHeaderWoOwnership_def)

text \<open>
  The parser of a GetMessages response reads the messages of the server's response or throws;
  it throws when there are too many for a vector or no memory.
\<close>

lemma size_bytes_messages_length:
  "length ms \<le> length (messages_bytes ms)"
  by (induction ms) (simp_all add: length_message_bytes)

lemma GetMessages_reads_or_throws:
  assumes size: "length (messages_bytes ms) < 2 ^ 64"
    and r: "Response_GetMessages_fromPayload alloc
      (Some (size_bytes (word_of_nat (length ms)) @ messages_bytes ms)) = Inr o'"
  shows "o' = Some (Response_GetMessages_owning ms)"
proof -
  have len: "length ms < 2 ^ 64" using size_bytes_messages_length [of ms] size by linarith
  then have u: "unat (word_of_nat (length ms) :: size_t) = length ms" by (simp add: unat_of_nat)
  have "length m < 2 ^ 64" if "m \<in> set ms" for m
  proof -
    from that have "length m \<le> length (messages_bytes ms)"
      by (induction ms) (auto simp: length_message_bytes)
    then show ?thesis using size by linarith
  qed
  then have f: "fits_wire ms \<longleftrightarrow> length ms \<le> string_vector_max_size" by (simp add: fits_wire_def)
  have "length ms \<le> string_vector_max_size \<and> alloc (length ms)"
    using r by (auto simp: Response_GetMessages_fromPayload_def vector_reserve_def codec_simps u split: if_splits)
  then have "Response_GetMessages_fromPayload alloc
      (Some (size_bytes (word_of_nat (length ms)) @ messages_bytes ms)) = Inr (Some (Response_GetMessages_owning ms))"
    using f by (intro Response_GetMessages_fromPayload_wire) simp_all
  then show ?thesis using r by simp
qed

text \<open>A context of the right class gets the value the peer's handler gave, or an exception escapes.\<close>

lemma response_outcome_sound:
  assumes "answers c (answer_response x)" "frame_size (response_frame_of 0 (answer_response x)) < 2 ^ 64"
    "response_outcome alloc c (Some (response_payload (answer_response x))) = Some oc"
  shows "oc = answer_outcome (answer_response x)"
proof (cases x)
  case (A_GetMessages ms)
  then obtain y where c: "c = OC_GetMessages y" using assms(1) by (cases c) simp_all
  have p: "response_payload (answer_response x) = size_bytes (word_of_nat (length ms)) @ messages_bytes ms"
    using GetMessages_wire_create [of ms "[]"] by (simp add: A_GetMessages response_payload_def)
  have "length (messages_bytes ms) < 2 ^ 64"
    using assms(2) p by (simp add: frame_size_concat response_frame_bytes_split)
  from GetMessages_reads_or_throws [OF this, of alloc] show ?thesis
    using assms(3) p A_GetMessages
    by (auto simp: c Response_GetMessages_owning_def split: sum.splits option.splits)
next
  case (A_AddMessage s)
  then show ?thesis using assms(1,3) by (cases c) (auto simp: response_payload_def resp_add.par_ser)
next
  case (A_Ping t)
  then show ?thesis using assms(1,3) by (cases c) (auto simp: response_payload_def resp_pong.par_ser)
next
  case A_SecondaryNodeReady
  then show ?thesis using assms(1,3) by (cases c) (auto simp: response_payload_def resp_ready.par_ser)
qed

section \<open>The state and its steps\<close>

record Link =
  ln_ep :: "bool \<Rightarrow> Endpoint"
  ln_bytes :: "bool \<Rightarrow> byte list"
  ln_sent :: "bool \<Rightarrow> (Request \<times> nat) list"
  ln_signals :: "bool \<Rightarrow> incoming_request list"

text \<open>\<open>ln_bytes b\<close> is the stream from side \<open>b\<close> to its peer.\<close>

definition Link_create :: "duration_ms \<Rightarrow> duration_ms \<times> duration_ms \<Rightarrow> Link" where
  "Link_create responseTimeout bounds =
     \<lparr>ln_ep = (\<lambda>_. Endpoint_create responseTimeout bounds), ln_bytes = (\<lambda>_. []),
      ln_sent = (\<lambda>_. []), ln_signals = (\<lambda>_. [])\<rparr>"

datatype link_event =
    LN_Event bool ep_event
  | LN_WriteFails bool nat

text \<open>
  What a side can do. The four \<^verbatim>\<open>send_\<close> functions pair each request class with its context
  class; a frame has fewer than \<open>2 ^ 64\<close> bytes, as everything in memory; a handler gives its
  promise a value of the promise's type; a read that succeeds brings the next bytes of the
  stream; reading is not started on a closed socket (the read would only fail, which changes
  nothing).
\<close>

fun link_allows :: "Link \<Rightarrow> bool \<Rightarrow> ep_event \<Rightarrow> bool" where
  "link_allows ln b EP_Run \<longleftrightarrow> \<not> sw_invalidated (ep_socketWrapper (ln_ep ln b))"
| "link_allows ln b (EP_SendRequest r k d) \<longleftrightarrow> k = request_kind r \<and> frame_size (request_frame_of 0 r) < 2 ^ 64"
| "link_allows ln b (EP_SetPromise a (Some x)) \<longleftrightarrow>
     a < length (ln_signals ln b) \<and> answer_fits (ln_signals ln b ! a) x \<and>
     frame_size (response_frame_of 0 (answer_response x)) < 2 ^ 64"
| "link_allows ln b (EP_Written ec) \<longleftrightarrow> \<not> ec"
| "link_allows ln b (EP_FrameSizeRead (Some bs)) \<longleftrightarrow>
     sw_reading (ep_socketWrapper (ln_ep ln b)) = ReadingFrameSize \<and>
     8 \<le> length (ln_bytes ln (\<not> b)) \<and> bs = take 8 (ln_bytes ln (\<not> b))"
| "link_allows ln b (EP_FrameRead (Some bs)) \<longleftrightarrow>
     sw_reading (ep_socketWrapper (ln_ep ln b)) = ReadingFrame \<and>
     unat (sw_incomingFrameSize (ep_socketWrapper (ln_ep ln b))) \<le> length (ln_bytes ln (\<not> b)) \<and>
     bs = take (unat (sw_incomingFrameSize (ep_socketWrapper (ln_ep ln b)))) (ln_bytes ln (\<not> b))"
| "link_allows ln b _ \<longleftrightarrow> True"

fun read_bytes :: "ep_event \<Rightarrow> nat" where
  "read_bytes (EP_FrameSizeRead (Some bs)) = length bs"
| "read_bytes (EP_FrameRead (Some bs)) = length bs"
| "read_bytes _ = 0"

text \<open>The request a posted lambda numbers, if the manager still lives.\<close>

fun numbered_requests :: "Endpoint \<Rightarrow> ep_event \<Rightarrow> (Request \<times> nat) list" where
  "numbered_requests e (EP_RunSend n) =
     (if n < length (om_posted (ep_outcoming e)) \<and> om_alive (ep_outcoming e)
      then [(fst (om_posted (ep_outcoming e) ! n), fst (snd (om_posted (ep_outcoming e) ! n)))] else [])"
| "numbered_requests e _ = []"

definition link_update ::
    "Link \<Rightarrow> bool \<Rightarrow> ep_event \<Rightarrow> byte list \<Rightarrow> Endpoint \<times> ep_output list \<Rightarrow> Link" where
  "link_update ln b ev partial r =
     ln\<lparr>ln_ep := (ln_ep ln)(b := fst r),
        ln_bytes := (ln_bytes ln)(b := ln_bytes ln b @ partial @ ep_sent (snd r),
                                  \<not> b := drop (read_bytes ev) (ln_bytes ln (\<not> b))),
        ln_sent := (ln_sent ln)(b := ln_sent ln b @ numbered_requests (ln_ep ln b) ev),
        ln_signals := (ln_signals ln)(b := ln_signals ln b @ ep_signals (snd r))\<rparr>"

fun link_step :: "(nat \<Rightarrow> bool) \<Rightarrow> Link \<Rightarrow> link_event \<Rightarrow> cpp_exception + Link" where
  "link_step alloc ln (LN_Event b ev) =
     (if \<not> link_allows ln b ev then Inr ln
      else (case ep_step alloc (ln_ep ln b) ev of
              Inl x \<Rightarrow> Inl x | Inr r \<Rightarrow> Inr (link_update ln b ev [] r)))"
| "link_step alloc ln (LN_WriteFails b k) =
     (let frame = concat (current_writes (ep_socketWrapper (ln_ep ln b)))
      in if length frame \<le> k then Inr ln
         else (case ep_step alloc (ln_ep ln b) (EP_Written True) of
                 Inl x \<Rightarrow> Inl x | Inr r \<Rightarrow> Inr (link_update ln b (EP_Written True) (take k frame) r)))"

definition link_run_step :: "(nat \<Rightarrow> bool) \<Rightarrow> cpp_exception + Link \<Rightarrow> link_event \<Rightarrow> cpp_exception + Link" where
  "link_run_step alloc r ev = (case r of Inl x \<Rightarrow> Inl x | Inr ln \<Rightarrow> link_step alloc ln ev)"

abbreviation link_run :: "(nat \<Rightarrow> bool) \<Rightarrow> duration_ms \<Rightarrow> duration_ms \<times> duration_ms \<Rightarrow> link_event list \<Rightarrow>
    cpp_exception + Link" where
  "link_run alloc t bounds evs \<equiv> run_steps (link_run_step alloc) (Inr (Link_create t bounds)) evs"


section \<open>The invariant\<close>

text \<open>
  Everything is stated per direction, from the sender \<open>e\<close> to the receiver \<open>q\<close>: \<open>S\<close> are the
  requests \<open>e\<close> has numbered, \<open>G\<close> the signals of \<open>q\<close>, \<open>I\<close> the id behind each signal, \<open>F\<close> the
  frames of \<open>e\<close> that \<open>q\<close> has not read completely and \<open>ch\<close> the stream.
\<close>

definition genuine :: "(Request \<times> nat) list \<Rightarrow> InManager \<Rightarrow> buffer_seq \<Rightarrow> bool" where
  "genuine S m f \<longleftrightarrow>
     frame_size f < 2 ^ 64 \<and>
     ((\<exists>i < length S. f = request_frame_of (word_of_nat i) (fst (S ! i))) \<or> im_answer_frame m f)"

definition frame_ids :: "buffer_seq \<Rightarrow> nat multiset" where
  "frame_ids f =
     (case im_onIncomingFrame (Some (concat f)) of None \<Rightarrow> {#} | Some r \<Rightarrow> {#unat (rf_requestId r)#})"

definition flight_ids :: "buffer_seq multiset \<Rightarrow> nat multiset" where
  "flight_ids M = sum_mset (image_mset frame_ids M)"

definition once :: "nat multiset \<Rightarrow> bool" where
  "once N \<longleftrightarrow> (\<forall>i. count N i \<le> 1)"

text \<open>The sender: what its tables and its frames say about the requests it has numbered.\<close>

definition out_ok :: "(Request \<times> nat) list \<Rightarrow> OutManager \<Rightarrow> bool" where
  "out_ok S m \<longleftrightarrow>
     om_requestIdCounter m = word_of_nat (length S) \<and>
     (\<forall>(i, p) \<in> set (om_pendingRequests m).
        unat i < length S \<and> S ! unat i = (pr_request p, pr_context p)) \<and>
     (\<forall>(r, c, d) \<in> set (om_posted m).
        c < om_nextContext m \<and> context_kind (om_contexts m c) = request_kind r \<and>
        frame_size (request_frame_of 0 r) < 2 ^ 64) \<and>
     (\<forall>(r, c) \<in> set S.
        c < om_nextContext m \<and> context_kind (om_contexts m c) = request_kind r \<and>
        frame_size (request_frame_of 0 r) < 2 ^ 64)"

definition flight_ok ::
    "(Request \<times> nat) list \<Rightarrow> nat list \<Rightarrow> InManager \<Rightarrow> buffer_seq multiset \<Rightarrow> bool" where
  "flight_ok S I m M \<longleftrightarrow> (\<forall>f \<in># M. genuine S m f) \<and> once (mset I + flight_ids M)"

text \<open>The receiver: every signal comes from a request of the sender, every answer fits.\<close>

definition in_ok ::
    "(Request \<times> nat) list \<Rightarrow> incoming_request list \<Rightarrow> nat list \<Rightarrow> InManager \<Rightarrow> bool" where
  "in_ok S G I m \<longleftrightarrow>
     length G = im_nextContext m \<and> length I = length G \<and>
     (\<forall>a < length G.
        I ! a < length S \<and> G ! a = request_signal (fst (S ! (I ! a))) a \<and>
        (\<forall>i. ic_responseId (im_contexts m a) = Some i \<longrightarrow> i = word_of_nat (I ! a)) \<and>
        (\<forall>x. ic_promise (im_contexts m a) = Fulfilled x \<longrightarrow>
           answer_fits (G ! a) x \<and> frame_size (response_frame_of 0 (answer_response x)) < 2 ^ 64))"

text \<open>The stream: whole frames, and the beginning of one if the sender's last write failed.\<close>

definition stream_ok :: "buffer_seq list \<Rightarrow> byte list \<Rightarrow> SocketWrapper \<Rightarrow> SocketWrapper \<Rightarrow> bool" where
  "stream_ok F ch s t \<longleftrightarrow>
     dead_reader t \<or>
     (\<exists>p. unread t ch = concat (map framed F) @ p \<and>
        (p = [] \<or> writer_closed s \<and> (\<exists>f. frame_size f < 2 ^ 64 \<and> strict_prefix p (framed f))))"

text \<open>The goal: an outcome that is not an exception is the value the peer's handler gave.\<close>

definition answered_by ::
    "(Request \<times> nat) list \<Rightarrow> nat list \<Rightarrow> InManager \<Rightarrow> nat \<Rightarrow> outcome \<Rightarrow> bool" where
  "answered_by S I m c oc \<longleftrightarrow>
     (\<exists>a < length I. snd (S ! (I ! a)) = c \<and>
        (\<exists>x. ic_promise (im_contexts m a) = Fulfilled x \<and> oc = answer_outcome (answer_response x)))"

definition got_ok :: "(Request \<times> nat) list \<Rightarrow> nat list \<Rightarrow> OutManager \<Rightarrow> InManager \<Rightarrow> bool" where
  "got_ok S I om im \<longleftrightarrow>
     (\<forall>c < om_nextContext om. \<forall>oc. outcome_of (om_contexts om c) = Some oc \<longrightarrow>
        (\<exists>x. oc = Failed x) \<or> answered_by S I im c oc)"

definition dir_ok ::
    "(Request \<times> nat) list \<Rightarrow> incoming_request list \<Rightarrow> nat list \<Rightarrow> buffer_seq list \<Rightarrow> byte list \<Rightarrow>
     Endpoint \<Rightarrow> Endpoint \<Rightarrow> bool" where
  "dir_ok S G I F ch e q \<longleftrightarrow>
     out_ok S (ep_outcoming e) \<and>
     flight_ok S I (ep_incoming e) (ep_flight e + mset F) \<and>
     in_ok S G I (ep_incoming q) \<and>
     stream_ok F ch (ep_socketWrapper e) (ep_socketWrapper q) \<and>
     got_ok S I (ep_outcoming e) (ep_incoming q)"

definition link_ok :: "Link \<Rightarrow> bool" where
  "link_ok ln \<longleftrightarrow>
     (\<forall>b. ep_fine (ln_ep ln b)) \<and>
     (\<exists>I F. \<forall>b. dir_ok (ln_sent ln b) (ln_signals ln (\<not> b)) (I b) (F b) (ln_bytes ln b)
        (ln_ep ln b) (ln_ep ln (\<not> b)))"

text \<open>As long as the ids have not wrapped around.\<close>

definition link_bounded :: "Link \<Rightarrow> bool" where
  "link_bounded ln \<longleftrightarrow> (\<forall>b. length (ln_sent ln b) \<le> 2 ^ 64)"

subsection \<open>Frames and their ids\<close>

lemma frame_ids_request [simp]: "frame_ids (request_frame_of i r) = {#unat i#}"
  by (simp add: frame_ids_def)

lemma frame_ids_response [simp]: "frame_ids (response_frame_of i x) = {#}"
  by (simp add: frame_ids_def im_onIncomingFrame_def)

lemma flight_ids_simps [simp]:
  "flight_ids {#} = {#}" "flight_ids (add_mset f M) = frame_ids f + flight_ids M"
  "flight_ids (M + N) = flight_ids M + flight_ids N"
  by (simp_all add: flight_ids_def)

lemma flight_ids_mono: "M \<subseteq># N \<Longrightarrow> flight_ids M \<subseteq># flight_ids N"
  by (metis flight_ids_simps(3) mset_subset_eq_add_left subset_mset.add_diff_inverse)

lemma once_mono: "M \<subseteq># N \<Longrightarrow> once N \<Longrightarrow> once M"
  by (auto simp: once_def subseteq_mset_def intro: order_trans)

lemma genuine_keeps:
  assumes "genuine S m f" "im_same m m'"
  shows "genuine S m' f"
  using assms by (auto simp: genuine_def im_answer_frame_def im_same_def)

lemma flight_ok_mono:
  assumes "flight_ok S I m N" "M \<subseteq># N"
  shows "flight_ok S I m M"
proof -
  have "mset I + flight_ids M \<subseteq># mset I + flight_ids N"
    using flight_ids_mono [OF assms(2)] by simp
  then have "once (mset I + flight_ids M)"
    using assms(1) once_mono unfolding flight_ok_def by blast
  moreover have "\<forall>f \<in># M. genuine S m f"
    using assms mset_subset_eqD [OF assms(2)] unfolding flight_ok_def by blast
  ultimately show ?thesis by (simp add: flight_ok_def)
qed

lemma flight_ok_same: "flight_ok S I m M \<Longrightarrow> im_same m m' \<Longrightarrow> flight_ok S I m' M"
  unfolding flight_ok_def using genuine_keeps by blast

lemma genuine_ids:
  assumes "genuine S m f" "length S \<le> 2 ^ 64" "i \<in># frame_ids f"
  shows "i < length S"
  using assms
  by (auto simp: genuine_def im_answer_frame_def unat_of_nat)

lemma flight_ids_bound:
  assumes "flight_ok S I m M" "length S \<le> 2 ^ 64" "i \<in># flight_ids M"
  shows "i < length S"
proof -
  from assms(3) obtain f where "f \<in># M" "i \<in># frame_ids f" by (auto simp: flight_ids_def)
  then show ?thesis using assms genuine_ids by (auto simp: flight_ok_def)
qed

lemma genuine_more: "genuine S m f \<Longrightarrow> genuine (S @ S') m f"
  by (auto simp: genuine_def nth_append)

subsection \<open>Quiet steps keep the invariant\<close>

lemma context_fails_kind: "context_fails c c' \<Longrightarrow> context_kind c' = context_kind c"
  by (auto simp: context_fails_def)

lemma out_ok_quiet:
  assumes "out_ok S m" "om_quiet m m'"
  shows "out_ok S m'"
proof -
  have "context_kind (om_contexts m' c) = context_kind (om_contexts m c)" for c
    using assms(2) by (simp add: om_quiet_def context_fails_kind)
  then show ?thesis
    using assms unfolding out_ok_def om_quiet_def by fastforce
qed

lemma got_ok_fails:
  assumes "got_ok S I om im" "om_nextContext om' = om_nextContext om"
    "\<forall>c. context_fails (om_contexts om c) (om_contexts om' c)"
  shows "got_ok S I om' im"
  unfolding got_ok_def
proof (intro allI impI)
  fix c oc
  assume c: "c < om_nextContext om'" "outcome_of (om_contexts om' c) = Some oc"
  then show "(\<exists>x. oc = Failed x) \<or> answered_by S I im c oc"
    using assms unfolding got_ok_def context_fails_def by (metis option.inject)
qed

lemma got_ok_same: "got_ok S I om im \<Longrightarrow> im_same im im' \<Longrightarrow> got_ok S I om im'"
  by (simp add: got_ok_def answered_by_def im_same_def)

lemma in_ok_same:
  assumes "in_ok S G I m" "im_same m m'"
  shows "in_ok S G I m'"
proof -
  have s: "im_nextContext m' = im_nextContext m"
    "ic_responseId (im_contexts m' a) = ic_responseId (im_contexts m a)"
    "ic_promise (im_contexts m' a) = Fulfilled x \<longleftrightarrow> ic_promise (im_contexts m a) = Fulfilled x" for a x
    using assms(2) by (simp_all add: im_same_def)
  show ?thesis using assms(1) unfolding in_ok_def s .
qed

lemma stream_ok_reader: "stream_ok F ch s t \<Longrightarrow> reader_keeps t t' \<Longrightarrow> stream_ok F ch s t'"
  by (auto simp: stream_ok_def reader_keeps_def)

lemma stream_ok_writer:
  "stream_ok F ch s t \<Longrightarrow> (writer_closed s \<Longrightarrow> writer_closed s') \<Longrightarrow> stream_ok F ch s' t"
  unfolding stream_ok_def by blast

lemma sender_same:
  assumes "dir_ok S G I F ch e q" "om_quiet (ep_outcoming e) (ep_outcoming e')"
    "im_same (ep_incoming e) (ep_incoming e')" "ep_flight e' \<subseteq># ep_flight e"
    "writer_closed (ep_socketWrapper e) \<Longrightarrow> writer_closed (ep_socketWrapper e')"
  shows "dir_ok S G I F ch e' q"
proof -
  have "ep_flight e' + mset F \<subseteq># ep_flight e + mset F" using assms(4) by simp
  then have "flight_ok S I (ep_incoming e) (ep_flight e' + mset F)"
    using assms(1) flight_ok_mono by (auto simp: dir_ok_def)
  then have "flight_ok S I (ep_incoming e') (ep_flight e' + mset F)"
    using assms(3) flight_ok_same by blast
  moreover have "got_ok S I (ep_outcoming e') (ep_incoming q)"
    using assms(1,2) got_ok_fails [of S I "ep_outcoming e"] by (simp add: dir_ok_def om_quiet_def)
  moreover have "stream_ok F ch (ep_socketWrapper e') (ep_socketWrapper q)"
    using assms(1,5) stream_ok_writer unfolding dir_ok_def by blast
  ultimately show ?thesis
    using assms(1,2) out_ok_quiet by (auto simp: dir_ok_def)
qed

lemma sender_quiet:
  "dir_ok S G I F ch e q \<Longrightarrow> ep_quiet e e' \<Longrightarrow> dir_ok S G I F ch e' q"
  using sender_same unfolding ep_quiet_def by blast

lemma receiver_same:
  assumes "dir_ok S G I F ch e q" "im_same (ep_incoming q) (ep_incoming q')"
    "reader_keeps (ep_socketWrapper q) (ep_socketWrapper q')"
  shows "dir_ok S G I F ch e q'"
  using assms in_ok_same got_ok_same stream_ok_reader unfolding dir_ok_def by blast

lemma receiver_quiet:
  "dir_ok S G I F ch e q \<Longrightarrow> ep_quiet q q' \<Longrightarrow> dir_ok S G I F ch e q'"
  using receiver_same unfolding ep_quiet_def by blast


subsection \<open>A new request\<close>

lemma sender_new_request:
  assumes d: "dir_ok S G I F ch e q" and size: "frame_size (request_frame_of 0 r) < 2 ^ 64"
  shows "dir_ok S G I F ch (snd (ep_sendRequest r (request_kind r) del e)) q"
proof -
  let ?m = "ep_outcoming e"
  let ?m' = "sendRequest r (request_kind r) del ?m"
  have out: "out_ok S ?m'"
    using d size unfolding dir_ok_def out_ok_def sendRequest_def by fastforce
  have got: "got_ok S I ?m' (ep_incoming q)"
    using d by (auto simp: dir_ok_def got_ok_def sendRequest_def less_Suc_eq)
  have "ep_flight (snd (ep_sendRequest r (request_kind r) del e)) = ep_flight e"
    by (simp add: ep_sendRequest_def sendRequest_def ep_flight_def)
  then show ?thesis using d out got by (simp add: dir_ok_def ep_sendRequest_def)
qed

text \<open>A posted request gets the next id, which no frame and no signal has yet.\<close>

lemma in_ok_more: "in_ok S G I m \<Longrightarrow> in_ok (S @ S') G I m"
  unfolding in_ok_def by (fastforce simp: nth_append)

lemma answered_by_more:
  "answered_by S I m c oc \<Longrightarrow> \<forall>a < length I. I ! a < length S \<Longrightarrow> answered_by (S @ S') I m c oc"
  unfolding answered_by_def by (fastforce simp: nth_append)

lemma in_ok_ids: "in_ok S G I m \<Longrightarrow> \<forall>a < length I. I ! a < length S"
  by (simp add: in_ok_def)

lemma out_ok_sends:
  assumes out: "out_ok S m" and s: "om_sends r c m m'" and p: "(r, c, del) \<in> set (om_posted m)"
    and len: "length S < 2 ^ 64"
  shows "out_ok (S @ [(r, c)]) m'"
proof -
  have u: "unat (om_requestIdCounter m) = length S"
    using out len by (simp add: out_ok_def unat_of_nat)
  have k: "context_kind (om_contexts m' a) = context_kind (om_contexts m a)" for a
    using s by (simp add: om_sends_def context_fails_kind)
  have n: "om_nextContext m' = om_nextContext m" and cnt: "om_requestIdCounter m' = word_of_nat (length S) + 1"
    and po: "set (om_posted m') \<subseteq> set (om_posted m)"
    using s out by (simp_all add: om_sends_def out_ok_def)
  have new: "c < om_nextContext m \<and> context_kind (om_contexts m c) = request_kind r \<and>
      frame_size (request_frame_of 0 r) < 2 ^ 64"
    using out p unfolding out_ok_def by fastforce
  have pending: "unat i < length (S @ [(r, c)]) \<and> (S @ [(r, c)]) ! unat i = (pr_request x, pr_context x)"
    if "(i, x) \<in> set (om_pendingRequests m')" for i x
  proof -
    from that s consider "(i, x) \<in> set (om_pendingRequests m)"
      | "i = om_requestIdCounter m" "pr_request x = r" "pr_context x = c"
      unfolding om_sends_def by auto
    then show ?thesis
    proof cases
      case 1
      then have "unat i < length S \<and> S ! unat i = (pr_request x, pr_context x)"
        using out unfolding out_ok_def by blast
      then show ?thesis by (simp add: nth_append)
    next
      case 2
      then show ?thesis using u by (simp add: nth_append)
    qed
  qed
  show ?thesis
    unfolding out_ok_def k n cnt
  proof (intro conjI)
    show "word_of_nat (length S) + 1 = (word_of_nat (length (S @ [(r, c)])) :: size_t)" by simp
    show "\<forall>(i, p) \<in> set (om_pendingRequests m'). unat i < length (S @ [(r, c)]) \<and>
        (S @ [(r, c)]) ! unat i = (pr_request p, pr_context p)"
      using pending by blast
    show "\<forall>(r, c, d) \<in> set (om_posted m'). c < om_nextContext m \<and>
        context_kind (om_contexts m c) = request_kind r \<and> frame_size (request_frame_of 0 r) < 2 ^ 64"
      using out po unfolding out_ok_def by blast
    show "\<forall>(r, c) \<in> set (S @ [(r, c)]). c < om_nextContext m \<and>
        context_kind (om_contexts m c) = request_kind r \<and> frame_size (request_frame_of 0 r) < 2 ^ 64"
      using out new unfolding out_ok_def by auto
  qed
qed

lemma count_not_in:
  assumes "\<And>i :: nat. i \<in># N \<Longrightarrow> i < n"
  shows "count N n = 0"
  using assms [of n] by (auto simp: not_in_iff [symmetric])

lemma flight_ok_sends:
  assumes fl: "flight_ok S I im M" and sub: "M' \<subseteq># add_mset (request_frame_of (word_of_nat (length S)) r) M"
    and ids: "\<forall>a < length I. I ! a < length S" and len: "length S < 2 ^ 64"
    and size: "frame_size (request_frame_of 0 r) < 2 ^ 64"
  shows "flight_ok (S @ [(r, c)]) I im M'"
proof -
  let ?f = "request_frame_of (word_of_nat (length S)) r"
  have u: "unat (word_of_nat (length S) :: size_t) = length S" using len by (simp add: unat_of_nat)
  have small: "i < length S" if "i \<in># mset I + flight_ids M" for i
  proof -
    from that consider "i \<in> set I" | "i \<in># flight_ids M" by auto
    then show ?thesis
    proof cases
      case 1
      then show ?thesis using ids by (auto simp: in_set_conv_nth)
    next
      case 2
      have "length S \<le> 2 ^ 64" using len by linarith
      then show ?thesis using flight_ids_bound [OF fl] 2 by blast
    qed
  qed
  then have "count (mset I + flight_ids M) (length S) = 0" by (rule count_not_in)
  moreover have "mset I + flight_ids (add_mset ?f M) = add_mset (length S) (mset I + flight_ids M)"
    using u by simp
  ultimately have once: "once (mset I + flight_ids (add_mset ?f M))"
    using fl by (simp add: flight_ok_def once_def)
  have "genuine (S @ [(r, c)]) im ?f"
    unfolding genuine_def using size frame_size_id(1) [of "word_of_nat (length S)" r]
    by (intro conjI disjI1 exI [of _ "length S"]) simp_all
  then have "\<forall>f \<in># add_mset ?f M. genuine (S @ [(r, c)]) im f"
    using fl genuine_more by (auto simp: flight_ok_def)
  then have "flight_ok (S @ [(r, c)]) I im (add_mset ?f M)" using once by (simp add: flight_ok_def)
  then show ?thesis using sub by (rule flight_ok_mono)
qed

lemma sender_numbers:
  assumes d: "dir_ok S G I F ch e q" and s: "om_sends r c (ep_outcoming e) om"
    and p: "(r, c, del) \<in> set (om_posted (ep_outcoming e))" and len: "length S < 2 ^ 64"
  shows "dir_ok (S @ [(r, c)]) G I F ch (e\<lparr>ep_outcoming := om\<rparr>) q"
proof -
  have dd: "out_ok S (ep_outcoming e)" "flight_ok S I (ep_incoming e) (ep_flight e + mset F)"
    "in_ok S G I (ep_incoming q)" "got_ok S I (ep_outcoming e) (ep_incoming q)"
    "stream_ok F ch (ep_socketWrapper e) (ep_socketWrapper q)"
    using d by (simp_all add: dir_ok_def)
  have size: "frame_size (request_frame_of 0 r) < 2 ^ 64" using dd(1) p unfolding out_ok_def by blast
  let ?f = "request_frame_of (word_of_nat (length S)) r"
  let ?R = "mset (map pw_frame (ep_posted e)) + mset (sock_frames (ep_socketWrapper e)) + mset F"
  have "mset (map fst (om_delayed om)) \<subseteq># add_mset ?f (mset (map fst (om_delayed (ep_outcoming e))))"
    using s dd(1) by (simp only: om_sends_def out_ok_def)
  then have "mset (map fst (om_delayed om)) + ?R \<subseteq>#
      add_mset ?f (mset (map fst (om_delayed (ep_outcoming e)))) + ?R"
    by (rule subset_mset.add_right_mono)
  then have sub: "ep_flight (e\<lparr>ep_outcoming := om\<rparr>) + mset F \<subseteq># add_mset ?f (ep_flight e + mset F)"
    by (simp add: ep_flight_def ac_simps)
  have fl: "flight_ok (S @ [(r, c)]) I (ep_incoming e) (ep_flight (e\<lparr>ep_outcoming := om\<rparr>) + mset F)"
    using flight_ok_sends [OF dd(2) sub in_ok_ids [OF dd(3)] len size] .
  have "got_ok S I om (ep_incoming q)"
    using got_ok_fails [OF dd(4)] s by (simp add: om_sends_def)
  then have "got_ok (S @ [(r, c)]) I om (ep_incoming q)"
    using answered_by_more [OF _ in_ok_ids [OF dd(3)]] unfolding got_ok_def by blast
  then show ?thesis
    using fl out_ok_sends [OF dd(1) s p len] in_ok_more [OF dd(3)] dd(5) by (simp add: dir_ok_def)
qed

subsection \<open>An answer\<close>

lemma im_setPromise_contexts:
  assumes "im_setPromise a (Some x) m = Inr m'"
  shows "im_nextContext m' = im_nextContext m"
    "ic_responseId (im_contexts m' b) = ic_responseId (im_contexts m b)"
    "ic_promise (im_contexts m' b) = Fulfilled y \<longleftrightarrow>
       ic_promise (im_contexts m b) = Fulfilled y \<or>
       b = a \<and> y = x \<and> a < im_nextContext m \<and> ic_promise (im_contexts m a) = NotSet"
  using assms by (auto simp: im_setPromise_eq im_update_context_def split: if_splits)

lemma genuine_answer:
  assumes "genuine S m f" "im_setPromise a (Some x) m = Inr m'"
  shows "genuine S m' f"
  using assms(1) im_setPromise_contexts [OF assms(2)] unfolding genuine_def im_answer_frame_def by metis

lemma sender_answer:
  assumes "dir_ok S G I F ch e q" "im_setPromise a (Some x) (ep_incoming e) = Inr im"
  shows "dir_ok S G I F ch (e\<lparr>ep_incoming := im\<rparr>) q"
proof -
  have "ep_flight (e\<lparr>ep_incoming := im\<rparr>) = ep_flight e" by (simp add: ep_flight_def)
  then show ?thesis
    using assms(1) genuine_answer [OF _ assms(2)] by (simp add: dir_ok_def flight_ok_def)
qed

lemma receiver_answer:
  assumes d: "dir_ok S G I F ch e q" and r: "im_setPromise a (Some x) (ep_incoming q) = Inr im"
    and fits: "answer_fits (G ! a) x" "frame_size (response_frame_of 0 (answer_response x)) < 2 ^ 64"
  shows "dir_ok S G I F ch e (q\<lparr>ep_incoming := im\<rparr>)"
proof -
  note P = im_setPromise_contexts [OF r]
  have "in_ok S G I im"
    using d fits unfolding dir_ok_def in_ok_def P by blast
  moreover have "got_ok S I (ep_outcoming e) im"
    using d unfolding dir_ok_def got_ok_def answered_by_def P by blast
  ultimately show ?thesis using d by (simp add: dir_ok_def)
qed

text \<open>The frame of an answer leaves the manager.\<close>

lemma sender_writes_answer:
  assumes d: "dir_ok S G I F ch e q" and qin: "in_ok S' G' I' (ep_incoming e)"
    and r: "im_runPosted n (ep_incoming e) = (im, ws)" and fine: "ep_fine e"
  shows "dir_ok S G I F ch (e\<lparr>ep_incoming := im, ep_posted := ep_posted e @ ws\<rparr>) q"
proof -
  note R = im_runPosted_cases [OF ep_fineD(5) [OF fine] r]
  let ?e = "e\<lparr>ep_incoming := im, ep_posted := ep_posted e @ ws\<rparr>"
  have fl: "flight_ok S I (ep_incoming e) (ep_flight e + mset F)" using d by (simp add: dir_ok_def)
  have eq: "ep_flight ?e + mset F = mset (map pw_frame ws) + (ep_flight e + mset F)"
    by (simp add: ep_flight_def ac_simps)
  have g: "genuine S (ep_incoming e) (pw_frame w)" "frame_ids (pw_frame w) = {#}" if "w \<in> set ws" for w
  proof -
    have f: "im_answer_frame (ep_incoming e) (pw_frame w)" using R(2) that by blast
    then obtain a i x where a: "a < im_nextContext (ep_incoming e)"
      "ic_promise (im_contexts (ep_incoming e) a) = Fulfilled x" "pw_frame w = response_frame_of i (answer_response x)"
      unfolding im_answer_frame_def by blast
    have "frame_size (response_frame_of 0 (answer_response x)) < 2 ^ 64"
      using qin a(1,2) unfolding in_ok_def by metis
    then show "genuine S (ep_incoming e) (pw_frame w)" "frame_ids (pw_frame w) = {#}"
      using f a(3) frame_size_id(2) [of i] by (simp_all add: genuine_def)
  qed
  have "flight_ids (mset (map pw_frame ws)) = {#}" using R(3) g(2) by auto
  then have "flight_ok S I (ep_incoming e) (ep_flight ?e + mset F)"
    using fl g(1) unfolding eq by (auto simp: flight_ok_def)
  then have "flight_ok S I im (ep_flight ?e + mset F)" using R(1) by (rule flight_ok_same)
  then show ?thesis using d by (simp add: dir_ok_def)
qed


subsection \<open>Writing\<close>

lemma unread_append: "unread t (ch @ x) = unread t ch @ x"
  by (simp add: unread_def)

lemma stream_ok_write:
  assumes "stream_ok F ch s t" "\<not> writer_closed s"
  shows "stream_ok (F @ [f]) (ch @ framed f) s' t"
    and "frame_size f < 2 ^ 64 \<Longrightarrow> writer_closed s' \<Longrightarrow> strict_prefix p (framed f) \<Longrightarrow> stream_ok F (ch @ p) s' t"
  using assms by (auto simp: stream_ok_def unread_append)

lemma ep_Written_cases:
  assumes fine: "ep_fine e" and st: "ep_step alloc e (EP_Written False) = Inr (e', out)"
  shows "e' = e \<and> out = [] \<or>
    (\<exists>f s om. e' = e\<lparr>ep_socketWrapper := s, ep_outcoming := om\<rparr> \<and> om_quiet (ep_outcoming e) om \<and>
       current_frames (ep_socketWrapper e) = [f] \<and> \<not> writer_closed (ep_socketWrapper e) \<and>
       add_mset f (mset (sock_frames s)) \<subseteq># mset (sock_frames (ep_socketWrapper e)) \<and> current_ok s \<and>
       reader_keeps (ep_socketWrapper e) s \<and> ep_sent out = framed f \<and> ep_signals out = [])"
proof (cases "sw_current (ep_socketWrapper e)")
  case None
  then show ?thesis using st by (simp add: ep_socket_step_def onWritten_def)
next
  case (Some c)
  obtain ps n where c: "sw_current (ep_socketWrapper e) = Some (ps, n)" using Some by (cases c) simp
  let ?s = "fst (onWritten (ep_socketWrapper e) False)"
  from sw_write_done_step [OF ep_fineD(3,2) [OF fine] c] obtain f rest where
    f: "current_frames (ep_socketWrapper e) = [f]" "snd (onWritten (ep_socketWrapper e) False) = Sent (framed f) # rest"
      "plain_outs rest" "current_ok ?s"
      "add_mset f (mset (sock_frames ?s)) \<subseteq># mset (sock_frames (ep_socketWrapper e))"
      "reader_keeps (ep_socketWrapper e) ?s" by blast
  from st f(2) obtain out2 where o: "ep_socket_outputs alloc rest (e\<lparr>ep_socketWrapper := ?s\<rparr>) = Inr (e', out2)"
    "out = EP_Sock (Sent (framed f)) # out2"
    by (auto simp: ep_socket_step_def case_prod_beta split: sum.splits)
  from ep_socket_outputs_plain [OF f(3) o(1)] obtain om where
    "e' = e\<lparr>ep_socketWrapper := ?s, ep_outcoming := om\<rparr>" "om_quiet (ep_outcoming e) om"
    "ep_sent out2 = []" "ep_signals out2 = []" by auto
  then show ?thesis using f o(2) c by (auto simp: writer_closed_def)
qed

lemma ep_WriteFails_cases:
  assumes fine: "ep_fine e" and st: "ep_step alloc e (EP_Written True) = Inr (e', out)"
    and some: "current_writes (ep_socketWrapper e) \<noteq> []"
  shows "\<exists>f s om. e' = e\<lparr>ep_socketWrapper := s, ep_outcoming := om\<rparr> \<and> om_quiet (ep_outcoming e) om \<and>
       current_frames (ep_socketWrapper e) = [f] \<and> \<not> writer_closed (ep_socketWrapper e) \<and> writer_closed s \<and>
       add_mset f (mset (sock_frames s)) \<subseteq># mset (sock_frames (ep_socketWrapper e)) \<and> current_ok s \<and>
       current_writes (ep_socketWrapper e) = [framed f] \<and>
       reader_keeps (ep_socketWrapper e) s \<and> ep_sent out = [] \<and> ep_signals out = []"
proof -
  obtain ps n where c: "sw_current (ep_socketWrapper e) = Some (ps, n)"
    using some by (auto simp: current_writes_def split: option.splits)
  let ?s = "fst (onWritten (ep_socketWrapper e) True)"
  from sw_write_fails_step [OF ep_fineD(3,2) [OF fine] c] obtain f where
    f: "current_frames (ep_socketWrapper e) = [f]" "concat (map (piece_bytes (ep_socketWrapper e)) ps) = framed f"
      "plain_outs (snd (sw_step alloc (ep_socketWrapper e) (Written True)))" "current_ok ?s"
      "add_mset f (mset (sock_frames ?s)) \<subseteq># mset (sock_frames (ep_socketWrapper e))"
      "reader_keeps (ep_socketWrapper e) ?s" "writer_closed ?s" by auto
  have st': "ep_socket_step alloc e (Written True) = Inr (e', out)" using st by simp
  from ep_socket_plain [OF st' f(3)] show ?thesis
    using f c by (fastforce simp: writer_closed_def current_writes_def)
qed

lemma flight_moves:
  assumes "add_mset f (mset (sock_frames s)) \<subseteq># mset (sock_frames (ep_socketWrapper e))"
    "om_quiet (ep_outcoming e) om"
  shows "add_mset f (ep_flight (e\<lparr>ep_socketWrapper := s, ep_outcoming := om\<rparr>)) \<subseteq># ep_flight e"
proof -
  have d: "mset (map fst (om_delayed om)) \<subseteq># mset (map fst (om_delayed (ep_outcoming e)))"
    using assms(2) by (simp only: om_quiet_def)
  have "add_mset f (ep_flight (e\<lparr>ep_socketWrapper := s, ep_outcoming := om\<rparr>)) =
      mset (map fst (om_delayed om)) + mset (map pw_frame (ep_posted e)) + add_mset f (mset (sock_frames s))"
    by (simp add: ep_flight_def)
  also have "\<dots> \<subseteq># ep_flight e"
    unfolding ep_flight_def by (intro subset_mset.add_mono d assms(1) subset_mset.order_refl)
  finally show ?thesis .
qed

text \<open>A whole frame, or the beginning of one, goes onto the stream.\<close>

lemma sender_writes:
  assumes d: "dir_ok S G I F ch e q" and e': "e' = e\<lparr>ep_socketWrapper := s, ep_outcoming := om\<rparr>"
    and q: "om_quiet (ep_outcoming e) om" and opn: "\<not> writer_closed (ep_socketWrapper e)"
    and m: "add_mset f (mset (sock_frames s)) \<subseteq># mset (sock_frames (ep_socketWrapper e))"
  shows "dir_ok S G I (F @ [f]) (ch @ framed f) e' q"
    and "writer_closed s \<Longrightarrow> strict_prefix p (framed f) \<Longrightarrow> dir_ok S G I F (ch @ p) e' q"
proof -
  have dd: "out_ok S (ep_outcoming e)" "flight_ok S I (ep_incoming e) (ep_flight e + mset F)"
    "in_ok S G I (ep_incoming q)" "got_ok S I (ep_outcoming e) (ep_incoming q)"
    "stream_ok F ch (ep_socketWrapper e) (ep_socketWrapper q)"
    using d by (simp_all add: dir_ok_def)
  have mv: "add_mset f (ep_flight e') \<subseteq># ep_flight e" unfolding e' using m q by (rule flight_moves)
  then have "add_mset f (ep_flight e') + mset F \<subseteq># ep_flight e + mset F" by (rule subset_mset.add_right_mono)
  then have fl: "flight_ok S I (ep_incoming e) (add_mset f (ep_flight e') + mset F)"
    using dd(2) flight_ok_mono by blast
  then have size: "frame_size f < 2 ^ 64" by (simp add: flight_ok_def genuine_def)
  have base: "out_ok S (ep_outcoming e')" "got_ok S I (ep_outcoming e') (ep_incoming q)"
    "ep_incoming e' = ep_incoming e" "ep_socketWrapper e' = s"
    using out_ok_quiet [OF dd(1) q] got_ok_fails [OF dd(4)] q by (simp_all add: e' om_quiet_def)
  have "flight_ok S I (ep_incoming e') (ep_flight e' + mset (F @ [f]))" using fl base(3) by simp
  then show "dir_ok S G I (F @ [f]) (ch @ framed f) e' q"
    using base dd(3) stream_ok_write(1) [OF dd(5) opn] by (simp add: dir_ok_def)
  have "ep_flight e' + mset F \<subseteq># add_mset f (ep_flight e') + mset F" by simp
  then have "flight_ok S I (ep_incoming e') (ep_flight e' + mset F)"
    using fl base(3) flight_ok_mono by metis
  then show "dir_ok S G I F (ch @ p) e' q" if "writer_closed s" "strict_prefix p (framed f)"
    using base dd(3) stream_ok_write(2) [OF dd(5) opn size that] by (simp add: dir_ok_def)
qed


subsection \<open>Reading\<close>

lemma framed_split: "framed f = size_bytes (word_of_nat (frame_size f)) @ concat f"
  by (simp add: framed_def)

text \<open>A read of as many bytes as the size says brings exactly the next frame.\<close>

lemma stream_head:
  assumes st: "size_bytes n @ ch = concat (map framed F) @ p" and len: "unat n \<le> length ch"
    and sizes: "\<forall>f \<in> set F. frame_size f < 2 ^ 64"
    and p: "p = [] \<or> (\<exists>f. frame_size f < 2 ^ 64 \<and> strict_prefix p (framed f))"
  shows "\<exists>f F'. F = f # F' \<and> take (unat n) ch = concat f \<and> drop (unat n) ch = concat (map framed F') @ p"
proof (cases F)
  case (Cons f F')
  then have "size_bytes n @ ch = size_bytes (word_of_nat (frame_size f)) @ concat f @ concat (map framed F') @ p"
    using st by (simp add: framed_split)
  then have "n = word_of_nat (frame_size f)" "ch = concat f @ concat (map framed F') @ p"
    by (simp_all add: append_eq_append_conv)
  moreover from this(1) have "unat n = length (concat f)"
    using sizes Cons by (simp add: unat_of_nat frame_size_concat [symmetric])
  ultimately show ?thesis using Cons by simp
next
  case Nil
  then obtain f z where f: "frame_size f < 2 ^ 64" "framed f = p @ z" "z \<noteq> []" and p': "size_bytes n @ ch = p"
    using st p by (auto simp: strict_prefix_def prefix_def)
  then have "size_bytes (word_of_nat (frame_size f)) @ concat f = size_bytes n @ ch @ z"
    using framed_split [of f] by simp
  then have "n = word_of_nat (frame_size f)" "concat f = ch @ z"
    by (simp_all add: append_eq_append_conv)
  moreover from this(1) have "unat n = length (concat f)"
    using f(1) by (simp add: unat_of_nat frame_size_concat [symmetric])
  ultimately show ?thesis using len f(3) by simp
qed

lemma ep_FrameSizeRead_cases:
  assumes fine: "ep_fine e" and st: "ep_step alloc e (EP_FrameSizeRead (Some bs)) = Inr (e', out)"
    and r: "sw_reading (ep_socketWrapper e) = ReadingFrameSize" "length bs = 8"
  shows "om_quiet (ep_outcoming e) (ep_outcoming e') \<and> ep_incoming e' = ep_incoming e \<and>
    ep_flight e' \<subseteq># ep_flight e \<and> current_ok (ep_socketWrapper e') \<and>
    (writer_closed (ep_socketWrapper e) \<longrightarrow> writer_closed (ep_socketWrapper e')) \<and>
    (dead_reader (ep_socketWrapper e') \<or>
       (\<forall>ch. unread (ep_socketWrapper e') ch = unread (ep_socketWrapper e) (bs @ ch))) \<and>
    ep_sent out = [] \<and> ep_signals out = []"
proof -
  let ?r = "onFrameSizeRead alloc (ep_socketWrapper e) (Some bs)"
  note R = sw_size_read_step [OF ep_fineD(2,3) [OF fine] r refl, of alloc]
  have st': "ep_socket_step alloc e (FrameSizeRead (Some bs)) = Inr (e', out)" using st by simp
  have plain: "plain_outs (snd (sw_step alloc (ep_socketWrapper e) (FrameSizeRead (Some bs))))" using R(2) by simp
  from ep_socket_plain [OF st' plain] obtain om where
    om: "e' = e\<lparr>ep_socketWrapper := fst ?r, ep_outcoming := om\<rparr>" "om_quiet (ep_outcoming e) om"
      "mset (map fst (om_delayed om)) \<subseteq># mset (map fst (om_delayed (ep_outcoming e)))"
    and o: "ep_sent out = []" "ep_signals out = []" by auto
  have "ep_flight e' \<subseteq># ep_flight e"
    unfolding ep_flight_def om(1) using om(3) R(3) by (auto intro: subset_mset.add_mono)
  then show ?thesis using om R o by simp
qed

lemma receiver_reads_size:
  assumes d: "dir_ok S G I F ch e q" and im: "ep_incoming q' = ep_incoming q"
    and n: "sw_reading (ep_socketWrapper q) = ReadingFrameSize"
    and r: "dead_reader (ep_socketWrapper q') \<or>
       (\<forall>c. unread (ep_socketWrapper q') c = unread (ep_socketWrapper q) (take 8 ch @ c))"
  shows "dir_ok S G I F (drop 8 ch) e q'"
proof -
  have "\<not> dead_reader (ep_socketWrapper q)" using n by (simp add: dead_reader_def)
  then have "stream_ok F (drop 8 ch) (ep_socketWrapper e) (ep_socketWrapper q')"
    using d r unfolding dir_ok_def stream_ok_def by (metis append_take_drop_id)
  then show ?thesis using d im by (simp add: dir_ok_def)
qed

lemma ep_onIncomingFrame_null: "ep_onIncomingFrame alloc None e = Inr (e, [])"
  by (simp add: ep_onIncomingFrame_def im_onIncomingFrame_def om_onIncomingFrame_def)

text \<open>A frame that has been read is dropped or reaches the managers.\<close>

lemma ep_FrameRead_cases:
  assumes fine: "ep_fine e" and st: "ep_step alloc e (EP_FrameRead (Some bs)) = Inr (e', out)"
    and r: "sw_reading (ep_socketWrapper e) = ReadingFrame"
  shows "\<exists>s. current_ok s \<and> sock_frames s = sock_frames (ep_socketWrapper e) \<and>
    (writer_closed (ep_socketWrapper e) \<longrightarrow> writer_closed s) \<and>
    (dead_reader s \<or> (\<forall>ch. unread s ch = ch)) \<and>
    (e' = e\<lparr>ep_socketWrapper := s\<rparr> \<and> out = [] \<or>
     ep_onIncomingFrame alloc (Some bs) (e\<lparr>ep_socketWrapper := s\<rparr>) = Inr (e', out))"
proof -
  let ?r = "onFrameRead (ep_socketWrapper e) (Some bs)"
  let ?e = "e\<lparr>ep_socketWrapper := fst ?r\<rparr>"
  note R = sw_frame_read_step [OF ep_fineD(2,3) [OF fine] r refl, of bs]
  have st': "ep_socket_outputs alloc (snd ?r) ?e = Inr (e', out)"
    using st by (simp add: ep_socket_step_def case_prod_beta)
  have "e' = ?e \<and> out = [] \<or> ep_onIncomingFrame alloc (Some bs) ?e = Inr (e', out)"
  proof -
    from R(4) consider "snd ?r = []" | f where "snd ?r = [Emit_incomingFrame f]" "f = None \<or> f = Some bs" by blast
    then show ?thesis
    proof cases
      case 1
      then show ?thesis using st' by simp
    next
      case 2
      then show ?thesis
        using st' by (auto simp: ep_onIncomingFrame_null split: if_splits sum.splits prod.splits)
    qed
  qed
  then show ?thesis using R by (intro exI [of _ "fst ?r"]) auto
qed

lemma flight_ok_tail:
  assumes "flight_ok S I m (N + mset (f # F))"
  shows "flight_ok S I m (N + mset F)"
proof (rule flight_ok_mono [OF assms])
  have "N + mset F \<subseteq># add_mset f (N + mset F)" by (rule subset_add_mset) (rule subset_mset.order_refl)
  then show "N + mset F \<subseteq># N + mset (f # F)" by simp
qed

lemma receiver_drops:
  assumes "dir_ok S G I (f # F) ch e q" "ep_incoming q' = ep_incoming q"
    "stream_ok F ch' (ep_socketWrapper e) (ep_socketWrapper q')"
  shows "dir_ok S G I F ch' e q'"
  using assms flight_ok_tail unfolding dir_ok_def by metis

text \<open>A request registers a context whose number is the number of its signal.\<close>

lemma im_request_contexts:
  assumes "im_request i m = (a, m')"
  shows "a = im_nextContext m" "im_nextContext m' = Suc (im_nextContext m)"
    "b < im_nextContext m \<Longrightarrow> im_contexts m' b = im_contexts m b"
    "ic_promise (im_contexts m' a) = NotSet"
    "ic_responseId (im_contexts m' a) = Some j \<Longrightarrow> j = i"
  using assms by (auto simp: im_request_eq InContext_create_def split: option.splits)

lemma sender_registers:
  assumes d: "dir_ok S G I F ch e q" and r: "im_request i (ep_incoming e) = (a, m)"
  shows "dir_ok S G I F ch (e\<lparr>ep_incoming := m\<rparr>) q"
proof -
  note R = im_request_contexts [OF r]
  have "genuine S m f" if "genuine S (ep_incoming e) f" for f
    using that R(2,3) unfolding genuine_def im_answer_frame_def by (metis less_Suc_eq)
  then show ?thesis
    using d by (simp add: dir_ok_def flight_ok_def ep_flight_def)
qed

lemma receiver_registers:
  assumes d: "dir_ok S G I (f # F) ch e q" and i: "i < length S" "length S \<le> 2 ^ 64"
    and f: "f = request_frame_of (word_of_nat i) (fst (S ! i))"
    and r: "im_request (word_of_nat i) (ep_incoming q) = (a, m)"
    and s: "ep_incoming q' = m" "stream_ok F ch' (ep_socketWrapper e) (ep_socketWrapper q')"
  shows "dir_ok S (G @ [request_signal (fst (S ! i)) a]) (I @ [i]) F ch' e q'"
proof -
  have dd: "flight_ok S I (ep_incoming e) (ep_flight e + mset (f # F))"
    "in_ok S G I (ep_incoming q)" "got_ok S I (ep_outcoming e) (ep_incoming q)"
    using d by (simp_all add: dir_ok_def)
  note R = im_request_contexts [OF r]
  have len: "length G = im_nextContext (ep_incoming q)" "length I = length G" using dd(2) by (simp_all add: in_ok_def)
  have u: "unat (word_of_nat i :: size_t) = i" using i by (simp add: unat_of_nat)
  have "mset (I @ [i]) + flight_ids (ep_flight e + mset F) = mset I + flight_ids (ep_flight e + mset (f # F))"
    by (simp add: f u ac_simps)
  then have "flight_ok S (I @ [i]) (ep_incoming e) (ep_flight e + mset F)"
    using flight_ok_tail [OF dd(1)] dd(1) unfolding flight_ok_def by metis
  moreover have "in_ok S (G @ [request_signal (fst (S ! i)) a]) (I @ [i]) m"
    unfolding in_ok_def
  proof (intro conjI)
    show "length (G @ [request_signal (fst (S ! i)) a]) = im_nextContext m"
      "length (I @ [i]) = length (G @ [request_signal (fst (S ! i)) a])" using R(2) len by simp_all
    have old: "I ! b < length S \<and> G ! b = request_signal (fst (S ! (I ! b))) b \<and>
        (\<forall>i. ic_responseId (im_contexts m b) = Some i \<longrightarrow> i = word_of_nat (I ! b)) \<and>
        (\<forall>x. ic_promise (im_contexts m b) = Fulfilled x \<longrightarrow>
          answer_fits (G ! b) x \<and> frame_size (response_frame_of 0 (answer_response x)) < 2 ^ 64)"
      if "b < length G" for b
      using dd(2) that R(3) [of b] len unfolding in_ok_def by metis
    have "a = length G" using R(1) len by simp
    show "\<forall>b < length (G @ [request_signal (fst (S ! i)) a]).
        (I @ [i]) ! b < length S \<and>
        (G @ [request_signal (fst (S ! i)) a]) ! b = request_signal (fst (S ! ((I @ [i]) ! b))) b \<and>
        (\<forall>j. ic_responseId (im_contexts m b) = Some j \<longrightarrow> j = word_of_nat ((I @ [i]) ! b)) \<and>
        (\<forall>x. ic_promise (im_contexts m b) = Fulfilled x \<longrightarrow>
          answer_fits ((G @ [request_signal (fst (S ! i)) a]) ! b) x \<and>
          frame_size (response_frame_of 0 (answer_response x)) < 2 ^ 64)" (is "\<forall>b < _. ?P b")
    proof (intro allI impI)
      fix b
      assume "b < length (G @ [request_signal (fst (S ! i)) a])"
      then consider "b < length G" | "b = a" using \<open>a = length G\<close> by force
      then show "?P b"
      proof cases
        case 1
        then have eqs: "(I @ [i]) ! b = I ! b" "(G @ [request_signal (fst (S ! i)) a]) ! b = G ! b"
          using len by (simp_all add: nth_append)
        show ?thesis unfolding eqs by (rule old [OF 1])
      next
        case 2
        then show ?thesis using R(4,5) \<open>a = length G\<close> len i(1) by (simp add: nth_append)
      qed
    qed
  qed
  moreover have "answered_by S (I @ [i]) m c oc" if "answered_by S I (ep_incoming q) c oc" for c oc
  proof -
    from that obtain b x where "b < length I" "snd (S ! (I ! b)) = c"
      "ic_promise (im_contexts (ep_incoming q) b) = Fulfilled x" "oc = answer_outcome (answer_response x)"
      unfolding answered_by_def by blast
    moreover from this have "im_contexts m b = im_contexts (ep_incoming q) b" using R(3) len by simp
    ultimately show ?thesis unfolding answered_by_def by (intro exI [of _ b]) (simp add: nth_append)
  qed
  then have "got_ok S (I @ [i]) (ep_outcoming e) m" using dd(3) unfolding got_ok_def by blast
  ultimately show ?thesis using d s by (simp add: dir_ok_def)
qed


text \<open>A response resolves the context its id belongs to with the value the peer's handler gave.\<close>

lemma got_ok_answered:
  assumes got: "got_ok S I m im" and ans: "om_answered m c oc m'" and by': "answered_by S I im c oc"
  shows "got_ok S I m' im"
  unfolding got_ok_def
proof (intro allI impI)
  fix c' oc'
  assume "c' < om_nextContext m'" "outcome_of (om_contexts m' c') = Some oc'"
  then show "(\<exists>x. oc' = Failed x) \<or> answered_by S I im c' oc'"
    using got ans by' unfolding got_ok_def om_answered_def by (cases "c' = c") auto
qed

lemma out_ok_answered:
  assumes out: "out_ok S m" and ans: "om_answered m c oc m'"
  shows "out_ok S m'"
proof -
  have k: "context_kind (om_contexts m' a) = context_kind (om_contexts m a)" for a
    using ans unfolding om_answered_def by (cases "a = c") auto
  show ?thesis using out ans unfolding out_ok_def k om_answered_def by auto
qed

lemma receive_response:
  assumes d: "dir_ok S G I F ch e p" and fine: "om_core (ep_outcoming e)" and len: "length S \<le> 2 ^ 64"
    and a: "a < im_nextContext (ep_incoming p)" "ic_responseId (im_contexts (ep_incoming p) a) = Some i"
      "ic_promise (im_contexts (ep_incoming p) a) = Fulfilled x"
    and st: "ep_onIncomingFrame alloc (Some (response_frame_bytes i (answer_response x))) e = Inr (e', out)"
  shows "dir_ok S G I F ch e' p \<and> out = [] \<and> (\<exists>om. e' = e\<lparr>ep_outcoming := om\<rparr>)"
proof -
  let ?b = "Some (response_frame_bytes i (answer_response x))"
  have dd: "out_ok S (ep_outcoming e)" "in_ok S G I (ep_incoming p)" "got_ok S I (ep_outcoming e) (ep_incoming p)"
    using d by (simp_all add: dir_ok_def)
  have no: "im_onIncomingFrame ?b = None" by (simp add: im_onIncomingFrame_def)
  obtain om where om: "om_onIncomingFrame alloc ?b (ep_outcoming e) = Inr om"
    and e': "e' = e\<lparr>ep_outcoming := om\<rparr>" "out = []"
    using st by (auto simp: ep_onIncomingFrame_def no split: sum.splits)
  have idx: "a < length I" "I ! a < length S" "i = word_of_nat (I ! a)" "G ! a = request_signal (fst (S ! (I ! a))) a"
    "answer_fits (G ! a) x" "frame_size (response_frame_of 0 (answer_response x)) < 2 ^ 64"
    using dd(2) a unfolding in_ok_def by auto
  have u: "unat i = I ! a" using idx(2,3) len by (simp add: unat_of_nat)
  from om_onIncomingFrame_cases [OF fine om] consider (none) "om = ep_outcoming e"
    | (answer) p' oc where "map_of (om_pendingRequests (ep_outcoming e)) i = Some p'"
      "response_outcome alloc (om_contexts (ep_outcoming e) (pr_context p'))
         (Some (response_payload (answer_response x))) = Some oc"
      "om_answered (ep_outcoming e) (pr_context p') oc om" by auto
  then show ?thesis
  proof cases
    case none
    then show ?thesis using e' d by (auto intro: exI [of _ "ep_outcoming e"])
  next
    case answer
    have "(i, p') \<in> set (om_pendingRequests (ep_outcoming e))" using answer(1) by (rule map_of_SomeD)
    then have s: "S ! (I ! a) = (pr_request p', pr_context p')"
      using dd(1) u unfolding out_ok_def by fastforce
    have "(pr_request p', pr_context p') \<in> set S" using s idx(2) nth_mem by metis
    then have "context_kind (om_contexts (ep_outcoming e) (pr_context p')) = request_kind (pr_request p')"
      using dd(1) unfolding out_ok_def by blast
    then have "answers (om_contexts (ep_outcoming e) (pr_context p')) (answer_response x)"
      using idx(4,5) s answer_fits_answers by simp
    then have "oc = answer_outcome (answer_response x)"
      using response_outcome_sound idx(6) answer(2) by blast
    then have "answered_by S I (ep_incoming p) (pr_context p') oc"
      using idx(1) s a(3) unfolding answered_by_def by (intro exI [of _ a]) auto
    then have "got_ok S I om (ep_incoming p)" by (rule got_ok_answered [OF dd(3) answer(3)])
    moreover have "out_ok S om" using out_ok_answered [OF dd(1) answer(3)] .
    moreover have "ep_flight e' = ep_flight e" using answer(3) by (simp add: e' ep_flight_def om_answered_def)
    ultimately have "dir_ok S G I F ch e' p" using d e' by (simp add: dir_ok_def)
    then show ?thesis using e' by blast
  qed
qed

subsection \<open>Every step keeps the invariant\<close>

text \<open>Both directions after an event of side \<open>b\<close>.\<close>

definition link_after :: "Link \<Rightarrow> bool \<Rightarrow> ep_event \<Rightarrow> byte list \<Rightarrow> Endpoint \<Rightarrow> ep_output list \<Rightarrow> bool" where
  "link_after ln b ev partial e' out \<longleftrightarrow>
     current_ok (ep_socketWrapper e') \<and>
     (\<exists>I F. dir_ok (ln_sent ln b @ numbered_requests (ln_ep ln b) ev) (ln_signals ln (\<not> b)) I F
        (ln_bytes ln b @ partial @ ep_sent out) e' (ln_ep ln (\<not> b))) \<and>
     (\<exists>I F. dir_ok (ln_sent ln (\<not> b)) (ln_signals ln b @ ep_signals out) I F
        (drop (read_bytes ev) (ln_bytes ln (\<not> b))) (ln_ep ln (\<not> b)) e')"

definition link_before :: "Link \<Rightarrow> bool \<Rightarrow> bool" where
  "link_before ln b \<longleftrightarrow>
     ep_fine (ln_ep ln b) \<and>
     (\<exists>I F. dir_ok (ln_sent ln b) (ln_signals ln (\<not> b)) I F (ln_bytes ln b) (ln_ep ln b) (ln_ep ln (\<not> b))) \<and>
     (\<exists>I F. dir_ok (ln_sent ln (\<not> b)) (ln_signals ln b) I F (ln_bytes ln (\<not> b)) (ln_ep ln (\<not> b)) (ln_ep ln b))"

lemma link_ok_before:
  assumes "link_ok ln"
  shows "link_before ln b"
proof -
  from assms obtain I F where d: "dir_ok (ln_sent ln b) (ln_signals ln (\<not> b)) (I b) (F b) (ln_bytes ln b)
      (ln_ep ln b) (ln_ep ln (\<not> b))" for b
    unfolding link_ok_def by blast
  show ?thesis
    using assms d [of b] d [of "\<not> b"] unfolding link_before_def link_ok_def not_not by blast
qed

lemma link_ok_after:
  assumes ok: "link_ok ln" and r: "ep_step alloc (ln_ep ln b) ev' = Inr (e', out)"
    and a: "link_after ln b ev partial e' out"
  shows "link_ok (link_update ln b ev partial (e', out))"
proof -
  from a obtain I1 F1 I2 F2 where
    d: "current_ok (ep_socketWrapper e')"
      "dir_ok (ln_sent ln b @ numbered_requests (ln_ep ln b) ev) (ln_signals ln (\<not> b)) I1 F1
         (ln_bytes ln b @ partial @ ep_sent out) e' (ln_ep ln (\<not> b))"
      "dir_ok (ln_sent ln (\<not> b)) (ln_signals ln b @ ep_signals out) I2 F2
         (drop (read_bytes ev) (ln_bytes ln (\<not> b))) (ln_ep ln (\<not> b)) e'"
    unfolding link_after_def by blast
  have "ep_ok (ln_ep ln b)" using ok by (simp add: link_ok_def ep_fine_def)
  then have "ep_ok e'" using ep_step_ok [of "ln_ep ln b" alloc ev'] r by simp
  then have f: "ep_fine e'" using d(1) by (simp add: ep_fine_def)
  show ?thesis
    unfolding link_ok_def
  proof (intro conjI exI allI)
    show "ep_fine (ln_ep (link_update ln b ev partial (e', out)) b')" for b'
      using f ok by (simp add: link_update_def link_ok_def)
    show "dir_ok (ln_sent (link_update ln b ev partial (e', out)) b')
        (ln_signals (link_update ln b ev partial (e', out)) (\<not> b'))
        (((\<lambda>_. I2)(b := I1)) b') (((\<lambda>_. F2)(b := F1)) b')
        (ln_bytes (link_update ln b ev partial (e', out)) b')
        (ln_ep (link_update ln b ev partial (e', out)) b')
        (ln_ep (link_update ln b ev partial (e', out)) (\<not> b'))" for b'
      using d(2,3) by (cases "b' = b"; cases b; cases b') (simp_all add: link_update_def)
  qed
qed


lemma after_quiet:
  assumes b: "link_before ln b" and q: "ep_quiet (ln_ep ln b) e' \<and> ep_sent out = [] \<and> ep_signals out = []"
    and ev: "numbered_requests (ln_ep ln b) ev = []" "read_bytes ev = 0"
  shows "link_after ln b ev [] e' out"
proof -
  have "current_ok (ep_socketWrapper e')"
    using b q by (simp add: link_before_def ep_fine_def ep_quiet_def)
  moreover from b obtain I F I' F' where
    d: "dir_ok (ln_sent ln b) (ln_signals ln (\<not> b)) I F (ln_bytes ln b) (ln_ep ln b) (ln_ep ln (\<not> b))"
      "dir_ok (ln_sent ln (\<not> b)) (ln_signals ln b) I' F' (ln_bytes ln (\<not> b)) (ln_ep ln (\<not> b)) (ln_ep ln b)"
    unfolding link_before_def by blast
  moreover have "dir_ok (ln_sent ln b) (ln_signals ln (\<not> b)) I F (ln_bytes ln b) e' (ln_ep ln (\<not> b))"
    using sender_quiet [OF d(1)] q by blast
  moreover have "dir_ok (ln_sent ln (\<not> b)) (ln_signals ln b) I' F' (ln_bytes ln (\<not> b)) (ln_ep ln (\<not> b)) e'"
    using receiver_quiet [OF d(2)] q by blast
  ultimately show ?thesis using q ev by (auto simp: link_after_def)
qed

lemma after_SendRequest:
  assumes b: "link_before ln b" and st: "ep_step alloc (ln_ep ln b) (EP_SendRequest r k d) = Inr (e', out)"
    and al: "link_allows ln b (EP_SendRequest r k d)"
  shows "link_after ln b (EP_SendRequest r k d) [] e' out"
proof (cases "ep_alive (ln_ep ln b)")
  case False
  then show ?thesis using st after_quiet [OF b] by simp
next
  case True
  then have e': "e' = snd (ep_sendRequest r (request_kind r) d (ln_ep ln b))" "out = []" using st al by simp_all
  have same: "ep_incoming e' = ep_incoming (ln_ep ln b)" "ep_socketWrapper e' = ep_socketWrapper (ln_ep ln b)"
    by (simp_all add: e' ep_sendRequest_def)
  from b obtain I F I' F' where
    d: "dir_ok (ln_sent ln b) (ln_signals ln (\<not> b)) I F (ln_bytes ln b) (ln_ep ln b) (ln_ep ln (\<not> b))"
      "dir_ok (ln_sent ln (\<not> b)) (ln_signals ln b) I' F' (ln_bytes ln (\<not> b)) (ln_ep ln (\<not> b)) (ln_ep ln b)"
    unfolding link_before_def by blast
  have "dir_ok (ln_sent ln b) (ln_signals ln (\<not> b)) I F (ln_bytes ln b) e' (ln_ep ln (\<not> b))"
    unfolding e' using d(1) al by (intro sender_new_request) simp_all
  moreover have "dir_ok (ln_sent ln (\<not> b)) (ln_signals ln b) I' F' (ln_bytes ln (\<not> b)) (ln_ep ln (\<not> b)) e'"
    using receiver_same [OF d(2), of e'] same by simp
  moreover have "current_ok (ep_socketWrapper e')" using b same by (simp add: link_before_def ep_fine_def)
  ultimately show ?thesis using e'(2) by (auto simp: link_after_def)
qed

lemma after_RunSend:
  assumes b: "link_before ln b" and st: "ep_step alloc (ln_ep ln b) (EP_RunSend n) = Inr (e', out)"
    and len: "length (ln_sent ln b @ numbered_requests (ln_ep ln b) (EP_RunSend n)) \<le> 2 ^ 64"
  shows "link_after ln b (EP_RunSend n) [] e' out"
proof -
  let ?e = "ln_ep ln b"
  obtain om where r: "om_runPosted n (ep_outcoming ?e) = Inr om"
    using st by (cases "om_runPosted n (ep_outcoming ?e)") (auto simp: ep_out_result_def no_writes_def)
  have e': "e' = ?e\<lparr>ep_outcoming := om\<rparr>" "out = []"
    using st r by (simp_all add: ep_out_result_def no_writes_def)
  from om_runPosted_cases [OF r] consider
    (quiet) "om_quiet (ep_outcoming ?e) om" "\<not> (n < length (om_posted (ep_outcoming ?e)) \<and> om_alive (ep_outcoming ?e))"
    | (send) "n < length (om_posted (ep_outcoming ?e))" "om_alive (ep_outcoming ?e)"
      "om_sends (fst (om_posted (ep_outcoming ?e) ! n)) (fst (snd (om_posted (ep_outcoming ?e) ! n))) (ep_outcoming ?e) om"
    by blast
  then show ?thesis
  proof cases
    case quiet
    have "mset (map fst (om_delayed om)) \<subseteq># mset (map fst (om_delayed (ep_outcoming ?e)))"
      using quiet(1) by (simp only: om_quiet_def)
    then have "ep_quiet ?e e'" using quiet(1) by (simp add: e' ep_quiet_def ep_flight_def)
    then show ?thesis using quiet(2) e'(2) by (intro after_quiet [OF b]) auto
  next
    case send
    obtain r c d where x: "om_posted (ep_outcoming ?e) ! n = (r, c, d)" by (cases "om_posted (ep_outcoming ?e) ! n")
    have p: "(r, c, d) \<in> set (om_posted (ep_outcoming ?e))" using send(1) x nth_mem by metis
    have num: "numbered_requests ?e (EP_RunSend n) = [(r, c)]" using send(1,2) x by simp
    then have lt: "length (ln_sent ln b) < 2 ^ 64" using len by simp
    from b obtain I F where
      d: "dir_ok (ln_sent ln b) (ln_signals ln (\<not> b)) I F (ln_bytes ln b) ?e (ln_ep ln (\<not> b))"
      unfolding link_before_def by blast
    have "dir_ok (ln_sent ln b @ [(r, c)]) (ln_signals ln (\<not> b)) I F (ln_bytes ln b) e' (ln_ep ln (\<not> b))"
      unfolding e' using sender_numbers [OF d _ p lt, of om] send(3) x by simp
    moreover have "dir_ok (ln_sent ln (\<not> b)) (ln_signals ln b) I' F' (ln_bytes ln (\<not> b)) (ln_ep ln (\<not> b)) e'"
      if "dir_ok (ln_sent ln (\<not> b)) (ln_signals ln b) I' F' (ln_bytes ln (\<not> b)) (ln_ep ln (\<not> b)) ?e" for I' F'
      using receiver_same [OF that, of e'] by (simp add: e')
    moreover have "current_ok (ep_socketWrapper e')" using b by (simp add: e' link_before_def ep_fine_def)
    ultimately show ?thesis
      using b num e'(2) unfolding link_after_def link_before_def by auto
  qed
qed

lemma after_SetPromise:
  assumes b: "link_before ln b" and st: "ep_step alloc (ln_ep ln b) (EP_SetPromise a (Some x)) = Inr (e', out)"
    and al: "link_allows ln b (EP_SetPromise a (Some x))"
  shows "link_after ln b (EP_SetPromise a (Some x)) [] e' out"
proof (cases "im_setPromise a (Some x) (ep_incoming (ln_ep ln b))")
  case (Inl err)
  then show ?thesis using st after_quiet [OF b] by simp
next
  case (Inr im)
  have e': "e' = (ln_ep ln b)\<lparr>ep_incoming := im\<rparr>" "out = []" using st Inr by simp_all
  have fits: "answer_fits (ln_signals ln b ! a) x" "frame_size (response_frame_of 0 (answer_response x)) < 2 ^ 64"
    using al by simp_all
  have "current_ok (ep_socketWrapper e')" using b by (simp add: e' link_before_def ep_fine_def)
  then show ?thesis
    using b e' sender_answer [OF _ Inr] receiver_answer [OF _ Inr fits]
    unfolding link_after_def link_before_def by (simp add: e') blast
qed

lemma after_RunAnswer:
  assumes b: "link_before ln b" and st: "ep_step alloc (ln_ep ln b) (EP_RunAnswer n) = Inr (e', out)"
  shows "link_after ln b (EP_RunAnswer n) [] e' out"
proof -
  let ?e = "ln_ep ln b"
  obtain im ws where r: "im_runPosted n (ep_incoming ?e) = (im, ws)" by (cases "im_runPosted n (ep_incoming ?e)")
  have e': "e' = ?e\<lparr>ep_incoming := im, ep_posted := ep_posted ?e @ ws\<rparr>" "out = []" using st r by simp_all
  from b obtain I F I' F' where fine: "ep_fine ?e" and
    d: "dir_ok (ln_sent ln b) (ln_signals ln (\<not> b)) I F (ln_bytes ln b) ?e (ln_ep ln (\<not> b))"
      "dir_ok (ln_sent ln (\<not> b)) (ln_signals ln b) I' F' (ln_bytes ln (\<not> b)) (ln_ep ln (\<not> b)) ?e"
    unfolding link_before_def by blast
  have "in_ok (ln_sent ln (\<not> b)) (ln_signals ln b) I' (ep_incoming ?e)" using d(2) by (simp add: dir_ok_def)
  from sender_writes_answer [OF d(1) this r fine]
  have "dir_ok (ln_sent ln b) (ln_signals ln (\<not> b)) I F (ln_bytes ln b) e' (ln_ep ln (\<not> b))" by (simp add: e')
  moreover have "im_same (ep_incoming ?e) im" by (rule im_runPosted_cases(1) [OF ep_fineD(5) [OF fine] r])
  then have "dir_ok (ln_sent ln (\<not> b)) (ln_signals ln b) I' F' (ln_bytes ln (\<not> b)) (ln_ep ln (\<not> b)) e'"
    using receiver_same [OF d(2), of e'] by (simp add: e')
  moreover have "current_ok (ep_socketWrapper e')" using fine by (simp add: e' ep_fine_def)
  ultimately show ?thesis using e'(2) by (auto simp: link_after_def)
qed


lemma after_Written:
  assumes b: "link_before ln b" and st: "ep_step alloc (ln_ep ln b) (EP_Written False) = Inr (e', out)"
  shows "link_after ln b (EP_Written False) [] e' out"
proof -
  let ?e = "ln_ep ln b"
  from b obtain I F I' F' where fine: "ep_fine ?e" and
    d: "dir_ok (ln_sent ln b) (ln_signals ln (\<not> b)) I F (ln_bytes ln b) ?e (ln_ep ln (\<not> b))"
      "dir_ok (ln_sent ln (\<not> b)) (ln_signals ln b) I' F' (ln_bytes ln (\<not> b)) (ln_ep ln (\<not> b)) ?e"
    unfolding link_before_def by blast
  from ep_Written_cases [OF fine st] consider (none) "e' = ?e" "out = []"
    | (sent) f s om where "e' = ?e\<lparr>ep_socketWrapper := s, ep_outcoming := om\<rparr>" "om_quiet (ep_outcoming ?e) om"
       "\<not> writer_closed (ep_socketWrapper ?e)"
       "add_mset f (mset (sock_frames s)) \<subseteq># mset (sock_frames (ep_socketWrapper ?e))" "current_ok s"
       "reader_keeps (ep_socketWrapper ?e) s" "ep_sent out = framed f" "ep_signals out = []" by blast
  then show ?thesis
  proof cases
    case none
    then show ?thesis using after_quiet [OF b] by simp
  next
    case sent
    have "dir_ok (ln_sent ln b) (ln_signals ln (\<not> b)) I (F @ [f]) (ln_bytes ln b @ framed f) e' (ln_ep ln (\<not> b))"
      using sender_writes(1) [OF d(1) sent(1-4)] .
    moreover have "dir_ok (ln_sent ln (\<not> b)) (ln_signals ln b) I' F' (ln_bytes ln (\<not> b)) (ln_ep ln (\<not> b)) e'"
      using receiver_same [OF d(2), of e'] sent(6) by (simp add: sent(1))
    ultimately show ?thesis using sent(1,5,7,8) by (auto simp: link_after_def)
  qed
qed

lemma after_WriteFails:
  assumes b: "link_before ln b" and st: "ep_step alloc (ln_ep ln b) (EP_Written True) = Inr (e', out)"
    and k: "k < length (concat (current_writes (ep_socketWrapper (ln_ep ln b))))"
  shows "link_after ln b (EP_Written True) (take k (concat (current_writes (ep_socketWrapper (ln_ep ln b))))) e' out"
proof -
  let ?e = "ln_ep ln b"
  from b obtain I F I' F' where fine: "ep_fine ?e" and
    d: "dir_ok (ln_sent ln b) (ln_signals ln (\<not> b)) I F (ln_bytes ln b) ?e (ln_ep ln (\<not> b))"
      "dir_ok (ln_sent ln (\<not> b)) (ln_signals ln b) I' F' (ln_bytes ln (\<not> b)) (ln_ep ln (\<not> b)) ?e"
    unfolding link_before_def by blast
  have some: "current_writes (ep_socketWrapper ?e) \<noteq> []" using k by auto
  from ep_WriteFails_cases [OF fine st some] obtain f s om where
    e': "e' = ?e\<lparr>ep_socketWrapper := s, ep_outcoming := om\<rparr>" "om_quiet (ep_outcoming ?e) om"
       "\<not> writer_closed (ep_socketWrapper ?e)"
       "add_mset f (mset (sock_frames s)) \<subseteq># mset (sock_frames (ep_socketWrapper ?e))" "writer_closed s" "current_ok s"
       "current_writes (ep_socketWrapper ?e) = [framed f]"
       "reader_keeps (ep_socketWrapper ?e) s" "ep_sent out = []" "ep_signals out = []" by blast
  let ?p = "take k (framed f)"
  have "k < length (framed f)" using k e'(7) by simp
  then have "?p \<noteq> framed f" by (metis length_take min.absorb4 nat_neq_iff)
  then have "strict_prefix ?p (framed f)" by (simp add: strict_prefix_def take_is_prefix)
  then have "dir_ok (ln_sent ln b) (ln_signals ln (\<not> b)) I F (ln_bytes ln b @ ?p) e' (ln_ep ln (\<not> b))"
    using sender_writes(2) [OF d(1) e'(1-5)] by blast
  moreover have "dir_ok (ln_sent ln (\<not> b)) (ln_signals ln b) I' F' (ln_bytes ln (\<not> b)) (ln_ep ln (\<not> b)) e'"
    using receiver_same [OF d(2), of e'] e'(8) by (simp add: e'(1))
  ultimately show ?thesis using e'(1,6,7,9,10) by (auto simp: link_after_def)
qed

lemma after_FrameSizeRead:
  assumes b: "link_before ln b" and st: "ep_step alloc (ln_ep ln b) (EP_FrameSizeRead (Some bs)) = Inr (e', out)"
    and al: "link_allows ln b (EP_FrameSizeRead (Some bs))"
  shows "link_after ln b (EP_FrameSizeRead (Some bs)) [] e' out"
proof -
  let ?e = "ln_ep ln b"
  let ?ch = "ln_bytes ln (\<not> b)"
  from b obtain I F I' F' where fine: "ep_fine ?e" and
    d: "dir_ok (ln_sent ln b) (ln_signals ln (\<not> b)) I F (ln_bytes ln b) ?e (ln_ep ln (\<not> b))"
      "dir_ok (ln_sent ln (\<not> b)) (ln_signals ln b) I' F' ?ch (ln_ep ln (\<not> b)) ?e"
    unfolding link_before_def by blast
  have r: "sw_reading (ep_socketWrapper ?e) = ReadingFrameSize" "bs = take 8 ?ch" "length bs = 8" using al by auto
  note C = ep_FrameSizeRead_cases [OF fine st r(1,3)]
  have same: "im_same (ep_incoming ?e) (ep_incoming e')" using C by simp
  have "dir_ok (ln_sent ln b) (ln_signals ln (\<not> b)) I F (ln_bytes ln b) e' (ln_ep ln (\<not> b))"
    using sender_same [OF d(1) _ same] C by blast
  moreover have "dir_ok (ln_sent ln (\<not> b)) (ln_signals ln b) I' F' (drop 8 ?ch) (ln_ep ln (\<not> b)) e'"
    using receiver_reads_size [OF d(2) _ r(1), of e'] C r(2) by simp
  moreover have "read_bytes (EP_FrameSizeRead (Some bs)) = 8" using r(3) by simp
  ultimately show ?thesis using C by (auto simp: link_after_def)
qed

text \<open>What is on the stream when a frame has been read: the next frame of the sender.\<close>

lemma read_frame_head:
  assumes d: "dir_ok S G I F ch e q" and r: "sw_reading (ep_socketWrapper q) = ReadingFrame"
    and len: "unat (sw_incomingFrameSize (ep_socketWrapper q)) \<le> length ch"
  shows "\<exists>f F' ch'. F = f # F' \<and> take (unat (sw_incomingFrameSize (ep_socketWrapper q))) ch = concat f \<and>
    drop (unat (sw_incomingFrameSize (ep_socketWrapper q))) ch = ch' \<and> genuine S (ep_incoming e) f \<and>
    (\<forall>s. dead_reader s \<or> (\<forall>c. unread s c = c) \<longrightarrow> stream_ok F' ch' (ep_socketWrapper e) s)"
proof -
  let ?n = "sw_incomingFrameSize (ep_socketWrapper q)"
  have "\<not> dead_reader (ep_socketWrapper q)" using r by (simp add: dead_reader_def)
  then obtain p where p: "size_bytes ?n @ ch = concat (map framed F) @ p"
    "p = [] \<or> writer_closed (ep_socketWrapper e) \<and> (\<exists>f. frame_size f < 2 ^ 64 \<and> strict_prefix p (framed f))"
    using d r by (auto simp: dir_ok_def stream_ok_def unread_def)
  have g: "\<forall>f \<in> set F. genuine S (ep_incoming e) f" using d by (auto simp: dir_ok_def flight_ok_def)
  then have "\<forall>f \<in> set F. frame_size f < 2 ^ 64" by (simp add: genuine_def)
  from stream_head [OF p(1) len this] p(2) obtain f F' where
    f: "F = f # F'" "take (unat ?n) ch = concat f" "drop (unat ?n) ch = concat (map framed F') @ p" by blast
  have "stream_ok F' (drop (unat ?n) ch) (ep_socketWrapper e) s" if "dead_reader s \<or> (\<forall>c. unread s c = c)" for s
    unfolding stream_ok_def f(3) using p(2) that by auto
  then show ?thesis using f g by auto
qed

lemma genuine_cases:
  assumes "genuine S m f"
  obtains (request) i where "i < length S" "f = request_frame_of (word_of_nat i) (fst (S ! i))"
  | (response) a i x where "a < im_nextContext m" "ic_responseId (im_contexts m a) = Some i"
      "ic_promise (im_contexts m a) = Fulfilled x" "f = response_frame_of i (answer_response x)"
  using assms by (auto simp: genuine_def im_answer_frame_def)

lemma after_FrameRead:
  assumes b: "link_before ln b" and st: "ep_step alloc (ln_ep ln b) (EP_FrameRead (Some bs)) = Inr (e', out)"
    and al: "link_allows ln b (EP_FrameRead (Some bs))"
    and len: "length (ln_sent ln b) \<le> 2 ^ 64" "length (ln_sent ln (\<not> b)) \<le> 2 ^ 64"
  shows "link_after ln b (EP_FrameRead (Some bs)) [] e' out"
proof -
  let ?e = "ln_ep ln b"
  let ?q = "ln_ep ln (\<not> b)"
  let ?S = "ln_sent ln (\<not> b)"
  let ?ch = "ln_bytes ln (\<not> b)"
  from b obtain I F I' F' where fine: "ep_fine ?e" and
    d: "dir_ok (ln_sent ln b) (ln_signals ln (\<not> b)) I F (ln_bytes ln b) ?e ?q"
      "dir_ok ?S (ln_signals ln b) I' F' ?ch ?q ?e"
    unfolding link_before_def by blast
  have r: "sw_reading (ep_socketWrapper ?e) = ReadingFrame"
    "unat (sw_incomingFrameSize (ep_socketWrapper ?e)) \<le> length ?ch"
    "bs = take (unat (sw_incomingFrameSize (ep_socketWrapper ?e))) ?ch" using al by auto
  then have nb: "read_bytes (EP_FrameRead (Some bs)) = unat (sw_incomingFrameSize (ep_socketWrapper ?e))" by simp
  from read_frame_head [OF d(2) r(1,2)] obtain f F1 ch' where
    f: "F' = f # F1" "bs = concat f" "drop (read_bytes (EP_FrameRead (Some bs))) ?ch = ch'" "genuine ?S (ep_incoming ?q) f"
      "\<And>s. dead_reader s \<or> (\<forall>c. unread s c = c) \<Longrightarrow> stream_ok F1 ch' (ep_socketWrapper ?q) s"
    unfolding r(3) [symmetric] nb by blast
  from ep_FrameRead_cases [OF fine st r(1)] obtain s where
    s: "current_ok s" "sock_frames s = sock_frames (ep_socketWrapper ?e)"
      "writer_closed (ep_socketWrapper ?e) \<Longrightarrow> writer_closed s" "dead_reader s \<or> (\<forall>ch. unread s ch = ch)"
    and cs: "e' = ?e\<lparr>ep_socketWrapper := s\<rparr> \<and> out = [] \<or>
      ep_onIncomingFrame alloc (Some bs) (?e\<lparr>ep_socketWrapper := s\<rparr>) = Inr (e', out)" by blast
  let ?e1 = "?e\<lparr>ep_socketWrapper := s\<rparr>"
  have fl: "ep_flight ?e1 = ep_flight ?e" using s(2) by (simp add: ep_flight_def)
  have d1: "dir_ok (ln_sent ln b) (ln_signals ln (\<not> b)) I F (ln_bytes ln b) ?e1 ?q"
    using sender_same [OF d(1), of ?e1] fl s(3) by simp
  note str = f(5) [OF s(4)]
  have d2: "dir_ok ?S (ln_signals ln b) I' F1 ch' ?q e2"
    if "ep_incoming e2 = ep_incoming ?e" "ep_socketWrapper e2 = s" for e2
    using receiver_drops [OF d(2) [unfolded f(1)] that(1)] str that(2) by simp
  from cs show ?thesis
  proof
    assume "e' = ?e1 \<and> out = []"
    then show ?thesis using d1 d2 [of e'] s(1) f(3) by (auto simp: link_after_def)
  next
    assume st1: "ep_onIncomingFrame alloc (Some bs) ?e1 = Inr (e', out)"
    from f(4) show ?thesis
    proof (cases rule: genuine_cases)
      case (request i)
      obtain a m where reg: "im_request (word_of_nat i) (ep_incoming ?e) = (a, m)"
        by (cases "im_request (word_of_nat i) (ep_incoming ?e)")
      have e': "e' = ?e1\<lparr>ep_incoming := m\<rparr>" "out = [EP_Incoming (request_signal (fst (?S ! i)) a)]"
        using st1 reg f(2) request(2) by (simp_all add: ep_onIncomingFrame_request ep_register_def)
      have "dir_ok (ln_sent ln b) (ln_signals ln (\<not> b)) I F (ln_bytes ln b) e' ?q"
        unfolding e' using sender_registers [OF d1, of "word_of_nat i" a m] reg by simp
      moreover have "dir_ok ?S (ln_signals ln b @ [request_signal (fst (?S ! i)) a]) (I' @ [i]) F1 ch' ?q e'"
        using receiver_registers [OF d(2) [unfolded f(1)] request(1) len(2) request(2) reg, of e' ch'] str
        by (simp add: e')
      moreover have "current_ok (ep_socketWrapper e')" using s(1) by (simp add: e')
      ultimately show ?thesis using f(3) e'(2) by (auto simp: link_after_def)
    next
      case (response a i x)
      have core: "om_core (ep_outcoming ?e1)" using ep_fineD(4) [OF fine] by simp
      have "ep_onIncomingFrame alloc (Some (response_frame_bytes i (answer_response x))) ?e1 = Inr (e', out)"
        using st1 f(2) response(4) by simp
      from receive_response [OF d1 core len(1) response(1-3) this] obtain om where
        R: "dir_ok (ln_sent ln b) (ln_signals ln (\<not> b)) I F (ln_bytes ln b) e' ?q" "out = []"
          "e' = ?e1\<lparr>ep_outcoming := om\<rparr>" by blast
      then show ?thesis using d2 [of e'] s(1) f(3) by (auto simp: link_after_def)
    qed
  qed
qed

text \<open>Every event, and every step.\<close>

lemma link_event_after:
  assumes b: "link_before ln b" and st: "ep_step alloc (ln_ep ln b) ev = Inr (e', out)" and al: "link_allows ln b ev"
    and len: "length (ln_sent ln b @ numbered_requests (ln_ep ln b) ev) \<le> 2 ^ 64" "length (ln_sent ln (\<not> b)) \<le> 2 ^ 64"
  shows "link_after ln b ev [] e' out"
proof -
  have fine: "ep_fine (ln_ep ln b)" using b by (simp add: link_before_def)
  show ?thesis
  proof (cases ev)
    case EP_Run
    then show ?thesis using ep_Run_quiet [of alloc "ln_ep ln b" e' out] st al by (intro after_quiet [OF b]) simp_all
  next
    case (EP_SendRequest r k d)
    then show ?thesis using after_SendRequest [OF b] st al by blast
  next
    case (EP_RunSend n)
    then show ?thesis using after_RunSend [OF b] st len(1) by blast
  next
    case (EP_DelayExpired n)
    then show ?thesis using ep_DelayExpired_quiet st by (intro after_quiet [OF b]) (blast, simp_all)
  next
    case (EP_TimerExpired n late)
    then show ?thesis using ep_TimerExpired_quiet st by (intro after_quiet [OF b]) (blast, simp_all)
  next
    case (EP_SetPromise a v)
    show ?thesis
    proof (cases v)
      case None
      then show ?thesis using EP_SetPromise ep_abandon_quiet st by (intro after_quiet [OF b]) (blast, simp_all)
    next
      case (Some x)
      then show ?thesis using EP_SetPromise after_SetPromise [OF b] st al by blast
    qed
  next
    case (EP_RunAnswer n)
    then show ?thesis using after_RunAnswer [OF b] st by blast
  next
    case (EP_RunWrite n)
    then show ?thesis using ep_RunWrite_quiet [OF fine] st by (intro after_quiet [OF b]) (blast, simp_all)
  next
    case (EP_Written ec)
    then have "ev = EP_Written False" using al by simp
    then show ?thesis using after_Written [OF b] st by blast
  next
    case (EP_FrameSizeRead r)
    show ?thesis
    proof (cases r)
      case None
      then show ?thesis
        using EP_FrameSizeRead ep_read_fails_quiet [OF fine st] by (intro after_quiet [OF b]) (blast, simp_all)
    next
      case (Some bs)
      then show ?thesis using EP_FrameSizeRead after_FrameSizeRead [OF b] st al by blast
    qed
  next
    case (EP_FrameRead r)
    show ?thesis
    proof (cases r)
      case None
      then show ?thesis
        using EP_FrameRead ep_read_fails_quiet [OF fine st] by (intro after_quiet [OF b]) (blast, simp_all)
    next
      case (Some bs)
      have "length (ln_sent ln b) \<le> 2 ^ 64" using len(1) by simp
      then show ?thesis using Some EP_FrameRead after_FrameRead [OF b _ _ _ len(2)] st al by blast
    qed
  next
    case EP_Destroy
    then show ?thesis using ep_Destroy_quiet [OF fine] st by (intro after_quiet [OF b]) (blast, simp_all)
  qed
qed

lemma link_bounded_update:
  assumes "link_bounded (link_update ln b ev partial r)"
  shows "length (ln_sent ln b @ numbered_requests (ln_ep ln b) ev) \<le> 2 ^ 64" "length (ln_sent ln (\<not> b)) \<le> 2 ^ 64"
    "link_bounded ln"
proof -
  have l: "length (ln_sent (link_update ln b ev partial r) d) \<le> 2 ^ 64" for d
    using assms unfolding link_bounded_def by blast
  have e: "ln_sent (link_update ln b ev partial r) b = ln_sent ln b @ numbered_requests (ln_ep ln b) ev"
    "ln_sent (link_update ln b ev partial r) (\<not> b) = ln_sent ln (\<not> b)" by (simp_all add: link_update_def)
  show 1: "length (ln_sent ln b @ numbered_requests (ln_ep ln b) ev) \<le> 2 ^ 64" "length (ln_sent ln (\<not> b)) \<le> 2 ^ 64"
    using l [of b] l [of "\<not> b"] unfolding e by simp_all
  have "length (ln_sent ln d) \<le> 2 ^ 64" for d using 1 by (cases "d = b") auto
  then show "link_bounded ln" by (simp add: link_bounded_def)
qed

lemma link_step_ok:
  assumes ok: "link_bounded ln \<Longrightarrow> link_ok ln" and st: "link_step alloc ln ev = Inr ln'" and bd: "link_bounded ln'"
  shows "link_ok ln'"
proof (cases ev)
  case (LN_Event b e)
  show ?thesis
  proof (cases "link_allows ln b e")
    case False
    then show ?thesis using st bd ok LN_Event by simp
  next
    case True
    then obtain e' out where r: "ep_step alloc (ln_ep ln b) e = Inr (e', out)" "ln' = link_update ln b e [] (e', out)"
      using st LN_Event by (auto split: sum.splits)
    note B = link_bounded_update [OF bd [unfolded r(2)]]
    have "link_after ln b e [] e' out"
      using link_event_after [OF link_ok_before [OF ok [OF B(3)]] r(1) True B(1,2)] .
    then show ?thesis unfolding r(2) using link_ok_after [OF ok [OF B(3)] r(1)] by blast
  qed
next
  case (LN_WriteFails b k)
  let ?w = "concat (current_writes (ep_socketWrapper (ln_ep ln b)))"
  show ?thesis
  proof (cases "length ?w \<le> k")
    case True
    then show ?thesis using st bd ok LN_WriteFails by simp
  next
    case False
    then obtain e' out where r: "ep_step alloc (ln_ep ln b) (EP_Written True) = Inr (e', out)"
      "ln' = link_update ln b (EP_Written True) (take k ?w) (e', out)"
      using st LN_WriteFails by (auto simp: Let_def simp del: ep_step.simps split: sum.splits)
    note B = link_bounded_update [OF bd [unfolded r(2)]]
    have "link_after ln b (EP_Written True) (take k ?w) e' out"
      using after_WriteFails [OF link_ok_before [OF ok [OF B(3)]] r(1)] False by simp
    then show ?thesis unfolding r(2) using link_ok_after [OF ok [OF B(3)] r(1)] by blast
  qed
qed

lemma link_ok_create: "link_ok (Link_create t bounds)"
proof -
  have "ep_fine (Endpoint_create t bounds)"
    using ep_ok_create by (simp add: ep_fine_def Endpoint_create_def current_ok_def SocketWrapper_create_def)
  moreover have "dir_ok [] [] [] [] [] (Endpoint_create t bounds) (Endpoint_create t bounds)"
    by (simp add: dir_ok_def out_ok_def flight_ok_def in_ok_def stream_ok_def got_ok_def once_def ep_flight_def
        sock_frames_def current_frames_def unread_def Endpoint_create_def SocketWrapper_create_def
        OutManager_create_def InManager_create_def)
  ultimately show ?thesis by (auto simp: link_ok_def Link_create_def)
qed

definition link_inv :: "cpp_exception + Link \<Rightarrow> bool" where
  "link_inv r \<longleftrightarrow> (case r of Inl _ \<Rightarrow> True | Inr ln \<Rightarrow> link_bounded ln \<longrightarrow> link_ok ln)"

interpretation link: step_machine "link_run_step alloc" "Inr (Link_create t bounds)" link_inv
  for alloc t bounds
proof
  show "link_inv (Inr (Link_create t bounds))" by (simp add: link_inv_def link_ok_create)
  fix r :: "cpp_exception + Link" and ev
  assume i: "link_inv r"
  show "link_inv (link_run_step alloc r ev)"
  proof (cases r)
    case (Inl x)
    then show ?thesis by (simp add: link_run_step_def link_inv_def)
  next
    case (Inr ln)
    then have ok: "link_bounded ln \<Longrightarrow> link_ok ln" using i by (simp add: link_inv_def)
    show ?thesis
      using link_step_ok [OF ok, of alloc ev]
      by (simp add: Inr link_run_step_def link_inv_def del: link_step.simps split: sum.split)
  qed
qed

lemma link_run_ok: "link_run alloc t bounds evs = Inr ln \<Longrightarrow> link_bounded ln \<Longrightarrow> link_ok ln"
  using link.inv_run [of alloc t bounds evs] by (simp add: link_inv_def)


section \<open>A run\<close>

text \<open>A ping from side \<^const>\<open>True\<close> to side \<^const>\<open>False\<close> and back, evaluated.\<close>

lemmas link_eval =
  link_run_step_def link_update_def Link_create_def Endpoint_create_def InManager_create_def OutManager_create_def
  SocketWrapper_create_def Buffer_ctor_def Endpoint_run_def readFrameSize_def ep_sendRequest_def sendRequest_def
  ep_out_result_def no_writes_def om_runPosted_def sendRequestImpl_def take_nth_def om_delayExpired_def
  ep_socket_step_def writeFrame_def checkPendingWrites_def onWritten_def onFrameSizeRead_def readFrame_def
  onFrameRead_def Buffer_resize_def kIncomingBufferMaxReuseSize_def frame_size_concat
  im_setPromise_def im_update_context_def im_runPosted_eq im_onResponseRecieved_def im_erase_def InContext_create_def
  ep_register_def im_request_eq om_onIncomingFrame_def om_onResponseRecieved_def om_context_response_def
  om_set_context_def timeoutTimer_cancel_def OutCtx_Ping_onResponse_def OutCtx_create_def fulfilPromise_unfilled
  pending_erase_def Response_Pong_create_def Request_Ping_create_def Let_def

lemma link_eval_extra:
  "ep_sent (EP_Sock (Callback c x) # out) = ep_sent out" "ep_sent (EP_Sock (Queued w) # out) = ep_sent out"
  "concat (map (piece_bytes s \<circ> Piece) f) = concat f"
  "piece_bytes s OutcomingFrameSizeRef = size_bytes (sw_outcomingFrameSize s)"
  by (simp_all add: ep_sent_def piece_bytes_def comp_def)

lemma ping_frame_lengths:
  "length (request_frame_bytes i (Req_Ping q)) = 18" "length (response_frame_bytes i (Resp_Pong p)) = 17"
  by (simp_all add: request_frame_bytes_split response_frame_bytes_split constructRequestHeaderWoOwnership_def
      constructResponseHeaderWoOwnership_def request_payload_def response_payload_def Request_Ping_serializePayload_def
      Response_Pong_serializePayload_def serialize_eqs enum_bytes_def)

lemma pong_payload: "Response_Pong_fromPayload (Some (response_payload (Resp_Pong p))) = Some p"
  by (simp add: response_payload_def resp_pong.par_ser)

lemma response_not_request: "im_onIncomingFrame (Some (response_frame_bytes i x)) = None"
  by (simp add: im_onIncomingFrame_def)

lemma ep_onIncomingFrame_response:
  "ep_onIncomingFrame alloc (Some (response_frame_bytes i x)) e =
     (case om_onIncomingFrame alloc (Some (response_frame_bytes i x)) (ep_outcoming e) of
        Inl err \<Rightarrow> Inl err | Inr om \<Rightarrow> Inr (e\<lparr>ep_outcoming := om\<rparr>, []))"
  by (simp add: ep_onIncomingFrame_def response_not_request)

definition ping_call :: "link_event list" where
  "ping_call =
     [LN_Event True EP_Run, LN_Event False EP_Run,
      LN_Event True (EP_SendRequest (Req_Ping (Request_Ping_create 7)) K_Ping 0),
      LN_Event True (EP_RunSend 0), LN_Event True (EP_DelayExpired 0), LN_Event True (EP_RunWrite 0), LN_Event True (EP_Written False),
      LN_Event False (EP_FrameSizeRead (Some (size_bytes 18))),
      LN_Event False (EP_FrameRead (Some (request_frame_bytes 0 (Req_Ping (Request_Ping_create 7))))),
      LN_Event False (EP_SetPromise 0 (Some (A_Ping 9))), LN_Event False (EP_RunAnswer 0), LN_Event False (EP_RunWrite 0), LN_Event False (EP_Written False),
      LN_Event True (EP_FrameSizeRead (Some (size_bytes 17))),
      LN_Event True (EP_FrameRead (Some (response_frame_bytes 0 (answer_response (A_Ping 9)))))]"

lemma ping_call_run:
  "\<exists>ln. link_run (\<lambda>_. True) 1500 (1000, 2000) ping_call = Inr ln \<and> link_bounded ln \<and>
     0 < om_nextContext (ep_outcoming (ln_ep ln True)) \<and>
     outcome_of (om_contexts (ep_outcoming (ln_ep ln True)) 0) = Some (Got_Ping 9) \<and>
     ln_signals ln False = [Incoming_ping 7 0] \<and> length (ln_sent ln True) = 1"
  by (simp add: ping_call_def link_bounded_def link_eval link_eval_extra ping_frame_lengths pong_payload
      ep_onIncomingFrame_request ep_onIncomingFrame_response)

section \<open>Properties\<close>

lemma link_ok_directions:
  assumes "link_run alloc t bounds evs = Inr ln" "link_bounded ln"
  shows "\<exists>I F. dir_ok (ln_sent ln b) (ln_signals ln (\<not> b)) I F (ln_bytes ln b) (ln_ep ln b) (ln_ep ln (\<not> b))"
  using link_ok_before [OF link_run_ok [OF assms], of b] by (simp add: link_before_def)

text \<open>
C10: Answers are never forged, mixed up or altered on the way. In every run of two connected
endpoints in which neither side has numbered more than \<open>2 ^ 64\<close> requests: when the future of a
request holds a value, the request reached the other side as one of its signals, with the same
arguments, and the value is the one a handler there gave the promise of that very signal.
\<close>

theorem link_answers_sound:
  assumes "link_run alloc t bounds evs = Inr ln" and "link_bounded ln"
    and "c < om_nextContext (ep_outcoming (ln_ep ln b))"
    and "outcome_of (om_contexts (ep_outcoming (ln_ep ln b)) c) = Some oc" and "\<forall>x. oc \<noteq> Failed x"
  shows "\<exists>r a x. (r, c) \<in> set (ln_sent ln b) \<and>
     a < length (ln_signals ln (\<not> b)) \<and> ln_signals ln (\<not> b) ! a = request_signal r a \<and>
     ic_promise (im_contexts (ep_incoming (ln_ep ln (\<not> b))) a) = Fulfilled x \<and>
     oc = answer_outcome (answer_response x)"
proof -
  obtain I F where d: "dir_ok (ln_sent ln b) (ln_signals ln (\<not> b)) I F (ln_bytes ln b) (ln_ep ln b) (ln_ep ln (\<not> b))"
    using link_ok_directions [OF assms(1,2)] by blast
  let ?S = "ln_sent ln b"
  have "answered_by ?S I (ep_incoming (ln_ep ln (\<not> b))) c oc"
    using d assms(3-5) unfolding dir_ok_def got_ok_def by blast
  then obtain a x where a: "a < length I" "snd (?S ! (I ! a)) = c"
    "ic_promise (im_contexts (ep_incoming (ln_ep ln (\<not> b))) a) = Fulfilled x" "oc = answer_outcome (answer_response x)"
    unfolding answered_by_def by blast
  have i: "in_ok ?S (ln_signals ln (\<not> b)) I (ep_incoming (ln_ep ln (\<not> b)))" using d by (simp add: dir_ok_def)
  then have s: "I ! a < length ?S" "a < length (ln_signals ln (\<not> b))"
    "ln_signals ln (\<not> b) ! a = request_signal (fst (?S ! (I ! a))) a"
    using a(1) by (auto simp: in_ok_def)
  have "(fst (?S ! (I ! a)), c) \<in> set ?S" using nth_mem [OF s(1)] a(2) by (metis prod.collapse)
  then show ?thesis using a(3,4) s(2,3) by blast
qed

theorem link_answers_sound_witness:
  "\<exists>ln x. link_run (\<lambda>_. True) 1500 (1000, 2000) ping_call = Inr ln \<and>
     ic_promise (im_contexts (ep_incoming (ln_ep ln False)) 0) = Fulfilled x \<and>
     Got_Ping 9 = answer_outcome (answer_response x)"
proof -
  obtain ln where ln: "link_run (\<lambda>_. True) 1500 (1000, 2000) ping_call = Inr ln" "link_bounded ln"
    "0 < om_nextContext (ep_outcoming (ln_ep ln True))"
    "outcome_of (om_contexts (ep_outcoming (ln_ep ln True)) 0) = Some (Got_Ping 9)"
    "ln_signals ln False = [Incoming_ping 7 0]" using ping_call_run by blast
  have "\<forall>x. Got_Ping 9 \<noteq> Failed x" by simp
  from link_answers_sound [OF ln(1-4) this] obtain r a x where
    "a < length (ln_signals ln (\<not> True))" "ic_promise (im_contexts (ep_incoming (ln_ep ln (\<not> True))) a) = Fulfilled x"
    "Got_Ping 9 = answer_outcome (answer_response x)" by blast
  then show ?thesis using ln(1,5) by auto
qed

text \<open>
C11: Requests arrive at most once and unaltered: the signals a side has emitted belong to
different requests of its peer and carry their arguments, whatever is lost, delayed or cut
off; in particular no \<^verbatim>\<open>addMessage\<close> is handled twice.
\<close>

theorem link_requests_at_most_once:
  assumes "link_run alloc t bounds evs = Inr ln" and "link_bounded ln"
  shows "\<exists>ids. distinct ids \<and> length ids = length (ln_signals ln b) \<and>
     (\<forall>a < length ids. ids ! a < length (ln_sent ln (\<not> b)) \<and>
        ln_signals ln b ! a = request_signal (fst (ln_sent ln (\<not> b) ! (ids ! a))) a)"
proof -
  obtain I F where d: "dir_ok (ln_sent ln (\<not> b)) (ln_signals ln b) I F (ln_bytes ln (\<not> b))
      (ln_ep ln (\<not> b)) (ln_ep ln b)"
    using link_ok_directions [OF assms, of "\<not> b"] by auto
  then have le: "count (mset I) i \<le> 1" for i
    unfolding dir_ok_def flight_ok_def once_def by (metis add_leD1 count_union)
  have "count (mset I) i = (if i \<in> set I then 1 else 0)" for i
  proof (cases "i \<in> set I")
    case True
    then have "0 < count (mset I) i" by simp
    then have "count (mset I) i = 1" using le [of i] by linarith
    then show ?thesis using True by simp
  next
    case False
    then have "count (mset I) i = 0" by (simp add: not_in_iff [symmetric])
    then show ?thesis using False by simp
  qed
  then have "distinct I" by (simp add: distinct_count_atmost_1)
  then show ?thesis using d unfolding dir_ok_def in_ok_def by metis
qed

theorem link_requests_at_most_once_witness:
  "\<exists>ln ids. link_run (\<lambda>_. True) 1500 (1000, 2000) ping_call = Inr ln \<and> distinct ids \<and> length ids = 1 \<and>
     Incoming_ping 7 0 = request_signal (fst (ln_sent ln True ! (ids ! 0))) 0"
proof -
  obtain ln where ln: "link_run (\<lambda>_. True) 1500 (1000, 2000) ping_call = Inr ln" "link_bounded ln"
    "ln_signals ln False = [Incoming_ping 7 0]" using ping_call_run by blast
  from link_requests_at_most_once [OF ln(1,2), of False] ln(1,3) show ?thesis by fastforce
qed

end
