(* ===== verification/LinkCalls.thy ===== *)
theory LinkCalls
  imports Link
begin

text \<open>
  What the users of two connected endpoints rely on: how the calls of a side (its requests, posted
  or numbered, with their contexts) and the promises of its signals change from step to step, and
  what the invariant of the connection says about an answer and about a signal.
\<close>

section \<open>What a step does to calls and promises\<close>

definition ep_calls :: "Endpoint \<Rightarrow> (Request \<times> nat) set" where
  "ep_calls e = {(r, c). \<exists>d. (r, c, d) \<in> set (om_posted (ep_outcoming e))}"

text \<open>The call an event makes.\<close>

fun new_calls :: "Endpoint \<Rightarrow> ep_event \<Rightarrow> (Request \<times> nat) set" where
  "new_calls e (EP_SendRequest r k d) = (if ep_alive e then {(r, om_nextContext (ep_outcoming e))} else {})"
| "new_calls e _ = {}"

text \<open>
  Calls come from the event alone, contexts are not used twice, a destroyed endpoint stays
  destroyed, and a promise holds only what an event has set it to.
\<close>

definition im_keeps :: "InManager \<Rightarrow> InManager \<Rightarrow> bool" where
  "im_keeps m m' \<longleftrightarrow>
     im_nextContext m \<le> im_nextContext m' \<and>
     (\<forall>a < im_nextContext m'. \<forall>x. ic_promise (im_contexts m' a) = Fulfilled x \<longrightarrow>
        a < im_nextContext m \<and> ic_promise (im_contexts m a) = Fulfilled x)"

definition ep_acts :: "Endpoint \<Rightarrow> ep_event \<Rightarrow> Endpoint \<Rightarrow> bool" where
  "ep_acts e ev e' \<longleftrightarrow>
     ep_calls e' \<union> set (numbered_requests e ev) \<subseteq> ep_calls e \<union> new_calls e ev \<and>
     om_nextContext (ep_outcoming e') = om_nextContext (ep_outcoming e) + card (new_calls e ev) \<and>
     (ep_alive e' \<longrightarrow> ep_alive e) \<and>
     (\<forall>a < im_nextContext (ep_incoming e'). \<forall>x. ic_promise (im_contexts (ep_incoming e') a) = Fulfilled x \<longrightarrow>
        a < im_nextContext (ep_incoming e) \<and>
        (ic_promise (im_contexts (ep_incoming e) a) = Fulfilled x \<or> ev = EP_SetPromise a (Some x)))"

lemma im_keeps_same: "im_same m m' \<Longrightarrow> im_keeps m m'"
  by (simp add: im_keeps_def im_same_def)

lemma im_keeps_request: "im_keeps m (snd (im_request rid m))"
  using im_request_contexts [of rid m] by (cases "im_request rid m") (fastforce simp: im_keeps_def less_Suc_eq)

lemma ep_acts_quiet:
  assumes "om_quiet (ep_outcoming e) (ep_outcoming e')" "im_keeps (ep_incoming e) (ep_incoming e')"
    "ep_alive e' \<Longrightarrow> ep_alive e" "numbered_requests e ev = []" "new_calls e ev = {}"
  shows "ep_acts e ev e'"
  using assms unfolding ep_acts_def om_quiet_def ep_calls_def im_keeps_def by auto

lemma ep_socket_outputs_alive:
  "ep_socket_outputs alloc outs e = Inr (e', out) \<Longrightarrow> ep_alive e' = ep_alive e"
proof (induction outs arbitrary: e out)
  case (Cons x xs)
  let ?r = "case x of Emit_incomingFrame frame \<Rightarrow> if ep_alive e then ep_onIncomingFrame alloc frame e else Inr (e, [])
    | Emit_invalidated \<Rightarrow> if ep_alive e then ep_onInvalidated e else Inr (e, []) | _ \<Rightarrow> Inr (e, [EP_Sock x])"
  obtain e1 out1 where r: "?r = Inr (e1, out1)" using Cons.prems by (cases ?r) auto
  then have "ep_alive e1 = ep_alive e" by (cases x) (auto dest: ep_alive_slots split: if_splits)
  moreover obtain out2 where "ep_socket_outputs alloc xs e1 = Inr (e', out2)"
    using Cons.prems r by (auto split: sum.splits)
  ultimately show ?case using Cons.IH by simp
qed simp

lemma ep_socket_step_alive: "ep_socket_step alloc e ev = Inr (e', out) \<Longrightarrow> ep_alive e' = ep_alive e"
  by (auto simp: ep_socket_step_def case_prod_beta dest: ep_socket_outputs_alive)

lemma ep_step_alive:
  assumes "ep_step alloc e ev = Inr (e', out)" "ep_alive e'"
  shows "ep_alive e"
proof (rule ccontr)
  assume dead: "\<not> ep_alive e"
  have "\<not> ep_alive e'"
    using assms(1) dead ep_socket_step_alive
    by (cases ev) (auto simp: ep_out_result_def ep_sendRequest_def dest!: ep_socket_step_alive
        split: sum.splits if_splits prod.splits)
  then show False using assms(2) by contradiction
qed

text \<open>Quiet events, requests, answers and frames.\<close>

lemma ep_quiet_acts:
  assumes "ep_quiet e e' \<and> ep_sent out = [] \<and> ep_signals out = []" "ep_step alloc e ev = Inr (e', out)"
    "numbered_requests e ev = []" "new_calls e ev = {}"
  shows "ep_acts e ev e'"
  using assms ep_step_alive [OF assms(2)] by (intro ep_acts_quiet) (simp_all add: ep_quiet_def im_keeps_same)

lemma ep_SendRequest_acts:
  assumes "ep_step alloc e (EP_SendRequest r k d) = Inr (e', out)"
  shows "ep_acts e (EP_SendRequest r k d) e'"
  using assms by (auto simp: ep_acts_def ep_calls_def ep_sendRequest_def sendRequest_def split: if_splits)

lemma ep_RunSend_acts:
  assumes "ep_step alloc e (EP_RunSend n) = Inr (e', out)"
  shows "ep_acts e (EP_RunSend n) e'"
proof -
  obtain om where r: "om_runPosted n (ep_outcoming e) = Inr om"
    using assms by (cases "om_runPosted n (ep_outcoming e)") (auto simp: ep_out_result_def no_writes_def)
  then have e': "e' = e\<lparr>ep_outcoming := om\<rparr>" using assms by (simp add: ep_out_result_def no_writes_def)
  have "set (om_posted om) \<subseteq> set (om_posted (ep_outcoming e))" "om_nextContext om = om_nextContext (ep_outcoming e)"
    using om_runPosted_cases [OF r] by (auto simp: om_quiet_def om_sends_def)
  moreover have "(fst (om_posted (ep_outcoming e) ! n), fst (snd (om_posted (ep_outcoming e) ! n))) \<in> ep_calls e"
    if "n < length (om_posted (ep_outcoming e))"
    unfolding ep_calls_def mem_Collect_eq case_prod_conv using nth_mem [OF that] by (metis prod.collapse)
  ultimately show ?thesis by (auto simp: e' ep_acts_def ep_calls_def)
qed

lemma ep_SetPromise_acts:
  assumes "ep_step alloc e (EP_SetPromise a (Some x)) = Inr (e', out)"
  shows "ep_acts e (EP_SetPromise a (Some x)) e'"
  using assms
  by (auto simp: ep_acts_def ep_calls_def im_setPromise_eq im_update_context_def split: sum.splits if_splits)

lemma om_quiet_answered:
  "om_answered m a oc m' \<Longrightarrow> om_posted m' = om_posted m \<and> om_nextContext m' = om_nextContext m"
  by (simp add: om_answered_def)

lemma onIncomingRequestFrame_keeps:
  "im_keeps (ep_incoming e) (ep_incoming (fst (onIncomingRequestFrame f e)))"
  "ep_outcoming (fst (onIncomingRequestFrame f e)) = ep_outcoming e"
  using im_keeps_request im_keeps_same [OF im_same_refl]
  by (auto simp: onIncomingRequestFrame_def ep_register_def case_prod_beta Let_def split: OpCode.split option.split)

lemma ep_onIncomingFrame_acts:
  assumes "om_core (ep_outcoming e)" "ep_onIncomingFrame alloc frame e = Inr (e', out)"
    "numbered_requests e ev = []" "new_calls e ev = {}"
  shows "ep_acts e ev e'"
proof -
  define e1 where "e1 = (case im_onIncomingFrame frame of None \<Rightarrow> e | Some f \<Rightarrow> fst (onIncomingRequestFrame f e))"
  have e1: "ep_outcoming e1 = ep_outcoming e" "im_keeps (ep_incoming e) (ep_incoming e1)"
    using onIncomingRequestFrame_keeps [where e = e] im_keeps_same [OF im_same_refl] by (simp_all add: e1_def split: option.split)
  obtain om where om: "om_onIncomingFrame alloc frame (ep_outcoming e1) = Inr om" "e' = e1\<lparr>ep_outcoming := om\<rparr>"
    using assms(2) by (auto simp: ep_onIncomingFrame_def e1_def case_prod_beta split: option.splits sum.splits)
  have "om_posted om = om_posted (ep_outcoming e)" "om_nextContext om = om_nextContext (ep_outcoming e)"
    using om_onIncomingFrame_cases [OF _ om(1)] assms(1) om_quiet_answered by (auto simp: e1(1))
  then show ?thesis
    using assms(3,4) e1(2) om(2) ep_alive_slots(1) [OF assms(2)]
    unfolding ep_acts_def ep_calls_def im_keeps_def by simp
qed

lemma ep_step_acts:
  assumes fine: "ep_fine e" and st: "ep_step alloc e ev = Inr (e', out)"
    and rd: "\<And>bs. ev = EP_FrameSizeRead (Some bs) \<Longrightarrow> sw_reading (ep_socketWrapper e) = ReadingFrameSize \<and> length bs = 8"
      "\<And>bs. ev = EP_FrameRead (Some bs) \<Longrightarrow> sw_reading (ep_socketWrapper e) = ReadingFrame"
    and run: "ev = EP_Run \<Longrightarrow> \<not> sw_invalidated (ep_socketWrapper e)"
    and wr: "ev = EP_Written True \<Longrightarrow> current_writes (ep_socketWrapper e) \<noteq> []"
  shows "ep_acts e ev e'"
proof (cases ev)
  case EP_Run
  then show ?thesis using ep_Run_quiet st run by (intro ep_quiet_acts [OF _ st]) simp_all
next
  case (EP_SendRequest r k d)
  then show ?thesis using ep_SendRequest_acts st by blast
next
  case (EP_RunSend n)
  then show ?thesis using ep_RunSend_acts st by blast
next
  case (EP_DelayExpired n)
  then show ?thesis using ep_DelayExpired_quiet st by (intro ep_quiet_acts [OF _ st]) (blast, simp_all)
next
  case (EP_TimerExpired n late)
  then show ?thesis using ep_TimerExpired_quiet st by (intro ep_quiet_acts [OF _ st]) (blast, simp_all)
next
  case (EP_SetPromise a v)
  show ?thesis
  proof (cases v)
    case None
    then show ?thesis using EP_SetPromise ep_abandon_quiet st by (intro ep_quiet_acts [OF _ st]) (blast, simp_all)
  next
    case (Some x)
    then show ?thesis using EP_SetPromise ep_SetPromise_acts st by blast
  qed
next
  case (EP_RunAnswer n)
  obtain im ws where r: "im_runPosted n (ep_incoming e) = (im, ws)" by (cases "im_runPosted n (ep_incoming e)")
  then have "e' = e\<lparr>ep_incoming := im, ep_posted := ep_posted e @ ws\<rparr>" using st EP_RunAnswer by simp
  then show ?thesis
    using im_keeps_same [OF im_runPosted_cases(1) [OF ep_fineD(5) [OF fine] r]] EP_RunAnswer
    by (intro ep_acts_quiet) simp_all
next
  case (EP_RunWrite n)
  then show ?thesis using ep_RunWrite_quiet [OF fine] st by (intro ep_quiet_acts [OF _ st]) (blast, simp_all)
next
  case (EP_Written ec)
  have "\<exists>s om. e' = e\<lparr>ep_socketWrapper := s, ep_outcoming := om\<rparr> \<and> om_quiet (ep_outcoming e) om"
  proof (cases ec)
    case True
    then have "ev = EP_Written True" using EP_Written by simp
    then show ?thesis using ep_WriteFails_cases [OF fine] st wr by blast
  next
    case False
    then have "ep_step alloc e (EP_Written False) = Inr (e', out)" using st EP_Written by simp
    from ep_Written_cases [OF fine this] show ?thesis
    proof
      assume "e' = e \<and> out = []"
      then have "e' = e\<lparr>ep_socketWrapper := ep_socketWrapper e, ep_outcoming := ep_outcoming e\<rparr>" by simp
      then show ?thesis using om_quiet_refl by blast
    qed blast
  qed
  then show ?thesis using EP_Written im_keeps_same [OF im_same_refl] by (intro ep_acts_quiet) auto
next
  case (EP_FrameSizeRead r)
  show ?thesis
  proof (cases r)
    case None
    then show ?thesis
      using EP_FrameSizeRead ep_read_fails_quiet [OF fine st] by (intro ep_quiet_acts [OF _ st]) simp_all
  next
    case (Some bs)
    then have "om_quiet (ep_outcoming e) (ep_outcoming e')" "ep_incoming e' = ep_incoming e"
      using ep_FrameSizeRead_cases [OF fine] st rd(1) EP_FrameSizeRead by blast+
    then show ?thesis
      using ep_step_alive [OF st] EP_FrameSizeRead im_keeps_same [OF im_same_refl] by (intro ep_acts_quiet) simp_all
  qed
next
  case (EP_FrameRead r)
  show ?thesis
  proof (cases r)
    case None
    then show ?thesis
      using EP_FrameRead ep_read_fails_quiet [OF fine st] by (intro ep_quiet_acts [OF _ st]) simp_all
  next
    case (Some bs)
    then obtain s where "e' = e\<lparr>ep_socketWrapper := s\<rparr> \<and> out = [] \<or>
        ep_onIncomingFrame alloc (Some bs) (e\<lparr>ep_socketWrapper := s\<rparr>) = Inr (e', out)"
      using ep_FrameRead_cases [OF fine] st rd(2) EP_FrameRead by blast
    then show ?thesis
    proof
      assume "e' = e\<lparr>ep_socketWrapper := s\<rparr> \<and> out = []"
      then show ?thesis using EP_FrameRead im_keeps_same [OF im_same_refl] by (intro ep_acts_quiet) simp_all
    next
      assume "ep_onIncomingFrame alloc (Some bs) (e\<lparr>ep_socketWrapper := s\<rparr>) = Inr (e', out)"
      then have "ep_acts (e\<lparr>ep_socketWrapper := s\<rparr>) ev e'"
        using ep_fineD(4) [OF fine] EP_FrameRead by (intro ep_onIncomingFrame_acts) simp_all
      then show ?thesis using EP_FrameRead by (simp add: ep_acts_def ep_calls_def)
    qed
  qed
next
  case EP_Destroy
  then show ?thesis using ep_Destroy_quiet [OF fine] st by (intro ep_quiet_acts [OF _ st]) (blast, simp_all)
qed


section \<open>Two sides\<close>

definition link_calls :: "Link \<Rightarrow> bool \<Rightarrow> (Request \<times> nat) set" where
  "link_calls ln b = set (ln_sent ln b) \<union> ep_calls (ln_ep ln b)"

fun event_of :: "link_event \<Rightarrow> bool \<times> ep_event" where
  "event_of (LN_Event b ev) = (b, ev)"
| "event_of (LN_WriteFails b k) = (b, EP_Written True)"

text \<open>A step that is not refused is an event of one side.\<close>

definition link_acts :: "bool \<Rightarrow> ep_event \<Rightarrow> Link \<Rightarrow> Link \<Rightarrow> bool" where
  "link_acts b ev ln ln' \<longleftrightarrow>
     ep_acts (ln_ep ln b) ev (ln_ep ln' b) \<and> ln_ep ln' (\<not> b) = ln_ep ln (\<not> b) \<and>
     ln_sent ln' b = ln_sent ln b @ numbered_requests (ln_ep ln b) ev \<and> ln_sent ln' (\<not> b) = ln_sent ln (\<not> b) \<and>
     (\<exists>gs. ln_signals ln' b = ln_signals ln b @ gs) \<and> ln_signals ln' (\<not> b) = ln_signals ln (\<not> b)"

lemma link_update_acts:
  "ep_acts (ln_ep ln b) ev (fst r) \<Longrightarrow> link_acts b ev ln (link_update ln b ev partial r)"
  by (simp add: link_acts_def link_update_def)

lemma link_step_acts:
  assumes ok: "link_ok ln" and st: "link_step alloc ln lev = Inr ln'"
  shows "ln' = ln \<or> (\<exists>b ev. event_of lev = (b, ev) \<and> link_acts b ev ln ln')"
proof (cases lev)
  case (LN_Event b ev)
  have fine: "ep_fine (ln_ep ln b)" using ok by (simp add: link_ok_def)
  show ?thesis
  proof (cases "link_allows ln b ev")
    case True
    then obtain r where r: "ep_step alloc (ln_ep ln b) ev = Inr r" "ln' = link_update ln b ev [] r"
      using st LN_Event by (auto split: sum.splits)
    have "ep_acts (ln_ep ln b) ev (fst r)"
      using r(1) True by (intro ep_step_acts [OF fine, of alloc ev _ "snd r"]) auto
    then show ?thesis using r(2) LN_Event link_update_acts by auto
  next
    case False
    then show ?thesis using st LN_Event by simp
  qed
next
  case (LN_WriteFails b k)
  let ?w = "concat (current_writes (ep_socketWrapper (ln_ep ln b)))"
  have fine: "ep_fine (ln_ep ln b)" using ok by (simp add: link_ok_def)
  show ?thesis
  proof (cases "length ?w \<le> k")
    case False
    then obtain r where r: "ep_step alloc (ln_ep ln b) (EP_Written True) = Inr r"
      "ln' = link_update ln b (EP_Written True) (take k ?w) r"
      using st LN_WriteFails by (auto simp: Let_def simp del: ep_step.simps split: sum.splits)
    have "current_writes (ep_socketWrapper (ln_ep ln b)) \<noteq> []" using False by auto
    then have "ep_acts (ln_ep ln b) (EP_Written True) (fst r)"
      using r(1) by (intro ep_step_acts [OF fine, of alloc _ _ "snd r"]) simp_all
    then show ?thesis using r(2) LN_WriteFails link_update_acts by auto
  qed (use st LN_WriteFails in simp)
qed

text \<open>Contexts of calls exist; promises are as many as signals.\<close>

lemma link_ok_dir:
  "link_ok ln \<Longrightarrow> \<exists>I F. dir_ok (ln_sent ln b) (ln_signals ln (\<not> b)) I F (ln_bytes ln b) (ln_ep ln b) (ln_ep ln (\<not> b))"
  using link_ok_before [of ln b] by (simp add: link_before_def)

lemma link_calls_contexts:
  assumes "link_ok ln" "(r, c) \<in> link_calls ln b"
  shows "c < om_nextContext (ep_outcoming (ln_ep ln b))"
proof -
  have "out_ok (ln_sent ln b) (ep_outcoming (ln_ep ln b))" using link_ok_dir [OF assms(1), of b] by (auto simp: dir_ok_def)
  then show ?thesis using assms(2) by (auto simp: out_ok_def link_calls_def ep_calls_def)
qed

lemma link_signals_length:
  assumes "link_ok ln"
  shows "length (ln_signals ln b) = im_nextContext (ep_incoming (ln_ep ln b))"
  using link_ok_dir [OF assms, of "\<not> b"] by (auto simp: dir_ok_def in_ok_def)

text \<open>The number of a signal is the number of its promise, and its arguments are those of a call.\<close>

lemma link_signal_origin:
  assumes "link_ok ln" "a < length (ln_signals ln b)"
  shows "\<exists>r c. (r, c) \<in> link_calls ln (\<not> b) \<and> ln_signals ln b ! a = request_signal r a"
proof -
  obtain I F where "dir_ok (ln_sent ln (\<not> b)) (ln_signals ln b) I F (ln_bytes ln (\<not> b)) (ln_ep ln (\<not> b)) (ln_ep ln b)"
    using link_ok_dir [OF assms(1), of "\<not> b"] by auto
  then have "I ! a < length (ln_sent ln (\<not> b))" "ln_signals ln b ! a = request_signal (fst (ln_sent ln (\<not> b) ! (I ! a))) a"
    using assms(2) by (auto simp: dir_ok_def in_ok_def)
  then show ?thesis unfolding link_calls_def by (metis UnI1 nth_mem prod.collapse)
qed

lemma link_answer_origin:
  assumes "link_ok ln" "c < om_nextContext (ep_outcoming (ln_ep ln b))"
    "outcome_of (om_contexts (ep_outcoming (ln_ep ln b)) c) = Some oc" "\<forall>x. oc \<noteq> Failed x"
  shows "\<exists>r a x. (r, c) \<in> link_calls ln b \<and> a < length (ln_signals ln (\<not> b)) \<and>
     ln_signals ln (\<not> b) ! a = request_signal r a \<and>
     ic_promise (im_contexts (ep_incoming (ln_ep ln (\<not> b))) a) = Fulfilled x \<and>
     oc = answer_outcome (answer_response x)"
proof -
  obtain I F where d: "dir_ok (ln_sent ln b) (ln_signals ln (\<not> b)) I F (ln_bytes ln b) (ln_ep ln b) (ln_ep ln (\<not> b))"
    using link_ok_dir [OF assms(1)] by blast
  let ?S = "ln_sent ln b"
  obtain a x where a: "a < length I" "snd (?S ! (I ! a)) = c"
    "ic_promise (im_contexts (ep_incoming (ln_ep ln (\<not> b))) a) = Fulfilled x" "oc = answer_outcome (answer_response x)"
    using d assms(2-4) unfolding dir_ok_def got_ok_def answered_by_def by blast
  have i: "in_ok ?S (ln_signals ln (\<not> b)) I (ep_incoming (ln_ep ln (\<not> b)))" using d by (simp add: dir_ok_def)
  then have s: "I ! a < length ?S" "a < length (ln_signals ln (\<not> b))"
    "ln_signals ln (\<not> b) ! a = request_signal (fst (?S ! (I ! a))) a"
    using a(1) by (auto simp: in_ok_def)
  have "(fst (?S ! (I ! a)), c) \<in> link_calls ln b" unfolding link_calls_def using nth_mem [OF s(1)] a(2) by (metis UnI1 prod.collapse)
  then show ?thesis using a(3,4) s(2,3) by blast
qed

section \<open>The meaning of a call\<close>

text \<open>
  The holder of a future knows what it has asked for: every request with this context carries these
  arguments. A call on an endpoint that is destroyed never becomes a request.
\<close>

definition call_means :: "Link \<Rightarrow> bool \<Rightarrow> nat \<Rightarrow> (nat \<Rightarrow> incoming_request) \<Rightarrow> bool" where
  "call_means ln b c f \<longleftrightarrow>
     (c < om_nextContext (ep_outcoming (ln_ep ln b)) \<or> \<not> ep_alive (ln_ep ln b)) \<and>
     (\<forall>r. (r, c) \<in> link_calls ln b \<longrightarrow> request_signal r = f)"

lemma link_acts_calls:
  assumes "link_acts b ev ln ln'"
  shows "link_calls ln' b \<subseteq> link_calls ln b \<union> new_calls (ln_ep ln b) ev" "link_calls ln' (\<not> b) = link_calls ln (\<not> b)"
  using assms by (auto simp: link_acts_def link_calls_def ep_acts_def)

lemma new_calls_context: "(r, c) \<in> new_calls e ev \<Longrightarrow> ep_alive e \<and> c = om_nextContext (ep_outcoming e)"
  by (cases ev) (auto split: if_splits)

lemma call_means_step:
  assumes ok: "link_ok ln" and st: "link_step alloc ln lev = Inr ln'" and c: "call_means ln b c f"
  shows "call_means ln' b c f"
proof -
  from link_step_acts [OF ok st] show ?thesis
  proof
    assume "\<exists>b ev. event_of lev = (b, ev) \<and> link_acts b ev ln ln'"
    then obtain b' ev where a: "link_acts b' ev ln ln'" by blast
    show ?thesis
    proof (cases "b = b'")
      case True
      have e: "ep_acts (ln_ep ln b) ev (ln_ep ln' b)" using a True by (simp add: link_acts_def)
      have "(r, c) \<in> link_calls ln b" if "(r, c) \<in> link_calls ln' b" for r
        using link_acts_calls(1) [OF a] that new_calls_context [of r c "ln_ep ln b" ev] c True
        by (auto simp: call_means_def)
      then show ?thesis using c e unfolding call_means_def ep_acts_def by auto
    next
      case False
      then have "b = (\<not> b')" by simp
      then show ?thesis using a c link_acts_calls(2) [OF a] by (simp add: call_means_def link_acts_def)
    qed
  qed (use c in simp)
qed

lemma call_means_new:
  assumes ok: "link_ok ln" and st: "link_step alloc ln (LN_Event b (EP_SendRequest r (request_kind r) d)) = Inr ln'"
    and size: "frame_size (request_frame_of 0 r) < 2 ^ 64"
  shows "call_means ln' b (om_nextContext (ep_outcoming (ln_ep ln b))) (request_signal r)"
proof -
  let ?c = "om_nextContext (ep_outcoming (ln_ep ln b))"
  let ?ev = "EP_SendRequest r (request_kind r) d"
  have al: "link_allows ln b ?ev" using size by simp
  then obtain e' out where r: "ep_step alloc (ln_ep ln b) ?ev = Inr (e', out)" "ln' = link_update ln b ?ev [] (e', out)"
    using st by (auto simp del: ep_step.simps split: sum.splits)
  have e: "ep_acts (ln_ep ln b) ?ev e'" by (rule ep_SendRequest_acts [OF r(1)])
  have acts: "link_acts b ?ev ln ln'" using link_update_acts [of ln b ?ev "(e', out)"] e r(2) by simp
  have e': "ln_ep ln' b = e'" using r(2) by (simp add: link_update_def)
  have old: "(r', ?c) \<notin> link_calls ln b" for r' using link_calls_contexts [OF ok, of r' ?c b] by blast
  have "request_signal r' = request_signal r" if "(r', ?c) \<in> link_calls ln' b" for r'
    using link_acts_calls(1) [OF acts] that old [of r'] by (auto split: if_splits)
  moreover have "?c < om_nextContext (ep_outcoming e') \<or> \<not> ep_alive e'"
    using e by (auto simp: ep_acts_def split: if_splits)
  ultimately show ?thesis by (auto simp: call_means_def e')
qed

section \<open>Promises\<close>

definition promised :: "Link \<Rightarrow> bool \<Rightarrow> nat \<Rightarrow> answer \<Rightarrow> bool" where
  "promised ln b a x \<longleftrightarrow>
     a < length (ln_signals ln b) \<and> ic_promise (im_contexts (ep_incoming (ln_ep ln b)) a) = Fulfilled x"

lemma link_step_signals:
  assumes "link_ok ln" "link_step alloc ln lev = Inr ln'"
  shows "\<exists>gs. ln_signals ln' b = ln_signals ln b @ gs"
proof -
  from link_step_acts [OF assms] show ?thesis
  proof
    assume "\<exists>b ev. event_of lev = (b, ev) \<and> link_acts b ev ln ln'"
    then obtain b' ev where "link_acts b' ev ln ln'" by blast
    then show ?thesis by (cases "b = b'") (auto simp: link_acts_def)
  qed simp
qed

lemma promised_step:
  assumes ok: "link_ok ln" "link_ok ln'" and st: "link_step alloc ln lev = Inr ln'" and p: "promised ln' b a x"
  shows "promised ln b a x \<or> lev = LN_Event b (EP_SetPromise a (Some x)) \<and> a < length (ln_signals ln b)"
proof -
  from link_step_acts [OF ok(1) st] show ?thesis
  proof
    assume "\<exists>b ev. event_of lev = (b, ev) \<and> link_acts b ev ln ln'"
    then obtain b' ev where a: "event_of lev = (b', ev)" "link_acts b' ev ln ln'" by blast
    show ?thesis
    proof (cases "b = b'")
      case True
      have "ep_acts (ln_ep ln b) ev (ln_ep ln' b)" using a True by (simp add: link_acts_def)
      then have "a < im_nextContext (ep_incoming (ln_ep ln b)) \<and>
          (ic_promise (im_contexts (ep_incoming (ln_ep ln b)) a) = Fulfilled x \<or> ev = EP_SetPromise a (Some x))"
        using p link_signals_length [OF ok(2), of b] by (auto simp: ep_acts_def promised_def)
      moreover have "lev = LN_Event b ev" if "ev = EP_SetPromise a (Some x)" using a(1) that True by (cases lev) auto
      ultimately show ?thesis using link_signals_length [OF ok(1), of b] by (auto simp: promised_def)
    next
      case False
      then have "b = (\<not> b')" by simp
      then show ?thesis using a(2) p by (simp add: promised_def link_acts_def)
    qed
  qed (use p in simp)
qed

text \<open>Only \<^const>\<open>EP_RunSend\<close> numbers requests.\<close>

lemma link_step_sent:
  assumes "link_step alloc ln lev = Inr ln'"
  shows "length (ln_sent ln b) \<le> length (ln_sent ln' b)"
    "\<forall>n. snd (event_of lev) \<noteq> EP_RunSend n \<Longrightarrow> ln_sent ln' = ln_sent ln"
proof -
  have u: "length (ln_sent ln b) \<le> length (ln_sent (link_update ln b' ev partial r) b)"
    "\<forall>n. ev \<noteq> EP_RunSend n \<Longrightarrow> ln_sent (link_update ln b' ev partial r) = ln_sent ln" for b' ev partial r
    by (cases ev; simp add: link_update_def fun_eq_iff)+
  have "ln' = ln \<or> (\<exists>b' ev partial r. event_of lev = (b', ev) \<and> ln' = link_update ln b' ev partial r)"
    using assms by (cases lev) (auto simp: Let_def simp del: ep_step.simps split: if_splits sum.splits)
  then show "length (ln_sent ln b) \<le> length (ln_sent ln' b)"
    "\<forall>n. snd (event_of lev) \<noteq> EP_RunSend n \<Longrightarrow> ln_sent ln' = ln_sent ln"
    using u by auto
qed

end
