(* ===== verification/Cluster.thy ===== *)
theory Cluster
  imports MasterCalls LinkCalls
begin

text \<open>
  The program as it runs: a master and any number of secondaries, each with its state as the
  component theories model it, and one connection of two endpoints for every time a secondary has
  connected. Nothing is abstracted between the nodes: what a node asks of an endpoint is an event of
  that endpoint, frames travel as bytes, and what an endpoint emits is an event of its node.

  Side \<^const>\<open>True\<close> of a connection is the master's endpoint, side \<^const>\<open>False\<close> the secondary's.
  \<open>cl_endpoints\<close> gives for each endpoint of the master its connection, \<open>mb_connection\<close> the connection
  of the session a secondary holds. A future is named by its connection and its context;
  \<open>cl_futures\<close> are for each replication request the futures whose continuation has not run, with the id
  of the secondary, \<open>mb_futures\<close> those of the session.
\<close>

section \<open>State\<close>

record Connection =
  co_link :: Link
  co_secondary :: nat

record Member =
  mb_node :: SecondaryNodeS
  mb_connection :: "nat option"
  mb_futures :: "(continuation \<times> nat) list"

record Cluster =
  cl_master :: MasterNode
  cl_members :: "Member list"
  cl_connections :: "Connection list"
  cl_endpoints :: "nat list"
  cl_futures :: "(size_t \<times> nat \<times> nat) list list"

definition cl_create :: "string list \<Rightarrow> Cluster" where
  "cl_create names =
     \<lparr>cl_master = MasterNode_create,
      cl_members = map (\<lambda>name. \<lparr>mb_node = sn_begin name, mb_connection = None, mb_futures = []\<rparr>) names,
      cl_connections = [], cl_endpoints = [], cl_futures = []\<rparr>"

text \<open>Both programs create their endpoints with the same constants.\<close>

definition Connection_create :: "nat \<Rightarrow> Connection" where
  "Connection_create j =
     \<lparr>co_link = Link_create kOutcomingRequestTimeout kArtificialSendDelayBounds, co_secondary = j\<rparr>"

definition link_of :: "Cluster \<Rightarrow> nat \<Rightarrow> Link" where
  "link_of c k = co_link (cl_connections c ! k)"

definition set_link :: "nat \<Rightarrow> Link \<Rightarrow> Cluster \<Rightarrow> Cluster" where
  "set_link k ln c =
     c\<lparr>cl_connections := (cl_connections c)[k := (cl_connections c ! k)\<lparr>co_link := ln\<rparr>]\<rparr>"

text \<open>The endpoint the master has for a connection, and the connection of an endpoint.\<close>

definition endpoint_of :: "Cluster \<Rightarrow> nat \<Rightarrow> nat option" where
  "endpoint_of c k = find (\<lambda>e. cl_endpoints c ! e = k) [0..<length (cl_endpoints c)]"

definition connection_of :: "Cluster \<Rightarrow> nat \<Rightarrow> nat" where
  "connection_of c e = (if e < length (cl_endpoints c) then cl_endpoints c ! e else length (cl_connections c))"

section \<open>What a node asks of an endpoint\<close>

text \<open>
  \<^const>\<open>None\<close> means that what is asked is not possible: a frame that does not fit in memory. The
  remaining steps below are \<^const>\<open>None\<close> when one of their parts is, or throws, or does not return.
\<close>

definition on_endpoint :: "(nat \<Rightarrow> bool) \<Rightarrow> nat \<Rightarrow> bool \<Rightarrow> ep_event \<Rightarrow> Cluster \<Rightarrow> Cluster option" where
  "on_endpoint alloc k b ev c =
     (if length (cl_connections c) \<le> k \<or> \<not> link_allows (link_of c k) b ev then None
      else (case link_step alloc (link_of c k) (LN_Event b ev) of
              Inl _ \<Rightarrow> None
            | Inr ln \<Rightarrow> Some (set_link k ln c)))"

text \<open>A remote call gives a future, named by the context.\<close>

definition call_endpoint ::
    "(nat \<Rightarrow> bool) \<Rightarrow> distribution \<Rightarrow> nat \<Rightarrow> bool \<Rightarrow> Request \<Rightarrow> Cluster \<Rightarrow> (nat \<times> Cluster) option" where
  "call_endpoint alloc draw k b r c =
     (let e = ln_ep (link_of c k) b
      in map_option (Pair (om_nextContext (ep_outcoming e)))
           (on_endpoint alloc k b (EP_SendRequest r (request_kind r) (chooseSendDelay draw e)) c))"

fun master_output :: "(nat \<Rightarrow> bool) \<Rightarrow> distribution \<Rightarrow> mn_out \<Rightarrow> Cluster \<Rightarrow> Cluster option" where
  "master_output alloc draw (MN_RunEndpoint e) c = on_endpoint alloc (connection_of c e) True EP_Run c"
| "master_output alloc draw (MN_SetPromise (e, p) a) c =
     on_endpoint alloc (connection_of c e) True (EP_SetPromise p (Some a)) c"
| "master_output alloc draw (MN_DropPromise (e, p)) c =
     on_endpoint alloc (connection_of c e) True (EP_SetPromise p None) c"
| "master_output alloc draw (MN_Request q (AR_Send e i messageId message)) c =
     (case call_endpoint alloc draw (connection_of c e) True
             (Req_AddMessage (Request_AddMessage_create messageId message)) c of
        None \<Rightarrow> None
      | Some (x, c') \<Rightarrow>
          Some (c'\<lparr>cl_futures := (cl_futures c')[q := cl_futures c' ! q @ [(i, connection_of c e, x)]]\<rparr>))"
| "master_output alloc draw (MN_Request q AR_Wait) c = Some c"

text \<open>A call of a session, with the continuation it attaches to the future.\<close>

definition session_call ::
    "(nat \<Rightarrow> bool) \<Rightarrow> distribution \<Rightarrow> nat \<Rightarrow> nat \<Rightarrow> Request \<Rightarrow> continuation \<Rightarrow> Cluster \<Rightarrow> Cluster option" where
  "session_call alloc draw j k r cont c =
     (case call_endpoint alloc draw k False r c of
        None \<Rightarrow> None
      | Some (x, c') \<Rightarrow>
          (let mb = cl_members c' ! j
           in Some (c'\<lparr>cl_members := (cl_members c')[j := mb\<lparr>mb_futures := mb_futures mb @ [(cont, x)]\<rparr>]\<rparr>)))"

fun session_output ::
    "(nat \<Rightarrow> bool) \<Rightarrow> distribution \<Rightarrow> nat \<Rightarrow> nat \<Rightarrow> ms_out \<Rightarrow> Cluster \<Rightarrow> Cluster option" where
  "session_output alloc draw j k MS_RunEndpoint c = on_endpoint alloc k False EP_Run c"
| "session_output alloc draw j k (MS_SendGetMessages gap) c =
     session_call alloc draw j k (Req_GetMessages (Request_GetMessages_create gap)) (Cont_Messages gap) c"
| "session_output alloc draw j k (MS_SendSecondaryNodeReady name) c =
     session_call alloc draw j k (Req_SecondaryNodeReady (Request_SecondaryNodeReady_create name)) Cont_Ready c"
| "session_output alloc draw j k (MS_SetPromise p a) c = on_endpoint alloc k False (EP_SetPromise p (Some a)) c"
| "session_output alloc draw j k (MS_DropPromise p) c = on_endpoint alloc k False (EP_SetPromise p None) c"
| "session_output alloc draw j k MS_Emit_invalidated c = Some c"
| "session_output alloc draw j k MS_Emit_operational c = Some c"

text \<open>Connection attempts and timers are counted by the node; \<open>k\<close> is the connection of the session that acts.\<close>

fun member_output ::
    "(nat \<Rightarrow> bool) \<Rightarrow> distribution \<Rightarrow> nat \<Rightarrow> nat option \<Rightarrow> sn_out \<Rightarrow> Cluster \<Rightarrow> Cluster option" where
  "member_output alloc draw j (Some k) (SN_Session x) c = session_output alloc draw j k x c"
| "member_output alloc draw j _ _ c = Some c"

fun perform_all :: "('a \<Rightarrow> Cluster \<Rightarrow> Cluster option) \<Rightarrow> 'a list \<Rightarrow> Cluster \<Rightarrow> Cluster option" where
  "perform_all f [] c = Some c"
| "perform_all f (x # xs) c = (case f x c of None \<Rightarrow> None | Some c' \<Rightarrow> perform_all f xs c')"

section \<open>Events of the nodes\<close>

definition master_event :: "(nat \<Rightarrow> bool) \<Rightarrow> distribution \<Rightarrow> mn_event \<Rightarrow> Cluster \<Rightarrow> Cluster option" where
  "master_event alloc draw ev c =
     (case mn_step (cl_master c) ev of
        Some (Inr (m, out)) \<Rightarrow> perform_all (master_output alloc draw) out (c\<lparr>cl_master := m\<rparr>)
      | _ \<Rightarrow> None)"

text \<open>When the node lets go of its session, the futures of the session have no continuation any more.\<close>

definition member_event :: "(nat \<Rightarrow> bool) \<Rightarrow> distribution \<Rightarrow> nat \<Rightarrow> sn_event \<Rightarrow> Cluster \<Rightarrow> Cluster option" where
  "member_event alloc draw j ev c =
     (let mb = cl_members c ! j
      in case sn_step (mb_node mb) ev of
           None \<Rightarrow> None
         | Some (n, out) \<Rightarrow>
             perform_all (member_output alloc draw j (mb_connection mb)) out
               (c\<lparr>cl_members := (cl_members c)[j :=
                    (if sns_session n = None then \<lparr>mb_node = n, mb_connection = None, mb_futures = []\<rparr>
                     else mb\<lparr>mb_node := n\<rparr>)]\<rparr>))"

section \<open>What an endpoint emits\<close>

fun promise_of :: "incoming_request \<Rightarrow> nat" where
  "promise_of (Incoming_addMessage _ _ p) = p"
| "promise_of (Incoming_getMessages _ p) = p"
| "promise_of (Incoming_ping _ p) = p"
| "promise_of (Incoming_secondaryNodeReady _ p) = p"

fun link_output :: "(nat \<Rightarrow> bool) \<Rightarrow> Link \<Rightarrow> link_event \<Rightarrow> ep_output list" where
  "link_output alloc ln (LN_Event b ev) =
     (if \<not> link_allows ln b ev then []
      else (case ep_step alloc (ln_ep ln b) ev of Inl _ \<Rightarrow> [] | Inr r \<Rightarrow> snd r))"
| "link_output alloc ln (LN_WriteFails b k) =
     (if length (concat (current_writes (ep_socketWrapper (ln_ep ln b)))) \<le> k then []
      else (case ep_step alloc (ln_ep ln b) (EP_Written True) of Inl _ \<Rightarrow> [] | Inr r \<Rightarrow> snd r))"

text \<open>
  A signal reaches the slots of the node that holds the endpoint; a session that is gone, or an
  endpoint nobody listens to, drops the promise.
\<close>

definition drop_signal :: "(nat \<Rightarrow> bool) \<Rightarrow> nat \<Rightarrow> bool \<Rightarrow> ep_signal \<Rightarrow> Cluster \<Rightarrow> Cluster option" where
  "drop_signal alloc k b sg c =
     (case sg of
        Sig_Invalidated \<Rightarrow> Some c
      | Sig_Incoming i \<Rightarrow> on_endpoint alloc k b (EP_SetPromise (promise_of i) None) c)"

fun session_signal :: "ep_signal \<Rightarrow> timestamp \<Rightarrow> ms_event" where
  "session_signal Sig_Invalidated now = MS_Invalidated"
| "session_signal (Sig_Incoming i) now = MS_Incoming i now"

definition hear ::
    "(nat \<Rightarrow> bool) \<Rightarrow> distribution \<Rightarrow> nat \<Rightarrow> bool \<Rightarrow> timestamp \<Rightarrow> ep_signal \<Rightarrow> Cluster \<Rightarrow> Cluster option" where
  "hear alloc draw k b now sg c =
     (if b then
        (case endpoint_of c k of
           None \<Rightarrow> drop_signal alloc k b sg c
         | Some e \<Rightarrow> master_event alloc draw (MN_Signal e sg) c)
      else
        (let j = co_secondary (cl_connections c ! k)
         in if mb_connection (cl_members c ! j) = Some k
            then member_event alloc draw j (SN_SessionEvent (session_signal sg now)) c
            else drop_signal alloc k b sg c))"

fun hear_output ::
    "(nat \<Rightarrow> bool) \<Rightarrow> distribution \<Rightarrow> nat \<Rightarrow> bool \<Rightarrow> timestamp \<Rightarrow> ep_output \<Rightarrow> Cluster \<Rightarrow> Cluster option" where
  "hear_output alloc draw k b now (EP_Incoming i) c = hear alloc draw k b now (Sig_Incoming i) c"
| "hear_output alloc draw k b now EP_Invalidated c = hear alloc draw k b now Sig_Invalidated c"
| "hear_output alloc draw k b now (EP_Sock x) c = Some c"

section \<open>Steps\<close>

text \<open>
  \<^item> \<open>CL_Accept\<close>: the acceptor of the master hands over a connection;
  \<^item> \<open>CL_Master n k\<close>: the master runs its \<open>n\<close>-th posted task, \<open>k\<close> being the connection if the task adds
    a secondary;
  \<^item> \<open>CL_AddMessage\<close>, \<open>CL_Ping\<close>: calls of the HTTP sessions of the master;
  \<^item> \<open>CL_WaitOver q\<close>, \<open>CL_Answer q n\<close>: the timer of a request, the \<open>n\<close>-th future of a request;
  \<^item> \<open>CL_Connected j ec\<close>, \<open>CL_TimerOver j\<close>, \<open>CL_Continue j n\<close>: the end of a connection attempt, the
    reconnection timer, the \<open>n\<close>-th future of a session;
  \<^item> \<open>CL_Link k lev now\<close>: anything else that happens to an endpoint: bytes, failures, timers, posted
    lambdas, destruction. The master's endpoint exists once its secondary is added.
\<close>

datatype cl_event =
    CL_Accept
  | CL_Master nat nat
  | CL_AddMessage string size_t
  | CL_WaitOver nat
  | CL_Answer nat nat
  | CL_Ping timestamp
  | CL_Connected nat bool
  | CL_TimerOver nat
  | CL_Continue nat nat
  | CL_Link nat link_event timestamp

text \<open>The events of an endpoint that come from outside of the nodes.\<close>

fun from_outside :: "ep_event \<Rightarrow> bool" where
  "from_outside EP_Run = False"
| "from_outside (EP_SendRequest _ _ _) = False"
| "from_outside (EP_SetPromise _ _) = False"
| "from_outside _ = True"

fun response_status :: "outcome \<Rightarrow> AddMessageStatus option" where
  "response_status (Got_AddMessage s) = Some s"
| "response_status _ = None"

definition future_outcome :: "Cluster \<Rightarrow> nat \<Rightarrow> bool \<Rightarrow> nat \<Rightarrow> outcome option" where
  "future_outcome c k b x =
     (let m = ep_outcoming (ln_ep (link_of c k) b)
      in if x < om_nextContext m then outcome_of (om_contexts m x) else None)"

text \<open>
  An endpoint is destroyed when nobody holds it: the session of the secondary, or the registry of the
  master and the snapshots of its running requests.
\<close>

definition released :: "Cluster \<Rightarrow> nat \<Rightarrow> bool \<Rightarrow> bool" where
  "released c k b \<longleftrightarrow>
     (if b then
        (case endpoint_of c k of
           None \<Rightarrow> True
         | Some e \<Rightarrow>
             (\<forall>(i, s) \<in> set (mn_secondaries (cl_master c)). sn_endpoint s \<noteq> e) \<and>
             (\<forall>run \<in> set (mn_requests (cl_master c)).
                ar_sent (run_request run) \<noteq> [] \<or> ar_waits (run_request run) > 0 \<longrightarrow>
                (\<forall>s \<in> set (ar_secondariesSnapshot (run_request run)). snap_endpoint s \<noteq> e)))
      else mb_connection (cl_members c ! co_secondary (cl_connections c ! k)) \<noteq> Some k)"

definition cl_answer :: "(nat \<Rightarrow> bool) \<Rightarrow> distribution \<Rightarrow> nat \<Rightarrow> nat \<Rightarrow> Cluster \<Rightarrow> Cluster option" where
  "cl_answer alloc draw q n c =
     (if length (cl_futures c) \<le> q \<or> length (cl_futures c ! q) \<le> n then Some c
      else
        (let (i, k, x) = cl_futures c ! q ! n
         in case future_outcome c k True x of
              None \<Rightarrow> Some c
            | Some oc \<Rightarrow>
                master_event alloc draw (MN_Answer q n (response_status oc))
                  (c\<lparr>cl_futures := (cl_futures c)[q := take_nth n (cl_futures c ! q)]\<rparr>)))"

definition cl_continue :: "(nat \<Rightarrow> bool) \<Rightarrow> distribution \<Rightarrow> nat \<Rightarrow> nat \<Rightarrow> Cluster \<Rightarrow> Cluster option" where
  "cl_continue alloc draw j n c =
     (if length (cl_members c) \<le> j \<or> length (mb_futures (cl_members c ! j)) \<le> n then Some c
      else
        (let mb = cl_members c ! j
         in case mb_connection mb of
              None \<Rightarrow> Some c
            | Some k \<Rightarrow>
                (case future_outcome c k False (snd (mb_futures mb ! n)) of
                   None \<Rightarrow> Some c
                 | Some oc \<Rightarrow>
                     member_event alloc draw j (SN_SessionEvent (MS_Response n oc))
                       (c\<lparr>cl_members := (cl_members c)[j := mb\<lparr>mb_futures := take_nth n (mb_futures mb)\<rparr>]\<rparr>))))"

definition cl_connected :: "(nat \<Rightarrow> bool) \<Rightarrow> distribution \<Rightarrow> nat \<Rightarrow> bool \<Rightarrow> Cluster \<Rightarrow> Cluster option" where
  "cl_connected alloc draw j ec c =
     (if length (cl_members c) \<le> j \<or> sns_connects (mb_node (cl_members c ! j)) = 0 then Some c
      else if ec then member_event alloc draw j (SN_Connected True) c
      else
        member_event alloc draw j (SN_Connected False)
          (c\<lparr>cl_connections := cl_connections c @ [Connection_create j],
             cl_members := (cl_members c)[j := (cl_members c ! j)
               \<lparr>mb_connection := Some (length (cl_connections c)), mb_futures := []\<rparr>]\<rparr>))"

definition cl_link ::
    "(nat \<Rightarrow> bool) \<Rightarrow> distribution \<Rightarrow> nat \<Rightarrow> link_event \<Rightarrow> timestamp \<Rightarrow> Cluster \<Rightarrow> Cluster option" where
  "cl_link alloc draw k lev now c =
     (let (b, ev) = event_of lev
      in if length (cl_connections c) \<le> k \<or> \<not> from_outside ev \<or> b \<and> endpoint_of c k = None \<or>
            ev = EP_Destroy \<and> \<not> released c k b then Some c
         else (case link_step alloc (link_of c k) lev of
                 Inl _ \<Rightarrow> None
               | Inr ln \<Rightarrow>
                   perform_all (hear_output alloc draw k b now) (link_output alloc (link_of c k) lev)
                     (set_link k ln c)))"

definition cl_ping :: "(nat \<Rightarrow> bool) \<Rightarrow> distribution \<Rightarrow> timestamp \<Rightarrow> Cluster \<Rightarrow> Cluster option" where
  "cl_ping alloc draw t c =
     (case pingSecondaries t (cl_master c) of
        Inl _ \<Rightarrow> Some c
      | Inr pings \<Rightarrow>
          perform_all
            (\<lambda>(e, t) c. map_option snd
               (call_endpoint alloc draw (connection_of c e) True (Req_Ping (Request_Ping_create t)) c)) pings c)"

fun cl_step :: "(nat \<Rightarrow> bool) \<Rightarrow> distribution \<Rightarrow> Cluster \<Rightarrow> cl_event \<Rightarrow> Cluster option" where
  "cl_step alloc draw c CL_Accept = master_event alloc draw MN_AddSecondary c"
| "cl_step alloc draw c (CL_Master n k) =
     (if n < length (mn_posted (cl_master c)) \<and> mn_posted (cl_master c) ! n = T_AddSecondary
      then (if length (cl_connections c) \<le> k \<or> k \<in> set (cl_endpoints c) then Some c
            else master_event alloc draw (MN_RunPosted n) (c\<lparr>cl_endpoints := cl_endpoints c @ [k]\<rparr>))
      else master_event alloc draw (MN_RunPosted n) c)"
| "cl_step alloc draw c (CL_AddMessage message w) =
     master_event alloc draw (MN_AddMessage message w) (c\<lparr>cl_futures := cl_futures c @ [[]]\<rparr>)"
| "cl_step alloc draw c (CL_WaitOver q) = master_event alloc draw (MN_WaitOver q) c"
| "cl_step alloc draw c (CL_Answer q n) = cl_answer alloc draw q n c"
| "cl_step alloc draw c (CL_Ping t) = cl_ping alloc draw t c"
| "cl_step alloc draw c (CL_Connected j ec) = cl_connected alloc draw j ec c"
| "cl_step alloc draw c (CL_TimerOver j) =
     (if length (cl_members c) \<le> j then Some c else member_event alloc draw j SN_TimerOver c)"
| "cl_step alloc draw c (CL_Continue j n) = cl_continue alloc draw j n c"
| "cl_step alloc draw c (CL_Link k lev now) = cl_link alloc draw k lev now c"

definition cl_run_step ::
    "(nat \<Rightarrow> bool) \<Rightarrow> distribution \<Rightarrow> Cluster option \<Rightarrow> cl_event \<Rightarrow> Cluster option" where
  "cl_run_step alloc draw x ev = (case x of None \<Rightarrow> None | Some c \<Rightarrow> cl_step alloc draw c ev)"

abbreviation cl_run ::
    "(nat \<Rightarrow> bool) \<Rightarrow> distribution \<Rightarrow> string list \<Rightarrow> cl_event list \<Rightarrow> Cluster option" where
  "cl_run alloc draw names evs \<equiv> run_steps (cl_run_step alloc draw) (Some (cl_create names)) evs"

end
