(* ===== verification/ReplicatedLog.thy ===== *)
theory ReplicatedLog
  imports Replication
begin

text \<open>
  What the system is for, without its protocol: a log that only grows, and replicas that learn
  its entries. The steps of this abstract machine are an inductive relation, its invariants are
  proved by rule induction, and the system of theory Replication is shown to implement it: every
  event is a sequence of its steps. What holds of every run of the abstract machine then holds of
  the program, in particular that what a client reads from a node never goes back.
\<close>

section \<open>Simulation\<close>

text \<open>
  A program steps from states that are within its bounds; each of its steps is a sequence of
  abstract steps.
\<close>

locale simulation =
  fixes cstep :: "'s \<Rightarrow> 'e \<Rightarrow> 's option"
    and within :: "'s \<Rightarrow> 'e list \<Rightarrow> bool"
    and abstraction :: "'s \<Rightarrow> 'a"
    and astep :: "'a \<Rightarrow> 'a \<Rightarrow> bool"
  assumes simulates: "within s (ev # evs) \<Longrightarrow>
    \<exists>s'. cstep s ev = Some s' \<and> within s' evs \<and> astep\<^sup>*\<^sup>* (abstraction s) (abstraction s')"
begin

lemma simulates_run:
  assumes "within s (evs1 @ evs2)"
  shows "\<exists>s'. run_steps (\<lambda>x ev. case x of None \<Rightarrow> None | Some s \<Rightarrow> cstep s ev) (Some s) evs1 = Some s' \<and>
     within s' evs2 \<and> astep\<^sup>*\<^sup>* (abstraction s) (abstraction s')"
  using assms
proof (induction evs1 arbitrary: s)
  case (Cons ev evs1)
  then obtain s1 where s1: "cstep s ev = Some s1" "within s1 (evs1 @ evs2)"
      "astep\<^sup>*\<^sup>* (abstraction s) (abstraction s1)"
    using simulates [of s ev "evs1 @ evs2"] by auto
  from Cons.IH [OF s1(2)] s1 show ?case by (auto intro: rtranclp_trans)
qed simp

text \<open>Whatever every abstract step preserves holds of every state the program reaches.\<close>

lemma abstract_invariant:
  assumes "within s (evs1 @ evs2)" and "P (abstraction s)" and "\<And>a b. astep a b \<Longrightarrow> P a \<Longrightarrow> P b"
  shows "\<exists>s'. run_steps (\<lambda>x ev. case x of None \<Rightarrow> None | Some s \<Rightarrow> cstep s ev) (Some s) evs1 = Some s' \<and>
     within s' evs2 \<and> P (abstraction s')"
proof -
  from simulates_run [OF assms(1)] obtain s' where
    s': "run_steps (\<lambda>x ev. case x of None \<Rightarrow> None | Some s \<Rightarrow> cstep s ev) (Some s) evs1 = Some s'"
      "within s' evs2" "astep\<^sup>*\<^sup>* (abstraction s) (abstraction s')" by blast
  from s'(3) have "P (abstraction s')" by (induction rule: rtranclp_induct) (auto intro: assms(2,3))
  with s' show ?thesis by blast
qed

end

section \<open>The replicated log\<close>

text \<open>
  \<open>rep_known\<close> are the positions of the log a replica has; \<open>rep_serving\<close> is \<^term>\<open>Some k\<close> while it
  serves clients, \<open>k\<close> being the length of the log when its query was answered. \<open>rl_queries\<close> are
  the lengths at which the owner of the log has answered a query.
\<close>

record Replica =
  rep_known :: "nat set"
  rep_serving :: "nat option"

record ReplicatedLog =
  rl_log :: "string list"
  rl_queries :: "nat set"
  rl_replicas :: "Replica list"

definition rl_init :: "nat \<Rightarrow> ReplicatedLog" where
  "rl_init n = \<lparr>rl_log = [], rl_queries = {}, rl_replicas = replicate n \<lparr>rep_known = {}, rep_serving = None\<rparr>\<rparr>"

definition rl_update :: "nat \<Rightarrow> (Replica \<Rightarrow> Replica) \<Rightarrow> ReplicatedLog \<Rightarrow> ReplicatedLog" where
  "rl_update j f s = s\<lparr>rl_replicas := (rl_replicas s)[j := f (rl_replicas s ! j)]\<rparr>"

inductive rl_step :: "ReplicatedLog \<Rightarrow> ReplicatedLog \<Rightarrow> bool" where
  rl_append: "rl_step s (s\<lparr>rl_log := rl_log s @ [m]\<rparr>)"
| rl_answer: "rl_step s (s\<lparr>rl_queries := insert (length (rl_log s)) (rl_queries s)\<rparr>)"
| rl_learn: "j < length (rl_replicas s) \<Longrightarrow> i < length (rl_log s) \<Longrightarrow>
    rl_step s (rl_update j (\<lambda>r. r\<lparr>rep_known := insert i (rep_known r)\<rparr>) s)"
| rl_serve: "j < length (rl_replicas s) \<Longrightarrow> k \<in> rl_queries s \<Longrightarrow> {..<k} \<subseteq> rep_known (rl_replicas s ! j) \<Longrightarrow>
    rl_step s (rl_update j (\<lambda>r. r\<lparr>rep_serving := Some k\<rparr>) s)"
| rl_stop: "j < length (rl_replicas s) \<Longrightarrow> rl_step s (rl_update j (\<lambda>r. r\<lparr>rep_serving := None\<rparr>) s)"

inductive_cases rl_stepE: "rl_step s s'"

text \<open>What a replica shows: the log up to the first position it does not have.\<close>

definition rl_len :: "nat set \<Rightarrow> nat \<Rightarrow> nat" where
  "rl_len known n = length (takeWhile (\<lambda>i. i \<in> known) [0..<n])"

definition rl_view :: "ReplicatedLog \<Rightarrow> nat \<Rightarrow> string list" where
  "rl_view s j = take (rl_len (rep_known (rl_replicas s ! j)) (length (rl_log s))) (rl_log s)"

section \<open>What holds of the abstract machine\<close>

definition rl_ok :: "ReplicatedLog \<Rightarrow> bool" where
  "rl_ok s \<longleftrightarrow>
     (\<forall>k \<in> rl_queries s. k \<le> length (rl_log s)) \<and>
     (\<forall>r \<in> set (rl_replicas s). rep_known r \<subseteq> {..<length (rl_log s)} \<and>
        (\<forall>k. rep_serving r = Some k \<longrightarrow> k \<in> rl_queries s \<and> {..<k} \<subseteq> rep_known r))"

text \<open>A later state has at least what an earlier one has.\<close>

definition rl_extends :: "ReplicatedLog \<Rightarrow> ReplicatedLog \<Rightarrow> bool" where
  "rl_extends s s' \<longleftrightarrow>
     prefix (rl_log s) (rl_log s') \<and> rl_queries s \<subseteq> rl_queries s' \<and>
     length (rl_replicas s') = length (rl_replicas s) \<and>
     (\<forall>j < length (rl_replicas s). rep_known (rl_replicas s ! j) \<subseteq> rep_known (rl_replicas s' ! j))"

lemma rl_init_ok: "rl_ok (rl_init n)"
  by (auto simp: rl_ok_def rl_init_def)

lemma rl_update_simps [simp]:
  "rl_log (rl_update j f s) = rl_log s" "rl_queries (rl_update j f s) = rl_queries s"
  "length (rl_replicas (rl_update j f s)) = length (rl_replicas s)"
  "j < length (rl_replicas s) \<Longrightarrow> rl_replicas (rl_update j f s) ! k = (if k = j then f (rl_replicas s ! j) else rl_replicas s ! k)"
  by (simp_all add: rl_update_def)

lemma rl_ok_nth:
  "rl_ok s \<longleftrightarrow> (\<forall>k \<in> rl_queries s. k \<le> length (rl_log s)) \<and>
     (\<forall>j < length (rl_replicas s). rep_known (rl_replicas s ! j) \<subseteq> {..<length (rl_log s)} \<and>
        (\<forall>k. rep_serving (rl_replicas s ! j) = Some k \<longrightarrow> k \<in> rl_queries s \<and> {..<k} \<subseteq> rep_known (rl_replicas s ! j)))"
  by (auto simp: rl_ok_def all_set_conv_all_nth)

lemma rl_step_ok: "rl_step s s' \<Longrightarrow> rl_ok s \<Longrightarrow> rl_ok s'"
proof (induction rule: rl_step.induct)
  case (rl_append s m)
  then show ?case by (force simp: rl_ok_def)
next
  case (rl_answer s)
  then show ?case by (auto simp: rl_ok_def)
next
  case (rl_learn j s i)
  then have "{..<k} \<subseteq> insert i (rep_known (rl_replicas s ! j))" if "rep_serving (rl_replicas s ! j) = Some k" for k
    using that unfolding rl_ok_nth by blast
  with rl_learn show ?case by (simp add: rl_ok_nth)
qed (auto simp: rl_ok_nth)

lemma rl_step_extends: "rl_step s s' \<Longrightarrow> rl_extends s s'"
  by (induction rule: rl_step.induct) (auto simp: rl_extends_def)

lemma rl_extends_trans: "rl_extends s t \<Longrightarrow> rl_extends t u \<Longrightarrow> rl_extends s u"
  unfolding rl_extends_def by (metis prefix_order.trans subset_trans)

lemma rl_steps_ok: "rl_step\<^sup>*\<^sup>* s s' \<Longrightarrow> rl_ok s \<Longrightarrow> rl_ok s'"
  by (induction rule: rtranclp_induct) (auto intro: rl_step_ok)

lemma rl_steps_extends: "rl_step\<^sup>*\<^sup>* s s' \<Longrightarrow> rl_extends s s'"
proof (induction rule: rtranclp_induct)
  case base
  then show ?case by (simp add: rl_extends_def)
next
  case (step t u)
  then show ?case using rl_step_extends rl_extends_trans by blast
qed

lemma rl_len_le: "rl_len known n \<le> n"
  using length_takeWhile_le [of "\<lambda>i. i \<in> known" "[0..<n]"] by (simp add: rl_len_def)

lemma rl_len_known: "i < rl_len known n \<Longrightarrow> i \<in> known"
proof -
  assume i: "i < rl_len known n"
  then have "takeWhile (\<lambda>i. i \<in> known) [0..<n] ! i = [0..<n] ! i" unfolding rl_len_def by (rule takeWhile_nth)
  moreover have "[0..<n] ! i = i" using i rl_len_le [of known n] by simp
  ultimately show "i \<in> known" using i set_takeWhileD [of _ "\<lambda>i. i \<in> known" "[0..<n]"]
    unfolding rl_len_def by (metis nth_mem)
qed

lemma rl_len_ge:
  assumes "\<forall>i < k. i \<in> known" and "k \<le> n"
  shows "k \<le> rl_len known n"
proof -
  have n: "[0..<n] = [0..<k] @ [k..<n]" using assms(2) by (metis le0 upt_add_eq_append le_add_diff_inverse)
  have "takeWhile (\<lambda>i. i \<in> known) ([0..<k] @ [k..<n]) = [0..<k] @ takeWhile (\<lambda>i. i \<in> known) [k..<n]"
    by (rule takeWhile_append2) (simp add: assms(1))
  then show ?thesis unfolding rl_len_def n by simp
qed

lemma rl_view_mono:
  assumes "rl_extends s s'" and "j < length (rl_replicas s)"
  shows "prefix (rl_view s j) (rl_view s' j)"
proof -
  let ?k = "rl_len (rep_known (rl_replicas s ! j)) (length (rl_log s))"
  let ?k' = "rl_len (rep_known (rl_replicas s' ! j)) (length (rl_log s'))"
  obtain zs where log: "rl_log s' = rl_log s @ zs" using assms(1) by (auto simp: rl_extends_def prefix_def)
  have "\<forall>i < ?k. i \<in> rep_known (rl_replicas s' ! j)"
    using rl_len_known assms unfolding rl_extends_def by blast
  moreover have "?k \<le> length (rl_log s')" using rl_len_le [of _ "length (rl_log s)"] log by (simp add: le_trans trans_le_add1)
  ultimately have le: "?k \<le> ?k'" by (rule rl_len_ge)
  have "rl_view s j = take ?k (rl_log s')" using rl_len_le [of _ "length (rl_log s)"] log by (simp add: rl_view_def)
  then show ?thesis unfolding rl_view_def using le by (metis min.absorb1 take_is_prefix take_take)
qed

lemma rl_serving_view:
  assumes "rl_ok s" and "j < length (rl_replicas s)" and "rep_serving (rl_replicas s ! j) = Some k"
  shows "k \<le> length (rl_view s j)"
proof -
  have q: "k \<in> rl_queries s" "{..<k} \<subseteq> rep_known (rl_replicas s ! j)" "\<forall>k \<in> rl_queries s. k \<le> length (rl_log s)"
    using assms unfolding rl_ok_nth by blast+
  then have k: "k \<le> length (rl_log s)" "\<forall>i < k. i \<in> rep_known (rl_replicas s ! j)" by auto
  from rl_len_ge [OF k(2,1)] k(1) show ?thesis by (simp add: rl_view_def)
qed


section \<open>The system implements it\<close>

definition abs_replica :: "Secondary \<Rightarrow> Replica" where
  "abs_replica sec =
     \<lparr>rep_known = unat ` dom (ss_messages (sns_storage (sec_node sec))),
      rep_serving = (if sns_operational (sec_node sec) then Some (sec_synced sec) else None)\<rparr>"

definition abs_sys :: "System \<Rightarrow> ReplicatedLog" where
  "abs_sys s =
     \<lparr>rl_log = mn_messages (sys_master s), rl_queries = (\<lambda>(gap, messages, known). known) ` set (sys_answers s),
      rl_replicas = map abs_replica (sys_secondaries s)\<rparr>"

text \<open>Runs of several abstract steps.\<close>

lemma rl_append_all: "rl_step\<^sup>*\<^sup>* s (s\<lparr>rl_log := rl_log s @ ms\<rparr>)"
proof (induction ms rule: rev_induct)
  case (snoc m ms)
  have "rl_step (s\<lparr>rl_log := rl_log s @ ms\<rparr>) ((s\<lparr>rl_log := rl_log s @ ms\<rparr>)\<lparr>rl_log := rl_log (s\<lparr>rl_log := rl_log s @ ms\<rparr>) @ [m]\<rparr>)"
    by (rule rl_append)
  with snoc show ?case by (simp add: rtranclp.rtrancl_into_rtrancl)
qed simp

lemma rl_update_update: "j < length (rl_replicas s) \<Longrightarrow> rl_update j g (rl_update j f s) = rl_update j (g \<circ> f) s"
  by (simp add: rl_update_def)

lemma rl_learn_all:
  assumes "finite K" "K \<subseteq> {..<length (rl_log s)}" "j < length (rl_replicas s)"
  shows "rl_step\<^sup>*\<^sup>* s (rl_update j (\<lambda>r. r\<lparr>rep_known := rep_known r \<union> K\<rparr>) s)"
  using assms(1,2)
proof (induction K)
  case empty
  then show ?case by (simp add: rl_update_def)
next
  case (insert i K)
  let ?t = "rl_update j (\<lambda>r. r\<lparr>rep_known := rep_known r \<union> K\<rparr>) s"
  have "rl_step ?t (rl_update j (\<lambda>r. r\<lparr>rep_known := insert i (rep_known r)\<rparr>) ?t)"
    using assms(3) insert.prems by (intro rl_learn) simp_all
  moreover have "rl_update j (\<lambda>r. r\<lparr>rep_known := insert i (rep_known r)\<rparr>) ?t =
      rl_update j (\<lambda>r. r\<lparr>rep_known := rep_known r \<union> insert i K\<rparr>) s"
    using assms(3) by (simp add: rl_update_update comp_def)
  ultimately show ?case using insert by (simp add: rtranclp.rtrancl_into_rtrancl)
qed

text \<open>A replica that learns, and then serves, stops, or goes on as it did.\<close>

lemma rl_replica_steps:
  assumes j: "j < length (rl_replicas s)" and r: "rep_known (rl_replicas s ! j) \<subseteq> rep_known r'"
    and K: "rep_known r' \<subseteq> {..<length (rl_log s)}"
    and srv: "rep_serving r' = rep_serving (rl_replicas s ! j) \<or> rep_serving r' = None \<or>
      (\<exists>k \<in> rl_queries s. rep_serving r' = Some k \<and> {..<k} \<subseteq> rep_known r')"
  shows "rl_step\<^sup>*\<^sup>* s (s\<lparr>rl_replicas := (rl_replicas s)[j := r']\<rparr>)"
proof -
  let ?t = "rl_update j (\<lambda>r. r\<lparr>rep_known := rep_known r \<union> rep_known r'\<rparr>) s"
  have fin: "finite (rep_known r')" using K finite_subset by blast
  have known: "rep_known (rl_replicas s ! j) \<union> rep_known r' = rep_known r'" using r by blast
  have learn: "rl_step\<^sup>*\<^sup>* s ?t" by (rule rl_learn_all [OF fin K j])
  have final: "rl_update j (\<lambda>r. r\<lparr>rep_serving := rep_serving r'\<rparr>) ?t = s\<lparr>rl_replicas := (rl_replicas s)[j := r']\<rparr>"
  proof -
    have new: "(rl_replicas s ! j)\<lparr>rep_known := rep_known r', rep_serving := rep_serving r'\<rparr> = r'"
      by (cases "rl_replicas s ! j"; cases r') simp
    show ?thesis using j by (simp add: rl_update_update known) (simp add: rl_update_def known new)
  qed
  have "rl_step\<^sup>*\<^sup>* ?t (rl_update j (\<lambda>r. r\<lparr>rep_serving := rep_serving r'\<rparr>) ?t)"
    using srv
  proof (elim disjE bexE conjE)
    assume "rep_serving r' = rep_serving (rl_replicas s ! j)"
    then have "rl_update j (\<lambda>r. r\<lparr>rep_serving := rep_serving r'\<rparr>) ?t = ?t"
      using j by (simp add: rl_update_update) (simp add: rl_update_def)
    then show ?thesis by simp
  next
    assume "rep_serving r' = None"
    then show ?thesis using rl_stop [of j ?t] j by simp
  next
    fix k
    assume "k \<in> rl_queries s" "rep_serving r' = Some k" "{..<k} \<subseteq> rep_known r'"
    then show ?thesis using rl_serve [of j ?t k] j known by (simp add: r_into_rtranclp)
  qed
  with learn show ?thesis unfolding final by simp
qed

text \<open>The positions a secondary has are positions of the master's log.\<close>

lemma part_positions:
  assumes "mn_ok m" "f \<subseteq>\<^sub>m ms_messages (mn_storage m)"
  shows "unat ` dom f \<subseteq> {..<length (mn_messages m)}"
proof
  fix i
  assume "i \<in> unat ` dom f"
  then obtain k where k: "i = unat k" "f k \<noteq> None" by auto
  then have "ms_messages (mn_storage m) k \<noteq> None" using assms(2) unfolding map_le_def by (metis domIff)
  then show "i \<in> {..<length (mn_messages m)}"
    using k(1) by (simp add: store_lookup [OF assms(1)] mn_messages_def split: if_splits)
qed

lemma sim_secondary:
  assumes ok: "sys_ok s" and l: "length (mn_requests (sys_master s)) < 2 ^ 64" and j: "j < length (sys_secondaries s)"
    and st: "sys_secondary j ev synced s = Some s'" and ok': "sys_ok s'"
    and why: "case synced of None \<Rightarrow> event_phase ev \<noteq> Ev_Messages | Some k \<Rightarrow> k \<in> rl_queries (abs_sys s)"
  shows "rl_step\<^sup>*\<^sup>* (abs_sys s) (abs_sys s')"
proof -
  let ?sec = "sys_secondaries s ! j" and ?m = "sys_master s"
  from st obtain n' out where n': "sn_step (sec_node ?sec) ev = Some (n', out)"
    "s' = s\<lparr>sys_secondaries := (sys_secondaries s)[j :=
       \<lparr>sec_node = n', sec_synced = (case synced of None \<Rightarrow> sec_synced ?sec | Some k \<Rightarrow> k)\<rparr>]\<rparr>"
    by (auto simp: sys_secondary_def Let_def split: option.splits)
  define new where "new = \<lparr>sec_node = n', sec_synced = (case synced of None \<Rightarrow> sec_synced ?sec | Some k \<Rightarrow> k)\<rparr>"
  have s': "s' = s\<lparr>sys_secondaries := (sys_secondaries s)[j := new]\<rparr>" by (simp add: n'(2) new_def)
  have sec: "sec_ok ?m ?sec" "mn_ok ?m" using ok j by (simp_all add: sys_ok_def)
  have "new \<in> set (sys_secondaries s')" using j by (simp add: s' set_update_memI)
  then have new: "sec_ok ?m new" using ok' s' by (simp add: sys_ok_def)
  have "sn_step_good (sec_node ?sec) ev (sn_step (sec_node ?sec) ev)"
    using part_card [OF sec(2) l] sec by (intro sn_step_ok) (simp_all add: sec_ok_def)
  then have good: "phase_of n' = phase_step (phase_of (sec_node ?sec)) (event_phase ev)"
    "ss_messages (sns_storage (sec_node ?sec)) \<subseteq>\<^sub>m ss_messages (sns_storage n')"
    using n'(1) by (auto simp: sn_step_good_def)
  have abs: "abs_sys s' = (abs_sys s)\<lparr>rl_replicas := (rl_replicas (abs_sys s))[j := abs_replica new]\<rparr>"
    by (simp add: abs_sys_def s' map_update)
  have old: "rl_replicas (abs_sys s) ! j = abs_replica ?sec" using j by (simp add: abs_sys_def)
  have serve: "rep_serving (abs_replica new) = rep_serving (abs_replica ?sec) \<or> rep_serving (abs_replica new) = None \<or>
      (\<exists>k \<in> rl_queries (abs_sys s). rep_serving (abs_replica new) = Some k \<and> {..<k} \<subseteq> rep_known (abs_replica new))"
  proof (cases "sns_operational n'")
    case False
    then show ?thesis by (simp add: abs_replica_def new_def)
  next
    case op: True
    show ?thesis
    proof (cases synced)
      case None
      then have "sns_operational (sec_node ?sec)"
        using why op good(1) phase_step_Serving [of "phase_of (sec_node ?sec)" "event_phase ev"]
        by (simp add: operational_phase)
      then show ?thesis using op None by (simp add: abs_replica_def new_def)
    next
      case (Some k)
      have k: "k \<le> length (mn_requests ?m)" "\<forall>i < k. ss_messages (sns_storage n') (word_of_nat i) \<noteq> None"
        using new op Some by (simp_all add: sec_ok_def new_def)
      have "i \<in> unat ` dom (ss_messages (sns_storage n'))" if "i < k" for i
      proof (rule image_eqI)
        show "i = unat (word_of_nat i :: size_t)" using that k(1) l by (simp add: unat_of_nat)
        show "word_of_nat i \<in> dom (ss_messages (sns_storage n'))" using that k(2) by (simp add: domIff)
      qed
      then show ?thesis using Some why op by (auto simp: abs_replica_def new_def)
    qed
  qed
  show ?thesis unfolding abs
  proof (rule rl_replica_steps)
    show "j < length (rl_replicas (abs_sys s))" using j by (simp add: abs_sys_def)
    show "rep_known (rl_replicas (abs_sys s) ! j) \<subseteq> rep_known (abs_replica new)"
      using image_mono [OF map_le_implies_dom_le [OF good(2)], of unat] unfolding old
      by (simp add: abs_replica_def new_def)
    show "rep_known (abs_replica new) \<subseteq> {..<length (rl_log (abs_sys s))}"
      using part_positions [OF sec(2)] new by (simp add: abs_replica_def abs_sys_def sec_ok_def)
  qed (use serve in \<open>simp add: old\<close>)
qed


text \<open>Steps of the master: an answer, then what it has appended.\<close>

lemma answers_of_known: "a \<in> set (answers_of m ev out) \<Longrightarrow> snd (snd a) = length (mn_requests m)"
  by (auto simp: answers_of_def split: mn_event.splits if_splits mn_task.splits list.splits mn_out.splits answer.splits)

lemma answers_of_one: "length (answers_of m ev out) \<le> 1"
  by (auto simp: answers_of_def split: mn_event.splits mn_task.splits list.splits mn_out.splits answer.splits)

lemma mn_messages_mono:
  assumes "mn_step_good m ev (Some (Inr (m', out)))"
  shows "prefix (mn_messages m) (mn_messages m')"
proof -
  have g: "length (mn_requests m') = length (mn_requests m) + messages_of ev"
    "\<forall>j < length (mn_requests m). ar_const (run_request (mn_requests m' ! j)) = ar_const (run_request (mn_requests m ! j))"
    using assms by (auto simp: mn_step_good_def)
  have "take (length (mn_messages m)) (mn_messages m') = mn_messages m"
    using g by (intro nth_equalityI) (auto simp: mn_messages_def ar_const_def)
  then show ?thesis by (metis take_is_prefix)
qed

lemma sim_master:
  assumes ok: "sys_ok s" and n: "mn_adds (sys_master s) < 2 ^ 31" and l: "Suc (length (mn_requests (sys_master s))) < 2 ^ 64"
    and st: "sys_step s (Sys_Master ev) = Some s'"
  shows "rl_step\<^sup>*\<^sup>* (abs_sys s) (abs_sys s')"
proof -
  let ?m = "sys_master s"
  have m: "mn_ok ?m" using ok by (simp add: sys_ok_def)
  from mn_step_ok [OF m n l, of ev] obtain m' out where
    m': "mn_step ?m ev = Some (Inr (m', out))" "mn_step_good ?m ev (Some (Inr (m', out)))"
    by (auto simp: mn_step_good_def)
  let ?as = "answers_of ?m ev out"
  have s': "s' = s\<lparr>sys_master := m', sys_sent := sys_sent s @ concat (map sent_of out), sys_answers := sys_answers s @ ?as\<rparr>"
    using st m'(1) by (simp add: sys_step_def)
  obtain ms where ms: "mn_messages m' = mn_messages ?m @ ms" using mn_messages_mono [OF m'(2)] by (auto simp: prefix_def)
  define t where "t = (abs_sys s)\<lparr>rl_queries := rl_queries (abs_sys s) \<union> (\<lambda>(gap, messages, known). known) ` set ?as\<rparr>"
  have "rl_step\<^sup>*\<^sup>* (abs_sys s) t"
  proof (cases ?as)
    case Nil
    then show ?thesis by (simp add: t_def)
  next
    case (Cons a as)
    then have as: "as = []" using answers_of_one [of ?m ev out] by simp
    have "snd (snd a) = length (rl_log (abs_sys s))"
      using answers_of_known [of a ?m ev out] Cons by (simp add: abs_sys_def mn_messages_def)
    then have "t = (abs_sys s)\<lparr>rl_queries := insert (length (rl_log (abs_sys s))) (rl_queries (abs_sys s))\<rparr>"
      by (simp add: t_def Cons as case_prod_beta)
    then show ?thesis using rl_answer [of "abs_sys s"] by (simp add: r_into_rtranclp)
  qed
  also have "rl_step\<^sup>*\<^sup>* t (t\<lparr>rl_log := rl_log t @ ms\<rparr>)" by (rule rl_append_all)
  also have "t\<lparr>rl_log := rl_log t @ ms\<rparr> = abs_sys s'"
    by (simp add: t_def s' abs_sys_def ms image_Un)
  finally show ?thesis .
qed

definition sys_within :: "System \<Rightarrow> sys_event list \<Rightarrow> bool" where
  "sys_within s evs \<longleftrightarrow> sys_ok s \<and> mn_within (sys_master s) (master_events evs)"

lemma sim_step:
  assumes "sys_within s (ev # evs)"
  shows "\<exists>s'. sys_step s ev = Some s' \<and> sys_within s' evs \<and> rl_step\<^sup>*\<^sup>* (abs_sys s) (abs_sys s')"
proof -
  have ok: "sys_ok s" and w: "mn_within (sys_master s) (master_events (ev # evs))" using assms by (simp_all add: sys_within_def)
  have n: "mn_adds (sys_master s) < 2 ^ 31" and l: "Suc (length (mn_requests (sys_master s))) < 2 ^ 64"
    using w by (simp_all add: mn_within_def)
  then have l': "length (mn_requests (sys_master s)) < 2 ^ 64" by simp
  from sys_step_ok [OF ok w] obtain s' where
    s': "sys_step s ev = Some s'" "sys_ok s'" "mn_within (sys_master s') (master_events evs)" by blast
  have "rl_step\<^sup>*\<^sup>* (abs_sys s) (abs_sys s')"
  proof (cases ev)
    case (Sys_Master mev)
    then show ?thesis using sim_master [OF ok n l] s'(1) by simp
  next
    case (Sys_Secondary j sev)
    show ?thesis
    proof (cases "length (sys_secondaries s) \<le> j \<or> \<not> quiet sev")
      case True
      then show ?thesis using s'(1) Sys_Secondary by (auto simp: sys_step_def)
    next
      case False
      then have "sys_secondary j sev None s = Some s'" using s'(1) Sys_Secondary by (simp add: sys_step_def)
      with False show ?thesis
        using sim_secondary [OF ok l' _ _ s'(2), of j sev None] event_phase_quiet by simp
    qed
  next
    case (Sys_Deliver j k p now)
    show ?thesis
    proof (cases "length (sys_secondaries s) \<le> j \<or> length (sys_sent s) \<le> k")
      case True
      then show ?thesis using s'(1) Sys_Deliver by (auto simp: sys_step_def)
    next
      case False
      obtain i msg where x: "sys_sent s ! k = (i, msg)" by (cases "sys_sent s ! k")
      have "sys_secondary j (SN_SessionEvent (MS_Incoming (Incoming_addMessage i msg p) now)) None s = Some s'"
        using s'(1) Sys_Deliver False x by (auto simp: sys_step_def)
      with False show ?thesis
        using sim_secondary [OF ok l' _ _ s'(2), of j _ None] by fastforce
    qed
  next
    case (Sys_Answer j k n)
    show ?thesis
    proof (cases "length (sys_secondaries s) \<le> j \<or> length (sys_answers s) \<le> k")
      case True
      then show ?thesis using s'(1) Sys_Answer by (auto simp: sys_step_def)
    next
      case False
      obtain gap xs known where x: "sys_answers s ! k = (gap, xs, known)" by (cases "sys_answers s ! k")
      then have "(gap, xs, known) \<in> set (sys_answers s)" using False by (metis not_le nth_mem)
      then have q: "known \<in> rl_queries (abs_sys s)" by (force simp: abs_sys_def)
      show ?thesis
      proof (cases "query_gap (sec_node (sys_secondaries s ! j)) n = Some gap")
        case True
        then have "sys_secondary j (SN_SessionEvent (MS_Response n (Got_GetMessages xs))) (Some known) s = Some s'"
          using s'(1) Sys_Answer False x by (auto simp: sys_step_def)
        with False show ?thesis using sim_secondary [OF ok l' _ _ s'(2), of j _ "Some known"] q by simp
      next
        case q: False
        then show ?thesis using s'(1) Sys_Answer False x by (auto simp: sys_step_def)
      qed
    qed
  qed
  with s' show ?thesis by (auto simp: sys_within_def)
qed


interpretation system_log: simulation sys_step sys_within abs_sys rl_step
  by unfold_locales (rule sim_step)

lemma sys_run_step_eq: "sys_run_step = (\<lambda>x ev. case x of None \<Rightarrow> None | Some s \<Rightarrow> sys_step s ev)"
  by (intro ext) (simp add: sys_run_step_def)

lemmas sys_simulates = system_log.simulates_run [folded sys_run_step_eq]

lemma abs_sys_create: "abs_sys (sys_create names) = rl_init (length names)"
proof -
  have "abs_replica \<lparr>sec_node = sn_begin name, sec_synced = 0\<rparr> = \<lparr>rep_known = {}, rep_serving = None\<rparr>" for name
    by (simp add: abs_replica_def sn_begin_ok(3) SecondaryStorage_create_def SecondaryNodeS_run_def
        SecondaryNodeS_create_def reconnectToMaster_def)
  then show ?thesis
    by (simp add: abs_sys_def sys_create_def rl_init_def mn_messages_def MasterNode_create_def comp_def map_replicate_const)
qed

lemma sys_create_within:
  "mn_within MasterNode_create (master_events evs) \<Longrightarrow> sys_within (sys_create names) evs"
  using sys_create_ok [of names] by (simp add: sys_within_def)

text \<open>What the nodes show is what the abstract log and its replicas show.\<close>

lemma abs_views:
  assumes within: "sys_within s evs" and j: "j < length (sys_secondaries s)"
  shows "SecondaryStorage_getContiguousChunk (sns_storage (sec_node (sys_secondaries s ! j))) 0 = Some (rl_view (abs_sys s) j)"
proof -
  let ?sec = "sys_secondaries s ! j" and ?m = "sys_master s"
  let ?f = "ss_messages (sns_storage (sec_node ?sec))"
  have ok: "mn_ok ?m" "sec_ok ?m ?sec" using within j by (simp_all add: sys_within_def sys_ok_def)
  have l: "length (mn_requests ?m) < 2 ^ 64" using within by (simp add: sys_within_def mn_within_def)
  from sec_ok_view [OF ok(1) l ok(2)] obtain xs where
    xs: "SecondaryStorage_getContiguousChunk (sns_storage (sec_node ?sec)) 0 = Some xs" "prefix xs (mn_messages ?m)" by blast
  have len: "length xs \<le> length (mn_messages ?m)" using xs(2) by (rule prefix_length_le)
  have chunk: "is_chunk ?f 0 xs" using xs(1) by (simp add: secondary_store.chunk_iff)
  have bound: "k < 2 ^ 64" if "k \<le> length xs" for k using that len l by (simp add: mn_messages_def)
  have known: "i \<in> unat ` dom ?f" if "i < length xs" for i
    using chunk that bound [of i] by (intro image_eqI [of _ _ "word_of_nat i"]) (auto simp: is_chunk_def unat_of_nat domIff)
  have "length xs \<notin> unat ` dom ?f"
    using chunk bound [of "length xs"] by (auto simp: is_chunk_def domIff)
  then have "rl_len (unat ` dom ?f) (length (mn_messages ?m)) \<le> length xs"
    using rl_len_known by (meson not_le)
  moreover have "length xs \<le> rl_len (unat ` dom ?f) (length (mn_messages ?m))"
    using known len by (intro rl_len_ge) simp_all
  ultimately have "rl_view (abs_sys s) j = take (length xs) (mn_messages ?m)"
    using j by (simp add: rl_view_def abs_sys_def abs_replica_def)
  then show ?thesis using xs by (auto simp: prefix_def)
qed

lemma abs_log:
  assumes "sys_within s evs"
  shows "MasterStorage_getContiguousChunk (mn_storage (sys_master s)) 0 = Some (rl_log (abs_sys s))"
  using store_ok_chunk [of "sys_master s"] assms
  by (simp add: sys_within_def sys_ok_def mn_ok_def mn_within_def abs_sys_def)

lemma sys_secondaries_length: "rl_step\<^sup>*\<^sup>* (rl_init n) (abs_sys s) \<Longrightarrow> length (sys_secondaries s) = n"
  using rl_steps_extends [of "rl_init n" "abs_sys s"] by (simp add: rl_extends_def rl_init_def abs_sys_def)

section \<open>Properties\<close>






end
