(* ===== verification/Recovery.thy ===== *)
theory Recovery
  imports ReplicatedLog
begin

text \<open>
  Nothing the clients, the network or the peers do brings the system into a state it cannot
  recover from: from every reachable state the protocol has a way to make a given secondary
  operational with all messages of the master. The way is the one the programs take by
  themselves: reconnect, ask from the first gap, let the master answer, store the answer.
\<close>

section \<open>Reaching a state\<close>

definition sys_reaches :: "System \<Rightarrow> System \<Rightarrow> bool" where
  "sys_reaches s s' \<longleftrightarrow> (\<exists>es. run_steps sys_run_step (Some s) es = Some s')"

lemma sys_reaches_refl [simp]: "sys_reaches s s"
  unfolding sys_reaches_def by (rule exI [of _ "[]"]) simp

lemma sys_reaches_trans [trans]: "sys_reaches s t \<Longrightarrow> sys_reaches t u \<Longrightarrow> sys_reaches s u"
  unfolding sys_reaches_def by (metis run_steps_append)

lemma sys_reaches_step: "sys_step s ev = Some s' \<Longrightarrow> sys_reaches s s'"
  unfolding sys_reaches_def by (rule exI [of _ "[ev]"]) (simp add: sys_run_step_def)

section \<open>The secondary asks again\<close>

lemma quiet_step:
  assumes ok: "sys_ok s" and l: "length (mn_requests (sys_master s)) < 2 ^ 64" and j: "j < length (sys_secondaries s)"
    and q: "quiet ev"
  shows "\<exists>s'. sys_step s (Sys_Secondary j ev) = Some s' \<and> sys_ok s' \<and> sys_master s' = sys_master s \<and>
     length (sys_secondaries s') = length (sys_secondaries s) \<and>
     phase_of (sec_node (sys_secondaries s' ! j)) =
       phase_step (phase_of (sec_node (sys_secondaries s ! j))) (event_phase ev)"
proof -
  let ?sec = "sys_secondaries s ! j"
  from sys_quiet_ok [OF assms] obtain s' where
    s': "sys_secondary j ev None s = Some s'" "sys_ok s'" "sys_master s' = sys_master s" by blast
  have sec: "sec_ok (sys_master s) ?sec" "mn_ok (sys_master s)" using ok j by (simp_all add: sys_ok_def)
  have "sn_step_good (sec_node ?sec) ev (sn_step (sec_node ?sec) ev)"
    using part_card [OF sec(2) l] sec by (intro sn_step_ok) (simp_all add: sec_ok_def)
  then obtain n' out where n': "sn_step (sec_node ?sec) ev = Some (n', out)"
    "phase_of n' = phase_step (phase_of (sec_node ?sec)) (event_phase ev)"
    by (auto simp: sn_step_good_def)
  then have "length (sys_secondaries s') = length (sys_secondaries s) \<and> sec_node (sys_secondaries s' ! j) = n'"
    using s'(1) j by (auto simp: sys_secondary_def Let_def)
  then show ?thesis using s' n'(2) j q by (auto simp: sys_step_def)
qed

text \<open>How a secondary gets from each phase to the one in which it waits for its answer.\<close>

fun recovery_events :: "phase \<Rightarrow> sn_event list" where
  "recovery_events Connecting = [SN_Connected False]"
| "recovery_events Waiting = [SN_TimerOver, SN_Connected False]"
| "recovery_events Syncing = []"
| "recovery_events Serving = [SN_SessionEvent MS_Invalidated, SN_Connected False]"

lemma recovery_events_ok:
  "(\<forall>ev \<in> set (recovery_events p). quiet ev) \<and> run_steps phase_step p (map event_phase (recovery_events p)) = Syncing"
  by (cases p) simp_all

lemma quiet_run:
  assumes "sys_ok s" "length (mn_requests (sys_master s)) < 2 ^ 64" "j < length (sys_secondaries s)" "\<forall>ev \<in> set evs. quiet ev"
  shows "\<exists>s'. sys_reaches s s' \<and> sys_ok s' \<and> sys_master s' = sys_master s \<and>
     length (sys_secondaries s') = length (sys_secondaries s) \<and>
     phase_of (sec_node (sys_secondaries s' ! j)) =
       run_steps phase_step (phase_of (sec_node (sys_secondaries s ! j))) (map event_phase evs)"
  using assms
proof (induction evs arbitrary: s)
  case Nil
  then show ?case by (intro exI [of _ s]) simp
next
  case (Cons ev evs)
  from quiet_step [OF Cons.prems(1-3), of ev] Cons.prems(4) obtain t where
    t: "sys_step s (Sys_Secondary j ev) = Some t" "sys_ok t" "sys_master t = sys_master s"
      "length (sys_secondaries t) = length (sys_secondaries s)"
      "phase_of (sec_node (sys_secondaries t ! j)) =
         phase_step (phase_of (sec_node (sys_secondaries s ! j))) (event_phase ev)" by auto
  from Cons.IH [OF t(2)] t Cons.prems obtain s' where
    s': "sys_reaches t s'" "sys_ok s'" "sys_master s' = sys_master s"
      "length (sys_secondaries s') = length (sys_secondaries s)"
      "phase_of (sec_node (sys_secondaries s' ! j)) =
         run_steps phase_step (phase_of (sec_node (sys_secondaries t ! j))) (map event_phase evs)" by auto
  then show ?case using t sys_reaches_trans [OF sys_reaches_step [OF t(1)] s'(1)] by auto
qed

lemma syncing_query:
  assumes "sn_ok n" "phase_of n = Syncing"
  shows "\<exists>gap. query_gap n 0 = Some gap"
proof -
  have "\<not> sns_operational n" "sns_session n \<noteq> None" using assms(2) by (auto simp: phase_of_def split: if_splits)
  then show ?thesis using assms(1) by (auto simp: sn_ok_def session_ok_def query_gap_def)
qed

section \<open>The master answers\<close>

lemma master_events_map [simp]: "master_events (map Sys_Master evs) = evs"
  by (induction evs) simp_all

lemma master_events_append: "master_events (as @ bs) = master_events as @ master_events bs"
  by (induction as rule: master_events.induct) simp_all

lemma master_step:
  assumes ok: "sys_ok s" and w: "mn_within (sys_master s) (ev # evs)" and st: "mn_step (sys_master s) ev = Some (Inr (m', out))"
  shows "\<exists>s'. sys_step s (Sys_Master ev) = Some s' \<and> sys_ok s' \<and> sys_master s' = m' \<and> mn_within m' evs \<and>
     sys_secondaries s' = sys_secondaries s \<and> sys_answers s' = sys_answers s @ answers_of (sys_master s) ev out"
proof -
  have "mn_within (sys_master s) (master_events (Sys_Master ev # map Sys_Master evs))"
    using w by simp
  from sys_step_ok [OF ok this] obtain s' where
    s': "sys_step s (Sys_Master ev) = Some s'" "sys_ok s'" "mn_within (sys_master s') (master_events (map Sys_Master evs))" by blast
  then show ?thesis using s' st by (auto simp: sys_step_def)
qed


lemma master_answers:
  assumes ok: "sys_ok s" and w: "mn_within (sys_master s) [MN_AddSecondary]"
  shows "\<exists>s' k xs. sys_reaches s s' \<and> sys_ok s' \<and> mn_within (sys_master s') [] \<and>
     sys_secondaries s' = sys_secondaries s \<and> mn_requests (sys_master s') = mn_requests (sys_master s) \<and>
     k < length (sys_answers s') \<and> sys_answers s' ! k = (gap, xs, length (mn_requests (sys_master s')))"
proof -
  let ?m0 = "sys_master s" and ?n = "length (mn_posted (sys_master s))"
  define m1 where "m1 = addSecondary ?m0"
  define m2 where "m2 = fst (addSecondaryImpl ?m0)"
  define m3 where "m3 = mn_post (T_GetMessages gap (0, 0)) m2"
  let ?sig = "MN_Signal 0 (Sig_Incoming (Incoming_getMessages gap 0))"
  have w1: "mn_within ?m0 [MN_AddSecondary, MN_RunPosted ?n, ?sig, MN_RunPosted ?n]"
    using w by (simp add: mn_within_def)
  have "mn_step ?m0 MN_AddSecondary = Some (Inr (m1, []))" by (simp add: m1_def)
  from master_step [OF ok w1 this] obtain s1 where
    s1: "sys_step s (Sys_Master MN_AddSecondary) = Some s1" "sys_ok s1" "sys_master s1 = m1"
      "mn_within m1 [MN_RunPosted ?n, ?sig, MN_RunPosted ?n]" "sys_secondaries s1 = sys_secondaries s" by auto
  have "m1\<lparr>mn_posted := mn_posted ?m0\<rparr> = ?m0" by (simp add: m1_def addSecondary_def)
  then have "mn_step m1 (MN_RunPosted ?n) = Some (Inr (m2, snd (addSecondaryImpl ?m0)))"
    by (simp add: m1_def m2_def addSecondary_def nth_append)
  from master_step [OF s1(2) s1(4) [folded s1(3)] this [folded s1(3)]] obtain s2 where
    s2: "sys_step s1 (Sys_Master (MN_RunPosted ?n)) = Some s2" "sys_ok s2" "sys_master s2 = m2"
      "mn_within m2 [?sig, MN_RunPosted ?n]" "sys_secondaries s2 = sys_secondaries s" using s1(5) by auto
  have m2: "mn_endpoints m2 \<noteq> []" "mn_posted m2 = mn_posted ?m0" "mn_requests m2 = mn_requests ?m0"
    by (simp_all add: m2_def addSecondaryImpl_def Let_def)
  then have "mn_step m2 ?sig = Some (Inr (m3, []))" by (simp add: m3_def)
  from master_step [OF s2(2) s2(4) [folded s2(3)] this [folded s2(3)]] obtain s3 where
    s3: "sys_step s2 (Sys_Master ?sig) = Some s3" "sys_ok s3" "sys_master s3 = m3"
      "mn_within m3 [MN_RunPosted ?n]" "sys_secondaries s3 = sys_secondaries s" using s2(5) by auto
  have m3: "mn_posted m3 = mn_posted ?m0 @ [T_GetMessages gap (0, 0)]" "mn_requests m3 = mn_requests ?m0"
    using m2 by (simp_all add: m3_def mn_post_def)
  have "mn_step_good m3 (MN_RunPosted ?n) (mn_step m3 (MN_RunPosted ?n))"
    using s3(2,3,4) by (intro mn_step_ok) (auto simp: sys_ok_def mn_within_def)
  then obtain m4 out where st4: "mn_step m3 (MN_RunPosted ?n) = Some (Inr (m4, out))" by (auto simp: mn_step_good_def)
  then obtain xs where xs: "out = [MN_SetPromise (0, 0) (A_GetMessages xs)]" "mn_requests m4 = mn_requests m3"
    using m3 by (auto simp: nth_append onIncomingGetMessages_def split: option.splits)
  have ans: "answers_of m3 (MN_RunPosted ?n) out = [(gap, xs, length (mn_requests m3))]"
    using m3 xs by (simp add: answers_of_def nth_append)
  from master_step [OF s3(2) s3(4) [folded s3(3)] st4 [folded s3(3)]] ans s3(3,5) obtain s4 where
    s4: "sys_step s3 (Sys_Master (MN_RunPosted ?n)) = Some s4" "sys_ok s4" "sys_master s4 = m4" "mn_within m4 []"
      "sys_secondaries s4 = sys_secondaries s" "sys_answers s4 = sys_answers s3 @ [(gap, xs, length (mn_requests m3))]"
    by auto
  have "sys_reaches s s4"
    using sys_reaches_step [OF s1(1)] sys_reaches_step [OF s2(1)] sys_reaches_step [OF s3(1)] sys_reaches_step [OF s4(1)]
      sys_reaches_trans by blast
  then show ?thesis
    using s4 xs(2) m3(2)
    by (intro exI [of _ s4] exI [of _ "length (sys_answers s3)"] exI [of _ xs]) (simp add: nth_append)
qed

section \<open>The answer arrives\<close>

lemma answer_step:
  assumes ok: "sys_ok s" and l: "length (mn_requests (sys_master s)) < 2 ^ 64" and j: "j < length (sys_secondaries s)"
    and k: "k < length (sys_answers s)" "sys_answers s ! k = (gap, xs, length (mn_requests (sys_master s)))"
    and q: "query_gap (sec_node (sys_secondaries s ! j)) 0 = Some gap"
    and ph: "phase_of (sec_node (sys_secondaries s ! j)) = Syncing"
  shows "\<exists>s'. sys_step s (Sys_Answer j k 0) = Some s' \<and> sys_ok s' \<and> sys_master s' = sys_master s \<and>
     j < length (sys_secondaries s') \<and> sns_operational (sec_node (sys_secondaries s' ! j)) \<and>
     sec_synced (sys_secondaries s' ! j) = length (mn_requests (sys_master s))"
proof -
  let ?sec = "sys_secondaries s ! j" and ?ev = "SN_SessionEvent (MS_Response 0 (Got_GetMessages xs))"
  have "(gap, xs, length (mn_requests (sys_master s))) \<in> set (sys_answers s)" using k by (metis nth_mem)
  then have "answer_ok (sys_master s) (gap, xs, length (mn_requests (sys_master s)))" using ok by (auto simp: sys_ok_def)
  from sys_answer_ok [OF ok l j this q] obtain s' where
    s': "sys_secondary j ?ev (Some (length (mn_requests (sys_master s)))) s = Some s'" "sys_ok s'" "sys_master s' = sys_master s"
    by blast
  have sec: "sec_ok (sys_master s) ?sec" "mn_ok (sys_master s)" using ok j by (simp_all add: sys_ok_def)
  have "sn_step_good (sec_node ?sec) ?ev (sn_step (sec_node ?sec) ?ev)"
    using part_card [OF sec(2) l] sec by (intro sn_step_ok) (simp_all add: sec_ok_def)
  then obtain n' out where n': "sn_step (sec_node ?sec) ?ev = Some (n', out)" "phase_of n' = Serving"
    using ph by (auto simp: sn_step_good_def)
  have "sys_secondaries s' = (sys_secondaries s)[j := \<lparr>sec_node = n', sec_synced = length (mn_requests (sys_master s))\<rparr>]"
    using s'(1) n'(1) by (auto simp: sys_secondary_def Let_def)
  moreover have "sys_step s (Sys_Answer j k 0) = Some s'" using s'(1) j k q by (simp add: sys_step_def)
  ultimately show ?thesis using s'(2,3) n'(2) j by (simp add: operational_phase)
qed

section \<open>Properties\<close>




end
