(* ===== verification/ClusterCorrect.thy ===== *)
theory ClusterCorrect
  imports Cluster Recovery
begin

text \<open>
  The cluster refines the system: every run of the nodes over real connections is a run of the
  abstract network. The invariant says what each pending call and each given promise means.
\<close>

section \<open>One connection\<close>

text \<open>
  What is known of the calls of the master's side and of the promises of both sides; nothing
  that is known is lost by a step.
\<close>

definition link_facts :: "(Request \<Rightarrow> bool) \<Rightarrow> (bool \<Rightarrow> incoming_request \<Rightarrow> answer \<Rightarrow> bool) \<Rightarrow> Link \<Rightarrow> bool" where
  "link_facts C A ln \<longleftrightarrow>
     link_ok ln \<and> (\<forall>r x. (r, x) \<in> link_calls ln True \<longrightarrow> C r) \<and>
     (\<forall>b a y. promised ln b a y \<longrightarrow> A b (ln_signals ln b ! a) y)"

definition link_leads :: "Link \<Rightarrow> Link \<Rightarrow> bool" where
  "link_leads ln ln' \<longleftrightarrow>
     (\<forall>b x f. call_means ln b x f \<longrightarrow> call_means ln' b x f) \<and>
     (\<forall>b. \<exists>gs. ln_signals ln' b = ln_signals ln b @ gs)"

lemma link_leads_refl [simp]: "link_leads ln ln"
  by (simp add: link_leads_def)

lemma link_leads_trans: "link_leads a b \<Longrightarrow> link_leads b c \<Longrightarrow> link_leads a c"
  unfolding link_leads_def by (metis append_assoc)

lemma link_leads_step:
  assumes "link_ok ln" "link_step alloc ln lev = Inr ln'"
  shows "link_leads ln ln'"
  using call_means_step [OF assms] link_step_signals [OF assms] by (simp add: link_leads_def)

lemma link_leads_signal:
  "link_leads ln ln' \<Longrightarrow> a < length (ln_signals ln b) \<Longrightarrow>
     a < length (ln_signals ln' b) \<and> ln_signals ln' b ! a = ln_signals ln b ! a"
  unfolding link_leads_def by (metis length_append nth_append trans_less_add1)

lemma link_facts_mono:
  "link_facts C A ln \<Longrightarrow> (\<And>r. C r \<Longrightarrow> C' r) \<Longrightarrow> (\<And>b i y. A b i y \<Longrightarrow> A' b i y) \<Longrightarrow> link_facts C' A' ln"
  by (auto simp: link_facts_def)

lemma link_facts_step:
  assumes f: "link_facts C A ln" and st: "link_step alloc ln lev = Inr ln'" and bd: "link_bounded ln'"
    and calls: "\<And>r x. (r, x) \<in> new_calls (ln_ep ln True) (snd (event_of lev)) \<Longrightarrow> fst (event_of lev) \<Longrightarrow> C r"
    and proms: "\<And>b a y. lev = LN_Event b (EP_SetPromise a (Some y)) \<Longrightarrow> a < length (ln_signals ln b) \<Longrightarrow>
      A b (ln_signals ln b ! a) y"
  shows "link_facts C A ln'" "link_leads ln ln'"
proof -
  have ok: "link_ok ln" using f by (simp add: link_facts_def)
  have ok': "link_ok ln'" using link_step_ok [OF _ st bd] ok by blast
  show leads: "link_leads ln ln'" by (rule link_leads_step [OF ok st])
  have "C r" if "(r, x) \<in> link_calls ln' True" for r x
  proof -
    from link_step_acts [OF ok st] consider "ln' = ln"
      | b ev where "event_of lev = (b, ev)" "link_acts b ev ln ln'" by blast
    then show ?thesis
    proof cases
      case 1
      then show ?thesis using f that by (auto simp: link_facts_def)
    next
      case 2
      show ?thesis
      proof (cases b)
        case True
        then have "(r, x) \<in> link_calls ln True \<or> (r, x) \<in> new_calls (ln_ep ln True) ev"
          using link_acts_calls(1) [OF 2(2)] that by auto
        then show ?thesis using f calls [of r x] 2(1) True by (auto simp: link_facts_def)
      next
        case False
        then show ?thesis using link_acts_calls(2) [OF 2(2)] that f by (auto simp: link_facts_def)
      qed
    qed
  qed
  moreover have "A b (ln_signals ln' b ! a) y" if p: "promised ln' b a y" for b a y
  proof -
    from promised_step [OF ok ok' st p] show ?thesis
    proof
      assume q: "promised ln b a y"
      then have "A b (ln_signals ln b ! a) y" "a < length (ln_signals ln b)" using f by (auto simp: link_facts_def promised_def)
      then show ?thesis using link_leads_signal [OF leads] by simp
    next
      assume q: "lev = LN_Event b (EP_SetPromise a (Some y)) \<and> a < length (ln_signals ln b)"
      then show ?thesis using proms [of b a y] link_leads_signal [OF leads, of a b] by simp
    qed
  qed
  ultimately show "link_facts C A ln'" using ok' by (simp add: link_facts_def)
qed

text \<open>An answer that came back and what the peer has promised.\<close>

lemma link_facts_answer:
  assumes f: "link_facts C A ln" and c: "call_means ln b x g"
    and oc: "outcome_of (om_contexts (ep_outcoming (ln_ep ln b)) x) = Some oc" "\<forall>e. oc \<noteq> Failed e"
    and ex: "x < om_nextContext (ep_outcoming (ln_ep ln b))"
  shows "\<exists>a y. ln_signals ln (\<not> b) ! a = g a \<and> A (\<not> b) (g a) y \<and> oc = answer_outcome (answer_response y)"
proof -
  have ok: "link_ok ln" using f by (simp add: link_facts_def)
  from link_answer_origin [OF ok ex oc] obtain r a y where
    r: "(r, x) \<in> link_calls ln b" "a < length (ln_signals ln (\<not> b))" "ln_signals ln (\<not> b) ! a = request_signal r a"
      "ic_promise (im_contexts (ep_incoming (ln_ep ln (\<not> b))) a) = Fulfilled y" "oc = answer_outcome (answer_response y)" by blast
  have "request_signal r = g" using c r(1) by (simp add: call_means_def)
  moreover have "A (\<not> b) (ln_signals ln (\<not> b) ! a) y"
    using f r(2,4) unfolding link_facts_def promised_def by blast
  ultimately show ?thesis using r(3,5) by auto
qed

lemma link_facts_create:
  "link_facts C A (Link_create t bounds)"
  by (simp add: link_facts_def link_ok_create link_calls_def ep_calls_def promised_def)
    (simp add: Link_create_def Endpoint_create_def OutManager_create_def)


section \<open>The invariant\<close>

text \<open>What is known of calls and promises, in terms of the system.\<close>

fun call_known :: "System \<Rightarrow> Request \<Rightarrow> bool" where
  "call_known s (Req_AddMessage r) \<longleftrightarrow> (ram_messageId r, ram_messageView r) \<in> set (sys_sent s)"
| "call_known s _ \<longleftrightarrow> True"

definition has_message :: "SecondaryNodeS \<Rightarrow> size_t \<Rightarrow> bool" where
  "has_message n i \<longleftrightarrow> ss_messages (sns_storage n) i \<noteq> None"

definition answer_known :: "System \<Rightarrow> SecondaryNodeS \<Rightarrow> bool \<Rightarrow> incoming_request \<Rightarrow> answer \<Rightarrow> bool" where
  "answer_known s n b i y \<longleftrightarrow>
     (if b then
        (\<forall>xs. y = A_GetMessages xs \<longrightarrow>
           (\<exists>gap p known. i = Incoming_getMessages gap p \<and> (gap, xs, known) \<in> set (sys_answers s)))
      else (\<forall>messageId message p. i = Incoming_addMessage messageId message p \<longrightarrow> has_message n messageId))"

definition cl_links :: "nat \<Rightarrow> Cluster \<Rightarrow> System \<Rightarrow> bool" where
  "cl_links t c s \<longleftrightarrow>
     (\<forall>k < length (cl_connections c).
        co_secondary (cl_connections c ! k) < length (cl_members c) \<and>
        (\<forall>b. length (ln_sent (link_of c k) b) \<le> t) \<and>
        link_facts (call_known s) (answer_known s (mb_node (cl_members c ! co_secondary (cl_connections c ! k))))
          (link_of c k))"

definition cl_matches :: "Cluster \<Rightarrow> System \<Rightarrow> bool" where
  "cl_matches c s \<longleftrightarrow>
     sys_ok s \<and> sys_master s = cl_master c \<and> map sec_node (sys_secondaries s) = map mb_node (cl_members c)"

definition cl_registered :: "Cluster \<Rightarrow> bool" where
  "cl_registered c \<longleftrightarrow>
     length (cl_endpoints c) = length (mn_endpoints (cl_master c)) \<and> distinct (cl_endpoints c) \<and>
     (\<forall>k \<in> set (cl_endpoints c). k < length (cl_connections c))"

text \<open>A query that has arrived at the master.\<close>

definition query_at :: "Cluster \<Rightarrow> size_t \<Rightarrow> nat \<Rightarrow> nat \<Rightarrow> bool" where
  "query_at c gap e p \<longleftrightarrow>
     e < length (cl_endpoints c) \<and> p < length (ln_signals (link_of c (cl_endpoints c ! e)) True) \<and>
     ln_signals (link_of c (cl_endpoints c ! e)) True ! p = Incoming_getMessages gap p"

definition cl_queries :: "Cluster \<Rightarrow> bool" where
  "cl_queries c \<longleftrightarrow>
     (\<forall>gap e p. T_GetMessages gap (e, p) \<in> set (mn_posted (cl_master c)) \<longrightarrow> query_at c gap e p)"

text \<open>The connection of the secondary the master knows by an id.\<close>

definition serves :: "Cluster \<Rightarrow> size_t \<Rightarrow> nat \<Rightarrow> bool" where
  "serves c i k \<longleftrightarrow>
     (\<exists>e < length (cl_endpoints c). e < length (mn_endpoints (cl_master c)) \<and>
        cl_endpoints c ! e = k \<and> mn_endpoints (cl_master c) ! e = i)"

definition request_message :: "Cluster \<Rightarrow> nat \<Rightarrow> nat \<Rightarrow> incoming_request" where
  "request_message c q =
     (let r = run_request (mn_requests (cl_master c) ! q) in Incoming_addMessage (ar_messageId r) (ar_message r))"

definition futures_of :: "Cluster \<Rightarrow> nat \<Rightarrow> (size_t \<times> nat \<times> nat) list" where
  "futures_of c q = (if q < length (cl_futures c) then cl_futures c ! q else [])"

definition cl_calls :: "Cluster \<Rightarrow> mn_out list \<Rightarrow> bool" where
  "cl_calls c mo \<longleftrightarrow>
     length (cl_futures c) = length (mn_requests (cl_master c)) \<and>
     (\<forall>q. request_sent (cl_master c) q = map fst (futures_of c q) @ mn_calls q mo \<and>
        (\<forall>(i, k, x) \<in> set (futures_of c q).
           serves c i k \<and> k < length (cl_connections c) \<and> call_means (link_of c k) True x (request_message c q)))"

text \<open>The member at the other end of a connection.\<close>

definition peer_node :: "Cluster \<Rightarrow> nat \<Rightarrow> SecondaryNodeS" where
  "peer_node c k = mb_node (cl_members c ! co_secondary (cl_connections c ! k))"

definition cl_oks :: "Cluster \<Rightarrow> bool" where
  "cl_oks c \<longleftrightarrow>
     (\<forall>q. \<forall>i \<in> set (request_oks (cl_master c) q). \<exists>k < length (cl_connections c).
        serves c i k \<and> has_message (peer_node c k) (ar_messageId (run_request (mn_requests (cl_master c) ! q))))"

fun cont_signal :: "continuation \<Rightarrow> string \<Rightarrow> nat \<Rightarrow> incoming_request" where
  "cont_signal (Cont_Messages gap) name = Incoming_getMessages gap"
| "cont_signal Cont_Ready name = Incoming_secondaryNodeReady name"

fun session_calls :: "sn_out \<Rightarrow> continuation list" where
  "session_calls (SN_Session (MS_SendGetMessages gap)) = [Cont_Messages gap]"
| "session_calls (SN_Session (MS_SendSecondaryNodeReady name)) = [Cont_Ready]"
| "session_calls _ = []"

definition member_ok :: "Cluster \<Rightarrow> nat \<Rightarrow> sn_out list \<Rightarrow> bool" where
  "member_ok c j so \<longleftrightarrow>
     (\<forall>session. sns_session (mb_node (cl_members c ! j)) = Some session \<longrightarrow>
        (\<exists>k < length (cl_connections c).
           mb_connection (cl_members c ! j) = Some k \<and> co_secondary (cl_connections c ! k) = j \<and>
           mss_waiting session = map fst (mb_futures (cl_members c ! j)) @ concat (map session_calls so) \<and>
           (\<forall>(cont, x) \<in> set (mb_futures (cl_members c ! j)).
              \<exists>name. call_means (link_of c k) False x (cont_signal cont name))))"

definition cl_inv :: "nat \<Rightarrow> Cluster \<Rightarrow> System \<Rightarrow> mn_out list \<Rightarrow> nat \<Rightarrow> sn_out list \<Rightarrow> bool" where
  "cl_inv t c s mo j so \<longleftrightarrow>
     cl_matches c s \<and> cl_links t c s \<and> cl_registered c \<and> cl_queries c \<and> cl_calls c mo \<and> cl_oks c \<and>
     (\<forall>i < length (cl_members c). member_ok c i (if i = j then so else []))"

section \<open>A step of one connection\<close>

text \<open>What stays when only connections change.\<close>

definition cl_leads :: "Cluster \<Rightarrow> Cluster \<Rightarrow> bool" where
  "cl_leads c c' \<longleftrightarrow>
     cl_master c' = cl_master c \<and> map mb_node (cl_members c') = map mb_node (cl_members c) \<and>
     cl_endpoints c' = cl_endpoints c \<and> map co_secondary (cl_connections c') = map co_secondary (cl_connections c) \<and>
     (\<forall>k < length (cl_connections c). link_leads (link_of c k) (link_of c' k))"

lemma cl_leads_refl [simp]: "cl_leads c c"
  by (simp add: cl_leads_def)

lemma cl_leads_lengths:
  assumes "cl_leads c c'"
  shows "length (cl_connections c') = length (cl_connections c)" "length (cl_members c') = length (cl_members c)"
    "k < length (cl_connections c) \<Longrightarrow> co_secondary (cl_connections c' ! k) = co_secondary (cl_connections c ! k)"
    "j < length (cl_members c) \<Longrightarrow> mb_node (cl_members c' ! j) = mb_node (cl_members c ! j)"
proof -
  note a = assms [unfolded cl_leads_def]
  show l: "length (cl_connections c') = length (cl_connections c)" "length (cl_members c') = length (cl_members c)"
    using a by (metis length_map)+
  show "k < length (cl_connections c) \<Longrightarrow> co_secondary (cl_connections c' ! k) = co_secondary (cl_connections c ! k)"
    using a l by (metis nth_map)
  show "j < length (cl_members c) \<Longrightarrow> mb_node (cl_members c' ! j) = mb_node (cl_members c ! j)"
    using a l by (metis nth_map)
qed

lemma cl_leads_trans:
  assumes "cl_leads a b" "cl_leads b c"
  shows "cl_leads a c"
  using assms cl_leads_lengths(1) [OF assms(1)] link_leads_trans unfolding cl_leads_def by metis

lemma call_means_leads: "link_leads ln ln' \<Longrightarrow> call_means ln b x f \<Longrightarrow> call_means ln' b x f"
  by (simp add: link_leads_def)

lemma serves_leads: "cl_leads c c' \<Longrightarrow> serves c' i k = serves c i k"
  by (simp add: cl_leads_def serves_def)

lemma query_at_leads:
  assumes l: "cl_leads c c'" and reg: "cl_registered c" and q: "query_at c gap e p"
  shows "query_at c' gap e p"
proof -
  have e: "e < length (cl_endpoints c)" using q by (simp add: query_at_def)
  then have "cl_endpoints c ! e < length (cl_connections c)" using reg by (simp add: cl_registered_def)
  then have "link_leads (link_of c (cl_endpoints c ! e)) (link_of c' (cl_endpoints c ! e))" "cl_endpoints c' = cl_endpoints c"
    using l by (simp_all add: cl_leads_def)
  then show ?thesis using q link_leads_signal by (simp add: query_at_def)
qed

lemma cl_leads_set_link:
  assumes "k < length (cl_connections c)" "link_leads (link_of c k) ln"
  shows "cl_leads c (set_link k ln c)"
  using assms by (auto simp: cl_leads_def set_link_def link_of_def nth_list_update intro!: nth_equalityI)

text \<open>The parts of the invariant that depend on what the links know, but not on what they are.\<close>

lemma cl_inv_leads:
  assumes i: "cl_inv t c s mo j so" and l: "cl_leads c c'" and links: "cl_links t' c' s"
    and fut: "cl_futures c' = cl_futures c" and mem: "cl_members c' = cl_members c"
  shows "cl_inv t' c' s mo j so"
proof -
  note L = cl_leads_lengths [OF l] and l' = l [unfolded cl_leads_def]
  have m: "cl_master c' = cl_master c" using l' by simp
  have reg: "cl_registered c" using i by (simp add: cl_inv_def)
  have "cl_registered c'" using reg l' L(1) by (simp add: cl_registered_def)
  moreover have "cl_queries c'" using i query_at_leads [OF l reg] m by (simp add: cl_inv_def cl_queries_def)
  moreover have "cl_calls c' mo"
  proof -
    have rm: "request_message c' q = request_message c q" for q by (simp add: request_message_def m)
    have fo: "futures_of c' q = futures_of c q" for q by (simp add: futures_of_def fut)
    have "call_means (link_of c' k) True x (request_message c q)"
      if "k < length (cl_connections c)" "call_means (link_of c k) True x (request_message c q)" for k x q
      using call_means_leads that l' by blast
    then show ?thesis
      using i unfolding cl_inv_def cl_calls_def m rm fo fut serves_leads [OF l] L(1) by blast
  qed
  moreover have "cl_oks c'"
  proof -
    have "peer_node c' k = peer_node c k" if "k < length (cl_connections c)" for k
      using that L(3) by (simp add: peer_node_def mem)
    then show ?thesis using i unfolding cl_inv_def cl_oks_def m serves_leads [OF l] L(1) by metis
  qed
  moreover have "member_ok c' a so'" if ok: "member_ok c a so'" for a so'
    unfolding member_ok_def mem
  proof (intro allI impI)
    fix session
    assume "sns_session (mb_node (cl_members c ! a)) = Some session"
    then obtain k where k: "k < length (cl_connections c)"
      "mb_connection (cl_members c ! a) = Some k" "co_secondary (cl_connections c ! k) = a"
      "mss_waiting session = map fst (mb_futures (cl_members c ! a)) @ concat (map session_calls so')"
      "\<forall>(cont, x) \<in> set (mb_futures (cl_members c ! a)). \<exists>name. call_means (link_of c k) False x (cont_signal cont name)"
      using ok unfolding member_ok_def by blast
    have "link_leads (link_of c k) (link_of c' k)" using l' k(1) by blast
    then have "\<forall>(cont, x) \<in> set (mb_futures (cl_members c ! a)). \<exists>name. call_means (link_of c' k) False x (cont_signal cont name)"
      using k(5) call_means_leads by fast
    then show "\<exists>k < length (cl_connections c'). mb_connection (cl_members c ! a) = Some k \<and>
        co_secondary (cl_connections c' ! k) = a \<and>
        mss_waiting session = map fst (mb_futures (cl_members c ! a)) @ concat (map session_calls so') \<and>
        (\<forall>(cont, x) \<in> set (mb_futures (cl_members c ! a)). \<exists>name. call_means (link_of c' k) False x (cont_signal cont name))"
      using k L(1,3) by auto
  qed
  moreover have "cl_matches c' s" using i m mem by (simp add: cl_inv_def cl_matches_def)
  ultimately show ?thesis using i links mem by (simp add: cl_inv_def)
qed


lemma link_of_set_link:
  "k < length (cl_connections c) \<Longrightarrow> link_of (set_link k ln c) k' = (if k' = k then ln else link_of c k')"
  by (simp add: link_of_def set_link_def nth_list_update)

lemma set_link_simps [simp]:
  "cl_master (set_link k ln c) = cl_master c" "cl_members (set_link k ln c) = cl_members c"
  "cl_futures (set_link k ln c) = cl_futures c" "cl_endpoints (set_link k ln c) = cl_endpoints c"
  "length (cl_connections (set_link k ln c)) = length (cl_connections c)"
  "co_secondary (cl_connections (set_link k ln c) ! a) = co_secondary (cl_connections c ! a)"
  by (simp_all add: set_link_def nth_list_update)
    (cases "k < length (cl_connections c)"; cases "a = k"; simp add: list_update_beyond)

text \<open>The peer's promises and the master's calls are the only obligations of a step.\<close>

definition step_known :: "Cluster \<Rightarrow> System \<Rightarrow> nat \<Rightarrow> link_event \<Rightarrow> bool" where
  "step_known c s k lev \<longleftrightarrow>
     (\<forall>r x. fst (event_of lev) \<longrightarrow> (r, x) \<in> new_calls (ln_ep (link_of c k) True) (snd (event_of lev)) \<longrightarrow> call_known s r) \<and>
     (\<forall>b a y. lev = LN_Event b (EP_SetPromise a (Some y)) \<longrightarrow> a < length (ln_signals (link_of c k) b) \<longrightarrow>
        answer_known s (peer_node c k) b (ln_signals (link_of c k) b ! a) y)"

lemma cl_inv_link:
  assumes i: "cl_inv t c s mo j so" and k: "k < length (cl_connections c)"
    and st: "link_step alloc (link_of c k) lev = Inr ln" and known: "step_known c s k lev"
    and t: "t \<le> t'" "t' \<le> 2 ^ 64" "\<forall>b. length (ln_sent ln b) \<le> t'"
  shows "cl_inv t' (set_link k ln c) s mo j so" "cl_leads c (set_link k ln c)"
proof -
  let ?K = "\<lambda>k. answer_known s (mb_node (cl_members c ! co_secondary (cl_connections c ! k)))"
  have cl: "cl_links t c s" using i by (simp add: cl_inv_def)
  then have f: "link_facts (call_known s) (?K k) (link_of c k)" using k by (simp add: cl_links_def)
  have bd: "link_bounded ln" using t(2,3) unfolding link_bounded_def by (meson le_trans)
  note F = link_facts_step [OF f st bd]
  have calls: "call_known s r"
    if "(r, x) \<in> new_calls (ln_ep (link_of c k) True) (snd (event_of lev))" "fst (event_of lev)" for r x
    using known that by (auto simp: step_known_def)
  have proms: "?K k b (ln_signals (link_of c k) b ! a) y"
    if "lev = LN_Event b (EP_SetPromise a (Some y))" "a < length (ln_signals (link_of c k) b)" for b a y
    using known that by (simp add: step_known_def peer_node_def)
  have f': "link_facts (call_known s) (?K k) ln" "link_leads (link_of c k) ln"
    by (rule F; use calls proms in blast)+
  show l: "cl_leads c (set_link k ln c)" by (rule cl_leads_set_link [OF k f'(2)])
  have "cl_links t' (set_link k ln c) s"
    unfolding cl_links_def
  proof (intro allI impI)
    fix a
    assume a: "a < length (cl_connections (set_link k ln c))"
    show "co_secondary (cl_connections (set_link k ln c) ! a) < length (cl_members (set_link k ln c)) \<and>
        (\<forall>b. length (ln_sent (link_of (set_link k ln c) a) b) \<le> t') \<and>
        link_facts (call_known s)
          (answer_known s (mb_node (cl_members (set_link k ln c) ! co_secondary (cl_connections (set_link k ln c) ! a))))
          (link_of (set_link k ln c) a)"
    proof (cases "a = k")
      case True
      then show ?thesis using cl k f'(1) t(3) by (simp add: link_of_set_link cl_links_def)
    next
      case False
      then show ?thesis using cl k a t(1) le_trans [OF _ t(1)] by (simp add: link_of_set_link cl_links_def)
    qed
  qed
  from cl_inv_leads [OF i l this] show "cl_inv t' (set_link k ln c) s mo j so" by simp
qed

lemma cl_inv_on_endpoint:
  assumes i: "cl_inv t c s mo j so" and t: "t \<le> 2 ^ 64" and on: "on_endpoint alloc k b ev c = Some c'"
    and known: "step_known c s k (LN_Event b ev)" and quiet: "\<forall>n. ev \<noteq> EP_RunSend n"
  shows "cl_inv t c' s mo j so" "cl_leads c c'" "k < length (cl_connections c)"
    "cl_members c' = cl_members c" "cl_futures c' = cl_futures c"
    "\<exists>ln. link_step alloc (link_of c k) (LN_Event b ev) = Inr ln \<and> link_of c' k = ln"
proof -
  from on have k: "k < length (cl_connections c)" by (simp add: on_endpoint_def split: if_splits)
  from on obtain ln where ln: "link_step alloc (link_of c k) (LN_Event b ev) = Inr ln" "c' = set_link k ln c"
    by (auto simp: on_endpoint_def simp del: link_step.simps split: if_splits sum.splits)
  have "ln_sent ln = ln_sent (link_of c k)" using link_step_sent(2) [OF ln(1)] quiet by simp
  then have s: "\<forall>d. length (ln_sent ln d) \<le> t" using i k by (simp add: cl_inv_def cl_links_def)
  note A = cl_inv_link [OF i k ln(1) known order_refl t s]
  show "cl_inv t c' s mo j so" "cl_leads c c'" using A ln(2) by simp_all
  show "k < length (cl_connections c)" by (rule k)
  show "cl_members c' = cl_members c" "cl_futures c' = cl_futures c" using ln(2) by simp_all
  show "\<exists>ln. link_step alloc (link_of c k) (LN_Event b ev) = Inr ln \<and> link_of c' k = ln"
    using ln k link_of_set_link by simp
qed

text \<open>Most requests of the nodes have no obligation.\<close>

lemma step_known_simps:
  "step_known c s k (LN_Event b EP_Run)" "step_known c s k (LN_Event b (EP_SetPromise a None))"
  "step_known c s k (LN_Event False (EP_SendRequest r kd d))"
  "call_known s r \<Longrightarrow> step_known c s k (LN_Event b (EP_SendRequest r kd d))"
  "(a < length (ln_signals (link_of c k) b) \<Longrightarrow> answer_known s (peer_node c k) b (ln_signals (link_of c k) b ! a) y) \<Longrightarrow>
     step_known c s k (LN_Event b (EP_SetPromise a (Some y)))"
  by (auto simp: step_known_def split: if_splits)

lemma cl_inv_asked:
  assumes "cl_inv t c s mo j so" "t \<le> 2 ^ 64" "on_endpoint alloc k b ev c = Some c'" "step_known c s k (LN_Event b ev)"
    "\<not> from_outside ev"
  shows "cl_inv t c' s mo j so \<and> cl_leads c c'"
proof -
  have "\<forall>n. ev \<noteq> EP_RunSend n" using assms(5) by auto
  then show ?thesis using cl_inv_on_endpoint(1,2) [OF assms(1-4)] by blast
qed

lemma cl_inv_call:
  assumes i: "cl_inv t c s mo j so" and t: "t \<le> 2 ^ 64" and call: "call_endpoint alloc draw k b r c = Some (x, c')"
    and known: "b \<Longrightarrow> call_known s r"
  shows "cl_inv t c' s mo j so" "cl_leads c c'" "k < length (cl_connections c)"
    "cl_members c' = cl_members c" "cl_futures c' = cl_futures c" "call_means (link_of c' k) b x (request_signal r)"
proof -
  let ?e = "ln_ep (link_of c k) b"
  let ?ev = "EP_SendRequest r (request_kind r) (chooseSendDelay draw ?e)"
  have x: "x = om_nextContext (ep_outcoming ?e)" and on: "on_endpoint alloc k b ?ev c = Some c'"
    using call by (auto simp: call_endpoint_def Let_def)
  have kn: "step_known c s k (LN_Event b ?ev)" using known by (cases b) (simp_all add: step_known_simps)
  note A = cl_inv_on_endpoint [OF i t on kn]
  show "cl_inv t c' s mo j so" "cl_leads c c'" "k < length (cl_connections c)"
    "cl_members c' = cl_members c" "cl_futures c' = cl_futures c" using A by simp_all
  obtain ln where ln: "link_step alloc (link_of c k) (LN_Event b ?ev) = Inr ln" "link_of c' k = ln"
    using A(6) by auto
  have "link_ok (link_of c k)" using i A(3) by (simp add: cl_inv_def cl_links_def link_facts_def)
  moreover have "frame_size (request_frame_of 0 r) < 2 ^ 64"
    using on by (simp add: on_endpoint_def split: if_splits)
  ultimately show "call_means (link_of c' k) b x (request_signal r)"
    using call_means_new ln x by blast
qed


section \<open>What the nodes ask for\<close>

subsection \<open>The master\<close>

fun master_owes :: "Cluster \<Rightarrow> System \<Rightarrow> mn_out \<Rightarrow> bool" where
  "master_owes c s (MN_SetPromise (e, p) a) \<longleftrightarrow>
     (\<forall>xs. a = A_GetMessages xs \<longrightarrow> (\<exists>gap known. query_at c gap e p \<and> (gap, xs, known) \<in> set (sys_answers s)))"
| "master_owes c s (MN_Request q (AR_Send e i messageId message)) \<longleftrightarrow>
     request_call (cl_master c) e i messageId message q \<and> (messageId, message) \<in> set (sys_sent s)"
| "master_owes c s _ \<longleftrightarrow> True"

lemma master_owes_leads:
  assumes l: "cl_leads c c'" and reg: "cl_registered c" and o: "master_owes c s x"
  shows "master_owes c' s x"
proof (cases "(c, s, x)" rule: master_owes.cases)
  case (1 c1 s1 e p a)
  then show ?thesis using o query_at_leads [OF l reg] by fastforce
next
  case (2 c1 s1 q e i messageId message)
  then show ?thesis using o l by (simp add: cl_leads_def)
qed simp_all

lemma connection_of_call:
  "cl_registered c \<Longrightarrow> e < length (mn_endpoints (cl_master c)) \<Longrightarrow> mn_endpoints (cl_master c) ! e = i \<Longrightarrow>
     serves c i (connection_of c e) \<and> connection_of c e < length (cl_connections c)"
  by (auto simp: cl_registered_def serves_def connection_of_def)

lemma futures_update_simps [simp]:
  "link_of (c\<lparr>cl_futures := F\<rparr>) k = link_of c k" "cl_links t (c\<lparr>cl_futures := F\<rparr>) s = cl_links t c s"
  "cl_matches (c\<lparr>cl_futures := F\<rparr>) s = cl_matches c s" "cl_registered (c\<lparr>cl_futures := F\<rparr>) = cl_registered c"
  "query_at (c\<lparr>cl_futures := F\<rparr>) gap e p = query_at c gap e p" "cl_queries (c\<lparr>cl_futures := F\<rparr>) = cl_queries c"
  "serves (c\<lparr>cl_futures := F\<rparr>) i k = serves c i k" "request_message (c\<lparr>cl_futures := F\<rparr>) q = request_message c q"
  "peer_node (c\<lparr>cl_futures := F\<rparr>) k = peer_node c k" "cl_oks (c\<lparr>cl_futures := F\<rparr>) = cl_oks c"
  "member_ok (c\<lparr>cl_futures := F\<rparr>) j so = member_ok c j so"
  by (simp_all add: link_of_def cl_links_def cl_matches_def cl_registered_def query_at_def cl_queries_def serves_def
      request_message_def peer_node_def cl_oks_def member_ok_def)

lemma cl_inv_new_call:
  assumes i: "cl_inv t c s (MN_Request q (AR_Send e i' m msg) # mo) j so"
    and call: "request_call (cl_master c) e i' m msg q"
    and x: "call_means (link_of c k) True x (Incoming_addMessage m msg)" "k = connection_of c e"
  shows "cl_inv t (c\<lparr>cl_futures := (cl_futures c)[q := cl_futures c ! q @ [(i', k, x)]]\<rparr>) s mo j so"
proof -
  let ?F = "(cl_futures c)[q := cl_futures c ! q @ [(i', k, x)]]"
  let ?c = "c\<lparr>cl_futures := ?F\<rparr>"
  have calls: "cl_calls c (MN_Request q (AR_Send e i' m msg) # mo)" and reg: "cl_registered c" using i by (simp_all add: cl_inv_def)
  have q: "q < length (cl_futures c)" using calls call by (simp add: cl_calls_def request_call_def)
  have k: "serves c i' k" "k < length (cl_connections c)"
    using connection_of_call [OF reg, of e i'] call x(2) by (simp_all add: request_call_def)
  have new: "call_means (link_of c k) True x (request_message c q)"
    using x(1) call by (simp add: request_message_def request_call_def Let_def)
  have f: "futures_of ?c p = futures_of c p @ (if p = q then [(i', k, x)] else [])" for p
    using q by (simp add: futures_of_def nth_list_update)
  have old: "request_sent (cl_master c) p = map fst (futures_of c p) @ (if q = p then [i'] else []) @ mn_calls p mo \<and>
      (\<forall>(i, k, x) \<in> set (futures_of c p).
         serves c i k \<and> k < length (cl_connections c) \<and> call_means (link_of c k) True x (request_message c p))" for p
    using calls unfolding cl_calls_def by simp
  have "cl_calls ?c mo"
    unfolding cl_calls_def
  proof (intro conjI allI)
    show "length (cl_futures ?c) = length (mn_requests (cl_master ?c))" using calls by (simp add: cl_calls_def)
    fix p
    show "request_sent (cl_master ?c) p = map fst (futures_of ?c p) @ mn_calls p mo" using old [of p] f [of p] by simp
    have "\<forall>(i, k, x) \<in> set (futures_of ?c p).
         serves c i k \<and> k < length (cl_connections c) \<and> call_means (link_of c k) True x (request_message c p)"
      using old [of p] k new unfolding f by (cases "p = q") simp_all
    then show "\<forall>(i, k, x) \<in> set (futures_of ?c p).
         serves ?c i k \<and> k < length (cl_connections ?c) \<and> call_means (link_of ?c k) True x (request_message ?c p)"
      by simp
  qed
  then show ?thesis using i by (simp add: cl_inv_def)
qed

lemma cl_inv_master_output:
  assumes i: "cl_inv t c s (x # mo) j so" and t: "t \<le> 2 ^ 64" and out: "master_output alloc draw x c = Some c'"
    and owes: "master_owes c s x"
  shows "cl_inv t c' s mo j so \<and> cl_leads c c'"
proof -
  have quiet: "cl_inv t d s mo j so" if "cl_inv t d s (x # mo) j so" "\<nexists>q y. x = MN_Request q y" for d
  proof -
    have "mn_calls q (x # mo) = mn_calls q mo" for q using that(2) by (cases x) simp_all
    then show ?thesis using that(1) by (simp add: cl_inv_def cl_calls_def)
  qed
  show ?thesis
  proof (cases x)
    case (MN_RunEndpoint e)
    then have "on_endpoint alloc (connection_of c e) True EP_Run c = Some c'" using out by simp
    from cl_inv_asked [OF i t this] have "cl_inv t c' s (x # mo) j so \<and> cl_leads c c'" by (simp add: step_known_simps)
    then show ?thesis using quiet MN_RunEndpoint by simp
  next
    case (MN_SetPromise r a)
    obtain e p where r: "r = (e, p)" by (cases r)
    let ?k = "connection_of c e"
    have on: "on_endpoint alloc ?k True (EP_SetPromise p (Some a)) c = Some c'" using out MN_SetPromise r by simp
    have "answer_known s (peer_node c ?k) True (ln_signals (link_of c ?k) True ! p) a"
    proof (cases "\<exists>xs. a = A_GetMessages xs")
      case True
      then obtain xs gap known where "a = A_GetMessages xs" "query_at c gap e p" "(gap, xs, known) \<in> set (sys_answers s)"
        using owes MN_SetPromise r by auto
      then show ?thesis by (auto simp: answer_known_def query_at_def connection_of_def)
    qed (simp add: answer_known_def)
    then have "step_known c s ?k (LN_Event True (EP_SetPromise p (Some a)))" by (simp add: step_known_simps)
    from cl_inv_asked [OF i t on this] have "cl_inv t c' s (x # mo) j so \<and> cl_leads c c'" by simp
    then show ?thesis using quiet MN_SetPromise by simp
  next
    case (MN_DropPromise r)
    obtain e p where r: "r = (e, p)" by (cases r)
    then have "on_endpoint alloc (connection_of c e) True (EP_SetPromise p None) c = Some c'"
      using out MN_DropPromise by simp
    from cl_inv_asked [OF i t this] have "cl_inv t c' s (x # mo) j so \<and> cl_leads c c'" by (simp add: step_known_simps)
    then show ?thesis using quiet MN_DropPromise by simp
  next
    case (MN_Request q y)
    show ?thesis
    proof (cases y)
      case AR_Wait
      have "mn_calls p (x # mo) = mn_calls p mo" for p using MN_Request AR_Wait by simp
      then show ?thesis using i out MN_Request AR_Wait by (simp add: cl_inv_def cl_calls_def)
    next
      case (AR_Send e i' m msg)
      let ?k = "connection_of c e" and ?r = "Req_AddMessage (Request_AddMessage_create m msg)"
      obtain y c1 where call: "call_endpoint alloc draw ?k True ?r c = Some (y, c1)"
        "c' = c1\<lparr>cl_futures := (cl_futures c1)[q := cl_futures c1 ! q @ [(i', ?k, y)]]\<rparr>"
        using out MN_Request AR_Send by (auto split: option.splits)
      have owes': "request_call (cl_master c) e i' m msg q" "(m, msg) \<in> set (sys_sent s)"
        using owes MN_Request AR_Send by simp_all
      have known: "call_known s ?r" using owes'(2) by (simp add: Request_AddMessage_create_def)
      note C = cl_inv_call [OF i t call(1) known]
      have f: "request_signal ?r = Incoming_addMessage m msg" by (rule ext) (simp add: Request_AddMessage_create_def)
      have e1: "connection_of c1 e = ?k" using C(2) cl_leads_lengths(1) [OF C(2)] by (simp add: connection_of_def cl_leads_def)
      have m1: "cl_master c1 = cl_master c" using C(2) by (simp add: cl_leads_def)
      have i1: "cl_inv t c1 s (MN_Request q (AR_Send e i' m msg) # mo) j so" using C(1) unfolding MN_Request AR_Send .
      have "cl_inv t c' s mo j so"
        unfolding call(2)
        by (rule cl_inv_new_call [OF i1 _ C(6) [unfolded f] e1 [symmetric]]) (simp only: m1 owes'(1))
      moreover have "cl_leads c c'" using C(2) unfolding call(2) cl_leads_def by simp
      ultimately show ?thesis by blast
    qed
  qed
qed

lemma cl_inv_master_outputs:
  assumes "cl_inv t c s mo j so" "t \<le> 2 ^ 64" "perform_all (master_output alloc draw) mo c = Some c'"
    "\<forall>x \<in> set mo. master_owes c s x"
  shows "cl_inv t c' s [] j so \<and> cl_leads c c'"
  using assms
proof (induction mo arbitrary: c)
  case (Cons x xs)
  obtain c1 where c1: "master_output alloc draw x c = Some c1" "perform_all (master_output alloc draw) xs c1 = Some c'"
    using Cons.prems(3) by (auto split: option.splits)
  have "master_owes c s x" using Cons.prems(4) by simp
  from cl_inv_master_output [OF Cons.prems(1,2) c1(1) this] have
    s1: "cl_inv t c1 s xs j so" "cl_leads c c1" by simp_all
  have "cl_registered c" using Cons.prems(1) by (simp add: cl_inv_def)
  then have "\<forall>y \<in> set xs. master_owes c1 s y" using Cons.prems(4) master_owes_leads [OF s1(2)] by simp
  from Cons.IH [OF s1(1) Cons.prems(2) c1(2) this] show ?case using cl_leads_trans [OF s1(2)] by blast
qed simp


subsection \<open>The secondaries\<close>

fun session_owes :: "Cluster \<Rightarrow> nat option \<Rightarrow> sn_out \<Rightarrow> bool" where
  "session_owes c (Some k) (SN_Session (MS_SetPromise p a)) \<longleftrightarrow>
     p < length (ln_signals (link_of c k) False) \<and> k < length (cl_connections c) \<and>
     co_secondary (cl_connections c ! k) < length (cl_members c) \<and>
     (\<forall>messageId message q. ln_signals (link_of c k) False ! p = Incoming_addMessage messageId message q \<longrightarrow>
        has_message (peer_node c k) messageId)"
| "session_owes c _ _ \<longleftrightarrow> True"

lemma peer_node_leads:
  "cl_leads c c' \<Longrightarrow> k < length (cl_connections c) \<Longrightarrow> co_secondary (cl_connections c ! k) < length (cl_members c) \<Longrightarrow>
     peer_node c' k = peer_node c k"
  by (simp add: peer_node_def cl_leads_lengths)

lemma session_owes_leads:
  assumes l: "cl_leads c c'" and o: "session_owes c kk x"
  shows "session_owes c' kk x"
proof (cases "(c, kk, x)" rule: session_owes.cases)
  case (1 c1 k p a)
  then have k: "k < length (cl_connections c)" "p < length (ln_signals (link_of c k) False)" using o by simp_all
  then have "link_leads (link_of c k) (link_of c' k)" using l by (simp add: cl_leads_def)
  from link_leads_signal [OF this k(2)] show ?thesis
    using 1 o peer_node_leads [OF l, of k] cl_leads_lengths [OF l] by simp
qed simp_all

text \<open>Changing what a member remembers of its session, but not its node.\<close>

lemma cl_inv_members:
  assumes i: "cl_inv t c s mo j so" and M: "map mb_node M = map mb_node (cl_members c)"
    and other: "\<And>a. a < length M \<Longrightarrow> a \<noteq> j \<Longrightarrow> M ! a = cl_members c ! a"
    and self: "j < length M \<Longrightarrow> member_ok (c\<lparr>cl_members := M\<rparr>) j so'"
  shows "cl_inv t (c\<lparr>cl_members := M\<rparr>) s mo j so'"
proof -
  let ?c = "c\<lparr>cl_members := M\<rparr>"
  have l: "length M = length (cl_members c)" using M by (metis length_map)
  have n: "mb_node (M ! a) = mb_node (cl_members c ! a)" if "a < length M" for a using M l that by (metis nth_map)
  have lk: "link_of ?c k = link_of c k" for k by (simp add: link_of_def)
  have links: "cl_links t c s" using i by (simp add: cl_inv_def)
  then have sec: "co_secondary (cl_connections c ! k) < length M" if "k < length (cl_connections c)" for k
    using that l by (simp add: cl_links_def)
  have "cl_links t ?c s" using links sec n l unfolding cl_links_def lk by simp
  moreover have "cl_matches ?c s" using i M by (simp add: cl_inv_def cl_matches_def)
  moreover have "cl_registered ?c" using i by (simp add: cl_inv_def cl_registered_def)
  moreover have "cl_queries ?c" using i by (simp add: cl_inv_def cl_queries_def query_at_def lk)
  moreover have "cl_calls ?c mo"
    using i by (simp add: cl_inv_def cl_calls_def lk futures_of_def serves_def request_message_def)
  moreover have "cl_oks ?c"
  proof -
    have "peer_node ?c k = peer_node c k" if "k < length (cl_connections c)" for k
      using n [OF sec [OF that]] by (simp add: peer_node_def)
    then show ?thesis using i unfolding cl_inv_def cl_oks_def serves_def by (simp cong: conj_cong)
  qed
  moreover have "member_ok ?c a (if a = j then so' else [])" if "a < length M" for a
  proof (cases "a = j")
    case True
    then show ?thesis using self that by simp
  next
    case False
    then have "member_ok c a []" using i that l unfolding cl_inv_def by metis
    then show ?thesis using False other [OF that False] by (simp add: member_ok_def lk)
  qed
  ultimately show ?thesis by (simp add: cl_inv_def)
qed

lemma member_ok_skip:
  "session_calls x = [] \<Longrightarrow> member_ok c j (x # so) \<longleftrightarrow> member_ok c j so"
  by (simp add: member_ok_def)

lemma cl_inv_skip:
  "session_calls x = [] \<Longrightarrow> cl_inv t c s mo j (x # so) \<longleftrightarrow> cl_inv t c s mo j so"
  by (auto simp: cl_inv_def member_ok_skip)

lemma cl_inv_session_call:
  assumes i: "cl_inv t c s mo j (x # so)" and t: "t \<le> 2 ^ 64" and j: "j < length (cl_members c)"
    and out: "session_call alloc draw j k r cont c = Some c'"
    and own: "sns_session (mb_node (cl_members c ! j)) \<noteq> None \<Longrightarrow> mb_connection (cl_members c ! j) = Some k"
    and x: "session_calls x = [cont]" "request_signal r = cont_signal cont name"
  shows "cl_inv t c' s mo j so \<and> cl_leads c c'"
proof -
  obtain y c1 where call: "call_endpoint alloc draw k False r c = Some (y, c1)"
    and c': "c' = c1\<lparr>cl_members := (cl_members c1)[j := (cl_members c1 ! j)
        \<lparr>mb_futures := mb_futures (cl_members c1 ! j) @ [(cont, y)]\<rparr>]\<rparr>"
    using out by (auto simp: session_call_def Let_def split: option.splits)
  note C = cl_inv_call [OF i t call]
  have i1: "cl_inv t c1 s mo j (x # so)" and l: "cl_leads c c1" and m: "cl_members c1 = cl_members c"
    using C(1,2,4) by simp_all
  let ?mb = "cl_members c1 ! j"
  let ?mb' = "?mb\<lparr>mb_futures := mb_futures ?mb @ [(cont, y)]\<rparr>"
  let ?M = "(cl_members c1)[j := ?mb']"
  have j1: "j < length (cl_members c1)" using j m by simp
  then have nodes: "map mb_node ?M = map mb_node (cl_members c1)"
    by (intro nth_equalityI) (auto simp: nth_list_update)
  have "cl_inv t (c1\<lparr>cl_members := ?M\<rparr>) s mo j so"
  proof (rule cl_inv_members [OF i1 nodes])
    show "?M ! a = cl_members c1 ! a" if "a < length ?M" "a \<noteq> j" for a using that by simp
    have "member_ok c1 j (x # so)" using i1 j1 unfolding cl_inv_def by metis
    moreover have "call_means (link_of c1 k) False y (cont_signal cont name)" using C(6) x(2) by simp
    ultimately show "member_ok (c1\<lparr>cl_members := ?M\<rparr>) j so"
      using j1 own m x(1) unfolding member_ok_def by (auto simp: link_of_def)
  qed
  moreover have "cl_leads c c'"
    using l nodes unfolding c' cl_leads_def link_of_def by simp
  ultimately show ?thesis unfolding c' by blast
qed


definition owns_session :: "Cluster \<Rightarrow> nat \<Rightarrow> nat option \<Rightarrow> bool" where
  "owns_session c j kk \<longleftrightarrow>
     (sns_session (mb_node (cl_members c ! j)) \<noteq> None \<longrightarrow> mb_connection (cl_members c ! j) = kk)"

lemma on_endpoint_members: "on_endpoint alloc k b ev c = Some c' \<Longrightarrow> cl_members c' = cl_members c"
  by (auto simp: on_endpoint_def simp del: link_step.simps split: if_splits sum.splits)

lemma session_call_connections:
  assumes "session_call alloc draw j k r cont c = Some c'" "j < length (cl_members c)"
  shows "map mb_connection (cl_members c') = map mb_connection (cl_members c)"
proof -
  obtain y c1 where call: "call_endpoint alloc draw k False r c = Some (y, c1)"
    and c': "cl_members c' = (cl_members c1)[j := (cl_members c1 ! j)
        \<lparr>mb_futures := mb_futures (cl_members c1 ! j) @ [(cont, y)]\<rparr>]"
    using assms(1) by (auto simp: session_call_def Let_def split: option.splits)
  have "cl_members c1 = cl_members c" using call on_endpoint_members by (auto simp: call_endpoint_def Let_def)
  then show ?thesis using c' assms(2) by (intro nth_equalityI) (auto simp: nth_list_update)
qed

lemma cl_inv_member_output:
  assumes i: "cl_inv t c s mo j (x # so)" and t: "t \<le> 2 ^ 64" and j: "j < length (cl_members c)"
    and out: "member_output alloc draw j kk x c = Some c'" and own: "owns_session c j kk" and owes: "session_owes c kk x"
  shows "cl_inv t c' s mo j so \<and> cl_leads c c' \<and> map mb_connection (cl_members c') = map mb_connection (cl_members c)"
proof (cases "\<exists>k z. kk = Some k \<and> x = SN_Session z")
  case True
  then obtain k z where kk: "kk = Some k" "x = SN_Session z" by blast
  then have st: "session_output alloc draw j k z c = Some c'" using out by simp
  have own': "sns_session (mb_node (cl_members c ! j)) \<noteq> None \<Longrightarrow> mb_connection (cl_members c ! j) = Some k"
    using own kk(1) by (simp add: owns_session_def)
  have asked: ?thesis if "on_endpoint alloc k False ev c = Some c'" "step_known c s k (LN_Event False ev)"
      "\<not> from_outside ev" "session_calls x = []" for ev
  proof -
    have "cl_members c' = cl_members c" using that(1)
      by (auto simp: on_endpoint_def simp del: link_step.simps split: if_splits sum.splits)
    then show ?thesis using cl_inv_asked [OF i t that(1-3)] cl_inv_skip [OF that(4)] by simp
  qed
  have quiet: ?thesis if "c' = c" "session_calls x = []"
    using i cl_inv_skip [OF that(2)] that(1) by simp
  show ?thesis
  proof (cases z)
    case MS_RunEndpoint
    show ?thesis by (rule asked [of EP_Run]) (use st MS_RunEndpoint kk step_known_simps in simp_all)
  next
    case (MS_SendGetMessages gap)
    let ?r = "Req_GetMessages (Request_GetMessages_create gap)"
    have call: "session_call alloc draw j k ?r (Cont_Messages gap) c = Some c'" using st MS_SendGetMessages by simp
    have "request_signal ?r = cont_signal (Cont_Messages gap) []" by (rule ext) (simp add: Request_GetMessages_create_def)
    from cl_inv_session_call [OF i t j call own' _ this] show ?thesis
      using session_call_connections [OF call j] kk(2) MS_SendGetMessages by simp
  next
    case (MS_SendSecondaryNodeReady name)
    let ?r = "Req_SecondaryNodeReady (Request_SecondaryNodeReady_create name)"
    have call: "session_call alloc draw j k ?r Cont_Ready c = Some c'" using st MS_SendSecondaryNodeReady by simp
    have "request_signal ?r = cont_signal Cont_Ready name" by (rule ext) (simp add: Request_SecondaryNodeReady_create_def)
    from cl_inv_session_call [OF i t j call own' _ this] show ?thesis
      using session_call_connections [OF call j] kk(2) MS_SendSecondaryNodeReady by simp
  next
    case (MS_SetPromise p a)
    have "step_known c s k (LN_Event False (EP_SetPromise p (Some a)))"
      using owes kk MS_SetPromise by (intro step_known_simps) (simp add: answer_known_def)
    then show ?thesis by (intro asked [of "EP_SetPromise p (Some a)"]) (use st MS_SetPromise kk in simp_all)
  next
    case (MS_DropPromise p)
    show ?thesis by (rule asked [of "EP_SetPromise p None"]) (use st MS_DropPromise kk step_known_simps in simp_all)
  qed (use quiet st kk in simp_all)
next
  case False
  then have c': "c' = c" using out by (cases "(alloc, draw, j, kk, x, c)" rule: member_output.cases) auto
  have "cl_inv t c s mo j so"
  proof (cases "session_calls x = []")
    case True
    then show ?thesis using i cl_inv_skip by blast
  next
    case calls: False
    then have "kk = None" using False by (cases x) auto
    then have "member_ok c j so' \<longleftrightarrow> sns_session (mb_node (cl_members c ! j)) = None" for so'
      using own by (auto simp: member_ok_def owns_session_def)
    then show ?thesis using i unfolding cl_inv_def by metis
  qed
  then show ?thesis using c' by simp
qed

lemma cl_inv_member_outputs:
  assumes "cl_inv t c s mo j so" "t \<le> 2 ^ 64" "j < length (cl_members c)"
    "perform_all (member_output alloc draw j kk) so c = Some c'" "owns_session c j kk" "\<forall>x \<in> set so. session_owes c kk x"
  shows "cl_inv t c' s mo j [] \<and> cl_leads c c'"
  using assms
proof (induction so arbitrary: c)
  case (Cons x xs)
  obtain c1 where c1: "member_output alloc draw j kk x c = Some c1" "perform_all (member_output alloc draw j kk) xs c1 = Some c'"
    using Cons.prems(4) by (auto split: option.splits)
  have "session_owes c kk x" using Cons.prems(6) by simp
  from cl_inv_member_output [OF Cons.prems(1-3) c1(1) Cons.prems(5) this] have
    s1: "cl_inv t c1 s mo j xs" "cl_leads c c1" "map mb_connection (cl_members c1) = map mb_connection (cl_members c)" by simp_all
  have j1: "j < length (cl_members c1)" "mb_node (cl_members c1 ! j) = mb_node (cl_members c ! j)"
    using cl_leads_lengths [OF s1(2)] Cons.prems(3) by simp_all
  have "mb_connection (cl_members c1 ! j) = mb_connection (cl_members c ! j)"
    using s1(3) Cons.prems(3) j1(1) by (metis nth_map)
  then have "owns_session c1 j kk" using Cons.prems(5) j1(2) by (simp add: owns_session_def)
  moreover have "\<forall>y \<in> set xs. session_owes c1 kk y" using Cons.prems(6) session_owes_leads [OF s1(2)] by simp
  ultimately show ?case using Cons.IH [OF s1(1) Cons.prems(2) j1(1) c1(2)] cl_leads_trans [OF s1(2)] by blast
qed simp


section \<open>A step of the master\<close>

lemma call_known_mono: "call_known s r \<Longrightarrow> set (sys_sent s) \<subseteq> set (sys_sent s') \<Longrightarrow> call_known s' r"
  by (cases r) auto

lemma answer_known_mono:
  assumes "answer_known s n b i y" "set (sys_answers s) \<subseteq> set (sys_answers s')"
    "\<And>m. has_message n m \<Longrightarrow> has_message n' m"
  shows "answer_known s' n' b i y"
proof (cases b)
  case True
  have "\<exists>gap p known. i = Incoming_getMessages gap p \<and> (gap, xs, known) \<in> set (sys_answers s')"
    if y: "y = A_GetMessages xs" for xs
  proof -
    obtain gap p known where "i = Incoming_getMessages gap p" "(gap, xs, known) \<in> set (sys_answers s)"
      using assms(1) True y by (auto simp: answer_known_def)
    then show ?thesis using subsetD [OF assms(2)] by blast
  qed
  then show ?thesis using True by (simp add: answer_known_def)
next
  case False
  then show ?thesis using assms(1,3) by (simp add: answer_known_def)
qed

lemma master_sys_step:
  assumes ok: "sys_ok s" and w: "mn_within (sys_master s) (ev # rest)" and st: "mn_step (sys_master s) ev = Some (Inr (m', out))"
  shows "\<exists>s'. sys_step s (Sys_Master ev) = Some s' \<and> sys_ok s' \<and> sys_master s' = m' \<and> mn_within m' rest \<and>
     sys_secondaries s' = sys_secondaries s \<and> sys_answers s' = sys_answers s @ answers_of (sys_master s) ev out \<and>
     sys_sent s' = sys_sent s @ concat (map sent_of out)"
proof -
  from master_step [OF ok w st] obtain s' where
    s': "sys_step s (Sys_Master ev) = Some s'" "sys_ok s'" "sys_master s' = m'" "mn_within m' rest"
      "sys_secondaries s' = sys_secondaries s" "sys_answers s' = sys_answers s @ answers_of (sys_master s) ev out" by blast
  moreover have "sys_sent s' = sys_sent s @ concat (map sent_of out)" using s'(1) st by (auto simp: sys_step_def)
  ultimately show ?thesis by blast
qed

text \<open>
  A step of the master together with what the cluster does around it: a connection for a new
  endpoint, a new list of futures for a new request, a future taken from its list.
\<close>

definition master_move :: "Cluster \<Rightarrow> System \<Rightarrow> mn_event \<Rightarrow> mn_out list \<Rightarrow> Cluster \<Rightarrow> System \<Rightarrow> bool" where
  "master_move c s ev out c' s' \<longleftrightarrow>
     mn_step (cl_master c) ev = Some (Inr (cl_master c', out)) \<and>
     mn_step_good (cl_master c) ev (Some (Inr (cl_master c', out))) \<and>
     cl_members c' = cl_members c \<and> cl_connections c' = cl_connections c \<and>
     sys_ok s' \<and> sys_master s' = cl_master c' \<and> sys_secondaries s' = sys_secondaries s \<and>
     sys_answers s' = sys_answers s @ answers_of (cl_master c) ev out \<and>
     sys_sent s' = sys_sent s @ concat (map sent_of out) \<and>
     (\<exists>ks. cl_endpoints c' = cl_endpoints c @ ks \<and>
        length ks = (if runs_task (cl_master c) ev T_AddSecondary then 1 else 0) \<and>
        (\<forall>k \<in> set ks. k < length (cl_connections c) \<and> k \<notin> set (cl_endpoints c))) \<and>
     length (cl_futures c') = length (mn_requests (cl_master c')) \<and>
     (\<forall>q. map fst (futures_of c' q) = answered_calls ev q (map fst (futures_of c q)) \<and>
        set (futures_of c' q) \<subseteq> set (futures_of c q)) \<and>
     (\<forall>e gap p. ev = MN_Signal e (Sig_Incoming (Incoming_getMessages gap p)) \<longrightarrow>
        e < length (mn_endpoints (cl_master c)) \<longrightarrow> query_at c gap e p) \<and>
     (\<forall>q n. ev = MN_Answer q n (Some OK) \<longrightarrow> n < length (request_sent (cl_master c) q) \<longrightarrow>
        (\<exists>k < length (cl_connections c). serves c (request_sent (cl_master c) q ! n) k \<and>
           has_message (peer_node c k) (ar_messageId (run_request (mn_requests (cl_master c) ! q)))))"

lemma master_moveD:
  assumes "master_move c s ev out c' s'"
  shows "mn_step (cl_master c) ev = Some (Inr (cl_master c', out))"
    "mn_step_good (cl_master c) ev (Some (Inr (cl_master c', out)))"
    "cl_members c' = cl_members c" "cl_connections c' = cl_connections c"
    "link_of c' k = link_of c k" "peer_node c' k = peer_node c k"
  using assms by (simp_all add: master_move_def link_of_def peer_node_def)

lemma cl_inv_master: "cl_inv t c s mo j so \<Longrightarrow> mn_ok (cl_master c) \<and> registry_ok (cl_master c)"
  by (auto simp: cl_inv_def cl_matches_def sys_ok_def mn_ok_def)



lemma move_requests:
  assumes "master_move c s ev out c' s'"
  shows "length (mn_requests (cl_master c)) \<le> length (mn_requests (cl_master c'))"
    "q < length (mn_requests (cl_master c)) \<Longrightarrow>
       ar_const (run_request (mn_requests (cl_master c') ! q)) = ar_const (run_request (mn_requests (cl_master c) ! q))"
  using master_moveD(2) [OF assms] by (auto simp: mn_step_good_def)

lemma move_endpoints:
  assumes "master_move c s ev out c' s'"
  shows "\<exists>ks js. cl_endpoints c' = cl_endpoints c @ ks \<and> mn_endpoints (cl_master c') = mn_endpoints (cl_master c) @ js \<and>
     length ks = length js \<and> (\<forall>k \<in> set ks. k < length (cl_connections c) \<and> k \<notin> set (cl_endpoints c)) \<and> length ks \<le> 1"
proof -
  obtain ks where ks: "cl_endpoints c' = cl_endpoints c @ ks" "length ks = (if runs_task (cl_master c) ev T_AddSecondary then 1 else 0)"
    "\<forall>k \<in> set ks. k < length (cl_connections c) \<and> k \<notin> set (cl_endpoints c)"
    using assms unfolding master_move_def by blast
  then show ?thesis using mn_step_endpoints [OF master_moveD(1) [OF assms]]
    by (intro exI [of _ ks] exI [of _ "if runs_task (cl_master c) ev T_AddSecondary then [mn_secondaryIdCounter (cl_master c)] else []"])
      simp
qed

lemma move_serves: "master_move c s ev out c' s' \<Longrightarrow> serves c i k \<Longrightarrow> serves c' i k"
  using move_endpoints [of c s ev out c' s'] unfolding serves_def
  by (metis nth_append length_append trans_less_add1)

lemma move_query: "master_move c s ev out c' s' \<Longrightarrow> query_at c gap e p \<Longrightarrow> query_at c' gap e p"
  using move_endpoints [of c s ev out c' s'] master_moveD(5) [of c s ev out c' s'] unfolding query_at_def
  by (metis nth_append length_append trans_less_add1)

lemma move_links:
  assumes i: "cl_links t c s" and mv: "master_move c s ev out c' s'"
  shows "cl_links t c' s'"
proof -
  have sub: "set (sys_sent s) \<subseteq> set (sys_sent s')" "set (sys_answers s) \<subseteq> set (sys_answers s')"
    using mv by (simp_all add: master_move_def)
  have "link_facts (call_known s') (answer_known s' n) ln" if f: "link_facts (call_known s) (answer_known s n) ln" for n ln
    by (rule link_facts_mono [OF f]) (use sub call_known_mono answer_known_mono in blast)+
  then show ?thesis using i unfolding cl_links_def master_moveD(3-6) [OF mv] by blast
qed

lemma move_registered:
  assumes "cl_registered c" and mv: "master_move c s ev out c' s'"
  shows "cl_registered c'"
proof -
  obtain ks js where ks: "cl_endpoints c' = cl_endpoints c @ ks" "mn_endpoints (cl_master c') = mn_endpoints (cl_master c) @ js"
    "length ks = length js" "\<forall>k \<in> set ks. k < length (cl_connections c) \<and> k \<notin> set (cl_endpoints c)" "length ks \<le> 1"
    using move_endpoints [OF mv] by blast
  have "distinct ks" using ks(5) by (cases ks) auto
  then show ?thesis using assms(1) ks unfolding cl_registered_def master_moveD(4) [OF mv] by auto
qed

lemma move_queries:
  assumes "cl_queries c" and mv: "master_move c s ev out c' s'"
  shows "cl_queries c'"
  unfolding cl_queries_def
proof (intro allI impI)
  fix gap e p
  assume "T_GetMessages gap (e, p) \<in> set (mn_posted (cl_master c'))"
  from mn_step_tasks [OF master_moveD(1) [OF mv] this] have "query_at c gap e p"
    using assms(1) mv by (auto simp: cl_queries_def master_move_def)
  then show "query_at c' gap e p" by (rule move_query [OF mv])
qed

lemma move_calls:
  assumes old: "cl_calls c []" and reg: "registry_ok (cl_master c)" and mv: "master_move c s ev out c' s'"
  shows "cl_calls c' out"
  unfolding cl_calls_def
proof (intro conjI allI)
  show "length (cl_futures c') = length (mn_requests (cl_master c'))" using mv by (simp add: master_move_def)
  fix q
  have f: "map fst (futures_of c' q) = answered_calls ev q (map fst (futures_of c q))" "set (futures_of c' q) \<subseteq> set (futures_of c q)"
    using mv by (simp_all add: master_move_def)
  have "request_sent (cl_master c') q = answered_calls ev q (request_sent (cl_master c) q) @ mn_calls q out"
    using mn_step_calls [OF reg master_moveD(1) [OF mv]] unfolding mn_step_calls_ok_def by blast
  then show "request_sent (cl_master c') q = map fst (futures_of c' q) @ mn_calls q out"
    using old f(1) by (simp add: cl_calls_def)
  show "\<forall>(i, k, x) \<in> set (futures_of c' q). serves c' i k \<and> k < length (cl_connections c') \<and>
      call_means (link_of c' k) True x (request_message c' q)"
  proof
    fix ikx
    assume "ikx \<in> set (futures_of c' q)"
    then have x: "ikx \<in> set (futures_of c q)" using f(2) by blast
    obtain i k x where ikx: "ikx = (i, k, x)" by (cases ikx)
    have *: "serves c i k" "k < length (cl_connections c)" "call_means (link_of c k) True x (request_message c q)"
      using old x ikx unfolding cl_calls_def by fast+
    have "q < length (mn_requests (cl_master c))"
      using old x by (auto simp: futures_of_def cl_calls_def split: if_splits)
    then have "request_message c' q = request_message c q"
      using move_requests(2) [OF mv] by (simp add: request_message_def ar_const_def Let_def)
    then show "case ikx of (i, k, x) \<Rightarrow> serves c' i k \<and> k < length (cl_connections c') \<and>
        call_means (link_of c' k) True x (request_message c' q)"
      using * ikx move_serves [OF mv] master_moveD(4,5) [OF mv] by simp
  qed
qed

lemma move_oks:
  assumes old: "cl_oks c" and reg: "registry_ok (cl_master c)" and mv: "master_move c s ev out c' s'"
  shows "cl_oks c'"
  unfolding cl_oks_def
proof (intro allI ballI)
  fix q i
  assume i: "i \<in> set (request_oks (cl_master c') q)"
  let ?m = "cl_master c"
  have "request_oks (cl_master c') q = request_oks ?m q @ answer_oks ev q (request_sent ?m q)"
    using mn_step_calls [OF reg master_moveD(1) [OF mv]] unfolding mn_step_calls_ok_def by blast
  then consider "i \<in> set (request_oks ?m q)" | "i \<in> set (answer_oks ev q (request_sent ?m q))" using i by auto
  then have "(\<exists>k < length (cl_connections c). serves c i k \<and>
      has_message (peer_node c k) (ar_messageId (run_request (mn_requests ?m ! q)))) \<and> q < length (mn_requests ?m)"
  proof cases
    case 1
    then show ?thesis using old by (auto simp: cl_oks_def request_oks_def split: if_splits)
  next
    case 2
    then obtain n where n: "ev = MN_Answer q n (Some OK)" "n < length (request_sent ?m q)" "i = request_sent ?m q ! n"
      by (cases "(ev, q, request_sent ?m q)" rule: answer_oks.cases) (auto split: if_splits)
    moreover have "q < length (mn_requests ?m)" using n(2) by (auto simp: request_sent_def split: if_splits)
    ultimately show ?thesis using mv unfolding master_move_def by blast
  qed
  moreover have "ar_messageId (run_request (mn_requests (cl_master c') ! q)) = ar_messageId (run_request (mn_requests ?m ! q))"
    if "q < length (mn_requests ?m)" using move_requests(2) [OF mv that] by (simp add: ar_const_def)
  ultimately show "\<exists>k < length (cl_connections c'). serves c' i k \<and>
      has_message (peer_node c' k) (ar_messageId (run_request (mn_requests (cl_master c') ! q)))"
    using move_serves [OF mv] master_moveD(4,6) [OF mv] by metis
qed

lemma move_owes:
  assumes i: "cl_queries c" and reg: "registry_ok (cl_master c)" and mv: "master_move c s ev out c' s'" and x: "x \<in> set out"
  shows "master_owes c' s' x"
proof (cases "(c', s', x)" rule: master_owes.cases)
  case (1 c1 s1 e p a)
  have "\<exists>gap known. query_at c' gap e p \<and> (gap, xs, known) \<in> set (sys_answers s')" if a: "a = A_GetMessages xs" for xs
  proof -
    have "MN_SetPromise (e, p) (A_GetMessages xs) \<in> set out" using x 1 a by simp
    from mn_step_answers [OF master_moveD(1) [OF mv] this] obtain gap where
      g: "T_GetMessages gap (e, p) \<in> set (mn_posted (cl_master c))"
      "(gap, xs, length (mn_requests (cl_master c))) \<in> set (answers_of (cl_master c) ev out)" by blast
    then have "query_at c gap e p" using i by (simp add: cl_queries_def)
    moreover have "(gap, xs, length (mn_requests (cl_master c))) \<in> set (sys_answers s')"
      using mv g(2) by (simp add: master_move_def)
    ultimately show ?thesis using move_query [OF mv] by blast
  qed
  then show ?thesis using 1 by simp
next
  case (2 c1 s1 q e i k msg)
  have "request_call (cl_master c') e i k msg q"
    using mn_step_calls [OF reg master_moveD(1) [OF mv]] 2 x unfolding mn_step_calls_ok_def by blast
  moreover have "(k, msg) \<in> set (sys_sent s')"
    using mn_step_sends [of q e i k msg out] x 2 mv by (simp add: master_move_def)
  ultimately show ?thesis using 2 by simp
qed simp_all

lemma cl_inv_move:
  assumes i: "cl_inv t c s [] j []" and mv: "master_move c s ev out c' s'"
  shows "cl_inv t c' s' out j [] \<and> (\<forall>x \<in> set out. master_owes c' s' x)"
proof -
  note reg = cl_inv_master [OF i, THEN conjunct2] and D = master_moveD [OF mv]
  have "cl_matches c' s'" using i mv by (simp add: cl_inv_def cl_matches_def master_move_def)
  moreover have "member_ok c' a so = member_ok c a so" for a so by (simp add: member_ok_def D(3-5))
  ultimately show ?thesis
    using i move_links [OF _ mv] move_registered [OF _ mv] move_queries [OF _ mv] move_calls [OF _ reg mv]
      move_oks [OF _ reg mv] move_owes [OF _ reg mv] unfolding cl_inv_def D(3) by auto
qed


text \<open>What the cluster prepares before the master takes its event.\<close>

definition master_ready :: "Cluster \<Rightarrow> mn_event \<Rightarrow> Cluster \<Rightarrow> bool" where
  "master_ready c ev c0 \<longleftrightarrow>
     cl_master c0 = cl_master c \<and> cl_members c0 = cl_members c \<and> cl_connections c0 = cl_connections c \<and>
     (\<exists>ks. cl_endpoints c0 = cl_endpoints c @ ks \<and>
        length ks = (if runs_task (cl_master c) ev T_AddSecondary then 1 else 0) \<and>
        (\<forall>k \<in> set ks. k < length (cl_connections c) \<and> k \<notin> set (cl_endpoints c))) \<and>
     length (cl_futures c0) = length (mn_requests (cl_master c)) + messages_of ev \<and>
     (\<forall>q. map fst (futures_of c0 q) = answered_calls ev q (map fst (futures_of c q)) \<and>
        set (futures_of c0 q) \<subseteq> set (futures_of c q)) \<and>
     (\<forall>e gap p. ev = MN_Signal e (Sig_Incoming (Incoming_getMessages gap p)) \<longrightarrow>
        e < length (mn_endpoints (cl_master c)) \<longrightarrow> query_at c gap e p) \<and>
     (\<forall>q n. ev = MN_Answer q n (Some OK) \<longrightarrow> n < length (request_sent (cl_master c) q) \<longrightarrow>
        (\<exists>k < length (cl_connections c). serves c (request_sent (cl_master c) q ! n) k \<and>
           has_message (peer_node c k) (ar_messageId (run_request (mn_requests (cl_master c) ! q)))))"

text \<open>What every step keeps of the connections.\<close>

definition cl_keeps :: "Cluster \<Rightarrow> Cluster \<Rightarrow> bool" where
  "cl_keeps c c' \<longleftrightarrow>
     length (cl_members c') = length (cl_members c) \<and> length (cl_connections c) \<le> length (cl_connections c') \<and>
     (\<forall>k < length (cl_connections c).
        co_secondary (cl_connections c' ! k) = co_secondary (cl_connections c ! k) \<and>
        link_leads (link_of c k) (link_of c' k))"

lemma cl_keeps_refl [simp]: "cl_keeps c c"
  by (simp add: cl_keeps_def)

lemma cl_keeps_trans: "cl_keeps a b \<Longrightarrow> cl_keeps b c \<Longrightarrow> cl_keeps a c"
  unfolding cl_keeps_def using link_leads_trans by (metis le_trans order_less_le_trans)

lemma cl_leads_keeps: "cl_leads c c' \<Longrightarrow> cl_keeps c c'"
  by (simp add: cl_keeps_def cl_leads_lengths) (simp add: cl_leads_def)

lemma cl_inv_master_event:
  assumes i: "cl_inv t c s [] j []" and t: "t \<le> 2 ^ 64" and w: "mn_within (cl_master c) (ev # rest)"
    and ready: "master_ready c ev c0" and out: "master_event alloc draw ev c0 = Some c'"
  shows "\<exists>s'. sys_step s (Sys_Master ev) = Some s' \<and> cl_inv t c' s' [] j [] \<and> mn_within (cl_master c') rest \<and>
     cl_keeps c c' \<and> map mb_node (cl_members c') = map mb_node (cl_members c)"
proof -
  have m0: "cl_master c0 = cl_master c" using ready by (simp add: master_ready_def)
  obtain m' o' where st: "mn_step (cl_master c) ev = Some (Inr (m', o'))"
    and perf: "perform_all (master_output alloc draw) o' (c0\<lparr>cl_master := m'\<rparr>) = Some c'"
    using out m0 by (auto simp: master_event_def split: option.splits sum.splits)
  have mt: "cl_matches c s" using i by (simp add: cl_inv_def)
  then have sm: "sys_ok s" "sys_master s = cl_master c" by (simp_all add: cl_matches_def)
  from master_sys_step [OF sm(1) w [folded sm(2)] st [folded sm(2)]] obtain s' where
    s': "sys_step s (Sys_Master ev) = Some s'" "sys_ok s'" "sys_master s' = m'" "mn_within m' rest"
      "sys_secondaries s' = sys_secondaries s" "sys_answers s' = sys_answers s @ answers_of (cl_master c) ev o'"
      "sys_sent s' = sys_sent s @ concat (map sent_of o')" unfolding sm(2) by blast
  have "mn_adds (cl_master c) < 2 ^ 31" "Suc (length (mn_requests (cl_master c))) < 2 ^ 64"
    using w by (simp_all add: mn_within_def)
  then have good: "mn_step_good (cl_master c) ev (Some (Inr (m', o')))"
    using mn_step_ok [of "cl_master c" ev] cl_inv_master [OF i] st by simp
  then have len: "length (mn_requests m') = length (mn_requests (cl_master c)) + messages_of ev"
    by (simp add: mn_step_good_def)
  let ?c = "c0\<lparr>cl_master := m'\<rparr>"
  have "futures_of ?c q = futures_of c0 q" for q by (simp add: futures_of_def)
  then have "master_move c s ev o' ?c s'"
    unfolding master_move_def using st good s' ready len by (simp add: master_ready_def)
  from cl_inv_move [OF i this] have mv: "cl_inv t ?c s' o' j []" "\<forall>x \<in> set o'. master_owes ?c s' x" by blast+
  from cl_inv_master_outputs [OF mv(1) t perf mv(2)] have
    fin: "cl_inv t c' s' [] j []" "cl_leads ?c c'" by blast+
  have k: "cl_keeps ?c c'" using cl_leads_keeps [OF fin(2)] .
  have same: "cl_members ?c = cl_members c" "cl_connections ?c = cl_connections c" "\<And>k. link_of ?c k = link_of c k"
    using ready by (simp_all add: master_ready_def link_of_def)
  have "cl_keeps c c'" using k unfolding cl_keeps_def same .
  moreover have "cl_master c' = m'" "map mb_node (cl_members c') = map mb_node (cl_members c)"
    using fin(2) same by (simp_all add: cl_leads_def)
  ultimately show ?thesis using s'(1,4) fin(1) by blast
qed

text \<open>Most events need no preparation.\<close>

lemma master_ready_plain:
  assumes i: "cl_inv t c s [] j []" and ev: "messages_of ev = 0" "\<And>p ids. answered_calls ev p ids = ids"
    "\<not> runs_task (cl_master c) ev T_AddSecondary" "\<And>q n. ev \<noteq> MN_Answer q n (Some OK)"
    "\<And>e gap p. ev = MN_Signal e (Sig_Incoming (Incoming_getMessages gap p)) \<Longrightarrow> query_at c gap e p"
  shows "master_ready c ev c"
proof -
  have "cl_calls c []" using i by (simp add: cl_inv_def)
  then show ?thesis using ev by (simp add: master_ready_def cl_calls_def)
qed


section \<open>A step of a secondary\<close>

definition node_waiting :: "SecondaryNodeS \<Rightarrow> continuation list" where
  "node_waiting n = (case sns_session n of None \<Rightarrow> [] | Some s \<Rightarrow> mss_waiting s)"

text \<open>The calls that wait for an answer before the new ones are made.\<close>

fun waiting_left :: "sn_event \<Rightarrow> SecondaryNodeS \<Rightarrow> continuation list" where
  "waiting_left (SN_Connected ec) n = (if sns_connects n = 0 \<or> ec then node_waiting n else [])"
| "waiting_left (SN_SessionEvent (MS_Response k v)) n =
     (if k < length (node_waiting n) then take_nth k (node_waiting n) else node_waiting n)"
| "waiting_left _ n = node_waiting n"

definition sn_calls_ok :: "continuation list \<Rightarrow> (nat \<Rightarrow> SecondaryNodeS \<Rightarrow> bool) \<Rightarrow> SecondaryNodeS \<Rightarrow> sn_out list \<Rightarrow> bool" where
  "sn_calls_ok old P n' out \<longleftrightarrow>
     (\<forall>s'. sns_session n' = Some s' \<longrightarrow> mss_waiting s' = old @ concat (map session_calls out)) \<and>
     (\<forall>p a. SN_Session (MS_SetPromise p a) \<in> set out \<longrightarrow> P p n')"

lemmas session_eval =
  sn_session_result_def onSessionInvalidated_def reconnectToMaster_def disconnectMasterSession_def
  onSessionOperational_def sn_calls_ok_def

lemma askForMessages_calls:
  assumes "sn_session_result (askForMessages storage s) n = Some (n', out)"
  shows "sn_calls_ok (mss_waiting s) P n' out"
  using assms by (auto simp: askForMessages_def session_eval split: option.splits)

lemma MasterSession_run_calls:
  assumes "sn_session_result (MasterSession_run storage s) n = Some (n', out)"
  shows "sn_calls_ok (mss_waiting s) P n' out"
  using assms by (auto simp: MasterSession_run_def askForMessages_def session_eval split: option.splits)

lemma ms_response_calls:
  assumes st: "sn_session_result (ms_step (MS_Response k v) storage s) n = Some (n', out)"
  shows "sn_calls_ok (if k < length (mss_waiting s) then take_nth k (mss_waiting s) else mss_waiting s) P n' out"
proof (cases "k < length (mss_waiting s)")
  case True
  let ?s = "s\<lparr>mss_waiting := take_nth k (mss_waiting s)\<rparr>"
  show ?thesis
  proof (cases "mss_waiting s ! k")
    case (Cont_Messages gap)
    then have r: "sn_session_result (onMessages gap v storage ?s) n = Some (n', out)"
      using st True by (simp add: take_nth_def Let_def)
    show ?thesis
    proof (cases "\<exists>xs. v = Got_GetMessages xs")
      case got: True
      then show ?thesis using r True
        by (auto simp: onMessages_def notifyOperational_def session_eval)
    next
      case False
      then have "sn_session_result (askForMessages storage ?s) n = Some (n', out)"
        using r by (cases v) (simp_all add: onMessages_def)
      from askForMessages_calls [OF this] show ?thesis using True by simp
    qed
  next
    case Cont_Ready
    then have "sn_session_result (onReadyAck v storage ?s) n = Some (n', out)"
      using st True by (simp add: take_nth_def Let_def)
    then show ?thesis using True
      by (cases v) (auto simp: onReadyAck_def notifyOperational_def session_eval)
  qed
next
  case False
  then show ?thesis using st by (auto simp: session_eval)
qed

lemma ms_incoming_calls:
  assumes st: "sn_session_result (ms_step (MS_Incoming req now) storage s) n = Some (n', out)"
  shows "sn_calls_ok (mss_waiting s)
    (\<lambda>p n'. promise_of req = p \<and> (\<forall>i msg q. req = Incoming_addMessage i msg q \<longrightarrow> has_message n' i)) n' out"
  using st
  by (cases req) (auto simp: onIncomingAddMessage_def onIncomingPing_def session_eval has_message_def ss_addMessage_lookup)

lemma sn_step_calls:
  assumes st: "sn_step n ev = Some (n', out)"
  shows "sn_calls_ok (waiting_left ev n)
    (\<lambda>p n'. \<exists>req now. ev = SN_SessionEvent (MS_Incoming req now) \<and> promise_of req = p \<and>
       (\<forall>i msg q. req = Incoming_addMessage i msg q \<longrightarrow> has_message n' i)) n' out"
proof (cases ev)
  case (SN_Connected ec)
  show ?thesis
  proof (cases "sns_connects n = 0 \<or> ec")
    case True
    then show ?thesis using st SN_Connected
      by (auto simp: onConnected_def sn_calls_ok_def node_waiting_def split: if_splits)
  next
    case False
    let ?n = "disconnectMasterSession (n\<lparr>sns_connects := sns_connects n - 1\<rparr>)"
    let ?s = "MasterSession_create (sns_friendlyName ?n)"
    have "sn_session_result (MasterSession_run (sns_storage ?n) ?s) (?n\<lparr>sns_session := Some ?s\<rparr>) = Some (n', out)"
      using st SN_Connected False by (simp add: onConnected_def runMasterSession_def Let_def)
    from MasterSession_run_calls [OF this] show ?thesis using False SN_Connected by (simp add: MasterSession_create_def)
  qed
next
  case SN_TimerOver
  then show ?thesis using st by (auto simp: reconnectToMaster_def sn_calls_ok_def node_waiting_def split: if_splits)
next
  case (SN_SessionEvent sev)
  show ?thesis
  proof (cases "sns_session n")
    case None
    then show ?thesis using st SN_SessionEvent by (simp add: sn_calls_ok_def)
  next
    case (Some s)
    then have r: "sn_session_result (ms_step sev (sns_storage n) s) n = Some (n', out)" using st SN_SessionEvent by simp
    have w: "node_waiting n = mss_waiting s" using Some by (simp add: node_waiting_def)
    show ?thesis
    proof (cases sev)
      case (MS_Response k v)
      then have "waiting_left ev n = (if k < length (mss_waiting s) then take_nth k (mss_waiting s) else mss_waiting s)"
        using w SN_SessionEvent by simp
      then show ?thesis using ms_response_calls [OF r [unfolded MS_Response]] by (simp only:)
    next
      case MS_Invalidated
      then show ?thesis using r by (auto simp: onEndpointInvalidated_def session_eval)
    next
      case (MS_Incoming req now)
      then show ?thesis using ms_incoming_calls [of req now "sns_storage n" s n n' out] r w SN_SessionEvent
        by (simp add: sn_calls_ok_def)
    qed
  qed
qed


text \<open>The member before and after it takes an event, and what its session then refers to.\<close>

definition session_calls_ok :: "Cluster \<Rightarrow> nat \<Rightarrow> Member \<Rightarrow> continuation list \<Rightarrow> bool" where
  "session_calls_ok c j mb conts \<longleftrightarrow>
     (\<exists>k < length (cl_connections c). mb_connection mb = Some k \<and> co_secondary (cl_connections c ! k) = j \<and>
        map fst (mb_futures mb) = conts \<and>
        (\<forall>(cont, x) \<in> set (mb_futures mb). \<exists>name. call_means (link_of c k) False x (cont_signal cont name)))"

definition request_heard :: "Cluster \<Rightarrow> nat \<Rightarrow> nat option \<Rightarrow> incoming_request \<Rightarrow> bool" where
  "request_heard c j kk req \<longleftrightarrow>
     (\<forall>k. kk = Some k \<longrightarrow>
        k < length (cl_connections c) \<and> co_secondary (cl_connections c ! k) = j \<and>
        promise_of req < length (ln_signals (link_of c k) False) \<and> ln_signals (link_of c k) False ! promise_of req = req)"

definition member_move ::
    "Cluster \<Rightarrow> System \<Rightarrow> nat \<Rightarrow> sn_event \<Rightarrow> Member \<Rightarrow> SecondaryNodeS \<Rightarrow> sn_out list \<Rightarrow> System \<Rightarrow> bool" where
  "member_move c s j ev mb n out s' \<longleftrightarrow>
     j < length (cl_members c) \<and> sn_step (mb_node (cl_members c ! j)) ev = Some (n, out) \<and>
     (sns_session n \<noteq> None \<longrightarrow> session_calls_ok c j mb (waiting_left ev (mb_node (cl_members c ! j)))) \<and>
     (\<forall>req now. ev = SN_SessionEvent (MS_Incoming req now) \<longrightarrow> request_heard c j (mb_connection mb) req) \<and>
     sys_ok s' \<and> sys_master s' = sys_master s \<and> sys_sent s' = sys_sent s \<and> sys_answers s' = sys_answers s \<and>
     map sec_node (sys_secondaries s') = (map sec_node (sys_secondaries s))[j := n]"

definition member_after :: "Member \<Rightarrow> SecondaryNodeS \<Rightarrow> Member" where
  "member_after mb n =
     (if sns_session n = None then \<lparr>mb_node = n, mb_connection = None, mb_futures = []\<rparr> else mb\<lparr>mb_node := n\<rparr>)"

lemma member_after_node [simp]: "mb_node (member_after mb n) = n"
  by (simp add: member_after_def)

lemma member_matches:
  assumes "cl_matches c s" "j < length (cl_members c)"
  shows "j < length (sys_secondaries s)" "sec_node (sys_secondaries s ! j) = mb_node (cl_members c ! j)"
proof -
  show l: "j < length (sys_secondaries s)" using assms unfolding cl_matches_def by (metis length_map)
  show "sec_node (sys_secondaries s ! j) = mb_node (cl_members c ! j)"
    using assms l unfolding cl_matches_def by (metis nth_map)
qed

lemma member_part:
  assumes i: "cl_inv t c s mo a so" and j: "j < length (cl_members c)"
  shows "sn_ok (mb_node (cl_members c ! j))"
    "ss_messages (sns_storage (mb_node (cl_members c ! j))) \<subseteq>\<^sub>m ms_messages (mn_storage (cl_master c))"
    "length (mn_requests (cl_master c)) < 2 ^ 64 \<Longrightarrow> card (dom (ss_messages (sns_storage (mb_node (cl_members c ! j))))) < 2 ^ 64"
proof -
  have mt: "cl_matches c s" using i by (simp add: cl_inv_def)
  note M = member_matches [OF mt j]
  have "sys_secondaries s ! j \<in> set (sys_secondaries s)" using M(1) by simp
  then have "sec_ok (sys_master s) (sys_secondaries s ! j)" using mt unfolding cl_matches_def sys_ok_def by blast
  then show "sn_ok (mb_node (cl_members c ! j))" and
    part: "ss_messages (sns_storage (mb_node (cl_members c ! j))) \<subseteq>\<^sub>m ms_messages (mn_storage (cl_master c))"
    using mt M(2) by (simp_all add: sec_ok_def cl_matches_def)
  show "card (dom (ss_messages (sns_storage (mb_node (cl_members c ! j))))) < 2 ^ 64"
    if "length (mn_requests (cl_master c)) < 2 ^ 64"
    using part_card [OF _ that part] cl_inv_master [OF i] by blast
qed

lemma member_steps:
  assumes "cl_inv t c s mo a so" "length (mn_requests (cl_master c)) < 2 ^ 64" "j < length (cl_members c)"
  shows "\<exists>n out. sn_step (mb_node (cl_members c ! j)) ev = Some (n, out) \<and>
    ss_messages (sns_storage (mb_node (cl_members c ! j))) \<subseteq>\<^sub>m ss_messages (sns_storage n)"
  using sn_step_ok [OF member_part(1) [OF assms(1,3)] member_part(3) [OF assms(1,3,2)], of ev]
  by (auto simp: sn_step_good_def)

lemma move_messages:
  assumes i: "cl_inv t c s mo a so" and l: "length (mn_requests (cl_master c)) < 2 ^ 64" and mv: "member_move c s j ev mb n out s'"
    and h: "has_message (mb_node (cl_members c ! j)) m"
  shows "has_message n m"
proof -
  have "j < length (cl_members c)" "sn_step (mb_node (cl_members c ! j)) ev = Some (n, out)"
    using mv by (simp_all add: member_move_def)
  then have "ss_messages (sns_storage (mb_node (cl_members c ! j))) \<subseteq>\<^sub>m ss_messages (sns_storage n)"
    using member_steps [OF i l, of j ev] by auto
  then show ?thesis using h unfolding has_message_def map_le_def by (metis domIff)
qed

lemma cl_inv_member_move:
  assumes i: "cl_inv t c s [] a []" and l: "length (mn_requests (cl_master c)) < 2 ^ 64" and mv: "member_move c s j ev mb n out s'"
  shows "cl_inv t (c\<lparr>cl_members := (cl_members c)[j := member_after mb n]\<rparr>) s' [] j out"
proof -
  let ?M = "(cl_members c)[j := member_after mb n]"
  let ?c = "c\<lparr>cl_members := ?M\<rparr>"
  note mv' = mv [unfolded member_move_def]
  have j: "j < length (cl_members c)" using mv' by blast
  have lk: "link_of ?c k = link_of c k" for k by (simp add: link_of_def)
  have node: "mb_node (?M ! b) = (if b = j then n else mb_node (cl_members c ! b))" if "b < length (cl_members c)" for b
    using that j by (simp add: nth_list_update)
  have mono: "has_message (mb_node (?M ! b)) m" if "has_message (mb_node (cl_members c ! b)) m" "b < length (cl_members c)" for b m
    using node [OF that(2)] move_messages [OF i l mv] that(1) by (cases "b = j") simp_all
  have links: "cl_links t c s" using i by (simp add: cl_inv_def)
  then have sec: "co_secondary (cl_connections c ! k) < length (cl_members c)" if "k < length (cl_connections c)" for k
    using that by (simp add: cl_links_def)
  have known: "call_known s' r = call_known s r" for r using mv' by (cases r) simp_all
  have "cl_links t ?c s'"
    unfolding cl_links_def lk
  proof (intro allI impI conjI)
    fix k b
    assume k: "k < length (cl_connections ?c)"
    then have k': "k < length (cl_connections c)" by simp
    show "co_secondary (cl_connections ?c ! k) < length (cl_members ?c)" using sec [OF k'] by simp
    show "length (ln_sent (link_of c k) b) \<le> t" using links k' by (simp add: cl_links_def)
    let ?b = "co_secondary (cl_connections c ! k)"
    have f: "link_facts (call_known s) (answer_known s (mb_node (cl_members c ! ?b))) (link_of c k)"
      using links k' by (simp add: cl_links_def)
    have sub: "set (sys_answers s) \<subseteq> set (sys_answers s')" using mv' by simp
    have "answer_known s' (mb_node (?M ! ?b)) d r y" if "answer_known s (mb_node (cl_members c ! ?b)) d r y" for d r y
      by (rule answer_known_mono [OF that sub]) (rule mono [OF _ sec [OF k']])
    then have "link_facts (call_known s') (answer_known s' (mb_node (?M ! ?b))) (link_of c k)"
      by (intro link_facts_mono [OF f]) (simp_all add: known)
    then show "link_facts (call_known s') (answer_known s' (mb_node (cl_members ?c ! co_secondary (cl_connections ?c ! k)))) (link_of c k)"
      by simp
  qed
  moreover have "cl_matches ?c s'"
    using i mv' unfolding cl_inv_def cl_matches_def by (simp add: map_update)
  moreover have "cl_registered ?c" using i by (simp add: cl_inv_def cl_registered_def)
  moreover have "cl_queries ?c"
  proof -
    have "query_at ?c gap e p = query_at c gap e p" for gap e p by (simp add: query_at_def lk)
    then show ?thesis using i by (simp add: cl_inv_def cl_queries_def)
  qed
  moreover have "cl_calls ?c []"
    using i by (simp add: cl_inv_def cl_calls_def lk futures_of_def serves_def request_message_def)
  moreover have "cl_oks ?c"
  proof -
    have "has_message (peer_node ?c k) m" if "has_message (peer_node c k) m" "k < length (cl_connections c)" for k m
      using mono [of "co_secondary (cl_connections c ! k)" m] that sec [OF that(2)] by (simp add: peer_node_def)
    then have "\<exists>k < length (cl_connections c). serves c x k \<and> has_message (peer_node ?c k) m"
      if "\<exists>k < length (cl_connections c). serves c x k \<and> has_message (peer_node c k) m" for x m using that by blast
    then show ?thesis using i unfolding cl_inv_def cl_oks_def serves_def by simp
  qed
  moreover have "member_ok ?c b (if b = j then out else [])" if b: "b < length (cl_members c)" for b
  proof (cases "b = j")
    case False
    have "member_ok c b []" using i b unfolding cl_inv_def by metis
    then show ?thesis using False by (simp add: member_ok_def lk)
  next
    case True
    have "sn_calls_ok (waiting_left ev (mb_node (cl_members c ! j))) (\<lambda>p n'. \<exists>req now. ev = SN_SessionEvent (MS_Incoming req now) \<and>
        promise_of req = p \<and> (\<forall>i msg q. req = Incoming_addMessage i msg q \<longrightarrow> has_message n' i)) n out"
      using sn_step_calls mv' by blast
    then have calls: "mss_waiting session = waiting_left ev (mb_node (cl_members c ! j)) @ concat (map session_calls out)"
      if "sns_session n = Some session" for session using that by (simp add: sn_calls_ok_def)
    have "member_ok ?c j out"
      unfolding member_ok_def
    proof (intro allI impI)
      fix session
      assume "sns_session (mb_node (cl_members ?c ! j)) = Some session"
      then have ses: "sns_session n = Some session" using j by simp
      then have mb: "cl_members ?c ! j = mb\<lparr>mb_node := n\<rparr>" using j by (simp add: member_after_def)
      have "session_calls_ok c j mb (waiting_left ev (mb_node (cl_members c ! j)))" using mv' ses by blast
      then obtain k where k: "k < length (cl_connections c)" "mb_connection mb = Some k" "co_secondary (cl_connections c ! k) = j"
        "map fst (mb_futures mb) = waiting_left ev (mb_node (cl_members c ! j))"
        "\<forall>(cont, x) \<in> set (mb_futures mb). \<exists>name. call_means (link_of c k) False x (cont_signal cont name)"
        unfolding session_calls_ok_def by blast
      show "\<exists>k < length (cl_connections ?c). mb_connection (cl_members ?c ! j) = Some k \<and> co_secondary (cl_connections ?c ! k) = j \<and>
          mss_waiting session = map fst (mb_futures (cl_members ?c ! j)) @ concat (map session_calls out) \<and>
          (\<forall>(cont, x) \<in> set (mb_futures (cl_members ?c ! j)). \<exists>name. call_means (link_of ?c k) False x (cont_signal cont name))"
        unfolding mb lk using k calls [OF ses] by auto
    qed
    then show ?thesis using True by simp
  qed
  ultimately show ?thesis by (simp add: cl_inv_def)
qed

lemma move_session_owes:
  assumes mv: "member_move c s j ev mb n out s'" and x: "x \<in> set out"
  shows "session_owes (c\<lparr>cl_members := (cl_members c)[j := member_after mb n]\<rparr>) (mb_connection mb) x"
proof -
  let ?c = "c\<lparr>cl_members := (cl_members c)[j := member_after mb n]\<rparr>"
  note mv' = mv [unfolded member_move_def]
  show ?thesis
  proof (cases "(?c, mb_connection mb, x)" rule: session_owes.cases)
    case (1 c1 k p a)
    obtain req now where r: "ev = SN_SessionEvent (MS_Incoming req now)" "promise_of req = p"
      "\<forall>i msg q. req = Incoming_addMessage i msg q \<longrightarrow> has_message n i"
      using sn_step_calls [of "mb_node (cl_members c ! j)" ev n out] mv' x 1 unfolding sn_calls_ok_def by blast
    have k: "mb_connection mb = Some k" using 1 by simp
    have "request_heard c j (Some k) req" using mv' r(1) k by metis
    then have "k < length (cl_connections c)" "co_secondary (cl_connections c ! k) = j"
      "p < length (ln_signals (link_of c k) False)" "ln_signals (link_of c k) False ! p = req"
      using r(2) by (auto simp: request_heard_def)
    then have "session_owes ?c (Some k) (SN_Session (MS_SetPromise p a))"
      using r(3) mv' by (simp add: link_of_def peer_node_def)
    moreover have "session_owes ?c (mb_connection mb) x = session_owes ?c (Some k) (SN_Session (MS_SetPromise p a))"
      using 1 by (simp only: prod.inject)
    ultimately show ?thesis by blast
  qed simp_all
qed


subsection \<open>The event of the system behind it\<close>

definition sys_takes :: "System \<Rightarrow> nat \<Rightarrow> SecondaryNodeS \<Rightarrow> bool" where
  "sys_takes s j n \<longleftrightarrow>
     (\<exists>ev s'. sys_step s ev = Some s' \<and> sys_ok s' \<and> sys_master s' = sys_master s \<and>
        sys_sent s' = sys_sent s \<and> sys_answers s' = sys_answers s \<and>
        map sec_node (sys_secondaries s') = (map sec_node (sys_secondaries s))[j := n])"

lemma sys_secondary_takes:
  assumes "sys_secondary j ev synced s = Some s'" "sn_step (sec_node (sys_secondaries s ! j)) ev = Some (n, out)"
    "j < length (sys_secondaries s)"
  shows "sys_master s' = sys_master s \<and> sys_sent s' = sys_sent s \<and> sys_answers s' = sys_answers s \<and>
     map sec_node (sys_secondaries s') = (map sec_node (sys_secondaries s))[j := n]"
  using assms by (auto simp: sys_secondary_def Let_def map_update)

lemma sys_takesI:
  assumes "sys_secondary j ev synced s = Some s'" "sn_step (sec_node (sys_secondaries s ! j)) ev = Some (n, out)"
    "j < length (sys_secondaries s)" "sys_ok s'" "sys_step s sev = sys_secondary j ev synced s"
  shows "sys_takes s j n"
proof -
  from sys_secondary_takes [OF assms(1-3)] have "sys_master s' = sys_master s \<and> sys_sent s' = sys_sent s \<and>
      sys_answers s' = sys_answers s \<and> map sec_node (sys_secondaries s') = (map sec_node (sys_secondaries s))[j := n]" .
  moreover have "sys_step s sev = Some s'" using assms(1,5) by simp
  ultimately show ?thesis using assms(4) unfolding sys_takes_def by blast
qed

lemma sys_takes_quiet:
  assumes ok: "sys_ok s" and l: "length (mn_requests (sys_master s)) < 2 ^ 64" and j: "j < length (sys_secondaries s)"
    and st: "sn_step (sec_node (sys_secondaries s ! j)) ev = Some (n, out)" and q: "quiet ev"
  shows "sys_takes s j n"
proof -
  obtain s' where "sys_secondary j ev None s = Some s'" "sys_ok s'" using sys_quiet_ok [OF ok l j q] by blast
  then show ?thesis by (rule sys_takesI [OF _ st j, of None s' "Sys_Secondary j ev"]) (use j q in \<open>simp_all add: sys_step_def\<close>)
qed

lemma sys_takes_deliver:
  assumes ok: "sys_ok s" and l: "length (mn_requests (sys_master s)) < 2 ^ 64" and j: "j < length (sys_secondaries s)"
    and st: "sn_step (sec_node (sys_secondaries s ! j)) (SN_SessionEvent (MS_Incoming (Incoming_addMessage i msg p) now)) = Some (n, out)"
    and x: "(i, msg) \<in> set (sys_sent s)"
  shows "sys_takes s j n"
proof -
  let ?ev = "SN_SessionEvent (MS_Incoming (Incoming_addMessage i msg p) now)"
  obtain k where k: "k < length (sys_sent s)" "sys_sent s ! k = (i, msg)" using x by (auto simp: in_set_conv_nth)
  have "ms_messages (mn_storage (sys_master s)) i = Some msg" using ok x by (auto simp: sys_ok_def)
  then obtain s' where "sys_secondary j ?ev None s = Some s'" "sys_ok s'" using sys_deliver_ok [OF ok l j] by blast
  then show ?thesis
    by (rule sys_takesI [OF _ st j, of None s' "Sys_Deliver j k p now"]) (use j k in \<open>simp_all add: sys_step_def\<close>)
qed

lemma sys_takes_answer:
  assumes ok: "sys_ok s" and l: "length (mn_requests (sys_master s)) < 2 ^ 64" and j: "j < length (sys_secondaries s)"
    and st: "sn_step (sec_node (sys_secondaries s ! j)) (SN_SessionEvent (MS_Response a (Got_GetMessages xs))) = Some (n, out)"
    and q: "query_gap (sec_node (sys_secondaries s ! j)) a = Some gap" and x: "(gap, xs, known) \<in> set (sys_answers s)"
  shows "sys_takes s j n"
proof -
  let ?ev = "SN_SessionEvent (MS_Response a (Got_GetMessages xs))"
  obtain k where k: "k < length (sys_answers s)" "sys_answers s ! k = (gap, xs, known)" using x by (auto simp: in_set_conv_nth)
  have "answer_ok (sys_master s) (gap, xs, known)" using ok x unfolding sys_ok_def by blast
  then obtain s' where "sys_secondary j ?ev (Some known) s = Some s'" "sys_ok s'" using sys_answer_ok [OF ok l j _ q] by blast
  then show ?thesis
    by (rule sys_takesI [OF _ st j, of "Some known" s' "Sys_Answer j k a"]) (use j k q in \<open>simp_all add: sys_step_def\<close>)
qed

subsection \<open>An event of a member\<close>

lemma cl_inv_pending_none: "cl_inv t c s mo j [] \<Longrightarrow> cl_inv t c s mo a []"
  by (simp add: cl_inv_def)

text \<open>What is known when a member takes an event.\<close>

definition member_takes :: "Cluster \<Rightarrow> System \<Rightarrow> nat \<Rightarrow> Member \<Rightarrow> sn_event \<Rightarrow> bool" where
  "member_takes c s j mb ev \<longleftrightarrow>
     j < length (cl_members c) \<and> mb_node mb = mb_node (cl_members c ! j) \<and>
     (\<forall>n out. sn_step (mb_node mb) ev = Some (n, out) \<longrightarrow>
        sys_takes s j n \<and> (sns_session n \<noteq> None \<longrightarrow> session_calls_ok c j mb (waiting_left ev (mb_node mb)))) \<and>
     (\<forall>req now. ev = SN_SessionEvent (MS_Incoming req now) \<longrightarrow> request_heard c j (mb_connection mb) req)"

lemma member_takesI:
  assumes "j < length (cl_members c)" "mb_node mb = mb_node (cl_members c ! j)"
    "\<And>n out. sn_step (mb_node mb) ev = Some (n, out) \<Longrightarrow> sns_session n \<noteq> None \<Longrightarrow>
      session_calls_ok c j mb (waiting_left ev (mb_node mb))"
    "\<And>req now. ev = SN_SessionEvent (MS_Incoming req now) \<Longrightarrow> request_heard c j (mb_connection mb) req"
    "\<And>n out. sn_step (mb_node mb) ev = Some (n, out) \<Longrightarrow> sys_takes s j n"
  shows "member_takes c s j mb ev"
  unfolding member_takes_def using assms by blast

lemma member_takes_move:
  assumes tk: "member_takes c s j mb ev" and st: "sn_step (mb_node mb) ev = Some (n, out)"
  shows "\<exists>sev s'. sys_step s sev = Some s' \<and> member_move c s j ev mb n out s'"
proof -
  have "sys_takes s j n" using tk st unfolding member_takes_def by blast
  then obtain sev s' where "sys_step s sev = Some s'" "sys_ok s'" "sys_master s' = sys_master s"
    "sys_sent s' = sys_sent s" "sys_answers s' = sys_answers s"
    "map sec_node (sys_secondaries s') = (map sec_node (sys_secondaries s))[j := n]" unfolding sys_takes_def by blast
  moreover have "mb_node (cl_members c ! j) = mb_node mb" "j < length (cl_members c)"
    "sns_session n \<noteq> None \<Longrightarrow> session_calls_ok c j mb (waiting_left ev (mb_node mb))"
    "\<And>req now. ev = SN_SessionEvent (MS_Incoming req now) \<Longrightarrow> request_heard c j (mb_connection mb) req"
    using tk st unfolding member_takes_def by auto
  ultimately have "member_move c s j ev mb n out s'" using st unfolding member_move_def by (intro conjI allI impI) auto
  then show ?thesis using \<open>sys_step s sev = Some s'\<close> by blast
qed

lemma cl_inv_member_event:
  assumes i: "cl_inv t c s [] a []" and t: "t \<le> 2 ^ 64" and l: "length (mn_requests (cl_master c)) < 2 ^ 64"
    and tk: "member_takes c s j mb ev"
    and out: "member_event alloc draw j ev (c\<lparr>cl_members := (cl_members c)[j := mb]\<rparr>) = Some c'"
  shows "\<exists>sev s' n out. sys_step s sev = Some s' \<and> cl_inv t c' s' [] a [] \<and> cl_keeps c c' \<and> cl_master c' = cl_master c \<and>
    sn_step (mb_node mb) ev = Some (n, out) \<and> map mb_node (cl_members c') = (map mb_node (cl_members c))[j := n]"
proof -
  have j: "j < length (cl_members c)" using tk by (simp add: member_takes_def)
  obtain n o' where st: "sn_step (mb_node mb) ev = Some (n, o')"
    and perf: "perform_all (member_output alloc draw j (mb_connection mb)) o'
      (c\<lparr>cl_members := (cl_members c)[j := member_after mb n]\<rparr>) = Some c'"
    using out j by (auto simp: member_event_def member_after_def Let_def split: option.splits if_splits)
  obtain sev s' where s': "sys_step s sev = Some s'" and mv: "member_move c s j ev mb n o' s'"
    using member_takes_move [OF tk st] by blast
  let ?c = "c\<lparr>cl_members := (cl_members c)[j := member_after mb n]\<rparr>"
  have i1: "cl_inv t ?c s' [] j o'" by (rule cl_inv_member_move [OF i l mv])
  have own: "owns_session ?c j (mb_connection mb)" using j by (simp add: owns_session_def member_after_def)
  have owes: "\<forall>x \<in> set o'. session_owes ?c (mb_connection mb) x" using move_session_owes [OF mv] by blast
  have j1: "j < length (cl_members ?c)" using j by simp
  from cl_inv_member_outputs [OF i1 t j1 perf own owes] have
    fin: "cl_inv t c' s' [] j []" "cl_leads ?c c'" by blast+
  have "cl_keeps ?c c'" by (rule cl_leads_keeps [OF fin(2)])
  then have "cl_keeps c c'" by (simp add: cl_keeps_def link_of_def)
  moreover have "cl_master c' = cl_master c" "map mb_node (cl_members c') = (map mb_node (cl_members c))[j := n]"
    using fin(2) by (simp_all add: cl_leads_def map_update)
  ultimately show ?thesis using s' cl_inv_pending_none [OF fin(1)] st by blast
qed


section \<open>What an endpoint emits\<close>

definition cl_follows :: "nat \<Rightarrow> Cluster \<Rightarrow> System \<Rightarrow> mn_event list \<Rightarrow> Cluster \<Rightarrow> bool" where
  "cl_follows t c s rest c' \<longleftrightarrow>
     (\<exists>s'. sys_reaches s s' \<and> cl_inv t c' s' [] 0 [] \<and> mn_within (cl_master c') rest \<and> cl_keeps c c')"

lemma mn_within_quiet:
  "connections_of ev = 0 \<Longrightarrow> messages_of ev = 0 \<Longrightarrow> mn_within m rest \<Longrightarrow> mn_within m (ev # rest)"
  by (simp add: mn_within_def)

lemma mn_within_length: "mn_within m rest \<Longrightarrow> length (mn_requests m) < 2 ^ 64"
  by (simp add: mn_within_def)

lemma cl_follows_asked:
  assumes i: "cl_inv t c s [] 0 []" and t: "t \<le> 2 ^ 64" and w: "mn_within (cl_master c) rest"
    and on: "on_endpoint alloc k b ev c = Some c'" and known: "step_known c s k (LN_Event b ev)" and ev: "\<not> from_outside ev"
  shows "cl_follows t c s rest c'"
proof -
  from cl_inv_asked [OF i t on known ev] have "cl_inv t c' s [] 0 []" "cl_leads c c'" by simp_all
  then show ?thesis using w cl_leads_keeps unfolding cl_follows_def
    by (intro exI [of _ s]) (simp add: cl_leads_def)
qed

lemma cl_follows_same: "cl_inv t c s [] 0 [] \<Longrightarrow> mn_within (cl_master c) rest \<Longrightarrow> cl_follows t c s rest c"
  unfolding cl_follows_def by (intro exI [of _ s]) simp

lemma cl_follows_master:
  assumes i: "cl_inv t c s [] 0 []" and t: "t \<le> 2 ^ 64" and w: "mn_within (cl_master c) (ev # rest)"
    and ready: "master_ready c ev c0" and out: "master_event alloc draw ev c0 = Some c'"
  shows "cl_follows t c s rest c'"
  using cl_inv_master_event [OF assms] sys_reaches_step unfolding cl_follows_def by blast

lemma cl_follows_member:
  assumes "cl_inv t c s [] 0 []" "t \<le> 2 ^ 64" and w: "mn_within (cl_master c) rest" and "member_takes c s j mb ev"
    "member_event alloc draw j ev (c\<lparr>cl_members := (cl_members c)[j := mb]\<rparr>) = Some c'"
  shows "cl_follows t c s rest c'"
proof -
  from cl_inv_member_event [OF assms(1,2) mn_within_length [OF w] assms(4,5)] obtain sev s' where
    "sys_step s sev = Some s'" "cl_inv t c' s' [] 0 []" "cl_keeps c c'" "cl_master c' = cl_master c" by blast
  then show ?thesis using w sys_reaches_step [of s sev s'] unfolding cl_follows_def by auto
qed

text \<open>The session of a member and what it waits for.\<close>

lemma member_session_calls:
  assumes i: "cl_inv t c s mo j []" and a: "a < length (cl_members c)" and s: "sns_session (mb_node (cl_members c ! a)) \<noteq> None"
  shows "session_calls_ok c a (cl_members c ! a) (node_waiting (mb_node (cl_members c ! a)))"
proof -
  have "member_ok c a []" using i a unfolding cl_inv_def by metis
  then show ?thesis using s by (auto simp: member_ok_def session_calls_ok_def node_waiting_def)
qed

lemma session_event_session:
  "sn_step n (SN_SessionEvent ev) = Some (n', out) \<Longrightarrow> sns_session n' \<noteq> None \<Longrightarrow> sns_session n \<noteq> None"
  by (auto split: option.splits)

text \<open>An output of an endpoint that has happened on its connection.\<close>

definition signal_at :: "Cluster \<Rightarrow> nat \<Rightarrow> bool \<Rightarrow> ep_signal \<Rightarrow> bool" where
  "signal_at c k b sg \<longleftrightarrow>
     k < length (cl_connections c) \<and>
     (\<forall>i. sg = Sig_Incoming i \<longrightarrow>
        promise_of i < length (ln_signals (link_of c k) b) \<and> ln_signals (link_of c k) b ! promise_of i = i)"

lemma signal_at_keeps:
  assumes "cl_keeps c c'" "signal_at c k b sg"
  shows "signal_at c' k b sg"
proof -
  have k: "k < length (cl_connections c)" using assms(2) by (simp add: signal_at_def)
  then have "link_leads (link_of c k) (link_of c' k)" "k < length (cl_connections c')"
    using assms(1) by (auto simp: cl_keeps_def)
  then show ?thesis using assms(2) link_leads_signal unfolding signal_at_def by metis
qed

lemma promise_of_signal [simp]: "promise_of (request_signal r a) = a"
  by (cases r) simp_all

lemma signal_known:
  assumes i: "cl_inv t c s mo j so" and sg: "signal_at c k False (Sig_Incoming (Incoming_addMessage messageId message p))"
  shows "(messageId, message) \<in> set (sys_sent s)"
proof -
  have k: "k < length (cl_connections c)" "p < length (ln_signals (link_of c k) False)"
    "ln_signals (link_of c k) False ! p = Incoming_addMessage messageId message p"
    using sg by (simp_all add: signal_at_def)
  have f: "link_ok (link_of c k)" "\<And>r x. (r, x) \<in> link_calls (link_of c k) True \<Longrightarrow> call_known s r"
    using i k(1) unfolding cl_inv_def cl_links_def link_facts_def by blast+
  obtain r x where r: "(r, x) \<in> link_calls (link_of c k) True" "request_signal r p = Incoming_addMessage messageId message p"
    using link_signal_origin [OF f(1) k(2)] k(3) by auto
  then have "call_known s r" using f(2) by blast
  then show ?thesis using r(2) by (cases r) auto
qed

text \<open>A signal for the master, and one for a session.\<close>

lemma signal_ready:
  assumes i: "cl_inv t c s [] 0 []" and sg: "signal_at c k True sg" and e: "endpoint_of c k = Some e"
  shows "master_ready c (MN_Signal e sg) c"
proof -
  have "e < length (cl_endpoints c)" "cl_endpoints c ! e = k" using e by (auto simp: endpoint_of_def find_Some_iff)
  then have "query_at c gap e' p" if "MN_Signal e sg = MN_Signal e' (Sig_Incoming (Incoming_getMessages gap p))" for e' gap p
    using that sg by (simp add: signal_at_def query_at_def)
  then show ?thesis by (intro master_ready_plain [OF i]) (simp_all add: runs_task_def)
qed

lemma member_hears:
  assumes i: "cl_inv t c s [] 0 []" and w: "mn_within (cl_master c) rest" and sg: "signal_at c k False sg"
    and con: "mb_connection (cl_members c ! co_secondary (cl_connections c ! k)) = Some k"
  shows "member_takes c s (co_secondary (cl_connections c ! k)) (cl_members c ! co_secondary (cl_connections c ! k))
    (SN_SessionEvent (session_signal sg now))"
proof -
  let ?j = "co_secondary (cl_connections c ! k)"
  have k: "k < length (cl_connections c)" using sg by (simp add: signal_at_def)
  have j: "?j < length (cl_members c)" using i k by (simp add: cl_inv_def cl_links_def)
  let ?mb = "cl_members c ! ?j" and ?ev = "SN_SessionEvent (session_signal sg now)"
  have mt: "cl_matches c s" using i by (simp add: cl_inv_def)
  note M = member_matches [OF mt j]
  have ok: "sys_ok s" "length (mn_requests (sys_master s)) < 2 ^ 64"
    using mt mn_within_length [OF w] by (simp_all add: cl_matches_def)
  show ?thesis
  proof (rule member_takesI [OF j refl])
    fix n o'
    assume st: "sn_step (mb_node ?mb) ?ev = Some (n, o')"
    assume "sns_session n \<noteq> None"
    then have "sns_session (mb_node ?mb) \<noteq> None" using session_event_session [OF st] by blast
    moreover have "waiting_left ?ev (mb_node ?mb) = node_waiting (mb_node ?mb)" by (cases sg) simp_all
    ultimately show "session_calls_ok c ?j ?mb (waiting_left ?ev (mb_node ?mb))"
      using member_session_calls [OF i j] by simp
  next
    fix req now'
    assume "?ev = SN_SessionEvent (MS_Incoming req now')"
    then have "sg = Sig_Incoming req" by (cases sg) simp_all
    then show "request_heard c ?j (mb_connection ?mb) req" using sg con by (simp add: request_heard_def signal_at_def)
  next
    fix n o'
    assume st: "sn_step (mb_node ?mb) ?ev = Some (n, o')"
    show "sys_takes s ?j n"
    proof (cases "\<exists>m msg p. sg = Sig_Incoming (Incoming_addMessage m msg p)")
      case True
      then obtain m msg p where x: "sg = Sig_Incoming (Incoming_addMessage m msg p)" by blast
      have "(m, msg) \<in> set (sys_sent s)" using signal_known [OF i] sg x by simp
      then show ?thesis using sys_takes_deliver [OF ok M(1), of m msg p now n o'] st x M(2) by simp
    next
      case other: False
      have "quiet ?ev"
      proof (cases sg)
        case (Sig_Incoming r)
        then show ?thesis using other by (cases r) simp_all
      qed simp
      then show ?thesis using sys_takes_quiet [OF ok M(1), of ?ev n o'] st M(2) by simp
    qed
  qed
qed

lemma cl_inv_hear:
  assumes i: "cl_inv t c s [] 0 []" and t: "t \<le> 2 ^ 64" and w: "mn_within (cl_master c) rest"
    and sg: "signal_at c k b sg" and out: "hear alloc draw k b now sg c = Some c'"
  shows "cl_follows t c s rest c'"
proof -
  have drop: ?thesis if "drop_signal alloc k b sg c = Some c'"
  proof (cases sg)
    case Sig_Invalidated
    then show ?thesis using that cl_follows_same [OF i w] by (simp add: drop_signal_def)
  next
    case (Sig_Incoming r)
    then have "on_endpoint alloc k b (EP_SetPromise (promise_of r) None) c = Some c'" using that by (simp add: drop_signal_def)
    then show ?thesis by (rule cl_follows_asked [OF i t w]) (simp_all add: step_known_simps)
  qed
  show ?thesis
  proof (cases b)
    case True
    show ?thesis
    proof (cases "endpoint_of c k")
      case None
      then show ?thesis using drop out True by (simp add: hear_def)
    next
      case (Some e)
      then have ev: "master_event alloc draw (MN_Signal e sg) c = Some c'" using out True by (simp add: hear_def)
      have "master_ready c (MN_Signal e sg) c" using signal_ready [OF i _ Some] sg True by simp
      then show ?thesis by (intro cl_follows_master [OF i t mn_within_quiet [OF _ _ w] _ ev]) simp_all
    qed
  next
    case False
    let ?j = "co_secondary (cl_connections c ! k)"
    show ?thesis
    proof (cases "mb_connection (cl_members c ! ?j) = Some k")
      case con: True
      have "member_event alloc draw ?j (SN_SessionEvent (session_signal sg now))
          (c\<lparr>cl_members := (cl_members c)[?j := cl_members c ! ?j]\<rparr>) = Some c'"
        using out False con by (simp add: hear_def Let_def)
      then show ?thesis using sg False by (intro cl_follows_member [OF i t w member_hears [OF i w _ con]]) simp_all
    next
      case con: False
      then show ?thesis using drop out False by (simp add: hear_def Let_def)
    qed
  qed
qed


lemma cl_inv_time: "cl_inv t c s mo j so \<Longrightarrow> t \<le> t' \<Longrightarrow> cl_inv t' c s mo j so"
  unfolding cl_inv_def cl_links_def using le_trans by blast

lemma cl_follows_time: "cl_follows t c s rest c' \<Longrightarrow> t \<le> t' \<Longrightarrow> cl_follows t' c s rest c'"
  unfolding cl_follows_def using cl_inv_time by blast

lemma cl_follows_then:
  assumes "cl_follows t c s rest c1" "\<And>s1. cl_inv t c1 s1 [] 0 [] \<Longrightarrow> mn_within (cl_master c1) rest \<Longrightarrow> cl_follows t c1 s1 rest c'"
  shows "cl_follows t c s rest c'"
  using assms unfolding cl_follows_def by (metis cl_keeps_trans sys_reaches_trans)

fun output_signal :: "ep_output \<Rightarrow> ep_signal list" where
  "output_signal (EP_Incoming i) = [Sig_Incoming i]"
| "output_signal EP_Invalidated = [Sig_Invalidated]"
| "output_signal (EP_Sock x) = []"

lemma cl_inv_hear_outputs:
  assumes "cl_inv t c s [] 0 []" "t \<le> 2 ^ 64" "mn_within (cl_master c) rest"
    "\<forall>x \<in> set out. \<forall>sg \<in> set (output_signal x). signal_at c k b sg"
    "perform_all (hear_output alloc draw k b now) out c = Some c'"
  shows "cl_follows t c s rest c'"
  using assms
proof (induction out arbitrary: c s)
  case Nil
  then show ?case by (simp add: cl_follows_same)
next
  case (Cons x xs)
  obtain c1 where c1: "hear_output alloc draw k b now x c = Some c1" "perform_all (hear_output alloc draw k b now) xs c1 = Some c'"
    using Cons.prems(5) by (auto split: option.splits)
  have f: "cl_follows t c s rest c1"
  proof (cases "output_signal x")
    case Nil
    then have "c1 = c" using c1(1) by (cases x) simp_all
    then show ?thesis using cl_follows_same [OF Cons.prems(1,3)] by simp
  next
    case (Cons sg sgs)
    then have h: "hear alloc draw k b now sg c = Some c1" "sg \<in> set (output_signal x)" using c1(1) by (cases x; simp)+
    then have "signal_at c k b sg" using Cons.prems(4) by simp
    then show ?thesis by (rule cl_inv_hear [OF Cons.prems(1-3) _ h(1)])
  qed
  then have "cl_keeps c c1" by (auto simp: cl_follows_def)
  then have "\<forall>y \<in> set xs. \<forall>sg \<in> set (output_signal y). signal_at c1 k b sg" using Cons.prems(4) signal_at_keeps by fastforce
  then show ?case using Cons.IH [OF _ Cons.prems(2) _ _ c1(2)] by (intro cl_follows_then [OF f])
qed

section \<open>The steps\<close>

lemma link_step_update:
  assumes "link_step alloc ln lev = Inr ln'"
  shows "ln' = ln \<and> link_output alloc ln lev = [] \<or>
    (\<exists>b ev partial r. event_of lev = (b, ev) \<and> ln' = link_update ln b ev partial r \<and> link_output alloc ln lev = snd r)"
  using assms by (cases lev) (auto simp: Let_def simp del: ep_step.simps split: if_splits sum.splits)

lemma link_step_numbers:
  assumes "link_step alloc ln lev = Inr ln'" "length (ln_sent ln b) \<le> t"
  shows "length (ln_sent ln' b) \<le> Suc t"
proof -
  have n: "length (numbered_requests e ev) \<le> 1" for e ev by (cases ev) auto
  have "length (ln_sent (link_update ln b' ev partial r) b) \<le> Suc (length (ln_sent ln b))" for b' ev partial r
    using n [of "ln_ep ln b'" ev] by (simp add: link_update_def)
  then show ?thesis using link_step_update [OF assms(1)] assms(2) by (meson Suc_le_mono le_SucI le_trans)
qed

lemma link_output_signals:
  assumes ok: "link_ok ln'" and st: "link_step alloc ln lev = Inr ln'" and x: "EP_Incoming i \<in> set (link_output alloc ln lev)"
  shows "promise_of i < length (ln_signals ln' (fst (event_of lev)))"
    "ln_signals ln' (fst (event_of lev)) ! promise_of i = i"
proof -
  obtain b ev partial r where u: "event_of lev = (b, ev)" "ln' = link_update ln b ev partial r" "link_output alloc ln lev = snd r"
    using link_step_update [OF st] x by auto
  have "i \<in> set (ep_signals (snd r))" using x u(3) by (auto simp: ep_signals_def split: ep_output.splits intro!: bexI [of _ "EP_Incoming i"])
  then have "i \<in> set (ln_signals ln' b)" using u(2) by (simp add: link_update_def)
  then obtain a where a: "a < length (ln_signals ln' b)" "ln_signals ln' b ! a = i" by (auto simp: in_set_conv_nth)
  from link_signal_origin [OF ok a(1)] obtain r where "ln_signals ln' b ! a = request_signal r a" by blast
  then have "promise_of i = a" using a(2) promise_of_signal by metis
  then show "promise_of i < length (ln_signals ln' (fst (event_of lev)))" "ln_signals ln' (fst (event_of lev)) ! promise_of i = i"
    using a u(1) by simp_all
qed

lemma cl_link_keeps:
  assumes i: "cl_inv t c s [] 0 []" and t: "Suc t \<le> 2 ^ 64" and k: "k < length (cl_connections c)"
    and ln: "link_step alloc (link_of c k) lev = Inr ln" and ev: "from_outside (snd (event_of lev))"
  shows "cl_inv (Suc t) (set_link k ln c) s [] 0 []" "cl_leads c (set_link k ln c)"
    "\<forall>x \<in> set (link_output alloc (link_of c k) lev). \<forall>sg \<in> set (output_signal x).
       signal_at (set_link k ln c) k (fst (event_of lev)) sg"
proof -
  have "length (ln_sent (link_of c k) d) \<le> t" for d using i k by (simp add: cl_inv_def cl_links_def)
  then have n: "\<forall>d. length (ln_sent ln d) \<le> Suc t" using link_step_numbers [OF ln] by blast
  obtain b e where "event_of lev = (b, e)" by (cases "event_of lev")
  then have "step_known c s k lev" using ev by (cases lev; cases e) (auto simp: step_known_def)
  from cl_inv_link [OF i k ln this _ t n] show
    s1: "cl_inv (Suc t) (set_link k ln c) s [] 0 []" and "cl_leads c (set_link k ln c)" by simp_all
  have ok: "link_ok ln" using s1 k unfolding cl_inv_def cl_links_def link_facts_def by (metis link_of_set_link set_link_simps(5))
  have "signal_at (set_link k ln c) k (fst (event_of lev)) sg"
    if x: "x \<in> set (link_output alloc (link_of c k) lev)" "sg \<in> set (output_signal x)" for x sg
  proof (cases x)
    case (EP_Incoming r)
    then show ?thesis using x link_output_signals [OF ok ln, of r] k by (simp add: signal_at_def link_of_set_link)
  qed (use x k in \<open>simp_all add: signal_at_def\<close>)
  then show "\<forall>x \<in> set (link_output alloc (link_of c k) lev). \<forall>sg \<in> set (output_signal x).
       signal_at (set_link k ln c) k (fst (event_of lev)) sg" by blast
qed

lemma cl_inv_cl_link:
  assumes i: "cl_inv t c s [] 0 []" and t: "Suc t \<le> 2 ^ 64" and w: "mn_within (cl_master c) rest"
    and out: "cl_link alloc draw k lev now c = Some c'"
  shows "cl_follows (Suc t) c s rest c'"
proof -
  obtain b ev where e: "event_of lev = (b, ev)" by (cases "event_of lev")
  show ?thesis
  proof (cases "length (cl_connections c) \<le> k \<or> \<not> from_outside ev \<or> b \<and> endpoint_of c k = None \<or> ev = EP_Destroy \<and> \<not> released c k b")
    case True
    then have "c' = c" using out unfolding cl_link_def e by simp
    then show ?thesis using cl_follows_time [OF cl_follows_same [OF i w], of "Suc t"] by simp
  next
    case False
    then have k: "k < length (cl_connections c)" and ev: "from_outside ev" by auto
    obtain ln where ln: "link_step alloc (link_of c k) lev = Inr ln"
      "perform_all (hear_output alloc draw k b now) (link_output alloc (link_of c k) lev) (set_link k ln c) = Some c'"
      using out False unfolding cl_link_def e by (auto simp del: link_step.simps split: sum.splits)
    from cl_link_keeps [OF i t k ln(1)] e ev have
      s1: "cl_inv (Suc t) (set_link k ln c) s [] 0 []" "cl_leads c (set_link k ln c)"
        "\<forall>x \<in> set (link_output alloc (link_of c k) lev). \<forall>sg \<in> set (output_signal x). signal_at (set_link k ln c) k b sg" by simp_all
    have "cl_follows (Suc t) (set_link k ln c) s rest c'"
      using w by (intro cl_inv_hear_outputs [OF s1(1) t _ s1(3) ln(2)]) simp
    then show ?thesis using cl_leads_keeps [OF s1(2)] cl_keeps_trans unfolding cl_follows_def by blast
  qed
qed

end
