(* ===== verification/ClusterRuns.thy ===== *)
theory ClusterRuns
  imports ClusterCorrect
begin

text \<open>
  The steps of the cluster, one by one, and what holds after every run: the nodes are in a state
  that the abstract network allows, and a confirmed message is stored where it was confirmed.
\<close>

section \<open>Answers\<close>

lemma map_take_nth: "map f (take_nth n xs) = take_nth n (map f xs)"
  by (simp add: take_nth_def take_map drop_map)

lemma cl_links_facts:
  assumes "cl_inv t c s mo j so" "k < length (cl_connections c)"
  shows "link_facts (call_known s) (answer_known s (peer_node c k)) (link_of c k)"
  using assms by (simp add: cl_inv_def cl_links_def peer_node_def)

lemma future_outcomeD:
  assumes "future_outcome c k b x = Some oc"
  shows "x < om_nextContext (ep_outcoming (ln_ep (link_of c k) b))"
    "outcome_of (om_contexts (ep_outcoming (ln_ep (link_of c k) b)) x) = Some oc"
  using assms by (auto simp: future_outcome_def Let_def split: if_splits)

lemma cl_calls_entry:
  assumes "cl_inv t c s [] j []" "(i, k, x) \<in> set (futures_of c q)"
  shows "serves c i k" "k < length (cl_connections c)" "call_means (link_of c k) True x (request_message c q)"
  using assms unfolding cl_inv_def cl_calls_def by fast+

text \<open>An \<^verbatim>\<open>OK\<close> comes from the secondary that has stored the message.\<close>

lemma confirmed_message:
  assumes i: "cl_inv t c s [] j []" and x: "(i, k, x) \<in> set (futures_of c q)"
    and oc: "future_outcome c k True x = Some oc" "response_status oc = Some v"
  shows "has_message (peer_node c k) (ar_messageId (run_request (mn_requests (cl_master c) ! q)))"
proof -
  note E = cl_calls_entry [OF i x]
  have "\<forall>e. oc \<noteq> Failed e" using oc(2) by auto
  from link_facts_answer [OF cl_links_facts [OF i E(2)] E(3) future_outcomeD(2) [OF oc(1)] this future_outcomeD(1) [OF oc(1)]]
  obtain a y where "answer_known s (peer_node c k) False (request_message c q a) y" by auto
  then show ?thesis by (simp add: answer_known_def request_message_def Let_def)
qed

lemma answer_ready:
  assumes i: "cl_inv t c s [] j []" and q: "q < length (cl_futures c)" "n < length (cl_futures c ! q)"
    and f: "cl_futures c ! q ! n = (a, k, x)" and oc: "future_outcome c k True x = Some oc"
  shows "master_ready c (MN_Answer q n (response_status oc)) (c\<lparr>cl_futures := (cl_futures c)[q := take_nth n (cl_futures c ! q)]\<rparr>)"
proof -
  let ?c0 = "c\<lparr>cl_futures := (cl_futures c)[q := take_nth n (cl_futures c ! q)]\<rparr>"
  let ?ev = "MN_Answer q n (response_status oc)"
  have fq: "futures_of c q = cl_futures c ! q" using q by (simp add: futures_of_def)
  then have mem: "(a, k, x) \<in> set (futures_of c q)" using f q by (metis nth_mem)
  have calls: "cl_calls c []" using i by (simp add: cl_inv_def)
  have fo: "futures_of ?c0 p = (if p = q then take_nth n (futures_of c q) else futures_of c p)" for p
    using q by (simp add: futures_of_def nth_list_update)
  have len: "length (cl_futures c) = length (mn_requests (cl_master c))" using calls by (simp add: cl_calls_def)
  have sent: "request_sent (cl_master c) q = map fst (futures_of c q)" using calls by (simp add: cl_calls_def)
  have "\<exists>k < length (cl_connections c). serves c (request_sent (cl_master c) q ! n) k \<and>
      has_message (peer_node c k) (ar_messageId (run_request (mn_requests (cl_master c) ! q)))"
    if "response_status oc = Some OK"
  proof -
    have "request_sent (cl_master c) q ! n = a" using sent q f fq by simp
    then show ?thesis using cl_calls_entry [OF i mem] confirmed_message [OF i mem oc that] by blast
  qed
  moreover have "map fst (futures_of ?c0 p) = answered_calls ?ev p (map fst (futures_of c p)) \<and>
      set (futures_of ?c0 p) \<subseteq> set (futures_of c p)" for p
    using q fq set_take_nth_subset [of n "futures_of c q"] unfolding fo by (simp add: map_take_nth)
  ultimately show ?thesis using len by (simp add: master_ready_def runs_task_def)
qed

lemma cl_inv_cl_answer:
  assumes i: "cl_inv t c s [] 0 []" and t: "t \<le> 2 ^ 64" and w: "mn_within (cl_master c) rest"
    and out: "cl_answer alloc draw q n c = Some c'"
  shows "cl_follows t c s rest c'"
proof (cases "length (cl_futures c) \<le> q \<or> length (cl_futures c ! q) \<le> n")
  case True
  then show ?thesis using out cl_follows_same [OF i w] by (simp add: cl_answer_def)
next
  case False
  obtain a k x where f: "cl_futures c ! q ! n = (a, k, x)" by (metis prod.collapse)
  show ?thesis
  proof (cases "future_outcome c k True x")
    case None
    then show ?thesis using out False f cl_follows_same [OF i w] by (simp add: cl_answer_def)
  next
    case (Some oc)
    have ev: "master_event alloc draw (MN_Answer q n (response_status oc))
        (c\<lparr>cl_futures := (cl_futures c)[q := take_nth n (cl_futures c ! q)]\<rparr>) = Some c'"
      using out False f Some by (simp add: cl_answer_def)
    have "master_ready c (MN_Answer q n (response_status oc))
        (c\<lparr>cl_futures := (cl_futures c)[q := take_nth n (cl_futures c ! q)]\<rparr>)"
      using False by (intro answer_ready [OF i _ _ f Some]) simp_all
    from cl_follows_master [OF i t mn_within_quiet [OF _ _ w] this ev] show ?thesis by simp
  qed
qed

text \<open>An answer to a session: what it asked for is what the master has answered.\<close>

lemma session_answer_known:
  assumes i: "cl_inv t c s mo j so" and k: "k < length (cl_connections c)"
    and m: "call_means (link_of c k) False x (cont_signal cont name)" and oc: "future_outcome c k False x = Some (Got_GetMessages xs)"
  shows "\<exists>gap known. cont = Cont_Messages gap \<and> (gap, xs, known) \<in> set (sys_answers s)"
proof -
  have "\<forall>e. Got_GetMessages xs \<noteq> Failed e" by simp
  from link_facts_answer [OF cl_links_facts [OF i k] m future_outcomeD(2) [OF oc] this future_outcomeD(1) [OF oc]]
  obtain a y where a: "answer_known s (peer_node c k) True (cont_signal cont name a) y"
    "Got_GetMessages xs = answer_outcome (answer_response y)" by auto
  then have "y = A_GetMessages xs" using sgm_views_create by (cases y) simp_all
  then show ?thesis using a(1) by (cases cont) (auto simp: answer_known_def)
qed

lemma session_calls_take:
  assumes "session_calls_ok c j mb conts"
  shows "session_calls_ok c j (mb\<lparr>mb_futures := take_nth n (mb_futures mb)\<rparr>) (take_nth n conts)"
proof -
  obtain k where k: "k < length (cl_connections c)" "mb_connection mb = Some k" "co_secondary (cl_connections c ! k) = j"
    "map fst (mb_futures mb) = conts"
    "\<forall>(cont, x) \<in> set (mb_futures mb). \<exists>name. call_means (link_of c k) False x (cont_signal cont name)"
    using assms unfolding session_calls_ok_def by blast
  have "\<forall>(cont, x) \<in> set (take_nth n (mb_futures mb)). \<exists>name. call_means (link_of c k) False x (cont_signal cont name)"
    using k(5) set_take_nth_subset [of n "mb_futures mb"] by blast
  then show ?thesis using k(1-4) unfolding session_calls_ok_def by (intro exI [of _ k]) (simp add: map_take_nth)
qed

lemma member_continues:
  assumes i: "cl_inv t c s [] 0 []" and w: "mn_within (cl_master c) rest"
    and j: "j < length (cl_members c)" and n: "n < length (mb_futures (cl_members c ! j))"
    and k: "mb_connection (cl_members c ! j) = Some k"
    and oc: "future_outcome c k False (snd (mb_futures (cl_members c ! j) ! n)) = Some oc"
  shows "member_takes c s j ((cl_members c ! j)\<lparr>mb_futures := take_nth n (mb_futures (cl_members c ! j))\<rparr>)
    (SN_SessionEvent (MS_Response n oc))"
proof -
  let ?mb = "cl_members c ! j"
  let ?mb' = "?mb\<lparr>mb_futures := take_nth n (mb_futures ?mb)\<rparr>"
  let ?ev = "SN_SessionEvent (MS_Response n oc)" and ?n = "mb_node ?mb"
  obtain cont x where f: "mb_futures ?mb ! n = (cont, x)" by (metis prod.collapse)
  have mt: "cl_matches c s" using i by (simp add: cl_inv_def)
  note M = member_matches [OF mt j]
  have ok: "sys_ok s" "length (mn_requests (sys_master s)) < 2 ^ 64"
    using mt mn_within_length [OF w] by (simp_all add: cl_matches_def)
  have calls: "session_calls_ok c j ?mb (node_waiting ?n)" if "sns_session ?n \<noteq> None"
    using member_session_calls [OF i j that] .
  show ?thesis
  proof (rule member_takesI [OF j])
    show "mb_node ?mb' = ?n" by simp
  next
    fix n' o'
    assume st: "sn_step (mb_node ?mb') ?ev = Some (n', o')"
    assume "sns_session n' \<noteq> None"
    then have c0: "session_calls_ok c j ?mb (node_waiting ?n)" using calls session_event_session st by (metis Member.select_convs(1) Member.surjective Member.update_convs(3))
    have "map fst (mb_futures ?mb) = node_waiting ?n" using c0 unfolding session_calls_ok_def by blast
    then have "length (node_waiting ?n) = length (mb_futures ?mb)" by (metis length_map)
    then have wl: "waiting_left ?ev (mb_node ?mb') = take_nth n (node_waiting ?n)" using n by simp
    show "session_calls_ok c j ?mb' (waiting_left ?ev (mb_node ?mb'))"
      unfolding wl by (rule session_calls_take [OF c0])
  next
    fix req now
    assume "?ev = SN_SessionEvent (MS_Incoming req now)"
    then show "request_heard c j (mb_connection ?mb') req" by simp
  next
    fix n' o'
    assume st: "sn_step (mb_node ?mb') ?ev = Some (n', o')"
    then have st': "sn_step (sec_node (sys_secondaries s ! j)) ?ev = Some (n', o')" using M(2) by simp
    show "sys_takes s j n'"
    proof (cases "sns_session ?n \<noteq> None \<and> (\<exists>xs. oc = Got_GetMessages xs)")
      case True
      then obtain xs where xs: "oc = Got_GetMessages xs" by blast
      have c0: "session_calls_ok c j ?mb (node_waiting ?n)" using calls True by blast
      then obtain k' where k': "k' < length (cl_connections c)" "mb_connection ?mb = Some k'"
        "map fst (mb_futures ?mb) = node_waiting ?n"
        "\<forall>(cont, x) \<in> set (mb_futures ?mb). \<exists>name. call_means (link_of c k') False x (cont_signal cont name)"
        unfolding session_calls_ok_def by blast
      have kk: "k' = k" using k k'(2) by simp
      have "(cont, x) \<in> set (mb_futures ?mb)" using n f by (metis nth_mem)
      then obtain name where "call_means (link_of c k) False x (cont_signal cont name)" using k'(4) kk by auto
      from session_answer_known [OF i _ this] oc f xs k'(1) kk obtain gap known where
        g: "cont = Cont_Messages gap" "(gap, xs, known) \<in> set (sys_answers s)" by auto
      have "node_waiting ?n ! n = Cont_Messages gap" "n < length (node_waiting ?n)"
        using k'(3) n f g(1) by (metis fst_conv nth_map, metis length_map)
      then have "query_gap (sec_node (sys_secondaries s ! j)) n = Some gap"
        using True M(2) by (auto simp: query_gap_def node_waiting_def)
      then show ?thesis using sys_takes_answer [OF ok M(1) st' [unfolded xs] _ g(2)] by blast
    next
      case no: False
      show ?thesis
      proof (cases "sns_session ?n")
        case None
        then have "n' = ?n" using st by simp
        moreover have "sn_step (sec_node (sys_secondaries s ! j)) (SN_SessionEvent MS_Invalidated) = Some (?n, [])"
          using None M(2) by simp
        ultimately show ?thesis using sys_takes_quiet [OF ok M(1), of "SN_SessionEvent MS_Invalidated"] by simp
      next
        case (Some ses)
        then have "quiet ?ev" using no by (cases oc) simp_all
        then show ?thesis using sys_takes_quiet [OF ok M(1) st'] by blast
      qed
    qed
  qed
qed

lemma cl_inv_cl_continue:
  assumes i: "cl_inv t c s [] 0 []" and t: "t \<le> 2 ^ 64" and w: "mn_within (cl_master c) rest"
    and out: "cl_continue alloc draw j n c = Some c'"
  shows "cl_follows t c s rest c'"
proof (cases "length (cl_members c) \<le> j \<or> length (mb_futures (cl_members c ! j)) \<le> n \<or> mb_connection (cl_members c ! j) = None")
  case True
  then have "c' = c" using out by (auto simp: cl_continue_def Let_def split: if_splits)
  then show ?thesis using cl_follows_same [OF i w] by simp
next
  case False
  let ?mb = "cl_members c ! j"
  obtain k where k: "mb_connection ?mb = Some k" using False by auto
  have j: "j < length (cl_members c)" and n: "n < length (mb_futures ?mb)" using False by simp_all
  show ?thesis
  proof (cases "future_outcome c k False (snd (mb_futures ?mb ! n))")
    case None
    then show ?thesis using out False k cl_follows_same [OF i w] by (simp add: cl_continue_def Let_def)
  next
    case (Some oc)
    then show ?thesis
      using out False k by (intro cl_follows_member [OF i t w member_continues [OF i w j n k Some]]) (simp add: cl_continue_def Let_def)
  qed
qed


section \<open>Connecting\<close>

lemma link_facts_Connection: "link_facts C A (co_link (Connection_create j))"
  by (simp add: Connection_create_def link_facts_create)

lemma cl_inv_new_connection:
  assumes i: "cl_inv t c s [] 0 []" and j: "j < length (cl_members c)"
  shows "cl_inv t (c\<lparr>cl_connections := cl_connections c @ [Connection_create j]\<rparr>) s [] 0 []"
    "cl_keeps c (c\<lparr>cl_connections := cl_connections c @ [Connection_create j]\<rparr>)"
proof -
  let ?c = "c\<lparr>cl_connections := cl_connections c @ [Connection_create j]\<rparr>"
  let ?l = "length (cl_connections c)"
  have lk: "link_of ?c k = link_of c k" if "k < ?l" for k using that by (simp add: link_of_def nth_append)
  have sec: "co_secondary (cl_connections ?c ! k) = co_secondary (cl_connections c ! k)" if "k < ?l" for k
    using that by (simp add: nth_append)
  have new: "link_of ?c ?l = co_link (Connection_create j)" "co_secondary (cl_connections ?c ! ?l) = j"
    by (simp_all add: link_of_def Connection_create_def)
  have sent: "ln_sent (co_link (Connection_create j)) b = []" for b by (simp add: Connection_create_def Link_create_def)
  have "cl_links t ?c s"
    unfolding cl_links_def
  proof (intro allI impI)
    fix k
    assume "k < length (cl_connections ?c)"
    then consider "k < ?l" | "k = ?l" by fastforce
    then show "co_secondary (cl_connections ?c ! k) < length (cl_members ?c) \<and>
        (\<forall>b. length (ln_sent (link_of ?c k) b) \<le> t) \<and>
        link_facts (call_known s) (answer_known s (mb_node (cl_members ?c ! co_secondary (cl_connections ?c ! k)))) (link_of ?c k)"
    proof cases
      case 1
      then show ?thesis using i unfolding cl_inv_def cl_links_def lk [OF 1] sec [OF 1] by simp
    next
      case 2
      then show ?thesis using j sent link_facts_Connection new by simp
    qed
  qed
  moreover have "cl_matches ?c s" using i by (simp add: cl_inv_def cl_matches_def)
  moreover have reg: "cl_registered c" using i by (simp add: cl_inv_def)
  then have "cl_registered ?c" by (auto simp: cl_registered_def)
  moreover have "cl_queries ?c"
  proof -
    have "query_at ?c gap e p" if "query_at c gap e p" for gap e p
    proof -
      have "cl_endpoints c ! e < ?l" using that reg by (simp add: query_at_def cl_registered_def)
      then show ?thesis using that lk by (simp add: query_at_def)
    qed
    then show ?thesis using i by (simp add: cl_inv_def cl_queries_def)
  qed
  moreover have "serves ?c = serves c" by (simp add: serves_def fun_eq_iff)
  then have "cl_calls ?c []" "cl_oks ?c"
  proof -
    assume sv: "serves ?c = serves c"
    have "(serves c a k \<and> k < Suc ?l \<and> call_means (link_of ?c k) True x f)"
      if "serves c a k \<and> k < ?l \<and> call_means (link_of c k) True x f" for a k x f using that lk by simp
    then have lift: "\<forall>(a, k, x) \<in> X. serves c a k \<and> k < Suc ?l \<and> call_means (link_of ?c k) True x f"
      if "\<forall>(a, k, x) \<in> X. serves c a k \<and> k < ?l \<and> call_means (link_of c k) True x f" for X f using that by blast
    have same: "request_message ?c q = request_message c q" "futures_of ?c q = futures_of c q" for q
      by (simp_all add: request_message_def futures_of_def)
    have calls: "length (cl_futures c) = length (mn_requests (cl_master c))"
      "request_sent (cl_master c) q = map fst (futures_of c q)"
      "\<forall>(a, k, x) \<in> set (futures_of c q). serves c a k \<and> k < ?l \<and> call_means (link_of c k) True x (request_message c q)" for q
      using i by (simp_all add: cl_inv_def cl_calls_def)
    show "cl_calls ?c []"
      unfolding cl_calls_def sv same using calls(1,2) lift [OF calls(3)] by simp
    have "peer_node ?c k = peer_node c k" if "k < ?l" for k using sec [OF that] by (simp add: peer_node_def)
    then have "\<exists>k < Suc ?l. serves c a k \<and> has_message (peer_node ?c k) m"
      if "\<exists>k < ?l. serves c a k \<and> has_message (peer_node c k) m" for a m using that by (metis less_SucI)
    then show "cl_oks ?c" using i by (simp add: cl_inv_def cl_oks_def sv)
  qed
  moreover have "member_ok ?c a []" if "member_ok c a []" for a
    unfolding member_ok_def
  proof (intro allI impI)
    fix session
    assume "sns_session (mb_node (cl_members ?c ! a)) = Some session"
    then obtain k where "k < ?l" "mb_connection (cl_members c ! a) = Some k" "co_secondary (cl_connections c ! k) = a"
      "mss_waiting session = map fst (mb_futures (cl_members c ! a))"
      "\<forall>(cont, x) \<in> set (mb_futures (cl_members c ! a)). \<exists>name. call_means (link_of c k) False x (cont_signal cont name)"
      using \<open>member_ok c a []\<close> by (auto simp: member_ok_def)
    then show "\<exists>k < length (cl_connections ?c). mb_connection (cl_members ?c ! a) = Some k \<and> co_secondary (cl_connections ?c ! k) = a \<and>
        mss_waiting session = map fst (mb_futures (cl_members ?c ! a)) @ concat (map session_calls []) \<and>
        (\<forall>(cont, x) \<in> set (mb_futures (cl_members ?c ! a)). \<exists>name. call_means (link_of ?c k) False x (cont_signal cont name))"
      using lk sec by (intro exI [of _ k]) simp
  qed
  ultimately show "cl_inv t ?c s [] 0 []" using i by (simp add: cl_inv_def)
  show "cl_keeps c ?c" using lk sec by (simp add: cl_keeps_def)
qed

lemma quiet_member_takes:
  assumes i: "cl_inv t c s [] 0 []" and w: "mn_within (cl_master c) rest" and j: "j < length (cl_members c)" and q: "quiet ev"
    and same: "\<And>n out. sn_step (mb_node (cl_members c ! j)) ev = Some (n, out) \<Longrightarrow>
      sns_session n = sns_session (mb_node (cl_members c ! j)) \<and>
      waiting_left ev (mb_node (cl_members c ! j)) = node_waiting (mb_node (cl_members c ! j))"
    and no: "\<And>req now. ev \<noteq> SN_SessionEvent (MS_Incoming req now)"
  shows "member_takes c s j (cl_members c ! j) ev"
proof -
  have mt: "cl_matches c s" using i by (simp add: cl_inv_def)
  note M = member_matches [OF mt j]
  have ok: "sys_ok s" "length (mn_requests (sys_master s)) < 2 ^ 64"
    using mt mn_within_length [OF w] by (simp_all add: cl_matches_def)
  show ?thesis
  proof (rule member_takesI [OF j refl])
    fix n o'
    assume st: "sn_step (mb_node (cl_members c ! j)) ev = Some (n, o')"
    show "sys_takes s j n" using sys_takes_quiet [OF ok M(1), of ev n o'] st q M(2) by simp
    assume "sns_session n \<noteq> None"
    then show "session_calls_ok c j (cl_members c ! j) (waiting_left ev (mb_node (cl_members c ! j)))"
      using same [OF st] member_session_calls [OF i j] by simp
  qed (use no in simp)
qed

lemma failed_connection_takes:
  assumes "cl_inv t c s [] 0 []" "mn_within (cl_master c) rest" "j < length (cl_members c)"
    "sns_connects (mb_node (cl_members c ! j)) \<noteq> 0"
  shows "member_takes c s j (cl_members c ! j) (SN_Connected True)"
  by (rule quiet_member_takes [OF assms(1-3)]) (use assms(4) in \<open>auto simp: onConnected_def\<close>)

lemma timer_takes:
  assumes "cl_inv t c s [] 0 []" "mn_within (cl_master c) rest" "j < length (cl_members c)"
  shows "member_takes c s j (cl_members c ! j) SN_TimerOver"
  by (rule quiet_member_takes [OF assms]) (auto simp: reconnectToMaster_def split: if_splits)

text \<open>The cluster and the member when a connection attempt has succeeded.\<close>

abbreviation connecting :: "Cluster \<Rightarrow> nat \<Rightarrow> Cluster" where
  "connecting c j \<equiv> c\<lparr>cl_connections := cl_connections c @ [Connection_create j]\<rparr>"

abbreviation connecting_member :: "Cluster \<Rightarrow> nat \<Rightarrow> Member" where
  "connecting_member c j \<equiv> (cl_members c ! j)\<lparr>mb_connection := Some (length (cl_connections c)), mb_futures := []\<rparr>"

lemma connection_takes:
  assumes i: "cl_inv t c s [] 0 []" and w: "mn_within (cl_master c) rest" and j: "j < length (cl_members c)"
    and n: "sns_connects (mb_node (cl_members c ! j)) \<noteq> 0"
  shows "member_takes (connecting c j) s j (connecting_member c j) (SN_Connected False)"
proof -
  note N = cl_inv_new_connection [OF i j]
  have mt: "cl_matches (connecting c j) s" using N(1) by (simp add: cl_inv_def)
  have j': "j < length (cl_members (connecting c j))" using j by simp
  note M = member_matches [OF mt j']
  have sy: "sys_ok s" "length (mn_requests (sys_master s)) < 2 ^ 64"
    using mt mn_within_length [OF w] by (simp_all add: cl_matches_def)
  show ?thesis
  proof (rule member_takesI [OF j'])
    show "mb_node (connecting_member c j) = mb_node (cl_members (connecting c j) ! j)" by simp
    fix n' o'
    assume st: "sn_step (mb_node (connecting_member c j)) (SN_Connected False) = Some (n', o')"
    show "sys_takes s j n'" using sys_takes_quiet [OF sy M(1), of "SN_Connected False" n' o'] st M(2) by simp
    show "session_calls_ok (connecting c j) j (connecting_member c j) (waiting_left (SN_Connected False) (mb_node (connecting_member c j)))"
      using n by (simp add: session_calls_ok_def Connection_create_def)
  qed simp
qed

lemma cl_inv_cl_connected:
  assumes i: "cl_inv t c s [] 0 []" and t: "t \<le> 2 ^ 64" and w: "mn_within (cl_master c) rest"
    and out: "cl_connected alloc draw j ec c = Some c'"
  shows "cl_follows t c s rest c'"
proof (cases "length (cl_members c) \<le> j \<or> sns_connects (mb_node (cl_members c ! j)) = 0")
  case True
  then show ?thesis using out cl_follows_same [OF i w] by (simp add: cl_connected_def)
next
  case False
  then have j: "j < length (cl_members c)" and n: "sns_connects (mb_node (cl_members c ! j)) \<noteq> 0" by simp_all
  show ?thesis
  proof (cases ec)
    case True
    then show ?thesis
      using out False by (intro cl_follows_member [OF i t w failed_connection_takes [OF i w j n]]) (simp add: cl_connected_def)
  next
    case ok: False
    note N = cl_inv_new_connection [OF i j]
    have "member_event alloc draw j (SN_Connected False)
        (connecting c j\<lparr>cl_members := (cl_members (connecting c j))[j := connecting_member c j]\<rparr>) = Some c'"
      using out False ok by (simp add: cl_connected_def)
    then have "cl_follows t (connecting c j) s rest c'"
      using w by (intro cl_follows_member [OF N(1) t _ connection_takes [OF i w j n]]) simp_all
    then show ?thesis using N(2) cl_keeps_trans unfolding cl_follows_def by blast
  qed
qed

section \<open>Pings\<close>

lemma cl_inv_pings:
  assumes "cl_inv t c s [] 0 []" "t \<le> 2 ^ 64" "mn_within (cl_master c) rest"
    "perform_all (\<lambda>(e, t) c. map_option snd
       (call_endpoint alloc draw (connection_of c e) True (Req_Ping (Request_Ping_create t)) c)) pings c = Some c'"
  shows "cl_follows t c s rest c'"
  using assms
proof (induction pings arbitrary: c)
  case Nil
  then show ?case by (simp add: cl_follows_same)
next
  case (Cons p ps)
  obtain e u where p: "p = (e, u)" by (cases p)
  obtain x c1 where c1: "call_endpoint alloc draw (connection_of c e) True (Req_Ping (Request_Ping_create u)) c = Some (x, c1)"
    "perform_all (\<lambda>(e, t) c. map_option snd
       (call_endpoint alloc draw (connection_of c e) True (Req_Ping (Request_Ping_create t)) c)) ps c1 = Some c'"
    using Cons.prems(4) p by (auto split: option.splits)
  have "call_known s (Req_Ping (Request_Ping_create u))" by simp
  note C = cl_inv_call [OF Cons.prems(1,2) c1(1) this]
  have w1: "mn_within (cl_master c1) rest" using C(2) Cons.prems(3) by (simp add: cl_leads_def)
  have "cl_follows t c1 s rest c'" by (rule Cons.IH [OF C(1) Cons.prems(2) w1 c1(2)])
  then show ?case using cl_leads_keeps [OF C(2)] cl_keeps_trans unfolding cl_follows_def by blast
qed


section \<open>Every step\<close>

text \<open>What an event asks of the master that counts against its bounds.\<close>

fun asked_of :: "cl_event \<Rightarrow> mn_event list" where
  "asked_of CL_Accept = [MN_AddSecondary]"
| "asked_of (CL_AddMessage message w) = [MN_AddMessage message w]"
| "asked_of _ = []"

lemma add_secondary_ready:
  assumes i: "cl_inv t c s [] 0 []" and n: "n < length (mn_posted (cl_master c))" "mn_posted (cl_master c) ! n = T_AddSecondary"
    and k: "k < length (cl_connections c)" "k \<notin> set (cl_endpoints c)"
  shows "master_ready c (MN_RunPosted n) (c\<lparr>cl_endpoints := cl_endpoints c @ [k]\<rparr>)"
proof -
  let ?c0 = "c\<lparr>cl_endpoints := cl_endpoints c @ [k]\<rparr>"
  have "cl_calls c []" using i by (simp add: cl_inv_def)
  then have len: "length (cl_futures c) = length (mn_requests (cl_master c))" by (simp add: cl_calls_def)
  have "runs_task (cl_master c) (MN_RunPosted n) T_AddSecondary" using n by (auto simp: runs_task_def)
  moreover have "futures_of ?c0 q = futures_of c q" for q by (simp add: futures_of_def)
  ultimately show ?thesis using k len by (simp add: master_ready_def)
qed

lemma add_message_ready:
  assumes i: "cl_inv t c s [] 0 []"
  shows "master_ready c (MN_AddMessage message wc) (c\<lparr>cl_futures := cl_futures c @ [[]]\<rparr>)"
proof -
  let ?c0 = "c\<lparr>cl_futures := cl_futures c @ [[]]\<rparr>"
  have "cl_calls c []" using i by (simp add: cl_inv_def)
  then have len: "length (cl_futures c) = length (mn_requests (cl_master c))" by (simp add: cl_calls_def)
  have "futures_of ?c0 q = futures_of c q" for q by (simp add: futures_of_def nth_append)
  then show ?thesis using len by (simp add: master_ready_def runs_task_def)
qed

lemma plain_events_ready:
  assumes i: "cl_inv t c s [] 0 []"
  shows "master_ready c MN_AddSecondary c" "master_ready c (MN_WaitOver q) c"
    "\<not> (n < length (mn_posted (cl_master c)) \<and> mn_posted (cl_master c) ! n = T_AddSecondary) \<Longrightarrow>
       master_ready c (MN_RunPosted n) c"
  by (rule master_ready_plain [OF i]; auto simp: runs_task_def)+

lemma cl_step_follows:
  assumes i: "cl_inv t c s [] 0 []" and t: "Suc t \<le> 2 ^ 64" and w: "mn_within (cl_master c) (asked_of ev @ rest)"
    and st: "cl_step alloc draw c ev = Some c'"
  shows "cl_follows (Suc t) c s rest c'"
proof -
  have t': "t \<le> 2 ^ 64" using t by simp
  have later: ?thesis if "cl_follows t c s rest c'" using cl_follows_time [OF that] by simp
  show ?thesis
  proof (cases ev)
    case CL_Accept
    then have ev: "master_event alloc draw MN_AddSecondary c = Some c'" "mn_within (cl_master c) (MN_AddSecondary # rest)"
      using st w by simp_all
    then show ?thesis using later cl_follows_master [OF i t' ev(2) plain_events_ready(1) [OF i] ev(1)] by blast
  next
    case (CL_Master n k)
    have w': "mn_within (cl_master c) rest" using w CL_Master by simp
    show ?thesis
    proof (cases "n < length (mn_posted (cl_master c)) \<and> mn_posted (cl_master c) ! n = T_AddSecondary")
      case True
      show ?thesis
      proof (cases "length (cl_connections c) \<le> k \<or> k \<in> set (cl_endpoints c)")
        case skip: True
        then show ?thesis using True later st CL_Master cl_follows_same [OF i w'] by simp
      next
        case False
        then have ev: "master_event alloc draw (MN_RunPosted n) (c\<lparr>cl_endpoints := cl_endpoints c @ [k]\<rparr>) = Some c'"
          using True st CL_Master by simp
        have "master_ready c (MN_RunPosted n) (c\<lparr>cl_endpoints := cl_endpoints c @ [k]\<rparr>)"
          using True False by (intro add_secondary_ready [OF i]) simp_all
        from cl_follows_master [OF i t' mn_within_quiet [OF _ _ w'] this ev] show ?thesis using later by simp
      qed
    next
      case False
      then have ev: "master_event alloc draw (MN_RunPosted n) c = Some c'" using st CL_Master by auto
      from cl_follows_master [OF i t' mn_within_quiet [OF _ _ w'] plain_events_ready(3) [OF i False] ev] show ?thesis using later by simp
    qed
  next
    case (CL_AddMessage message wc)
    then show ?thesis using later st w cl_follows_master [OF i t' _ add_message_ready [OF i], of message wc rest alloc draw c'] by simp
  next
    case (CL_WaitOver q)
    then have ev: "master_event alloc draw (MN_WaitOver q) c = Some c'" "mn_within (cl_master c) rest" using st w by simp_all
    from cl_follows_master [OF i t' mn_within_quiet [OF _ _ ev(2)] plain_events_ready(2) [OF i] ev(1)] show ?thesis using later by simp
  next
    case (CL_Answer q n)
    then show ?thesis using later st w cl_inv_cl_answer [OF i t'] by simp
  next
    case (CL_Ping u)
    have w': "mn_within (cl_master c) rest" using w CL_Ping by simp
    show ?thesis
    proof (cases "pingSecondaries u (cl_master c)")
      case (Inl x)
      then show ?thesis using later st CL_Ping cl_follows_same [OF i w'] by (simp add: cl_ping_def)
    next
      case (Inr pings)
      then show ?thesis using later st CL_Ping cl_inv_pings [OF i t' w'] by (simp add: cl_ping_def)
    qed
  next
    case (CL_Connected j ec)
    then show ?thesis using later st w cl_inv_cl_connected [OF i t'] by simp
  next
    case (CL_TimerOver j)
    have w': "mn_within (cl_master c) rest" using w CL_TimerOver by simp
    show ?thesis
    proof (cases "length (cl_members c) \<le> j")
      case True
      then show ?thesis using later st CL_TimerOver cl_follows_same [OF i w'] by simp
    next
      case False
      then have j: "j < length (cl_members c)" by simp
      have "cl_follows t c s rest c'"
        using False st CL_TimerOver by (intro cl_follows_member [OF i t' w' timer_takes [OF i w' j]]) simp
      then show ?thesis by (rule later)
    qed
  next
    case (CL_Continue j n)
    then show ?thesis using later st w cl_inv_cl_continue [OF i t'] by simp
  next
    case (CL_Link k lev now)
    then show ?thesis using st w cl_inv_cl_link [OF i t] by simp
  qed
qed

lemma cl_inv_create: "cl_inv 0 (cl_create names) (sys_create names) [] 0 []"
proof -
  let ?c = "cl_create names"
  have "cl_matches ?c (sys_create names)"
    using sys_create_ok by (simp add: cl_matches_def cl_create_def) (simp add: sys_create_def)
  moreover have "request_sent MasterNode_create q = []" "request_oks MasterNode_create q = []" for q
    by (simp_all add: request_sent_def request_oks_def MasterNode_create_def)
  moreover have "member_ok ?c a []" if "a < length names" for a
    using that by (simp add: member_ok_def cl_create_def SecondaryNodeS_run_def SecondaryNodeS_create_def reconnectToMaster_def)
  ultimately show ?thesis
    by (simp add: cl_inv_def cl_links_def cl_registered_def cl_queries_def cl_calls_def cl_oks_def futures_of_def)
      (simp add: cl_create_def MasterNode_create_def)
qed

lemma cl_run_step_simps [simp]:
  "cl_run_step alloc draw None ev = None" "cl_run_step alloc draw (Some c) ev = cl_step alloc draw c ev"
  "run_steps (cl_run_step alloc draw) None evs = None"
proof -
  show n: "cl_run_step alloc draw None ev = None" for ev by (simp add: cl_run_step_def)
  show "cl_run_step alloc draw (Some c) ev = cl_step alloc draw c ev" by (simp add: cl_run_step_def)
  show "run_steps (cl_run_step alloc draw) None evs = None" by (induction evs) (simp_all add: n)
qed

lemma cl_run_Cons:
  assumes "run_steps (cl_run_step alloc draw) (Some c) (ev # evs) = Some c'"
  shows "\<exists>c1. cl_step alloc draw c ev = Some c1 \<and> run_steps (cl_run_step alloc draw) (Some c1) evs = Some c'"
  using assms by (cases "cl_step alloc draw c ev") simp_all

lemma cl_run_follows:
  assumes "cl_inv t c s [] 0 []" "t + length evs \<le> 2 ^ 64" "mn_within (cl_master c) (concat (map asked_of evs) @ rest)"
    "run_steps (cl_run_step alloc draw) (Some c) evs = Some c'"
  shows "\<exists>s'. sys_reaches s s' \<and> cl_inv (t + length evs) c' s' [] 0 [] \<and> mn_within (cl_master c') rest"
  using assms
proof (induction evs arbitrary: t c s)
  case Nil
  then show ?case by (intro exI [of _ s]) simp
next
  case (Cons ev evs)
  obtain c1 where c1: "cl_step alloc draw c ev = Some c1" "run_steps (cl_run_step alloc draw) (Some c1) evs = Some c'"
    using cl_run_Cons [OF Cons.prems(4)] by blast
  have "Suc t \<le> 2 ^ 64" "mn_within (cl_master c) (asked_of ev @ concat (map asked_of evs) @ rest)" using Cons.prems(2,3) by simp_all
  from cl_step_follows [OF Cons.prems(1) this c1(1)] obtain s1 where
    s1: "sys_reaches s s1" "cl_inv (Suc t) c1 s1 [] 0 []" "mn_within (cl_master c1) (concat (map asked_of evs) @ rest)"
    unfolding cl_follows_def by blast
  with Cons.IH [OF s1(2) _ s1(3) c1(2)] Cons.prems(2) obtain s' where
    "sys_reaches s1 s'" "cl_inv (Suc t + length evs) c' s' [] 0 []" "mn_within (cl_master c') rest" by auto
  then show ?case using sys_reaches_trans [OF s1(1)] by auto
qed


section \<open>The run of the system behind a run of the cluster\<close>

text \<open>The counts of the master are those of its events.\<close>

lemma runTask_adds:
  assumes "runTask t m = Some (m', out)"
  shows "length (mn_endpoints m') = length (mn_endpoints m) + (if t = T_AddSecondary then 1 else 0)"
  using runTask_endpoints(1) [OF assms] by simp

lemma mn_step_counts:
  assumes st: "mn_step m ev = Some (Inr (m', out))"
  shows "mn_adds m + connections_of ev = mn_adds m'" "length (mn_requests m) + messages_of ev = length (mn_requests m')"
proof -
  show "mn_adds m + connections_of ev = mn_adds m'"
    using st
  proof (cases rule: mn_step_cases)
    case same
    have "connections_of ev = 0" using same(2) st by (cases ev) (auto simp: addSecondary_def)
    then show ?thesis using same(1,2) by (simp add: mn_adds_def)
  next
    case accepted
    then show ?thesis by (simp add: mn_adds_def)
  next
    case (task n)
    have e: "length (mn_endpoints m') = length (mn_endpoints m) + (if mn_posted m ! n = T_AddSecondary then 1 else 0)"
      "mn_posted m' = take_nth n (mn_posted m)"
      using runTask_adds [OF task(3)] runTask_endpoints(2) [OF task(3)] by simp_all
    have "mset (mn_posted m) = add_mset (mn_posted m ! n) (mset (take_nth n (mn_posted m)))"
      using mset_map_take_nth [OF task(2), of id] by simp
    then have "size (filter_mset (\<lambda>t. t = T_AddSecondary) (mset (mn_posted m))) =
        (if mn_posted m ! n = T_AddSecondary then 1 else 0) + size (filter_mset (\<lambda>t. t = T_AddSecondary) (mset (take_nth n (mn_posted m))))"
      by simp
    then have "length (filter (\<lambda>t. t = T_AddSecondary) (mn_posted m)) =
        (if mn_posted m ! n = T_AddSecondary then 1 else 0) + length (filter (\<lambda>t. t = T_AddSecondary) (take_nth n (mn_posted m)))"
      by (simp flip: mset_filter)
    then show ?thesis using e task(1) by (simp add: mn_adds_def)
  next
    case (signal k sg)
    then show ?thesis
      by (cases "(k, mn_endpoints m ! k, sg, m)" rule: onSignal.cases) (simp_all add: mn_adds_def mn_post_def)
  qed
  show "length (mn_requests m) + messages_of ev = length (mn_requests m')"
    using st
  proof (cases ev)
    case (MN_RunPosted n)
    then show ?thesis using st runTask_calls(1) by (fastforce split: if_splits)
  next
    case (MN_Signal k sg)
    show ?thesis
    proof (cases "k < length (mn_endpoints m)")
      case True
      have "mn_step m (MN_Signal k sg) = Some (Inr (m', out))" using st MN_Signal by simp
      from mn_step_signals(1) [OF this True] show ?thesis using MN_Signal by (simp only: onSignal_fields messages_of.simps)
    qed (use st MN_Signal in simp)
  next
    case (MN_AddMessage message w)
    then obtain f where "mn_addMessage message w m = Inr (f, m', out)" using st by (cases "mn_addMessage message w m") auto
    then show ?thesis using MN_AddMessage by (auto simp: mn_addMessage_def Let_def split: prod.splits sum.splits)
  next
    case (MN_Answer q n v)
    then show ?thesis using st by (auto simp: mn_request_def split: if_splits sum.splits)
  next
    case (MN_WaitOver q)
    then show ?thesis using st by (auto simp: mn_request_def split: if_splits sum.splits)
  qed (auto simp: addSecondary_def)
qed

lemma sys_secondary_master: "sys_secondary j ev synced s = Some s' \<Longrightarrow> sys_master s' = sys_master s"
  by (auto simp: sys_secondary_def Let_def split: option.splits)

lemma sys_step_counts:
  assumes st: "sys_step s ev = Some s'" and w: "mn_within (sys_master s') rest"
  shows "mn_within (sys_master s) (master_events [ev] @ rest)"
proof (cases ev)
  case (Sys_Master mev)
  then obtain m' out where "mn_step (sys_master s) mev = Some (Inr (m', out))" "sys_master s' = m'"
    using st by (auto simp: sys_step_def split: option.splits sum.splits)
  from mn_step_counts [OF this(1)] this(2) w show ?thesis using Sys_Master by (simp add: mn_within_def)
next
  case (Sys_Secondary j sev)
  then show ?thesis using st w sys_secondary_master by (auto simp: sys_step_def split: if_splits)
next
  case (Sys_Deliver j k p now)
  then show ?thesis using st w sys_secondary_master by (auto simp: sys_step_def split: if_splits prod.splits)
next
  case (Sys_Answer j k n)
  then show ?thesis using st w sys_secondary_master by (auto simp: sys_step_def split: if_splits prod.splits)
qed

lemma sys_run_counts:
  "run_steps sys_run_step (Some s) evs = Some s' \<Longrightarrow> mn_within (sys_master s') [] \<Longrightarrow> mn_within (sys_master s) (master_events evs)"
proof (induction evs arbitrary: s)
  case (Cons ev evs)
  have none: "run_steps sys_run_step None evs = None" for evs
    by (induction evs) (simp_all add: sys_run_step_eq)
  obtain s1 where s1: "sys_step s ev = Some s1"
    using Cons.prems(1) none by (cases "sys_step s ev") (simp_all add: sys_run_step_eq)
  then have "mn_within (sys_master s1) (master_events evs)" using Cons.IH Cons.prems by (simp add: sys_run_step_eq)
  from sys_step_counts [OF s1 this] show ?case using master_events_append [of "[ev]" evs] by simp
qed simp

text \<open>What a run of the cluster leads to.\<close>

definition cl_bounded :: "cl_event list \<Rightarrow> bool" where
  "cl_bounded evs \<longleftrightarrow> length evs \<le> 2 ^ 64 \<and> mn_within MasterNode_create (concat (map asked_of evs))"

lemma cl_run_inv:
  assumes "cl_run alloc draw names evs = Some c" "cl_bounded evs"
  shows "\<exists>sevs s. mn_within MasterNode_create (master_events sevs) \<and> sys_run names sevs = Some s \<and>
     cl_inv (length evs) c s [] 0 [] \<and> mn_within (cl_master c) []"
proof -
  have w: "mn_within (cl_master (cl_create names)) (concat (map asked_of evs) @ [])"
    using assms(2) by (simp add: cl_bounded_def cl_create_def)
  have "0 + length evs \<le> 2 ^ 64" using assms(2) by (simp add: cl_bounded_def)
  from cl_run_follows [OF cl_inv_create this w assms(1)] obtain s where
    s: "sys_reaches (sys_create names) s" "cl_inv (length evs) c s [] 0 []" "mn_within (cl_master c) []" by auto
  then obtain sevs where sevs: "sys_run names sevs = Some s" unfolding sys_reaches_def by blast
  have "sys_master s = cl_master c" using s(2) by (simp add: cl_inv_def cl_matches_def)
  then have "mn_within MasterNode_create (master_events sevs)"
    using sys_run_counts [OF sevs] s(3) sys_create_ok(2) by simp
  then show ?thesis using sevs s(2,3) by blast
qed

end
