(* ===== verification/ClusterResults.thy ===== *)
theory ClusterResults
  imports ClusterRuns
begin

text \<open>
  What a run of the whole program guarantees, from the bytes on the connections to the messages the
  nodes show; evaluated runs of one secondary.
\<close>

section \<open>The members\<close>

lemma cl_run_master:
  assumes "cl_run alloc draw names evs = Some c" "cl_bounded evs"
  shows "mn_ok (cl_master c)" "length (mn_requests (cl_master c)) < 2 ^ 64"
proof -
  from cl_run_inv [OF assms] obtain s where "cl_inv (length evs) c s [] 0 []" "mn_within (cl_master c) []" by blast
  then show "mn_ok (cl_master c)" "length (mn_requests (cl_master c)) < 2 ^ 64"
    using cl_inv_master by (auto simp: mn_within_def)
qed

lemma cl_matches_member:
  assumes m: "cl_matches c s" and mb: "mb \<in> set (cl_members c)"
  shows "\<exists>sec \<in> set (sys_secondaries s). sec_node sec = mb_node mb \<and> sec_ok (cl_master c) sec"
proof -
  have "mb_node mb \<in> set (map sec_node (sys_secondaries s))"
    using m mb by (simp add: cl_matches_def)
  then show ?thesis using m by (auto simp: cl_matches_def sys_ok_def)
qed

lemma has_message_value:
  assumes m: "cl_matches c s" and mb: "mb \<in> set (cl_members c)" and h: "has_message (mb_node mb) i"
  shows "unat i < length (mn_messages (cl_master c)) \<and>
     ss_messages (sns_storage (mb_node mb)) i = Some (mn_messages (cl_master c) ! unat i)"
proof -
  from cl_matches_member [OF m mb] obtain sec where sec: "sec_node sec = mb_node mb" "sec_ok (cl_master c) sec" by blast
  obtain v where v: "ss_messages (sns_storage (mb_node mb)) i = Some v" using h by (auto simp: has_message_def)
  then have "ms_messages (mn_storage (cl_master c)) i = Some v"
    using sec by (auto simp: sec_ok_def map_le_def dom_def)
  moreover have "mn_ok (cl_master c)" using m unfolding cl_matches_def sys_ok_def by metis
  ultimately show ?thesis using v by (simp add: store_lookup mn_messages_def split: if_splits)
qed

section \<open>The confirmations of a request\<close>

lemma serves_unique:
  assumes "cl_registered c" "serves c i k" "serves c j k"
  shows "i = j"
  using assms unfolding serves_def cl_registered_def by (metis distinct_conv_nth)

lemma request_oks_card:
  assumes ok: "mn_ok m" and w: "mn_within m []" and q: "q < length (mn_requests m)"
    and p: "ar_promise (run_request (mn_requests m ! q)) = VP_Value"
  shows "unat (ar_writeConcern (run_request (mn_requests m ! q))) \<le> card (set (request_oks m q))"
proof -
  let ?run = "mn_requests m ! q"
  have run: "ar_ok (run_request ?run) (run_oks ?run)" "run_ids ?run \<subseteq> set (mn_endpoints m)"
    using ok q by (simp_all add: mn_ok_def requests_ok_def)
  have "card (set (run_oks ?run)) \<le> card (set (mn_endpoints m))"
    using run(2) by (intro card_mono) (auto simp: run_ids_def)
  also have "\<dots> \<le> length (mn_endpoints m)" by (rule card_length)
  also have "\<dots> < 2 ^ 31" using w by (simp add: mn_within_def mn_adds_def)
  finally have "card (set (run_oks ?run)) < 2 ^ 31" .
  then show ?thesis using run(1) p q by (simp add: ar_ok_def ar_core_def request_oks_def)
qed

lemma cl_oks_connections:
  assumes i: "cl_inv t c s [] j []" and q: "q < length (mn_requests (cl_master c))"
    and l: "length (mn_requests (cl_master c)) < 2 ^ 64"
  shows "\<exists>K \<subseteq> {..<length (cl_connections c)}. card K = card (set (request_oks (cl_master c) q)) \<and>
     (\<forall>k \<in> K. ss_messages (sns_storage (peer_node c k)) (word_of_nat q) = Some (mn_messages (cl_master c) ! q))"
proof -
  let ?ids = "set (request_oks (cl_master c) q)"
  note I = i [unfolded cl_inv_def]
  have ok: "mn_ok (cl_master c)" using i cl_inv_master by blast
  have mid: "ar_messageId (run_request (mn_requests (cl_master c) ! q)) = word_of_nat q"
    using ok q by (simp add: mn_ok_def store_ok_def)
  obtain f where f: "\<forall>a \<in> ?ids. f a < length (cl_connections c) \<and> serves c a (f a) \<and>
      has_message (peer_node c (f a)) (word_of_nat q)"
    using I mid unfolding cl_oks_def by metis
  have "inj_on f ?ids" using f I serves_unique [of c] by (metis inj_onI)
  then have "card (f ` ?ids) = card ?ids" by (rule card_image)
  moreover have "f ` ?ids \<subseteq> {..<length (cl_connections c)}" using f by auto
  moreover have "ss_messages (sns_storage (peer_node c k)) (word_of_nat q) = Some (mn_messages (cl_master c) ! q)"
    if k: "k \<in> f ` ?ids" for k
  proof -
    have "k < length (cl_connections c)" "has_message (peer_node c k) (word_of_nat q)" using f k by auto
    moreover from this have "cl_members c ! co_secondary (cl_connections c ! k) \<in> set (cl_members c)"
      using I by (simp add: cl_links_def)
    moreover have "cl_matches c s" using I by simp
    ultimately have v: "unat (word_of_nat q :: size_t) < length (mn_messages (cl_master c))"
      "ss_messages (sns_storage (peer_node c k)) (word_of_nat q) =
         Some (mn_messages (cl_master c) ! unat (word_of_nat q :: size_t))"
      using has_message_value unfolding peer_node_def by blast+
    moreover have "unat (word_of_nat q :: size_t) = q" using q l by (simp add: unat_of_nat take_bit_nat_eq_self)
    ultimately show ?thesis by simp
  qed
  ultimately show ?thesis by blast
qed

section \<open>Evaluated runs\<close>

text \<open>
  What the endpoints do with one \<^verbatim>\<open>AddMessage\<close> call on connection \<open>k\<close> when nothing is lost: the
  request is written and read, the answer is written and read.
\<close>

definition add_exchange :: "nat \<Rightarrow> string \<Rightarrow> cl_event list" where
  "add_exchange k m =
     map (\<lambda>(b, ev). CL_Link k (LN_Event b ev) 0)
       [(True, EP_RunSend 0), (True, EP_DelayExpired 0), (True, EP_RunWrite 0), (True, EP_Written False),
        (False, EP_FrameSizeRead (Some (size_bytes (word_of_nat (18 + length m))))),
        (False, EP_FrameRead (Some (request_frame_bytes 0 (Req_AddMessage (Request_AddMessage_create 0 m))))),
        (False, EP_RunAnswer 0), (False, EP_RunWrite 0), (False, EP_Written False),
        (True, EP_FrameSizeRead (Some (size_bytes 10))),
        (True, EP_FrameRead (Some (response_frame_bytes 0 (answer_response (A_AddMessage OK)))))]"

text \<open>One secondary connects, and a message with write concern \<open>w\<close> is sent to it.\<close>

definition add_events :: "size_t \<Rightarrow> cl_event list" where
  "add_events w = [CL_Connected 0 False, CL_Accept, CL_Master 0 0, CL_AddMessage ''m'' w] @ add_exchange 0 ''m''"

text \<open>
  Then the secondary loses the connection and comes back before the master has noticed, and the
  request is sent over the new connection as well.
\<close>

definition reconnected_events :: "cl_event list" where
  "reconnected_events =
     add_events 3 @
     [CL_Link 0 (LN_Event False (EP_FrameSizeRead None)) 0, CL_Connected 0 False, CL_Accept, CL_Master 0 1, CL_Answer 0 0] @
     add_exchange 1 ''m'' @ [CL_Answer 0 0]"

lemmas cluster_eval = link_eval link_eval_extra ep_onIncomingFrame_request ep_onIncomingFrame_response
  cl_create_def cl_connected_def member_event_def master_event_def cl_link_def cl_answer_def hear_def on_endpoint_def
  call_endpoint_def session_call_def set_link_def link_of_def connection_of_def endpoint_of_def drop_signal_def
  future_outcome_def Connection_create_def kArtificialSendDelayBounds_def kOutcomingRequestTimeout_def chooseSendDelay_def

lemmas nodes_eval = onConnected_def runMasterSession_def disconnectMasterSession_def sn_session_result_def MasterSession_run_def
  MasterSession_create_def askForMessages_def SecondaryStorage_getFirstGap_def first_gap_loop.simps SecondaryStorage_create_def
  SecondaryNodeS_run_def SecondaryNodeS_create_def reconnectToMaster_def onIncomingAddMessage_def
  SecondaryStorage_addMessage_def ms_fetch_add_def ms_insert_def umap_insert_def
  addSecondary_def addSecondaryImpl_def SecondaryNode_create_def MasterNode_create_def MasterStorage_create_def
  mn_addMessage_def MasterStorage_addMessage_def secondariesSnapshot_def mn_request_def mn_request_step_def
  Request_GetMessages_create_def Request_AddMessage_create_def OutCtx_AddMessage_onResponse_def Response_AddMessage_create_def

lemmas request_eval = AddMessageRequest_create_def ar_begin_def ar_start_def updateData_def satisfiedWriteConcern_def
  sendRequestToSecondaries_def needToSend_def AList.update.simps ar_onResponse_def ar_onResponseRecieved_def
  requestMarkSuccess_def vp_set_def allSecondariesSuccessfullyAnswered_def presentSecondaries_def event_oks_def

lemma frame_lengths:
  "length (request_frame_bytes i (Req_GetMessages q)) = 18"
  "length (request_frame_bytes i (Req_AddMessage r)) = 18 + length (ram_messageView r)"
  "length (response_frame_bytes i (Resp_AddMessage p)) = 10"
  by (simp_all add: request_frame_bytes_split response_frame_bytes_split constructRequestHeaderWoOwnership_def
      constructResponseHeaderWoOwnership_def request_payload_def response_payload_def Request_GetMessages_serializePayload_def
      Request_AddMessage_serializePayload_def Response_AddMessage_serializePayload_def serialize_eqs enum_bytes_def)

lemma add_payload: "Response_AddMessage_fromPayload (Some (response_payload (Resp_AddMessage p))) = Some p"
  by (simp add: response_payload_def resp_add.par_ser)

lemma size_evals:
  "\<not> (2::size_t) \<le> 1" "(2::size_t) - 1 = 1" "\<not> (1::size_t) \<le> 0" "\<not> (3::size_t) \<le> 1" "(3::size_t) - 1 = 2"
  "\<not> (2::size_t) \<le> 0"
  by (simp_all add: word_le_nat_alt)

lemma add_run:
  "\<exists>c. cl_run (\<lambda>_. True) (\<lambda>lo hi. lo) [''s''] (add_events 2 @ [CL_Answer 0 0]) = Some c \<and>
     mn_messages (cl_master c) = [''m''] \<and>
     map (\<lambda>run. ar_promise (run_request run)) (mn_requests (cl_master c)) = [VP_Value] \<and>
     map (\<lambda>run. ar_writeConcern (run_request run)) (mn_requests (cl_master c)) = [1] \<and>
     map co_secondary (cl_connections c) = [0] \<and> length (cl_members c) = 1"
  by (simp add: add_events_def add_exchange_def cluster_eval nodes_eval request_eval frame_lengths add_payload size_evals mn_messages_def)

lemma add_runE:
  obtains c where "cl_run (\<lambda>_. True) (\<lambda>lo hi. lo) [''s''] (add_events 2 @ [CL_Answer 0 0]) = Some c"
    "mn_messages (cl_master c) = [''m'']"
    "map (\<lambda>run. ar_promise (run_request run)) (mn_requests (cl_master c)) = [VP_Value]"
    "map (\<lambda>run. ar_writeConcern (run_request run)) (mn_requests (cl_master c)) = [1]"
    "map co_secondary (cl_connections c) = [0]" "length (cl_members c) = 1"
  using add_run by (elim exE conjE)

lemma add_run_bounded: "cl_bounded (add_events 2 @ [CL_Answer 0 0])"
  by (simp add: cl_bounded_def add_events_def add_exchange_def mn_within_def mn_ok_create)


lemmas failure_eval = SocketWrapper_invalidate_def ep_onInvalidated_def invalidateAllPendingRequests_def
  om_context_invalidate_def OutCtx_GetMessages_invalidate_def invalidatePromise_def promiseMarkFilled_def
  onEndpointInvalidated_def onSessionInvalidated_def cancel_timers_def

section \<open>Properties\<close>

text \<open>
C1: The program refines its abstract system. Whatever the clients, the connections, the timers and
the bytes on the connections do, every run of the master and the secondaries over their real
endpoints, in which each call is serialised, delayed, written, read, parsed and answered by the code
of \<^verbatim>\<open>libs/proto\<close>, leads to a state whose nodes are those of a run of the abstract system: what the
abstract network assumes of calls and answers is what the endpoints provide. (Fewer than \<open>2\<^sup>31\<close>
connections, \<open>2\<^sup>64 - 1\<close> messages and \<open>2\<^sup>64\<close> steps.)
\<close>

theorem cluster_refines_system:
  assumes "cl_run alloc draw names evs = Some c" and "cl_bounded evs"
  shows "\<exists>sevs s. mn_within MasterNode_create (master_events sevs) \<and> sys_run names sevs = Some s \<and>
     sys_master s = cl_master c \<and> map sec_node (sys_secondaries s) = map mb_node (cl_members c)"
proof -
  from cl_run_inv [OF assms] obtain sevs s where
    "mn_within MasterNode_create (master_events sevs)" "sys_run names sevs = Some s" "cl_matches c s"
    unfolding cl_inv_def by blast
  then show ?thesis unfolding cl_matches_def by blast
qed

theorem cluster_refines_system_witness:
  "\<exists>c sevs s. cl_run (\<lambda>_. True) (\<lambda>lo hi. lo) [''s''] (add_events 2 @ [CL_Answer 0 0]) = Some c \<and>
     mn_messages (cl_master c) = [''m''] \<and> sys_run [''s''] sevs = Some s \<and> sys_master s = cl_master c"
proof -
  from add_run obtain c where c:
    "cl_run (\<lambda>_. True) (\<lambda>lo hi. lo) [''s''] (add_events 2 @ [CL_Answer 0 0]) = Some c" "mn_messages (cl_master c) = [''m'']"
    by blast
  from cluster_refines_system [OF c(1) add_run_bounded] c show ?thesis by blast
qed

text \<open>
C2: What the nodes of the running program show is consistent. After any run over the real
connections, the chunk every secondary shows from id 0 exists and is a prefix of the list of the
master; a secondary that holds all messages shows exactly the master's list, and two secondaries
never show different messages under the same number.
\<close>

theorem cluster_shows_prefixes:
  assumes "cl_run alloc draw names evs = Some c" and "cl_bounded evs"
  shows "\<forall>mb \<in> set (cl_members c). \<exists>xs.
     SecondaryStorage_getContiguousChunk (sns_storage (mb_node mb)) 0 = Some xs \<and>
     prefix xs (mn_messages (cl_master c)) \<and>
     ((\<forall>i < length (mn_messages (cl_master c)). ss_messages (sns_storage (mb_node mb)) (word_of_nat i) \<noteq> None) \<longrightarrow>
        xs = mn_messages (cl_master c))"
proof
  fix mb
  assume mb: "mb \<in> set (cl_members c)"
  from cl_run_inv [OF assms] obtain s where m: "cl_matches c s" unfolding cl_inv_def by blast
  from cl_matches_member [OF m mb] obtain sec where sec: "sec_node sec = mb_node mb" "sec_ok (cl_master c) sec" by blast
  from sec_ok_view [OF cl_run_master [OF assms] sec(2)] sec(1) show "\<exists>xs.
     SecondaryStorage_getContiguousChunk (sns_storage (mb_node mb)) 0 = Some xs \<and>
     prefix xs (mn_messages (cl_master c)) \<and>
     ((\<forall>i < length (mn_messages (cl_master c)). ss_messages (sns_storage (mb_node mb)) (word_of_nat i) \<noteq> None) \<longrightarrow>
        xs = mn_messages (cl_master c))"
    by auto
qed

theorem cluster_shows_prefixes_witness:
  "\<exists>c. cl_run (\<lambda>_. True) (\<lambda>lo hi. lo) [''s''] (add_events 2 @ [CL_Answer 0 0]) = Some c \<and> length (cl_members c) = 1 \<and>
     (\<forall>mb \<in> set (cl_members c). \<exists>xs.
        SecondaryStorage_getContiguousChunk (sns_storage (mb_node mb)) 0 = Some xs \<and> prefix xs [''m''])"
proof -
  from add_run obtain c where c:
    "cl_run (\<lambda>_. True) (\<lambda>lo hi. lo) [''s''] (add_events 2 @ [CL_Answer 0 0]) = Some c"
    "mn_messages (cl_master c) = [''m'']" "length (cl_members c) = 1"
    by blast
  from cluster_shows_prefixes [OF c(1) add_run_bounded] c show ?thesis by fastforce
qed

text \<open>
C3: An acknowledged message is stored. In any run over the real connections, when the promise of
message \<open>q\<close> is kept, there are at least as many connections as the request had to wait for, each of
whose secondaries holds exactly that message under that id: no confirmation is counted that was not
given for this message, and none is counted twice.
\<close>

theorem acknowledged_messages_are_stored:
  assumes "cl_run alloc draw names evs = Some c" and "cl_bounded evs" and "q < length (mn_requests (cl_master c))"
    and "ar_promise (run_request (mn_requests (cl_master c) ! q)) = VP_Value"
  shows "\<exists>K \<subseteq> {..<length (cl_connections c)}.
     unat (ar_writeConcern (run_request (mn_requests (cl_master c) ! q))) \<le> card K \<and>
     (\<forall>k \<in> K. ss_messages (sns_storage (mb_node (cl_members c ! co_secondary (cl_connections c ! k)))) (word_of_nat q) =
        Some (mn_messages (cl_master c) ! q))"
proof -
  from cl_run_inv [OF assms(1,2)] obtain s where s: "cl_inv (length evs) c s [] 0 []" "mn_within (cl_master c) []" by blast
  have ok: "mn_ok (cl_master c)" using s(1) cl_inv_master by blast
  from cl_oks_connections [OF s(1) assms(3) cl_run_master(2) [OF assms(1,2)]] obtain K where
    K: "K \<subseteq> {..<length (cl_connections c)}" "card K = card (set (request_oks (cl_master c) q))"
      "\<forall>k \<in> K. ss_messages (sns_storage (peer_node c k)) (word_of_nat q) = Some (mn_messages (cl_master c) ! q)"
    by blast
  have "unat (ar_writeConcern (run_request (mn_requests (cl_master c) ! q))) \<le> card K"
    unfolding K(2) by (rule request_oks_card [OF ok s(2) assms(3,4)])
  then show ?thesis using K(1,3) unfolding peer_node_def by blast
qed

theorem acknowledged_messages_are_stored_witness:
  "\<exists>c K. cl_run (\<lambda>_. True) (\<lambda>lo hi. lo) [''s''] (add_events 2 @ [CL_Answer 0 0]) = Some c \<and>
     K \<subseteq> {..<length (cl_connections c)} \<and> 1 \<le> card K \<and>
     (\<forall>k \<in> K. ss_messages (sns_storage (mb_node (cl_members c ! co_secondary (cl_connections c ! k)))) 0 = Some ''m'')"
proof -
  obtain c where c:
    "cl_run (\<lambda>_. True) (\<lambda>lo hi. lo) [''s''] (add_events 2 @ [CL_Answer 0 0]) = Some c" "mn_messages (cl_master c) = [''m'']"
    "map (\<lambda>run. ar_promise (run_request run)) (mn_requests (cl_master c)) = [VP_Value]"
    "map (\<lambda>run. ar_writeConcern (run_request run)) (mn_requests (cl_master c)) = [1]"
    by (rule add_runE)
  have q: "0 < length (mn_requests (cl_master c))"
    "ar_promise (run_request (mn_requests (cl_master c) ! 0)) = VP_Value"
    "ar_writeConcern (run_request (mn_requests (cl_master c) ! 0)) = 1"
    using c(3,4) by auto
  have v: "unat (1 :: size_t) = 1" "word_of_nat 0 = (0 :: size_t)" "[''m''] ! 0 = ''m''" by simp_all
  from acknowledged_messages_are_stored [OF c(1) add_run_bounded q(1,2)] c(1) show ?thesis
    unfolding q(3) c(2) v by blast
qed


end
