(* ===== verification/LinkProgress.thy ===== *)
theory LinkProgress
  imports LinkCalls
begin

text \<open>
  No event of a connection throws, as long as every answer given to a promise is one the peer can
  parse: the only exceptions of an endpoint come from a GetMessages response, and the frames an
  endpoint reads are those its peer has built.
\<close>

section \<open>The outcoming requests manager\<close>

lemma invalidatePendingRequest_total:
  "om_core m \<Longrightarrow> \<exists>m'. invalidatePendingRequest rid reason m = Inr m'"
  using invalidatePendingRequest_unknown [of m rid] invalidatePendingRequest_resolves [of m rid]
  by (cases "map_of (om_pendingRequests m) rid") blast+

lemma om_runPosted_total:
  assumes ok: "om_ok m"
  shows "\<exists>m'. om_runPosted n m = Inr m'"
proof (cases "n < length (om_posted m)")
  case False
  then show ?thesis by (simp add: om_runPosted_def)
next
  case True
  obtain request a d where x: "om_posted m ! n = (request, a, d)" by (cases "om_posted m ! n")
  let ?m = "m\<lparr>om_posted := take_nth n (om_posted m)\<rparr>"
  have h: "om_holding ?m a" by (rule take_nth_holding [OF ok True x])
  then have "om_holding (?m\<lparr>om_requestIdCounter := om_requestIdCounter ?m + 1\<rparr>) a"
    by (simp add: om_holding_def open_contexts_def)
  from holding_invalidate [OF this, of TIMEOUT] holding_invalidate [OF h, of PEER_DISCONNECTED]
  show ?thesis using True by (auto simp: om_runPosted_def x sendRequestImpl_def Let_def split: option.split)
qed

lemma om_step_total:
  assumes ok: "om_ok m" and ev: "\<forall>f. ev \<noteq> OM_IncomingFrame f" "ev \<noteq> OM_Destroy"
  shows "\<exists>r. om_step alloc m ev = Inr r"
proof (cases ev)
  case (OM_RunPosted n)
  then show ?thesis using om_runPosted_total [OF ok, of n] by (auto simp: no_writes_def)
next
  case (OM_DelayExpired n b)
  have "om_core (m\<lparr>om_delayed := take_nth n (om_delayed m)\<rparr>)" using ok om_ok_delayed om_ok_core by blast
  from invalidatePendingRequest_total [OF this] show ?thesis
    using OM_DelayExpired by (auto simp: om_delayExpired_def Let_def split: prod.split sum.split) (metis sum.distinct(1))+
next
  case (OM_TimerExpired n late)
  have "om_core (m\<lparr>om_timers := take_nth n (om_timers m)\<rparr>)" using ok by (simp add: om_ok_def om_core_def open_contexts_def)
  from invalidatePendingRequest_total [OF this] show ?thesis
    using OM_TimerExpired by (auto simp: om_timerExpired_def no_writes_def Let_def split: sum.split) (metis sum.distinct(1))+
next
  case OM_SocketInvalidated
  then show ?thesis using invalidateAll_resolves [OF ok, of PEER_DISCONNECTED] by (auto simp: no_writes_def)
qed (use ev in simp_all)

section \<open>The endpoint\<close>

lemma ep_okD:
  assumes "ep_ok e"
  shows "om_ok (ep_outcoming e)" "ep_alive e \<Longrightarrow> om_alive (ep_outcoming e)"
  using assms by (simp_all add: ep_ok_def)

lemma ep_out_result_total: "\<exists>r. x = Inr r \<Longrightarrow> \<exists>r. ep_out_result e x = Inr r"
  by (auto simp: ep_out_result_def)

lemma ep_socket_outputs_total:
  "ep_ok e \<Longrightarrow> sock_emitted out = [] \<Longrightarrow> \<exists>r. ep_socket_outputs alloc out e = Inr r"
proof (induction out arbitrary: e)
  case (Cons x xs)
  let ?r = "case x of
      Emit_incomingFrame frame \<Rightarrow> if ep_alive e then ep_onIncomingFrame alloc frame e else Inr (e, [])
    | Emit_invalidated \<Rightarrow> if ep_alive e then ep_onInvalidated e else Inr (e, [])
    | _ \<Rightarrow> Inr (e, [EP_Sock x])"
  have p: "sock_emitted [x] = []" "sock_emitted xs = []" using Cons.prems(2) by (simp_all add: sock_emitted_def)
  have "\<exists>e1 out1. ?r = Inr (e1, out1) \<and> ep_ok e1"
  proof (cases "x = Emit_invalidated \<and> ep_alive e")
    case True
    obtain m where m: "invalidateAllPendingRequests PEER_DISCONNECTED (ep_outcoming e) = Inr m"
      using invalidateAll_resolves [OF ep_okD(1) [OF Cons.prems(1)]] by blast
    have "ep_good (ep_onInvalidated e)" using ep_onInvalidated_ok Cons.prems(1) True by blast
    then show ?thesis using True m by (simp add: ep_onInvalidated_def)
  next
    case False
    then show ?thesis using p(1) Cons.prems(1) by (cases x) (auto simp: sock_emitted_def)
  qed
  then obtain e1 out1 where e1: "?r = Inr (e1, out1)" "ep_ok e1" by blast
  from Cons.IH [OF e1(2) p(2)] show ?case using e1(1) by (auto split: prod.splits)
qed simp

lemma ep_socket_step_total:
  assumes ok: "ep_ok e" and ev: "ev \<noteq> Destroy" and none: "sock_emitted (snd (sw_step alloc (ep_socketWrapper e) ev)) = []"
  shows "\<exists>r. ep_socket_step alloc e ev = Inr r"
proof -
  obtain log where log: "sw_ok (ep_socketWrapper e, log)" using ok by (auto simp: ep_ok_def)
  define r where "r = sw_step alloc (ep_socketWrapper e) ev"
  have "sw_ok (fst r, log @ snd r)"
    using sw_log_step_ok [OF log, of alloc ev] by (simp add: sw_log_step_def r_def case_prod_beta)
  then have "ep_ok (e\<lparr>ep_socketWrapper := fst r\<rparr>)"
    using ok sw_step_alive [OF ev, of alloc] by (auto simp: ep_ok_def r_def)
  from ep_socket_outputs_total [OF this, of "snd r" alloc] none show ?thesis
    by (simp add: ep_socket_step_def case_prod_beta r_def)
qed

lemma Endpoint_dtor_total: "ep_ok e \<Longrightarrow> \<exists>r. Endpoint_dtor e = Inr r"
  using invalidateAll_resolves [OF ep_okD(1), of e PEER_DISCONNECTED]
  by (auto simp: Endpoint_dtor_def OutManager_dtor_def case_prod_beta)

text \<open>Only a frame that has been read can throw.\<close>

lemma onWritten_emits_nothing:
  assumes "ep_fine e"
  shows "sock_emitted (snd (onWritten (ep_socketWrapper e) ec)) = []"
proof (cases "sw_current (ep_socketWrapper e)")
  case None
  then show ?thesis by (simp add: onWritten_def sock_emitted_def)
next
  case (Some x)
  obtain ps c where x: "sw_current (ep_socketWrapper e) = Some (ps, c)" using Some by (cases x) simp
  have e: "sock_emitted (Sent b # out) = sock_emitted out" for b out by (simp add: sock_emitted_def)
  show ?thesis
    using sw_write_done_step [OF ep_fineD(3,2) [OF assms] x] sw_write_fails_step [OF ep_fineD(3,2) [OF assms] x]
    by (cases ec) (auto simp: plain_outs_def e)
qed

lemma ep_step_total:
  assumes fine: "ep_fine e" and ev: "\<forall>bs. ev \<noteq> EP_FrameRead (Some bs)"
    and size: "\<And>bs. ev = EP_FrameSizeRead (Some bs) \<Longrightarrow> sw_reading (ep_socketWrapper e) = ReadingFrameSize \<and> length bs = 8"
  shows "\<exists>r. ep_step alloc e ev = Inr r"
proof -
  note F = ep_fineD [OF fine]
  have om: "\<exists>r. ep_out_result e (om_step alloc (ep_outcoming e) oev) = Inr r"
    if "\<forall>f. oev \<noteq> OM_IncomingFrame f" "oev \<noteq> OM_Destroy" for oev
    using ep_out_result_total om_step_total [OF ep_okD(1) [OF F(1)] that] by blast
  show ?thesis
  proof (cases ev)
    case (EP_RunWrite n)
    let ?e = "e\<lparr>ep_posted := take_nth n (ep_posted e)\<rparr>"
    have ok: "ep_ok ?e" using F(1) by simp
    have "sock_emitted (snd (sw_step alloc (ep_socketWrapper ?e) (WriteFrame (ep_posted e ! n)))) = []"
      using sw_write_step(2) [OF F(3,2)] by (simp add: plain_outs_def)
    from ep_socket_step_total [OF ok _ this] show ?thesis using EP_RunWrite by auto
  next
    case (EP_FrameSizeRead x)
    have "sock_emitted (snd (sw_step alloc (ep_socketWrapper e) (FrameSizeRead x))) = []"
    proof (cases x)
      case None
      have "sw_step alloc (ep_socketWrapper e) (FrameSizeRead None) = onFrameSizeRead alloc (ep_socketWrapper e) None \<or>
          sw_step alloc (ep_socketWrapper e) (FrameSizeRead None) = onFrameRead (ep_socketWrapper e) None" by simp
      from sw_read_fails_step(2) [OF F(2) this F(3)] None show ?thesis by (simp add: plain_outs_def)
    next
      case (Some bs)
      then show ?thesis using size EP_FrameSizeRead sw_size_read_step(2) [OF F(2,3) _ _ refl, of bs alloc] by (simp add: plain_outs_def)
    qed
    from ep_socket_step_total [OF F(1) _ this] show ?thesis using EP_FrameSizeRead by simp
  next
    case (EP_FrameRead x)
    then have x: "x = None" using ev by (cases x) auto
    have "sw_step alloc (ep_socketWrapper e) (FrameRead None) = onFrameSizeRead alloc (ep_socketWrapper e) None \<or>
        sw_step alloc (ep_socketWrapper e) (FrameRead None) = onFrameRead (ep_socketWrapper e) None" by simp
    from sw_read_fails_step(2) [OF F(2) this F(3)] have
      "sock_emitted (snd (sw_step alloc (ep_socketWrapper e) (FrameRead None))) = []" by (simp add: plain_outs_def)
    from ep_socket_step_total [OF F(1) _ this] show ?thesis using EP_FrameRead x by simp
  next
    case (EP_SetPromise a v)
    then show ?thesis by (simp split: sum.split)
  next
    case (EP_RunAnswer n)
    then show ?thesis by (simp split: prod.split)
  next
    case EP_Destroy
    then show ?thesis using Endpoint_dtor_total [OF F(1)] by simp
  next
    case (EP_RunSend n)
    then show ?thesis using om [of "OM_RunPosted n"] by simp
  next
    case (EP_DelayExpired n)
    then show ?thesis using om [of "OM_DelayExpired n (sw_wasInvalidated (ep_socketWrapper e))"] by simp
  next
    case (EP_TimerExpired n late)
    then show ?thesis using om [of "OM_TimerExpired n late"] by simp
  next
    case (EP_Written ec)
    have "sock_emitted (snd (sw_step alloc (ep_socketWrapper e) (Written ec))) = []"
      using onWritten_emits_nothing [OF fine] by simp
    from ep_socket_step_total [OF F(1) _ this] show ?thesis using EP_Written by simp
  qed simp_all
qed


section \<open>A frame of the peer\<close>

lemma om_incoming_response_total:
  assumes core: "om_core m"
    and fits: "\<And>p. map_of (om_pendingRequests m) i = Some p \<Longrightarrow> answers (om_contexts m (pr_context p)) r"
    and send: "sendable alloc r"
  shows "\<exists>m'. om_onIncomingFrame alloc (Some (response_frame_bytes i r)) m = Inr m'"
proof (cases "map_of (om_pendingRequests m) i")
  case None
  then show ?thesis by (simp add: om_onIncomingFrame_def om_onResponseRecieved_def)
next
  case (Some p)
  have "response_outcome alloc (om_contexts m (pr_context p)) (Some (response_payload r)) = Some (answer_outcome r)"
    using response_outcome_answer [OF fits [OF Some] response_reads_payload [OF send]] .
  then show ?thesis
    using om_onResponse_resolves [OF core Some, of alloc "Some (response_payload r)"] by (auto simp: om_onIncomingFrame_def)
qed

lemma ep_incoming_response_total:
  assumes d: "dir_ok S G I F ch e p" and fine: "om_core (ep_outcoming e)" and len: "length S \<le> 2 ^ 64"
    and a: "a < im_nextContext (ep_incoming p)" "ic_responseId (im_contexts (ep_incoming p) a) = Some i"
      "ic_promise (im_contexts (ep_incoming p) a) = Fulfilled x"
    and send: "sendable alloc (answer_response x)"
  shows "\<exists>r. ep_onIncomingFrame alloc (Some (response_frame_bytes i (answer_response x))) e = Inr r"
proof -
  let ?b = "Some (response_frame_bytes i (answer_response x))"
  have dd: "out_ok S (ep_outcoming e)" "in_ok S G I (ep_incoming p)" using d by (simp_all add: dir_ok_def)
  have no: "im_onIncomingFrame ?b = None" by (simp add: im_onIncomingFrame_def)
  have idx: "I ! a < length S" "i = word_of_nat (I ! a)" "G ! a = request_signal (fst (S ! (I ! a))) a"
    "answer_fits (G ! a) x"
    using dd(2) a unfolding in_ok_def by auto
  have u: "unat i = I ! a" using idx(1,2) len by (simp add: unat_of_nat)
  have "answers (om_contexts (ep_outcoming e) (pr_context p')) (answer_response x)"
    if p': "map_of (om_pendingRequests (ep_outcoming e)) i = Some p'" for p'
  proof -
    have "(i, p') \<in> set (om_pendingRequests (ep_outcoming e))" using p' by (rule map_of_SomeD)
    then have s: "S ! (I ! a) = (pr_request p', pr_context p')"
      using dd(1) u unfolding out_ok_def by fastforce
    have "(pr_request p', pr_context p') \<in> set S" using s idx(1) nth_mem by metis
    then have "context_kind (om_contexts (ep_outcoming e) (pr_context p')) = request_kind (pr_request p')"
      using dd(1) unfolding out_ok_def by blast
    then show ?thesis using idx(3,4) s answer_fits_answers by simp
  qed
  then obtain m' where "om_onIncomingFrame alloc ?b (ep_outcoming e) = Inr m'"
    using om_incoming_response_total [OF fine _ send, of i] by blast
  then show ?thesis by (simp add: ep_onIncomingFrame_def no)
qed

text \<open>What a connection needs besides its invariant: every answer given can be parsed by the peer.\<close>

definition link_sendable :: "(nat \<Rightarrow> bool) \<Rightarrow> Link \<Rightarrow> bool" where
  "link_sendable alloc ln \<longleftrightarrow> (\<forall>b a x. promised ln b a x \<longrightarrow> sendable alloc (answer_response x))"

lemma ep_FrameRead_total:
  assumes ok: "link_ok ln" and bd: "link_bounded ln" and send: "link_sendable alloc ln"
    and al: "link_allows ln b (EP_FrameRead (Some bs))"
  shows "\<exists>r. ep_step alloc (ln_ep ln b) (EP_FrameRead (Some bs)) = Inr r"
proof -
  let ?e = "ln_ep ln b" and ?q = "ln_ep ln (\<not> b)"
  from link_ok_before [OF ok, of b] obtain I F I' F' where fine: "ep_fine ?e" and
    d: "dir_ok (ln_sent ln b) (ln_signals ln (\<not> b)) I F (ln_bytes ln b) ?e ?q"
      "dir_ok (ln_sent ln (\<not> b)) (ln_signals ln b) I' F' (ln_bytes ln (\<not> b)) ?q ?e"
    unfolding link_before_def by blast
  have r: "sw_reading (ep_socketWrapper ?e) = ReadingFrame"
    "unat (sw_incomingFrameSize (ep_socketWrapper ?e)) \<le> length (ln_bytes ln (\<not> b))"
    "bs = take (unat (sw_incomingFrameSize (ep_socketWrapper ?e))) (ln_bytes ln (\<not> b))" using al by auto
  from read_frame_head [OF d(2) r(1,2)] obtain f where
    f: "bs = concat f" "genuine (ln_sent ln (\<not> b)) (ep_incoming ?q) f" unfolding r(3) by blast
  let ?r = "onFrameRead (ep_socketWrapper ?e) (Some bs)"
  let ?e1 = "?e\<lparr>ep_socketWrapper := fst ?r\<rparr>"
  note R = sw_frame_read_step [OF ep_fineD(2,3) [OF fine] r(1) refl, of bs]
  have st: "ep_step alloc ?e (EP_FrameRead (Some bs)) = ep_socket_outputs alloc (snd ?r) ?e1"
    by (simp add: ep_socket_step_def case_prod_beta)
  have "\<exists>r. ep_onIncomingFrame alloc (Some bs) ?e1 = Inr r"
    using f(2)
  proof (cases rule: genuine_cases)
    case (request i)
    then show ?thesis using f(1) by (simp add: ep_onIncomingFrame_request)
  next
    case (response a i x)
    have fl: "ep_flight ?e1 = ep_flight ?e" using R(2) by (simp add: ep_flight_def)
    have d1: "dir_ok (ln_sent ln b) (ln_signals ln (\<not> b)) I F (ln_bytes ln b) ?e1 ?q"
      using sender_same [OF d(1), of ?e1] fl R(3) by simp
    have core: "om_core (ep_outcoming ?e1)" using ep_fineD(4) [OF fine] by simp
    have "length (ln_signals ln (\<not> b)) = im_nextContext (ep_incoming ?q)" using d(1) by (simp add: dir_ok_def in_ok_def)
    then have "promised ln (\<not> b) a x" using response by (simp add: promised_def)
    then have "sendable alloc (answer_response x)" using send by (simp add: link_sendable_def)
    moreover have "length (ln_sent ln b) \<le> 2 ^ 64" using bd by (simp add: link_bounded_def)
    ultimately show ?thesis
      using ep_incoming_response_total [OF d1 core _ response(1-3)] f(1) response(4) by simp
  qed
  moreover have "\<exists>r. ep_onIncomingFrame alloc None ?e1 = Inr r" by (simp add: ep_onIncomingFrame_null)
  ultimately show ?thesis using R(4) unfolding st by (auto split: sum.splits prod.splits)
qed

lemma link_step_total:
  assumes ok: "link_ok ln" and bd: "link_bounded ln" and send: "link_sendable alloc ln"
  shows "\<exists>ln'. link_step alloc ln lev = Inr ln'"
proof -
  have fine: "ep_fine (ln_ep ln b)" for b using ok by (simp add: link_ok_def)
  have ev: "\<exists>r. ep_step alloc (ln_ep ln b) ev = Inr r" if "link_allows ln b ev" for b ev
  proof (cases "\<exists>bs. ev = EP_FrameRead (Some bs)")
    case True
    then show ?thesis using ep_FrameRead_total [OF ok bd send] that by blast
  next
    case False
    then show ?thesis using that by (intro ep_step_total [OF fine]) auto
  qed
  show ?thesis
  proof (cases lev)
    case (LN_Event b ev)
    then show ?thesis using ev [of b ev] by (auto simp del: ep_step.simps)
  next
    case (LN_WriteFails b k)
    have "\<exists>r. ep_step alloc (ln_ep ln b) (EP_Written True) = Inr r" by (rule ep_step_total [OF fine]) simp_all
    then show ?thesis using LN_WriteFails by (auto simp: Let_def simp del: ep_step.simps)
  qed
qed

end
