(* ===== verification/ClusterProgress.thy ===== *)
theory ClusterProgress
  imports ClusterResults LinkProgress
begin

text \<open>
  The cluster never gets stuck: every event of every run has a next state. No exception leaves a
  handler, no promise is given an answer of the wrong kind, no frame is too long, no endpoint is run
  that is closed, as long as all messages together fit into the memory of one answer.
\<close>

section \<open>What every node can rely on\<close>

definition ep_dead :: "Cluster \<Rightarrow> nat \<Rightarrow> bool \<Rightarrow> bool" where
  "ep_dead c k b \<longleftrightarrow> sw_invalidated (ep_socketWrapper (ln_ep (link_of c k) b))"

definition ready_at :: "Cluster \<Rightarrow> nat \<Rightarrow> nat \<Rightarrow> bool" where
  "ready_at c e p \<longleftrightarrow>
     e < length (cl_endpoints c) \<and> p < length (ln_signals (link_of c (cl_endpoints c ! e)) True) \<and>
     (\<exists>name. ln_signals (link_of c (cl_endpoints c ! e)) True ! p = Incoming_secondaryNodeReady name p)"

definition name_fits :: "SecondaryNodeS \<Rightarrow> bool" where
  "name_fits n \<longleftrightarrow>
     length (sns_friendlyName n) + 64 < 2 ^ 64 \<and>
     (\<forall>session. sns_session n = Some session \<longrightarrow> mss_friendlyName session = sns_friendlyName n)"

definition cl_able :: "(nat \<Rightarrow> bool) \<Rightarrow> Cluster \<Rightarrow> bool" where
  "cl_able alloc c \<longleftrightarrow>
     (\<forall>k < length (cl_connections c). link_sendable alloc (link_of c k)) \<and>
     (\<forall>k < length (cl_connections c). k \<notin> set (cl_endpoints c) \<longrightarrow> \<not> ep_dead c k True) \<and>
     (\<forall>i name e p. T_SecondaryNodeReady i name (e, p) \<in> set (mn_posted (cl_master c)) \<longrightarrow> ready_at c e p) \<and>
     (\<forall>mb \<in> set (cl_members c). name_fits (mb_node mb))"

text \<open>What the answers need: room for all messages.\<close>

definition messages_size :: "string list \<Rightarrow> nat" where
  "messages_size ms = sum_list (map (\<lambda>m. length m + 8) ms)"

definition room_for :: "(nat \<Rightarrow> bool) \<Rightarrow> string list \<Rightarrow> bool" where
  "room_for alloc ms \<longleftrightarrow>
     messages_size ms + 64 < 2 ^ 64 \<and> length ms \<le> string_vector_max_size \<and> (\<forall>n \<le> length ms. alloc n)"

lemma room_for_prefix: "room_for alloc (xs @ ys) \<Longrightarrow> room_for alloc xs"
  by (simp add: room_for_def messages_size_def)

definition answer_sized :: "(nat \<Rightarrow> bool) \<Rightarrow> answer \<Rightarrow> bool" where
  "answer_sized alloc a \<longleftrightarrow>
     frame_size (response_frame_of 0 (answer_response a)) < 2 ^ 64 \<and> sendable alloc (answer_response a)"

lemma ready_at_leads:
  assumes l: "cl_leads c c'" and reg: "cl_registered c" and q: "ready_at c e p"
  shows "ready_at c' e p"
proof -
  have e: "e < length (cl_endpoints c)" using q by (simp add: ready_at_def)
  then have "cl_endpoints c ! e < length (cl_connections c)" using reg by (simp add: cl_registered_def)
  then have "link_leads (link_of c (cl_endpoints c ! e)) (link_of c' (cl_endpoints c ! e))" "cl_endpoints c' = cl_endpoints c"
    using l by (simp_all add: cl_leads_def)
  then show ?thesis using q link_leads_signal by (simp add: ready_at_def)
qed

section \<open>What a node asks of an endpoint\<close>

lemma cl_links_ok:
  assumes "cl_inv t c s mo j so" "t \<le> 2 ^ 64" "k < length (cl_connections c)"
  shows "link_ok (link_of c k)" "link_bounded (link_of c k)"
proof -
  have l: "link_ok (link_of c k) \<and> (\<forall>b. length (ln_sent (link_of c k) b) \<le> t)"
    using assms(1,3) by (simp add: cl_inv_def cl_links_def link_facts_def)
  then show "link_ok (link_of c k)" by simp
  show "link_bounded (link_of c k)" unfolding link_bounded_def using l le_trans [OF _ assms(2)] by blast
qed

lemma on_endpoint_total:
  assumes i: "cl_inv t c s mo j so" and t: "t \<le> 2 ^ 64" and k: "k < length (cl_connections c)"
    and able: "cl_able alloc c" and al: "link_allows (link_of c k) b ev"
  shows "\<exists>c'. on_endpoint alloc k b ev c = Some c'"
proof -
  have "link_sendable alloc (link_of c k)" using able k by (simp add: cl_able_def)
  from link_step_total [OF cl_links_ok [OF i t k] this, of "LN_Event b ev"] show ?thesis
    using k al by (auto simp: on_endpoint_def simp del: link_step.simps)
qed

lemma asked_keeps_socket:
  assumes "ep_step alloc e ev = Inr (e', out)" "\<not> from_outside ev"
  shows "sw_invalidated (ep_socketWrapper e') = sw_invalidated (ep_socketWrapper e)"
  using assms by (cases ev)
    (auto simp: Endpoint_run_def readFrameSize_def ep_sendRequest_def split: if_splits sum.splits)

lemma link_sendable_step:
  assumes "link_ok ln" "link_ok ln'" "link_step alloc ln lev = Inr ln'" "link_sendable alloc ln"
    "\<And>b a y. lev = LN_Event b (EP_SetPromise a (Some y)) \<Longrightarrow> sendable alloc (answer_response y)"
  shows "link_sendable alloc ln'"
  using promised_step [OF assms(1-3)] assms(4,5) unfolding link_sendable_def by blast

lemma on_endpoint_able:
  assumes i: "cl_inv t c s mo j so" and t: "t \<le> 2 ^ 64" and on: "on_endpoint alloc k b ev c = Some c'"
    and i': "cl_inv t c' s mo' j' so'" and l: "cl_leads c c'" and able: "cl_able alloc c" and ev: "\<not> from_outside ev"
    and send: "\<And>a y. ev = EP_SetPromise a (Some y) \<Longrightarrow> sendable alloc (answer_response y)"
  shows "cl_able alloc c'"
proof -
  have k: "k < length (cl_connections c)" and al: "link_allows (link_of c k) b ev"
    using on by (simp_all add: on_endpoint_def split: if_splits)
  obtain ln where ln: "link_step alloc (link_of c k) (LN_Event b ev) = Inr ln" "c' = set_link k ln c"
    using on by (auto simp: on_endpoint_def simp del: link_step.simps split: if_splits sum.splits)
  have lk: "link_of c' k' = (if k' = k then ln else link_of c k')" for k' using ln(2) link_of_set_link [OF k] by simp
  have same: "cl_endpoints c' = cl_endpoints c" "cl_master c' = cl_master c" "cl_members c' = cl_members c"
    "length (cl_connections c') = length (cl_connections c)" using ln(2) by simp_all
  have "link_ok ln" using cl_links_ok(1) [OF i' t, of k] lk same(4) k by simp
  then have "link_sendable alloc ln"
    using link_sendable_step [OF cl_links_ok(1) [OF i t k] _ ln(1)] able k send by (auto simp: cl_able_def)
  moreover obtain e' out where r: "ep_step alloc (ln_ep (link_of c k) b) ev = Inr (e', out)"
    "ln = link_update (link_of c k) b ev [] (e', out)"
    using ln(1) al by (auto split: sum.splits)
  have "ep_dead c' k' True = ep_dead c k' True" for k'
    using asked_keeps_socket [OF r(1) ev] r(2) by (simp add: ep_dead_def lk link_update_def)
  moreover have "ready_at c' e p" if "ready_at c e p" for e p
    using ready_at_leads [OF l _ that] i by (simp add: cl_inv_def)
  ultimately show ?thesis using able unfolding cl_able_def same lk by auto
qed


text \<open>The sizes of the frames.\<close>

lemma request_frame_sizes:
  "frame_size (request_frame_of 0 (Req_AddMessage (Request_AddMessage_create i m))) = 18 + length m"
  "frame_size (request_frame_of 0 (Req_GetMessages (Request_GetMessages_create g))) = 18"
  "frame_size (request_frame_of 0 (Req_Ping (Request_Ping_create u))) = 18"
  "frame_size (request_frame_of 0 (Req_SecondaryNodeReady (Request_SecondaryNodeReady_create n))) = 10 + length n"
  by (simp_all add: frame_size_concat request_frame_bytes_split constructRequestHeaderWoOwnership_def
      request_payload_def Request_GetMessages_serializePayload_def Request_AddMessage_serializePayload_def
      Request_Ping_serializePayload_def Request_SecondaryNodeReady_serializePayload_def
      Request_AddMessage_create_def Request_GetMessages_create_def Request_Ping_create_def
      Request_SecondaryNodeReady_create_def serialize_eqs enum_bytes_def)

lemma length_messages_bytes: "length (messages_bytes ms) = messages_size ms"
  by (induction ms) (simp_all add: messages_size_def message_bytes_def)

lemma response_frame_sizes:
  "frame_size (response_frame_of 0 (answer_response (A_AddMessage v))) = 10"
  "frame_size (response_frame_of 0 (answer_response (A_Ping u))) = 17"
  "frame_size (response_frame_of 0 (answer_response A_SecondaryNodeReady)) = 9"
  "frame_size (response_frame_of 0 (answer_response (A_GetMessages xs))) = 17 + messages_size xs"
proof -
  have p: "response_payload (answer_response (A_GetMessages xs)) = size_bytes (word_of_nat (length xs)) @ messages_bytes xs"
    using GetMessages_wire_create [of xs "[]"] by (simp add: response_payload_def)
  show "frame_size (response_frame_of 0 (answer_response (A_GetMessages xs))) = 17 + messages_size xs"
    using p by (simp add: frame_size_concat response_frame_bytes_split constructResponseHeaderWoOwnership_def
        length_messages_bytes serialize_eqs enum_bytes_def)
qed (simp_all add: frame_size_concat response_frame_bytes_split constructResponseHeaderWoOwnership_def
    response_payload_def Response_AddMessage_serializePayload_def Response_Pong_serializePayload_def
    Response_SecondaryNodeReady_serializePayload_def serialize_eqs enum_bytes_def)

lemma answer_sized_simps [simp]:
  "answer_sized alloc (A_AddMessage v)" "answer_sized alloc (A_Ping u)" "answer_sized alloc A_SecondaryNodeReady"
  by (simp_all add: answer_sized_def response_frame_sizes del: answer_response.simps) simp_all

text \<open>The master can always send what it has, or a part of it.\<close>

lemma messages_size_nth: "messages_size ms = (\<Sum>i < length ms. length (ms ! i) + 8)"
  by (simp add: messages_size_def sum_list_sum_nth atLeast0LessThan)

lemma selected_messages:
  assumes inj: "inj_on g {..<length xs}" and sel: "\<And>i. i < length xs \<Longrightarrow> g i < length ms \<and> xs ! i = ms ! g i"
  shows "length xs \<le> length ms" "messages_size xs \<le> messages_size ms"
proof -
  have sub: "g ` {..<length xs} \<subseteq> {..<length ms}" using sel by auto
  from card_mono [OF _ sub] card_image [OF inj] show "length xs \<le> length ms" by simp
  have "messages_size xs = (\<Sum>i < length xs. length (ms ! g i) + 8)"
    unfolding messages_size_nth by (rule sum.cong) (use sel in auto)
  also have "\<dots> = (\<Sum>j \<in> g ` {..<length xs}. length (ms ! j) + 8)" using sum.reindex [OF inj, of "\<lambda>j. length (ms ! j) + 8"] by (simp add: comp_def)
  also have "\<dots> \<le> messages_size ms" unfolding messages_size_nth by (rule sum_mono2) (use sub in auto)
  finally show "messages_size xs \<le> messages_size ms" .
qed

lemma answer_ok_sized:
  assumes ok: "mn_ok m" and a: "answer_ok m (gap, xs, known)" and room: "room_for alloc (mn_messages m)"
  shows "answer_sized alloc (A_GetMessages xs)"
proof -
  let ?g = "\<lambda>i. unat (gap + word_of_nat i)"
  have l: "length xs \<le> 2 ^ 64" and at: "\<And>i. i < length xs \<Longrightarrow> ms_messages (mn_storage m) (gap + word_of_nat i) = Some (xs ! i)"
    using a by (simp_all add: answer_ok_def)
  have "i = j" if "i < length xs" "j < length xs" "?g i = ?g j" for i j
  proof -
    have "gap + word_of_nat i = gap + word_of_nat j" using that(3) by (rule unsigned_word_eqI)
    then have "(word_of_nat i :: size_t) = word_of_nat j" by simp
    then have "unat (word_of_nat i :: size_t) = unat (word_of_nat j :: size_t)" by simp
    then show ?thesis using that(1,2) l by (simp add: unat_of_nat take_bit_nat_eq_self)
  qed
  then have inj: "inj_on ?g {..<length xs}" by (intro inj_onI) simp
  have sel: "?g i < length (mn_messages m) \<and> xs ! i = mn_messages m ! ?g i" if "i < length xs" for i
    using at [OF that] by (simp add: store_lookup [OF ok] mn_messages_def split: if_splits)
  note S = selected_messages [OF inj sel]
  have "length x < 2 ^ 64" if "x \<in> set xs" for x
  proof -
    have "length x + 8 \<le> messages_size xs"
      unfolding messages_size_def using member_le_sum_list [of "length x + 8" "map (\<lambda>m. length m + 8) xs"] that by simp
    then show ?thesis using S(2) room by (simp add: room_for_def)
  qed
  then have "fits_wire xs" using S(1) room by (simp add: fits_wire_def room_for_def)
  then show ?thesis
    using S room response_frame_sizes(4) [of xs] by (simp add: answer_sized_def room_for_def)
qed


section \<open>The master\<close>

text \<open>What makes an effect of the master possible.\<close>

fun master_can :: "(nat \<Rightarrow> bool) \<Rightarrow> Cluster \<Rightarrow> mn_out \<Rightarrow> bool" where
  "master_can alloc c (MN_RunEndpoint e) \<longleftrightarrow> connection_of c e < length (cl_connections c)"
| "master_can alloc c (MN_SetPromise (e, p) a) \<longleftrightarrow>
     connection_of c e < length (cl_connections c) \<and>
     p < length (ln_signals (link_of c (connection_of c e)) True) \<and>
     answer_fits (ln_signals (link_of c (connection_of c e)) True ! p) a \<and> answer_sized alloc a"
| "master_can alloc c (MN_DropPromise (e, p)) \<longleftrightarrow> connection_of c e < length (cl_connections c)"
| "master_can alloc c (MN_Request q (AR_Send e i messageId message)) \<longleftrightarrow>
     connection_of c e < length (cl_connections c) \<and> length message + 64 < 2 ^ 64"
| "master_can alloc c (MN_Request q AR_Wait) \<longleftrightarrow> True"

lemma connection_of_leads: "cl_leads c c' \<Longrightarrow> connection_of c' e = connection_of c e"
  by (simp add: connection_of_def cl_leads_lengths(1)) (simp add: cl_leads_def)

lemma master_can_leads:
  assumes l: "cl_leads c c'" and o: "master_can alloc c x"
  shows "master_can alloc c' x"
proof (cases "(alloc, c, x)" rule: master_can.cases)
  case (2 a1 c1 e p a)
  then have k: "connection_of c e < length (cl_connections c)"
    "p < length (ln_signals (link_of c (connection_of c e)) True)" using o by simp_all
  then have "link_leads (link_of c (connection_of c e)) (link_of c' (connection_of c e))" using l by (simp add: cl_leads_def)
  from link_leads_signal [OF this k(2)] show ?thesis
    using 2 o connection_of_leads [OF l] cl_leads_lengths(1) [OF l] by simp
qed (use o connection_of_leads [OF l] cl_leads_lengths(1) [OF l] in simp_all)

lemma call_endpoint_progress:
  assumes i: "cl_inv t c s mo j so" and t: "t \<le> 2 ^ 64" and k: "k < length (cl_connections c)" and able: "cl_able alloc c"
    and known: "b \<Longrightarrow> call_known s r" and size: "frame_size (request_frame_of 0 r) < 2 ^ 64"
  shows "\<exists>x c'. call_endpoint alloc draw k b r c = Some (x, c') \<and> cl_able alloc c'"
proof -
  let ?e = "ln_ep (link_of c k) b"
  let ?ev = "EP_SendRequest r (request_kind r) (chooseSendDelay draw ?e)"
  obtain c' where on: "on_endpoint alloc k b ?ev c = Some c'"
    using on_endpoint_total [OF i t k able, of b ?ev] size by auto
  then have call: "call_endpoint alloc draw k b r c = Some (om_nextContext (ep_outcoming ?e), c')"
    by (simp add: call_endpoint_def Let_def)
  note C = cl_inv_call [OF i t call known]
  have "cl_able alloc c'" by (rule on_endpoint_able [OF i t on C(1,2) able]) simp_all
  then show ?thesis using call by blast
qed

lemma cl_able_futures [simp]: "cl_able alloc (c\<lparr>cl_futures := F\<rparr>) = cl_able alloc c"
  by (simp add: cl_able_def ep_dead_def ready_at_def)

lemma asked_progress:
  assumes i: "cl_inv t c s mo j so" and t: "t \<le> 2 ^ 64" and able: "cl_able alloc c"
    and k: "k < length (cl_connections c)" and al: "link_allows (link_of c k) b ev" and ev: "\<not> from_outside ev"
    and known: "step_known c s k (LN_Event b ev)"
    and send: "\<And>a y. ev = EP_SetPromise a (Some y) \<Longrightarrow> sendable alloc (answer_response y)"
  shows "\<exists>c'. on_endpoint alloc k b ev c = Some c' \<and> cl_able alloc c'"
proof -
  obtain c' where on: "on_endpoint alloc k b ev c = Some c'" using on_endpoint_total [OF i t k able al] by blast
  from cl_inv_asked [OF i t on known ev] have "cl_inv t c' s mo j so" "cl_leads c c'" by simp_all
  from on_endpoint_able [OF i t on this able ev] send on show ?thesis by blast
qed

lemma master_output_progress:
  assumes i: "cl_inv t c s (x # mo) j so" and t: "t \<le> 2 ^ 64" and owes: "master_owes c s x"
    and can: "master_can alloc c x" and able: "cl_able alloc c"
    and run: "\<And>e. x = MN_RunEndpoint e \<Longrightarrow> \<not> ep_dead c (connection_of c e) True"
  shows "\<exists>c'. master_output alloc draw x c = Some c' \<and> cl_able alloc c'"
proof -
  note asked = asked_progress [OF i t able]
  show ?thesis
  proof (cases "(alloc, c, x)" rule: master_can.cases)
    case (1 a1 c1 e)
    then show ?thesis using asked [of "connection_of c e" True EP_Run] can run by (simp add: step_known_simps ep_dead_def)
  next
    case (2 a1 c1 e p a)
    let ?k = "connection_of c e"
    have "answer_known s (peer_node c ?k) True (ln_signals (link_of c ?k) True ! p) a"
    proof (cases "\<exists>xs. a = A_GetMessages xs")
      case True
      then obtain xs gap known where "a = A_GetMessages xs" "query_at c gap e p" "(gap, xs, known) \<in> set (sys_answers s)"
        using owes 2 by auto
      then show ?thesis by (auto simp: answer_known_def query_at_def connection_of_def)
    qed (simp add: answer_known_def)
    then have "step_known c s ?k (LN_Event True (EP_SetPromise p (Some a)))" by (simp add: step_known_simps)
    then show ?thesis using asked [of ?k True "EP_SetPromise p (Some a)"] can 2 by (simp add: answer_sized_def)
  next
    case (3 a1 c1 e p)
    then show ?thesis using asked [of "connection_of c e" True "EP_SetPromise p None"] can by (simp add: step_known_simps)
  next
    case (4 a1 c1 q e i' m msg)
    let ?r = "Req_AddMessage (Request_AddMessage_create m msg)"
    have "(m, msg) \<in> set (sys_sent s)" using owes 4 by simp
    then have known: "call_known s ?r" by (simp add: Request_AddMessage_create_def)
    have k: "connection_of c e < length (cl_connections c)" and "frame_size (request_frame_of 0 ?r) < 2 ^ 64"
      using can 4 request_frame_sizes(1) by simp_all
    then obtain y c1 where "call_endpoint alloc draw (connection_of c e) True ?r c = Some (y, c1)" "cl_able alloc c1"
      using call_endpoint_progress [OF i t k able known] by blast
    then show ?thesis using 4 by simp
  qed (use able in simp)
qed

text \<open>A list of effects; an endpoint is only run before anything else is done.\<close>

definition runs_first :: "Cluster \<Rightarrow> mn_out list \<Rightarrow> bool" where
  "runs_first c xs \<longleftrightarrow>
     (\<forall>e. MN_RunEndpoint e \<notin> set (tl xs)) \<and>
     (\<forall>e ys. xs = MN_RunEndpoint e # ys \<longrightarrow> \<not> ep_dead c (connection_of c e) True)"

lemma master_outputs_progress:
  assumes "cl_inv t c s mo j so" "t \<le> 2 ^ 64" "\<forall>x \<in> set mo. master_owes c s x" "\<forall>x \<in> set mo. master_can alloc c x"
    "runs_first c mo" "cl_able alloc c"
  shows "\<exists>c'. perform_all (master_output alloc draw) mo c = Some c' \<and> cl_able alloc c'"
  using assms
proof (induction mo arbitrary: c)
  case (Cons x xs)
  have x: "master_owes c s x" "master_can alloc c x" using Cons.prems(3,4) by simp_all
  have "\<not> ep_dead c (connection_of c e) True" if "x = MN_RunEndpoint e" for e
    using Cons.prems(5) that by (simp add: runs_first_def)
  from master_output_progress [OF Cons.prems(1,2) x Cons.prems(6) this] obtain c1 where
    c1: "master_output alloc draw x c = Some c1" "cl_able alloc c1" by blast
  from cl_inv_master_output [OF Cons.prems(1,2) c1(1) x(1)] have
    s1: "cl_inv t c1 s xs j so" "cl_leads c c1" by simp_all
  have "cl_registered c" using Cons.prems(1) by (simp add: cl_inv_def)
  then have "\<forall>y \<in> set xs. master_owes c1 s y" using Cons.prems(3) master_owes_leads [OF s1(2)] by simp
  moreover have "\<forall>y \<in> set xs. master_can alloc c1 y" using Cons.prems(4) master_can_leads [OF s1(2)] by simp
  moreover have "runs_first c1 xs"
  proof -
    have n: "\<forall>e. MN_RunEndpoint e \<notin> set xs" using Cons.prems(5) by (simp add: runs_first_def)
    moreover have "set (tl xs) \<subseteq> set xs" by (cases xs) auto
    ultimately show ?thesis unfolding runs_first_def by (metis list.set_intros(1) subsetD)
  qed
  ultimately show ?case using Cons.IH [OF s1(1) Cons.prems(2) _ _ _ c1(2)] c1(1) by simp
qed simp


text \<open>Where the effects of the master come from.\<close>

lemma runTask_outs:
  assumes "runTask t m = Some (m', out)" "x \<in> set out"
  shows "x = MN_RunEndpoint e \<Longrightarrow> out = [x] \<and> t = T_AddSecondary \<and> e = length (mn_endpoints m)"
    "x = MN_SetPromise r a \<Longrightarrow>
       (\<exists>gap xs. a = A_GetMessages xs \<and> t = T_GetMessages gap r) \<or> a = A_SecondaryNodeReady \<and> (\<exists>i name. t = T_SecondaryNodeReady i name r)"
    "x = MN_DropPromise r \<Longrightarrow> \<exists>i name. t = T_SecondaryNodeReady i name r"
  using assms
  by (cases t; auto simp: addSecondaryImpl_def Let_def onIncomingGetMessages_def
      onIncomingSecondaryNodeReady_def split: option.splits)+

lemma mn_step_runs_endpoint:
  assumes st: "mn_step m ev = Some (Inr (m', out))" and x: "MN_RunEndpoint e \<in> set out"
  shows "out = [MN_RunEndpoint e] \<and> runs_task m ev T_AddSecondary \<and> e = length (mn_endpoints m)"
  using st
proof (cases rule: mn_step_cases)
  case (task n)
  then show ?thesis using runTask_outs(1) [OF task(3) x refl] by (simp add: runs_task_def)
next
  case (signal k sg)
  then show ?thesis using x by (cases "(k, mn_endpoints m ! k, sg, m)" rule: onSignal.cases) simp_all
qed (use x in auto)

lemma mn_step_sets_promise:
  assumes st: "mn_step m ev = Some (Inr (m', out))" and x: "MN_SetPromise r a \<in> set out"
  shows "(\<exists>gap xs. a = A_GetMessages xs \<and> T_GetMessages gap r \<in> set (mn_posted m) \<and>
      (gap, xs, length (mn_requests m)) \<in> set (answers_of m ev out)) \<or>
    a = A_SecondaryNodeReady \<and> (\<exists>i name. T_SecondaryNodeReady i name r \<in> set (mn_posted m))"
proof (cases "\<exists>xs. a = A_GetMessages xs")
  case True
  then obtain xs where a: "a = A_GetMessages xs" by blast
  obtain e p where r: "r = (e, p)" by (cases r)
  from mn_step_answers [OF st x [unfolded r a]] show ?thesis using a r by blast
next
  case False
  from st show ?thesis
  proof (cases rule: mn_step_cases)
    case (task n)
    then show ?thesis using runTask_outs(2) [OF task(3) x refl] False by (metis nth_mem)
  next
    case (signal k sg)
    then show ?thesis using x by (cases "(k, mn_endpoints m ! k, sg, m)" rule: onSignal.cases) simp_all
  qed (use x in auto)
qed

lemma mn_step_drops_promise:
  assumes st: "mn_step m ev = Some (Inr (m', out))" and x: "MN_DropPromise (e, p) \<in> set out"
  shows "e < length (mn_endpoints m) \<or> (\<exists>i name. T_SecondaryNodeReady i name (e, p) \<in> set (mn_posted m))"
  using st
proof (cases rule: mn_step_cases)
  case (task n)
  then show ?thesis using runTask_outs(3) [OF task(3) x refl] by (metis nth_mem)
next
  case (signal k sg)
  then show ?thesis using x by (cases "(k, mn_endpoints m ! k, sg, m)" rule: onSignal.cases) simp_all
qed (use x in auto)

lemma mn_step_ready_tasks:
  assumes st: "mn_step m ev = Some (Inr (m', out))" and t: "T_SecondaryNodeReady i name (e, p) \<in> set (mn_posted m')"
  shows "T_SecondaryNodeReady i name (e, p) \<in> set (mn_posted m) \<or>
     ev = MN_Signal e (Sig_Incoming (Incoming_secondaryNodeReady name p)) \<and> e < length (mn_endpoints m)"
  using st
proof (cases rule: mn_step_cases)
  case (task n)
  have "mn_posted m' = take_nth n (mn_posted m)" using runTask_endpoints(2) [OF task(3)] by simp
  then show ?thesis using t set_take_nth_subset by fastforce
next
  case (signal k sg)
  then show ?thesis using t
    by (cases "(k, mn_endpoints m ! k, sg, m)" rule: onSignal.cases) (auto simp: mn_post_def)
qed (use t in auto)


fun message_of :: "mn_event \<Rightarrow> string list" where
  "message_of (MN_AddMessage message w) = [message]"
| "message_of _ = []"

lemma length_message_of: "length (message_of ev) = messages_of ev"
  by (cases ev) simp_all

lemma mn_addMessage_messages:
  assumes ok: "mn_ok m" and l: "length (mn_requests m) < 2 ^ 64" and st: "mn_addMessage message w m = Inr (f, m', out)"
  shows "mn_messages m' = mn_messages m @ [message]"
proof -
  have "ms_messages (mn_storage m) (word_of_nat (length (mn_requests m))) = None"
    using l by (simp add: store_lookup [OF ok] unat_of_nat take_bit_nat_eq_self)
  then have free: "ms_messages (mn_storage m) (ms_nextMessageId (mn_storage m)) = None"
    using ok by (simp add: mn_ok_def store_ok_def)
  obtain i v sto where a: "MasterStorage_addMessage message (mn_storage m) = ((i, v), sto)"
    by (metis prod.collapse)
  have v: "v = message"
    using a free by (auto simp: MasterStorage_addMessage_def ms_fetch_add_def ms_insert_def umap_insert_def Let_def split: option.splits)
  let ?w = "if w \<le> 1 then 0 else w - 1"
  obtain run where run: "ar_begin i v ?w (Some (secondariesSnapshot m)) = Inr run" "mn_requests m' = mn_requests m @ [run]"
    using st by (auto simp: mn_addMessage_def a Let_def split: sum.splits)
  then have "ar_const (run_request run) = ar_const (AddMessageRequest_create i v ?w)"
    by (auto simp: ar_begin_def dest: ar_const_start split: sum.splits)
  then have "ar_message (run_request run) = message" using v by (simp add: ar_const_def AddMessageRequest_create_def)
  then show ?thesis using run(2) by (simp add: mn_messages_def)
qed

lemma mn_step_messages:
  assumes ok: "mn_ok m" and l: "length (mn_requests m) < 2 ^ 64" and st: "mn_step m ev = Some (Inr (m', out))"
    and good: "mn_step_good m ev (Some (Inr (m', out)))"
  shows "mn_messages m' = mn_messages m @ message_of ev"
proof (cases "\<exists>message w. ev = MN_AddMessage message w")
  case True
  then obtain message w where ev: "ev = MN_AddMessage message w" by blast
  then obtain f where "mn_addMessage message w m = Inr (f, m', out)" using st by (cases "mn_addMessage message w m") auto
  from mn_addMessage_messages [OF ok l this] show ?thesis using ev by simp
next
  case False
  then have n: "message_of ev = []" by (cases ev) simp_all
  have "prefix (mn_messages m) (mn_messages m')" by (rule mn_messages_mono [OF good])
  moreover have "length (mn_messages m') = length (mn_messages m)"
    using good n length_message_of [of ev] by (simp add: mn_step_good_def mn_messages_def)
  ultimately show ?thesis using n by (auto simp: prefix_def)
qed

text \<open>An event of the master.\<close>

lemma message_in_room: "room_for alloc ms \<Longrightarrow> x \<in> set ms \<Longrightarrow> length x + 64 < 2 ^ 64"
  using member_le_sum_list [of "length x + 8" "map (\<lambda>m. length m + 8) ms"]
  by (force simp: room_for_def messages_size_def)

lemma move_can:
  assumes i: "cl_inv t c s [] j []" and mv: "master_move c s ev out c' s'" and able: "cl_able alloc c"
    and l: "length (mn_requests (cl_master c)) < 2 ^ 64"
    and room: "room_for alloc (mn_messages (cl_master c'))" and x: "x \<in> set out"
  shows "master_can alloc c' x"
proof -
  let ?m = "cl_master c"
  note D = master_moveD [OF mv] and st = master_moveD(1) [OF mv]
  have ok: "mn_ok ?m" "registry_ok ?m" using cl_inv_master [OF i] by simp_all
  have reg: "cl_registered c" "cl_registered c'" using i move_registered [OF _ mv] by (simp_all add: cl_inv_def)
  have pre: "prefix (mn_messages ?m) (mn_messages (cl_master c'))" by (rule mn_messages_mono [OF D(2)])
  then have room0: "room_for alloc (mn_messages ?m)" using room room_for_prefix by (auto simp: prefix_def)
  have old: "connection_of c' e < length (cl_connections c')" if "e < length (cl_endpoints c')" for e
    using that reg(2) by (simp add: connection_of_def cl_registered_def)
  have more: "e < length (cl_endpoints c')" "connection_of c' e = cl_endpoints c ! e"
    "cl_endpoints c ! e < length (cl_connections c')" if "e < length (cl_endpoints c)" for e
    using that move_endpoints [OF mv] reg(1) D(4) by (auto simp: nth_append connection_of_def cl_registered_def)
  have ready: "master_can alloc c' (MN_SetPromise (e, p) A_SecondaryNodeReady) \<and> master_can alloc c' (MN_DropPromise (e, p))"
    if "T_SecondaryNodeReady i name (e, p) \<in> set (mn_posted ?m)" for i name e p
  proof -
    have "ready_at c e p" using able that by (simp add: cl_able_def)
    then show ?thesis using more by (auto simp: ready_at_def D(5))
  qed
  show ?thesis
  proof (cases "(alloc, c', x)" rule: master_can.cases)
    case (1 a1 c1 e)
    then have e: "runs_task ?m ev T_AddSecondary" "e = length (mn_endpoints ?m)"
      using mn_step_runs_endpoint [OF st, of e] x by simp_all
    then have "length (cl_endpoints c') = Suc (length (cl_endpoints c))" "length (cl_endpoints c) = e"
      using mv reg(1) by (auto simp: master_move_def cl_registered_def)
    then show ?thesis using 1 old [of e] by simp
  next
    case (2 a1 c1 e p a)
    then have "MN_SetPromise (e, p) a \<in> set out" using x by simp
    from mn_step_sets_promise [OF st this] show ?thesis
    proof
      assume "\<exists>gap xs. a = A_GetMessages xs \<and> T_GetMessages gap (e, p) \<in> set (mn_posted ?m) \<and>
          (gap, xs, length (mn_requests ?m)) \<in> set (answers_of ?m ev out)"
      then obtain gap xs where g: "a = A_GetMessages xs" "T_GetMessages gap (e, p) \<in> set (mn_posted ?m)"
        "(gap, xs, length (mn_requests ?m)) \<in> set (answers_of ?m ev out)" by blast
      then have q: "query_at c gap e p" using i by (simp add: cl_inv_def cl_queries_def)
      have "answer_sized alloc a"
        using answer_ok_sized [OF ok(1) answers_of_ok [OF ok(1) l st g(3)] room0] g(1) by simp
      then have "master_can alloc c' (MN_SetPromise (e, p) a)" using q g(1) more by (simp add: query_at_def D(5))
      then show ?thesis using 2 by simp
    next
      assume "a = A_SecondaryNodeReady \<and> (\<exists>i name. T_SecondaryNodeReady i name (e, p) \<in> set (mn_posted ?m))"
      then show ?thesis using 2 ready by auto
    qed
  next
    case (3 a1 c1 e p)
    then have "MN_DropPromise (e, p) \<in> set out" using x by simp
    from mn_step_drops_promise [OF st this] show ?thesis
    proof
      assume "e < length (mn_endpoints ?m)"
      then have "e < length (cl_endpoints c)" using reg(1) by (simp add: cl_registered_def)
      then show ?thesis using 3 more old by simp
    next
      assume "\<exists>i name. T_SecondaryNodeReady i name (e, p) \<in> set (mn_posted ?m)"
      then show ?thesis using 3 ready by auto
    qed
  next
    case (4 a1 c1 q e i' k msg)
    then have call: "request_call (cl_master c') e i' k msg q"
      using mn_step_calls [OF ok(2) st] x unfolding mn_step_calls_ok_def by blast
    then have "msg \<in> set (mn_messages (cl_master c'))" by (auto simp: request_call_def mn_messages_def)
    moreover have "connection_of c' e < length (cl_connections c')"
      using connection_of_call [OF reg(2), of e i'] call by (simp add: request_call_def)
    ultimately show ?thesis using 4 message_in_room [OF room] by simp
  qed simp
qed

lemma move_runs_first:
  assumes i: "cl_inv t c s [] j []" and mv: "master_move c s ev out c' s'" and able: "cl_able alloc c"
  shows "runs_first c' out"
proof (cases "\<exists>e. MN_RunEndpoint e \<in> set out")
  case True
  then obtain e where e: "MN_RunEndpoint e \<in> set out" by blast
  let ?m = "cl_master c"
  from mn_step_runs_endpoint [OF master_moveD(1) [OF mv] e] have
    o: "out = [MN_RunEndpoint e]" "runs_task ?m ev T_AddSecondary" "e = length (mn_endpoints ?m)" by simp_all
  obtain ks where ks: "cl_endpoints c' = cl_endpoints c @ ks" "length ks = 1"
    "\<forall>k \<in> set ks. k < length (cl_connections c) \<and> k \<notin> set (cl_endpoints c)"
    using mv o(2) by (auto simp: master_move_def)
  then obtain k where k: "ks = [k]" by (cases ks) auto
  have "length (cl_endpoints c) = e" using i o(3) by (simp add: cl_inv_def cl_registered_def)
  then have "connection_of c' e = k" using ks(1) k by (simp add: connection_of_def nth_append)
  moreover have "\<not> ep_dead c k True" using able ks(3) k by (simp add: cl_able_def)
  ultimately show ?thesis using o(1) master_moveD(5) [OF mv] by (simp add: runs_first_def ep_dead_def)
next
  case False
  moreover have "set (tl out) \<subseteq> set out" by (cases out) auto
  ultimately show ?thesis unfolding runs_first_def by (metis list.set_intros(1) subsetD)
qed


lemma move_able:
  assumes mv: "master_move c s ev out c' s'" and able: "cl_able alloc c"
    and heard: "\<And>e name p. ev = MN_Signal e (Sig_Incoming (Incoming_secondaryNodeReady name p)) \<Longrightarrow>
      e < length (mn_endpoints (cl_master c)) \<Longrightarrow> ready_at c e p"
  shows "cl_able alloc c'"
proof -
  note D = master_moveD [OF mv]
  obtain ks where ks: "cl_endpoints c' = cl_endpoints c @ ks" using mv by (auto simp: master_move_def)
  have "ready_at c' e p" if "ready_at c e p" for e p
    using that by (auto simp: ready_at_def ks nth_append D(5))
  moreover have "ready_at c e p" if "T_SecondaryNodeReady i name (e, p) \<in> set (mn_posted (cl_master c'))" for i name e p
    using mn_step_ready_tasks [OF D(1) that] able heard by (auto simp: cl_able_def)
  ultimately show ?thesis using able by (simp add: cl_able_def D(3-5) ks ep_dead_def)
qed

text \<open>The event happens, and everything it leads to.\<close>

definition cl_goes :: "(nat \<Rightarrow> bool) \<Rightarrow> string list \<Rightarrow> Cluster option \<Rightarrow> bool" where
  "cl_goes alloc ms r \<longleftrightarrow> (\<exists>c'. r = Some c' \<and> cl_able alloc c' \<and> room_for alloc (mn_messages (cl_master c') @ ms))"

lemma master_event_progress:
  assumes i: "cl_inv t c s [] j []" and t: "t \<le> 2 ^ 64" and w: "mn_within (cl_master c) (ev # rest)"
    and ready: "master_ready c ev c0" and able: "cl_able alloc c"
    and room: "room_for alloc (mn_messages (cl_master c) @ message_of ev @ ms)"
    and heard: "\<And>e name p. ev = MN_Signal e (Sig_Incoming (Incoming_secondaryNodeReady name p)) \<Longrightarrow>
      e < length (mn_endpoints (cl_master c)) \<Longrightarrow> ready_at c e p"
  shows "cl_goes alloc ms (master_event alloc draw ev c0)"
proof -
  have m0: "cl_master c0 = cl_master c" using ready by (simp add: master_ready_def)
  have b: "mn_adds (cl_master c) < 2 ^ 31" "Suc (length (mn_requests (cl_master c))) < 2 ^ 64"
    using w by (simp_all add: mn_within_def)
  have ok: "mn_ok (cl_master c)" using cl_inv_master [OF i] by simp
  have good0: "mn_step_good (cl_master c) ev (mn_step (cl_master c) ev)" by (rule mn_step_ok [OF ok b])
  then obtain m' o' where st: "mn_step (cl_master c) ev = Some (Inr (m', o'))" by (auto simp: mn_step_good_def)
  have good: "mn_step_good (cl_master c) ev (Some (Inr (m', o')))" using good0 st by simp
  have mt: "cl_matches c s" using i by (simp add: cl_inv_def)
  then have sm: "sys_ok s" "sys_master s = cl_master c" by (simp_all add: cl_matches_def)
  from master_sys_step [OF sm(1) w [folded sm(2)] st [folded sm(2)]] obtain s' where
    s': "sys_step s (Sys_Master ev) = Some s'" "sys_ok s'" "sys_master s' = m'" "mn_within m' rest"
      "sys_secondaries s' = sys_secondaries s" "sys_answers s' = sys_answers s @ answers_of (cl_master c) ev o'"
      "sys_sent s' = sys_sent s @ concat (map sent_of o')" unfolding sm(2) by blast
  have len: "length (mn_requests m') = length (mn_requests (cl_master c)) + messages_of ev"
    using good by (simp add: mn_step_good_def)
  let ?c = "c0\<lparr>cl_master := m'\<rparr>"
  have "futures_of ?c q = futures_of c0 q" for q by (simp add: futures_of_def)
  then have mv: "master_move c s ev o' ?c s'"
    unfolding master_move_def using st good s' ready len by (simp add: master_ready_def)
  have l: "length (mn_requests (cl_master c)) < 2 ^ 64" using b(2) by simp
  have ms: "mn_messages m' = mn_messages (cl_master c) @ message_of ev" by (rule mn_step_messages [OF ok l st good])
  then have room': "room_for alloc (mn_messages m' @ ms)" using room by simp
  then have room'': "room_for alloc (mn_messages (cl_master ?c))" using room_for_prefix by simp
  from cl_inv_move [OF i mv] have mi: "cl_inv t ?c s' o' j []" "\<forall>x \<in> set o'. master_owes ?c s' x" by blast+
  have can: "\<forall>x \<in> set o'. master_can alloc ?c x" using move_can [OF i mv able l room''] by blast
  have "cl_able alloc ?c" by (rule move_able [OF mv able]) (rule heard)
  from master_outputs_progress [OF mi(1) t mi(2) can move_runs_first [OF i mv able] this, of draw]
  obtain c' where c': "perform_all (master_output alloc draw) o' ?c = Some c'" "cl_able alloc c'" by blast
  from cl_inv_master_outputs [OF mi(1) t c'(1) mi(2)] have "cl_leads ?c c'" by blast
  then have "cl_master c' = m'" by (simp add: cl_leads_def)
  then show ?thesis using c' room' st m0 by (simp add: cl_goes_def master_event_def)
qed


section \<open>The secondaries\<close>

text \<open>Where the effects of a session come from.\<close>

fun ms_out_ok :: "sn_event \<Rightarrow> string \<Rightarrow> ms_out \<Rightarrow> bool" where
  "ms_out_ok ev name MS_RunEndpoint \<longleftrightarrow> ev = SN_Connected False"
| "ms_out_ok ev name (MS_SendSecondaryNodeReady n) \<longleftrightarrow> n = name"
| "ms_out_ok ev name (MS_SetPromise p a) \<longleftrightarrow>
     (\<exists>req now. ev = SN_SessionEvent (MS_Incoming req now) \<and> promise_of req = p \<and> answer_fits req a \<and>
        (\<forall>xs. a \<noteq> A_GetMessages xs))"
| "ms_out_ok ev name _ \<longleftrightarrow> True"

definition sn_outs_ok :: "sn_event \<Rightarrow> SecondaryNodeS \<Rightarrow> SecondaryNodeS \<Rightarrow> sn_out list \<Rightarrow> bool" where
  "sn_outs_ok ev n n' out \<longleftrightarrow>
     name_fits n' \<and> sns_friendlyName n' = sns_friendlyName n \<and>
     (\<forall>z. SN_Session z \<in> set out \<longrightarrow> sns_session n' \<noteq> None \<and> ms_out_ok ev (sns_friendlyName n') z) \<and>
     SN_Session MS_RunEndpoint \<notin> set (tl out)"

lemmas outs_eval =
  sn_session_result_def onSessionInvalidated_def reconnectToMaster_def disconnectMasterSession_def
  onSessionOperational_def sn_outs_ok_def name_fits_def

lemma ms_response_outs:
  assumes st: "sn_session_result (ms_step (MS_Response k v) storage s) n = Some (n', out)"
    and n: "name_fits n" and s: "mss_friendlyName s = sns_friendlyName n"
  shows "sn_outs_ok (SN_SessionEvent (MS_Response k v)) n n' out"
proof (cases "k < length (mss_waiting s)")
  case True
  let ?s = "s\<lparr>mss_waiting := take_nth k (mss_waiting s)\<rparr>"
  show ?thesis
  proof (cases "mss_waiting s ! k")
    case (Cont_Messages gap)
    then have r: "sn_session_result (onMessages gap v storage ?s) n = Some (n', out)"
      using st True by (simp add: take_nth_def Let_def)
    show ?thesis
    proof (cases "\<exists>xs. v = Got_GetMessages xs")
      case got: True
      then show ?thesis using r n s by (auto simp: onMessages_def notifyOperational_def outs_eval)
    next
      case False
      then have "sn_session_result (askForMessages storage ?s) n = Some (n', out)"
        using r by (cases v) (simp_all add: onMessages_def)
      then show ?thesis using n s by (auto simp: askForMessages_def outs_eval split: option.splits)
    qed
  next
    case Cont_Ready
    then have "sn_session_result (onReadyAck v storage ?s) n = Some (n', out)"
      using st True by (simp add: take_nth_def Let_def)
    then show ?thesis using n s
      by (cases v) (auto simp: onReadyAck_def notifyOperational_def outs_eval)
  qed
next
  case False
  then show ?thesis using st n s by (auto simp: outs_eval)
qed

lemma ms_incoming_outs:
  assumes st: "sn_session_result (ms_step (MS_Incoming req now) storage s) n = Some (n', out)"
    and n: "name_fits n" and s: "mss_friendlyName s = sns_friendlyName n"
  shows "sn_outs_ok (SN_SessionEvent (MS_Incoming req now)) n n' out"
  using st n s
  by (cases req) (auto simp: onIncomingAddMessage_def onIncomingPing_def outs_eval)

lemma sn_step_outs:
  assumes st: "sn_step n ev = Some (n', out)" and n: "name_fits n"
  shows "sn_outs_ok ev n n' out"
proof (cases ev)
  case (SN_Connected ec)
  show ?thesis
  proof (cases "sns_connects n = 0 \<or> ec")
    case True
    then show ?thesis using st SN_Connected n
      by (auto simp: onConnected_def sn_outs_ok_def name_fits_def split: if_splits)
  next
    case False
    let ?n = "disconnectMasterSession (n\<lparr>sns_connects := sns_connects n - 1\<rparr>)"
    let ?s = "MasterSession_create (sns_friendlyName ?n)"
    have "sn_session_result (MasterSession_run (sns_storage ?n) ?s) (?n\<lparr>sns_session := Some ?s\<rparr>) = Some (n', out)"
      using st SN_Connected False by (simp add: onConnected_def runMasterSession_def Let_def)
    then show ?thesis using n False SN_Connected
      by (auto simp: MasterSession_run_def askForMessages_def outs_eval MasterSession_create_def split: option.splits)
  qed
next
  case SN_TimerOver
  then show ?thesis using st n by (auto simp: reconnectToMaster_def sn_outs_ok_def name_fits_def split: if_splits)
next
  case (SN_SessionEvent sev)
  show ?thesis
  proof (cases "sns_session n")
    case None
    then show ?thesis using st SN_SessionEvent n by (simp add: sn_outs_ok_def)
  next
    case (Some s)
    then have r: "sn_session_result (ms_step sev (sns_storage n) s) n = Some (n', out)" using st SN_SessionEvent by simp
    have s: "mss_friendlyName s = sns_friendlyName n" using n Some by (simp add: name_fits_def)
    show ?thesis
    proof (cases sev)
      case (MS_Response k v)
      then show ?thesis using ms_response_outs [of k v] r n s SN_SessionEvent by blast
    next
      case MS_Invalidated
      then show ?thesis using r n SN_SessionEvent by (auto simp: onEndpointInvalidated_def outs_eval)
    next
      case (MS_Incoming req now)
      then show ?thesis using ms_incoming_outs [of req now] r n s SN_SessionEvent by blast
    qed
  qed
qed

end
