(* ===== verification/ClusterTotal.thy ===== *)
theory ClusterTotal
  imports ClusterProgress
begin

text \<open>
  Every event of the cluster has a next state: the events of the secondaries, the signals of the
  endpoints, the steps, and with them every run.
\<close>

section \<open>What a session asks for\<close>

fun session_can :: "(nat \<Rightarrow> bool) \<Rightarrow> Cluster \<Rightarrow> nat option \<Rightarrow> sn_out \<Rightarrow> bool" where
  "session_can alloc c (Some k) (SN_Session (MS_SetPromise p a)) \<longleftrightarrow>
     k < length (cl_connections c) \<and> p < length (ln_signals (link_of c k) False) \<and>
     answer_fits (ln_signals (link_of c k) False ! p) a \<and> answer_sized alloc a"
| "session_can alloc c (Some k) (SN_Session (MS_SendSecondaryNodeReady name)) \<longleftrightarrow>
     k < length (cl_connections c) \<and> length name + 64 < 2 ^ 64"
| "session_can alloc c (Some k) (SN_Session z) \<longleftrightarrow> k < length (cl_connections c)"
| "session_can alloc c _ _ \<longleftrightarrow> True"

lemma session_can_connection: "session_can alloc c (Some k) (SN_Session z) \<Longrightarrow> k < length (cl_connections c)"
  by (cases z) simp_all

lemma session_can_leads:
  assumes l: "cl_leads c c'" and o: "session_can alloc c kk x"
  shows "session_can alloc c' kk x"
proof (cases "(alloc, c, kk, x)" rule: session_can.cases)
  case (1 a1 c1 k p a)
  then have k: "k < length (cl_connections c)" "p < length (ln_signals (link_of c k) False)" using o by simp_all
  then have "link_leads (link_of c k) (link_of c' k)" using l by (simp add: cl_leads_def)
  from link_leads_signal [OF this k(2)] show ?thesis using 1 o cl_leads_lengths(1) [OF l] by simp
qed (use o cl_leads_lengths(1) [OF l] in simp_all)

lemma cl_able_members:
  assumes "\<forall>mb \<in> set M. name_fits (mb_node mb)" "cl_able alloc c"
  shows "cl_able alloc (c\<lparr>cl_members := M\<rparr>)"
proof -
  have "link_of (c\<lparr>cl_members := M\<rparr>) k = link_of c k" for k by (simp add: link_of_def)
  then show ?thesis using assms by (simp add: cl_able_def ep_dead_def ready_at_def)
qed

lemma session_call_progress:
  assumes i: "cl_inv t c s mo j so" and t: "t \<le> 2 ^ 64" and k: "k < length (cl_connections c)" and able: "cl_able alloc c"
    and size: "frame_size (request_frame_of 0 r) < 2 ^ 64"
  shows "\<exists>c'. session_call alloc draw a k r cont c = Some c' \<and> cl_able alloc c'"
proof -
  obtain x c1 where c1: "call_endpoint alloc draw k False r c = Some (x, c1)" "cl_able alloc c1"
    using call_endpoint_progress [OF i t k able _ size, of False draw] by auto
  let ?mb = "cl_members c1 ! a"
  let ?M = "(cl_members c1)[a := ?mb\<lparr>mb_futures := mb_futures ?mb @ [(cont, x)]\<rparr>]"
  have "\<forall>mb \<in> set ?M. name_fits (mb_node mb)"
  proof (cases "a < length (cl_members c1)")
    case True
    then have "name_fits (mb_node ?mb)" "\<forall>mb \<in> set (cl_members c1). name_fits (mb_node mb)" using c1(2) by (simp_all add: cl_able_def)
    then show ?thesis using set_update_subset_insert [of "cl_members c1" a] by fastforce
  next
    case False
    then show ?thesis using c1(2) by (simp add: cl_able_def list_update_beyond)
  qed
  from cl_able_members [OF this c1(2)] show ?thesis using c1(1) by (simp add: session_call_def Let_def)
qed

lemma member_output_progress:
  assumes i: "cl_inv t c s mo j (x # so)" and t: "t \<le> 2 ^ 64" and owes: "session_owes c kk x"
    and can: "session_can alloc c kk x" and able: "cl_able alloc c"
    and run: "\<And>k. kk = Some k \<Longrightarrow> x = SN_Session MS_RunEndpoint \<Longrightarrow> \<not> ep_dead c k False"
  shows "\<exists>c'. member_output alloc draw j kk x c = Some c' \<and> cl_able alloc c'"
proof (cases "\<exists>k z. kk = Some k \<and> x = SN_Session z")
  case False
  then have "member_output alloc draw j kk x c = Some c" by (cases "(alloc, draw, j, kk, x, c)" rule: member_output.cases) auto
  then show ?thesis using able by blast
next
  case True
  then obtain k z where kk: "kk = Some k" "x = SN_Session z" by blast
  then have k: "k < length (cl_connections c)" using can session_can_connection by blast
  note asked = asked_progress [OF i t able k] and call = session_call_progress [OF i t k able]
  have "\<exists>c'. session_output alloc draw j k z c = Some c' \<and> cl_able alloc c'"
  proof (cases z)
    case MS_RunEndpoint
    then show ?thesis using asked [of False EP_Run] run [OF kk(1)] kk(2) by (simp add: step_known_simps ep_dead_def)
  next
    case (MS_SendGetMessages gap)
    then show ?thesis using call [of "Req_GetMessages (Request_GetMessages_create gap)"] by (simp add: request_frame_sizes)
  next
    case (MS_SendSecondaryNodeReady name)
    then show ?thesis using call [of "Req_SecondaryNodeReady (Request_SecondaryNodeReady_create name)"] can kk
      by (simp add: request_frame_sizes)
  next
    case (MS_SetPromise p a)
    have "step_known c s k (LN_Event False (EP_SetPromise p (Some a)))"
      using owes kk MS_SetPromise by (intro step_known_simps) (simp add: answer_known_def)
    then show ?thesis using asked [of False "EP_SetPromise p (Some a)"] can kk MS_SetPromise by (simp add: answer_sized_def)
  next
    case (MS_DropPromise p)
    then show ?thesis using asked [of False "EP_SetPromise p None"] by (simp add: step_known_simps)
  qed (use able in simp_all)
  then show ?thesis using kk by simp
qed

definition session_first :: "Cluster \<Rightarrow> nat option \<Rightarrow> sn_out list \<Rightarrow> bool" where
  "session_first c kk so \<longleftrightarrow>
     SN_Session MS_RunEndpoint \<notin> set (tl so) \<and>
     (\<forall>k ys. kk = Some k \<longrightarrow> so = SN_Session MS_RunEndpoint # ys \<longrightarrow> \<not> ep_dead c k False)"

lemma member_outputs_progress:
  assumes "cl_inv t c s mo j so" "t \<le> 2 ^ 64" "j < length (cl_members c)" "owns_session c j kk"
    "\<forall>x \<in> set so. session_owes c kk x \<and> session_can alloc c kk x" "session_first c kk so" "cl_able alloc c"
  shows "\<exists>c'. perform_all (member_output alloc draw j kk) so c = Some c' \<and> cl_able alloc c'"
  using assms
proof (induction so arbitrary: c)
  case (Cons x xs)
  have x: "session_owes c kk x" "session_can alloc c kk x" using Cons.prems(5) by simp_all
  have "\<not> ep_dead c k False" if "kk = Some k" "x = SN_Session MS_RunEndpoint" for k
    using Cons.prems(6) that by (simp add: session_first_def)
  from member_output_progress [OF Cons.prems(1,2) x Cons.prems(7) this] obtain c1 where
    c1: "member_output alloc draw j kk x c = Some c1" "cl_able alloc c1" by blast
  from cl_inv_member_output [OF Cons.prems(1-3) c1(1) Cons.prems(4) x(1)] have
    s1: "cl_inv t c1 s mo j xs" "cl_leads c c1" "map mb_connection (cl_members c1) = map mb_connection (cl_members c)" by simp_all
  have j1: "j < length (cl_members c1)" "mb_node (cl_members c1 ! j) = mb_node (cl_members c ! j)"
    using cl_leads_lengths [OF s1(2)] Cons.prems(3) by simp_all
  have "mb_connection (cl_members c1 ! j) = mb_connection (cl_members c ! j)"
    using s1(3) Cons.prems(3) j1(1) by (metis nth_map)
  then have "owns_session c1 j kk" using Cons.prems(4) j1(2) by (simp add: owns_session_def)
  moreover have "\<forall>y \<in> set xs. session_owes c1 kk y \<and> session_can alloc c1 kk y"
    using Cons.prems(5) session_owes_leads [OF s1(2)] session_can_leads [OF s1(2)] by simp
  moreover have "session_first c1 kk xs"
    using Cons.prems(6) by (cases xs) (auto simp: session_first_def)
  ultimately show ?case using Cons.IH [OF s1(1) Cons.prems(2) j1(1)] c1 by simp
qed simp

section \<open>An event of a member\<close>

lemma member_move_can:
  assumes mv: "member_move c s j ev mb n out s'" and outs: "sn_outs_ok ev (mb_node (cl_members c ! j)) n out" and x: "x \<in> set out"
  shows "session_can alloc (c\<lparr>cl_members := M\<rparr>) (mb_connection mb) x"
proof -
  let ?c = "c\<lparr>cl_members := M\<rparr>"
  have lk: "link_of ?c k = link_of c k" for k by (simp add: link_of_def)
  show ?thesis
  proof (cases "\<exists>k z. mb_connection mb = Some k \<and> x = SN_Session z")
    case True
    then obtain k z where kk: "mb_connection mb = Some k" "x = SN_Session z" by blast
    have z: "sns_session n \<noteq> None" "ms_out_ok ev (sns_friendlyName n) z" "name_fits n"
      using outs x kk(2) by (auto simp: sn_outs_ok_def)
    then obtain k' where "k' < length (cl_connections c)" "mb_connection mb = Some k'"
      using mv unfolding member_move_def session_calls_ok_def by blast
    then have k: "k < length (cl_connections c)" using kk by simp
    show ?thesis
    proof (cases z)
      case (MS_SetPromise p a)
      then obtain req now where r: "ev = SN_SessionEvent (MS_Incoming req now)" "promise_of req = p" "answer_fits req a"
        "\<forall>xs. a \<noteq> A_GetMessages xs" using z(2) by auto
      then have "request_heard c j (Some k) req" using mv kk(1) unfolding member_move_def by metis
      moreover have "answer_sized alloc a" using r(4) by (cases a) simp_all
      ultimately show ?thesis using kk k MS_SetPromise r(2,3) lk by (auto simp: request_heard_def)
    qed (use kk k z in \<open>simp_all add: name_fits_def\<close>)
  next
    case False
    then show ?thesis by (cases "(alloc, ?c, mb_connection mb, x)" rule: session_can.cases) simp_all
  qed
qed

lemma member_event_progress:
  assumes i: "cl_inv t c s [] a []" and t: "t \<le> 2 ^ 64" and l: "length (mn_requests (cl_master c)) < 2 ^ 64"
    and tk: "member_takes c s j mb ev" and able: "cl_able alloc c" and room: "room_for alloc (mn_messages (cl_master c) @ ms)"
    and fresh: "\<And>k. ev = SN_Connected False \<Longrightarrow> mb_connection mb = Some k \<Longrightarrow> \<not> ep_dead c k False"
  shows "cl_goes alloc ms (member_event alloc draw j ev (c\<lparr>cl_members := (cl_members c)[j := mb]\<rparr>))"
proof -
  have j: "j < length (cl_members c)" and mb: "mb_node mb = mb_node (cl_members c ! j)"
    using tk by (auto simp: member_takes_def)
  obtain n out where st: "sn_step (mb_node (cl_members c ! j)) ev = Some (n, out)" using member_steps [OF i l j] by blast
  obtain sev s' where mv: "member_move c s j ev mb n out s'" using member_takes_move [OF tk] st mb by metis
  let ?c = "c\<lparr>cl_members := (cl_members c)[j := member_after mb n]\<rparr>"
  have i1: "cl_inv t ?c s' [] j out" by (rule cl_inv_member_move [OF i l mv])
  have own: "owns_session ?c j (mb_connection mb)" using j by (simp add: owns_session_def member_after_def)
  have names: "\<forall>mb \<in> set (cl_members c). name_fits (mb_node mb)" using able by (simp add: cl_able_def)
  then have outs: "sn_outs_ok ev (mb_node (cl_members c ! j)) n out" using sn_step_outs [OF st] j by simp
  have all: "\<forall>x \<in> set out. session_owes ?c (mb_connection mb) x \<and> session_can alloc ?c (mb_connection mb) x"
    using move_session_owes [OF mv] member_move_can [OF mv outs] by blast
  have "\<not> ep_dead ?c k False" if "mb_connection mb = Some k" "out = SN_Session MS_RunEndpoint # ys" for k ys
  proof -
    have "ev = SN_Connected False" using outs that(2) by (auto simp: sn_outs_ok_def)
    then show ?thesis using fresh that(1) by (simp add: ep_dead_def link_of_def)
  qed
  then have first: "session_first ?c (mb_connection mb) out" using outs by (simp add: session_first_def sn_outs_ok_def)
  have "\<forall>mb \<in> set ((cl_members c)[j := member_after mb n]). name_fits (mb_node mb)"
    using names outs set_update_subset_insert [of "cl_members c" j "member_after mb n"] by (auto simp: sn_outs_ok_def)
  then have able1: "cl_able alloc ?c" using cl_able_members able by blast
  have j1: "j < length (cl_members ?c)" using j by simp
  from member_outputs_progress [OF i1 t j1 own all first able1, of draw] obtain c' where
    c': "perform_all (member_output alloc draw j (mb_connection mb)) out ?c = Some c'" "cl_able alloc c'" by blast
  have owes: "\<forall>x \<in> set out. session_owes ?c (mb_connection mb) x" using all by blast
  from cl_inv_member_outputs [OF i1 t j1 c'(1) own owes] have "cl_leads ?c c'" by blast
  then have "cl_master c' = cl_master c" by (simp add: cl_leads_def)
  moreover have "member_event alloc draw j ev (c\<lparr>cl_members := (cl_members c)[j := mb]\<rparr>) = Some c'"
    using st mb j c'(1) by (simp add: member_event_def member_after_def Let_def)
  ultimately show ?thesis using c'(2) room by (simp add: cl_goes_def)
qed


section \<open>What an endpoint emits\<close>

lemma hear_progress:
  assumes i: "cl_inv t c s [] 0 []" and t: "t \<le> 2 ^ 64" and w: "mn_within (cl_master c) rest"
    and sg: "signal_at c k b sg" and able: "cl_able alloc c" and room: "room_for alloc (mn_messages (cl_master c) @ ms)"
  shows "cl_goes alloc ms (hear alloc draw k b now sg c)"
proof -
  have k: "k < length (cl_connections c)" using sg by (simp add: signal_at_def)
  have drop: "cl_goes alloc ms (drop_signal alloc k b sg c)"
  proof (cases sg)
    case Sig_Invalidated
    then show ?thesis using able room by (simp add: drop_signal_def cl_goes_def)
  next
    case (Sig_Incoming r)
    let ?ev = "EP_SetPromise (promise_of r) None"
    obtain c' where on: "on_endpoint alloc k b ?ev c = Some c'" "cl_able alloc c'"
      using asked_progress [OF i t able k, of b ?ev] by (auto simp: step_known_simps)
    from cl_inv_asked [OF i t on(1)] have "cl_leads c c'" by (simp add: step_known_simps)
    then have "cl_master c' = cl_master c" by (simp add: cl_leads_def)
    then show ?thesis using on room Sig_Incoming by (simp add: drop_signal_def cl_goes_def)
  qed
  show ?thesis
  proof (cases b)
    case True
    show ?thesis
    proof (cases "endpoint_of c k")
      case None
      then show ?thesis using drop True by (simp add: hear_def)
    next
      case (Some e)
      then have e: "e < length (cl_endpoints c)" "cl_endpoints c ! e = k" by (auto simp: endpoint_of_def find_Some_iff)
      have ready: "master_ready c (MN_Signal e sg) c" using signal_ready [OF i _ Some] sg True by simp
      have "ready_at c e' p" if "MN_Signal e sg = MN_Signal e' (Sig_Incoming (Incoming_secondaryNodeReady name p))" for e' name p
        using that sg e True by (auto simp: signal_at_def ready_at_def)
      then have "cl_goes alloc ms (master_event alloc draw (MN_Signal e sg) c)"
        using room by (intro master_event_progress [OF i t mn_within_quiet [OF _ _ w] ready able]) simp_all
      then show ?thesis using True Some by (simp add: hear_def)
    qed
  next
    case False
    let ?j = "co_secondary (cl_connections c ! k)"
    show ?thesis
    proof (cases "mb_connection (cl_members c ! ?j) = Some k")
      case con: True
      have sg': "signal_at c k False sg" using sg False by simp
      from member_event_progress [OF i t mn_within_length [OF w] member_hears [OF i w sg' con, of now] able room, of draw]
      show ?thesis using False con by (simp add: hear_def Let_def)
    next
      case con: False
      then show ?thesis using drop False by (simp add: hear_def Let_def)
    qed
  qed
qed

lemma hear_outputs_progress:
  assumes "cl_inv t c s [] 0 []" "t \<le> 2 ^ 64" "mn_within (cl_master c) rest"
    "\<forall>x \<in> set out. \<forall>sg \<in> set (output_signal x). signal_at c k b sg"
    "cl_able alloc c" "room_for alloc (mn_messages (cl_master c) @ ms)"
  shows "cl_goes alloc ms (perform_all (hear_output alloc draw k b now) out c)"
  using assms
proof (induction out arbitrary: c s)
  case Nil
  then show ?case by (simp add: cl_goes_def)
next
  case (Cons x xs)
  show ?case
  proof (cases "output_signal x")
    case Nil
    then have "hear_output alloc draw k b now x c = Some c" by (cases x) simp_all
    then show ?thesis using Cons.IH [OF Cons.prems(1-3) _ Cons.prems(5,6)] Cons.prems(4) by simp
  next
    case (Cons sg sgs)
    have h: "hear_output alloc draw k b now x c = hear alloc draw k b now sg c" using Cons by (cases x) simp_all
    have sg: "signal_at c k b sg" using Cons Cons.prems(4) by simp
    from hear_progress [OF Cons.prems(1-3) sg Cons.prems(5,6)] obtain c1 where
      c1: "hear alloc draw k b now sg c = Some c1" "cl_able alloc c1" "room_for alloc (mn_messages (cl_master c1) @ ms)"
      unfolding cl_goes_def by blast
    from cl_inv_hear [OF Cons.prems(1-3) sg c1(1)] obtain s1 where
      s1: "cl_inv t c1 s1 [] 0 []" "mn_within (cl_master c1) rest" "cl_keeps c c1" unfolding cl_follows_def by blast
    have "\<forall>y \<in> set xs. \<forall>sg \<in> set (output_signal y). signal_at c1 k b sg"
      using Cons.prems(4) signal_at_keeps [OF s1(3)] by simp
    from Cons.IH [OF s1(1) Cons.prems(2) s1(2) this c1(2,3)] show ?thesis using h c1(1) by simp
  qed
qed

section \<open>The steps\<close>

lemma set_link_able:
  assumes i: "cl_inv t c s [] 0 []" and t: "Suc t \<le> 2 ^ 64" and k: "k < length (cl_connections c)"
    and st: "link_step alloc (link_of c k) lev = Inr ln" and ev: "from_outside (snd (event_of lev))"
    and here: "fst (event_of lev) \<Longrightarrow> endpoint_of c k \<noteq> None" and able: "cl_able alloc c"
    and i': "cl_inv (Suc t) (set_link k ln c) s [] 0 []" and l: "cl_leads c (set_link k ln c)"
  shows "cl_able alloc (set_link k ln c)"
proof -
  let ?c = "set_link k ln c"
  have lk: "link_of ?c k' = (if k' = k then ln else link_of c k')" for k' by (rule link_of_set_link [OF k])
  have t': "t \<le> 2 ^ 64" using t by simp
  have "link_ok ln" using cl_links_ok(1) [OF i' t, of k] lk k by simp
  moreover have "link_sendable alloc (link_of c k)" using able k by (simp add: cl_able_def)
  moreover have "lev \<noteq> LN_Event b (EP_SetPromise a (Some y))" for b a y using ev by auto
  ultimately have "link_sendable alloc ln"
    using link_sendable_step [OF cl_links_ok(1) [OF i t' k] _ st] by blast
  moreover have "\<not> ep_dead ?c k' True" if k': "k' < length (cl_connections c)" "k' \<notin> set (cl_endpoints c)" for k'
  proof -
    have old: "\<not> ep_dead c k' True" using able k' by (simp add: cl_able_def)
    show ?thesis
    proof (cases "k' = k")
      case True
      have "endpoint_of c k = None" using k'(2) True by (force simp: endpoint_of_def find_None_iff in_set_conv_nth)
      then have "\<not> fst (event_of lev)" using here by blast
      then have "ln_ep ln True = ln_ep (link_of c k) True"
        using link_step_update [OF st] by (auto simp: link_update_def)
      then show ?thesis using old True by (simp add: ep_dead_def lk)
    next
      case False
      then show ?thesis using old by (simp add: ep_dead_def lk)
    qed
  qed
  moreover have "ready_at ?c e p" if "ready_at c e p" for e p
    using ready_at_leads [OF l _ that] i by (simp add: cl_inv_def)
  ultimately show ?thesis using able by (simp add: cl_able_def lk)
qed

lemma cl_link_progress:
  assumes i: "cl_inv t c s [] 0 []" and t: "Suc t \<le> 2 ^ 64" and w: "mn_within (cl_master c) rest"
    and able: "cl_able alloc c" and room: "room_for alloc (mn_messages (cl_master c) @ ms)"
  shows "cl_goes alloc ms (cl_link alloc draw k lev now c)"
proof -
  obtain b ev where e: "event_of lev = (b, ev)" by (cases "event_of lev")
  have t': "t \<le> 2 ^ 64" using t by simp
  show ?thesis
  proof (cases "length (cl_connections c) \<le> k \<or> \<not> from_outside ev \<or> b \<and> endpoint_of c k = None \<or> ev = EP_Destroy \<and> \<not> released c k b")
    case True
    then show ?thesis using able room unfolding cl_link_def e by (simp add: cl_goes_def)
  next
    case False
    then have k: "k < length (cl_connections c)" and ev: "from_outside ev" by auto
    have "link_sendable alloc (link_of c k)" using able k by (simp add: cl_able_def)
    from link_step_total [OF cl_links_ok [OF i t' k] this] obtain ln where
      ln: "link_step alloc (link_of c k) lev = Inr ln" by blast
    from cl_link_keeps [OF i t k ln] e ev have
      s1: "cl_inv (Suc t) (set_link k ln c) s [] 0 []" "cl_leads c (set_link k ln c)"
        "\<forall>x \<in> set (link_output alloc (link_of c k) lev). \<forall>sg \<in> set (output_signal x). signal_at (set_link k ln c) k b sg" by simp_all
    have "cl_able alloc (set_link k ln c)"
      by (rule set_link_able [OF i t k ln _ _ able s1(1,2)]) (use False e in auto)
    then have "cl_goes alloc ms (perform_all (hear_output alloc draw k b now) (link_output alloc (link_of c k) lev) (set_link k ln c))"
      using w room by (intro hear_outputs_progress [OF s1(1) t _ s1(3)]) simp_all
    moreover have "cl_link alloc draw k lev now c =
        perform_all (hear_output alloc draw k b now) (link_output alloc (link_of c k) lev) (set_link k ln c)"
      using False ln unfolding cl_link_def e by (auto simp del: link_step.simps)
    ultimately show ?thesis by simp
  qed
qed

lemma cl_answer_progress:
  assumes i: "cl_inv t c s [] 0 []" and t: "t \<le> 2 ^ 64" and w: "mn_within (cl_master c) rest"
    and able: "cl_able alloc c" and room: "room_for alloc (mn_messages (cl_master c) @ ms)"
  shows "cl_goes alloc ms (cl_answer alloc draw q n c)"
proof (cases "length (cl_futures c) \<le> q \<or> length (cl_futures c ! q) \<le> n")
  case True
  then show ?thesis using able room by (simp add: cl_answer_def cl_goes_def)
next
  case False
  obtain a k x where f: "cl_futures c ! q ! n = (a, k, x)" by (metis prod.collapse)
  show ?thesis
  proof (cases "future_outcome c k True x")
    case None
    then show ?thesis using able room False f by (simp add: cl_answer_def cl_goes_def)
  next
    case (Some oc)
    have "master_ready c (MN_Answer q n (response_status oc))
        (c\<lparr>cl_futures := (cl_futures c)[q := take_nth n (cl_futures c ! q)]\<rparr>)"
      using False by (intro answer_ready [OF i _ _ f Some]) simp_all
    from master_event_progress [OF i t mn_within_quiet [OF _ _ w] this able, of ms draw] room
    show ?thesis using False f Some by (simp add: cl_answer_def)
  qed
qed

lemma cl_continue_progress:
  assumes i: "cl_inv t c s [] 0 []" and t: "t \<le> 2 ^ 64" and w: "mn_within (cl_master c) rest"
    and able: "cl_able alloc c" and room: "room_for alloc (mn_messages (cl_master c) @ ms)"
  shows "cl_goes alloc ms (cl_continue alloc draw j n c)"
proof (cases "length (cl_members c) \<le> j \<or> length (mb_futures (cl_members c ! j)) \<le> n \<or> mb_connection (cl_members c ! j) = None")
  case True
  then show ?thesis using able room by (auto simp: cl_continue_def Let_def cl_goes_def)
next
  case False
  let ?mb = "cl_members c ! j"
  obtain k where k: "mb_connection ?mb = Some k" using False by auto
  have j: "j < length (cl_members c)" and n: "n < length (mb_futures ?mb)" using False by simp_all
  show ?thesis
  proof (cases "future_outcome c k False (snd (mb_futures ?mb ! n))")
    case None
    then show ?thesis using able room False k by (simp add: cl_continue_def Let_def cl_goes_def)
  next
    case (Some oc)
    from member_event_progress [OF i t mn_within_length [OF w] member_continues [OF i w j n k Some] able room, of draw]
    show ?thesis using False k Some by (simp add: cl_continue_def Let_def)
  qed
qed

lemma connecting_able:
  assumes "cl_able alloc c" "cl_registered c"
  shows "cl_able alloc (connecting c j)" "\<not> ep_dead (connecting c j) (length (cl_connections c)) b"
proof -
  let ?c = "connecting c j"
  let ?l = "length (cl_connections c)"
  have lk: "link_of ?c k = link_of c k" if "k < ?l" for k using that by (simp add: link_of_def nth_append)
  have new: "link_of ?c ?l = co_link (Connection_create j)" by (simp add: link_of_def)
  show fresh: "\<not> ep_dead ?c ?l b" for b
    unfolding ep_dead_def new by (simp add: Connection_create_def Link_create_def Endpoint_create_def SocketWrapper_create_def)
  have "link_sendable alloc (link_of ?c ?l)"
    unfolding new by (simp add: link_sendable_def promised_def Connection_create_def Link_create_def)
  moreover have "ready_at ?c e p" if q: "ready_at c e p" for e p
  proof -
    have "cl_endpoints c ! e < ?l" using q assms(2) by (simp add: ready_at_def cl_registered_def)
    then show ?thesis using q lk by (simp add: ready_at_def)
  qed
  moreover have "ep_dead ?c k True = ep_dead c k True" if "k < ?l" for k using lk [OF that] by (simp add: ep_dead_def)
  ultimately show "cl_able alloc ?c"
    using assms(1) fresh lk unfolding cl_able_def by (auto simp: less_Suc_eq)
qed

lemma cl_connected_progress:
  assumes i: "cl_inv t c s [] 0 []" and t: "t \<le> 2 ^ 64" and w: "mn_within (cl_master c) rest"
    and able: "cl_able alloc c" and room: "room_for alloc (mn_messages (cl_master c) @ ms)"
  shows "cl_goes alloc ms (cl_connected alloc draw j ec c)"
proof (cases "length (cl_members c) \<le> j \<or> sns_connects (mb_node (cl_members c ! j)) = 0")
  case True
  then show ?thesis using able room by (auto simp: cl_connected_def cl_goes_def)
next
  case False
  then have j: "j < length (cl_members c)" and n: "sns_connects (mb_node (cl_members c ! j)) \<noteq> 0" by simp_all
  show ?thesis
  proof (cases ec)
    case True
    from member_event_progress [OF i t mn_within_length [OF w] failed_connection_takes [OF i w j n] able room, of draw]
    show ?thesis using False True by (simp add: cl_connected_def)
  next
    case ok: False
    have "cl_registered c" using i by (simp add: cl_inv_def)
    note A = connecting_able [OF able this, of j]
    have "cl_goes alloc ms (member_event alloc draw j (SN_Connected False)
        (connecting c j\<lparr>cl_members := (cl_members (connecting c j))[j := connecting_member c j]\<rparr>))"
      using A room mn_within_length [OF w]
      by (intro member_event_progress [OF cl_inv_new_connection(1) [OF i j] t _ connection_takes [OF i w j n]]) auto
    then show ?thesis using False ok by (simp add: cl_connected_def)
  qed
qed

lemma pings_progress:
  assumes "cl_inv t c s [] 0 []" "t \<le> 2 ^ 64" "cl_able alloc c" "room_for alloc (mn_messages (cl_master c) @ ms)"
    "\<forall>(e, u) \<in> set pings. connection_of c e < length (cl_connections c)"
  shows "cl_goes alloc ms (perform_all (\<lambda>(e, t) c. map_option snd
       (call_endpoint alloc draw (connection_of c e) True (Req_Ping (Request_Ping_create t)) c)) pings c)"
  using assms
proof (induction pings arbitrary: c)
  case Nil
  then show ?case by (simp add: cl_goes_def)
next
  case (Cons p ps)
  obtain e u where p: "p = (e, u)" by (cases p)
  have k: "connection_of c e < length (cl_connections c)" using Cons.prems(5) p by simp
  have kn: "call_known s (Req_Ping (Request_Ping_create u))" by simp
  obtain x c1 where c1: "call_endpoint alloc draw (connection_of c e) True (Req_Ping (Request_Ping_create u)) c = Some (x, c1)"
    "cl_able alloc c1" using call_endpoint_progress [OF Cons.prems(1,2) k Cons.prems(3) kn, where draw = draw and b = True] by (auto simp: request_frame_sizes)
  note C = cl_inv_call [OF Cons.prems(1,2) c1(1) kn]
  have "cl_master c1 = cl_master c" using C(2) by (simp add: cl_leads_def)
  moreover have "\<forall>(e, u) \<in> set ps. connection_of c1 e < length (cl_connections c1)"
    using Cons.prems(5) connection_of_leads [OF C(2)] cl_leads_lengths(1) [OF C(2)] by simp
  ultimately show ?case using Cons.IH [OF C(1) Cons.prems(2) c1(2)] Cons.prems(4) c1(1) p by simp
qed

lemma cl_ping_progress:
  assumes i: "cl_inv t c s [] 0 []" and t: "t \<le> 2 ^ 64" and able: "cl_able alloc c"
    and room: "room_for alloc (mn_messages (cl_master c) @ ms)"
  shows "cl_goes alloc ms (cl_ping alloc draw u c)"
proof (cases "pingSecondaries u (cl_master c)")
  case (Inl x)
  then show ?thesis using able room by (simp add: cl_ping_def cl_goes_def)
next
  case (Inr pings)
  have reg: "cl_registered c" "registry_ok (cl_master c)" using i cl_inv_master [OF i] by (simp_all add: cl_inv_def)
  have "pings = map (\<lambda>y. (snap_endpoint y, u)) (secondariesSnapshot (cl_master c))"
    using Inr by (auto simp: pingSecondaries_def Let_def split: if_splits)
  then have "\<forall>(e, u) \<in> set pings. connection_of c e < length (cl_connections c)"
    using snapshot_entry [OF reg(2)] connection_of_call [OF reg(1)] by auto
  from pings_progress [OF i t able room this] show ?thesis using Inr by (simp add: cl_ping_def)
qed


section \<open>Every step, every run\<close>

lemma cl_step_progress:
  assumes i: "cl_inv t c s [] 0 []" and t: "Suc t \<le> 2 ^ 64" and w: "mn_within (cl_master c) (asked_of ev @ rest)"
    and able: "cl_able alloc c" and room: "room_for alloc (mn_messages (cl_master c) @ concat (map message_of (asked_of ev)) @ ms)"
  shows "cl_goes alloc ms (cl_step alloc draw c ev)"
proof -
  have t': "t \<le> 2 ^ 64" using t by simp
  note master = master_event_progress [OF i t' _ _ able, of _ rest]
  have quiet: "cl_goes alloc ms (master_event alloc draw mev c0)"
    if "connections_of mev = 0" "messages_of mev = 0" "message_of mev = []" "mn_within (cl_master c) rest" "master_ready c mev c0"
      "room_for alloc (mn_messages (cl_master c) @ ms)" "\<And>e sg. mev \<noteq> MN_Signal e sg" for mev c0
  proof (rule master [OF mn_within_quiet [OF that(1,2,4)] that(5)])
    show "room_for alloc (mn_messages (cl_master c) @ message_of mev @ ms)" using that(3,6) by simp
  qed (use that(7) in blast)
  show ?thesis
  proof (cases ev)
    case CL_Accept
    then show ?thesis using w room by (simp, intro master [OF _ plain_events_ready(1) [OF i]]) simp_all
  next
    case (CL_Master n k)
    have w': "mn_within (cl_master c) rest" "room_for alloc (mn_messages (cl_master c) @ ms)" using w room CL_Master by simp_all
    show ?thesis
    proof (cases "n < length (mn_posted (cl_master c)) \<and> mn_posted (cl_master c) ! n = T_AddSecondary")
      case True
      show ?thesis
      proof (cases "length (cl_connections c) \<le> k \<or> k \<in> set (cl_endpoints c)")
        case skip: True
        then show ?thesis using True able w'(2) CL_Master by (simp add: cl_goes_def)
      next
        case False
        then have "master_ready c (MN_RunPosted n) (c\<lparr>cl_endpoints := cl_endpoints c @ [k]\<rparr>)"
          using True by (intro add_secondary_ready [OF i]) simp_all
        then show ?thesis using True False CL_Master quiet [of "MN_RunPosted n"] w' by simp
      qed
    next
      case False
      show ?thesis using False CL_Master quiet [of "MN_RunPosted n", OF _ _ _ w'(1) plain_events_ready(3) [OF i False] w'(2)] by auto
    qed
  next
    case (CL_AddMessage message wc)
    then show ?thesis using w room by (simp, intro master [OF _ add_message_ready [OF i]]) simp_all
  next
    case (CL_WaitOver q)
    then show ?thesis using w room quiet [OF _ _ _ _ plain_events_ready(2) [OF i]] by simp
  next
    case (CL_Answer q n)
    then show ?thesis using w room cl_answer_progress [OF i t' _ able] by simp
  next
    case (CL_Ping u)
    then show ?thesis using room cl_ping_progress [OF i t' able] by simp
  next
    case (CL_Connected j ec)
    then show ?thesis using w room cl_connected_progress [OF i t' _ able] by simp
  next
    case (CL_TimerOver j)
    have w': "mn_within (cl_master c) rest" "room_for alloc (mn_messages (cl_master c) @ ms)" using w room CL_TimerOver by simp_all
    show ?thesis
    proof (cases "length (cl_members c) \<le> j")
      case True
      then show ?thesis using able w'(2) CL_TimerOver by (simp add: cl_goes_def)
    next
      case False
      then have "member_takes c s j (cl_members c ! j) SN_TimerOver" by (intro timer_takes [OF i w'(1)]) simp
      from member_event_progress [OF i t' mn_within_length [OF w'(1)] this able w'(2), of draw]
      show ?thesis using False CL_TimerOver by simp
    qed
  next
    case (CL_Continue j n)
    then show ?thesis using w room cl_continue_progress [OF i t' _ able] by simp
  next
    case (CL_Link k lev now)
    then show ?thesis using w room cl_link_progress [OF i t _ able] by simp
  qed
qed

text \<open>The messages that are asked for in a run.\<close>

abbreviation messages_asked :: "cl_event list \<Rightarrow> string list" where
  "messages_asked evs \<equiv> concat (map message_of (concat (map asked_of evs)))"

lemma cl_run_progress:
  assumes "cl_inv t c s [] 0 []" "t + length evs \<le> 2 ^ 64" "mn_within (cl_master c) (concat (map asked_of evs) @ rest)"
    "cl_able alloc c" "room_for alloc (mn_messages (cl_master c) @ messages_asked evs)"
  shows "\<exists>c'. run_steps (cl_run_step alloc draw) (Some c) evs = Some c' \<and> cl_able alloc c' \<and> room_for alloc (mn_messages (cl_master c'))"
  using assms
proof (induction evs arbitrary: t c s)
  case (Cons ev evs)
  have t: "Suc t \<le> 2 ^ 64" and w: "mn_within (cl_master c) (asked_of ev @ concat (map asked_of evs) @ rest)"
    using Cons.prems(2,3) by simp_all
  have "room_for alloc (mn_messages (cl_master c) @ concat (map message_of (asked_of ev)) @ messages_asked evs)"
    using Cons.prems(5) by simp
  from cl_step_progress [OF Cons.prems(1) t w Cons.prems(4) this] obtain c1 where
    c1: "cl_step alloc draw c ev = Some c1" "cl_able alloc c1" "room_for alloc (mn_messages (cl_master c1) @ messages_asked evs)"
    unfolding cl_goes_def by blast
  from cl_step_follows [OF Cons.prems(1) t w c1(1)] obtain s1 where
    s1: "cl_inv (Suc t) c1 s1 [] 0 []" "mn_within (cl_master c1) (concat (map asked_of evs) @ rest)"
    unfolding cl_follows_def by blast
  from Cons.IH [OF s1(1) _ s1(2) c1(2,3)] Cons.prems(2) show ?case using c1(1) by auto
qed simp

lemma cl_able_create:
  assumes "\<forall>name \<in> set names. length name + 64 < 2 ^ 64"
  shows "cl_able alloc (cl_create names)"
  using assms by (auto simp: cl_able_def cl_create_def MasterNode_create_def name_fits_def SecondaryNodeS_run_def
      SecondaryNodeS_create_def reconnectToMaster_def)

definition cl_fits :: "(nat \<Rightarrow> bool) \<Rightarrow> string list \<Rightarrow> cl_event list \<Rightarrow> bool" where
  "cl_fits alloc names evs \<longleftrightarrow>
     room_for alloc (messages_asked evs) \<and> (\<forall>name \<in> set names. length name + 64 < 2 ^ 64)"

section \<open>Property\<close>



end
