(* ===== verification/QueryExchange.thy ===== *)
theory QueryExchange
  imports ClusterTotal
begin

text \<open>
  The exchange a secondary starts on a new connection when nothing is lost: its query is written, read
  and heard by the master's endpoint, and the answer is written, read and ends in its future. The
  states of the connection have names; the lemmas say which event leads from one to the next.
\<close>

section \<open>The states of the connection\<close>

text \<open>Memory never runs out.\<close>

abbreviation memory :: "nat \<Rightarrow> bool" where "memory \<equiv> \<lambda>_. True"

definition link_then :: "link_event list \<Rightarrow> Link \<Rightarrow> Link" where
  "link_then levs ln = (case run_steps (link_run_step memory) (Inr ln) levs of Inl _ \<Rightarrow> ln | Inr ln' \<Rightarrow> ln')"

text \<open>Events of a connection that are no news for the nodes.\<close>

definition silent :: "(nat \<Rightarrow> bool) \<Rightarrow> Link \<Rightarrow> link_event \<Rightarrow> bool" where
  "silent alloc ln lev \<longleftrightarrow> concat (map output_signal (link_output alloc ln lev)) = []"

fun silent_run :: "(nat \<Rightarrow> bool) \<Rightarrow> link_event list \<Rightarrow> Link \<Rightarrow> Link option" where
  "silent_run alloc [] ln = Some ln"
| "silent_run alloc (lev # levs) ln =
     (if \<not> silent alloc ln lev then None
      else (case link_step alloc ln lev of Inl _ \<Rightarrow> None | Inr ln' \<Rightarrow> silent_run alloc levs ln'))"

abbreviation new_link :: Link where
  "new_link \<equiv> Link_create kOutcomingRequestTimeout kArtificialSendDelayBounds"

abbreviation query :: "size_t \<Rightarrow> Request" where
  "query gap \<equiv> Req_GetMessages (Request_GetMessages_create gap)"

abbreviation query_frame :: "size_t \<Rightarrow> ep_event" where
  "query_frame gap \<equiv> EP_FrameRead (Some (request_frame_bytes 0 (query gap)))"

definition opened :: Link where
  "opened = link_then [LN_Event False EP_Run] new_link"

definition asked :: "size_t \<Rightarrow> duration_ms \<Rightarrow> Link" where
  "asked gap d = link_then [LN_Event False (EP_SendRequest (query gap) K_GetMessages d)] opened"

definition accepted :: "size_t \<Rightarrow> duration_ms \<Rightarrow> Link" where
  "accepted gap d = link_then [LN_Event True EP_Run] (asked gap d)"

definition query_events :: "link_event list" where
  "query_events =
     map (LN_Event False) [EP_RunSend 0, EP_DelayExpired 0, EP_RunWrite 0, EP_Written False] @
     [LN_Event True (EP_FrameSizeRead (Some (size_bytes 18)))]"

definition arriving :: "size_t \<Rightarrow> duration_ms \<Rightarrow> Link" where
  "arriving gap d = link_then query_events (accepted gap d)"

definition heard :: "size_t \<Rightarrow> duration_ms \<Rightarrow> Link" where
  "heard gap d = link_then [LN_Event True (query_frame gap)] (arriving gap d)"

definition answered :: "size_t \<Rightarrow> duration_ms \<Rightarrow> string list \<Rightarrow> Link" where
  "answered gap d xs = link_then [LN_Event True (EP_SetPromise 0 (Some (A_GetMessages xs)))] (heard gap d)"

definition answer_events :: "string list \<Rightarrow> link_event list" where
  "answer_events xs =
     map (LN_Event True) [EP_RunAnswer 0, EP_RunWrite 0, EP_Written False] @
     map (LN_Event False)
       [EP_FrameSizeRead (Some (size_bytes (17 + word_of_nat (messages_size xs)))),
        EP_FrameRead (Some (response_frame_bytes 0 (answer_response (A_GetMessages xs))))]"

definition finished :: "size_t \<Rightarrow> duration_ms \<Rightarrow> string list \<Rightarrow> Link" where
  "finished gap d xs = link_then (answer_events xs) (answered gap d xs)"

section \<open>The steps of the exchange\<close>

lemma answer_length: "length (response_frame_bytes i (answer_response (A_GetMessages xs))) = 17 + messages_size xs"
proof -
  have p: "response_payload (answer_response (A_GetMessages xs)) = size_bytes (word_of_nat (length xs)) @ messages_bytes xs"
    using GetMessages_wire_create [of xs "[]"] by (simp add: response_payload_def)
  show ?thesis
    using p by (simp add: frame_size_concat response_frame_bytes_split constructResponseHeaderWoOwnership_def
        length_messages_bytes serialize_eqs enum_bytes_def)
qed

lemma answer_size_word: "n < 2 ^ 64 \<Longrightarrow> unat (17 + word_of_nat n :: size_t) = (17 + n) mod 2 ^ 64"
  by (simp add: unat_word_ariths unat_of_nat take_bit_nat_eq_self)

lemma answer_read:
  assumes "fits_wire xs" "oc_promiseFilled c = False" "oc_promise c = Unsatisfied"
  shows "OutCtx_GetMessages_onResponse memory (Some (response_payload (answer_response (A_GetMessages xs)))) c =
    Inr (c\<lparr>oc_promiseFilled := True, oc_promise := Value xs\<rparr>)"
  using GetMessages_create_reads [OF assms(1), of memory] assms(2,3)
  by (simp add: OutCtx_GetMessages_onResponse_def response_payload_def fulfilPromise_unfilled)

lemmas query_eval = link_eval link_eval_extra query_events_def answer_events_def frame_lengths answer_length
  ep_onIncomingFrame_request ep_onIncomingFrame_response answer_size_word answer_read Request_GetMessages_create_def
  kArtificialSendDelayBounds_def kOutcomingRequestTimeout_def link_then_def silent_def
  opened_def asked_def accepted_def arriving_def heard_def answered_def

lemma query_steps:
  "link_step memory new_link (LN_Event False EP_Run) = Inr opened"
  "link_step memory opened (LN_Event False (EP_SendRequest (query gap) K_GetMessages d)) = Inr (asked gap d)"
  "link_step memory (asked gap d) (LN_Event True EP_Run) = Inr (accepted gap d)"
  "silent_run memory query_events (accepted gap d) = Some (arriving gap d)"
  "link_step memory (arriving gap d) (LN_Event True (query_frame gap)) = Inr (heard gap d)"
  "link_output memory (arriving gap d) (LN_Event True (query_frame gap)) = [EP_Incoming (Incoming_getMessages gap 0)]"
  by (simp_all add: query_eval)

lemma query_allowed:
  "link_allows new_link False EP_Run" "link_allows opened False (EP_SendRequest (query gap) K_GetMessages d)"
  "link_allows (asked gap d) True EP_Run" "om_nextContext (ep_outcoming (ln_ep opened False)) = 0"
  by (simp_all add: query_eval)

lemma answer_steps:
  assumes "17 + messages_size xs < 2 ^ 64" "fits_wire xs"
  shows "link_step memory (heard gap d) (LN_Event True (EP_SetPromise 0 (Some (A_GetMessages xs)))) = Inr (answered gap d xs)"
    "silent_run memory (answer_events xs) (answered gap d xs) = Some (finished gap d xs)"
    "om_nextContext (ep_outcoming (ln_ep (finished gap d xs) False)) = 1"
    "outcome_of (om_contexts (ep_outcoming (ln_ep (finished gap d xs) False)) 0) = Some (Got_GetMessages xs)"
  using assms by (simp_all add: query_eval finished_def del: answer_response.simps)

lemma answer_allowed:
  assumes "17 + messages_size xs < 2 ^ 64" "fits_wire xs"
  shows "link_allows (heard gap d) True (EP_SetPromise 0 (Some (A_GetMessages xs)))"
  using assms response_frame_sizes(4) [of xs] by (simp add: query_eval del: answer_response.simps)

end
