(* ===== verification/ClusterRecovery.thy ===== *)
theory ClusterRecovery
  imports QueryExchange
begin

text \<open>
  The running program can always recover: from every reachable state a given secondary connects, its
  query travels to the master, and the answer makes it operational with all messages, over real
  endpoints and bytes.
\<close>

section \<open>Runs that are never stuck\<close>

definition cl_good :: "(nat \<Rightarrow> bool) \<Rightarrow> nat \<Rightarrow> mn_event list \<Rightarrow> Cluster \<Rightarrow> bool" where
  "cl_good alloc t rest c \<longleftrightarrow>
     (\<exists>s. cl_inv t c s [] 0 []) \<and> mn_within (cl_master c) rest \<and> cl_able alloc c \<and> room_for alloc (mn_messages (cl_master c))"

lemma cl_good_step:
  assumes g: "cl_good alloc t (asked_of ev @ rest) c" and t: "Suc t \<le> 2 ^ 64" and m: "concat (map message_of (asked_of ev)) = []"
  shows "\<exists>c'. cl_step alloc draw c ev = Some c' \<and> cl_good alloc (Suc t) rest c'"
proof -
  obtain s where s: "cl_inv t c s [] 0 []" "mn_within (cl_master c) (asked_of ev @ rest)" "cl_able alloc c"
    "room_for alloc (mn_messages (cl_master c))" using g unfolding cl_good_def by blast
  have "room_for alloc (mn_messages (cl_master c) @ concat (map message_of (asked_of ev)) @ [])"
    using s(4) by (simp only: m append_Nil2)
  from cl_step_progress [OF s(1) t s(2,3) this] obtain c' where
    c': "cl_step alloc draw c ev = Some c'" "cl_able alloc c'" "room_for alloc (mn_messages (cl_master c'))"
    unfolding cl_goes_def by auto
  from cl_step_follows [OF s(1) t s(2) c'(1)] show ?thesis using c' unfolding cl_follows_def cl_good_def by blast
qed

lemma cl_good_run:
  assumes "cl_good alloc t (concat (map asked_of evs) @ rest) c" "t + length evs \<le> 2 ^ 64" "messages_asked evs = []"
  shows "\<exists>c'. run_steps (cl_run_step alloc draw) (Some c) evs = Some c' \<and> cl_good alloc (t + length evs) rest c'"
  using assms
proof (induction evs arbitrary: t c)
  case (Cons ev evs)
  have "cl_good alloc t (asked_of ev @ concat (map asked_of evs) @ rest) c" "Suc t \<le> 2 ^ 64"
    "concat (map message_of (asked_of ev)) = []" "messages_asked evs = []" using Cons.prems by simp_all
  from cl_good_step [OF this(1-3)] obtain c1 where
    c1: "cl_step alloc draw c ev = Some c1" "cl_good alloc (Suc t) (concat (map asked_of evs) @ rest) c1" by blast
  from Cons.IH [OF c1(2)] Cons.prems(2) \<open>messages_asked evs = []\<close> show ?case using c1(1) by auto
qed simp

lemma on_endpoint_eq:
  "k < length (cl_connections c) \<Longrightarrow> link_allows (link_of c k) b ev \<Longrightarrow>
     link_step alloc (link_of c k) (LN_Event b ev) = Inr ln \<Longrightarrow> on_endpoint alloc k b ev c = Some (set_link k ln c)"
  by (simp add: on_endpoint_def del: link_step.simps)

lemma hear_silent:
  "concat (map output_signal out) = [] \<Longrightarrow> perform_all (hear_output alloc draw k b now) out c = Some c"
proof (induction out)
  case (Cons x xs)
  then show ?case by (cases x) simp_all
qed simp

text \<open>The events of an endpoint that can always happen on an existing connection.\<close>

definition plain_event :: "link_event \<Rightarrow> bool" where
  "plain_event lev \<longleftrightarrow> from_outside (snd (event_of lev)) \<and> snd (event_of lev) \<noteq> EP_Destroy"

lemma cl_link_eq:
  assumes k: "k < length (cl_connections c)" and ev: "plain_event lev" and e: "fst (event_of lev) \<Longrightarrow> endpoint_of c k \<noteq> None"
    and st: "link_step alloc (link_of c k) lev = Inr ln"
  shows "cl_link alloc draw k lev now c =
    perform_all (hear_output alloc draw k (fst (event_of lev)) now) (link_output alloc (link_of c k) lev) (set_link k ln c)"
  using assms by (cases "event_of lev") (auto simp: cl_link_def plain_event_def simp del: link_step.simps)

lemma set_link_set_link: "set_link k l2 (set_link k l1 c) = set_link k l2 c"
  by (cases "k < length (cl_connections c)") (simp_all add: set_link_def list_update_beyond)

lemma set_link_same: "k < length (cl_connections c) \<Longrightarrow> set_link k (link_of c k) c = c"
  by (simp add: set_link_def link_of_def)

lemma endpoint_of_set_link [simp]: "endpoint_of (set_link k ln c) k' = endpoint_of c k'"
  by (simp add: endpoint_of_def)

lemma silent_links:
  assumes "silent_run alloc levs (link_of c k) = Some ln" "k < length (cl_connections c)" "\<forall>lev \<in> set levs. plain_event lev"
    "endpoint_of c k \<noteq> None"
  shows "run_steps (cl_run_step alloc draw) (Some c) (map (\<lambda>lev. CL_Link k lev 0) levs) = Some (set_link k ln c)"
  using assms
proof (induction levs arbitrary: c)
  case Nil
  then have "ln = link_of c k" by simp
  then show ?case using set_link_same [OF Nil(2)] by (simp only: list.map run_steps.simps)
next
  case (Cons lev levs)
  obtain l1 where l1: "silent alloc (link_of c k) lev" "link_step alloc (link_of c k) lev = Inr l1"
    "silent_run alloc levs l1 = Some ln"
    using Cons.prems(1) by (auto simp del: link_step.simps split: if_splits sum.splits)
  have "cl_link alloc draw k lev 0 c = Some (set_link k l1 c)"
    using cl_link_eq [OF Cons.prems(2) _ _ l1(2)] Cons.prems(3,4) l1(1) hear_silent by (simp add: silent_def)
  then show ?case
    using Cons.IH [of "set_link k l1 c"] Cons.prems l1(3) by (simp add: link_of_set_link set_link_set_link)
qed

section \<open>The secondary connects\<close>

abbreviation delay_of :: "distribution \<Rightarrow> duration_ms" where
  "delay_of draw \<equiv> chooseSendDelay draw (ln_ep opened False)"

definition asking_member :: "nat \<Rightarrow> SecondaryNodeS \<Rightarrow> size_t \<Rightarrow> Member" where
  "asking_member k n gap =
     \<lparr>mb_node = n\<lparr>sns_connects := sns_connects n - 1, sns_operational := False,
        sns_session := Some \<lparr>mss_friendlyName = sns_friendlyName n, mss_waiting = [Cont_Messages gap]\<rparr>\<rparr>,
      mb_connection = Some k, mb_futures = [(Cont_Messages gap, 0)]\<rparr>"

definition asking :: "distribution \<Rightarrow> nat \<Rightarrow> size_t \<Rightarrow> Cluster \<Rightarrow> Cluster" where
  "asking draw j gap c =
     c\<lparr>cl_connections := cl_connections c @ [\<lparr>co_link = asked gap (delay_of draw), co_secondary = j\<rparr>],
       cl_members := (cl_members c)[j := asking_member (length (cl_connections c)) (mb_node (cl_members c ! j)) gap]\<rparr>"

lemma connect_step:
  assumes j: "j < length (cl_members c)" and n: "sns_connects (mb_node (cl_members c ! j)) \<noteq> 0"
    and gap: "SecondaryStorage_getFirstGap (sns_storage (mb_node (cl_members c ! j))) = Some gap"
  shows "cl_step memory draw c (CL_Connected j False) = Some (asking draw j gap c)"
proof -
  let ?l = "length (cl_connections c)" and ?n = "mb_node (cl_members c ! j)"
  let ?n' = "mb_node (asking_member ?l ?n gap)"
  have st: "sn_step ?n (SN_Connected False) = Some (?n', [SN_Session MS_RunEndpoint, SN_Session (MS_SendGetMessages gap)])"
    using n gap by (simp add: onConnected_def runMasterSession_def disconnectMasterSession_def sn_session_result_def
        MasterSession_run_def MasterSession_create_def askForMessages_def asking_member_def Let_def)
  let ?c1 = "c\<lparr>cl_connections := cl_connections c @ [Connection_create j],
     cl_members := (cl_members c)[j := \<lparr>mb_node = ?n', mb_connection = Some ?l, mb_futures = []\<rparr>]\<rparr>"
  have lk: "link_of ?c1 ?l = new_link" by (simp add: link_of_def Connection_create_def)
  have on1: "on_endpoint memory ?l False EP_Run ?c1 = Some (set_link ?l opened ?c1)"
    by (rule on_endpoint_eq) (simp_all only: lk query_allowed query_steps, simp)
  have lk2: "link_of (set_link ?l opened ?c1) ?l = opened" by (simp add: link_of_set_link)
  have on2: "on_endpoint memory ?l False (EP_SendRequest (query gap) K_GetMessages d) (set_link ?l opened ?c1) =
     Some (set_link ?l (asked gap d) ?c1)" for d
    using on_endpoint_eq [of ?l "set_link ?l opened ?c1" False "EP_SendRequest (query gap) K_GetMessages d" memory "asked gap d"]
    by (simp only: lk2 query_allowed query_steps set_link_set_link) simp
  have ses: "(sns_session ?n' = None) = False" by (simp add: asking_member_def)
  have mb: "connecting_member c j\<lparr>mb_node := ?n'\<rparr> =
    \<lparr>mb_node = ?n', mb_connection = Some ?l, mb_futures = []\<rparr>" by simp
  show ?thesis
    using j st n
    by (simp add: cl_connected_def member_event_def Let_def on1 session_call_def call_endpoint_def lk2 on2 query_allowed mb ses
        del: sn_step.simps) (simp add: set_link_def asking_def asking_member_def Connection_create_def)
qed


section \<open>The master answers\<close>

lemma master_event_eq:
  "mn_step (cl_master c) ev = Some (Inr (m, out)) \<Longrightarrow>
     master_event alloc draw ev c = perform_all (master_output alloc draw) out (c\<lparr>cl_master := m\<rparr>)"
  by (simp add: master_event_def)

lemma accept_step: "cl_step alloc draw c CL_Accept = Some (c\<lparr>cl_master := addSecondary (cl_master c)\<rparr>)"
  by (simp add: master_event_eq)

definition registered :: "nat \<Rightarrow> Cluster \<Rightarrow> Cluster" where
  "registered k c = c\<lparr>cl_master := fst (addSecondaryImpl (cl_master c)), cl_endpoints := cl_endpoints c @ [k]\<rparr>"

lemma find_later: "find P xs = None \<Longrightarrow> find P (xs @ ys) = find P ys"
  by (induction xs) (auto split: if_splits)

lemma endpoint_of_registered:
  assumes "k \<notin> set (cl_endpoints c)"
  shows "endpoint_of (registered k c) k = Some (length (cl_endpoints c))"
proof -
  have n: "\<forall>e < length (cl_endpoints c). cl_endpoints c ! e \<noteq> k" using assms by (metis nth_mem)
  then have "find (\<lambda>e. (cl_endpoints c @ [k]) ! e = k) [0..<length (cl_endpoints c)] = None"
    by (auto simp: find_None_iff nth_append)
  then show ?thesis by (simp add: endpoint_of_def registered_def find_later)
qed

lemma register_step:
  assumes k: "k < length (cl_connections c)" "k \<notin> set (cl_endpoints c)" "link_of c k = asked gap d"
    and reg: "length (cl_endpoints c) = length (mn_endpoints (cl_master c))"
  shows "cl_step memory draw (c\<lparr>cl_master := addSecondary (cl_master c)\<rparr>) (CL_Master (length (mn_posted (cl_master c))) k) =
    Some (set_link k (accepted gap d) (registered k c))"
proof -
  let ?m = "cl_master c" and ?n = "length (mn_posted (cl_master c))"
  let ?c1 = "c\<lparr>cl_master := addSecondary ?m, cl_endpoints := cl_endpoints c @ [k]\<rparr>"
  have m: "(addSecondary ?m)\<lparr>mn_posted := mn_posted ?m\<rparr> = ?m" by (simp add: addSecondary_def)
  then have st: "mn_step (addSecondary ?m) (MN_RunPosted ?n) = Some (Inr (fst (addSecondaryImpl ?m), [MN_RunEndpoint (length (mn_endpoints ?m))]))"
    by (simp add: addSecondary_def nth_append addSecondaryImpl_def Let_def)
  have cn: "connection_of (registered k c) (length (mn_endpoints ?m)) = k"
    using reg by (simp add: connection_of_def registered_def nth_append)
  have lk: "link_of (registered k c) k = asked gap d" using k(3) by (simp add: link_of_def registered_def)
  have "on_endpoint memory k True EP_Run (registered k c) = Some (set_link k (accepted gap d) (registered k c))"
    using k(1) by (intro on_endpoint_eq) (simp_all only: lk query_allowed query_steps, simp add: registered_def)
  moreover have "?c1\<lparr>cl_master := fst (addSecondaryImpl ?m)\<rparr> = registered k c" by (simp add: registered_def)
  ultimately have "master_event memory draw (MN_RunPosted ?n) ?c1 = Some (set_link k (accepted gap d) (registered k c))"
    using st cn by (simp add: master_event_def del: mn_step.simps)
  moreover have "mn_posted (addSecondary ?m) = mn_posted ?m @ [T_AddSecondary]" by (simp add: addSecondary_def)
  ultimately show ?thesis using k by simp
qed

lemma hear_query_step:
  assumes k: "k < length (cl_connections c)" "endpoint_of c k = Some e" "link_of c k = arriving gap d"
    and e: "e < length (mn_endpoints (cl_master c))"
  shows "cl_step memory draw c (CL_Link k (LN_Event True (query_frame gap)) 0) =
    Some ((set_link k (heard gap d) c)\<lparr>cl_master := mn_post (T_GetMessages gap (e, 0)) (cl_master c)\<rparr>)"
proof -
  let ?lev = "LN_Event True (query_frame gap)"
  have "cl_link memory draw k ?lev 0 c =
      perform_all (hear_output memory draw k True 0) (link_output memory (link_of c k) ?lev) (set_link k (heard gap d) c)"
    using k cl_link_eq [OF k(1), of ?lev memory "heard gap d" draw 0] by (simp add: plain_event_def query_steps del: link_step.simps link_output.simps)
  moreover have "mn_step (cl_master c) (MN_Signal e (Sig_Incoming (Incoming_getMessages gap 0))) =
      Some (Inr (mn_post (T_GetMessages gap (e, 0)) (cl_master c), []))" using e by simp
  ultimately show ?thesis
    using k by (simp add: query_steps hear_def master_event_def del: link_output.simps mn_step.simps)
qed

lemma answer_query_step:
  assumes k: "k < length (cl_connections c)" "connection_of c e = k" "link_of c k = heard gap d"
    and p: "mn_posted (cl_master c) = ps @ [T_GetMessages gap (e, 0)]"
    and xs: "MasterStorage_getContiguousChunk (mn_storage (cl_master c)) gap = Some xs"
    and fits: "17 + messages_size xs < 2 ^ 64" "fits_wire xs"
  shows "cl_step memory draw c (CL_Master (length ps) k') =
    Some (set_link k (answered gap d xs) (c\<lparr>cl_master := cl_master c\<lparr>mn_posted := ps\<rparr>\<rparr>))"
proof -
  let ?m = "cl_master c\<lparr>mn_posted := ps\<rparr>"
  have st: "mn_step (cl_master c) (MN_RunPosted (length ps)) = Some (Inr (?m, [MN_SetPromise (e, 0) (A_GetMessages xs)]))"
    using p xs by (simp add: nth_append onIncomingGetMessages_def)
  have lk: "link_of (c\<lparr>cl_master := ?m\<rparr>) k = heard gap d" using k(3) by (simp add: link_of_def)
  have "connection_of (c\<lparr>cl_master := ?m\<rparr>) e = connection_of c e" by (simp add: connection_of_def)
  then have cn: "connection_of (c\<lparr>cl_master := ?m\<rparr>) e = k" using k(2) by simp
  have "on_endpoint memory k True (EP_SetPromise 0 (Some (A_GetMessages xs))) (c\<lparr>cl_master := ?m\<rparr>) =
      Some (set_link k (answered gap d xs) (c\<lparr>cl_master := ?m\<rparr>))"
    using k(1) answer_allowed [OF fits] answer_steps(1) [OF fits]
    by (intro on_endpoint_eq) (simp_all only: lk, simp)
  then have "master_event memory draw (MN_RunPosted (length ps)) c = Some (set_link k (answered gap d xs) (c\<lparr>cl_master := ?m\<rparr>))"
    using st cn by (simp add: master_event_def del: mn_step.simps)
  then show ?thesis using p by (simp add: nth_append)
qed


abbreviation link_events :: "nat \<Rightarrow> link_event list \<Rightarrow> cl_event list" where
  "link_events k levs \<equiv> map (\<lambda>lev. CL_Link k lev 0) levs"

definition round_events :: "nat \<Rightarrow> nat \<Rightarrow> size_t \<Rightarrow> string list \<Rightarrow> cl_event list" where
  "round_events n k gap xs =
     [CL_Accept, CL_Master n k] @ link_events k (query_events @ [LN_Event True (query_frame gap)]) @
     [CL_Master n k] @ link_events k (answer_events xs)"

lemma plain_events: "\<forall>lev \<in> set query_events. plain_event lev" "\<forall>lev \<in> set (answer_events xs). plain_event lev"
  by (simp_all add: query_events_def answer_events_def plain_event_def)

lemma query_round:
  assumes k: "k < length (cl_connections c)" "k \<notin> set (cl_endpoints c)" "link_of c k = asked gap d"
    and reg: "length (cl_endpoints c) = length (mn_endpoints (cl_master c))"
    and xs: "MasterStorage_getContiguousChunk (mn_storage (cl_master c)) gap = Some xs"
    and fits: "17 + messages_size xs < 2 ^ 64" "fits_wire xs"
  shows "\<exists>c'. run_steps (cl_run_step memory draw) (Some c) (round_events (length (mn_posted (cl_master c))) k gap xs) = Some c' \<and>
    link_of c' k = finished gap d xs \<and> cl_members c' = cl_members c \<and>
    mn_storage (cl_master c') = mn_storage (cl_master c) \<and> mn_requests (cl_master c') = mn_requests (cl_master c)"
proof -
  let ?n = "length (mn_posted (cl_master c))" and ?e = "length (mn_endpoints (cl_master c))"
  let ?run = "run_steps (cl_run_step memory draw)"
  define c1 where "c1 = set_link k (accepted gap d) (registered k c)"
  have r: "mn_posted (cl_master (registered k c)) = mn_posted (cl_master c)"
    "mn_storage (cl_master (registered k c)) = mn_storage (cl_master c)"
    "mn_requests (cl_master (registered k c)) = mn_requests (cl_master c)"
    "length (mn_endpoints (cl_master (registered k c))) = Suc ?e"
    "cl_members (registered k c) = cl_members c" "length (cl_connections (registered k c)) = length (cl_connections c)"
    "connection_of (registered k c) ?e = k"
    using reg by (simp_all add: registered_def addSecondaryImpl_def Let_def connection_of_def nth_append)
  have k1: "k < length (cl_connections c1)" "endpoint_of c1 k = Some ?e" "link_of c1 k = accepted gap d"
    using k r endpoint_of_registered [OF k(2)] reg by (simp_all add: c1_def link_of_set_link)
  have s1: "?run (Some c) [CL_Accept, CL_Master ?n k] = Some c1"
    using register_step [OF k reg] accept_step by (simp add: c1_def del: cl_step.simps)
  define c2 where "c2 = set_link k (arriving gap d) c1"
  have s2: "?run (Some c1) (link_events k query_events) = Some c2"
    unfolding c2_def by (rule silent_links) (use k1 plain_events query_steps(4) in simp_all)
  have k2: "k < length (cl_connections c2)" "endpoint_of c2 k = Some ?e" "link_of c2 k = arriving gap d"
    "?e < length (mn_endpoints (cl_master c2))" "mn_posted (cl_master c2) = mn_posted (cl_master c)"
    using k1 r by (simp_all add: c2_def c1_def link_of_set_link)
  define c3 where "c3 = (set_link k (heard gap d) c2)\<lparr>cl_master := mn_post (T_GetMessages gap (?e, 0)) (cl_master c2)\<rparr>"
  have s3: "?run (Some c2) (link_events k [LN_Event True (query_frame gap)]) = Some c3"
    using hear_query_step [OF k2(1-4)] by (simp add: c3_def del: cl_step.simps)
  have p3: "mn_posted (cl_master c3) = mn_posted (cl_master c) @ [T_GetMessages gap (?e, 0)]"
    using k2(5) by (simp add: c3_def mn_post_def)
  have k3: "k < length (cl_connections c3)" "connection_of c3 ?e = k" "link_of c3 k = heard gap d" "endpoint_of c3 k = Some ?e"
  proof -
    show "k < length (cl_connections c3)" "link_of c3 k = heard gap d"
      using k2(1) link_of_set_link [OF k2(1)] by (simp_all add: c3_def link_of_def)
    have "connection_of c3 ?e = connection_of (registered k c) ?e" by (simp add: c3_def c2_def c1_def connection_of_def)
    then show "connection_of c3 ?e = k" using r(7) by simp
    show "endpoint_of c3 k = Some ?e" using k2(2) by (simp add: c3_def endpoint_of_def)
  qed
  have xs3: "MasterStorage_getContiguousChunk (mn_storage (cl_master c3)) gap = Some xs"
    using xs r by (simp add: c3_def c2_def c1_def mn_post_def)
  define c4 where "c4 = set_link k (answered gap d xs) (c3\<lparr>cl_master := cl_master c3\<lparr>mn_posted := mn_posted (cl_master c)\<rparr>\<rparr>)"
  have s4: "?run (Some c3) [CL_Master ?n k] = Some c4"
    using answer_query_step [OF k3(1-3) p3 xs3 fits] by (simp add: c4_def del: cl_step.simps)
  have k4: "k < length (cl_connections c4)" "link_of c4 k = answered gap d xs" "endpoint_of c4 k \<noteq> None"
    using k3 link_of_set_link by (simp_all add: c4_def endpoint_of_def)
  have s5: "?run (Some c4) (link_events k (answer_events xs)) = Some (set_link k (finished gap d xs) c4)"
    by (rule silent_links) (use k4 plain_events answer_steps(2) [OF fits] in simp_all)
  have "?run (Some c) (round_events ?n k gap xs) = Some (set_link k (finished gap d xs) c4)"
    by (simp only: round_events_def run_steps_append map_append s1 s2 s3 s4 s5)
  then show ?thesis
    using r k4(1) by (simp add: link_of_set_link c4_def c3_def c2_def c1_def mn_post_def)
qed

section \<open>The secondary stores the answer\<close>

lemma store_step:
  assumes g: "cl_good memory t rest c" and t: "Suc t \<le> 2 ^ 64" and j: "j < length (cl_members c)"
    and mb: "cl_members c ! j = asking_member k n gap" and lk: "link_of c k = finished gap d xs"
    and gap: "SecondaryStorage_getFirstGap (sns_storage n) = Some gap"
    and xs: "MasterStorage_getContiguousChunk (mn_storage (cl_master c)) gap = Some xs"
    and fits: "17 + messages_size xs < 2 ^ 64" "fits_wire xs"
  shows "\<exists>c'. cl_step memory draw c (CL_Continue j 0) = Some c' \<and> cl_master c' = cl_master c \<and> j < length (cl_members c') \<and>
    sns_operational (mb_node (cl_members c' ! j)) \<and>
    SecondaryStorage_getContiguousChunk (sns_storage (mb_node (cl_members c' ! j))) 0 = Some (mn_messages (cl_master c))"
proof -
  obtain s where i: "cl_inv t c s [] 0 []" and w: "mn_within (cl_master c) rest" using g unfolding cl_good_def by blast
  have t': "t \<le> 2 ^ 64" using t by simp
  have l: "length (mn_requests (cl_master c)) < 2 ^ 64" using mn_within_length [OF w] .
  let ?mb = "cl_members c ! j" and ?ev = "SN_SessionEvent (MS_Response 0 (Got_GetMessages xs))"
  let ?mb' = "?mb\<lparr>mb_futures := take_nth 0 (mb_futures ?mb)\<rparr>"
  have oc: "future_outcome c k False (snd (mb_futures ?mb ! 0)) = Some (Got_GetMessages xs)"
    using answer_steps(3,4) [OF fits] lk mb by (simp add: future_outcome_def asking_member_def)
  have m: "0 < length (mb_futures ?mb)" "mb_connection ?mb = Some k" using mb by (simp_all add: asking_member_def)
  have tk: "member_takes c s j ?mb' ?ev" by (rule member_continues [OF i w j m oc])
  have "cl_good memory t (asked_of (CL_Continue j 0) @ rest) c" using g by simp
  from cl_good_step [OF this t] obtain c' where c': "cl_step memory draw c (CL_Continue j 0) = Some c'" by auto
  then have ev: "member_event memory draw j ?ev (c\<lparr>cl_members := (cl_members c)[j := ?mb']\<rparr>) = Some c'"
    using j m oc by (simp add: cl_continue_def Let_def)
  obtain n' out where st: "sn_step (mb_node ?mb') ?ev = Some (n', out)" and n': "sns_operational n'"
    "sns_storage n' = SecondaryStorage_addMessages gap xs (sns_storage n)"
    using mb by (simp add: asking_member_def onMessages_def notifyOperational_def sn_session_result_def onSessionOperational_def)
  from cl_inv_member_event [OF i t' l tk ev] st have
    e: "cl_master c' = cl_master c" "map mb_node (cl_members c') = (map mb_node (cl_members c))[j := n']" by auto
  from e(2) have len: "length (cl_members c') = length (cl_members c)" by (metis length_list_update length_map)
  have node: "mb_node (cl_members c' ! j) = n'" using e(2) j len by (metis length_map nth_list_update_eq nth_map)
  have part: "ss_messages (sns_storage n) \<subseteq>\<^sub>m ms_messages (mn_storage (cl_master c))"
    using member_part(2) [OF i j] mb by (simp add: asking_member_def)
  have "store_ok (cl_master c)" using cl_inv_master [OF i] by (simp add: mn_ok_def)
  from ss_catch_up_chunk [OF part gap xs store_ok_chunk [OF this l]] show ?thesis
    using c' e(1) len j node n' by simp
qed

section \<open>From connecting to operational\<close>

lemma round_asks: "concat (map asked_of (round_events n k gap xs)) = [MN_AddSecondary]"
  "length (round_events n k gap xs) = 14"
  by (simp_all add: round_events_def query_events_def answer_events_def)

lemma answer_fits_memory:
  assumes ok: "mn_ok m" and l: "length (mn_requests m) < 2 ^ 64" and room: "room_for memory (mn_messages m)"
  shows "\<exists>xs. MasterStorage_getContiguousChunk (mn_storage m) gap = Some xs \<and> 17 + messages_size xs < 2 ^ 64 \<and> fits_wire xs"
proof -
  have "unat (word_of_nat (length (mn_requests m)) :: size_t) = length (mn_requests m)" using l by (simp add: unat_of_nat)
  then have "ms_messages (mn_storage m) (word_of_nat (length (mn_requests m))) = None"
    using ok by (simp add: mn_ok_def store_ok_def)
  from master_store.chunk_returns [OF this, of gap] obtain xs where
    xs: "MasterStorage_getContiguousChunk (mn_storage m) gap = Some xs" by blast
  from answer_ok_sized [OF ok chunk_answer_ok [OF ok l xs] room] have "answer_sized memory (A_GetMessages xs)" .
  then show ?thesis using xs response_frame_sizes(4) [of xs] by (auto simp: answer_sized_def)
qed

definition recovered :: "Cluster \<Rightarrow> nat \<Rightarrow> bool" where
  "recovered c j \<longleftrightarrow>
     j < length (cl_members c) \<and> sns_operational (mb_node (cl_members c ! j)) \<and>
     SecondaryStorage_getContiguousChunk (sns_storage (mb_node (cl_members c ! j))) 0 = Some (mn_messages (cl_master c))"

lemma recover_connecting:
  assumes g: "cl_good memory t (MN_AddSecondary # rest) c" and t: "t + 16 \<le> 2 ^ 64" and j: "j < length (cl_members c)"
    and n: "sns_connects (mb_node (cl_members c ! j)) \<noteq> 0"
  shows "\<exists>evs c'. run_steps (cl_run_step memory draw) (Some c) evs = Some c' \<and> recovered c' j \<and>
    mn_messages (cl_master c') = mn_messages (cl_master c)"
proof -
  let ?run = "run_steps (cl_run_step memory draw)" and ?k = "length (cl_connections c)" and ?m = "cl_master c"
  let ?n = "mb_node (cl_members c ! j)"
  obtain s where i: "cl_inv t c s [] 0 []" and w: "mn_within ?m (MN_AddSecondary # rest)"
    and room: "room_for memory (mn_messages ?m)" using g unfolding cl_good_def by blast
  have l: "length (mn_requests ?m) < 2 ^ 64" using mn_within_length [OF w] .
  obtain gap where gap: "SecondaryStorage_getFirstGap (sns_storage ?n) = Some gap"
    using getFirstGap_Some [OF member_part(3) [OF i j l]] by blast
  let ?c1 = "asking draw j gap c"
  have st1: "cl_step memory draw c (CL_Connected j False) = Some ?c1" by (rule connect_step [OF j n gap])
  have "cl_good memory t (asked_of (CL_Connected j False) @ MN_AddSecondary # rest) c" using g by simp
  then have g1: "cl_good memory (Suc t) (MN_AddSecondary # rest) ?c1"
    using cl_good_step [of memory t "CL_Connected j False" "MN_AddSecondary # rest" c draw] t st1 by simp
  have mn: "mn_ok ?m" using cl_inv_master [OF i] by simp
  obtain xs where xs: "MasterStorage_getContiguousChunk (mn_storage ?m) gap = Some xs"
    and fits: "17 + messages_size xs < 2 ^ 64" "fits_wire xs" using answer_fits_memory [OF mn l room] by blast
  have reg: "length (cl_endpoints c) = length (mn_endpoints ?m)" "\<forall>e \<in> set (cl_endpoints c). e < ?k"
    using i by (simp_all add: cl_inv_def cl_registered_def)
  have c1: "?k < length (cl_connections ?c1)" "?k \<notin> set (cl_endpoints ?c1)" "link_of ?c1 ?k = asked gap (delay_of draw)"
    "length (cl_endpoints ?c1) = length (mn_endpoints (cl_master ?c1))" "cl_master ?c1 = ?m"
    "cl_members ?c1 ! j = asking_member ?k ?n gap" "length (cl_members ?c1) = length (cl_members c)"
    using reg j by (auto simp: asking_def link_of_def)
  let ?round = "round_events (length (mn_posted ?m)) ?k gap xs"
  from query_round [OF c1(1-4) _ fits] xs c1(5) obtain c2 where
    c2: "?run (Some ?c1) ?round = Some c2" "link_of c2 ?k = finished gap (delay_of draw) xs" "cl_members c2 = cl_members ?c1"
      "mn_storage (cl_master c2) = mn_storage ?m" "mn_requests (cl_master c2) = mn_requests ?m" by auto
  have "cl_good memory (Suc t) (concat (map asked_of ?round) @ rest) ?c1" using g1 by (simp add: round_asks)
  from cl_good_run [OF this, of draw] t c2(1) have g2: "cl_good memory (Suc t + 14) rest c2" by (simp add: round_asks)
  have xs2: "MasterStorage_getContiguousChunk (mn_storage (cl_master c2)) gap = Some xs" using xs c2(4) by simp
  have j2: "j < length (cl_members c2)" "cl_members c2 ! j = asking_member ?k ?n gap" using c2(3) c1(6,7) j by simp_all
  have "Suc (Suc t + 14) \<le> 2 ^ 64" using t by simp
  from store_step [OF g2 this j2 c2(2) gap xs2 fits] obtain c3 where
    c3: "cl_step memory draw c2 (CL_Continue j 0) = Some c3" "cl_master c3 = cl_master c2" "recovered c3 j"
    unfolding recovered_def by metis
  have "mn_messages (cl_master c3) = mn_messages ?m" using c2(5) c3(2) by (simp add: mn_messages_def)
  moreover have "?run (Some c) ([CL_Connected j False] @ ?round @ [CL_Continue j 0]) = Some c3"
    using st1 c2(1) c3(1) by (simp add: run_steps_append del: cl_step.simps)
  ultimately show ?thesis using c3(3) by blast
qed

end
