(* ===== verification/ClusterListens.thy ===== *)
theory ClusterListens
  imports ClusterRecovery
begin

text \<open>
  A session that is alive has an endpoint that listens: when the endpoint loses its connection, the
  session is told in the same moment. So a session can always be ended from outside.
\<close>

section \<open>An endpoint that listens\<close>

definition sw_listens :: "SocketWrapper \<Rightarrow> bool" where
  "sw_listens s \<longleftrightarrow> sw_alive s \<and> \<not> sw_invalidated s \<and> sw_reading s \<noteq> NoRead"

definition ep_listens :: "Endpoint \<Rightarrow> bool" where
  "ep_listens e \<longleftrightarrow> ep_alive e \<and> sw_listens (ep_socketWrapper e)"

lemma checkPendingWrites_listens:
  "sw_listens (fst (checkPendingWrites s)) = sw_listens s"
  by (simp add: checkPendingWrites_def sw_listens_def split: list.splits)

lemma invalidate_emits: "\<not> sw_invalidated s \<Longrightarrow> Emit_invalidated \<in> set (snd (SocketWrapper_invalidate s))"
  by (simp add: SocketWrapper_invalidate_def Let_def case_prod_beta)

lemma sw_step_listens:
  assumes l: "sw_listens s" and ev: "ev \<noteq> Destroy"
  shows "sw_listens (fst (sw_step alloc s ev)) \<or> Emit_invalidated \<in> set (snd (sw_step alloc s ev))"
proof (cases ev)
  case (WriteFrame w)
  then show ?thesis
    using l checkPendingWrites_listens [of "s\<lparr>sw_pendingWrites := sw_pendingWrites s @ [w]\<rparr>"]
    by (simp add: writeFrame_def case_prod_beta Let_def) (simp add: sw_listens_def)
next
  case (Written ec)
  show ?thesis
  proof (cases "sw_current s")
    case None
    then show ?thesis using Written l by (simp add: onWritten_def)
  next
    case (Some x)
    have "sw_listens (fst (checkPendingWrites (s\<lparr>sw_current := None, sw_writeInProgress := False\<rparr>)))"
      using l unfolding checkPendingWrites_listens by (simp add: sw_listens_def)
    moreover have "Emit_invalidated \<in> set (snd (SocketWrapper_invalidate (s\<lparr>sw_current := None\<rparr>)))"
      using l by (intro invalidate_emits) (simp add: sw_listens_def)
    ultimately show ?thesis using Written l Some
      by (cases ec) (auto simp: onWritten_def case_prod_beta Let_def sw_listens_def)
  qed
next
  case (FrameSizeRead r)
  then show ?thesis using l
    by (auto simp: onFrameSizeRead_def readFrame_def sw_listens_def Let_def invalidate_emits split: option.splits)
next
  case (FrameRead r)
  then show ?thesis using l
    by (auto simp: onFrameRead_def readFrameSize_def sw_listens_def Let_def invalidate_emits split: option.splits)
next
  case Invalidate
  then show ?thesis using l by (simp add: sw_listens_def invalidate_emits)
qed (use l ev in \<open>simp_all add: sw_listens_def\<close>)

lemma onIncomingRequestFrame_keep:
  "ep_socketWrapper (fst (onIncomingRequestFrame f e)) = ep_socketWrapper e \<and> ep_alive (fst (onIncomingRequestFrame f e)) = ep_alive e"
  by (auto simp: onIncomingRequestFrame_def ep_register_def Let_def split: OpCode.split option.split prod.split)

lemma ep_onIncomingFrame_keep:
  "ep_onIncomingFrame alloc frame e = Inr (e', out) \<Longrightarrow> ep_socketWrapper e' = ep_socketWrapper e \<and> ep_alive e' = ep_alive e"
  using onIncomingRequestFrame_keep [of _ e]
  by (auto simp: ep_onIncomingFrame_def case_prod_beta Let_def split: option.splits sum.splits)

text \<open>The slots of the endpoint do not touch its socket; the loss of the connection is passed on.\<close>

lemma ep_socket_outputs_keep:
  "ep_socket_outputs alloc out e = Inr (e', outs) \<Longrightarrow>
     ep_socketWrapper e' = ep_socketWrapper e \<and> ep_alive e' = ep_alive e \<and>
     (ep_alive e \<and> Emit_invalidated \<in> set out \<longrightarrow> EP_Invalidated \<in> set outs)"
proof (induction out arbitrary: e outs)
  case (Cons x xs)
  let ?r = "case x of
      Emit_incomingFrame frame \<Rightarrow> if ep_alive e then ep_onIncomingFrame alloc frame e else Inr (e, [])
    | Emit_invalidated \<Rightarrow> if ep_alive e then ep_onInvalidated e else Inr (e, [])
    | _ \<Rightarrow> Inr (e, [EP_Sock x])"
  obtain e1 out1 out2 where r: "?r = Inr (e1, out1)" "ep_socket_outputs alloc xs e1 = Inr (e', out2)" "outs = out1 @ out2"
    using Cons.prems by (auto split: sum.splits prod.splits)
  have "ep_socketWrapper e1 = ep_socketWrapper e \<and> ep_alive e1 = ep_alive e \<and>
      (ep_alive e \<and> x = Emit_invalidated \<longrightarrow> EP_Invalidated \<in> set out1)"
    using r(1)
    by (cases x) (auto simp: ep_onInvalidated_def dest: ep_onIncomingFrame_keep split: if_splits sum.splits)
  then show ?case using Cons.IH [OF r(2)] r(3) by auto
qed simp

lemma ep_step_listens:
  assumes st: "ep_step alloc e ev = Inr (e', outs)" and l: "ep_listens e" and ev: "ev \<noteq> EP_Destroy"
  shows "ep_listens e' \<or> EP_Invalidated \<in> set outs"
proof -
  have socket: ?thesis if s: "ep_socket_step alloc e0 sev = Inr (e', outs)" "sev \<noteq> Destroy"
      "ep_socketWrapper e0 = ep_socketWrapper e" "ep_alive e0 = ep_alive e" for e0 sev
  proof -
    have "sw_listens (ep_socketWrapper e)" using l by (simp add: ep_listens_def)
    then show ?thesis
      using sw_step_listens [OF _ s(2), of "ep_socketWrapper e" alloc] s(1,3,4) l
        ep_socket_outputs_keep [of alloc "snd (sw_step alloc (ep_socketWrapper e) sev)" _ e' outs]
      by (fastforce simp: ep_socket_step_def case_prod_beta ep_listens_def)
  qed
  show ?thesis
  proof (cases ev)
    case EP_Run
    then show ?thesis using st l by (auto simp: ep_listens_def sw_listens_def)
  next
    case (EP_RunWrite n)
    then show ?thesis
      using st l socket [of "e\<lparr>ep_posted := take_nth n (ep_posted e)\<rparr>"] by (auto split: if_splits)
  next
    case (EP_Written ec)
    then show ?thesis using st socket [of e] by simp
  next
    case (EP_FrameSizeRead r)
    then show ?thesis using st socket [of e] by simp
  next
    case (EP_FrameRead r)
    then show ?thesis using st socket [of e] by simp
  qed (use st ev l in \<open>auto simp: ep_listens_def ep_sendRequest_def ep_out_result_def split: if_splits sum.splits prod.splits\<close>)
qed

section \<open>The endpoints of the sessions\<close>

definition listening :: "Cluster \<Rightarrow> nat \<Rightarrow> bool" where
  "listening c k \<longleftrightarrow> ep_listens (ln_ep (link_of c k) False)"

definition has_session :: "Cluster \<Rightarrow> nat \<Rightarrow> nat \<Rightarrow> bool" where
  "has_session c j k \<longleftrightarrow>
     j < length (cl_members c) \<and> sns_session (mb_node (cl_members c ! j)) \<noteq> None \<and> mb_connection (cl_members c ! j) = Some k"

definition cl_live :: "Cluster \<Rightarrow> bool" where
  "cl_live c \<longleftrightarrow> (\<forall>j k. has_session c j k \<longrightarrow> listening c k)"

text \<open>What the nodes ask of their endpoints neither ends a session nor its endpoint.\<close>

definition calm :: "Cluster \<Rightarrow> Cluster \<Rightarrow> bool" where
  "calm c c' \<longleftrightarrow>
     (\<forall>k. listening c k \<longrightarrow> listening c' k) \<and>
     map (\<lambda>mb. (mb_node mb, mb_connection mb)) (cl_members c') = map (\<lambda>mb. (mb_node mb, mb_connection mb)) (cl_members c)"

lemma calm_refl [simp]: "calm c c"
  by (simp add: calm_def)

lemma calm_trans: "calm a b \<Longrightarrow> calm b c \<Longrightarrow> calm a c"
  by (simp add: calm_def)

lemma calm_member:
  assumes "calm c c'"
  shows "length (cl_members c') = length (cl_members c)"
    "j < length (cl_members c) \<Longrightarrow> mb_node (cl_members c' ! j) = mb_node (cl_members c ! j)"
    "j < length (cl_members c) \<Longrightarrow> mb_connection (cl_members c' ! j) = mb_connection (cl_members c ! j)"
proof -
  let ?f = "\<lambda>mb. (mb_node mb, mb_connection mb)"
  have m: "map ?f (cl_members c') = map ?f (cl_members c)" using assms by (simp add: calm_def)
  show l: "length (cl_members c') = length (cl_members c)" by (rule map_eq_imp_length_eq [OF m])
  assume "j < length (cl_members c)"
  then have "?f (cl_members c' ! j) = ?f (cl_members c ! j)"
    using arg_cong [OF m, of "\<lambda>xs. xs ! j"] l by simp
  then show "mb_node (cl_members c' ! j) = mb_node (cl_members c ! j)"
    "mb_connection (cl_members c' ! j) = mb_connection (cl_members c ! j)" by simp_all
qed

lemma calm_session: "calm c c' \<Longrightarrow> has_session c' j k = has_session c j k"
  using calm_member [of c c'] by (auto simp: has_session_def)

lemma calm_live: "calm c c' \<Longrightarrow> cl_live c \<Longrightarrow> cl_live c'"
  using calm_session unfolding cl_live_def calm_def by blast

lemma on_endpoint_calm:
  assumes on: "on_endpoint alloc k b ev c = Some c'" and ev: "\<not> from_outside ev"
  shows "calm c c'"
proof -
  have k: "k < length (cl_connections c)" and al: "link_allows (link_of c k) b ev"
    using on by (simp_all add: on_endpoint_def split: if_splits)
  obtain ln where ln: "link_step alloc (link_of c k) (LN_Event b ev) = Inr ln" "c' = set_link k ln c"
    using on by (auto simp: on_endpoint_def simp del: link_step.simps split: if_splits sum.splits)
  obtain e' out where r: "ep_step alloc (ln_ep (link_of c k) b) ev = Inr (e', out)"
    "ln = link_update (link_of c k) b ev [] (e', out)"
    using ln(1) al by (auto split: sum.splits)
  have out: "out = []" using r(1) ev by (cases ev) (auto split: if_splits sum.splits)
  have "ev \<noteq> EP_Destroy" using ev by auto
  then have "ep_listens (ln_ep (link_of c k) b) \<Longrightarrow> ep_listens e'" using ep_step_listens [OF r(1)] out by simp
  then have "listening c k' \<Longrightarrow> listening c' k'" for k'
    by (cases b) (auto simp: listening_def ln(2) link_of_set_link [OF k] r(2) link_update_def)
  then show ?thesis using ln(2) by (simp add: calm_def)
qed

lemma futures_calm: "calm c (c\<lparr>cl_futures := F\<rparr>)"
  by (simp add: calm_def listening_def link_of_def)

lemma call_endpoint_calm:
  "call_endpoint alloc draw k b r c = Some (x, c') \<Longrightarrow> calm c c'"
  using on_endpoint_calm by (auto simp: call_endpoint_def Let_def)

lemma master_output_calm:
  assumes "master_output alloc draw x c = Some c'"
  shows "calm c c'"
proof (cases "(alloc, draw, x, c)" rule: master_output.cases)
  case (4 a1 d1 q e i m msg c1)
  then obtain y c2 where "call_endpoint alloc draw (connection_of c e) True
      (Req_AddMessage (Request_AddMessage_create m msg)) c = Some (y, c2)" "\<exists>F. c' = c2\<lparr>cl_futures := F\<rparr>"
    using assms by (auto split: option.splits)
  then show ?thesis using call_endpoint_calm calm_trans futures_calm by blast
qed (use assms on_endpoint_calm in auto)

lemma session_call_calm:
  assumes "session_call alloc draw j k r cont c = Some c'" "j < length (cl_members c)"
  shows "calm c c'"
proof -
  obtain x c1 where c1: "call_endpoint alloc draw k False r c = Some (x, c1)"
    "c' = c1\<lparr>cl_members := (cl_members c1)[j := (cl_members c1 ! j)\<lparr>mb_futures := mb_futures (cl_members c1 ! j) @ [(cont, x)]\<rparr>]\<rparr>"
    using assms(1) by (auto simp: session_call_def Let_def split: option.splits)
  have "cl_members c1 = cl_members c" using c1(1) on_endpoint_members by (auto simp: call_endpoint_def Let_def)
  then have "calm c1 c'"
    using c1(2) assms(2) by (auto simp: calm_def listening_def link_of_def nth_list_update intro!: nth_equalityI)
  then show ?thesis using call_endpoint_calm [OF c1(1)] calm_trans by blast
qed

lemma member_output_calm:
  assumes "member_output alloc draw j kk x c = Some c'" "j < length (cl_members c)"
  shows "calm c c'"
proof (cases "(alloc, draw, j, kk, x, c)" rule: member_output.cases)
  case (1 a1 d1 j1 k z c1)
  then have "session_output alloc draw j k z c = Some c'" using assms(1) by simp
  then show ?thesis using on_endpoint_calm session_call_calm [OF _ assms(2)] by (cases z) auto
qed (use assms(1) in auto)

lemma master_outputs_calm: "perform_all (master_output alloc draw) out c = Some c' \<Longrightarrow> calm c c'"
proof (induction out arbitrary: c)
  case (Cons x xs)
  then show ?case using master_output_calm calm_trans by (auto split: option.splits) blast
qed simp

lemma member_outputs_calm:
  "perform_all (member_output alloc draw j kk) out c = Some c' \<Longrightarrow> j < length (cl_members c) \<Longrightarrow> calm c c'"
proof (induction out arbitrary: c)
  case (Cons x xs)
  obtain c1 where c1: "member_output alloc draw j kk x c = Some c1" "perform_all (member_output alloc draw j kk) xs c1 = Some c'"
    using Cons.prems(1) by (auto split: option.splits)
  have "calm c c1" by (rule member_output_calm [OF c1(1) Cons.prems(2)])
  then show ?case using Cons.IH [OF c1(2)] Cons.prems(2) calm_member(1) calm_trans by metis
qed simp


section \<open>What an endpoint emits\<close>

text \<open>All sessions listen, but perhaps the one of the connection that has just been lost.\<close>

definition live_but :: "Cluster \<Rightarrow> nat \<Rightarrow> bool \<Rightarrow> bool" where
  "live_but c k dying \<longleftrightarrow> (\<forall>j k'. has_session c j k' \<longrightarrow> listening c k' \<or> k' = k \<and> dying)"

lemma live_but_False: "live_but c k False = cl_live c"
  by (simp add: live_but_def cl_live_def)

lemma live_but_calm: "calm c c' \<Longrightarrow> live_but c k d \<Longrightarrow> live_but c' k d"
  using calm_session unfolding live_but_def calm_def by blast

lemma session_connection:
  assumes i: "cl_inv t c s mo a []" and ses: "has_session c j k"
  shows "k < length (cl_connections c) \<and> co_secondary (cl_connections c ! k) = j"
proof -
  have "member_ok c j []" using i ses unfolding cl_inv_def has_session_def by metis
  then show ?thesis using ses by (auto simp: member_ok_def has_session_def)
qed

lemma member_event_sessions:
  assumes out: "member_event alloc draw j ev (c\<lparr>cl_members := (cl_members c)[j := mb]\<rparr>) = Some c'" and j: "j < length (cl_members c)"
  shows "\<exists>n out. sn_step (mb_node mb) ev = Some (n, out) \<and> (\<forall>k. listening c k \<longrightarrow> listening c' k) \<and>
    (\<forall>j' k'. has_session c' j' k' \<longleftrightarrow>
       (if j' = j then sns_session n \<noteq> None \<and> mb_connection mb = Some k' else has_session c j' k'))"
proof -
  obtain n o' where st: "sn_step (mb_node mb) ev = Some (n, o')"
    and perf: "perform_all (member_output alloc draw j (mb_connection mb)) o'
      (c\<lparr>cl_members := (cl_members c)[j := member_after mb n]\<rparr>) = Some c'"
    using out j by (auto simp: member_event_def member_after_def Let_def split: option.splits if_splits)
  let ?c = "c\<lparr>cl_members := (cl_members c)[j := member_after mb n]\<rparr>"
  have m: "calm ?c c'" using member_outputs_calm [OF perf] j by simp
  have l: "listening ?c k = listening c k" for k by (simp add: listening_def link_of_def)
  then have "\<forall>k. listening c k \<longrightarrow> listening c' k" using m unfolding calm_def by metis
  moreover have "has_session ?c j' k' \<longleftrightarrow>
      (if j' = j then sns_session n \<noteq> None \<and> mb_connection mb = Some k' else has_session c j' k')" for j' k'
    using j by (auto simp: has_session_def member_after_def)
  ultimately show ?thesis using st calm_session [OF m] by blast
qed

lemma drop_signal_calm: "drop_signal alloc k b sg c = Some c' \<Longrightarrow> calm c c'"
  using on_endpoint_calm by (cases sg) (auto simp: drop_signal_def)

lemma master_event_calm:
  assumes "master_event alloc draw ev c = Some c'"
  shows "calm c c'"
proof -
  obtain m out where p: "perform_all (master_output alloc draw) out (c\<lparr>cl_master := m\<rparr>) = Some c'"
    using assms by (auto simp: master_event_def split: option.splits sum.splits)
  have "calm c (c\<lparr>cl_master := m\<rparr>)" by (simp add: calm_def listening_def link_of_def)
  then show ?thesis using master_outputs_calm [OF p] calm_trans by blast
qed

lemma session_invalidated: "sn_step n (SN_SessionEvent MS_Invalidated) = Some (n', out) \<Longrightarrow> sns_session n' = None"
  by (auto simp: onEndpointInvalidated_def sn_session_result_def onSessionInvalidated_def reconnectToMaster_def
      disconnectMasterSession_def split: option.splits)

lemma hear_live:
  assumes i: "cl_inv t c s [] 0 []" and out: "hear alloc draw k b now sg c = Some c'" and k: "k < length (cl_connections c)"
    and live: "live_but c k (\<not> b \<and> dying)"
  shows "live_but c' k (\<not> b \<and> dying \<and> sg \<noteq> Sig_Invalidated)"
proof (cases b)
  case True
  have "calm c c'"
    using out True drop_signal_calm master_event_calm by (auto simp: hear_def split: option.splits)
  then show ?thesis using live live_but_calm True by simp
next
  case False
  let ?j = "co_secondary (cl_connections c ! k)"
  have j: "?j < length (cl_members c)" using i k by (simp add: cl_inv_def cl_links_def)
  have own: "has_session c j' k \<Longrightarrow> j' = ?j" for j' using session_connection [OF i] by blast
  show ?thesis
  proof (cases "mb_connection (cl_members c ! ?j) = Some k")
    case con: True
    let ?ev = "SN_SessionEvent (session_signal sg now)"
    have "member_event alloc draw ?j ?ev (c\<lparr>cl_members := (cl_members c)[?j := cl_members c ! ?j]\<rparr>) = Some c'"
      using out False con by (simp add: hear_def Let_def)
    from member_event_sessions [OF this j] obtain n o' where n: "sn_step (mb_node (cl_members c ! ?j)) ?ev = Some (n, o')"
      "\<And>k. listening c k \<Longrightarrow> listening c' k"
      "\<And>j' k'. has_session c' j' k' \<longleftrightarrow>
         (if j' = ?j then sns_session n \<noteq> None \<and> mb_connection (cl_members c ! ?j) = Some k' else has_session c j' k')" by blast
    have old: "has_session c j' k'" if "has_session c' j' k'" for j' k'
      using that n(3) [of j' k'] session_event_session [OF n(1)] j by (auto simp: has_session_def split: if_splits)
    have "sg \<noteq> Sig_Invalidated" if s: "has_session c' j' k" for j'
    proof
      assume "sg = Sig_Invalidated"
      then have "sns_session n = None" using session_invalidated n(1) by simp
      moreover have "j' = ?j" using own old [OF s] by blast
      ultimately show False using s n(3) [of j' k] by simp
    qed
    then show ?thesis using live old n(2) unfolding live_but_def by blast
  next
    case con: False
    then have "drop_signal alloc k b sg c = Some c'" using out False by (simp add: hear_def Let_def)
    then have m: "calm c c'" by (rule drop_signal_calm)
    have "\<not> has_session c j' k" for j' using own [of j'] con by (auto simp: has_session_def)
    then have "live_but c k (\<not> b \<and> dying \<and> sg \<noteq> Sig_Invalidated)" using live unfolding live_but_def by blast
    then show ?thesis using live_but_calm [OF m] by blast
  qed
qed

lemma hear_outputs_live:
  assumes "cl_inv t c s [] 0 []" "t \<le> 2 ^ 64" "mn_within (cl_master c) rest"
    "\<forall>x \<in> set out. \<forall>sg \<in> set (output_signal x). signal_at c k b sg" "k < length (cl_connections c)"
    "perform_all (hear_output alloc draw k b now) out c = Some c'"
    "live_but c k (\<not> b \<and> EP_Invalidated \<in> set out)"
  shows "cl_live c'"
  using assms
proof (induction out arbitrary: c s)
  case Nil
  have "c' = c" "live_but c k False" using Nil.prems(6,7) by simp_all
  then show ?case by (simp add: live_but_False)
next
  case (Cons x xs)
  obtain c1 where c1: "hear_output alloc draw k b now x c = Some c1" "perform_all (hear_output alloc draw k b now) xs c1 = Some c'"
    using Cons.prems(6) by (auto split: option.splits)
  show ?case
  proof (cases "output_signal x")
    case Nil
    then have x: "c1 = c" "x \<noteq> EP_Invalidated" using c1(1) by (cases x; simp)+
    have a: "\<forall>y \<in> set xs. \<forall>sg \<in> set (output_signal y). signal_at c k b sg" using Cons.prems(4) by simp
    have "(EP_Invalidated \<in> set (x # xs)) = (EP_Invalidated \<in> set xs)" using x(2) by auto
    then have "live_but c k (\<not> b \<and> EP_Invalidated \<in> set xs)" using Cons.prems(7) by (simp only:)
    then show ?thesis by (rule Cons.IH [OF Cons.prems(1-3) a Cons.prems(5) c1(2) [unfolded x(1)]])
  next
    case (Cons sg sgs)
    then have h: "hear alloc draw k b now sg c = Some c1" "sg \<in> set (output_signal x)" using c1(1) by (cases x; simp)+
    have iff: "(x = EP_Invalidated) = (sg = Sig_Invalidated)" using Cons by (cases x) auto
    have at: "signal_at c k b sg" using Cons.prems(4) h(2) by simp
    from cl_inv_hear [OF Cons.prems(1-3) at h(1)] obtain s1 where
      s1: "cl_inv t c1 s1 [] 0 []" "mn_within (cl_master c1) rest" "cl_keeps c c1" unfolding cl_follows_def by blast
    have "live_but c1 k (\<not> b \<and> EP_Invalidated \<in> set (x # xs) \<and> sg \<noteq> Sig_Invalidated)"
      by (rule hear_live [OF Cons.prems(1) h(1) Cons.prems(5,7)])
    moreover have "cl_live c1 \<Longrightarrow> live_but c1 k d" for d by (auto simp: live_but_def cl_live_def)
    moreover have "sg \<noteq> Sig_Invalidated \<Longrightarrow> (EP_Invalidated \<in> set (x # xs)) = (EP_Invalidated \<in> set xs)" using iff by auto
    ultimately have l: "live_but c1 k (\<not> b \<and> EP_Invalidated \<in> set xs)"
      by (cases "sg = Sig_Invalidated") (simp_all add: live_but_False)
    have a: "\<forall>y \<in> set xs. \<forall>sg \<in> set (output_signal y). signal_at c1 k b sg"
      using Cons.prems(4) signal_at_keeps [OF s1(3)] by simp
    have "k < length (cl_connections c1)" using s1(3) Cons.prems(5) by (simp add: cl_keeps_def)
    from Cons.IH [OF s1(1) Cons.prems(2) s1(2) a this c1(2) l] show ?thesis .
  qed
qed

lemma link_step_listens:
  assumes st: "link_step alloc ln lev = Inr ln'" and l: "ep_listens (ln_ep ln False)"
    and ev: "\<not> fst (event_of lev) \<Longrightarrow> snd (event_of lev) \<noteq> EP_Destroy"
  shows "ep_listens (ln_ep ln' False) \<or> \<not> fst (event_of lev) \<and> EP_Invalidated \<in> set (link_output alloc ln lev)"
proof (cases lev)
  case (LN_Event b e)
  show ?thesis
  proof (cases "link_allows ln b e")
    case True
    then obtain r where r: "ep_step alloc (ln_ep ln b) e = Inr r" "ln' = link_update ln b e [] r" "link_output alloc ln lev = snd r"
      using st LN_Event by (auto split: sum.splits)
    show ?thesis
    proof (cases b)
      case True
      then show ?thesis using l r(2) by (simp add: link_update_def)
    next
      case False
      then have "ep_listens (fst r) \<or> EP_Invalidated \<in> set (snd r)"
        using ep_step_listens [of alloc "ln_ep ln False" e "fst r" "snd r"] r(1) l ev LN_Event by simp
      then show ?thesis using False r(2,3) LN_Event by (simp add: link_update_def)
    qed
  next
    case False
    then show ?thesis using st l LN_Event by simp
  qed
next
  case (LN_WriteFails b n)
  show ?thesis
  proof (cases "length (concat (current_writes (ep_socketWrapper (ln_ep ln b)))) \<le> n")
    case True
    then show ?thesis using st l LN_WriteFails by simp
  next
    case False
    then obtain r p where r: "ep_step alloc (ln_ep ln b) (EP_Written True) = Inr r" "ln' = link_update ln b (EP_Written True) p r"
      "link_output alloc ln lev = snd r"
      using st LN_WriteFails by (auto simp: Let_def simp del: ep_step.simps split: sum.splits)
    show ?thesis
    proof (cases b)
      case True
      then show ?thesis using l r(2) by (simp add: link_update_def)
    next
      case False
      then have "ep_listens (fst r) \<or> EP_Invalidated \<in> set (snd r)"
        using ep_step_listens [of alloc "ln_ep ln False" "EP_Written True" "fst r" "snd r"] r(1) l by simp
      then show ?thesis using False r(2,3) LN_WriteFails by (simp add: link_update_def)
    qed
  qed
qed

section \<open>Every step\<close>

lemma node_session_kept:
  "sn_step n ev = Some (n', out) \<Longrightarrow> ev \<noteq> SN_Connected False \<Longrightarrow> sns_session n' \<noteq> None \<Longrightarrow> sns_session n \<noteq> None"
  by (cases ev) (auto simp: reconnectToMaster_def onConnected_def split: option.splits if_splits)

lemma member_event_live:
  assumes live: "cl_live c" and j: "j < length (cl_members c)"
    and mb: "mb_node mb = mb_node (cl_members c ! j)" "mb_connection mb = mb_connection (cl_members c ! j)"
    and ev: "ev \<noteq> SN_Connected False"
    and out: "member_event alloc draw j ev (c\<lparr>cl_members := (cl_members c)[j := mb]\<rparr>) = Some c'"
  shows "cl_live c'"
proof -
  from member_event_sessions [OF out j] obtain n o' where n: "sn_step (mb_node mb) ev = Some (n, o')"
    "\<And>k. listening c k \<Longrightarrow> listening c' k"
    "\<And>j' k'. has_session c' j' k' \<longleftrightarrow>
       (if j' = j then sns_session n \<noteq> None \<and> mb_connection mb = Some k' else has_session c j' k')" by blast
  have "has_session c j' k'" if "has_session c' j' k'" for j' k'
    using that n(3) [of j' k'] node_session_kept [OF n(1) ev] mb j by (auto simp: has_session_def split: if_splits)
  then show ?thesis using live n(2) unfolding cl_live_def by blast
qed

lemma cl_link_live:
  assumes i: "cl_inv t c s [] 0 []" and t: "Suc t \<le> 2 ^ 64" and w: "mn_within (cl_master c) rest" and live: "cl_live c"
    and out: "cl_link alloc draw k lev now c = Some c'"
  shows "cl_live c'"
proof -
  obtain b ev where e: "event_of lev = (b, ev)" by (cases "event_of lev")
  show ?thesis
  proof (cases "length (cl_connections c) \<le> k \<or> \<not> from_outside ev \<or> b \<and> endpoint_of c k = None \<or> ev = EP_Destroy \<and> \<not> released c k b")
    case True
    then have "c' = c" using out unfolding cl_link_def e by simp
    then show ?thesis using live by simp
  next
    case False
    then have k: "k < length (cl_connections c)" and ev: "from_outside ev" by auto
    obtain ln where ln: "link_step alloc (link_of c k) lev = Inr ln"
      "perform_all (hear_output alloc draw k b now) (link_output alloc (link_of c k) lev) (set_link k ln c) = Some c'"
      using out False unfolding cl_link_def e by (auto simp del: link_step.simps split: sum.splits)
    from cl_link_keeps [OF i t k ln(1)] e ev have
      s1: "cl_inv (Suc t) (set_link k ln c) s [] 0 []"
        "\<forall>x \<in> set (link_output alloc (link_of c k) lev). \<forall>sg \<in> set (output_signal x). signal_at (set_link k ln c) k b sg" by simp_all
    have ses: "has_session (set_link k ln c) j' k' = has_session c j' k'" for j' k' by (simp add: has_session_def)
    have "listening (set_link k ln c) k' \<or> k' = k \<and> \<not> b \<and> EP_Invalidated \<in> set (link_output alloc (link_of c k) lev)"
      if h: "has_session c j' k'" for j' k'
    proof (cases "k' = k")
      case True
      have "co_secondary (cl_connections c ! k) = j'" using session_connection [OF i h] True by simp
      then have "\<not> released c k False" using h True by (simp add: released_def has_session_def)
      then have d: "\<not> b \<Longrightarrow> ev \<noteq> EP_Destroy" using False by auto
      have "listening c k" using live h True by (auto simp: cl_live_def)
      then show ?thesis
        using link_step_listens [OF ln(1)] d e True k by (simp add: listening_def link_of_set_link)
    next
      case other: False
      then show ?thesis using live h by (auto simp: cl_live_def listening_def link_of_def set_link_def)
    qed
    then have "live_but (set_link k ln c) k (\<not> b \<and> EP_Invalidated \<in> set (link_output alloc (link_of c k) lev))"
      unfolding live_but_def ses by blast
    then show ?thesis using w k by (intro hear_outputs_live [OF s1(1) t _ s1(2) _ ln(2)]) simp_all
  qed
qed

lemma endpoints_calm: "calm c (c\<lparr>cl_endpoints := es\<rparr>)"
  by (simp add: calm_def listening_def link_of_def)

lemma pings_calm:
  "perform_all (\<lambda>(e, t) c. map_option snd (call_endpoint alloc draw (connection_of c e) True (f t) c)) pings c = Some c' \<Longrightarrow>
     calm c c'"
proof (induction pings arbitrary: c)
  case (Cons p ps)
  obtain e u where p: "p = (e, u)" by (cases p)
  obtain x c1 where c1: "call_endpoint alloc draw (connection_of c e) True (f u) c = Some (x, c1)"
    "perform_all (\<lambda>(e, t) c. map_option snd (call_endpoint alloc draw (connection_of c e) True (f t) c)) ps c1 = Some c'"
    using Cons.prems p by (auto split: option.splits)
  show ?case using Cons.IH [OF c1(2)] call_endpoint_calm [OF c1(1)] calm_trans by blast
qed simp


text \<open>A new session listens.\<close>

lemma asked_listens: "ep_listens (ln_ep (asked gap d) False)"
  by (simp add: query_eval ep_listens_def sw_listens_def)

lemma asking_live:
  assumes i: "cl_inv t c s [] 0 []" and live: "cl_live c" and j: "j < length (cl_members c)"
  shows "cl_live (asking draw j gap c)"
proof -
  let ?l = "length (cl_connections c)" and ?c = "asking draw j gap c"
  have new: "listening ?c ?l" using asked_listens by (simp add: listening_def link_of_def asking_def)
  have "listening ?c k'" if "has_session ?c j' k'" for j' k'
  proof (cases "j' = j")
    case True
    then have "k' = ?l" using that j by (simp add: has_session_def asking_def asking_member_def)
    then show ?thesis using new by simp
  next
    case False
    then have h: "has_session c j' k'" using that by (simp add: has_session_def asking_def)
    have "k' < ?l" using session_connection [OF i h] by simp
    then show ?thesis
      using live h by (auto simp: cl_live_def listening_def link_of_def asking_def nth_append)
  qed
  then show ?thesis by (simp add: cl_live_def)
qed

lemma cl_connected_live:
  assumes i: "cl_inv t c s [] 0 []" and w: "mn_within (cl_master c) rest" and live: "cl_live c"
    and out: "cl_connected memory draw j ec c = Some c'"
  shows "cl_live c'"
proof (cases "length (cl_members c) \<le> j \<or> sns_connects (mb_node (cl_members c ! j)) = 0")
  case True
  then show ?thesis using out live by (simp add: cl_connected_def)
next
  case False
  then have j: "j < length (cl_members c)" and n: "sns_connects (mb_node (cl_members c ! j)) \<noteq> 0" by simp_all
  show ?thesis
  proof (cases ec)
    case True
    then show ?thesis
      using out False by (intro member_event_live [OF live j refl refl, of "SN_Connected True"]) (simp_all add: cl_connected_def)
  next
    case ok: False
    obtain gap where gap: "SecondaryStorage_getFirstGap (sns_storage (mb_node (cl_members c ! j))) = Some gap"
      using getFirstGap_Some [OF member_part(3) [OF i j mn_within_length [OF w]]] by blast
    have "c' = asking draw j gap c" using connect_step [OF j n gap, of draw] out ok by simp
    then show ?thesis using asking_live [OF i live j] by simp
  qed
qed

lemma cl_step_live:
  assumes i: "cl_inv t c s [] 0 []" and t: "Suc t \<le> 2 ^ 64" and w: "mn_within (cl_master c) (asked_of ev @ rest)" and live: "cl_live c"
    and out: "cl_step memory draw c ev = Some c'"
  shows "cl_live c'"
proof -
  have master: "cl_live c'" if "calm c c0" "master_event memory draw mev c0 = Some c'" for mev c0
    using calm_live [OF calm_trans [OF that(1) master_event_calm [OF that(2)]] live] .
  show ?thesis
  proof (cases ev)
    case CL_Accept
    then show ?thesis using out master [OF calm_refl] by simp
  next
    case (CL_Master n k)
    then show ?thesis using out live master [OF calm_refl] master [OF endpoints_calm] by (auto split: if_splits)
  next
    case (CL_AddMessage message wc)
    then show ?thesis using out master [OF futures_calm] by simp
  next
    case (CL_WaitOver q)
    then show ?thesis using out master [OF calm_refl] by simp
  next
    case (CL_Answer q n)
    then show ?thesis
      using out live master [OF futures_calm] by (auto simp: cl_answer_def split: if_splits prod.splits option.splits)
  next
    case (CL_Ping u)
    then show ?thesis
      using out live calm_live [OF pings_calm [of memory draw "\<lambda>t. Req_Ping (Request_Ping_create t)"]]
      by (auto simp: cl_ping_def split: sum.splits)
  next
    case (CL_Connected j ec)
    then show ?thesis using out w cl_connected_live [OF i _ live] by simp
  next
    case (CL_TimerOver j)
    then show ?thesis
      using out live member_event_live [OF live _ refl refl, of j SN_TimerOver] by (simp split: if_splits)
  next
    case (CL_Continue j n)
    show ?thesis
    proof (cases "c' = c")
      case False
      let ?mb = "cl_members c ! j"
      obtain oc where "j < length (cl_members c)"
        "member_event memory draw j (SN_SessionEvent (MS_Response n oc))
          (c\<lparr>cl_members := (cl_members c)[j := ?mb\<lparr>mb_futures := take_nth n (mb_futures ?mb)\<rparr>]\<rparr>) = Some c'"
        using out CL_Continue False by (auto simp: cl_continue_def Let_def split: if_splits option.splits)
      then show ?thesis by (intro member_event_live [OF live, of j]) simp_all
    qed (use live in simp)
  next
    case (CL_Link k lev now)
    then show ?thesis using out w cl_link_live [OF i t _ live] by simp
  qed
qed

text \<open>Nobody has a session when the programs start.\<close>

lemma cl_live_create: "cl_live (cl_create names)"
  by (auto simp: cl_live_def has_session_def cl_create_def SecondaryNodeS_run_def SecondaryNodeS_create_def reconnectToMaster_def)

lemma cl_run_live:
  assumes "cl_inv t c s [] 0 []" "t + length evs \<le> 2 ^ 64" "mn_within (cl_master c) (concat (map asked_of evs) @ rest)" "cl_live c"
    "run_steps (cl_run_step memory draw) (Some c) evs = Some c'"
  shows "cl_live c' \<and> length (cl_members c') = length (cl_members c)"
  using assms
proof (induction evs arbitrary: t c s)
  case (Cons ev evs)
  obtain c1 where c1: "cl_step memory draw c ev = Some c1" "run_steps (cl_run_step memory draw) (Some c1) evs = Some c'"
    using Cons.prems(5) cl_run_Cons by blast
  have t: "Suc t \<le> 2 ^ 64" and w: "mn_within (cl_master c) (asked_of ev @ concat (map asked_of evs) @ rest)"
    using Cons.prems(2,3) by simp_all
  from cl_step_follows [OF Cons.prems(1) t w c1(1)] obtain s1 where
    s1: "cl_inv (Suc t) c1 s1 [] 0 []" "mn_within (cl_master c1) (concat (map asked_of evs) @ rest)" "cl_keeps c c1"
    unfolding cl_follows_def by blast
  have "cl_live c1" by (rule cl_step_live [OF Cons.prems(1) t w Cons.prems(4) c1(1)])
  then show ?case using Cons.IH [OF s1(1) _ s1(2) _ c1(2)] Cons.prems(2) s1(3) by (simp add: cl_keeps_def)
qed simp

end
