(* ===== verification/ClusterSessions.thy ===== *)
theory ClusterSessions
  imports ClusterListens
begin

text \<open>
  The network can end every session, whatever the session waits for; the secondary then connects
  again. So from every reachable state of the running program a given secondary can become
  operational with all messages of the master.
\<close>

section \<open>The network ends a session\<close>

lemma invalidation_signals:
  assumes "ep_socket_outputs alloc (pre @ [Emit_invalidated]) e = Inr (e', outs)" "ep_alive e"
    "\<forall>x \<in> set pre. case x of Emit_invalidated \<Rightarrow> False | Emit_incomingFrame f \<Rightarrow> False | _ \<Rightarrow> True"
  shows "concat (map output_signal outs) = [Sig_Invalidated]"
  using assms
proof (induction pre arbitrary: outs)
  case Nil
  then show ?case by (auto simp: ep_onInvalidated_def split: sum.splits)
next
  case (Cons x xs)
  obtain outs' where "ep_socket_outputs alloc (xs @ [Emit_invalidated]) e = Inr (e', outs')" "outs = EP_Sock x # outs'"
    using Cons.prems(1,3) by (cases x) (auto split: sum.splits)
  then show ?case using Cons.IH Cons.prems(2,3) by simp
qed

text \<open>What the endpoint waits for fails.\<close>

definition read_fails :: "Endpoint \<Rightarrow> ep_event" where
  "read_fails e = (if sw_reading (ep_socketWrapper e) = ReadingFrameSize then EP_FrameSizeRead None else EP_FrameRead None)"

lemma read_fails_plain: "plain_event (LN_Event False (read_fails e))" "link_allows ln False (read_fails e)"
  by (simp_all add: read_fails_def plain_event_def)

lemma invalidate_outs:
  "\<not> sw_invalidated s \<Longrightarrow> \<exists>pre. snd (SocketWrapper_invalidate s) = pre @ [Emit_invalidated] \<and>
     (\<forall>x \<in> set pre. case x of Emit_invalidated \<Rightarrow> False | Emit_incomingFrame f \<Rightarrow> False | _ \<Rightarrow> True)"
  by (auto simp: SocketWrapper_invalidate_def checkPendingWrites_def Let_def
      intro!: exI [of _ "Closed # map (\<lambda>pw. Callback (pw_callback pw) True) (sw_pendingWrites s)"])

lemma read_fails_signals:
  assumes l: "ep_listens e" and st: "ep_step alloc e (read_fails e) = Inr (e', outs)"
  shows "concat (map output_signal outs) = [Sig_Invalidated]"
proof -
  let ?s = "(ep_socketWrapper e)\<lparr>sw_reading := NoRead\<rparr>"
  have s: "\<not> sw_invalidated ?s" "ep_alive e" using l by (simp_all add: ep_listens_def sw_listens_def)
  obtain pre where pre: "snd (SocketWrapper_invalidate ?s) = pre @ [Emit_invalidated]"
    "\<forall>x \<in> set pre. case x of Emit_invalidated \<Rightarrow> False | Emit_incomingFrame f \<Rightarrow> False | _ \<Rightarrow> True"
    using invalidate_outs [OF s(1)] by blast
  have "ep_socket_outputs alloc (snd (SocketWrapper_invalidate ?s)) (e\<lparr>ep_socketWrapper := fst (SocketWrapper_invalidate ?s)\<rparr>) = Inr (e', outs)"
    using st l by (cases "sw_reading (ep_socketWrapper e)")
      (auto simp: read_fails_def ep_socket_step_def onFrameSizeRead_def onFrameRead_def ep_listens_def sw_listens_def case_prod_beta)
  then show ?thesis using invalidation_signals pre s(2) by simp
qed

lemma hear_one_signal:
  "concat (map output_signal out) = [sg] \<Longrightarrow> perform_all (hear_output alloc draw k b now) out c = hear alloc draw k b now sg c"
proof (induction out)
  case (Cons x xs)
  then show ?case using hear_silent [of xs] by (cases x) (auto split: option.splits)
qed simp

lemma invalidated_member:
  assumes j: "j < length (cl_members c)" and ses: "sns_session (mb_node (cl_members c ! j)) \<noteq> None"
  shows "\<exists>c'. member_event alloc draw j (SN_SessionEvent MS_Invalidated) c = Some c' \<and> cl_master c' = cl_master c \<and>
    length (cl_members c') = length (cl_members c) \<and> sns_connects (mb_node (cl_members c' ! j)) \<noteq> 0"
proof -
  obtain ms where "sns_session (mb_node (cl_members c ! j)) = Some ms" using ses by auto
  then show ?thesis
    using j by (simp add: member_event_def Let_def onEndpointInvalidated_def sn_session_result_def onSessionInvalidated_def
        reconnectToMaster_def disconnectMasterSession_def)
qed

lemma end_session:
  assumes g: "cl_good memory t rest c" and t: "Suc t \<le> 2 ^ 64" and live: "cl_live c" and ses: "has_session c j k"
  shows "\<exists>ev c'. cl_step memory draw c ev = Some c' \<and> cl_good memory (Suc t) rest c' \<and> cl_master c' = cl_master c \<and>
    length (cl_members c') = length (cl_members c) \<and> sns_connects (mb_node (cl_members c' ! j)) \<noteq> 0"
proof -
  obtain s where i: "cl_inv t c s [] 0 []" and able: "cl_able memory c" using g unfolding cl_good_def by blast
  have t': "t \<le> 2 ^ 64" using t by simp
  have k: "k < length (cl_connections c)" "co_secondary (cl_connections c ! k) = j" using session_connection [OF i ses] by simp_all
  have j: "j < length (cl_members c)" "sns_session (mb_node (cl_members c ! j)) \<noteq> None" "mb_connection (cl_members c ! j) = Some k"
    using ses by (simp_all add: has_session_def)
  let ?e = "ln_ep (link_of c k) False"
  let ?lev = "LN_Event False (read_fails ?e)"
  have l: "ep_listens ?e" using live ses by (simp add: cl_live_def listening_def)
  have "link_sendable memory (link_of c k)" using able k(1) by (simp add: cl_able_def)
  from link_step_total [OF cl_links_ok [OF i t' k(1)] this] obtain ln where
    ln: "link_step memory (link_of c k) ?lev = Inr ln" by blast
  obtain r where r: "ep_step memory ?e (read_fails ?e) = Inr r" "link_output memory (link_of c k) ?lev = snd r"
    using ln read_fails_plain(2) by (auto simp del: ep_step.simps split: sum.splits)
  have sg: "concat (map output_signal (snd r)) = [Sig_Invalidated]"
    using read_fails_signals [OF l, of memory "fst r" "snd r"] r(1) by simp
  let ?c = "set_link k ln c"
  have "cl_link memory draw k ?lev 0 c = member_event memory draw j (SN_SessionEvent MS_Invalidated) ?c"
  proof -
    have "cl_link memory draw k ?lev 0 c = hear memory draw k False 0 Sig_Invalidated ?c"
      using cl_link_eq [OF k(1) read_fails_plain(1) _ ln] r(2) hear_one_signal [OF sg] by simp
    moreover have "co_secondary (cl_connections ?c ! k) = j" using k by (simp add: set_link_def)
    ultimately show ?thesis using j(3) by (simp add: hear_def Let_def)
  qed
  moreover obtain c' where c': "member_event memory draw j (SN_SessionEvent MS_Invalidated) ?c = Some c'"
    "cl_master c' = cl_master c" "length (cl_members c') = length (cl_members c)" "sns_connects (mb_node (cl_members c' ! j)) \<noteq> 0"
    using invalidated_member [of j ?c memory draw] j by auto
  ultimately have st: "cl_step memory draw c (CL_Link k ?lev 0) = Some c'" by simp
  have "cl_good memory t (asked_of (CL_Link k ?lev 0) @ rest) c" using g by simp
  from cl_good_step [OF this t, of draw] have "cl_good memory (Suc t) rest c'" using st by simp
  then show ?thesis using st c' by blast
qed


section \<open>From every state to connecting\<close>

lemma timer_step:
  assumes g: "cl_good memory t rest c" and t: "Suc t \<le> 2 ^ 64" and j: "j < length (cl_members c)"
    and n: "sns_timers (mb_node (cl_members c ! j)) \<noteq> 0"
  shows "\<exists>ev c'. cl_step memory draw c ev = Some c' \<and> cl_good memory (Suc t) rest c' \<and> cl_master c' = cl_master c \<and>
    length (cl_members c') = length (cl_members c) \<and> sns_connects (mb_node (cl_members c' ! j)) \<noteq> 0"
proof -
  have "\<exists>c'. cl_step memory draw c (CL_TimerOver j) = Some c' \<and> cl_master c' = cl_master c \<and>
      length (cl_members c') = length (cl_members c) \<and> sns_connects (mb_node (cl_members c' ! j)) \<noteq> 0"
    using j n by (simp add: member_event_def Let_def reconnectToMaster_def)
  moreover have "cl_good memory t (asked_of (CL_TimerOver j) @ rest) c" using g by simp
  ultimately show ?thesis using cl_good_step [of memory t "CL_TimerOver j" rest c draw] t by fastforce
qed

lemma reach_connecting:
  assumes g: "cl_good memory t rest c" and t: "Suc t \<le> 2 ^ 64" and live: "cl_live c" and j: "j < length (cl_members c)"
  shows "\<exists>evs c'. run_steps (cl_run_step memory draw) (Some c) evs = Some c' \<and> cl_good memory (Suc t) rest c' \<and>
    cl_master c' = cl_master c \<and> length (cl_members c') = length (cl_members c) \<and> sns_connects (mb_node (cl_members c' ! j)) \<noteq> 0"
proof -
  let ?n = "mb_node (cl_members c ! j)"
  obtain s where i: "cl_inv t c s [] 0 []" using g unfolding cl_good_def by blast
  have one: "sns_connects ?n + sns_timers ?n + (if sns_session ?n = None then 0 else 1) = 1"
    using member_part(1) [OF i j] by (simp add: sn_ok_def sn_active_def)
  have step: ?thesis if "\<exists>ev c'. cl_step memory draw c ev = Some c' \<and> cl_good memory (Suc t) rest c' \<and> cl_master c' = cl_master c \<and>
      length (cl_members c') = length (cl_members c) \<and> sns_connects (mb_node (cl_members c' ! j)) \<noteq> 0"
  proof -
    from that obtain ev c' where e: "cl_step memory draw c ev = Some c'" "cl_good memory (Suc t) rest c'" "cl_master c' = cl_master c"
      "length (cl_members c') = length (cl_members c)" "sns_connects (mb_node (cl_members c' ! j)) \<noteq> 0" by blast
    then show ?thesis by (intro exI [of _ "[ev]"] exI [of _ c']) simp
  qed
  show ?thesis
  proof (cases "sns_session ?n")
    case (Some ms)
    have "member_ok c j []" using i j unfolding cl_inv_def by metis
    then obtain k where "has_session c j k" using Some j by (auto simp: member_ok_def has_session_def)
    then show ?thesis by (intro step end_session [OF g t live])
  next
    case None
    show ?thesis
    proof (cases "sns_connects ?n = 0")
      case True
      then have "sns_timers ?n \<noteq> 0" using one None by simp
      then show ?thesis by (intro step timer_step [OF g t j])
    next
      case False
      have "cl_good memory (Suc t) rest c" using g cl_inv_time [OF _ le_SucI [OF order_refl]] unfolding cl_good_def by blast
      then show ?thesis using False by (intro exI [of _ "[]"] exI [of _ c]) simp
    qed
  qed
qed

lemma cl_can_recover:
  assumes g: "cl_good memory t (MN_AddSecondary # rest) c" and t: "t + 17 \<le> 2 ^ 64" and live: "cl_live c" and j: "j < length (cl_members c)"
  shows "\<exists>evs c'. run_steps (cl_run_step memory draw) (Some c) evs = Some c' \<and> recovered c' j \<and>
    mn_messages (cl_master c') = mn_messages (cl_master c)"
proof -
  have "Suc t \<le> 2 ^ 64" using t by simp
  from reach_connecting [OF g this live j] obtain evs c1 where
    c1: "run_steps (cl_run_step memory draw) (Some c) evs = Some c1" "cl_good memory (Suc t) (MN_AddSecondary # rest) c1"
      "cl_master c1 = cl_master c" "j < length (cl_members c1)" "sns_connects (mb_node (cl_members c1 ! j)) \<noteq> 0"
    using j by metis
  have "Suc t + 16 \<le> 2 ^ 64" using t by simp
  from recover_connecting [OF c1(2) this c1(4,5)] obtain evs' c' where
    "run_steps (cl_run_step memory draw) (Some c1) evs' = Some c'" "recovered c' j" "mn_messages (cl_master c') = mn_messages (cl_master c1)"
    by blast
  then show ?thesis using c1(1,3) by (intro exI [of _ "evs @ evs'"] exI [of _ c']) (simp add: run_steps_append)
qed

text \<open>Runs lead to good states.\<close>

lemma cl_run_good:
  assumes "length evs \<le> 2 ^ 64" "mn_within MasterNode_create (concat (map asked_of evs) @ rest)" "cl_fits memory names evs"
  shows "\<exists>c. cl_run memory draw names evs = Some c \<and> cl_good memory (length evs) rest c \<and> cl_live c \<and>
    length (cl_members c) = length names"
proof -
  have m: "cl_master (cl_create names) = MasterNode_create" "mn_messages MasterNode_create = []"
    by (simp_all add: cl_create_def MasterNode_create_def mn_messages_def)
  have t: "0 + length evs \<le> 2 ^ 64" and w: "mn_within (cl_master (cl_create names)) (concat (map asked_of evs) @ rest)"
    using assms(1,2) by (simp_all add: m)
  have able: "cl_able memory (cl_create names)" and room: "room_for memory (mn_messages (cl_master (cl_create names)) @ messages_asked evs)"
    using assms(3) cl_able_create by (simp_all add: cl_fits_def m)
  from cl_run_progress [OF cl_inv_create t w able room] obtain c where
    c: "cl_run memory draw names evs = Some c" "cl_able memory c" "room_for memory (mn_messages (cl_master c))" by blast
  from cl_run_follows [OF cl_inv_create t w c(1)] obtain s where
    s: "sys_reaches (sys_create names) s" "cl_inv (0 + length evs) c s [] 0 []" "mn_within (cl_master c) rest" by blast
  have "cl_live c \<and> length (cl_members c) = length names"
    using cl_run_live [OF cl_inv_create t w cl_live_create c(1)] by (simp add: cl_create_def)
  then show ?thesis using c s unfolding cl_good_def by auto
qed

section \<open>Property\<close>



end
