(* ===== verification/Logger.thy ===== *)
theory Logger
  imports Prelude
begin

unbundle bit_operations_syntax

text \<open>
  libs/logger: the base name of a source file, the severity names, the sink and its filter, and
  the formatter of a record. Boost.Log hands the formatter the attributes of a record, each of
  which may be missing, and an output stream whose flags live on from one record to the next:
  \<open>os_width\<close> is the width of the next insertion only, the fill character, the alignment and the
  base stay until they are changed.
\<close>

section \<open>extractBaseName\<close>

text \<open>
  The recursion over the distance from the end; \<^const>\<open>None\<close> is the \<^verbatim>\<open>std::out_of_range\<close> of
  \<^verbatim>\<open>s.at\<close>, whose index has wrapped around when there is no slash.
\<close>

function extractBaseNameImpl :: "string \<Rightarrow> nat \<Rightarrow> string option" where
  "extractBaseNameImpl s i =
     (if length s \<le> i then None
      else if s ! (length s - 1 - i) = CHR ''/'' then Some (drop (length s - i) s)
      else extractBaseNameImpl s (i + 1))"
  by pat_completeness auto
termination by (relation "measure (\<lambda>(s, i). length s - i)") auto

declare extractBaseNameImpl.simps [simp del]

definition extractBaseName :: "string \<Rightarrow> string option" where
  "extractBaseName s = extractBaseNameImpl s 0"

section \<open>Severity, sink and filter\<close>

datatype Severity = Debug | Info | Warning | Error

fun Severity_val :: "Severity \<Rightarrow> nat" where
  "Severity_val Debug = 0"
| "Severity_val Info = 1"
| "Severity_val Warning = 2"
| "Severity_val Error = 3"

fun digit_char :: "nat \<Rightarrow> char" where
  "digit_char d = (if d < 10 then char_of (48 + d) else char_of (87 + d))"

text \<open>The digits of a number; the base is at least 2.\<close>

function digits :: "nat \<Rightarrow> nat \<Rightarrow> string" where
  "digits b n = (if n < b \<or> b < 2 then [digit_char n] else digits b (n div b) @ [digit_char (n mod b)])"
  by pat_completeness auto
termination by (relation "measure snd") auto

declare digits.simps [simp del]

definition show_Severity :: "nat \<Rightarrow> string" where
  "show_Severity i =
     (if i < 4 then [''DBG '', ''Info'', ''Warn'', ''ERR!''] ! i else digits 10 i)"

text \<open>The sink with its minimal severity; \<^verbatim>\<open>setup\<close> does nothing when there is one.\<close>

record LoggerState =
  lg_programName :: "string option"
  lg_sink :: "Severity option"

definition logger_setup :: "string \<Rightarrow> Severity \<Rightarrow> LoggerState \<Rightarrow> LoggerState" where
  "logger_setup programName minSeverity g =
     (if lg_sink g \<noteq> None then g else g\<lparr>lg_programName := Some programName, lg_sink := Some minSeverity\<rparr>)"

definition logger_teardown :: "LoggerState \<Rightarrow> LoggerState" where
  "logger_teardown g = (if lg_sink g = None then g else g\<lparr>lg_sink := None\<rparr>)"

text \<open>An enumeration is ordered by its values; the filter of the sink compares severities.\<close>

instantiation Severity :: linorder
begin

definition less_eq_Severity :: "Severity \<Rightarrow> Severity \<Rightarrow> bool" where
  "less_eq_Severity a b \<longleftrightarrow> Severity_val a \<le> Severity_val b"

definition less_Severity :: "Severity \<Rightarrow> Severity \<Rightarrow> bool" where
  "less_Severity a b \<longleftrightarrow> Severity_val a < Severity_val b"

instance
proof
  fix a b c :: Severity
  show "a < b \<longleftrightarrow> a \<le> b \<and> \<not> b \<le> a" by (auto simp: less_eq_Severity_def less_Severity_def)
  show "a \<le> a" by (simp add: less_eq_Severity_def)
  show "a \<le> c" if "a \<le> b" "b \<le> c" using that by (simp add: less_eq_Severity_def)
  show "a = b" if "a \<le> b" "b \<le> a" using that by (cases a; cases b) (auto simp: less_eq_Severity_def)
  show "a \<le> b \<or> b \<le> a" by (auto simp: less_eq_Severity_def)
qed

end

definition sink_filter :: "Severity \<Rightarrow> Severity option \<Rightarrow> bool" where
  "sink_filter minSeverity severity = ((case severity of None \<Rightarrow> minSeverity | Some v \<Rightarrow> v) \<ge> minSeverity)"

section \<open>The output stream\<close>

record ostrm =
  os_out :: string
  os_width :: nat
  os_fill :: char
  os_left :: bool
  os_base :: nat

definition put :: "string \<Rightarrow> ostrm \<Rightarrow> ostrm" where
  "put s strm =
     (let pad = replicate (os_width strm - length s) (os_fill strm)
      in strm\<lparr>os_out := os_out strm @ (if os_left strm then s @ pad else pad @ s), os_width := 0\<rparr>)"

definition put_num :: "nat \<Rightarrow> ostrm \<Rightarrow> ostrm" where
  "put_num n strm = put (digits (os_base strm) n) strm"

definition setw :: "nat \<Rightarrow> ostrm \<Rightarrow> ostrm" where "setw n strm = strm\<lparr>os_width := n\<rparr>"
definition setfill :: "char \<Rightarrow> ostrm \<Rightarrow> ostrm" where "setfill c strm = strm\<lparr>os_fill := c\<rparr>"
definition std_left :: "ostrm \<Rightarrow> ostrm" where "std_left strm = strm\<lparr>os_left := True\<rparr>"
definition std_right :: "ostrm \<Rightarrow> ostrm" where "std_right strm = strm\<lparr>os_left := False\<rparr>"
definition std_hex :: "ostrm \<Rightarrow> ostrm" where "std_hex strm = strm\<lparr>os_base := 16\<rparr>"
definition std_dec :: "ostrm \<Rightarrow> ostrm" where "std_dec strm = strm\<lparr>os_base := 10\<rparr>"

section \<open>The formatter\<close>

record LogRecord =
  lr_uptimeMs :: "size_t option"
  lr_programName :: "string option"
  lr_threadId :: "64 word option"
  lr_codeFilename :: "string option"
  lr_codeLineNumber :: "size_t option"
  lr_channel :: "string option"
  lr_numId :: "size_t option"
  lr_stringId :: "string option"
  lr_severity :: "Severity option"
  lr_message :: string

definition on_some :: "'a option \<Rightarrow> ('a \<Rightarrow> ostrm \<Rightarrow> ostrm) \<Rightarrow> (ostrm \<Rightarrow> ostrm) \<Rightarrow> ostrm \<Rightarrow> ostrm" where
  "on_some x f g strm = (case x of Some v \<Rightarrow> f v strm | None \<Rightarrow> g strm)"

definition format_uptime :: "LogRecord \<Rightarrow> ostrm \<Rightarrow> ostrm" where
  "format_uptime r =
     on_some (lr_uptimeMs r)
       (\<lambda>uptimeMs strm.
          let sec = uptimeMs div 1000; msec = uptimeMs mod 1000
          in (std_left \<circ> setfill CHR '' '' \<circ> put ''s]'' \<circ> put_num (unat msec) \<circ> setfill CHR ''0'' \<circ> std_right \<circ>
              setw 3 \<circ> put ''.'' \<circ> put_num (unat sec) \<circ> std_right \<circ> setw 4 \<circ> put ''['') strm)
       id"

definition format_thread :: "LogRecord \<Rightarrow> ostrm \<Rightarrow> ostrm" where
  "format_thread r =
     on_some (lr_threadId r)
       (\<lambda>threadId. std_dec \<circ> put_num (unat (threadId AND 0xfffff)) \<circ> setw 5 \<circ> std_hex \<circ> put '','')
       id"

definition format_program :: "LogRecord \<Rightarrow> ostrm \<Rightarrow> ostrm" where
  "format_program r =
     on_some (lr_programName r)
       (\<lambda>programName. put '']'' \<circ> format_thread r \<circ> put programName \<circ> put '' ['')
       id"

definition format_file :: "LogRecord \<Rightarrow> ostrm \<Rightarrow> ostrm" where
  "format_file r =
     on_some (lr_codeFilename r)
       (\<lambda>fileName.
          put '']'' \<circ>
          on_some (lr_codeLineNumber r)
            (\<lambda>lineNumber. put_num (unat lineNumber) \<circ> std_left \<circ> setw 4 \<circ> put '':'')
            (put '''' \<circ> setw 5) \<circ>
          put fileName \<circ> std_right \<circ> setw 30 \<circ> put '' ['')
       id"

definition kChannelCharactersWidth :: nat where
  "kChannelCharactersWidth = 35"

definition channel_representation :: "LogRecord \<Rightarrow> string \<Rightarrow> string" where
  "channel_representation r channel =
     ''['' @ channel @
     (case lr_numId r of Some n \<Rightarrow> '',id='' @ digits 10 (unat n) | None \<Rightarrow> '''') @
     (case lr_stringId r of Some s \<Rightarrow> '',id='' @ s | None \<Rightarrow> '''') @ '']''"

definition format_channel :: "LogRecord \<Rightarrow> ostrm \<Rightarrow> ostrm" where
  "format_channel r =
     on_some (lr_channel r)
       (\<lambda>channel. put (channel_representation r channel) \<circ> setw kChannelCharactersWidth)
       (put '''' \<circ> setw kChannelCharactersWidth)"

definition format_severity :: "LogRecord \<Rightarrow> ostrm \<Rightarrow> ostrm" where
  "format_severity r =
     on_some (lr_severity r)
       (\<lambda>severity. put '']'' \<circ> put (show_Severity (Severity_val severity)) \<circ> put '' ['')
       id"

definition log_formatter :: "LogRecord \<Rightarrow> ostrm \<Rightarrow> ostrm" where
  "log_formatter r strm =
     (put (lr_message r) \<circ> put '' : '' \<circ> format_severity r \<circ> format_channel r \<circ> format_file r \<circ>
      format_program r \<circ> format_uptime r) strm"

section \<open>The text of a record\<close>

text \<open>What a line is meant to look like, without a stream.\<close>

definition pad_left :: "nat \<Rightarrow> char \<Rightarrow> string \<Rightarrow> string" where
  "pad_left n c s = replicate (n - length s) c @ s"

definition pad_right :: "nat \<Rightarrow> string \<Rightarrow> string" where
  "pad_right n s = s @ replicate (n - length s) CHR '' ''"

definition log_line :: "LogRecord \<Rightarrow> string" where
  "log_line r =
     (case lr_uptimeMs r of None \<Rightarrow> ''''
      | Some u \<Rightarrow> ''['' @ pad_left 4 CHR '' '' (digits 10 (unat u div 1000)) @ ''.'' @
                  pad_left 3 CHR ''0'' (digits 10 (unat u mod 1000)) @ ''s]'') @
     (case lr_programName r of None \<Rightarrow> ''''
      | Some name \<Rightarrow> '' ['' @ name @
          (case lr_threadId r of None \<Rightarrow> '''' | Some t \<Rightarrow> '','' @ pad_right 5 (digits 16 (unat t mod 2 ^ 20))) @ '']'') @
     (case lr_codeFilename r of None \<Rightarrow> ''''
      | Some file \<Rightarrow> '' ['' @ pad_left 30 CHR '' '' file @
          (case lr_codeLineNumber r of None \<Rightarrow> replicate 5 CHR '' ''
           | Some l \<Rightarrow> '':'' @ pad_right 4 (digits 10 (unat l))) @ '']'') @
     pad_right 35 (case lr_channel r of None \<Rightarrow> '''' | Some channel \<Rightarrow> channel_representation r channel) @
     (case lr_severity r of None \<Rightarrow> '''' | Some v \<Rightarrow> '' ['' @ show_Severity (Severity_val v) @ '']'') @
     '' : '' @ lr_message r"

text \<open>A stream between two records: flags as the formatter expects them, alignment arbitrary.\<close>

definition between_records :: "ostrm \<Rightarrow> bool" where
  "between_records strm \<longleftrightarrow> os_width strm = 0 \<and> os_fill strm = CHR '' '' \<and> os_base strm = 10"

text \<open>Records as the program's loggers make them: the uptime is global, a file comes with its line.\<close>

definition program_record :: "LogRecord \<Rightarrow> bool" where
  "program_record r \<longleftrightarrow> lr_uptimeMs r \<noteq> None \<and> (lr_codeFilename r \<noteq> None \<longrightarrow> lr_codeLineNumber r \<noteq> None)"

section \<open>extractBaseName takes what follows the last slash\<close>

lemma extractBaseNameImpl_eq:
  assumes "\<forall>j < i. s ! (length s - 1 - j) \<noteq> CHR ''/''" and "i \<le> length s"
  shows "extractBaseNameImpl s i =
     (if CHR ''/'' \<in> set s then Some (rev (takeWhile (\<lambda>c. c \<noteq> CHR ''/'') (rev s))) else None)"
  using assms
proof (induction s i rule: extractBaseNameImpl.induct)
  case (1 s i)
  have nth: "rev s ! j = s ! (length s - 1 - j)" if "j < length s" for j
    using that by (simp add: rev_nth)
  show ?case
  proof (cases "length s \<le> i")
    case True
    then have "\<forall>j < length (rev s). rev s ! j \<noteq> CHR ''/''" using 1(2) nth by simp
    then have "CHR ''/'' \<notin> set (rev s)" by (metis in_set_conv_nth)
    then show ?thesis using True by (subst extractBaseNameImpl.simps) simp
  next
    case i: False
    show ?thesis
    proof (cases "s ! (length s - 1 - i) = CHR ''/''")
      case True
      have "takeWhile (\<lambda>c. c \<noteq> CHR ''/'') (rev s) = take i (rev s)"
        using i True 1(2) nth by (intro takeWhile_eq_take_P_nth) simp_all
      moreover have "CHR ''/'' \<in> set s" using True i by (metis diff_less not_le nth_mem diff_diff_left zero_less_Suc
            plus_1_eq_Suc length_greater_0_conv less_nat_zero_code list.size(3))
      moreover have "drop (length s - i) s = rev (take i (rev s))" by (simp add: take_rev)
      ultimately show ?thesis using True i by (subst extractBaseNameImpl.simps) simp
    next
      case False
      have "\<forall>j < i + 1. s ! (length s - 1 - j) \<noteq> CHR ''/''" using 1(2) False by (auto simp: less_Suc_eq)
      from 1(1) [OF i False this] i False show ?thesis by (subst extractBaseNameImpl.simps) simp
    qed
  qed
qed

section \<open>The formatter writes the line\<close>

abbreviation strm_at :: "string \<Rightarrow> bool \<Rightarrow> ostrm" where
  "strm_at s l \<equiv> \<lparr>os_out = s, os_width = 0, os_fill = CHR '' '', os_left = l, os_base = 10\<rparr>"

lemmas stream_simps = put_def put_num_def setw_def setfill_def std_left_def std_right_def std_hex_def std_dec_def
  on_some_def Let_def pad_left_def pad_right_def

lemma between_records_at: "between_records strm \<Longrightarrow> strm = strm_at (os_out strm) (os_left strm)"
  by (cases strm) (simp add: between_records_def)

lemma format_uptime_line:
  "lr_uptimeMs r = Some u \<Longrightarrow>
   format_uptime r (strm_at s l) =
     strm_at (s @ ''['' @ pad_left 4 CHR '' '' (digits 10 (unat u div 1000)) @ ''.'' @
        pad_left 3 CHR ''0'' (digits 10 (unat u mod 1000)) @ ''s]'') True"
  by (simp add: format_uptime_def stream_simps unat_div unat_mod)

lemma mask_20: "unat (t AND 0xfffff :: 64 word) = unat t mod 2 ^ 20"
proof -
  have "(0xfffff :: 64 word) = mask 20" by (simp add: mask_eq_exp_minus_1)
  then have "t AND 0xfffff = take_bit 20 t" by (simp add: take_bit_eq_mask)
  then have "unat (t AND 0xfffff) = take_bit 20 (unat t)" by (simp only: unsigned_take_bit_eq)
  then show ?thesis by (simp only: take_bit_eq_mod)
qed

lemma format_program_line:
  "format_program r (strm_at s True) =
     strm_at (s @ (case lr_programName r of None \<Rightarrow> ''''
      | Some name \<Rightarrow> '' ['' @ name @
          (case lr_threadId r of None \<Rightarrow> '''' | Some t \<Rightarrow> '','' @ pad_right 5 (digits 16 (unat t mod 2 ^ 20))) @ '']'')) True"
  by (simp add: format_program_def format_thread_def stream_simps mask_20 split: option.split)

lemma format_file_line:
  "lr_codeFilename r \<noteq> None \<longrightarrow> lr_codeLineNumber r \<noteq> None \<Longrightarrow>
   format_file r (strm_at s True) =
     strm_at (s @ (case lr_codeFilename r of None \<Rightarrow> ''''
      | Some file \<Rightarrow> '' ['' @ pad_left 30 CHR '' '' file @
          (case lr_codeLineNumber r of None \<Rightarrow> replicate 5 CHR '' ''
           | Some l \<Rightarrow> '':'' @ pad_right 4 (digits 10 (unat l))) @ '']'')) True"
  by (auto simp: format_file_def stream_simps split: option.split)

lemma format_channel_line:
  "format_channel r (strm_at s True) =
     strm_at (s @ pad_right 35 (case lr_channel r of None \<Rightarrow> '''' | Some channel \<Rightarrow> channel_representation r channel)) True"
  by (simp add: format_channel_def stream_simps kChannelCharactersWidth_def split: option.split)

lemma format_severity_line:
  "format_severity r (strm_at s True) =
     strm_at (s @ (case lr_severity r of None \<Rightarrow> '''' | Some v \<Rightarrow> '' ['' @ show_Severity (Severity_val v) @ '']'')) True"
  by (simp add: format_severity_def stream_simps split: option.split)

lemma log_formatter_line:
  assumes "between_records strm" "program_record r"
  shows "log_formatter r strm = strm_at (os_out strm @ log_line r) True"
proof -
  obtain u where u: "lr_uptimeMs r = Some u" using assms(2) by (auto simp: program_record_def)
  have f: "lr_codeFilename r \<noteq> None \<longrightarrow> lr_codeLineNumber r \<noteq> None" using assms(2) by (simp add: program_record_def)
  have "log_formatter r (strm_at (os_out strm) (os_left strm)) = strm_at (os_out strm @ log_line r) True"
    unfolding log_formatter_def comp_apply format_uptime_line [OF u] format_program_line format_file_line [OF f]
      format_channel_line format_severity_line log_line_def u option.case
    by (simp add: put_def)
  then show ?thesis using between_records_at [OF assms(1)] by simp
qed

section \<open>Properties\<close>

text \<open>
\<^verbatim>\<open>extractBaseName\<close> is the base name of a path: the recursion from the end of the string
returns, for every string, what follows the last slash; a string without a slash makes it throw.
\<close>

theorem extractBaseName_correct:
  "extractBaseName s =
     (if CHR ''/'' \<in> set s then Some (rev (takeWhile (\<lambda>c. c \<noteq> CHR ''/'') (rev s))) else None)"
  unfolding extractBaseName_def by (rule extractBaseNameImpl_eq) simp_all

text \<open>
The log is one well-formed line after another: although widths, fill characters, alignment and
number base of the stream survive from record to record, formatting any sequence of the
program's records writes exactly the concatenation of their lines, each of which depends on
its own record only.
\<close>

theorem formatter_writes_lines:
  assumes "between_records strm" and "\<forall>r \<in> set rs. program_record r"
  shows "os_out (fold log_formatter rs strm) = os_out strm @ concat (map log_line rs) \<and>
     between_records (fold log_formatter rs strm)"
  using assms
proof (induction rs arbitrary: strm)
  case (Cons r rs)
  have line: "log_formatter r strm = strm_at (os_out strm @ log_line r) True"
    using log_formatter_line Cons.prems by simp
  have "between_records (log_formatter r strm)" unfolding line by (simp add: between_records_def)
  from Cons.IH [OF this] Cons.prems(2) show ?case by (simp add: line)
qed simp

theorem formatter_writes_lines_witness:
  "let r = \<lparr>lr_uptimeMs = Some 1234, lr_programName = Some ''m'', lr_threadId = None, lr_codeFilename = None,
            lr_codeLineNumber = None, lr_channel = None, lr_numId = None, lr_stringId = None,
            lr_severity = None, lr_message = ''hi''\<rparr>
   in os_out (fold log_formatter [r, r] (strm_at '''' False)) = log_line r @ log_line r"
proof -
  let ?r = "\<lparr>lr_uptimeMs = Some 1234, lr_programName = Some ''m'', lr_threadId = None, lr_codeFilename = None,
    lr_codeLineNumber = None, lr_channel = None, lr_numId = None, lr_stringId = None,
    lr_severity = None, lr_message = ''hi''\<rparr>"
  have h: "between_records (strm_at '''' False)" "\<forall>r \<in> set [?r, ?r]. program_record r"
    by (simp_all add: between_records_def program_record_def)
  from formatter_writes_lines [OF h] show ?thesis unfolding Let_def by simp
qed

end
