(* ===== verification/LogSources.thy ===== *)
theory LogSources
  imports Logger
begin

text \<open>
  libs/logger/entity.hpp, detail/entity_impl.hpp, detail/keyvaluefeature.hpp and logger.h: the
  loggers a log statement writes to. Each class that logs has one static logger, shared by all
  its objects and threads; the features of a logger hold the attribute values of the statement
  that was last executed on it. A statement opens a record under the lock of its logger, so a
  statement is one step.

  What the core of Boost.Log makes of a record that is opened is a parameter (\<open>core\<close>); the program
  relies on it to ask the filter of the sink and otherwise to keep the attributes.
\<close>

section \<open>Features and loggers\<close>

text \<open>
  \<^verbatim>\<open>KeyValueFeature\<close> holds one attribute value: the keyword argument of the constructor or the
  default, then the keyword argument of the last statement that had one.
\<close>

definition KeyValueFeature_create :: "'v \<Rightarrow> 'v option \<Rightarrow> 'v" where
  "KeyValueFeature_create default_value arg = (case arg of Some v \<Rightarrow> v | None \<Rightarrow> default_value)"

definition KeyValueFeature_open_record :: "'v option \<Rightarrow> 'v \<Rightarrow> 'v" where
  "KeyValueFeature_open_record arg m_valueAttr = (case arg of Some ch \<Rightarrow> ch | None \<Rightarrow> m_valueAttr)"

text \<open>A logger by its features; \<^const>\<open>None\<close> is a feature the logger does not have.\<close>

record LogSource =
  ls_channel :: "string option"
  ls_numId :: "size_t option"
  ls_stringId :: "string option"
  ls_codeFilename :: string
  ls_codeLineNumber :: size_t

definition EntityLogger_create :: "string \<Rightarrow> LogSource" where
  "EntityLogger_create kEntityName =
     \<lparr>ls_channel = Some kEntityName, ls_numId = None, ls_stringId = None,
      ls_codeFilename = KeyValueFeature_create '''' None, ls_codeLineNumber = KeyValueFeature_create 0 None\<rparr>"

definition NumIdEntityLogger_create :: "string \<Rightarrow> LogSource" where
  "NumIdEntityLogger_create kEntityName =
     \<lparr>ls_channel = Some kEntityName, ls_numId = Some (KeyValueFeature_create 0 None), ls_stringId = None,
      ls_codeFilename = KeyValueFeature_create '''' None, ls_codeLineNumber = KeyValueFeature_create 0 None\<rparr>"

definition StringIdEntityLogger_create :: "string \<Rightarrow> LogSource" where
  "StringIdEntityLogger_create kEntityName =
     \<lparr>ls_channel = Some kEntityName, ls_numId = None, ls_stringId = Some (KeyValueFeature_create '''' None),
      ls_codeFilename = KeyValueFeature_create '''' None, ls_codeLineNumber = KeyValueFeature_create 0 None\<rparr>"

definition GlobalLogger_create :: LogSource where
  "GlobalLogger_create =
     \<lparr>ls_channel = None, ls_numId = None, ls_stringId = None,
      ls_codeFilename = KeyValueFeature_create '''' None, ls_codeLineNumber = KeyValueFeature_create 0 None\<rparr>"

section \<open>Objects that log\<close>

text \<open>The counter of a class gives each new object its number.\<close>

definition NumIdEntity_create :: "size_t \<Rightarrow> size_t \<times> size_t" where
  "NumIdEntity_create idCounter = (idCounter, idCounter + 1)"

text \<open>The \<^verbatim>\<open>d3WzdZnJOpenRecord_\<close> of the three kinds: which keywords they pass to the logger.\<close>

definition Entity_openRecord :: "string \<Rightarrow> size_t \<Rightarrow> LogSource \<Rightarrow> LogSource" where
  "Entity_openRecord codeFileName codeLineNumber l =
     l\<lparr>ls_codeFilename := KeyValueFeature_open_record (Some codeFileName) (ls_codeFilename l),
       ls_codeLineNumber := KeyValueFeature_open_record (Some codeLineNumber) (ls_codeLineNumber l)\<rparr>"

definition NumIdEntity_openRecord :: "size_t \<Rightarrow> string \<Rightarrow> size_t \<Rightarrow> LogSource \<Rightarrow> LogSource" where
  "NumIdEntity_openRecord ident codeFileName codeLineNumber l =
     (Entity_openRecord codeFileName codeLineNumber l)
       \<lparr>ls_numId := map_option (KeyValueFeature_open_record (Some ident)) (ls_numId l)\<rparr>"

definition StringIdEntity_openRecord :: "string \<Rightarrow> string \<Rightarrow> size_t \<Rightarrow> LogSource \<Rightarrow> LogSource" where
  "StringIdEntity_openRecord ident codeFileName codeLineNumber l =
     (Entity_openRecord codeFileName codeLineNumber l)
       \<lparr>ls_stringId := map_option (KeyValueFeature_open_record (Some ident)) (ls_stringId l)\<rparr>"

section \<open>Log statements\<close>

text \<open>The static logger of a class of either kind, and the global one.\<close>

datatype source =
    Src_Entity string
  | Src_NumId string
  | Src_StringId string
  | Src_Global

fun source_create :: "source \<Rightarrow> LogSource" where
  "source_create (Src_Entity c) = EntityLogger_create c"
| "source_create (Src_NumId c) = NumIdEntityLogger_create c"
| "source_create (Src_StringId c) = StringIdEntityLogger_create c"
| "source_create Src_Global = GlobalLogger_create"

text \<open>
  A statement as it is executed: the object's ids (of which the kind of its class uses at most
  one), \<^verbatim>\<open>__FILE__\<close>, \<^verbatim>\<open>__LINE__\<close>, the text, and what the global attributes are at that moment.
\<close>

record Statement =
  st_source :: source
  st_numId :: size_t
  st_stringId :: string
  st_severity :: Severity
  st_file :: string
  st_line :: size_t
  st_message :: string
  st_threadId :: "64 word"
  st_uptimeMs :: size_t

definition openRecord :: "Statement \<Rightarrow> string \<Rightarrow> LogSource \<Rightarrow> LogSource" where
  "openRecord st codeFileName =
     (case st_source st of
        Src_Entity _ \<Rightarrow> Entity_openRecord codeFileName (st_line st)
      | Src_NumId _ \<Rightarrow> NumIdEntity_openRecord (st_numId st) codeFileName (st_line st)
      | Src_StringId _ \<Rightarrow> StringIdEntity_openRecord (st_stringId st) codeFileName (st_line st)
      | Src_Global \<Rightarrow> Entity_openRecord codeFileName (st_line st))"

record Logging =
  lp_state :: LoggerState
  lp_sources :: "source \<Rightarrow> LogSource"
  lp_strm :: ostrm

definition Logging_create :: "string \<Rightarrow> Severity \<Rightarrow> LoggerState \<Rightarrow> ostrm \<Rightarrow> Logging" where
  "Logging_create programName minSeverity g strm =
     \<lparr>lp_state = logger_setup programName minSeverity g, lp_sources = source_create, lp_strm = strm\<rparr>"

text \<open>The attributes a record has when it is opened: those of the logger and the global ones.\<close>

definition record_attributes :: "LoggerState \<Rightarrow> Statement \<Rightarrow> LogSource \<Rightarrow> LogRecord" where
  "record_attributes g st l =
     \<lparr>lr_uptimeMs = Some (st_uptimeMs st), lr_programName = lg_programName g,
      lr_threadId = Some (st_threadId st), lr_codeFilename = Some (ls_codeFilename l),
      lr_codeLineNumber = Some (ls_codeLineNumber l), lr_channel = ls_channel l,
      lr_numId = ls_numId l, lr_stringId = ls_stringId l, lr_severity = Some (st_severity st),
      lr_message = ''''\<rparr>"

text \<open>
  \<^verbatim>\<open>_EN_LOG_IMPL\<close> and \<^verbatim>\<open>_LOGIMPL\<close>. \<^const>\<open>None\<close> is the exception of \<^const>\<open>extractBaseName\<close>; the text is
  put into the record only if the core has opened it.
\<close>

definition log_impl ::
    "(LoggerState \<Rightarrow> LogRecord \<Rightarrow> LogRecord option) \<Rightarrow> Statement \<Rightarrow> Logging \<Rightarrow> Logging option" where
  "log_impl core st p =
     (case extractBaseName (st_file st) of
        None \<Rightarrow> None
      | Some codeFileName \<Rightarrow>
          (let l = openRecord st codeFileName (lp_sources p (st_source st));
               p' = p\<lparr>lp_sources := (lp_sources p)(st_source st := l)\<rparr>
           in case core (lp_state p) (record_attributes (lp_state p) st l) of
                None \<Rightarrow> Some p'
              | Some rec \<Rightarrow>
                  Some (p'\<lparr>lp_strm := log_formatter (rec\<lparr>lr_message := st_message st\<rparr>) (lp_strm p')\<rparr>)))"

definition log_run_step ::
    "(LoggerState \<Rightarrow> LogRecord \<Rightarrow> LogRecord option) \<Rightarrow> Logging option \<Rightarrow> Statement \<Rightarrow> Logging option" where
  "log_run_step core p st = (case p of None \<Rightarrow> None | Some p' \<Rightarrow> log_impl core st p')"

text \<open>The documented behaviour of the core the program relies on: the sink's filter decides.\<close>

definition core_filters :: "(LoggerState \<Rightarrow> LogRecord \<Rightarrow> LogRecord option) \<Rightarrow> bool" where
  "core_filters core \<longleftrightarrow>
     (\<forall>g r minSeverity. lg_sink g = Some minSeverity \<longrightarrow>
        core g r = (if sink_filter minSeverity (lr_severity r) then Some r else None))"


section \<open>What a statement is meant to write\<close>

definition base_name :: "string \<Rightarrow> string" where
  "base_name s = rev (takeWhile (\<lambda>c. c \<noteq> CHR ''/'') (rev s))"

definition statement_record :: "string \<Rightarrow> Statement \<Rightarrow> LogRecord" where
  "statement_record programName st =
     \<lparr>lr_uptimeMs = Some (st_uptimeMs st), lr_programName = Some programName,
      lr_threadId = Some (st_threadId st), lr_codeFilename = Some (base_name (st_file st)),
      lr_codeLineNumber = Some (st_line st),
      lr_channel = (case st_source st of Src_Entity c \<Rightarrow> Some c | Src_NumId c \<Rightarrow> Some c
                    | Src_StringId c \<Rightarrow> Some c | Src_Global \<Rightarrow> None),
      lr_numId = (case st_source st of Src_NumId _ \<Rightarrow> Some (st_numId st) | _ \<Rightarrow> None),
      lr_stringId = (case st_source st of Src_StringId _ \<Rightarrow> Some (st_stringId st) | _ \<Rightarrow> None),
      lr_severity = Some (st_severity st), lr_message = st_message st\<rparr>"

definition log_text :: "string \<Rightarrow> Severity \<Rightarrow> Statement list \<Rightarrow> string" where
  "log_text programName minSeverity sts =
     concat (map (log_line \<circ> statement_record programName) (filter (\<lambda>st. minSeverity \<le> st_severity st) sts))"

text \<open>A logger keeps its channel and its features, whatever values they hold.\<close>

definition same_features :: "LogSource \<Rightarrow> LogSource \<Rightarrow> bool" where
  "same_features l l' \<longleftrightarrow>
     ls_channel l = ls_channel l' \<and> (ls_numId l = None) = (ls_numId l' = None) \<and>
     (ls_stringId l = None) = (ls_stringId l' = None)"

definition logging_ok :: "string \<Rightarrow> Severity \<Rightarrow> Logging \<Rightarrow> bool" where
  "logging_ok programName minSeverity p \<longleftrightarrow>
     lp_state p = \<lparr>lg_programName = Some programName, lg_sink = Some minSeverity\<rparr> \<and>
     (\<forall>s. same_features (lp_sources p s) (source_create s)) \<and> between_records (lp_strm p)"

lemmas openRecord_defs = openRecord_def Entity_openRecord_def NumIdEntity_openRecord_def
  StringIdEntity_openRecord_def KeyValueFeature_open_record_def

lemma extractBaseName_base: "CHR ''/'' \<in> set s \<Longrightarrow> extractBaseName s = Some (base_name s)"
  unfolding extractBaseName_def base_name_def by (subst extractBaseNameImpl_eq) simp_all

lemma openRecord_features [simp]: "same_features (openRecord st file l) l' = same_features l l'"
  by (auto simp: same_features_def openRecord_defs split: source.split)

lemma openRecord_values:
  assumes "same_features l (source_create (st_source st))"
  shows "(record_attributes \<lparr>lg_programName = Some programName, lg_sink = Some minSeverity\<rparr> st
            (openRecord st (base_name (st_file st)) l))\<lparr>lr_message := st_message st\<rparr> =
         statement_record programName st"
  using assms
  by (cases "st_source st")
    (auto simp: same_features_def openRecord_defs record_attributes_def statement_record_def
      EntityLogger_create_def NumIdEntityLogger_create_def StringIdEntityLogger_create_def GlobalLogger_create_def)

lemma log_impl_ok:
  assumes ok: "logging_ok programName minSeverity p" and core: "core_filters core" and slash: "CHR ''/'' \<in> set (st_file st)"
  shows "\<exists>p'. log_impl core st p = Some p' \<and> logging_ok programName minSeverity p' \<and>
     os_out (lp_strm p') = os_out (lp_strm p) @ log_text programName minSeverity [st]"
proof -
  let ?g = "\<lparr>lg_programName = Some programName, lg_sink = Some minSeverity\<rparr>"
  let ?l = "openRecord st (base_name (st_file st)) (lp_sources p (st_source st))"
  let ?p = "p\<lparr>lp_sources := (lp_sources p)(st_source st := ?l)\<rparr>"
  have st: "lp_state p = ?g" and feat: "\<And>s. same_features (lp_sources p s) (source_create s)"
    and strm: "between_records (lp_strm p)"
    using ok by (auto simp: logging_ok_def)
  have c: "core ?g (record_attributes ?g st ?l) =
      (if minSeverity \<le> st_severity st then Some (record_attributes ?g st ?l) else None)"
    using core by (simp add: core_filters_def sink_filter_def record_attributes_def)
  have rec: "(record_attributes ?g st ?l)\<lparr>lr_message := st_message st\<rparr> = statement_record programName st"
    by (rule openRecord_values) (rule feat)
  have line: "log_formatter (statement_record programName st) (lp_strm p) =
      strm_at (os_out (lp_strm p) @ log_line (statement_record programName st)) True"
    by (rule log_formatter_line [OF strm]) (simp add: program_record_def statement_record_def)
  show ?thesis
  proof (cases "minSeverity \<le> st_severity st")
    case True
    then have "log_impl core st p = Some (?p\<lparr>lp_strm := log_formatter (statement_record programName st) (lp_strm p)\<rparr>)"
      by (simp add: log_impl_def extractBaseName_base [OF slash] st c rec Let_def)
    then show ?thesis
      using True feat by (simp add: line logging_ok_def st log_text_def between_records_def)
  next
    case False
    then have "log_impl core st p = Some ?p"
      by (simp add: log_impl_def extractBaseName_base [OF slash] st c Let_def)
    then show ?thesis
      using False feat strm by (simp add: logging_ok_def st log_text_def)
  qed
qed

lemma log_run_step_Some [simp]: "log_run_step core (Some p) st = log_impl core st p"
  by (simp add: log_run_step_def)

lemma log_run_step_None [simp]: "log_run_step core None st = None"
  by (simp add: log_run_step_def)

lemma run_log_run_step_None [simp]: "run_steps (log_run_step core) None sts = None"
  by (induction sts) simp_all

lemma log_run_ok:
  assumes "logging_ok programName minSeverity p" "core_filters core" "\<forall>st \<in> set sts. CHR ''/'' \<in> set (st_file st)"
  shows "\<exists>p'. run_steps (log_run_step core) (Some p) sts = Some p' \<and>
     os_out (lp_strm p') = os_out (lp_strm p) @ log_text programName minSeverity sts"
  using assms
proof (induction sts arbitrary: p)
  case (Cons st sts)
  obtain p1 where p1: "log_impl core st p = Some p1" "logging_ok programName minSeverity p1"
      "os_out (lp_strm p1) = os_out (lp_strm p) @ log_text programName minSeverity [st]"
    using log_impl_ok [OF Cons.prems(1,2)] Cons.prems(3) by auto
  from Cons.IH [OF p1(2) Cons.prems(2)] Cons.prems(3) show ?case
    by (auto simp: p1 log_text_def)
qed (simp add: log_text_def)

lemma log_run_throws:
  assumes "st \<in> set sts" "CHR ''/'' \<notin> set (st_file st)"
  shows "run_steps (log_run_step core) (Some p) sts = None"
  using assms(1)
proof (induction sts arbitrary: p)
  case (Cons s sts)
  have "log_impl core st q = None" for q
    using assms(2) unfolding log_impl_def extractBaseName_def by (subst extractBaseNameImpl_eq) simp_all
  with Cons show ?case by (cases "log_impl core s p") auto
qed simp

section \<open>Object numbers\<close>

text \<open>The numbers of \<open>n\<close> objects created one after another.\<close>

fun created_ids :: "nat \<Rightarrow> size_t \<Rightarrow> size_t list" where
  "created_ids 0 c = []"
| "created_ids (Suc n) c = (let (i, c') = NumIdEntity_create c in i # created_ids n c')"

lemma created_ids_eq: "created_ids n c = map (\<lambda>i. c + word_of_nat i) [0..<n]"
proof (induction n arbitrary: c)
  case (Suc n)
  have "[0..<Suc n] = 0 # map Suc [0..<n]" by (simp add: map_Suc_upt upt_conv_Cons)
  then show ?case by (simp add: NumIdEntity_create_def Suc.IH algebra_simps)
qed simp

lemma created_ids_distinct:
  assumes "n \<le> 2 ^ 64"
  shows "distinct (created_ids n c)"
proof -
  have u: "unat (word_of_nat i :: size_t) = i" if "i < n" for i
    using that assms by (simp add: unat_of_nat)
  have "inj_on (\<lambda>i. c + word_of_nat i) {0..<n}"
    by (rule inj_onI) (metis add_left_cancel atLeastLessThan_iff u)
  then show ?thesis by (simp add: created_ids_eq distinct_map)
qed

section \<open>Properties\<close>



end
