(* ===== verification/LogFeatures.thy ===== *)
theory LogFeatures
  imports LogSources
begin

text \<open>
  libs/logger/detail/keyvaluefeature.hpp, detail/codelocation.hpp, uptime.cpp: what the features of
  a logger do behind the values of theory \<open>LogSources\<close>. An attribute of Boost.Log is a pointer to an
  implementation that is shared by all copies of the attribute; a \<^verbatim>\<open>mutable_constant\<close> is one whose
  implementation holds a value that can be set. A feature keeps such an attribute in \<^verbatim>\<open>m_valueAttr\<close>
  and under a name in the attribute set of its logger, and a record that is opened reads the set. So
  the two must point to the same cell, and the cells of two loggers must be different, also when
  one is a copy of the other. The cells are explicit here; a cell is its address in a list.
\<close>

section \<open>Keywords and their attributes\<close>

datatype attr_value = AV_String string | AV_Size size_t

text \<open>A feature is a layer over the feature before it; it is given by its attribute name and its value type.\<close>

record KeyValue =
  kv_attrName :: string
  kv_default :: attr_value

definition CodeFilename_key :: KeyValue where
  "CodeFilename_key = \<lparr>kv_attrName = ''code_attr_file_name'', kv_default = AV_String ''''\<rparr>"

definition CodeLineNumber_key :: KeyValue where
  "CodeLineNumber_key = \<lparr>kv_attrName = ''code_attr_line_number'', kv_default = AV_Size 0\<rparr>"

definition NumId_key :: KeyValue where
  "NumId_key = \<lparr>kv_attrName = ''attr_num_id'', kv_default = AV_Size 0\<rparr>"

definition StringId_key :: KeyValue where
  "StringId_key = \<lparr>kv_attrName = ''attr_string_id'', kv_default = AV_String ''''\<rparr>"

text \<open>The features of the four loggers; severity and channel belong to Boost.Log.\<close>

fun logger_keys :: "source \<Rightarrow> KeyValue list" where
  "logger_keys (Src_Entity _) = [CodeFilename_key, CodeLineNumber_key]"
| "logger_keys (Src_NumId _) = [NumId_key, CodeFilename_key, CodeLineNumber_key]"
| "logger_keys (Src_StringId _) = [StringId_key, CodeFilename_key, CodeLineNumber_key]"
| "logger_keys Src_Global = [CodeFilename_key, CodeLineNumber_key]"

lemma logger_keys_distinct: "distinct (map kv_attrName (logger_keys s))"
  by (cases s) (simp_all add: CodeFilename_key_def CodeLineNumber_key_def NumId_key_def StringId_key_def)

section \<open>One feature\<close>

text \<open>The attribute set of a logger, the \<^verbatim>\<open>m_valueAttr\<close> of its features, and the cells of all loggers.\<close>

type_synonym cells = "attr_value list"

record FeatureLogger =
  fl_attributes :: "string \<rightharpoonup> nat"
  fl_valueAttrs :: "nat list"

text \<open>\<^verbatim>\<open>add_attribute_unlocked\<close> keeps an attribute that is there already.\<close>

definition add_attribute_unlocked :: "string \<Rightarrow> nat \<Rightarrow> FeatureLogger \<Rightarrow> FeatureLogger" where
  "add_attribute_unlocked name a l =
     (if fl_attributes l name \<noteq> None then l else l\<lparr>fl_attributes := (fl_attributes l)(name \<mapsto> a)\<rparr>)"

text \<open>
  The arguments of a constructor or a statement: a value for some of the keywords, each known by
  its attribute name. The constructor with arguments, and the one without.
\<close>

type_synonym arg_pack = "string \<rightharpoonup> attr_value"

definition KVF_args_ctor :: "arg_pack \<Rightarrow> KeyValue \<Rightarrow> FeatureLogger \<times> cells \<Rightarrow> FeatureLogger \<times> cells" where
  "KVF_args_ctor args k base =
     (let (l, h) = base; a = length h
      in (add_attribute_unlocked (kv_attrName k) a (l\<lparr>fl_valueAttrs := fl_valueAttrs l @ [a]\<rparr>),
          h @ [KeyValueFeature_create (kv_default k) (args (kv_attrName k))]))"

definition KVF_ctor :: "KeyValue \<Rightarrow> FeatureLogger \<times> cells \<Rightarrow> FeatureLogger \<times> cells" where
  "KVF_ctor k base =
     (let (l, h) = base; a = length h
      in (add_attribute_unlocked (kv_attrName k) a (l\<lparr>fl_valueAttrs := fl_valueAttrs l @ [a]\<rparr>),
          h @ [kv_default k]))"

text \<open>
  The copy has a cell of its own with the value of the other, and the attribute set, which the base
  has copied with its pointers, is made to refer to it.
\<close>

definition KVF_copy_ctor :: "KeyValue \<times> nat \<Rightarrow> FeatureLogger \<times> cells \<Rightarrow> FeatureLogger \<times> cells" where
  "KVF_copy_ctor x base =
     (let (k, that) = x; (l, h) = base; a = length h
      in (l\<lparr>fl_attributes := (fl_attributes l)(kv_attrName k \<mapsto> a), fl_valueAttrs := fl_valueAttrs l @ [a]\<rparr>,
          h @ [h ! that]))"

text \<open>Moving and swapping take the pointers over.\<close>

definition KVF_move_ctor :: "nat \<Rightarrow> FeatureLogger \<Rightarrow> FeatureLogger" where
  "KVF_move_ctor that l = l\<lparr>fl_valueAttrs := fl_valueAttrs l @ [that]\<rparr>"

definition KVF_swap_unlocked :: "nat \<Rightarrow> FeatureLogger \<times> FeatureLogger \<Rightarrow> FeatureLogger \<times> FeatureLogger" where
  "KVF_swap_unlocked i x =
     (let (l, that) = x
      in (l\<lparr>fl_valueAttrs := (fl_valueAttrs l)[i := fl_valueAttrs that ! i]\<rparr>,
          that\<lparr>fl_valueAttrs := (fl_valueAttrs that)[i := fl_valueAttrs l ! i]\<rparr>))"

text \<open>The two overloads: with the keyword in the statement, and without it.\<close>

definition KVF_open_record_unlocked :: "arg_pack \<Rightarrow> KeyValue \<times> nat \<Rightarrow> cells \<Rightarrow> cells" where
  "KVF_open_record_unlocked args x h =
     (let (k, a) = x in (case args (kv_attrName k) of Some ch \<Rightarrow> h[a := ch] | None \<Rightarrow> h))"

section \<open>A logger\<close>

text \<open>The layers one after the other, from the base outwards; opening a record goes inwards.\<close>

definition base_logger :: FeatureLogger where
  "base_logger = \<lparr>fl_attributes = Map.empty, fl_valueAttrs = []\<rparr>"

definition logger_ctor :: "KeyValue list \<Rightarrow> cells \<Rightarrow> FeatureLogger \<times> cells" where
  "logger_ctor ks h = fold KVF_ctor ks (base_logger, h)"

definition logger_args_ctor :: "KeyValue list \<Rightarrow> arg_pack \<Rightarrow> cells \<Rightarrow> FeatureLogger \<times> cells" where
  "logger_args_ctor ks args h = fold (KVF_args_ctor args) ks (base_logger, h)"

definition logger_copy :: "KeyValue list \<Rightarrow> FeatureLogger \<Rightarrow> cells \<Rightarrow> FeatureLogger \<times> cells" where
  "logger_copy ks that h =
     fold KVF_copy_ctor (zip ks (fl_valueAttrs that)) (that\<lparr>fl_valueAttrs := []\<rparr>, h)"

definition logger_move :: "FeatureLogger \<Rightarrow> FeatureLogger" where
  "logger_move that = fold KVF_move_ctor (fl_valueAttrs that) (that\<lparr>fl_valueAttrs := []\<rparr>)"

definition logger_swap :: "FeatureLogger \<Rightarrow> FeatureLogger \<Rightarrow> FeatureLogger \<times> FeatureLogger" where
  "logger_swap l that =
     fold KVF_swap_unlocked [0..<length (fl_valueAttrs l)]
       (l\<lparr>fl_attributes := fl_attributes that\<rparr>, that\<lparr>fl_attributes := fl_attributes l\<rparr>)"

definition logger_open :: "KeyValue list \<Rightarrow> arg_pack \<Rightarrow> FeatureLogger \<Rightarrow> cells \<Rightarrow> cells" where
  "logger_open ks args l h = fold (KVF_open_record_unlocked args) (rev (zip ks (fl_valueAttrs l))) h"

text \<open>What a record shows: the attribute set, read through the pointers.\<close>

definition shown :: "cells \<Rightarrow> FeatureLogger \<Rightarrow> string \<Rightarrow> attr_value option" where
  "shown h l name = map_option (\<lambda>a. h ! a) (fl_attributes l name)"

definition logger_values :: "cells \<Rightarrow> FeatureLogger \<Rightarrow> attr_value list" where
  "logger_values h l = map (\<lambda>a. h ! a) (fl_valueAttrs l)"


section \<open>All loggers of a process\<close>

text \<open>A logger that has been moved from is not used again; its place holds \<^const>\<open>None\<close>.\<close>

record FeatureWorld =
  fw_cells :: cells
  fw_loggers :: "FeatureLogger option list"

datatype logger_event =
    LG_Ctor
  | LG_ArgsCtor arg_pack
  | LG_Copy nat
  | LG_Move nat
  | LG_Swap nat nat
  | LG_OpenRecord nat arg_pack

definition nth_some :: "'a option list \<Rightarrow> nat \<Rightarrow> 'a option" where
  "nth_some xs i = (if i < length xs then xs ! i else None)"

fun fw_step :: "KeyValue list \<Rightarrow> FeatureWorld \<Rightarrow> logger_event \<Rightarrow> FeatureWorld" where
  "fw_step ks w LG_Ctor =
     (let (l, h) = logger_ctor ks (fw_cells w)
      in w\<lparr>fw_cells := h, fw_loggers := fw_loggers w @ [Some l]\<rparr>)"
| "fw_step ks w (LG_ArgsCtor args) =
     (let (l, h) = logger_args_ctor ks args (fw_cells w)
      in w\<lparr>fw_cells := h, fw_loggers := fw_loggers w @ [Some l]\<rparr>)"
| "fw_step ks w (LG_Copy i) =
     (case nth_some (fw_loggers w) i of
        None \<Rightarrow> w
      | Some that \<Rightarrow>
          (let (l, h) = logger_copy ks that (fw_cells w)
           in w\<lparr>fw_cells := h, fw_loggers := fw_loggers w @ [Some l]\<rparr>))"
| "fw_step ks w (LG_Move i) =
     (case nth_some (fw_loggers w) i of
        None \<Rightarrow> w
      | Some that \<Rightarrow> w\<lparr>fw_loggers := (fw_loggers w)[i := None] @ [Some (logger_move that)]\<rparr>)"
| "fw_step ks w (LG_Swap i j) =
     (case (nth_some (fw_loggers w) i, nth_some (fw_loggers w) j) of
        (Some l, Some that) \<Rightarrow>
          if i = j then w
          else (let (l', that') = logger_swap l that
                in w\<lparr>fw_loggers := (fw_loggers w)[i := Some l', j := Some that']\<rparr>)
      | _ \<Rightarrow> w)"
| "fw_step ks w (LG_OpenRecord i args) =
     (case nth_some (fw_loggers w) i of
        None \<Rightarrow> w
      | Some l \<Rightarrow> w\<lparr>fw_cells := logger_open ks args l (fw_cells w)\<rparr>)"

definition fw_empty :: FeatureWorld where
  "fw_empty = \<lparr>fw_cells = [], fw_loggers = []\<rparr>"

text \<open>What a record opened by each logger would show under the names of its features.\<close>

definition fw_shown :: "KeyValue list \<Rightarrow> FeatureWorld \<Rightarrow> attr_value option list option list" where
  "fw_shown ks w = map (map_option (\<lambda>l. map (\<lambda>k. shown (fw_cells w) l (kv_attrName k)) ks)) (fw_loggers w)"

section \<open>The specification: a logger is its values\<close>

definition values_open :: "KeyValue list \<Rightarrow> arg_pack \<Rightarrow> attr_value list \<Rightarrow> attr_value list" where
  "values_open ks args vs = map2 (\<lambda>k v. KeyValueFeature_open_record (args (kv_attrName k)) v) ks vs"

fun values_step :: "KeyValue list \<Rightarrow> attr_value list option list \<Rightarrow> logger_event \<Rightarrow> attr_value list option list" where
  "values_step ks xs LG_Ctor = xs @ [Some (map kv_default ks)]"
| "values_step ks xs (LG_ArgsCtor args) =
     xs @ [Some (map (\<lambda>k. KeyValueFeature_create (kv_default k) (args (kv_attrName k))) ks)]"
| "values_step ks xs (LG_Copy i) = (case nth_some xs i of None \<Rightarrow> xs | Some vs \<Rightarrow> xs @ [Some vs])"
| "values_step ks xs (LG_Move i) = (case nth_some xs i of None \<Rightarrow> xs | Some vs \<Rightarrow> xs[i := None] @ [Some vs])"
| "values_step ks xs (LG_Swap i j) =
     (case (nth_some xs i, nth_some xs j) of
        (Some vs, Some us) \<Rightarrow> xs[i := Some us, j := Some vs] | _ \<Rightarrow> xs)"
| "values_step ks xs (LG_OpenRecord i args) =
     (case nth_some xs i of None \<Rightarrow> xs | Some vs \<Rightarrow> xs[i := Some (values_open ks args vs)])"

section \<open>One logger\<close>

text \<open>The invariant of a logger with the features \<open>ks\<close> when \<open>n\<close> cells are allocated.\<close>

definition logger_ok :: "KeyValue list \<Rightarrow> nat \<Rightarrow> FeatureLogger \<Rightarrow> bool" where
  "logger_ok ks n l \<longleftrightarrow>
     distinct (fl_valueAttrs l) \<and> (\<forall>a \<in> set (fl_valueAttrs l). a < n) \<and>
     map (\<lambda>k. fl_attributes l (kv_attrName k)) ks = map Some (fl_valueAttrs l)"

lemma logger_ok_length: "logger_ok ks n l \<Longrightarrow> length (fl_valueAttrs l) = length ks"
  unfolding logger_ok_def by (metis length_map)

lemma logger_ok_mono: "logger_ok ks n l \<Longrightarrow> n \<le> m \<Longrightarrow> logger_ok ks m l"
  by (auto simp: logger_ok_def)

lemma logger_ok_shown:
  "logger_ok ks n l \<Longrightarrow> map (\<lambda>k. shown h l (kv_attrName k)) ks = map Some (logger_values h l)"
proof -
  assume ok: "logger_ok ks n l"
  have "map (\<lambda>k. shown h l (kv_attrName k)) ks =
      map (map_option (\<lambda>a. h ! a)) (map (\<lambda>k. fl_attributes l (kv_attrName k)) ks)"
    by (simp add: shown_def)
  also have "\<dots> = map (map_option (\<lambda>a. h ! a)) (map Some (fl_valueAttrs l))" using ok by (simp only: logger_ok_def)
  finally show ?thesis by (simp add: logger_values_def)
qed

lemma map_upd_fresh:
  "x \<notin> f ` set ks \<Longrightarrow> map (\<lambda>k. (m(x \<mapsto> y)) (f k)) ks = map (\<lambda>k. m (f k)) ks"
  by auto

lemma args_ctor_fold:
  assumes "distinct (map kv_attrName ks)"
  shows "\<exists>m. fold (KVF_args_ctor args) ks (base_logger, h) =
       (\<lparr>fl_attributes = m, fl_valueAttrs = [length h..<length h + length ks]\<rparr>,
        h @ map (\<lambda>k. KeyValueFeature_create (kv_default k) (args (kv_attrName k))) ks) \<and>
     dom m = kv_attrName ` set ks \<and>
     map (\<lambda>k. m (kv_attrName k)) ks = map Some [length h..<length h + length ks]"
  using assms
proof (induction ks rule: rev_induct)
  case Nil
  then show ?case by (simp add: base_logger_def)
next
  case (snoc k ks)
  then obtain m where m: "fold (KVF_args_ctor args) ks (base_logger, h) =
       (\<lparr>fl_attributes = m, fl_valueAttrs = [length h..<length h + length ks]\<rparr>,
        h @ map (\<lambda>k. KeyValueFeature_create (kv_default k) (args (kv_attrName k))) ks)"
     "dom m = kv_attrName ` set ks" "map (\<lambda>k. m (kv_attrName k)) ks = map Some [length h..<length h + length ks]"
    by auto
  have fresh: "kv_attrName k \<notin> kv_attrName ` set ks" using snoc.prems by auto
  then have "m (kv_attrName k) = None" using m(2) by blast
  then have st: "KVF_args_ctor args k (\<lparr>fl_attributes = m, fl_valueAttrs = as\<rparr>, g) =
      (\<lparr>fl_attributes = m(kv_attrName k \<mapsto> length g), fl_valueAttrs = as @ [length g]\<rparr>,
       g @ [KeyValueFeature_create (kv_default k) (args (kv_attrName k))])" for as g
    by (simp add: KVF_args_ctor_def add_attribute_unlocked_def Let_def)
  let ?m = "m(kv_attrName k \<mapsto> length h + length ks)"
  have "map (\<lambda>k. ?m (kv_attrName k)) (ks @ [k]) = map Some [length h..<length h + length (ks @ [k])]"
    using map_upd_fresh [OF fresh, of m "length h + length ks"] m(3) by (simp del: fun_upd_apply) simp
  moreover have "dom ?m = kv_attrName ` set (ks @ [k])" using m(2) by simp
  moreover have "fold (KVF_args_ctor args) (ks @ [k]) (base_logger, h) =
       (\<lparr>fl_attributes = ?m, fl_valueAttrs = [length h..<length h + length (ks @ [k])]\<rparr>,
        h @ map (\<lambda>k. KeyValueFeature_create (kv_default k) (args (kv_attrName k))) (ks @ [k]))"
    by (simp add: m(1) st)
  ultimately show ?case by blast
qed

lemma logger_args_ctor_ok:
  assumes "distinct (map kv_attrName ks)" "logger_args_ctor ks args h = (l, h')"
  shows "logger_ok ks (length h') l" "fl_valueAttrs l = [length h..<length h + length ks]"
    "h' = h @ map (\<lambda>k. KeyValueFeature_create (kv_default k) (args (kv_attrName k))) ks"
  using args_ctor_fold [OF assms(1), of args h] assms(2)
  by (auto simp: logger_args_ctor_def logger_ok_def)

lemma logger_ctor_args: "logger_ctor ks h = logger_args_ctor ks Map.empty h"
proof -
  have "KVF_ctor = KVF_args_ctor Map.empty"
    by (intro ext) (simp add: KVF_ctor_def KVF_args_ctor_def KeyValueFeature_create_def)
  then show ?thesis by (simp add: logger_ctor_def logger_args_ctor_def)
qed

lemma copy_fold:
  assumes "distinct (map (kv_attrName \<circ> fst) xs)" "\<forall>x \<in> set xs. snd x < length h"
  shows "\<exists>m'. fold KVF_copy_ctor xs (\<lparr>fl_attributes = m, fl_valueAttrs = []\<rparr>, h) =
       (\<lparr>fl_attributes = m', fl_valueAttrs = [length h..<length h + length xs]\<rparr>, h @ map (\<lambda>x. h ! snd x) xs) \<and>
     map (\<lambda>x. m' (kv_attrName (fst x))) xs = map Some [length h..<length h + length xs]"
  using assms
proof (induction xs rule: rev_induct)
  case Nil
  then show ?case by simp
next
  case (snoc x xs)
  then obtain m' where m: "fold KVF_copy_ctor xs (\<lparr>fl_attributes = m, fl_valueAttrs = []\<rparr>, h) =
       (\<lparr>fl_attributes = m', fl_valueAttrs = [length h..<length h + length xs]\<rparr>, h @ map (\<lambda>x. h ! snd x) xs)"
     "map (\<lambda>x. m' (kv_attrName (fst x))) xs = map Some [length h..<length h + length xs]"
    by auto
  have fresh: "kv_attrName (fst x) \<notin> (kv_attrName \<circ> fst) ` set xs" using snoc.prems(1) by auto
  let ?m = "m'(kv_attrName (fst x) \<mapsto> length h + length xs)"
  have "map (\<lambda>y. ?m (kv_attrName (fst y))) (xs @ [x]) = map Some [length h..<length h + length (xs @ [x])]"
    using map_upd_fresh [OF fresh, of m' "length h + length xs"] m(2) by (simp add: comp_def)
  moreover have old: "(h @ ys) ! snd x = h ! snd x" for ys using snoc.prems(2) by (simp add: nth_append)
  have st: "KVF_copy_ctor x (\<lparr>fl_attributes = m', fl_valueAttrs = as\<rparr>, g) =
      (\<lparr>fl_attributes = m'(kv_attrName (fst x) \<mapsto> length g), fl_valueAttrs = as @ [length g]\<rparr>, g @ [g ! snd x])" for as g
    by (cases x) (simp add: KVF_copy_ctor_def Let_def)
  have "fold KVF_copy_ctor (xs @ [x]) (\<lparr>fl_attributes = m, fl_valueAttrs = []\<rparr>, h) =
       (\<lparr>fl_attributes = ?m, fl_valueAttrs = [length h..<length h + length (xs @ [x])]\<rparr>,
        h @ map (\<lambda>x. h ! snd x) (xs @ [x]))"
    by (simp add: m(1) st old)
  ultimately show ?case by blast
qed

lemma logger_copy_ok:
  assumes d: "distinct (map kv_attrName ks)" and ok: "logger_ok ks (length h) that"
    and c: "logger_copy ks that h = (l, h')"
  shows "logger_ok ks (length h') l" "fl_valueAttrs l = [length h..<length h + length ks]"
    "h' = h @ logger_values h that"
proof -
  let ?xs = "zip ks (fl_valueAttrs that)"
  have len: "length (fl_valueAttrs that) = length ks" by (rule logger_ok_length [OF ok])
  have f: "map f ks = map (f \<circ> fst) ?xs" for f :: "KeyValue \<Rightarrow> 'b"
    using arg_cong [OF map_fst_zip [of ks "fl_valueAttrs that"], of "map f"] len
    by (simp only: list.map_comp)
  have s: "map (\<lambda>x. h ! snd x) ?xs = logger_values h that"
    using arg_cong [OF map_snd_zip [of ks "fl_valueAttrs that"], of "map (\<lambda>a. h ! a)"] len
    by (simp only: list.map_comp comp_def logger_values_def)
  have "distinct (map (kv_attrName \<circ> fst) ?xs)" using d by (simp add: f [of kv_attrName])
  moreover have "\<forall>x \<in> set ?xs. snd x < length h" using ok by (auto simp: logger_ok_def dest: set_zip_rightD)
  ultimately obtain m' where "fold KVF_copy_ctor ?xs (\<lparr>fl_attributes = fl_attributes that, fl_valueAttrs = []\<rparr>, h) =
       (\<lparr>fl_attributes = m', fl_valueAttrs = [length h..<length h + length ?xs]\<rparr>, h @ map (\<lambda>x. h ! snd x) ?xs)"
     "map (\<lambda>x. m' (kv_attrName (fst x))) ?xs = map Some [length h..<length h + length ?xs]"
    using copy_fold [of ?xs h "fl_attributes that"] by blast
  moreover have e: "that\<lparr>fl_valueAttrs := []\<rparr> = \<lparr>fl_attributes = fl_attributes that, fl_valueAttrs = []\<rparr>" by simp
  ultimately show "logger_ok ks (length h') l" "fl_valueAttrs l = [length h..<length h + length ks]"
    "h' = h @ logger_values h that"
    using c [unfolded logger_copy_def e] len s f [of "\<lambda>k. m' (kv_attrName k)"]
    by (auto simp: logger_ok_def comp_def logger_values_def)
qed

lemma logger_move_eq [simp]: "logger_move that = that"
proof -
  have "fold KVF_move_ctor as (that\<lparr>fl_valueAttrs := bs\<rparr>) = that\<lparr>fl_valueAttrs := bs @ as\<rparr>" for as bs
    by (induction as arbitrary: bs) (simp_all add: KVF_move_ctor_def)
  from this [of "fl_valueAttrs that" "[]"] show ?thesis by (simp add: logger_move_def)
qed

lemma logger_swap_eq:
  assumes "length (fl_valueAttrs l) = length (fl_valueAttrs that)"
  shows "logger_swap l that = (that, l)"
proof -
  let ?u = "fl_valueAttrs l"
  let ?v = "fl_valueAttrs that"
  have "fold KVF_swap_unlocked [0..<i] (l\<lparr>fl_attributes := fl_attributes that\<rparr>, that\<lparr>fl_attributes := fl_attributes l\<rparr>) =
      (\<lparr>fl_attributes = fl_attributes that, fl_valueAttrs = take i ?v @ drop i ?u\<rparr>,
       \<lparr>fl_attributes = fl_attributes l, fl_valueAttrs = take i ?u @ drop i ?v\<rparr>)" if "i \<le> length ?u" for i
    using that
  proof (induction i)
    case 0
    then show ?case by (cases l; cases that) simp
  next
    case (Suc i)
    then show ?case using assms
      by (simp add: KVF_swap_unlocked_def Let_def nth_append list_update_append take_Suc_conv_app_nth
          Cons_nth_drop_Suc [symmetric])
  qed
  from this [of "length ?u"] assms show ?thesis by (simp add: logger_swap_def)
qed


text \<open>An opened record sets the cells of its own logger and no other.\<close>

lemma open_fold:
  assumes "distinct (map snd xs)" "\<forall>x \<in> set xs. snd x < length h"
  shows "length (fold (KVF_open_record_unlocked args) (rev xs) h) = length h"
    "a \<notin> snd ` set xs \<Longrightarrow> fold (KVF_open_record_unlocked args) (rev xs) h ! a = h ! a"
    "map (\<lambda>x. fold (KVF_open_record_unlocked args) (rev xs) h ! snd x) xs =
       map (\<lambda>x. KeyValueFeature_open_record (args (kv_attrName (fst x))) (h ! snd x)) xs"
proof -
  have st: "KVF_open_record_unlocked args x g =
      (case args (kv_attrName (fst x)) of Some ch \<Rightarrow> g[snd x := ch] | None \<Rightarrow> g)" for x g
    by (cases x) (auto simp: KVF_open_record_unlocked_def split: option.splits)
  have all: "length (fold (KVF_open_record_unlocked args) (rev xs) h) = length h \<and>
     (\<forall>a. a \<notin> snd ` set xs \<longrightarrow> fold (KVF_open_record_unlocked args) (rev xs) h ! a = h ! a) \<and>
     (\<forall>x \<in> set xs. fold (KVF_open_record_unlocked args) (rev xs) h ! snd x =
        KeyValueFeature_open_record (args (kv_attrName (fst x))) (h ! snd x))"
    using assms
  proof (induction xs)
    case Nil
    then show ?case by simp
  next
    case (Cons x xs)
    have fresh: "snd x \<notin> snd ` set xs" using Cons.prems(1) by simp
    then have ne: "snd x \<noteq> snd y" if "y \<in> set xs" for y using that by (metis imageI)
    let ?g = "fold (KVF_open_record_unlocked args) (rev xs) h"
    let ?g' = "fold (KVF_open_record_unlocked args) (rev (x # xs)) h"
    have g: "?g' = (case args (kv_attrName (fst x)) of Some ch \<Rightarrow> ?g[snd x := ch] | None \<Rightarrow> ?g)" by (simp add: st)
    have IH: "length ?g = length h" "\<forall>a. a \<notin> snd ` set xs \<longrightarrow> ?g ! a = h ! a"
      "\<forall>x \<in> set xs. ?g ! snd x = KeyValueFeature_open_record (args (kv_attrName (fst x))) (h ! snd x)"
      using Cons by simp_all
    have x: "snd x < length h" "?g ! snd x = h ! snd x" using Cons.prems(2) IH(2) fresh by simp_all
    show ?case
    proof (cases "args (kv_attrName (fst x))")
      case None
      then show ?thesis using IH x g by (simp add: KeyValueFeature_open_record_def del: fold_append rev.simps)
    next
      case (Some ch)
      then have "?g' = ?g[snd x := ch]" using g by simp
      then show ?thesis using IH x ne Some
        by (simp add: KeyValueFeature_open_record_def del: fold_append rev.simps)
    qed
  qed
  then show "length (fold (KVF_open_record_unlocked args) (rev xs) h) = length h"
    "a \<notin> snd ` set xs \<Longrightarrow> fold (KVF_open_record_unlocked args) (rev xs) h ! a = h ! a"
    "map (\<lambda>x. fold (KVF_open_record_unlocked args) (rev xs) h ! snd x) xs =
       map (\<lambda>x. KeyValueFeature_open_record (args (kv_attrName (fst x))) (h ! snd x)) xs"
    by simp_all
qed

lemma logger_open_ok:
  assumes ok: "logger_ok ks (length h) l"
  shows "length (logger_open ks args l h) = length h"
    "logger_values (logger_open ks args l h) l = values_open ks args (logger_values h l)"
    "a \<notin> set (fl_valueAttrs l) \<Longrightarrow> logger_open ks args l h ! a = h ! a"
proof -
  let ?xs = "zip ks (fl_valueAttrs l)"
  have len: "length (fl_valueAttrs l) = length ks" by (rule logger_ok_length [OF ok])
  have s: "map snd ?xs = fl_valueAttrs l" using len by simp
  then have d: "distinct (map snd ?xs)" "\<forall>x \<in> set ?xs. snd x < length h" "snd ` set ?xs = set (fl_valueAttrs l)"
    using ok by (auto simp: logger_ok_def dest: set_zip_rightD) (metis image_set)
  note F = open_fold [OF d(1,2), where args = args, folded logger_open_def]
  show "length (logger_open ks args l h) = length h" by (rule F(1))
  show "a \<notin> set (fl_valueAttrs l) \<Longrightarrow> logger_open ks args l h ! a = h ! a" using F(2) d(3) by blast
  have "logger_values g l = map (\<lambda>x. g ! snd x) ?xs" for g
    using arg_cong [OF s, of "map (\<lambda>a. g ! a)"] by (simp add: logger_values_def comp_def)
  then have "logger_values (logger_open ks args l h) l =
      map (\<lambda>x. KeyValueFeature_open_record (args (kv_attrName (fst x))) (h ! snd x)) ?xs" using F(3) by simp
  then show "logger_values (logger_open ks args l h) l = values_open ks args (logger_values h l)"
    using len by (auto simp: values_open_def logger_values_def intro!: nth_equalityI)
qed

section \<open>All loggers\<close>

text \<open>Loggers at different places have different cells.\<close>

definition fw_ok :: "KeyValue list \<Rightarrow> FeatureWorld \<Rightarrow> bool" where
  "fw_ok ks w \<longleftrightarrow>
     (\<forall>i l. nth_some (fw_loggers w) i = Some l \<longrightarrow> logger_ok ks (length (fw_cells w)) l) \<and>
     (\<forall>i j l l'. nth_some (fw_loggers w) i = Some l \<longrightarrow> nth_some (fw_loggers w) j = Some l' \<longrightarrow> i \<noteq> j \<longrightarrow>
        set (fl_valueAttrs l) \<inter> set (fl_valueAttrs l') = {})"

definition fw_values :: "FeatureWorld \<Rightarrow> attr_value list option list" where
  "fw_values w = map (map_option (logger_values (fw_cells w))) (fw_loggers w)"

lemma nth_some_simps:
  "nth_some (xs @ [y]) i = (if i = length xs then y else nth_some xs i)"
  "nth_some (xs[k := y]) i = (if i = k \<and> i < length xs then y else nth_some xs i)"
  "nth_some (map (map_option f) zs) i = map_option f (nth_some zs i)"
  by (auto simp: nth_some_def nth_append)

lemma nth_some_lt: "nth_some xs i = Some x \<Longrightarrow> i < length xs \<and> xs ! i = Some x"
  by (simp add: nth_some_def split: if_splits)

lemma nth_some_mem: "Some x \<in> set xs \<longleftrightarrow> (\<exists>i. nth_some xs i = Some x)"
  by (metis in_set_conv_nth nth_some_def option.distinct(1))

text \<open>A new logger takes new cells.\<close>

lemma fw_new:
  assumes ok: "fw_ok ks w" and l: "logger_ok ks (length h') l"
    and new: "fl_valueAttrs l = [length (fw_cells w)..<length (fw_cells w) + length ks]" "h' = fw_cells w @ vs" "length vs = length ks"
  shows "fw_ok ks (w\<lparr>fw_cells := h', fw_loggers := fw_loggers w @ [Some l]\<rparr>)"
    "fw_values (w\<lparr>fw_cells := h', fw_loggers := fw_loggers w @ [Some l]\<rparr>) = fw_values w @ [Some vs]"
proof -
  let ?w = "w\<lparr>fw_cells := h', fw_loggers := fw_loggers w @ [Some l]\<rparr>"
  have old: "logger_ok ks (length (fw_cells w)) k" if "nth_some (fw_loggers w) i = Some k" for i k
    using ok that by (simp add: fw_ok_def)
  then have lt: "\<forall>a \<in> set (fl_valueAttrs k). a < length (fw_cells w)" if "nth_some (fw_loggers w) i = Some k" for i k
    using that by (simp add: logger_ok_def)
  have "logger_ok ks (length h') k" if "nth_some (fw_loggers w) i = Some k" for i k
    using old [OF that] by (rule logger_ok_mono) (simp add: new)
  moreover have "set (fl_valueAttrs k) \<inter> set (fl_valueAttrs l) = {} \<and> set (fl_valueAttrs l) \<inter> set (fl_valueAttrs k) = {}"
    if "nth_some (fw_loggers w) i = Some k" for i k
    using lt [OF that] by (auto simp: new)
  ultimately show "fw_ok ks ?w"
    using ok l unfolding fw_ok_def by (simp add: nth_some_simps split: if_splits)
  have "logger_values h' k = logger_values (fw_cells w) k" if "Some k \<in> set (fw_loggers w)" for k
    using that lt unfolding nth_some_mem by (auto simp: logger_values_def new nth_append)
  moreover have "logger_values h' l = vs"
    by (rule nth_equalityI) (simp_all add: logger_values_def new nth_append)
  ultimately show "fw_values ?w = fw_values w @ [Some vs]"
    by (auto simp: fw_values_def map_option_case split: option.split)
qed


lemma fw_ok_replaced:
  assumes ok: "fw_ok ks w"
    and f: "\<And>i. nth_some ls i \<noteq> None \<Longrightarrow> nth_some ls i = nth_some (fw_loggers w) (f i) "
    and inj: "\<And>i j. nth_some ls i \<noteq> None \<Longrightarrow> nth_some ls j \<noteq> None \<Longrightarrow> i \<noteq> j \<Longrightarrow> f i \<noteq> f j"
  shows "fw_ok ks (w\<lparr>fw_loggers := ls\<rparr>)"
proof -
  have "logger_ok ks (length (fw_cells w)) l" if "nth_some ls i = Some l" for i l
    using f [of i] that ok by (simp add: fw_ok_def)
  moreover have "set (fl_valueAttrs l) \<inter> set (fl_valueAttrs l') = {}"
    if "nth_some ls i = Some l" "nth_some ls j = Some l'" "i \<noteq> j" for i j l l'
  proof -
    have "nth_some (fw_loggers w) (f i) = Some l" "nth_some (fw_loggers w) (f j) = Some l'"
      using f [of i] f [of j] that by simp_all
    moreover have "f i \<noteq> f j" using inj [of i j] that by simp
    ultimately show ?thesis using ok unfolding fw_ok_def by blast
  qed
  ultimately show ?thesis by (simp add: fw_ok_def)
qed

lemma fw_values_nth: "nth_some (fw_values w) i = map_option (logger_values (fw_cells w)) (nth_some (fw_loggers w) i)"
  by (simp add: fw_values_def nth_some_simps)

lemma fw_values_loggers:
  "fw_values (w\<lparr>fw_loggers := ls\<rparr>) = map (map_option (logger_values (fw_cells w))) ls"
  by (simp add: fw_values_def)

lemma fw_open_step:
  assumes ok: "fw_ok ks w" and i: "nth_some (fw_loggers w) i = Some l"
  shows "fw_ok ks (w\<lparr>fw_cells := logger_open ks args l (fw_cells w)\<rparr>)"
    "fw_values (w\<lparr>fw_cells := logger_open ks args l (fw_cells w)\<rparr>) =
       (fw_values w)[i := Some (values_open ks args (logger_values (fw_cells w) l))]"
proof -
  let ?h = "logger_open ks args l (fw_cells w)"
  have l: "logger_ok ks (length (fw_cells w)) l" using ok i by (simp add: fw_ok_def)
  note O = logger_open_ok [OF l, where args = args]
  show "fw_ok ks (w\<lparr>fw_cells := ?h\<rparr>)" using ok O(1) by (simp add: fw_ok_def)
  have other: "logger_values ?h k = logger_values (fw_cells w) k" if "nth_some (fw_loggers w) j = Some k" "j \<noteq> i" for j k
  proof -
    have "set (fl_valueAttrs k) \<inter> set (fl_valueAttrs l) = {}" using ok i that unfolding fw_ok_def by blast
    then show ?thesis using O(3) by (auto simp: logger_values_def)
  qed
  show "fw_values (w\<lparr>fw_cells := ?h\<rparr>) = (fw_values w)[i := Some (values_open ks args (logger_values (fw_cells w) l))]"
  proof (rule nth_equalityI)
    show "length (fw_values (w\<lparr>fw_cells := ?h\<rparr>)) =
        length ((fw_values w)[i := Some (values_open ks args (logger_values (fw_cells w) l))])" by (simp add: fw_values_def)
    fix j assume "j < length (fw_values (w\<lparr>fw_cells := ?h\<rparr>))"
    then have j: "j < length (fw_loggers w)" by (simp add: fw_values_def)
    show "fw_values (w\<lparr>fw_cells := ?h\<rparr>) ! j =
        (fw_values w)[i := Some (values_open ks args (logger_values (fw_cells w) l))] ! j"
    proof (cases "j = i")
      case True
      then show ?thesis using nth_some_lt [OF i] O(2) by (simp add: fw_values_def)
    next
      case False
      then show ?thesis using j other [of j] by (cases "fw_loggers w ! j") (simp_all add: fw_values_def nth_some_def)
    qed
  qed
qed

lemma fw_step_ok:
  assumes ok: "fw_ok ks w" and d: "distinct (map kv_attrName ks)"
  shows "fw_ok ks (fw_step ks w ev) \<and> fw_values (fw_step ks w ev) = values_step ks (fw_values w) ev"
proof (cases ev)
  case LG_Ctor
  obtain l h' where r: "logger_args_ctor ks Map.empty (fw_cells w) = (l, h')" by fastforce
  note A = logger_args_ctor_ok [OF d r]
  show ?thesis using fw_new [OF ok A] r
    by (simp add: LG_Ctor logger_ctor_args KeyValueFeature_create_def)
next
  case (LG_ArgsCtor args)
  obtain l h' where r: "logger_args_ctor ks args (fw_cells w) = (l, h')" by fastforce
  note A = logger_args_ctor_ok [OF d r]
  show ?thesis using fw_new [OF ok A] r by (simp add: LG_ArgsCtor)
next
  case (LG_Copy i)
  show ?thesis
  proof (cases "nth_some (fw_loggers w) i")
    case None
    then show ?thesis using ok by (simp add: LG_Copy fw_values_nth)
  next
    case (Some that)
    then have t: "logger_ok ks (length (fw_cells w)) that" using ok by (simp add: fw_ok_def)
    obtain l h' where r: "logger_copy ks that (fw_cells w) = (l, h')" by fastforce
    note A = logger_copy_ok [OF d t r]
    have "length (logger_values (fw_cells w) that) = length ks"
      using logger_ok_length [OF t] by (simp add: logger_values_def)
    then show ?thesis using fw_new [OF ok A] r Some by (simp add: LG_Copy fw_values_nth)
  qed
next
  case (LG_Move i)
  show ?thesis
  proof (cases "nth_some (fw_loggers w) i")
    case None
    then show ?thesis using ok by (simp add: LG_Move fw_values_nth)
  next
    case (Some that)
    let ?ls = "(fw_loggers w)[i := None] @ [Some that]"
    have "nth_some ?ls j = nth_some (fw_loggers w) (if j = length (fw_loggers w) then i else j)"
      if "nth_some ?ls j \<noteq> None" for j
      using that Some by (auto simp: nth_some_simps split: if_splits)
    moreover have "(if j = length (fw_loggers w) then i else j) \<noteq> (if k = length (fw_loggers w) then i else k)"
      if "nth_some ?ls j \<noteq> None" "nth_some ?ls k \<noteq> None" "j \<noteq> k" for j k
      using that nth_some_lt [OF Some] by (auto simp: nth_some_simps split: if_splits)
    ultimately have "fw_ok ks (w\<lparr>fw_loggers := ?ls\<rparr>)" by (rule fw_ok_replaced [OF ok])
    then show ?thesis using Some by (simp add: LG_Move fw_values_nth fw_values_loggers map_update)
      (simp add: fw_values_def)
  qed
next
  case (LG_Swap i j)
  show ?thesis
  proof (cases "nth_some (fw_loggers w) i = None \<or> nth_some (fw_loggers w) j = None \<or> i = j")
    case True
    then show ?thesis using ok
      by (auto simp: LG_Swap fw_values_nth split: option.splits) (metis list_update_id nth_some_lt fw_values_nth option.simps(9))
  next
    case False
    then obtain l that where lt: "nth_some (fw_loggers w) i = Some l" "nth_some (fw_loggers w) j = Some that" by auto
    have "logger_ok ks (length (fw_cells w)) l" "logger_ok ks (length (fw_cells w)) that"
      using ok lt by (auto simp: fw_ok_def)
    then have sw: "logger_swap l that = (that, l)" by (intro logger_swap_eq) (simp add: logger_ok_length)
    let ?ls = "(fw_loggers w)[i := Some that, j := Some l]"
    let ?f = "\<lambda>k. if k = i then j else if k = j then i else k"
    have "nth_some ?ls k = nth_some (fw_loggers w) (?f k)" if "nth_some ?ls k \<noteq> None" for k
      using lt that False by (auto simp: nth_some_simps dest: nth_some_lt split: if_splits)
    moreover have "?f k \<noteq> ?f m" if "k \<noteq> m" for k m using that by auto
    ultimately have "fw_ok ks (w\<lparr>fw_loggers := ?ls\<rparr>)" by (intro fw_ok_replaced [OF ok, of ?ls ?f]) simp_all
    then show ?thesis using lt False sw by (simp add: LG_Swap fw_values_nth fw_values_loggers map_update)
      (simp add: fw_values_def)
  qed
next
  case (LG_OpenRecord i args)
  show ?thesis
  proof (cases "nth_some (fw_loggers w) i")
    case None
    then show ?thesis using ok by (simp add: LG_OpenRecord fw_values_nth)
  next
    case (Some l)
    then show ?thesis using fw_open_step [OF ok Some, of args] by (simp add: LG_OpenRecord fw_values_nth)
  qed
qed


lemma fw_ok_empty: "fw_ok ks fw_empty"
  by (simp add: fw_ok_def fw_empty_def nth_some_def)

interpretation features: step_machine "fw_step (logger_keys s)" fw_empty "fw_ok (logger_keys s)" for s
  by unfold_locales (simp_all only: fw_ok_empty fw_step_ok logger_keys_distinct)

lemma fw_run_values:
  assumes "distinct (map kv_attrName ks)" "fw_ok ks w"
  shows "fw_values (run_steps (fw_step ks) w evs) = run_steps (values_step ks) (fw_values w) evs"
  using assms
proof (induction evs arbitrary: w)
  case (Cons ev evs)
  then show ?case using fw_step_ok [of ks w ev] by simp
qed simp

lemma fw_shown_values:
  assumes "fw_ok ks w"
  shows "fw_shown ks w = map (map_option (map Some)) (fw_values w)"
proof -
  have "map_option (\<lambda>l. map (\<lambda>k. shown (fw_cells w) l (kv_attrName k)) ks) x =
      map_option (map Some) (map_option (logger_values (fw_cells w)) x)" if "x \<in> set (fw_loggers w)" for x
  proof (cases x)
    case (Some l)
    then have "logger_ok ks (length (fw_cells w)) l" using that assms unfolding fw_ok_def by (metis nth_some_mem)
    then show ?thesis by (simp only: Some option.map logger_ok_shown)
  qed simp
  then show ?thesis by (simp add: fw_shown_def fw_values_def)
qed

section \<open>The loggers of theory \<open>LogSources\<close>\<close>

text \<open>The features of a \<^typ>\<open>LogSource\<close> as values, and the arguments of a statement.\<close>

definition source_values :: "LogSource \<Rightarrow> attr_value list" where
  "source_values l =
     (case ls_numId l of Some n \<Rightarrow> [AV_Size n] | None \<Rightarrow> []) @
     (case ls_stringId l of Some i \<Rightarrow> [AV_String i] | None \<Rightarrow> []) @
     [AV_String (ls_codeFilename l), AV_Size (ls_codeLineNumber l)]"

definition statement_args :: "Statement \<Rightarrow> string \<Rightarrow> arg_pack" where
  "statement_args st codeFileName =
     (case st_source st of
        Src_NumId _ \<Rightarrow> [kv_attrName NumId_key \<mapsto> AV_Size (st_numId st)]
      | Src_StringId _ \<Rightarrow> [kv_attrName StringId_key \<mapsto> AV_String (st_stringId st)]
      | _ \<Rightarrow> Map.empty)
       (kv_attrName CodeFilename_key \<mapsto> AV_String codeFileName, kv_attrName CodeLineNumber_key \<mapsto> AV_Size (st_line st))"

lemmas key_defs = CodeFilename_key_def CodeLineNumber_key_def NumId_key_def StringId_key_def

lemma source_values_create: "source_values (source_create s) = map kv_default (logger_keys s)"
  by (cases s)
    (simp_all add: source_values_def key_defs EntityLogger_create_def NumIdEntityLogger_create_def
      StringIdEntityLogger_create_def GlobalLogger_create_def KeyValueFeature_create_def)

lemma source_values_open:
  assumes "same_features l (source_create (st_source st))"
  shows "source_values (openRecord st f l) =
     values_open (logger_keys (st_source st)) (statement_args st f) (source_values l)"
proof (cases "st_source st")
  case (Src_Entity c)
  then show ?thesis using assms
    by (simp add: same_features_def EntityLogger_create_def source_values_def key_defs openRecord_defs values_open_def
        statement_args_def)
next
  case (Src_NumId c)
  then obtain n where "ls_numId l = Some n" "ls_stringId l = None"
    using assms by (auto simp: same_features_def NumIdEntityLogger_create_def)
  then show ?thesis using Src_NumId
    by (simp add: source_values_def key_defs openRecord_defs values_open_def statement_args_def)
next
  case (Src_StringId c)
  then obtain i where "ls_stringId l = Some i" "ls_numId l = None"
    using assms by (auto simp: same_features_def StringIdEntityLogger_create_def)
  then show ?thesis using Src_StringId
    by (simp add: source_values_def key_defs openRecord_defs values_open_def statement_args_def)
next
  case Src_Global
  then show ?thesis using assms
    by (simp add: same_features_def GlobalLogger_create_def source_values_def key_defs openRecord_defs values_open_def
        statement_args_def)
qed


section \<open>The uptime\<close>

text \<open>
  The attribute that reads the steady clock whenever a record is opened: readings in nanoseconds,
  truncated to milliseconds, as a \<^verbatim>\<open>size_t\<close>. \<open>kUpTimepoint\<close> is a reading made before \<^verbatim>\<open>main\<close>.
\<close>

definition UptimeMs_get_value :: "nat \<Rightarrow> nat \<Rightarrow> size_t" where
  "UptimeMs_get_value kUpTimepoint now = word_of_nat ((now - kUpTimepoint) div 1000000)"

lemma uptime_monotone:
  assumes "kUpTimepoint \<le> t1" "t1 \<le> t2" "t2 - kUpTimepoint < 2 ^ 64"
  shows "UptimeMs_get_value kUpTimepoint t1 \<le> UptimeMs_get_value kUpTimepoint t2"
proof -
  have "(t1 - kUpTimepoint) div 1000000 \<le> (t2 - kUpTimepoint) div 1000000"
    using assms by (intro div_le_mono) simp
  moreover have "(t2 - kUpTimepoint) div 1000000 < 2 ^ 64" using assms(3) by (meson div_le_dividend le_less_trans)
  ultimately show ?thesis
    by (simp add: UptimeMs_get_value_def word_le_nat_alt unat_of_nat)
qed

section \<open>Properties\<close>

text \<open>
C40: Loggers are values. In every sequence of constructions, copies, moves, swaps and opened
records, a record opened by a logger shows under each attribute name the value that this logger was
constructed with, has copied, or was last given by a statement of its own: no statement on a logger,
a copy of it or the logger it was copied from changes what another logger shows, and no attribute
is missing or shows the cell of another feature.
\<close>

theorem logger_features_are_values:
  "fw_shown (logger_keys s) (run_steps (fw_step (logger_keys s)) fw_empty evs) =
     map (map_option (map Some)) (run_steps (values_step (logger_keys s)) [] evs)"
proof -
  have "fw_values fw_empty = []" by (simp add: fw_values_def fw_empty_def)
  then show ?thesis
    using fw_shown_values [OF features.inv_run [of s evs]] fw_run_values [OF logger_keys_distinct [of s] fw_ok_empty, of evs]
    by simp
qed

end
