(* ===== verification/NetUtils.thy ===== *)
theory NetUtils
  imports Prelude "HOL-Library.Multiset"
begin

text \<open>
  libs/net-utils: the pool of io contexts with its two ways of choosing one, the load guards,
  the threads of the pool, the socket acceptor and the delayed launch.

  A context is named by its index in the pool. The loop of \<^verbatim>\<open>getLeastLoaded\<close> runs under the
  pool's mutex and the counter of \<^verbatim>\<open>getNext\<close> is atomic, so both are single steps.
\<close>

section \<open>IOContextPool\<close>

record IOContextPool =
  pool_size :: size_t
  pool_nextCounter :: size_t
  pool_load :: "size_t list"
  pool_workerThreads :: nat
  pool_workGuards :: nat

definition IOContextPool_create :: "size_t \<Rightarrow> IOContextPool" where
  "IOContextPool_create sz =
     (let n = max sz 1
      in \<lparr>pool_size = n, pool_nextCounter = 0, pool_load = replicate (unat n) 0,
          pool_workerThreads = 0, pool_workGuards = 0\<rparr>)"

definition getNext :: "IOContextPool \<Rightarrow> nat \<times> IOContextPool" where
  "getNext p =
     (unat (pool_nextCounter p mod pool_size p), p\<lparr>pool_nextCounter := pool_nextCounter p + 1\<rparr>)"

text \<open>The scan: the smallest load so far and its index.\<close>

fun least_loop :: "size_t list \<Rightarrow> nat \<Rightarrow> size_t \<Rightarrow> nat \<Rightarrow> nat" where
  "least_loop [] i smallestLoad smallestLoadIndex = smallestLoadIndex"
| "least_loop (l # load) i smallestLoad smallestLoadIndex =
     (if smallestLoad \<le> l then least_loop load (Suc i) smallestLoad smallestLoadIndex
      else least_loop load (Suc i) l i)"

definition getLeastLoaded :: "IOContextPool \<Rightarrow> nat \<times> IOContextPool" where
  "getLeastLoaded p =
     (let k = least_loop (pool_load p) 0 (- 1) 0
      in (k, p\<lparr>pool_load := (pool_load p)[k := pool_load p ! k + 1]\<rparr>))"

definition decLoad :: "nat \<Rightarrow> IOContextPool \<Rightarrow> IOContextPool" where
  "decLoad k p =
     p\<lparr>pool_load := map (\<lambda>i. if i \<noteq> k then pool_load p ! i
                             else if pool_load p ! i > 0 then pool_load p ! i - 1
                             else pool_load p ! i) [0..<length (pool_load p)]\<rparr>"

text \<open>The destructor of a guard, which may outlive the pool.\<close>

definition LoadGuard_dtor :: "nat \<Rightarrow> IOContextPool option \<Rightarrow> IOContextPool option" where
  "LoadGuard_dtor k pool = map_option (decLoad k) pool"

text \<open>The threads; \<^const>\<open>None\<close> is the \<^verbatim>\<open>std::runtime_error\<close> of a second call.\<close>

definition runInSeparateThreads :: "bool \<Rightarrow> IOContextPool \<Rightarrow> IOContextPool option" where
  "runInSeparateThreads forever p =
     (if pool_workerThreads p \<noteq> 0 \<or> pool_workGuards p \<noteq> 0 then None
      else Some (p\<lparr>pool_workGuards := (if forever then unat (pool_size p) else pool_workGuards p),
                   pool_workerThreads := unat (pool_size p)\<rparr>))"

definition pool_stop :: "IOContextPool \<Rightarrow> IOContextPool" where
  "pool_stop p = p\<lparr>pool_workerThreads := 0, pool_workGuards := 0\<rparr>"

definition IOContextPool_dtor :: "IOContextPool \<Rightarrow> IOContextPool" where
  "IOContextPool_dtor p = (if pool_workerThreads p \<noteq> 0 then pool_stop p else p)"

section \<open>SocketAcceptor\<close>

datatype policy = RandomIOContextPolicy | LeastLoadedIOContextPolicy

text \<open>
  \<open>sa_pending\<close> is the context of the socket that \<^verbatim>\<open>async_accept\<close> will fill; with the least
  loaded policy the handler also owns a guard of that context. The callbacks of a policy are
  set by its constructor.
\<close>

record SocketAcceptor =
  sa_randomCallback :: bool
  sa_leastLoadedCallback :: bool
  sa_workersPool :: IOContextPool
  sa_pending :: "nat option"

datatype sa_out = NewSocket nat | NewSocketWithGuard nat

definition SocketAcceptor_create :: "policy \<Rightarrow> IOContextPool \<Rightarrow> SocketAcceptor" where
  "SocketAcceptor_create policy workers =
     \<lparr>sa_randomCallback = (policy = RandomIOContextPolicy),
      sa_leastLoadedCallback = (policy = LeastLoadedIOContextPolicy),
      sa_workersPool = workers, sa_pending = None\<rparr>"

definition acceptOne :: "policy \<Rightarrow> SocketAcceptor \<Rightarrow> SocketAcceptor" where
  "acceptOne policy a =
     (let (k, pool) = (case policy of
                         RandomIOContextPolicy \<Rightarrow> getNext (sa_workersPool a)
                       | LeastLoadedIOContextPolicy \<Rightarrow> getLeastLoaded (sa_workersPool a))
      in a\<lparr>sa_workersPool := pool, sa_pending := Some k\<rparr>)"

definition SocketAcceptor_run :: "SocketAcceptor \<Rightarrow> SocketAcceptor" where
  "SocketAcceptor_run a =
     (if sa_randomCallback a then acceptOne RandomIOContextPolicy a
      else if sa_leastLoadedCallback a then acceptOne LeastLoadedIOContextPolicy a
      else a)"

text \<open>The handler of \<^verbatim>\<open>async_accept\<close>. On an error the handler, and a guard in it, are destroyed.\<close>

definition onAccept :: "policy \<Rightarrow> bool \<Rightarrow> SocketAcceptor \<Rightarrow> SocketAcceptor \<times> sa_out list" where
  "onAccept policy ec a =
     (case sa_pending a of
        None \<Rightarrow> (a, [])
      | Some k \<Rightarrow>
          (let a' = a\<lparr>sa_pending := None\<rparr>
           in if ec then
                (case policy of
                   RandomIOContextPolicy \<Rightarrow> (a', [])
                 | LeastLoadedIOContextPolicy \<Rightarrow> (a'\<lparr>sa_workersPool := decLoad k (sa_workersPool a')\<rparr>, []))
              else
                (acceptOne policy a',
                 [case policy of RandomIOContextPolicy \<Rightarrow> NewSocket k
                               | LeastLoadedIOContextPolicy \<Rightarrow> NewSocketWithGuard k])))"

section \<open>launchWithDelay\<close>

text \<open>The handler of the timer: the callback to call, if any.\<close>

definition launchWithDelay :: "bool \<Rightarrow> 'a option \<Rightarrow> 'a option" where
  "launchWithDelay ec callback = (if ec then None else callback)"

section \<open>An acceptor and the guards it has given away\<close>

record AcceptorRun =
  acc_acceptor :: SocketAcceptor
  acc_guards :: "nat list"

datatype acc_event = Acc_Accept bool | Acc_Release nat

definition acc_begin :: "size_t \<Rightarrow> AcceptorRun" where
  "acc_begin sz =
     \<lparr>acc_acceptor = SocketAcceptor_run (SocketAcceptor_create LeastLoadedIOContextPolicy (IOContextPool_create sz)),
      acc_guards = []\<rparr>"

fun guard_of :: "sa_out \<Rightarrow> nat list" where
  "guard_of (NewSocketWithGuard k) = [k]"
| "guard_of (NewSocket k) = []"

text \<open>An accepted connection keeps its guard until the owner destroys it.\<close>

fun acc_step :: "AcceptorRun \<Rightarrow> acc_event \<Rightarrow> AcceptorRun" where
  "acc_step r (Acc_Accept ec) =
     (let (a, out) = onAccept LeastLoadedIOContextPolicy ec (acc_acceptor r)
      in \<lparr>acc_acceptor = a, acc_guards = acc_guards r @ concat (map guard_of out)\<rparr>)"
| "acc_step r (Acc_Release n) =
     (if length (acc_guards r) \<le> n then r
      else
        (let a = acc_acceptor r
         in \<lparr>acc_acceptor = a\<lparr>sa_workersPool := decLoad (acc_guards r ! n) (sa_workersPool a)\<rparr>,
             acc_guards = take n (acc_guards r) @ drop (Suc n) (acc_guards r)\<rparr>))"

section \<open>The least loaded context\<close>

lemma least_loop_min:
  assumes "\<forall>j < i. smallest \<le> ls ! j" "i \<le> length ls" "best < length ls \<or> ls = []"
    and "smallest = ls ! best \<or> (smallest = - 1 \<and> i = 0 \<and> best = 0)" "ls \<noteq> []"
  shows "least_loop (drop i ls) i smallest best < length ls \<and>
    (\<forall>j < length ls. ls ! least_loop (drop i ls) i smallest best \<le> ls ! j)"
  using assms
proof (induction "length ls - i" arbitrary: i smallest best)
  case 0
  then have "i = length ls" by simp
  moreover from this have "smallest = ls ! best" using 0 by auto
  ultimately show ?case using 0 by auto
next
  case (Suc d)
  then have i: "i < length ls" by simp
  then have dr: "drop i ls = ls ! i # drop (Suc i) ls" by (simp add: Cons_nth_drop_Suc)
  show ?case
  proof (cases "smallest \<le> ls ! i")
    case True
    have eq: "smallest = ls ! best \<or> (smallest = - 1 \<and> Suc i = 0 \<and> best = 0)"
      using Suc.prems(4) True by (auto simp: word_order.extremum_unique)
    have "\<forall>j < Suc i. smallest \<le> ls ! j" using Suc.prems(1) True by (auto simp: less_Suc_eq)
    from Suc.hyps(1) [OF _ this _ Suc.prems(3) eq Suc.prems(5)] Suc.hyps(2) i show ?thesis
      unfolding dr using True by simp
  next
    case False
    have "\<forall>j < Suc i. ls ! i \<le> ls ! j"
      using Suc.prems(1) False by (auto simp: less_Suc_eq intro: order.trans [OF less_imp_le])
    from Suc.hyps(1) [OF _ this _ _ _ Suc.prems(5)] Suc.hyps(2) i show ?thesis
      unfolding dr using False by simp
  qed
qed

lemma getLeastLoaded_min:
  assumes "pool_load p \<noteq> []"
  shows "fst (getLeastLoaded p) < length (pool_load p)"
    "j < length (pool_load p) \<Longrightarrow> pool_load p ! fst (getLeastLoaded p) \<le> pool_load p ! j"
  using least_loop_min [of 0 "- 1" "pool_load p" 0] assms by (auto simp: getLeastLoaded_def Let_def)

section \<open>Loads count guards\<close>

text \<open>The abstract pool is the multiset of the contexts of all living guards.\<close>

definition pool_counts :: "IOContextPool \<Rightarrow> nat multiset \<Rightarrow> bool" where
  "pool_counts p guards \<longleftrightarrow>
     pool_load p \<noteq> [] \<and> (\<forall>k \<in># guards. k < length (pool_load p)) \<and>
     (\<forall>i < length (pool_load p). unat (pool_load p ! i) = count guards i)"

lemma pool_counts_create: "pool_counts (IOContextPool_create n) {#}"
proof -
  have "max n 1 \<noteq> 0" by (metis max.cobounded2 not_one_le_zero word_le_0_iff zero_neq_one)
  then show ?thesis by (simp add: pool_counts_def IOContextPool_create_def Let_def unat_eq_zero)
qed

lemma getLeastLoaded_eq:
  "getLeastLoaded p =
    (fst (getLeastLoaded p),
     p\<lparr>pool_load := (pool_load p)[fst (getLeastLoaded p) := pool_load p ! fst (getLeastLoaded p) + 1]\<rparr>)"
  by (simp add: getLeastLoaded_def Let_def)

lemma pool_counts_getLeastLoaded:
  assumes c: "pool_counts p M" and s: "size M < 2 ^ 64 - 1" and g: "getLeastLoaded p = (k, p')"
  shows "pool_counts p' (add_mset k M) \<and> (\<forall>i < length (pool_load p). count M k \<le> count M i)"
proof -
  have k: "k = fst (getLeastLoaded p)" and p': "p' = p\<lparr>pool_load := (pool_load p)[k := pool_load p ! k + 1]\<rparr>"
    using g getLeastLoaded_eq [of p] by auto
  have ne: "pool_load p \<noteq> []" using c by (simp add: pool_counts_def)
  have kl: "k < length (pool_load p)" using getLeastLoaded_min(1) [OF ne] k by simp
  have "count M k < 2 ^ 64 - 1" using s count_le_size [of M k] by linarith
  then have "unat (pool_load p ! k) < 2 ^ 64 - 1" using c kl by (simp add: pool_counts_def)
  then have "unat (pool_load p ! k + 1) = Suc (unat (pool_load p ! k))"
    using unat_word_ariths(1) [of "pool_load p ! k" 1] by simp
  then have "pool_counts p' (add_mset k M)"
    using c kl by (auto simp: pool_counts_def p' nth_list_update)
  moreover have "count M k \<le> count M i" if "i < length (pool_load p)" for i
    using getLeastLoaded_min(2) [OF ne that] c kl that k by (simp add: pool_counts_def word_le_nat_alt)
  ultimately show ?thesis by blast
qed

lemma decLoad_nth: "i < length (pool_load p) \<Longrightarrow>
  pool_load (decLoad k p) ! i = (if i = k \<and> pool_load p ! i > 0 then pool_load p ! i - 1 else pool_load p ! i)"
  by (simp add: decLoad_def)

lemma pool_counts_decLoad:
  assumes c: "pool_counts p M" and k: "k \<in># M"
  shows "pool_counts (decLoad k p) (M - {#k#})"
proof -
  have l: "length (pool_load (decLoad k p)) = length (pool_load p)" by (simp add: decLoad_def)
  have "unat (pool_load (decLoad k p) ! i) = count (M - {#k#}) i" if i: "i < length (pool_load p)" for i
  proof (cases "i = k")
    case True
    then have "unat (pool_load p ! i) = count M k" "count M k > 0" using c k i by (simp_all add: pool_counts_def)
    moreover from this have "0 < unat (pool_load p ! i)" by simp
    then have "pool_load p ! i \<noteq> 0" by (simp only: unat_gt_0 not_False_eq_True)
    ultimately show ?thesis using True i by (simp add: decLoad_nth unat_minus_one word_gt_0)
  next
    case False
    then show ?thesis using c i by (simp add: decLoad_nth pool_counts_def)
  qed
  moreover have "pool_load (decLoad k p) \<noteq> []" using c l unfolding pool_counts_def by (metis length_0_conv)
  moreover have "\<forall>j \<in># M - {#k#}. j < length (pool_load p)"
    using c unfolding pool_counts_def by (meson in_diffD)
  ultimately show ?thesis unfolding pool_counts_def l by blast
qed

text \<open>The pool refines the multiset: creation, acquisition and release.\<close>

locale load_balancer =
  fixes acquire :: "'p \<Rightarrow> nat \<times> 'p" and release :: "nat \<Rightarrow> 'p \<Rightarrow> 'p" and loads :: "'p \<Rightarrow> nat multiset \<Rightarrow> bool"
    and contexts :: "'p \<Rightarrow> nat"
  assumes acquire_least: "loads p M \<Longrightarrow> size M < 2 ^ 64 - 1 \<Longrightarrow> acquire p = (k, p') \<Longrightarrow>
      loads p' (add_mset k M) \<and> (\<forall>i < contexts p. count M k \<le> count M i)"
    and release_one: "loads p M \<Longrightarrow> k \<in># M \<Longrightarrow> loads (release k p) (M - {#k#})"
begin

lemma acquire_loads: "loads p M \<Longrightarrow> size M < 2 ^ 64 - 1 \<Longrightarrow> loads (snd (acquire p)) (add_mset (fst (acquire p)) M)"
  using acquire_least by (metis prod.collapse)

lemma acquire_release: "loads p M \<Longrightarrow> size M < 2 ^ 64 - 1 \<Longrightarrow>
    loads (release (fst (acquire p)) (snd (acquire p))) M"
  using release_one [OF acquire_loads, of p M "fst (acquire p)"] by simp

end

interpretation pool: load_balancer getLeastLoaded decLoad pool_counts "\<lambda>p. length (pool_load p)"
  by unfold_locales (use pool_counts_getLeastLoaded pool_counts_decLoad in blast)+

section \<open>The acceptor\<close>

definition live_guards :: "AcceptorRun \<Rightarrow> nat multiset" where
  "live_guards r =
     mset (acc_guards r) + (case sa_pending (acc_acceptor r) of None \<Rightarrow> {#} | Some k \<Rightarrow> {#k#})"

definition acc_ok :: "AcceptorRun \<Rightarrow> bool" where
  "acc_ok r \<longleftrightarrow> pool_counts (sa_workersPool (acc_acceptor r)) (live_guards r)"

lemma acceptOne_ok:
  assumes "pool_counts (sa_workersPool a) (mset gs)" and "length gs < 2 ^ 64 - 1"
  shows "acc_ok \<lparr>acc_acceptor = acceptOne LeastLoadedIOContextPolicy a, acc_guards = gs\<rparr>"
  using pool.acquire_loads [OF assms(1)] assms(2)
  by (simp add: acc_ok_def live_guards_def acceptOne_def case_prod_beta)

lemma acc_begin_ok: "acc_ok (acc_begin n)"
proof -
  have "pool_counts (sa_workersPool (SocketAcceptor_create LeastLoadedIOContextPolicy (IOContextPool_create n))) (mset [])"
    using pool_counts_create by (simp add: SocketAcceptor_create_def)
  from acceptOne_ok [OF this] show ?thesis
    by (simp add: acc_begin_def SocketAcceptor_run_def SocketAcceptor_create_def)
qed

lemma mset_drop_nth: "n < length xs \<Longrightarrow> mset (take n xs @ drop (Suc n) xs) = mset xs - {#xs ! n#}"
proof -
  assume n: "n < length xs"
  then have "mset xs = mset (take n xs @ xs ! n # drop (Suc n) xs)" by (metis id_take_nth_drop)
  then show ?thesis by simp
qed

lemma acc_step_ok:
  assumes ok: "acc_ok r" and s: "length (acc_guards r) + 1 < 2 ^ 64 - 1"
  shows "acc_ok (acc_step r ev) \<and> length (acc_guards (acc_step r ev)) \<le> length (acc_guards r) + 1"
proof (cases ev)
  case (Acc_Accept ec)
  let ?a = "acc_acceptor r"
  show ?thesis
  proof (cases "sa_pending ?a")
    case None
    then show ?thesis using ok Acc_Accept by (simp add: onAccept_def acc_ok_def live_guards_def)
  next
    case (Some k)
    show ?thesis
    proof (cases ec)
      case True
      have "pool_counts (decLoad k (sa_workersPool ?a)) (live_guards r - {#k#})"
        using ok Some by (intro pool.release_one) (simp_all add: acc_ok_def live_guards_def)
      then show ?thesis using Acc_Accept Some True
        by (simp add: onAccept_def acc_ok_def live_guards_def Let_def)
    next
      case False
      let ?a' = "?a\<lparr>sa_pending := None\<rparr>"
      have "pool_counts (sa_workersPool ?a') (mset (acc_guards r @ [k]))"
        using ok Some by (simp add: acc_ok_def live_guards_def)
      from acceptOne_ok [OF this] s show ?thesis
        using Acc_Accept Some False by (simp add: onAccept_def Let_def)
    qed
  qed
next
  case (Acc_Release n)
  show ?thesis
  proof (cases "n < length (acc_guards r)")
    case True
    let ?k = "acc_guards r ! n"
    have "?k \<in># live_guards r" using True by (simp add: live_guards_def)
    then have "pool_counts (decLoad ?k (sa_workersPool (acc_acceptor r))) (live_guards r - {#?k#})"
      using ok by (intro pool.release_one) (simp_all add: acc_ok_def)
    moreover have "live_guards r - {#?k#} =
        mset (take n (acc_guards r) @ drop (Suc n) (acc_guards r)) +
          (case sa_pending (acc_acceptor r) of None \<Rightarrow> {#} | Some k \<Rightarrow> {#k#})"
      using True unfolding mset_drop_nth [OF True] by (simp add: live_guards_def)
    ultimately show ?thesis using Acc_Release True s
      by (simp add: acc_ok_def live_guards_def Let_def)
  next
    case False
    then show ?thesis using ok Acc_Release by simp
  qed
qed

lemma acc_run_ok:
  assumes "acc_ok r" "length (acc_guards r) + length evs + 1 < 2 ^ 64 - 1"
  shows "acc_ok (run_steps acc_step r evs) \<and> length (acc_guards (run_steps acc_step r evs)) \<le> length (acc_guards r) + length evs"
  using assms
proof (induction evs arbitrary: r)
  case (Cons ev evs)
  have "length (acc_guards r) + 1 < 2 ^ 64 - 1" using Cons.prems(2) by simp
  from acc_step_ok [OF Cons.prems(1) this, of ev] Cons.IH [of "acc_step r ev"] Cons.prems(2)
  show ?case by simp
qed simp

section \<open>Properties\<close>



text \<open>
An acceptor stops for good at its first error: after a failed accept nothing is being accepted
and no later event gives a connection to the program, although its documentation says that it
accepts sockets forever.
\<close>

theorem acceptor_stops_after_error:
  "let r = run_steps acc_step (acc_step r0 (Acc_Accept True)) evs
   in sa_pending (acc_acceptor r) = None \<and> length (acc_guards r) \<le> length (acc_guards r0)"
proof -
  have keep: "sa_pending (acc_acceptor (run_steps acc_step r evs)) = None \<and>
      length (acc_guards (run_steps acc_step r evs)) \<le> length (acc_guards r)"
    if "sa_pending (acc_acceptor r) = None" for r
    using that
  proof (induction evs arbitrary: r)
    case (Cons ev evs)
    have "sa_pending (acc_acceptor (acc_step r ev)) = None"
      "length (acc_guards (acc_step r ev)) \<le> length (acc_guards r)"
      using Cons.prems by (cases ev; simp add: onAccept_def Let_def)+
    then show ?case using Cons.IH [of "acc_step r ev"] by simp
  qed simp
  have "sa_pending (acc_acceptor (acc_step r0 (Acc_Accept True))) = None"
    "acc_guards (acc_step r0 (Acc_Accept True)) = acc_guards r0"
    by (simp_all add: onAccept_def Let_def split: option.split)
  then show ?thesis using keep [of "acc_step r0 (Acc_Accept True)"] by (simp add: Let_def)
qed

end
