(* ===== verification/Mains.thy ===== *)
theory Mains
  imports HttpSessions NetUtils Logger
begin

text \<open>
  app/master-node/main.cpp and app/secondary-node/main.cpp: how the two programs are put
  together. Boost.Program_options is a parameter: what it reads from the command line, and how
  it ends. A process is the record of the objects \<^verbatim>\<open>main\<close> has created when its own io context
  starts to run; an acceptor owns its pool, as in \<open>SocketAcceptor\<close>.
\<close>

section \<open>Command lines\<close>

text \<open>
  The table of options a program describes to the library: name, type with its default, whether it is
  required. What the library does with a table and a command line before it returns or throws: the
  values it has stored, whether \<^verbatim>\<open>help\<close> is among the options, and how it ends.
\<close>

datatype option_value = OV_String string | OV_Port "16 word" | OV_Size size_t

datatype option_kind =
    No_value
  | Optional_value
  | Default_value option_value
  | Required_value

datatype option_type = OT_None | OT_String | OT_Port | OT_Size

record option_description =
  od_name :: string
  od_type :: option_type
  od_kind :: option_kind

datatype po_end = PO_Returns | PO_RequiredOption string | PO_OtherError string

datatype 'a cmd_result = CmdArgs 'a | ExitProcess int | CmdThrows string

record MasterArgs =
  ma_nodeName :: string
  ma_httpPort :: "16 word"
  ma_commPort :: "16 word"
  ma_httpWorkers :: size_t
  ma_commWorkers :: size_t

record SecondaryArgs =
  sa_nodeName :: string
  sa_masterIp :: string
  sa_masterCommPort :: "16 word"
  sa_httpWorkers :: size_t
  sa_httpPort :: "16 word"

type_synonym program_options =
  "option_description list \<Rightarrow> string list \<Rightarrow> (string \<rightharpoonup> option_value) \<times> bool \<times> po_end"

text \<open>The variables of the \<^verbatim>\<open>CmdArgs\<close> the options store into; they start empty.\<close>

definition string_of :: "option_value option \<Rightarrow> string" where
  "string_of v = (case v of Some (OV_String s) \<Rightarrow> s | _ \<Rightarrow> [])"

definition port_of :: "option_value option \<Rightarrow> 16 word" where
  "port_of v = (case v of Some (OV_Port p) \<Rightarrow> p | _ \<Rightarrow> 0)"

definition size_of :: "option_value option \<Rightarrow> size_t" where
  "size_of v = (case v of Some (OV_Size n) \<Rightarrow> n | _ \<Rightarrow> 0)"

definition master_options :: "option_description list" where
  "master_options =
     [\<lparr>od_name = ''help'', od_type = OT_None, od_kind = No_value\<rparr>,
      \<lparr>od_name = ''name'', od_type = OT_String, od_kind = Optional_value\<rparr>,
      \<lparr>od_name = ''http-port'', od_type = OT_Port, od_kind = Required_value\<rparr>,
      \<lparr>od_name = ''comm-port'', od_type = OT_Port, od_kind = Required_value\<rparr>,
      \<lparr>od_name = ''http-workers'', od_type = OT_Size, od_kind = Default_value (OV_Size 3)\<rparr>,
      \<lparr>od_name = ''comm-workers'', od_type = OT_Size, od_kind = Default_value (OV_Size 3)\<rparr>]"

definition master_args :: "(string \<rightharpoonup> option_value) \<Rightarrow> MasterArgs" where
  "master_args vm =
     \<lparr>ma_nodeName = string_of (vm ''name''), ma_httpPort = port_of (vm ''http-port''),
      ma_commPort = port_of (vm ''comm-port''), ma_httpWorkers = size_of (vm ''http-workers''),
      ma_commWorkers = size_of (vm ''comm-workers'')\<rparr>"

definition secondary_options :: "option_description list" where
  "secondary_options =
     [\<lparr>od_name = ''help'', od_type = OT_None, od_kind = No_value\<rparr>,
      \<lparr>od_name = ''name'', od_type = OT_String, od_kind = Default_value (OV_String ''secondary'')\<rparr>,
      \<lparr>od_name = ''http-port'', od_type = OT_Port, od_kind = Required_value\<rparr>,
      \<lparr>od_name = ''http-workers'', od_type = OT_Size, od_kind = Default_value (OV_Size 3)\<rparr>,
      \<lparr>od_name = ''master-ip'', od_type = OT_String, od_kind = Required_value\<rparr>,
      \<lparr>od_name = ''master-comm-port'', od_type = OT_Port, od_kind = Required_value\<rparr>]"

definition secondary_args :: "(string \<rightharpoonup> option_value) \<Rightarrow> SecondaryArgs" where
  "secondary_args vm =
     \<lparr>sa_nodeName = string_of (vm ''name''), sa_masterIp = string_of (vm ''master-ip''),
      sa_masterCommPort = port_of (vm ''master-comm-port''), sa_httpWorkers = size_of (vm ''http-workers''),
      sa_httpPort = port_of (vm ''http-port'')\<rparr>"

text \<open>The end of both functions: \<^verbatim>\<open>help\<close> wins over a required option that is missing.\<close>

definition cmd_result_of :: "'a \<Rightarrow> bool \<Rightarrow> po_end \<Rightarrow> 'a cmd_result" where
  "cmd_result_of args help outcome =
     (case outcome of
           PO_Returns \<Rightarrow> if help then ExitProcess 0 else CmdArgs args
         | PO_RequiredOption what \<Rightarrow> if help then ExitProcess 0 else CmdThrows what
         | PO_OtherError what \<Rightarrow> CmdThrows what)"

definition readCmdArgs :: "program_options \<Rightarrow> string list \<Rightarrow> MasterArgs cmd_result" where
  "readCmdArgs po argv =
     (let (vm, help, outcome) = po master_options argv in cmd_result_of (master_args vm) help outcome)"

definition secondary_readCmdArgs :: "program_options \<Rightarrow> string list \<Rightarrow> SecondaryArgs cmd_result" where
  "secondary_readCmdArgs po argv =
     (let (vm, help, outcome) = po secondary_options argv in cmd_result_of (secondary_args vm) help outcome)"

text \<open>
  What the library documents: when it returns, every required option and every option with a default
  has a value, of the type of the option, and every value has the type of its option.
\<close>

fun has_type :: "option_type \<Rightarrow> option_value \<Rightarrow> bool" where
  "has_type OT_String (OV_String _) = True"
| "has_type OT_Port (OV_Port _) = True"
| "has_type OT_Size (OV_Size _) = True"
| "has_type _ _ = False"

definition stored_ok :: "(string \<rightharpoonup> option_value) \<Rightarrow> option_description \<Rightarrow> bool" where
  "stored_ok vm d \<longleftrightarrow>
     (case vm (od_name d) of
        Some v \<Rightarrow> has_type (od_type d) v
      | None \<Rightarrow> (case od_kind d of No_value \<Rightarrow> True | Optional_value \<Rightarrow> True | _ \<Rightarrow> False))"

definition po_documented :: "program_options \<Rightarrow> bool" where
  "po_documented po \<longleftrightarrow>
     (\<forall>desc argv vm help. po desc argv = (vm, help, PO_Returns) \<longrightarrow> (\<forall>d \<in> set desc. stored_ok vm d))"

text \<open>So the arguments of a program that starts are those of the command line or the defaults.\<close>

lemma secondary_readCmdArgs_complete:
  assumes "po_documented po" "secondary_readCmdArgs po argv = CmdArgs args"
  shows "\<exists>vm. fst (po secondary_options argv) = vm \<and> vm ''name'' = Some (OV_String (sa_nodeName args)) \<and>
     vm ''http-port'' = Some (OV_Port (sa_httpPort args)) \<and> vm ''http-workers'' = Some (OV_Size (sa_httpWorkers args)) \<and>
     vm ''master-ip'' = Some (OV_String (sa_masterIp args)) \<and>
     vm ''master-comm-port'' = Some (OV_Port (sa_masterCommPort args))"
proof -
  obtain vm h outcome where p: "po secondary_options argv = (vm, h, outcome)" by (cases "po secondary_options argv")
  then have r: "outcome = PO_Returns" "args = secondary_args vm"
    using assms(2) by (auto simp: secondary_readCmdArgs_def cmd_result_of_def split: po_end.splits if_splits)
  then have "\<forall>d \<in> set secondary_options. stored_ok vm d" using assms(1) p by (auto simp: po_documented_def)
  then show ?thesis
    unfolding p r(2) fst_conv
    by (auto simp: secondary_options_def stored_ok_def secondary_args_def string_of_def port_of_def size_of_def
        split: option.splits elim!: has_type.elims)
qed

lemma readCmdArgs_complete:
  assumes "po_documented po" "readCmdArgs po argv = CmdArgs args"
  shows "\<exists>vm. fst (po master_options argv) = vm \<and>
     vm ''http-port'' = Some (OV_Port (ma_httpPort args)) \<and> vm ''comm-port'' = Some (OV_Port (ma_commPort args)) \<and>
     vm ''http-workers'' = Some (OV_Size (ma_httpWorkers args)) \<and> vm ''comm-workers'' = Some (OV_Size (ma_commWorkers args)) \<and>
     (vm ''name'' = Some (OV_String (ma_nodeName args)) \<or> vm ''name'' = None \<and> ma_nodeName args = [])"
proof -
  obtain vm h outcome where p: "po master_options argv = (vm, h, outcome)" by (cases "po master_options argv")
  then have r: "outcome = PO_Returns" "args = master_args vm"
    using assms(2) by (auto simp: readCmdArgs_def cmd_result_of_def split: po_end.splits if_splits)
  then have "\<forall>d \<in> set master_options. stored_ok vm d" using assms(1) p by (auto simp: po_documented_def)
  then show ?thesis
    unfolding p r(2) fst_conv
    by (auto simp: master_options_def stored_ok_def master_args_def string_of_def port_of_def size_of_def
        split: option.splits elim!: has_type.elims)
qed

section \<open>The master's process\<close>

record MasterProcess =
  mp_logger :: LoggerState
  mp_utilityPool :: IOContextPool
  mp_masterContext :: nat
  mp_masterNode :: MasterNode
  mp_acceptorContext :: nat
  mp_secondariesAcceptor :: SocketAcceptor
  mp_httpAcceptor :: SocketAcceptor

text \<open>\<^const>\<open>None\<close> is an exception of \<^verbatim>\<open>runInSeparateThreads\<close>.\<close>

definition master_main :: "MasterArgs \<Rightarrow> LoggerState \<Rightarrow> MasterProcess option" where
  "master_main args g =
     (let g' = logger_setup (if ma_nodeName args = '''' then ''master-node'' else ma_nodeName args) Info g
      in case runInSeparateThreads True (IOContextPool_create 3) of
           None \<Rightarrow> None
         | Some httpWorkersPool \<Rightarrow>
      (case runInSeparateThreads True (IOContextPool_create 2) of
           None \<Rightarrow> None
         | Some utilityPool \<Rightarrow>
      (let (masterContext, utilityPool1) = getNext utilityPool
       in case runInSeparateThreads True (IOContextPool_create (ma_commWorkers args)) of
            None \<Rightarrow> None
          | Some secondariesPool \<Rightarrow>
       (let (acceptorContext, utilityPool2) = getNext utilityPool1;
            secondariesAcceptor =
              SocketAcceptor_run (SocketAcceptor_create LeastLoadedIOContextPolicy secondariesPool);
            httpSocketAcceptor =
              SocketAcceptor_run (SocketAcceptor_create RandomIOContextPolicy httpWorkersPool)
        in Some \<lparr>mp_logger = g', mp_utilityPool = utilityPool2, mp_masterContext = masterContext,
                 mp_masterNode = MasterNode_create, mp_acceptorContext = acceptorContext,
                 mp_secondariesAcceptor = secondariesAcceptor, mp_httpAcceptor = httpSocketAcceptor\<rparr>))))"

text \<open>
  The two callbacks: a secondary's connection goes to the master node with its guard (and is
  closed, its guard released, when the node is gone); an HTTP connection gets a session.
\<close>

definition master_onSecondarySocket :: "MasterNode option \<Rightarrow> MasterNode option" where
  "master_onSecondarySocket weakMasterNode =
     (case weakMasterNode of None \<Rightarrow> None | Some masterNode \<Rightarrow> Some (addSecondary masterNode))"

definition onHttpSocket :: HttpSession where
  "onHttpSocket = HttpSession_run (HttpSession_create None)"

section \<open>The process of a secondary\<close>

record SecondaryProcess =
  sp_logger :: LoggerState
  sp_secondaryNode :: SecondaryNodeS
  sp_connection :: "sn_out list"
  sp_utilityPool :: IOContextPool
  sp_acceptorContext :: nat
  sp_httpAcceptor :: SocketAcceptor

definition secondary_main :: "SecondaryArgs \<Rightarrow> LoggerState \<Rightarrow> SecondaryProcess option" where
  "secondary_main args g =
     (let g' = logger_setup (sa_nodeName args) Info g;
          (secondaryNode, out) = SecondaryNodeS_run (SecondaryNodeS_create (sa_nodeName args))
      in case runInSeparateThreads True (IOContextPool_create (sa_httpWorkers args)) of
           None \<Rightarrow> None
         | Some httpWorkersPool \<Rightarrow>
      (case runInSeparateThreads True (IOContextPool_create 1) of
           None \<Rightarrow> None
         | Some utilityPool \<Rightarrow>
      (let (acceptorContext, utilityPool1) = getNext utilityPool;
           httpSocketAcceptor =
             SocketAcceptor_run (SocketAcceptor_create RandomIOContextPolicy httpWorkersPool)
       in Some \<lparr>sp_logger = g', sp_secondaryNode = secondaryNode, sp_connection = out,
                sp_utilityPool = utilityPool1, sp_acceptorContext = acceptorContext,
                sp_httpAcceptor = httpSocketAcceptor\<rparr>)))"

section \<open>What the programs start with\<close>

text \<open>
  Every context of a pool is run by one thread of its own, which is why the handlers of one
  context never run at the same time.
\<close>

definition one_thread_each :: "IOContextPool \<Rightarrow> bool" where
  "one_thread_each p \<longleftrightarrow>
     0 < pool_workerThreads p \<and> length (pool_load p) = unat (pool_size p) \<and>
     pool_workerThreads p = length (pool_load p) \<and> pool_workGuards p = length (pool_load p)"

lemma run_fresh_pool:
  "\<exists>p. runInSeparateThreads True (IOContextPool_create n) = Some p \<and> one_thread_each p \<and>
     pool_size p = max n 1 \<and> pool_nextCounter p = 0 \<and> pool_load p = replicate (unat (max n 1)) 0"
proof -
  have "unat (1 :: size_t) \<le> unat (max n 1)" by (simp only: word_le_nat_alt [symmetric] max.cobounded2)
  then have "0 < unat (max n 1)" by simp
  then show ?thesis by (simp add: runInSeparateThreads_def IOContextPool_create_def one_thread_each_def Let_def)
qed

lemma one_thread_each_getNext [simp]: "one_thread_each (snd (getNext p)) = one_thread_each p"
  by (simp add: getNext_def one_thread_each_def)

lemma one_thread_each_getLeastLoaded [simp]: "one_thread_each (snd (getLeastLoaded p)) = one_thread_each p"
  by (simp add: getLeastLoaded_def one_thread_each_def Let_def)

lemma acceptor_started:
  assumes "one_thread_each p"
  shows "let a = SocketAcceptor_run (SocketAcceptor_create policy p)
     in one_thread_each (sa_workersPool a) \<and> pool_size (sa_workersPool a) = pool_size p \<and> sa_pending a \<noteq> None"
  using assms one_thread_each_getNext [of p] one_thread_each_getLeastLoaded [of p]
  by (cases policy)
    (auto simp: SocketAcceptor_run_def SocketAcceptor_create_def acceptOne_def getNext_def getLeastLoaded_def Let_def
      split: prod.splits)


section \<open>Properties\<close>

text \<open>
The master starts up whatever its options are: no pool throws; its HTTP pool has three threads, also when
\<^verbatim>\<open>--http-workers\<close> asks for another number; its communication pool has the threads asked for, but at
least one; every context has its own thread; both acceptors are waiting for a connection; and the node
and the acceptor of the secondaries run on two different contexts.
\<close>

theorem master_main_starts:
  "\<exists>p. master_main args g = Some p \<and>
     pool_size (sa_workersPool (mp_httpAcceptor p)) = 3 \<and>
     pool_size (sa_workersPool (mp_secondariesAcceptor p)) = max (ma_commWorkers args) 1 \<and>
     one_thread_each (mp_utilityPool p) \<and> one_thread_each (sa_workersPool (mp_httpAcceptor p)) \<and>
     one_thread_each (sa_workersPool (mp_secondariesAcceptor p)) \<and>
     sa_pending (mp_httpAcceptor p) \<noteq> None \<and> sa_pending (mp_secondariesAcceptor p) \<noteq> None \<and>
     mp_masterContext p \<noteq> mp_acceptorContext p"
proof -
  obtain http where http: "runInSeparateThreads True (IOContextPool_create 3) = Some http" "one_thread_each http" "pool_size http = 3"
    using run_fresh_pool [of 3] by (auto simp: max_def word_le_nat_alt)
  obtain util where util: "runInSeparateThreads True (IOContextPool_create 2) = Some util" "one_thread_each util"
      "pool_size util = 2" "pool_nextCounter util = 0"
    using run_fresh_pool [of 2] by (auto simp: max_def word_le_nat_alt)
  obtain comm where comm: "runInSeparateThreads True (IOContextPool_create (ma_commWorkers args)) = Some comm"
      "one_thread_each comm" "pool_size comm = max (ma_commWorkers args) 1"
    using run_fresh_pool [of "ma_commWorkers args"] by auto
  have nxt: "getNext util = (0, util\<lparr>pool_nextCounter := 1\<rparr>)"
    "getNext (util\<lparr>pool_nextCounter := 1\<rparr>) = (1, util\<lparr>pool_nextCounter := 2\<rparr>)"
    by (simp_all add: getNext_def util)
  have "one_thread_each (util\<lparr>pool_nextCounter := 2\<rparr>)" using util(2) by (simp add: one_thread_each_def)
  then show ?thesis
    using acceptor_started [OF http(2), of RandomIOContextPolicy]
      acceptor_started [OF comm(2), of LeastLoadedIOContextPolicy]
    by (simp add: master_main_def http comm util(1) nxt Let_def)
qed

text \<open>
A secondary starts up whatever its options are, with the HTTP threads asked for, but at least one, one
attempt to connect to the master under way, and its acceptor waiting.
\<close>

theorem secondary_main_starts:
  "\<exists>p. secondary_main args g = Some p \<and>
     pool_size (sa_workersPool (sp_httpAcceptor p)) = max (sa_httpWorkers args) 1 \<and>
     one_thread_each (sp_utilityPool p) \<and> one_thread_each (sa_workersPool (sp_httpAcceptor p)) \<and>
     sa_pending (sp_httpAcceptor p) \<noteq> None \<and>
     sp_connection p = [SN_Connect] \<and> sns_connects (sp_secondaryNode p) = 1 \<and> \<not> sns_operational (sp_secondaryNode p)"
proof -
  obtain http where http: "runInSeparateThreads True (IOContextPool_create (sa_httpWorkers args)) = Some http"
      "one_thread_each http" "pool_size http = max (sa_httpWorkers args) 1"
    using run_fresh_pool [of "sa_httpWorkers args"] by auto
  obtain util where util: "runInSeparateThreads True (IOContextPool_create 1) = Some util" "one_thread_each util"
    using run_fresh_pool [of 1] by auto
  obtain k util' where nxt: "getNext util = (k, util')" "one_thread_each util'"
    using one_thread_each_getNext [of util] util(2) by (cases "getNext util") simp
  show ?thesis
    using acceptor_started [OF http(2), of RandomIOContextPolicy]
    by (simp add: nxt secondary_main_def http util(1) SecondaryNodeS_run_def SecondaryNodeS_create_def
        reconnectToMaster_def Let_def)
qed

end
